(* ===== verification/Prelude.thy ===== *)
theory Prelude
  imports Main
begin

text \<open>
  Shared vocabulary of the development.

  The modelled code is Python. A call either returns or raises, so an operation that can
  raise is a function into \<open>exn + 'a\<close>: \<open>Inl\<close> is the exception, \<open>Inr\<close> the result. An
  exception ends the run of the model; the code has no handler that resumes training after
  one, so the partly updated state it leaves behind is not kept. \<open>ebind\<close> sequences such
  operations and \<open>foldE\<close> is a \<^verbatim>\<open>for\<close> loop whose body can raise.

  The second half holds the facts about lists, ceilings and finite sums that several
  components share. The locale \<open>machine\<close> is the contract of a component whose operations
  are given as steps of a deterministic machine: an invariant kept by every step is kept by
  every run.
\<close>

section \<open>Exceptions\<close>

datatype exn =
    RuntimeError string
  | ValueError string
  | TypeError string
  | AssertionError
  | IndexError
  | KeyError
  | OverflowError
  | ZeroDivisionError
  | UnboundLocalError
  | AttributeError
  | EOFError

type_synonym 'a result = "exn + 'a"

definition ebind :: "'a result \<Rightarrow> ('a \<Rightarrow> 'b result) \<Rightarrow> 'b result" where
  "ebind m f = (case m of Inl e \<Rightarrow> Inl e | Inr x \<Rightarrow> f x)"

lemma ebind_Inl [simp]: "ebind (Inl e) f = Inl e"
  by (simp add: ebind_def)

lemma ebind_Inr [simp]: "ebind (Inr x) f = f x"
  by (simp add: ebind_def)

lemma ebind_eq_Inr_iff: "ebind m f = Inr y \<longleftrightarrow> (\<exists>x. m = Inr x \<and> f x = Inr y)"
  by (cases m) (auto simp: ebind_def)

lemma ebind_assoc: "ebind (ebind m f) g = ebind m (\<lambda>x. ebind (f x) g)"
  by (cases m) simp_all

lemma ebind_InrE:
  assumes "ebind m f = Inr y"
  obtains x where "m = Inr x" and "f x = Inr y"
  using assms by (auto simp: ebind_eq_Inr_iff)

definition assert_that :: "bool \<Rightarrow> unit result" where
  "assert_that b = (if b then Inr () else Inl AssertionError)"

lemma assert_that_simps [simp]:
  "assert_that True = Inr ()" "assert_that False = Inl AssertionError"
  by (simp_all add: assert_that_def)

lemma assert_that_Inr_iff [simp]: "assert_that b = Inr u \<longleftrightarrow> b"
  by (simp add: assert_that_def)

fun foldE :: "('a \<Rightarrow> 's \<Rightarrow> 's result) \<Rightarrow> 'a list \<Rightarrow> 's \<Rightarrow> 's result" where
  "foldE f [] s = Inr s"
| "foldE f (x # xs) s = ebind (f x s) (foldE f xs)"

lemma foldE_append: "foldE f (xs @ ys) s = ebind (foldE f xs s) (foldE f ys)"
  by (induction xs arbitrary: s) (auto simp: ebind_def split: sum.splits)

text \<open>The invariant rule for a loop that can raise.\<close>

lemma foldE_invariant:
  assumes "foldE f xs s = Inr t" and "I s"
    and "\<And>x s s'. x \<in> set xs \<Longrightarrow> I s \<Longrightarrow> f x s = Inr s' \<Longrightarrow> I s'"
  shows "I t"
  using assms
proof (induction xs arbitrary: s)
  case Nil
  then show ?case by simp
next
  case (Cons x xs)
  from Cons.prems(1) obtain s' where "f x s = Inr s'" and rest: "foldE f xs s' = Inr t"
    by (auto elim: ebind_InrE)
  then have "I s'" using Cons.prems(2) Cons.prems(3) [of x s s'] by simp
  with rest show ?case by (rule Cons.IH) (metis Cons.prems(3) list.set_intros(2))
qed

text \<open>A loop whose body never raises does not raise.\<close>

lemma foldE_total:
  assumes "I s"
    and "\<And>x s. x \<in> set xs \<Longrightarrow> I s \<Longrightarrow> \<exists>s'. f x s = Inr s' \<and> I s'"
  shows "\<exists>t. foldE f xs s = Inr t \<and> I t"
  using assms
proof (induction xs arbitrary: s)
  case Nil
  then show ?case by simp
next
  case (Cons x xs)
  obtain s' where s': "f x s = Inr s'" "I s'"
    using Cons.prems(2) [of x s] Cons.prems(1) by auto
  have "\<exists>t. foldE f xs s' = Inr t \<and> I t"
    by (rule Cons.IH [OF s'(2)]) (simp add: Cons.prems(2))
  with s' show ?case by simp
qed

section \<open>Deterministic machines\<close>

fun run :: "('s \<Rightarrow> 'e \<Rightarrow> 's) \<Rightarrow> 's \<Rightarrow> 'e list \<Rightarrow> 's" where
  "run step s [] = s"
| "run step s (e # es) = run step (step s e) es"

lemma run_append: "run step s (xs @ ys) = run step (run step s xs) ys"
  by (induction xs arbitrary: s) auto

locale machine =
  fixes step :: "'s \<Rightarrow> 'e \<Rightarrow> 's"
    and inv :: "'s \<Rightarrow> bool"
  assumes step_inv: "inv s \<Longrightarrow> inv (step s e)"
begin

lemma run_inv: "inv s \<Longrightarrow> inv (run step s es)"
  by (induction es arbitrary: s) (auto intro: step_inv)

end

text \<open>A machine with an observation no step ever decreases.\<close>

locale monotone_machine = machine step inv
  for step :: "'s \<Rightarrow> 'e \<Rightarrow> 's" and inv :: "'s \<Rightarrow> bool" +
  fixes obs :: "'s \<Rightarrow> nat"
  assumes step_mono: "inv s \<Longrightarrow> obs s \<le> obs (step s e)"
begin

lemma run_mono: "inv s \<Longrightarrow> obs s \<le> obs (run step s es)"
proof (induction es arbitrary: s)
  case Nil
  then show ?case by simp
next
  case (Cons e es)
  from Cons.prems have "obs s \<le> obs (step s e)" and "inv (step s e)"
    by (auto intro: step_mono step_inv)
  with Cons.IH [of "step s e"] show ?case by simp
qed

end

section \<open>Lists\<close>

lemma sum_list_take_le: "sum_list (take k xs) \<le> sum_list (xs :: nat list)"
  by (metis append_take_drop_id le_add1 sum_list_append)

lemma sum_list_update_nat:
  "i < length xs \<Longrightarrow> sum_list (xs[i := y]) + xs ! i = sum_list xs + (y :: nat)"
proof (induction xs arbitrary: i)
  case Nil
  then show ?case by simp
next
  case (Cons x xs)
  then show ?case by (cases i) auto
qed

lemma concat_nth_block:
  assumes "\<And>ys. ys \<in> set yss \<Longrightarrow> length ys = k" and "r < length yss"
  shows "take k (drop (r * k) (concat yss)) = yss ! r"
  using assms
proof (induction yss arbitrary: r)
  case Nil
  then show ?case by simp
next
  case (Cons ys yss)
  show ?case
  proof (cases r)
    case 0
    with Cons.prems show ?thesis by simp
  next
    case (Suc r')
    with Cons have "take k (drop (r' * k) (concat yss)) = yss ! r'" by simp
    with Suc Cons.prems show ?thesis by (simp add: add.commute)
  qed
qed

lemma length_concat_uniform:
  "(\<And>ys. ys \<in> set yss \<Longrightarrow> length ys = k) \<Longrightarrow> length (concat yss) = length yss * k"
  by (induction yss) auto

lemma concat_concat_map: "concat (concat (map f xs)) = concat (map (\<lambda>x. concat (f x)) xs)"
  by (induction xs) auto

section \<open>Ceiling division\<close>

text \<open>\<^verbatim>\<open>math.ceil(n / w)\<close> for a positive \<open>w\<close>, in exact arithmetic.\<close>

definition ceil_div :: "nat \<Rightarrow> nat \<Rightarrow> nat" where
  "ceil_div n w = (n + (w - 1)) div w"

lemma ceil_div_mult_ge: "0 < w \<Longrightarrow> n \<le> w * ceil_div n w"
proof -
  assume w: "0 < w"
  have "n + (w - 1) = w * ceil_div n w + (n + (w - 1)) mod w"
    unfolding ceil_div_def by simp
  moreover have "(n + (w - 1)) mod w \<le> w - 1" using w
    by (simp add: Suc_leI less_Suc_eq_le [symmetric])
  ultimately show ?thesis by linarith
qed

lemma ceil_div_mult_lt: "0 < w \<Longrightarrow> w * ceil_div n w < n + w"
proof -
  assume w: "0 < w"
  have "w * ceil_div n w \<le> n + (w - 1)" unfolding ceil_div_def by simp
  with w show ?thesis by linarith
qed

lemma ceil_div_unique:
  assumes "0 < w" and "n \<le> w * q" and "w * q < n + w"
  shows "ceil_div n w = q"
proof -
  have "w * q < w * (ceil_div n w + 1)"
    using ceil_div_mult_ge [OF assms(1), of n] assms(3) by simp
  moreover have "w * ceil_div n w < w * (q + 1)"
    using ceil_div_mult_lt [OF assms(1), of n] assms(2) by simp
  ultimately have "q < ceil_div n w + 1" "ceil_div n w < q + 1"
    using assms(1) by (auto simp only: mult_less_cancel1)
  then show ?thesis by simp
qed

lemma ceil_div_dvd: "0 < w \<Longrightarrow> w dvd n \<Longrightarrow> ceil_div n w = n div w"
  by (rule ceil_div_unique) auto

lemma ceil_div_not_dvd: "0 < w \<Longrightarrow> \<not> w dvd n \<Longrightarrow> ceil_div n w = n div w + 1"
proof (rule ceil_div_unique)
  assume w: "0 < w" and nd: "\<not> w dvd n"
  then have lo: "0 < n mod w" and hi: "n mod w < w"
    by (auto simp: mod_greater_zero_iff_not_dvd)
  have eq: "w * (n div w) + n mod w = n" by simp
  show "n \<le> w * (n div w + 1)"
    unfolding distrib_left mult_1_right using eq hi by linarith
  show "w * (n div w + 1) < n + w"
    unfolding distrib_left mult_1_right using eq lo by linarith
qed

end
