(* ===== verification/FlagPool.thy ===== *)
theory FlagPool
  imports Prelude "HOL-Library.Word"
begin

text \<open>
  The completion-flag pool of \<^verbatim>\<open>src/smartnic_offload/gpu_flag_pool.py\<close> and the stream wait of
  \<^verbatim>\<open>cuda_stream_wait.py\<close>.

  The pool is a record with the attributes of the class \<^verbatim>\<open>GpuFlagPool\<close>; \<open>flags\<close> is the
  content of the int32 tensor. Every method is one definition. The environment is the DPU,
  which writes the generation of a request into the request's slot, and the compute stream,
  which runs the waits in the order they were enqueued. \<open>pool_step\<close> interleaves them.
\<close>

unbundle bit_operations_syntax

section \<open>State and operations\<close>

record flag_pool =
  pool_size :: int
  pool_mask :: int
  use_gpu :: bool
  base_addr :: int
  gens :: "int list"
  next_slot :: int
  flags :: "int list"

text \<open>\<^verbatim>\<open>_use_gpu_memory\<close>: the argument is the value of the environment variable, if it is set.\<close>

definition use_gpu_memory :: "string option \<Rightarrow> bool" where
  "use_gpu_memory v = ((case v of None \<Rightarrow> ''1'' | Some s \<Rightarrow> s) \<noteq> ''0'')"

text \<open>
  \<^verbatim>\<open>__init__\<close>: \<open>addr\<close> is the address the allocator returned for the zeroed tensor.
\<close>

definition init_pool :: "string option \<Rightarrow> int \<Rightarrow> int \<Rightarrow> flag_pool result" where
  "init_pool env addr sz =
     (if sz \<le> 0 \<or> sz AND (sz - 1) \<noteq> 0
      then Inl (ValueError ''GpuFlagPool size must be positive power of 2'')
      else Inr \<lparr>pool_size = sz, pool_mask = sz - 1, use_gpu = use_gpu_memory env,
                base_addr = addr, gens = replicate (nat sz) 0, next_slot = 0,
                flags = replicate (nat sz) 0\<rparr>)"

definition total_bytes :: "flag_pool \<Rightarrow> int" where
  "total_bytes p = pool_size p * 4"

text \<open>
  \<^verbatim>\<open>acquire\<close>: the counters move before the overflow test, so the pool is returned beside
  the result. The result is \<^verbatim>\<open>(slot_id, generation, gpu_addr, expected_value)\<close>.
\<close>

definition acquire :: "flag_pool \<Rightarrow> flag_pool \<times> (int \<times> int \<times> int \<times> int) result" where
  "acquire p =
     (let slot_id = next_slot p;
          p1 = p\<lparr>next_slot := (next_slot p + 1) AND pool_mask p\<rparr>
      in if \<not> (0 \<le> slot_id \<and> nat slot_id < length (gens p)) then (p1, Inl IndexError)
         else
           let gen = gens p ! nat slot_id + 1;
               p2 = p1\<lparr>gens := (gens p)[nat slot_id := gen]\<rparr>
           in if gen \<ge> 2 ^ 30 then (p2, Inl OverflowError)
              else (p2, Inr (slot_id, gen, base_addr p + slot_id * 4, gen)))"

definition reset_pool :: "flag_pool \<Rightarrow> flag_pool" where
  "reset_pool p = p\<lparr>flags := replicate (length (flags p)) 0,
                    gens := replicate (nat (pool_size p)) 0, next_slot := 0\<rparr>"

text \<open>
  \<^verbatim>\<open>stream_wait_value_eq\<close>: the driver is absent (\<open>None\<close>) or returns a code. On code 0 the wait
  \<open>(addr, value)\<close> is enqueued on the stream.
\<close>

definition stream_wait_value_eq ::
  "(int \<Rightarrow> int \<Rightarrow> int) option \<Rightarrow> (int \<times> int) list \<Rightarrow> int \<Rightarrow> int \<Rightarrow> (int \<times> int) list result" where
  "stream_wait_value_eq driver stream addr value =
     (case driver of
        None \<Rightarrow> Inl (RuntimeError ''cuStreamWaitValue32 not available'')
      | Some f \<Rightarrow>
          if f addr value \<noteq> 0 then Inl (RuntimeError ''cuStreamWaitValue32 failed'')
          else Inr (stream @ [(addr, value)]))"

text \<open>
  The comparison of the enqueued wait is on 32-bit words: the argument types of the binding
  are \<^verbatim>\<open>c_uint32\<close>, the slot is an int32.
\<close>

definition wait_fires :: "int \<Rightarrow> int \<Rightarrow> bool" where
  "wait_fires slot_content value = ((word_of_int slot_content :: 32 word) = word_of_int value)"

section \<open>Powers of two and the round-robin counter\<close>

lemma and_pred_zero_power_of_two:
  fixes n :: nat
  assumes "0 < n" and "n AND (n - 1) = 0"
  shows "\<exists>k. n = 2 ^ k"
  using assms
proof (induction n rule: less_induct)
  case (less n)
  show ?case
  proof (cases "even n")
    case True
    then obtain m where m: "n = 2 * m" by (elim evenE)
    with less.prems have "0 < m" by simp
    then have "(n - 1) div 2 = m - 1" and "odd (n - 1)" and "n div 2 = m"
      using m by (auto simp: even_diff_nat)
    then have "m AND (m - 1) = 0"
      using less.prems(2) and_nat_rec [of n "n - 1"] True by simp
    then obtain k where "m = 2 ^ k" using less.IH [of m] \<open>0 < m\<close> m by auto
    with m have "n = 2 ^ Suc k" by simp
    then show ?thesis by blast
  next
    case False
    then obtain m where m: "n = 2 * m + 1" by (elim oddE)
    then have "n AND (n - 1) = 2 * m"
      using and_nat_rec [of n "n - 1"] by simp
    with less.prems(2) m have "n = 2 ^ 0" by simp
    then show ?thesis by blast
  qed
qed

lemma and_pred_zero_power_of_two_int:
  assumes "\<not> (sz \<le> 0 \<or> sz AND (sz - 1) \<noteq> (0::int))"
  obtains k where "sz = 2 ^ k"
proof -
  have pos: "0 < sz" using assms by simp
  then have "nat sz AND (nat sz - 1) = nat (sz AND (sz - 1))"
    by (simp add: and_nat_def nat_diff_distrib)
  then have "nat sz AND (nat sz - 1) = 0" using assms by simp
  then obtain k where "nat sz = 2 ^ k"
    using and_pred_zero_power_of_two [of "nat sz"] pos by auto
  then have "sz = 2 ^ k" using pos by (metis int_nat_eq less_imp_le of_nat_numeral of_nat_power)
  then show thesis by (rule that)
qed

text \<open>
  What a run of acquires since the last reset determines: \<open>n\<close> acquires fill the slots in
  rounds, so slot \<open>i\<close> has been handed out once per round that reached it.
\<close>

definition gen_of :: "nat \<Rightarrow> nat \<Rightarrow> nat \<Rightarrow> nat" where
  "gen_of s n i = (if i < n mod s then n div s + 1 else n div s)"

definition pool_shape :: "nat \<Rightarrow> nat \<Rightarrow> flag_pool \<Rightarrow> bool" where
  "pool_shape s n p \<longleftrightarrow>
     (\<exists>k. s = 2 ^ k) \<and> pool_size p = int s \<and> pool_mask p = int s - 1
     \<and> next_slot p = int (n mod s) \<and> length (flags p) = s
     \<and> gens p = map (\<lambda>i. int (gen_of s n i)) [0..<s]"

lemma mod_Suc_cases:
  "0 < s \<Longrightarrow> Suc n mod s = (if Suc (n mod s) = s then 0 else Suc (n mod s))
    \<and> Suc n div s = (if Suc (n mod s) = s then Suc (n div s) else n div s)"
  by (simp add: mod_Suc div_Suc)

lemma gen_of_Suc:
  assumes "0 < s" and "i < s"
  shows "gen_of s (Suc n) i = (if i = n mod s then Suc (gen_of s n i) else gen_of s n i)"
  using assms mod_Suc_cases [OF assms(1), of n] mod_less_divisor [OF assms(1), of n]
  by (auto simp: gen_of_def)

lemma gen_of_next [simp]: "0 < s \<Longrightarrow> gen_of s n (n mod s) = n div s"
  by (simp add: gen_of_def)

lemma init_pool_shape:
  assumes "init_pool env addr sz = Inr p"
  shows "pool_shape (nat sz) 0 p \<and> flags p = replicate (nat sz) 0 \<and> base_addr p = addr"
proof -
  have ok: "\<not> (sz \<le> 0 \<or> sz AND (sz - 1) \<noteq> 0)"
    using assms by (auto simp: init_pool_def split: if_splits)
  then obtain k where k: "sz = 2 ^ k" by (rule and_pred_zero_power_of_two_int)
  then have "nat sz = 2 ^ k" by (simp add: nat_power_eq)
  moreover have "replicate (nat sz) 0 = map (\<lambda>i. int (gen_of (nat sz) 0 i)) [0..<nat sz]"
    by (simp add: gen_of_def map_replicate_const)
  ultimately show ?thesis
    using assms ok by (auto simp: init_pool_def pool_shape_def split: if_splits)
qed

lemma reset_pool_shape:
  "pool_shape s n p \<Longrightarrow> pool_shape s 0 (reset_pool p) \<and> flags (reset_pool p) = replicate s 0"
  by (auto simp: pool_shape_def reset_pool_def gen_of_def map_replicate_const)

lemma and_mask_mod:
  assumes "s = 2 ^ k"
  shows "int m AND (int s - 1) = int (m mod s)"
proof -
  have "int s - 1 = mask k" using assms by (simp add: mask_eq_exp_minus_1)
  then have "int m AND (int s - 1) = take_bit k (int m)" by (simp add: take_bit_eq_mask)
  also have "\<dots> = int (m mod s)" using assms by (simp add: take_bit_eq_mod of_nat_mod)
  finally show ?thesis .
qed

text \<open>One acquire, in closed form.\<close>

lemma acquire_shape:
  assumes "pool_shape s n p"
  shows "pool_shape s (Suc n) (fst (acquire p)) \<and> flags (fst (acquire p)) = flags p
    \<and> base_addr (fst (acquire p)) = base_addr p
    \<and> snd (acquire p) =
        (if Suc (n div s) \<ge> 2 ^ 30 then Inl OverflowError
         else Inr (int (n mod s), int (Suc (n div s)), base_addr p + int (n mod s) * 4,
                   int (Suc (n div s))))"
proof -
  obtain k where k: "s = 2 ^ k" using assms by (auto simp: pool_shape_def)
  then have s: "0 < s" by simp
  let ?i = "n mod s"
  have i: "?i < s" using s by simp
  have nx: "(int ?i + 1) AND (int s - 1) = int (Suc n mod s)"
    using and_mask_mod [OF k, of "Suc ?i"] by (simp add: mod_Suc_eq add.commute)
  have gl: "length (gens p) = s" and gi: "gens p ! ?i = int (n div s)"
    using assms i s by (auto simp: pool_shape_def)
  have upd: "(gens p)[?i := int (n div s) + 1] = map (\<lambda>j. int (gen_of s (Suc n) j)) [0..<s]"
  proof (rule nth_equalityI)
    fix j assume "j < length ((gens p)[?i := int (n div s) + 1])"
    then have "j < s" using gl by simp
    then show "(gens p)[?i := int (n div s) + 1] ! j = map (\<lambda>j. int (gen_of s (Suc n) j)) [0..<s] ! j"
      using assms s by (auto simp: pool_shape_def gen_of_Suc nth_list_update)
  qed (simp add: gl)
  have ge: "2 ^ 30 \<le> int (n div s) + 1 \<longleftrightarrow> 2 ^ 30 \<le> Suc (n div s)"
    by (metis of_nat_Suc of_nat_le_iff of_nat_numeral of_nat_power add.commute)
  show ?thesis
    using assms nx gl gi i upd ge
    by (auto simp: acquire_def pool_shape_def Let_def)
qed

section \<open>Tickets: what the users of a pool rely on\<close>

text \<open>The results of \<open>n\<close> successive acquires.\<close>

primrec tickets :: "('p \<Rightarrow> 'p \<times> 'r) \<Rightarrow> 'p \<Rightarrow> nat \<Rightarrow> 'r list" where
  "tickets acq p 0 = []"
| "tickets acq p (Suc n) = snd (acq p) # tickets acq (fst (acq p)) n"

lemma length_tickets [simp]: "length (tickets acq p n) = n"
  by (induction n arbitrary: p) auto

lemma mod_add_inj:
  fixes b j j' s :: nat
  assumes "(b + j) mod s = (b + j') mod s" and "j < s" and "j' < s"
  shows "j = j'"
proof -
  have "int s dvd int (b + j) - int (b + j')"
    using assms(1) by (metis mod_eq_dvd_iff of_nat_mod)
  then have d: "int s dvd int j - int j'" by simp
  show ?thesis
  proof (rule ccontr)
    assume "j \<noteq> j'"
    with d have "\<bar>int s\<bar> \<le> \<bar>int j - int j'\<bar>" by (intro dvd_imp_le_int) auto
    with assms(2,3) show False by linarith
  qed
qed

lemma mod_add_inj_iff:
  "j < s \<Longrightarrow> j' < s \<Longrightarrow> (b + j) mod s = (b + j') mod s \<longleftrightarrow> j = j'" for b :: nat
  by (auto dest: mod_add_inj)

lemma mod_div_inj: "k mod s = k' mod s \<Longrightarrow> k div s = k' div s \<Longrightarrow> k = k'" for k :: nat
  by (metis div_mult_mod_eq)

locale ticket_pool =
  fixes acq :: "'p \<Rightarrow> 'p \<times> (int \<times> int \<times> int \<times> int) result"
    and shape :: "nat \<Rightarrow> nat \<Rightarrow> 'p \<Rightarrow> bool"
    and base :: "'p \<Rightarrow> int"
  assumes shape_pos: "shape s n p \<Longrightarrow> 0 < s"
    and acq_shape: "shape s n p \<Longrightarrow> shape s (Suc n) (fst (acq p)) \<and> base (fst (acq p)) = base p"
    and acq_ticket: "shape s n p \<Longrightarrow> Suc (n div s) < 2 ^ 30 \<Longrightarrow>
      snd (acq p) = Inr (int (n mod s), int (Suc (n div s)), base p + int (n mod s) * 4,
                         int (Suc (n div s)))"
    and acq_overflow: "shape s n p \<Longrightarrow> \<not> Suc (n div s) < 2 ^ 30 \<Longrightarrow> snd (acq p) = Inl OverflowError"
begin

lemma nth_ticket:
  assumes "shape s n p" and "i < m"
  shows "tickets acq p m ! i =
    (if Suc ((n + i) div s) < 2 ^ 30
     then Inr (int ((n + i) mod s), int (Suc ((n + i) div s)), base p + int ((n + i) mod s) * 4,
               int (Suc ((n + i) div s)))
     else Inl OverflowError)"
  using assms
proof (induction m arbitrary: n p i)
  case 0
  then show ?case by simp
next
  case (Suc m)
  show ?case
  proof (cases i)
    case 0
    with Suc.prems show ?thesis
      using acq_ticket [of s n p] acq_overflow [of s n p] by simp
  next
    case (Suc i')
    with Suc.prems Suc.IH [of "Suc n" "fst (acq p)" i'] acq_shape [OF Suc.prems(1)]
    show ?thesis by simp
  qed
qed

lemma tickets_unique:
  assumes "shape s n p" and "i < m" and "j < m" and "i \<noteq> j"
    and "tickets acq p m ! i = Inr (slot, gen, a, v)"
    and "tickets acq p m ! j = Inr (slot', gen', a', v')"
  shows "(slot, gen) \<noteq> (slot', gen')"
  using assms mod_div_inj [of "n + i" s "n + j"]
  by (auto simp: nth_ticket split: if_splits)

lemma tickets_window:
  assumes "shape s n p" and "i < m" and "j < m" and "i < j" and "j - i < s"
    and "tickets acq p m ! i = Inr (slot, gen, a, v)"
    and "tickets acq p m ! j = Inr (slot', gen', a', v')"
  shows "slot \<noteq> slot'"
proof -
  have "(n + i + 0) mod s \<noteq> (n + i + (j - i)) mod s"
    using assms(4,5) shape_pos [OF assms(1)] by (subst mod_add_inj_iff) auto
  then show ?thesis using assms by (auto simp: nth_ticket split: if_splits)
qed

end

interpretation fp: ticket_pool acquire pool_shape base_addr
proof (unfold_locales, goal_cases)
  case 1
  then show ?case by (auto simp: pool_shape_def)
qed (use acquire_shape in \<open>auto simp: not_less\<close>)

section \<open>The pool, the DPU and the compute stream\<close>

text \<open>
  The requests in the order of their acquires. Each has the slot and the value of its ticket; the DPU
  writes the value into the slot when the request completes, at any time after it was posted and in
  any order. The handle of a request enqueues the wait for it on the compute stream when it is
  waited for, which may be in another order than that of the acquires, or never; the stream runs its
  waits in the order in which they were enqueued. A request is posted while every request whose wait has
  not fired is less than a pool size behind: a program that launches further ahead reuses a slot
  somebody still waits for.
\<close>

record flag_req =
  rq_slot :: int
  rq_value :: int
  rq_written :: bool
  rq_fired :: bool

record flag_sys =
  fs_pool :: flag_pool
  fs_reqs :: "flag_req list"
  fs_stream :: "nat list"

inductive pool_step :: "flag_sys \<Rightarrow> flag_sys \<Rightarrow> bool" where
  issue: "acquire (fs_pool \<sigma>) = (p, Inr (slot, gen, addr, v)) \<Longrightarrow>
    (\<And>i. i < length (fs_reqs \<sigma>) \<Longrightarrow> \<not> rq_fired (fs_reqs \<sigma> ! i) \<Longrightarrow> int (length (fs_reqs \<sigma>) - i) < pool_size (fs_pool \<sigma>)) \<Longrightarrow>
    pool_step \<sigma> (\<sigma>\<lparr>fs_pool := p,
      fs_reqs := fs_reqs \<sigma> @ [\<lparr>rq_slot = slot, rq_value = v, rq_written = False, rq_fired = False\<rparr>]\<rparr>)"
| enqueue: "i < length (fs_reqs \<sigma>) \<Longrightarrow> \<not> rq_fired (fs_reqs \<sigma> ! i) \<Longrightarrow> i \<notin> set (fs_stream \<sigma>) \<Longrightarrow>
    pool_step \<sigma> (\<sigma>\<lparr>fs_stream := fs_stream \<sigma> @ [i]\<rparr>)"
| dpu_write: "i < length (fs_reqs \<sigma>) \<Longrightarrow> r = fs_reqs \<sigma> ! i \<Longrightarrow> \<not> rq_written r \<Longrightarrow>
    pool_step \<sigma> (\<sigma>\<lparr>fs_pool := (fs_pool \<sigma>)\<lparr>flags := (flags (fs_pool \<sigma>))[nat (rq_slot r) := rq_value r]\<rparr>,
      fs_reqs := (fs_reqs \<sigma>)[i := r\<lparr>rq_written := True\<rparr>]\<rparr>)"
| fire: "fs_stream \<sigma> = i # rest \<Longrightarrow> r = fs_reqs \<sigma> ! i \<Longrightarrow> wait_fires (flags (fs_pool \<sigma>) ! nat (rq_slot r)) (rq_value r) \<Longrightarrow>
    pool_step \<sigma> (\<sigma>\<lparr>fs_reqs := (fs_reqs \<sigma>)[i := r\<lparr>rq_fired := True\<rparr>], fs_stream := rest\<rparr>)"

inductive pool_reachable :: "flag_pool \<Rightarrow> flag_sys \<Rightarrow> bool" for p\<^sub>0 where
  start: "pool_reachable p\<^sub>0 \<lparr>fs_pool = p\<^sub>0, fs_reqs = [], fs_stream = []\<rparr>"
| step: "pool_reachable p\<^sub>0 \<sigma> \<Longrightarrow> pool_step \<sigma> \<tau> \<Longrightarrow> pool_reachable p\<^sub>0 \<tau>"

text \<open>
  The invariant. Among the last \<open>s\<close> requests every slot occurs once, and its flag holds the generation
  of the request if that is written, else the generation before it; a slot not yet handed out holds 0.
\<close>

definition req_ok :: "nat \<Rightarrow> nat \<Rightarrow> flag_req \<Rightarrow> bool" where
  "req_ok s i r \<longleftrightarrow> Suc (i div s) < 2 ^ 30 \<and> rq_slot r = int (i mod s) \<and> rq_value r = int (Suc (i div s))
     \<and> (rq_fired r \<longrightarrow> rq_written r)"

definition flag_of :: "nat \<Rightarrow> nat \<Rightarrow> bool \<Rightarrow> int" where
  "flag_of s i w = int (i div s + (if w then 1 else 0))"

definition sys_inv :: "nat \<Rightarrow> flag_sys \<Rightarrow> bool" where
  "sys_inv s \<sigma> \<longleftrightarrow>
     pool_shape s (length (fs_reqs \<sigma>)) (fs_pool \<sigma>)
     \<and> (\<forall>i < length (fs_reqs \<sigma>). req_ok s i (fs_reqs \<sigma> ! i) \<and> (rq_fired (fs_reqs \<sigma> ! i) \<or> length (fs_reqs \<sigma>) \<le> i + s)
          \<and> (length (fs_reqs \<sigma>) \<le> i + s \<longrightarrow> flags (fs_pool \<sigma>) ! (i mod s) = flag_of s i (rq_written (fs_reqs \<sigma> ! i))))
     \<and> (\<forall>i. length (fs_reqs \<sigma>) \<le> i \<longrightarrow> i < s \<longrightarrow> flags (fs_pool \<sigma>) ! i = 0)
     \<and> distinct (fs_stream \<sigma>) \<and> (\<forall>i \<in> set (fs_stream \<sigma>). i < length (fs_reqs \<sigma>) \<and> \<not> rq_fired (fs_reqs \<sigma> ! i))"

lemma sys_inv_start:
  assumes "pool_shape s 0 p" and "flags p = replicate s 0"
  shows "sys_inv s \<lparr>fs_pool = p, fs_reqs = [], fs_stream = []\<rparr>"
  using assms by (simp add: sys_inv_def)

lemma wait_fires_iff:
  assumes "0 \<le> x" "x < 2 ^ 31" "0 \<le> y" "y < 2 ^ 31"
  shows "wait_fires x y \<longleftrightarrow> x = y"
proof -
  have "take_bit 32 x = x" "take_bit 32 y = y"
    using assms by (auto simp: take_bit_int_eq_self_iff)
  then show ?thesis by (auto simp: wait_fires_def word_of_int_eq_iff)
qed

lemma sys_inv_issue:
  assumes inv: "sys_inv s \<sigma>"
    and acq: "acquire (fs_pool \<sigma>) = (p, Inr (slot, gen, addr, v))"
    and room: "\<And>i. i < length (fs_reqs \<sigma>) \<Longrightarrow> \<not> rq_fired (fs_reqs \<sigma> ! i) \<Longrightarrow> int (length (fs_reqs \<sigma>) - i) < pool_size (fs_pool \<sigma>)"
  shows "sys_inv s (\<sigma>\<lparr>fs_pool := p,
    fs_reqs := fs_reqs \<sigma> @ [\<lparr>rq_slot = slot, rq_value = v, rq_written = False, rq_fired = False\<rparr>]\<rparr>)"
proof -
  let ?n = "length (fs_reqs \<sigma>)" and ?q = "\<lparr>rq_slot = slot, rq_value = v, rq_written = False, rq_fired = False\<rparr>"
  let ?rs = "fs_reqs \<sigma> @ [?q]"
  have shape: "pool_shape s ?n (fs_pool \<sigma>)" using inv by (simp add: sys_inv_def)
  have s: "0 < s" "pool_size (fs_pool \<sigma>) = int s" using shape by (auto simp: pool_shape_def)
  have A: "pool_shape s (Suc ?n) p" "flags p = flags (fs_pool \<sigma>)" "Suc (?n div s) < 2 ^ 30" "slot = int (?n mod s)"
      "v = int (Suc (?n div s))"
    using acquire_shape [OF shape] acq by (auto split: if_splits)
  have old: "req_ok s i (fs_reqs \<sigma> ! i)" "?n \<le> i + s \<Longrightarrow> flags p ! (i mod s) = flag_of s i (rq_written (fs_reqs \<sigma> ! i))"
      "rq_fired (fs_reqs \<sigma> ! i) \<or> Suc ?n \<le> i + s" if "i < ?n" for i
  proof -
    show "req_ok s i (fs_reqs \<sigma> ! i)" "?n \<le> i + s \<Longrightarrow> flags p ! (i mod s) = flag_of s i (rq_written (fs_reqs \<sigma> ! i))"
      using inv that A(2) by (simp_all add: sys_inv_def)
    show "rq_fired (fs_reqs \<sigma> ! i) \<or> Suc ?n \<le> i + s" using room [OF that] s(2) that by linarith
  qed
  have new: "flags p ! (?n mod s) = flag_of s ?n False"
  proof (cases "?n < s")
    case True
    then show ?thesis using inv A(2) by (simp add: sys_inv_def flag_of_def)
  next
    case False
    then have i: "?n - s < ?n" "?n \<le> ?n - s + s" using s(1) by simp_all
    then have "rq_fired (fs_reqs \<sigma> ! (?n - s))" using old(3) [OF i(1)] False by auto
    then have "rq_written (fs_reqs \<sigma> ! (?n - s))" using old(1) [OF i(1)] by (simp add: req_ok_def)
    moreover have "(?n - s) mod s = ?n mod s" "Suc ((?n - s) div s) = ?n div s"
      using False s(1) by (simp_all add: mod_if div_if [of ?n s])
    ultimately show ?thesis using old(2) [OF i] by (simp add: flag_of_def)
  qed
  have stream: "distinct (fs_stream \<sigma>)" "\<And>i. i \<in> set (fs_stream \<sigma>) \<Longrightarrow> i < ?n \<and> \<not> rq_fired (fs_reqs \<sigma> ! i)"
    using inv by (simp_all add: sys_inv_def)
  have fresh: "flags p ! i = 0" if "Suc ?n \<le> i" "i < s" for i using inv that A(2) by (simp add: sys_inv_def)
  have "req_ok s i (?rs ! i) \<and> (rq_fired (?rs ! i) \<or> Suc ?n \<le> i + s)
      \<and> (Suc ?n \<le> i + s \<longrightarrow> flags p ! (i mod s) = flag_of s i (rq_written (?rs ! i)))" if "i < Suc ?n" for i
  proof (cases "i = ?n")
    case True
    then show ?thesis using A(3-5) new s(1) by (simp add: req_ok_def)
  next
    case False
    then have "i < ?n" "?rs ! i = fs_reqs \<sigma> ! i" using that by (simp_all add: nth_append)
    then show ?thesis using old [of i] by auto
  qed
  moreover have "i < Suc ?n \<and> \<not> rq_fired (?rs ! i)" if "i \<in> set (fs_stream \<sigma>)" for i
    using stream(2) [OF that] by (simp add: nth_append)
  ultimately show ?thesis using A(1) fresh stream(1) by (simp add: sys_inv_def)
qed

lemma sys_inv_write:
  assumes inv: "sys_inv s \<sigma>"
    and i: "i < length (fs_reqs \<sigma>)" and r: "r = fs_reqs \<sigma> ! i" "\<not> rq_written r"
  shows "sys_inv s (\<sigma>\<lparr>fs_pool := (fs_pool \<sigma>)\<lparr>flags := (flags (fs_pool \<sigma>))[nat (rq_slot r) := rq_value r]\<rparr>,
      fs_reqs := (fs_reqs \<sigma>)[i := r\<lparr>rq_written := True\<rparr>]\<rparr>)"
proof -
  let ?n = "length (fs_reqs \<sigma>)" and ?rs = "(fs_reqs \<sigma>)[i := r\<lparr>rq_written := True\<rparr>]"
  let ?fl = "(flags (fs_pool \<sigma>))[nat (rq_slot r) := rq_value r]"
  have ok: "req_ok s i r" "\<not> rq_fired r" and win: "?n \<le> i + s" and fl: "length (flags (fs_pool \<sigma>)) = s"
    using inv i r by (auto simp: sys_inv_def req_ok_def pool_shape_def)
  have slot: "nat (rq_slot r) = i mod s" "rq_value r = flag_of s i True" using ok(1) by (simp_all add: req_ok_def flag_of_def)
  have s: "0 < s" using i win by simp
  have apart: "j mod s \<noteq> i mod s" if "j \<noteq> i" "j < ?n" "?n \<le> j + s" for j
  proof (cases "j < i")
    case True
    then have "(j + 0) mod s \<noteq> (j + (i - j)) mod s" using that i s by (subst mod_add_inj_iff) auto
    then show ?thesis using True by simp
  next
    case False
    then have "(i + 0) mod s \<noteq> (i + (j - i)) mod s" using that i win s by (subst mod_add_inj_iff) auto
    then show ?thesis using False by simp
  qed
  have "req_ok s j (?rs ! j) \<and> (rq_fired (?rs ! j) \<or> ?n \<le> j + s)
      \<and> (?n \<le> j + s \<longrightarrow> ?fl ! (j mod s) = flag_of s j (rq_written (?rs ! j)))" if "j < ?n" for j
  proof (cases "j = i")
    case True
    then show ?thesis using ok win i slot s fl by (simp add: req_ok_def)
  next
    case False
    then show ?thesis using inv that apart [OF False that] slot(1) by (auto simp: sys_inv_def)
  qed
  moreover have "?fl ! j = 0" if "?n \<le> j" "j < s" for j
    using inv that i slot(1) by (simp add: sys_inv_def nth_list_update)
  moreover have "\<not> rq_fired (?rs ! j)" if "j \<in> set (fs_stream \<sigma>)" for j
    using inv that ok(2) i by (cases "j = i") (auto simp: sys_inv_def)
  ultimately show ?thesis using inv by (simp add: sys_inv_def pool_shape_def)
qed

lemma unfired_fires_iff:
  assumes inv: "sys_inv s \<sigma>" and i: "i < length (fs_reqs \<sigma>)" and r: "r = fs_reqs \<sigma> ! i" "\<not> rq_fired r"
  shows "wait_fires (flags (fs_pool \<sigma>) ! nat (rq_slot r)) (rq_value r) \<longleftrightarrow> rq_written r"
proof -
  have ok: "req_ok s i r" and fl: "flags (fs_pool \<sigma>) ! (i mod s) = flag_of s i (rq_written r)"
    using inv i r unfolding sys_inv_def by blast+
  have "int (Suc (i div s)) < 2 ^ 31" using ok by (simp add: req_ok_def flip: of_nat_less_iff)
  then show ?thesis using ok fl by (simp add: req_ok_def flag_of_def wait_fires_iff)
qed

lemma pool_step_inv: "pool_step \<sigma> \<tau> \<Longrightarrow> sys_inv s \<sigma> \<Longrightarrow> sys_inv s \<tau>"
proof (induction rule: pool_step.induct)
  case (issue \<sigma> p slot gen addr v)
  then show ?case by (intro sys_inv_issue) auto
next
  case (enqueue i \<sigma>)
  then show ?case by (simp add: sys_inv_def)
next
  case (dpu_write i \<sigma> r)
  then show ?case by (intro sys_inv_write)
next
  case (fire \<sigma> i rest r)
  have i: "i < length (fs_reqs \<sigma>)" "\<not> rq_fired r" "i \<notin> set rest" using fire by (auto simp: sys_inv_def)
  have w: "rq_written r" using unfired_fires_iff [OF fire(4) i(1) fire(2) i(2)] fire(3) by simp
  let ?rs = "(fs_reqs \<sigma>)[i := r\<lparr>rq_fired := True\<rparr>]"
  have "req_ok s j (?rs ! j) \<and> (rq_fired (?rs ! j) \<or> length (fs_reqs \<sigma>) \<le> j + s)
      \<and> (length (fs_reqs \<sigma>) \<le> j + s \<longrightarrow> flags (fs_pool \<sigma>) ! (j mod s) = flag_of s j (rq_written (?rs ! j)))"
    if "j < length (fs_reqs \<sigma>)" for j
    using fire(4) that w fire(2) i(1) by (cases "j = i") (auto simp: sys_inv_def req_ok_def)
  moreover have "j < length (fs_reqs \<sigma>) \<and> \<not> rq_fired (?rs ! j)" if "j \<in> set rest" for j
    using fire(1,4) that i(3) by (cases "j = i") (auto simp: sys_inv_def)
  ultimately show ?case using fire(1,4) by (simp add: sys_inv_def)
qed

lemma reachable_sys_inv:
  assumes "pool_reachable p \<sigma>" and "pool_shape s 0 p" and "flags p = replicate s 0"
  shows "sys_inv s \<sigma>"
  using assms by (induction rule: pool_reachable.induct) (auto intro: sys_inv_start pool_step_inv)

section \<open>Properties\<close>

text \<open>
  The tickets of a fresh pool, in closed form: the \<open>i\<close>-th \<^verbatim>\<open>acquire\<close> of a pool of size
  \<open>s\<close> returns slot \<open>i mod s\<close>, generation \<open>i div s + 1\<close> as the value to wait for, and the
  address of that slot, and it raises \<^verbatim>\<open>OverflowError\<close> from generation \<open>2 ^ 30\<close> on.
\<close>

theorem acquire_round_robin:
  assumes "init_pool env addr sz = Inr p" and "i < m"
  shows "tickets acquire p m ! i =
    (let s = nat sz in
     if Suc (i div s) < 2 ^ 30
     then Inr (int (i mod s), int (Suc (i div s)), addr + int (i mod s) * 4, int (Suc (i div s)))
     else Inl OverflowError)"
  using fp.nth_ticket [of "nat sz" 0 p i m] init_pool_shape [OF assms(1)] assms(2)
  by (simp add: Let_def)

theorem acquire_round_robin_witness:
  "tickets acquire \<lparr>pool_size = 4, pool_mask = 3, use_gpu = True, base_addr = 4096,
     gens = [0, 0, 0, 0], next_slot = 0, flags = [0, 0, 0, 0]\<rparr> 7 ! 6 = Inr (2, 2, 4104, 2)"
proof -
  have init: "init_pool None 4096 4 =
    Inr \<lparr>pool_size = 4, pool_mask = 3, use_gpu = True, base_addr = 4096,
         gens = [0, 0, 0, 0], next_slot = 0, flags = [0, 0, 0, 0]\<rparr>"
    by (simp add: init_pool_def use_gpu_memory_def eval_nat_numeral)
  have "6 < (7 :: nat)" by simp
  from acquire_round_robin [OF init this] show ?thesis by simp
qed

text \<open>A use of the pool: an acquire, or (\<open>True\<close>) a reset.\<close>

definition pool_call :: "flag_pool \<Rightarrow> bool \<Rightarrow> flag_pool" where
  "pool_call p resets = (if resets then reset_pool p else fst (acquire p))"

lemma calls_shape:
  assumes "pool_shape s n p"
  shows "\<exists>m. pool_shape s m (run pool_call p cs) \<and> base_addr (run pool_call p cs) = base_addr p"
  using assms
proof (induction cs arbitrary: n p)
  case (Cons c cs)
  have "\<exists>m. pool_shape s m (pool_call p c) \<and> base_addr (pool_call p c) = base_addr p"
    using acquire_shape [OF Cons.prems] reset_pool_shape [OF Cons.prems] by (auto simp: pool_call_def reset_pool_def)
  then obtain m where "pool_shape s m (pool_call p c)" "base_addr (pool_call p c) = base_addr p" by blast
  then show ?case using Cons.IH by fastforce
qed auto

text \<open>
  C19. No ticket is issued twice between resets. After any acquires and resets of a pool, the tickets
  of the acquires that follow, up to the next reset, differ in slot or generation, and two acquires less
  than a pool size apart do not share a slot. (A reset starts over: it hands the same tickets out again.)
\<close>

theorem acquire_tickets_unique:
  assumes "init_pool env addr sz = Inr p" and "q = run pool_call p cs" and "i < j" and "j < m"
    and "tickets acquire q m ! i = Inr (slot, gen, a, v)"
    and "tickets acquire q m ! j = Inr (slot', gen', a', v')"
  shows "(slot, gen) \<noteq> (slot', gen') \<and> (j - i < nat sz \<longrightarrow> slot \<noteq> slot')"
proof -
  obtain n where shape: "pool_shape (nat sz) n q"
    using calls_shape [of "nat sz" 0 p cs] init_pool_shape [OF assms(1)] assms(2) by blast
  have "(slot, gen) \<noteq> (slot', gen')"
    using assms by (intro fp.tickets_unique [OF shape, of i m j]) auto
  moreover have "slot \<noteq> slot'" if "j - i < nat sz"
    using assms that by (intro fp.tickets_window [OF shape, of i m j]) auto
  ultimately show ?thesis by blast
qed

text \<open>The third ticket after an acquire, a reset and another acquire.\<close>

theorem acquire_tickets_unique_witness:
  "let p = run pool_call \<lparr>pool_size = 2, pool_mask = 1, use_gpu = True, base_addr = 0, gens = [0, 0], next_slot = 0, flags = [0, 0]\<rparr>
       [False, True, False]
   in \<exists>slot gen slot' gen'. tickets acquire p 3 ! 0 = Inr (slot, gen, 4, gen) \<and> tickets acquire p 3 ! 1 = Inr (slot', gen', 0, gen')
     \<and> (slot, gen) \<noteq> (slot', gen') \<and> slot \<noteq> slot'"
proof -
  define p where "p = \<lparr>pool_size = 2, pool_mask = 1, use_gpu = True, base_addr = 0,
    gens = [0, 0], next_slot = 0, flags = [0, 0]\<rparr>"
  define q where "q = run pool_call p [False, True, False]"
  have init: "init_pool None 0 2 = Inr p"
    by (simp add: init_pool_def use_gpu_memory_def p_def eval_nat_numeral)
  have t: "tickets acquire q 3 ! 0 = Inr (1, 1, 4, 1)" "tickets acquire q 3 ! 1 = Inr (0, 2, 0, 2)"
    by (simp_all add: q_def p_def pool_call_def reset_pool_def acquire_def Let_def eval_nat_numeral)
  show ?thesis using acquire_tickets_unique [OF init q_def _ _ t] t
    unfolding Let_def p_def [symmetric] q_def [symmetric] by auto
qed

text \<open>
  C18. The wait on the compute stream is exact. Requests are posted in the order of their acquires, the
  DPU completes them in any order, and the waits for them are enqueued later, in any order, and run
  in the order in which they were enqueued. As long as no request is posted a pool size or more after one
  whose wait has not fired, a wait fires precisely when the DPU has written that request's own generation,
  for every request whose wait has not fired, enqueued or not: no stale value satisfies it, and
  its own value is not overwritten before it.
\<close>

theorem flag_wait_exact:
  assumes "init_pool env addr sz = Inr p" and "pool_reachable p \<sigma>"
    and "i < length (fs_reqs \<sigma>)" and "r = fs_reqs \<sigma> ! i" and "\<not> rq_fired r"
  shows "wait_fires (flags (fs_pool \<sigma>) ! nat (rq_slot r)) (rq_value r) \<longleftrightarrow> rq_written r"
proof -
  have "sys_inv (nat sz) \<sigma>"
    using reachable_sys_inv [OF assms(2)] init_pool_shape [OF assms(1)] by blast
  then show ?thesis using assms(3-5) by (rule unfired_fires_iff)
qed

text \<open>
  The method \<^verbatim>\<open>reset\<close> brings the pool back to the first ticket, so a ticket handed out before it is
  handed out again: a wait enqueued before the reset fires on the completion of a request
  made after it (the docstring of \<^verbatim>\<open>reset\<close> says such a wait would never fire).
\<close>

theorem reset_reissues_tickets:
  assumes "init_pool env addr sz = Inr p" and "i < m" and "i < k"
  shows "tickets acquire (reset_pool (run (\<lambda>q _. fst (acquire q)) p (replicate n ()))) m ! i
    = tickets acquire p k ! i"
proof -
  have "pool_shape (nat sz) (l + n) (run (\<lambda>q _. fst (acquire q)) q (replicate n ()))
      \<and> base_addr (run (\<lambda>q _. fst (acquire q)) q (replicate n ())) = base_addr q"
    if "pool_shape (nat sz) l q" for l q
    using that
  proof (induction n arbitrary: l q)
    case (Suc n)
    then show ?case using Suc.IH [of "Suc l" "fst (acquire q)"] acquire_shape [OF Suc.prems] by simp
  qed simp
  then have P: "pool_shape (nat sz) (0 + n) (run (\<lambda>q _. fst (acquire q)) p (replicate n ()))"
      "base_addr (run (\<lambda>q _. fst (acquire q)) p (replicate n ())) = base_addr p"
    using init_pool_shape [OF assms(1)] by blast+
  have R: "pool_shape (nat sz) 0 (reset_pool (run (\<lambda>q _. fst (acquire q)) p (replicate n ())))"
      "base_addr (reset_pool (run (\<lambda>q _. fst (acquire q)) p (replicate n ()))) = base_addr p"
    using reset_pool_shape [OF P(1)] by (blast, simp add: P(2) reset_pool_def)
  show ?thesis
    using fp.nth_ticket [OF R(1) assms(2)] R(2)
      fp.nth_ticket [of "nat sz" 0 p i k] init_pool_shape [OF assms(1)] assms(3) by simp
qed

theorem reset_reissues_tickets_witness:
  "tickets acquire (reset_pool (run (\<lambda>q _. fst (acquire q))
     \<lparr>pool_size = 1, pool_mask = 0, use_gpu = True, base_addr = 0, gens = [0], next_slot = 0, flags = [0]\<rparr>
     (replicate 3 ()))) 1 ! 0 = Inr (0, 1, 0, 1)"
proof -
  have init: "init_pool None 0 1 = Inr \<lparr>pool_size = 1, pool_mask = 0, use_gpu = True,
      base_addr = 0, gens = [0], next_slot = 0, flags = [0]\<rparr>"
    by (simp add: init_pool_def use_gpu_memory_def)
  have "0 < (1 :: nat)" by simp
  from reset_reissues_tickets [OF init this this, of 3] show ?thesis
    by (simp add: acquire_def Let_def)
qed

text \<open>Two requests; the second completes and is waited for first.\<close>

theorem flag_wait_exact_witness:
  "wait_fires ([0, 1] ! nat 1) 1 \<and> \<not> wait_fires ([0, 1] ! nat 0) 1"
proof -
  define p where "p = \<lparr>pool_size = 2, pool_mask = 1, use_gpu = True, base_addr = 0,
    gens = [0, 0], next_slot = 0, flags = [0, 0]\<rparr>"
  have init: "init_pool None 0 2 = Inr p"
    by (simp add: init_pool_def use_gpu_memory_def p_def eval_nat_numeral)
  let ?q = "\<lambda>s w. \<lparr>rq_slot = s, rq_value = 1, rq_written = w, rq_fired = False\<rparr>"
  let ?p1 = "p\<lparr>gens := [1, 0], next_slot := 1\<rparr>" and ?p2 = "p\<lparr>gens := [1, 1], next_slot := 0\<rparr>"
  have acq: "acquire p = (?p1, Inr (0, 1, 0, 1))" "acquire ?p1 = (?p2, Inr (1, 1, 4, 1))"
    by (simp_all add: p_def acquire_def Let_def)
  have "pool_reachable p \<lparr>fs_pool = ?p1, fs_reqs = [?q 0 False], fs_stream = []\<rparr>"
    using pool_reachable.step [OF pool_reachable.start, OF pool_step.issue [of "\<lparr>fs_pool = p, fs_reqs = [], fs_stream = []\<rparr>"]] acq(1) by simp
  from pool_reachable.step [OF this, OF pool_step.issue] acq(2)
  have "pool_reachable p \<lparr>fs_pool = ?p2, fs_reqs = [?q 0 False, ?q 1 False], fs_stream = []\<rparr>"
    by (fastforce simp: p_def)
  from pool_reachable.step [OF this, OF pool_step.enqueue, of 1]
  have "pool_reachable p \<lparr>fs_pool = ?p2, fs_reqs = [?q 0 False, ?q 1 False], fs_stream = [1]\<rparr>" by simp
  from pool_reachable.step [OF this, OF pool_step.dpu_write, of 1 "?q 1 False"]
  have r: "pool_reachable p \<lparr>fs_pool = ?p2\<lparr>flags := [0, 1]\<rparr>, fs_reqs = [?q 0 False, ?q 1 True], fs_stream = [1]\<rparr>"
    by (simp add: p_def)
  show ?thesis
    using flag_wait_exact [OF init r, of 0 "?q 0 False"] flag_wait_exact [OF init r, of 1 "?q 1 True"] by simp
qed

end
