(* ===== verification/Tensor.thy ===== *)
theory Tensor
  imports Prelude
begin

text \<open>
  The part of the tensor library the modelled code uses, on contiguous one-dimensional
  tensors: a tensor is the list of its elements, a shape the list of its extents.

  \<open>narrow\<close>, \<open>copy_to\<close>, \<open>cat\<close> and \<open>view_as_shape\<close> raise where the library raises.
  \<open>fresh u n\<close> is \<^verbatim>\<open>torch.empty(n)\<close>: its elements are whatever \<open>u\<close> says, so a theorem that
  holds for every \<open>u\<close> does not rely on uninitialised memory.
\<close>

section \<open>Operations\<close>

definition fresh :: "(nat \<Rightarrow> 'a) \<Rightarrow> nat \<Rightarrow> 'a list" where
  "fresh u n = map u [0..<n]"

definition narrow :: "nat \<Rightarrow> nat \<Rightarrow> 'a list \<Rightarrow> 'a list result" where
  "narrow start len t =
     (if start + len \<le> length t then Inr (take len (drop start t))
      else Inl (RuntimeError ''narrow''))"

text \<open>\<^verbatim>\<open>dst.copy_(src)\<close>: equal sizes, or a one-element source that is broadcast.\<close>

definition copy_to :: "'a list \<Rightarrow> 'a list \<Rightarrow> 'a list result" where
  "copy_to dst src =
     (if length src = length dst then Inr src
      else case src of [x] \<Rightarrow> Inr (replicate (length dst) x)
           | _ \<Rightarrow> Inl (RuntimeError ''copy_''))"

text \<open>\<^verbatim>\<open>dst.narrow(0, start, len).copy_(src)\<close>: the view writes through to \<open>dst\<close>.\<close>

definition copy_into :: "'a list \<Rightarrow> nat \<Rightarrow> nat \<Rightarrow> 'a list \<Rightarrow> 'a list result" where
  "copy_into dst start len src =
     ebind (narrow start len dst) (\<lambda>v.
     ebind (copy_to v src) (\<lambda>w.
       Inr (take start dst @ w @ drop (start + len) dst)))"

definition cat :: "'a list list \<Rightarrow> 'a list result" where
  "cat ts = (if ts = [] then Inl (RuntimeError ''torch.cat'') else Inr (concat ts))"

definition view_as_shape :: "nat list \<Rightarrow> 'a list \<Rightarrow> 'a list result" where
  "view_as_shape shape t =
     (if prod_list shape = length t then Inr t else Inl (RuntimeError ''view''))"

section \<open>Facts\<close>

lemma length_fresh [simp]: "length (fresh u n) = n"
  by (simp add: fresh_def)

lemma narrow_ok [simp]: "start + len \<le> length t \<Longrightarrow> narrow start len t = Inr (take len (drop start t))"
  by (simp add: narrow_def)

lemma narrow_Inr_iff: "narrow start len t = Inr v \<longleftrightarrow> start + len \<le> length t \<and> v = take len (drop start t)"
  by (auto simp: narrow_def)

lemma take_fresh: "n \<le> m \<Longrightarrow> take n (fresh u m) = fresh u n"
  by (simp add: fresh_def take_map)

lemma narrow_fresh: "n \<le> m \<Longrightarrow> narrow 0 n (fresh u m) = Inr (fresh u n)"
  by (simp add: narrow_def fresh_def take_map)

lemma copy_to_same [simp]: "length src = length dst \<Longrightarrow> copy_to dst src = Inr src"
  by (simp add: copy_to_def)

lemma copy_into_ok:
  "start + len \<le> length dst \<Longrightarrow> length src = len \<Longrightarrow>
     copy_into dst start len src = Inr (take start dst @ src @ drop (start + len) dst)"
  by (simp add: copy_into_def)

lemma view_ok [simp]: "prod_list shape = length t \<Longrightarrow> view_as_shape shape t = Inr t"
  by (simp add: view_as_shape_def)

lemma cat_Cons [simp]: "cat (t # ts) = Inr (concat (t # ts))"
  by (simp add: cat_def)

text \<open>Cutting a list into consecutive blocks of size \<open>k\<close> and joining them again.\<close>

definition block :: "nat \<Rightarrow> nat \<Rightarrow> 'a list \<Rightarrow> 'a list" where
  "block k r t = take k (drop (r * k) t)"

lemma concat_blocks_take: "concat (map (\<lambda>r. block k r t) [0..<w]) = take (w * k) t"
proof (induction w)
  case 0
  then show ?case by simp
next
  case (Suc w)
  then show ?case by (simp add: block_def take_add [symmetric] add.commute)
qed

lemma concat_blocks: "length t \<le> w * k \<Longrightarrow> concat (map (\<lambda>r. block k r t) [0..<w]) = t"
  by (simp add: concat_blocks_take)

lemma block_empty: "length t \<le> r * k \<Longrightarrow> block k r t = []"
  by (simp add: block_def)

lemma length_block: "length (block k r t) = min k (length t - r * k)"
  by (simp add: block_def)

lemma concat_filter_blocks:
  "concat (map (\<lambda>r. block k r t) (filter (\<lambda>r. r * k < length t) rs))
    = concat (map (\<lambda>r. block k r t) rs)"
  by (induction rs) (auto simp: block_empty not_less)

lemma block_concat_uniform:
  assumes "\<And>ys. ys \<in> set yss \<Longrightarrow> length ys = k" and "r < length yss"
  shows "block k r (concat yss) = yss ! r"
  using concat_nth_block [of yss k r] assms by (simp add: block_def)

end
