(* ===== verification/Params.thy ===== *)
theory Params
  imports Tensor
begin

text \<open>
  Partitioned parameters: \<^verbatim>\<open>src/smartnic_offload/partition_parameters.py\<close>, the class \<^verbatim>\<open>Init\<close>
  and its handles.

  The parameters of a model are a heap from \<^verbatim>\<open>ds_id\<close> to a record of the attributes the class
  attaches to a \<^verbatim>\<open>Parameter\<close>. One rank is modelled; \<open>W\<close> is the world size, \<open>rank\<close> its rank.
  What the collective library delivers into the output buffer of an all-gather is the
  argument \<open>ag\<close>, a function of the collective id and this rank's input; the theorems state
  as a hypothesis that it is the concatenation of all ranks' inputs in rank order.
\<close>

section \<open>Parameters\<close>

datatype param_status = AVAILABLE | NOT_AVAILABLE | INFLIGHT

datatype dtype = Float16 | BFloat16 | Float32

text \<open>A host buffer: the allocation it is, where it lives, and its elements.\<close>

record 'a cpu_buf =
  buf_ptr :: nat
  buf_on_cpu :: bool
  buf_pinned :: bool
  buf_shape :: "nat list"
  buf_dtype :: dtype
  buf_data :: "'a list"

record 'a param =
  ds_shape :: "nat list"
  ds_numel :: nat
  ds_status :: param_status
  ds_tensor :: "'a list option"
  pdata :: "'a list"
  pdtype :: dtype
  active_sub_modules :: "nat set"
  ds_persist :: bool
  is_external_param :: bool
  requires_grad :: bool
  pgrad :: "'a list option"
  cpu_full_param :: "'a cpu_buf option"
  cpu_full_param_pool :: "'a cpu_buf option"

type_synonym 'a heap = "nat \<Rightarrow> 'a param"

text \<open>The fields \<^verbatim>\<open>_convert_to_deepspeed_param\<close> gives a plain parameter.\<close>

definition convert_to_deepspeed_param ::
  "nat list \<Rightarrow> dtype \<Rightarrow> bool \<Rightarrow> 'a list \<Rightarrow> 'a param" where
  "convert_to_deepspeed_param shape dt rg full =
     \<lparr>ds_shape = shape, ds_numel = length full, ds_status = AVAILABLE, ds_tensor = None,
      pdata = full, pdtype = dt, active_sub_modules = {}, ds_persist = False,
      is_external_param = False, requires_grad = rg, pgrad = None,
      cpu_full_param = None, cpu_full_param_pool = None\<rparr>"

section \<open>Sizes\<close>

definition padding_size :: "nat \<Rightarrow> nat \<Rightarrow> nat" where
  "padding_size W n = (let remainder = n mod W in if remainder \<noteq> 0 then W - remainder else 0)"

definition aligned_size :: "nat \<Rightarrow> nat \<Rightarrow> nat" where
  "aligned_size W n = n + padding_size W n"

text \<open>\<^verbatim>\<open>_partition_numel\<close>: the size of the shard, which is missing before the first partition.\<close>

definition partition_numel :: "'a param \<Rightarrow> nat result" where
  "partition_numel p = (case ds_tensor p of None \<Rightarrow> Inl AttributeError | Some t \<Rightarrow> Inr (length t))"

text \<open>The size of every rank's shard of a parameter of \<open>n\<close> elements.\<close>

definition shard_size :: "nat \<Rightarrow> nat \<Rightarrow> nat" where
  "shard_size W n = aligned_size W n div W"

lemma aligned_size_ceil: "0 < W \<Longrightarrow> aligned_size W n = W * ceil_div n W"
proof -
  assume W: "0 < W"
  show ?thesis
  proof (cases "n mod W = 0")
    case True
    then have "W dvd n" by (simp add: mod_eq_0_iff_dvd)
    then show ?thesis using W by (simp add: aligned_size_def padding_size_def ceil_div_dvd)
  next
    case False
    then have nd: "\<not> W dvd n" by (simp add: mod_eq_0_iff_dvd)
    have "W * (n div W) + n mod W = n" by simp
    moreover have "n mod W < W" using W by simp
    ultimately have "n + (W - n mod W) = W * (n div W) + W" by linarith
    then show ?thesis
      using False by (simp add: aligned_size_def padding_size_def ceil_div_not_dvd [OF W nd])
  qed
qed

lemma shard_size_ceil: "0 < W \<Longrightarrow> shard_size W n = ceil_div n W"
  by (simp add: shard_size_def aligned_size_ceil)

lemma shard_size_covers: "0 < W \<Longrightarrow> n \<le> W * shard_size W n"
  by (simp add: shard_size_ceil ceil_div_mult_ge)

section \<open>Partitioning\<close>

definition free_param :: "'a param \<Rightarrow> 'a param result" where
  "free_param p =
     (if active_sub_modules p \<noteq> {} then Inl AssertionError
      else Inr (p\<lparr>pdata := [], ds_status := NOT_AVAILABLE\<rparr>))"

text \<open>
  \<^verbatim>\<open>_partition_param\<close>. The local variable \<^verbatim>\<open>partitioned_tensor\<close> is bound only when there is no
  shard yet, and read in either case.
\<close>

definition partition_param ::
  "nat \<Rightarrow> nat \<Rightarrow> (nat \<Rightarrow> 'a) \<Rightarrow> bool \<Rightarrow> 'a param \<Rightarrow> 'a param result" where
  "partition_param W rank u has_been_updated p =
     (if ds_status p = AVAILABLE \<and> ds_tensor p \<noteq> None \<and> \<not> has_been_updated
      then free_param p
      else
        let partition_size = aligned_size W (ds_numel p) div W;
            start = partition_size * rank;
            stop = partition_size * (rank + 1)
        in if ds_tensor p \<noteq> None then Inl UnboundLocalError
           else
             let t = fresh u partition_size
             in ebind
                  (if start < ds_numel p \<and> stop \<le> ds_numel p
                   then ebind (narrow start partition_size (pdata p)) (\<lambda>src. copy_to t src)
                   else if start < ds_numel p
                   then let elements_to_copy = ds_numel p - start
                        in ebind (narrow start elements_to_copy (pdata p))
                             (\<lambda>src. copy_into t 0 elements_to_copy src)
                   else Inr t)
                  (\<lambda>shard. free_param (p\<lparr>ds_tensor := Some shard\<rparr>)))"

definition partition_one :: "nat \<Rightarrow> nat \<Rightarrow> (nat \<Rightarrow> 'a) \<Rightarrow> bool \<Rightarrow> nat \<Rightarrow> 'a heap \<Rightarrow> 'a heap result" where
  "partition_one W rank u upd i h =
     ebind (partition_param W rank u upd (h i)) (\<lambda>p. Inr (h(i := p\<lparr>ds_status := NOT_AVAILABLE\<rparr>)))"

definition partition_list ::
  "nat \<Rightarrow> nat \<Rightarrow> (nat \<Rightarrow> 'a) \<Rightarrow> bool \<Rightarrow> nat list \<Rightarrow> 'a heap \<Rightarrow> 'a heap result" where
  "partition_list W rank u upd ids h = foldE (partition_one W rank u upd) ids h"

text \<open>
  What a shard must hold of the full value \<open>full\<close>: the block of its rank, and anything in the
  padding.
\<close>

definition shard_ok :: "nat \<Rightarrow> nat \<Rightarrow> 'a list \<Rightarrow> 'a list \<Rightarrow> bool" where
  "shard_ok W r full t \<longleftrightarrow>
     length t = shard_size W (length full)
     \<and> take (length full - r * shard_size W (length full)) t = block (shard_size W (length full)) r full"

lemma partition_param_fresh:
  assumes "0 < W" and "ds_tensor p = None" and "active_sub_modules p = {}"
    and "length (pdata p) = ds_numel p"
  shows "\<exists>t. partition_param W rank u upd p
      = Inr (p\<lparr>ds_tensor := Some t, pdata := [], ds_status := NOT_AVAILABLE\<rparr>)
    \<and> shard_ok W rank (pdata p) t"
proof -
  let ?k = "aligned_size W (ds_numel p) div W" and ?n = "ds_numel p"
  have k: "?k = shard_size W (length (pdata p))" using assms(4) by (simp add: shard_size_def)
  consider (full) "?k * (rank + 1) \<le> ?n" "?k * rank < ?n"
    | (tail) "?k * rank < ?n" "?n < ?k * (rank + 1)" | (none) "?n \<le> ?k * rank"
    by linarith
  then show ?thesis
  proof cases
    case full
    then have "?k * rank + ?k \<le> length (pdata p)" using assms(4) by (simp add: add.commute)
    with full show ?thesis
      using assms by (auto simp: partition_param_def free_param_def shard_ok_def Let_def k block_def
          mult.commute)
  next
    case tail
    then have le: "?n - ?k * rank \<le> ?k" by simp
    with tail show ?thesis
      using assms by (auto simp: partition_param_def free_param_def shard_ok_def Let_def k block_def
          mult.commute copy_into_ok min_def)
  next
    case none
    then show ?thesis
      using assms by (auto simp: partition_param_def free_param_def shard_ok_def Let_def k block_def
          mult.commute)
  qed
qed

end
