(* ===== verification/AllGather.thy ===== *)
theory AllGather
  imports Params
begin

text \<open>
  Materialising partitioned parameters: \<^verbatim>\<open>all_gather_coalesced\<close>, the three handle classes with
  their \<^verbatim>\<open>wait\<close>, and the synchronous paths \<^verbatim>\<open>_allgather_param\<close>, \<^verbatim>\<open>_allgather_params\<close> and
  \<^verbatim>\<open>_allgather_params_coalesced\<close> of \<^verbatim>\<open>src/smartnic_offload/partition_parameters.py\<close>.

  A handle keeps the bytes the library delivers for its request (\<open>recv\<close>); they become the
  value of a parameter when the handle is waited for. The timing statistics the \<^verbatim>\<open>wait\<close>
  methods also collect are in theory \<open>AgStats\<close>.
\<close>

section \<open>Handles\<close>

datatype handle_kind = SingleHandle | CoalescedHandle | CpuFullHandle

record 'a ag_handle =
  h_kind :: handle_kind
  h_params :: "nat list"
  h_recv :: "'a list"
  h_part_size :: nat
  h_complete :: bool

text \<open>\<open>ag cid input\<close>: what the collective with id \<open>cid\<close> delivers to this rank.\<close>

type_synonym 'a collective = "nat \<Rightarrow> 'a list \<Rightarrow> 'a list"

text \<open>
  The value the elements have after a copy into the pinned float16 staging buffer whose
  bytes are then gathered into a buffer of the parameters' own type.
\<close>

type_synonym 'a staging = "dtype \<Rightarrow> 'a \<Rightarrow> 'a"

definition the_shard :: "'a param \<Rightarrow> 'a list result" where
  "the_shard p = (case ds_tensor p of None \<Rightarrow> Inl AttributeError | Some t \<Rightarrow> Inr t)"

fun collect_shards :: "'a heap \<Rightarrow> nat list \<Rightarrow> 'a list list result" where
  "collect_shards h [] = Inr []"
| "collect_shards h (i # is) =
     ebind (the_shard (h i)) (\<lambda>t. ebind (collect_shards h is) (\<lambda>ts. Inr (t # ts)))"

text \<open>\<^verbatim>\<open>get_only_unique_item\<close> of \<^verbatim>\<open>stage3_utils.py\<close>.\<close>

definition get_only_unique_item :: "'b list \<Rightarrow> 'b result" where
  "get_only_unique_item items =
     (case remdups items of [x] \<Rightarrow> Inr x
      | _ \<Rightarrow> Inl (RuntimeError ''expected there to be only one unique element''))"

definition mark_inflight :: "nat \<Rightarrow> 'a heap \<Rightarrow> 'a heap result" where
  "mark_inflight i h =
     (if ds_status (h i) \<noteq> NOT_AVAILABLE then Inl (RuntimeError ''all_gather_coalesced: status'')
      else Inr (h(i := (h i)\<lparr>ds_status := INFLIGHT\<rparr>)))"

text \<open>
  \<^verbatim>\<open>all_gather_coalesced\<close>. \<open>full_transfer\<close> is the environment switch
  \<^verbatim>\<open>ENABLE_FULL_PARAM_TRANSFER\<close>. Duplicates in the argument raise, since the second sight of
  a parameter finds it in flight. A single parameter is pointed at the receive buffer at
  once: until the wait its elements are whatever \<open>u\<close> says.
\<close>

definition all_gather_coalesced ::
  "nat \<Rightarrow> (nat \<Rightarrow> 'a) \<Rightarrow> 'a collective \<Rightarrow> 'a staging \<Rightarrow> bool \<Rightarrow> nat list \<Rightarrow> 'a heap
     \<Rightarrow> ('a heap \<times> 'a ag_handle) result" where
  "all_gather_coalesced W u ag cast full_transfer ids h =
     ebind (foldE mark_inflight ids h) (\<lambda>h1.
       let params = sort ids in
       if full_transfer \<and> (\<forall>i \<in> set params. cpu_full_param (h1 i) \<noteq> None)
       then Inr (h1, \<lparr>h_kind = CpuFullHandle, h_params = params, h_recv = [], h_part_size = 0, h_complete = False\<rparr>)
       else case params of
         [i] \<Rightarrow>
           ebind (the_shard (h1 i)) (\<lambda>input_flat.
             let recv = ag i input_flat;
                 param_buffer = fresh u (ceil_div (ds_numel (h1 i)) W * W)
             in
             ebind (narrow 0 (ds_numel (h1 i)) param_buffer) (\<lambda>v.
             ebind (view_as_shape (ds_shape (h1 i)) v) (\<lambda>v.
               Inr (h1(i := (h1 i)\<lparr>pdata := v\<rparr>), \<lparr>h_kind = SingleHandle, h_params = [i], h_recv = recv, h_part_size = 0, h_complete = False\<rparr>))))
       | _ \<Rightarrow>
           ebind (collect_shards h1 params) (\<lambda>shards.
           ebind (get_only_unique_item (map (\<lambda>i. pdtype (h1 i)) params)) (\<lambda>dt.
             let input_flat_cpu = map (cast dt) (concat shards)
             in Inr (h1, \<lparr>h_kind = CoalescedHandle, h_params = params,
                          h_recv = ag (Min (set params)) input_flat_cpu,
                          h_part_size = length (concat shards), h_complete = False\<rparr>))))"

section \<open>Waiting\<close>

definition expect_inflight :: "'a param \<Rightarrow> unit result" where
  "expect_inflight p = assert_that (ds_status p = INFLIGHT)"

text \<open>The pieces of one parameter in the gathered partitions, rank by rank.\<close>

fun gather_pieces :: "'a list list \<Rightarrow> nat \<Rightarrow> nat \<Rightarrow> nat \<Rightarrow> nat list \<Rightarrow> 'a list list result" where
  "gather_pieces parts n k off [] = Inr []"
| "gather_pieces parts n k off (r # rs) =
     (let param_start = r * k in
      if param_start < n
      then ebind (narrow off (min (n - param_start) k) (parts ! r)) (\<lambda>v.
           ebind (gather_pieces parts n k off rs) (\<lambda>vs. Inr (v # vs)))
      else gather_pieces parts n k off rs)"

definition restore_param ::
  "nat \<Rightarrow> 'a list list \<Rightarrow> nat \<Rightarrow> 'a heap \<times> nat \<Rightarrow> ('a heap \<times> nat) result" where
  "restore_param W parts i s =
     (case s of (h, off) \<Rightarrow>
        ebind (expect_inflight (h i)) (\<lambda>_.
        ebind (partition_numel (h i)) (\<lambda>k.
        ebind (gather_pieces parts (ds_numel (h i)) k off [0..<W]) (\<lambda>pieces.
        ebind (cat pieces) (\<lambda>flat.
        ebind (view_as_shape (ds_shape (h i)) flat) (\<lambda>v.
          Inr (h(i := (h i)\<lparr>pdata := v, ds_status := AVAILABLE\<rparr>), off + k)))))))"

text \<open>\<^verbatim>\<open>flat_tensor.narrow(0, partition_sz * r, partition_sz)\<close> for every rank.\<close>

definition rank_parts :: "nat \<Rightarrow> nat \<Rightarrow> 'a list \<Rightarrow> 'a list list" where
  "rank_parts W partition_sz flat = map (\<lambda>r. block partition_sz r flat) [0..<W]"

definition restore_cpu :: "nat \<Rightarrow> 'a heap \<Rightarrow> 'a heap result" where
  "restore_cpu i h =
     (case cpu_full_param (h i) of
        None \<Rightarrow> Inl (RuntimeError ''cpu_full_param is None'')
      | Some b \<Rightarrow>
          if length (buf_data b) \<noteq> ds_numel (h i) then Inl (RuntimeError ''numel mismatch in cpu_full_param'')
          else ebind (view_as_shape (ds_shape (h i)) (buf_data b)) (\<lambda>v.
                 Inr (h(i := (h i)\<lparr>pdata := v, ds_status := AVAILABLE\<rparr>))))"

text \<open>
  \<^verbatim>\<open>wait\<close> of the three classes. \<^verbatim>\<open>AllGatherHandle\<close> has no completion flag of its own; its
  parameter was pointed at the receive buffer at the launch, so the first wait is when the
  bytes are in it, and every wait sets the status. \<open>h_complete\<close> records for it that the bytes
  were delivered.
\<close>

definition single_wait :: "'a ag_handle \<Rightarrow> 'a heap \<Rightarrow> ('a heap \<times> 'a ag_handle) result" where
  "single_wait hdl h =
     (case h_params hdl of
        [i] \<Rightarrow>
          (let p = (if h_complete hdl then h i else (h i)\<lparr>pdata := take (ds_numel (h i)) (h_recv hdl)\<rparr>)
           in Inr (h(i := p\<lparr>ds_status := AVAILABLE\<rparr>), hdl\<lparr>h_complete := True\<rparr>))
      | _ \<Rightarrow> Inl IndexError)"

definition coalesced_wait :: "nat \<Rightarrow> 'a ag_handle \<Rightarrow> 'a heap \<Rightarrow> ('a heap \<times> 'a ag_handle) result" where
  "coalesced_wait W hdl h =
     (if h_complete hdl then Inr (h, hdl)
      else ebind (foldE (restore_param W (rank_parts W (h_part_size hdl) (h_recv hdl))) (h_params hdl) (h, 0)) (\<lambda>s.
             Inr (fst s, hdl\<lparr>h_complete := True\<rparr>)))"

definition cpu_full_wait :: "'a ag_handle \<Rightarrow> 'a heap \<Rightarrow> ('a heap \<times> 'a ag_handle) result" where
  "cpu_full_wait hdl h =
     (if h_complete hdl then Inr (h, hdl)
      else ebind (foldE restore_cpu (h_params hdl) h) (\<lambda>h1. Inr (h1, hdl\<lparr>h_complete := True\<rparr>)))"

definition handle_wait ::
  "nat \<Rightarrow> 'a ag_handle \<Rightarrow> 'a heap \<Rightarrow> ('a heap \<times> 'a ag_handle) result" where
  "handle_wait W hdl h =
     (case h_kind hdl of
        SingleHandle \<Rightarrow> single_wait hdl h
      | CoalescedHandle \<Rightarrow> coalesced_wait W hdl h
      | CpuFullHandle \<Rightarrow> cpu_full_wait hdl h)"

lemmas wait_defs = handle_wait_def single_wait_def coalesced_wait_def cpu_full_wait_def

section \<open>Synchronous gathering\<close>

text \<open>\<^verbatim>\<open>_allgather_param\<close>: the size of the zeroed buffer is the aligned size.\<close>

definition allgather_param :: "nat \<Rightarrow> 'a collective \<Rightarrow> nat \<Rightarrow> 'a heap \<Rightarrow> 'a heap result" where
  "allgather_param W ag i h =
     ebind (the_shard (h i)) (\<lambda>t.
     ebind (narrow 0 (ds_numel (h i)) (ag i t)) (\<lambda>v.
     ebind (view_as_shape (ds_shape (h i)) v) (\<lambda>v.
       Inr (h(i := (h i)\<lparr>pdata := v\<rparr>)))))"

text \<open>
  The copy loop of \<^verbatim>\<open>_allgather_params\<close>: the pieces are written into a buffer of the full
  shape at the rank's own offset.
\<close>

fun replicate_pieces ::
  "'a list list \<Rightarrow> nat \<Rightarrow> nat \<Rightarrow> nat \<Rightarrow> nat list \<Rightarrow> 'a list \<Rightarrow> 'a list result" where
  "replicate_pieces parts n k off [] dst = Inr dst"
| "replicate_pieces parts n k off (r # rs) dst =
     (let param_start = r * k in
      if param_start < n
      then let numel_to_copy = min (n - param_start) k in
           ebind (narrow off numel_to_copy (parts ! r)) (\<lambda>v.
           ebind (copy_into dst param_start numel_to_copy v) (\<lambda>dst'.
             replicate_pieces parts n k off rs dst'))
      else replicate_pieces parts n k off rs dst)"

definition replicate_param ::
  "nat \<Rightarrow> (nat \<Rightarrow> 'a) \<Rightarrow> 'a list list \<Rightarrow> nat \<Rightarrow> 'a heap \<times> nat \<Rightarrow> ('a heap \<times> nat) result" where
  "replicate_param W u parts i s =
     (case s of (h, off) \<Rightarrow>
        ebind (partition_numel (h i)) (\<lambda>k.
        ebind (replicate_pieces parts (ds_numel (h i)) k off [0..<W]
                 (fresh u (prod_list (ds_shape (h i))))) (\<lambda>v.
          Inr (h(i := (h i)\<lparr>pdata := v\<rparr>), off + k))))"

definition allgather_params ::
  "nat \<Rightarrow> (nat \<Rightarrow> 'a) \<Rightarrow> 'a collective \<Rightarrow> nat list \<Rightarrow> 'a heap \<Rightarrow> 'a heap result" where
  "allgather_params W u ag ids h =
     (case ids of [] \<Rightarrow> Inr h
      | i # _ \<Rightarrow>
          ebind (collect_shards h ids) (\<lambda>shards.
          ebind (foldE (replicate_param W u (rank_parts W (length (concat shards)) (ag i (concat shards)))) ids (h, 0)) (\<lambda>s.
            Inr (fst s))))"

text \<open>
  \<^verbatim>\<open>_allgather_params_coalesced\<close>: one collective per parameter is launched, only the first is
  waited for, and then every parameter is pointed at its buffer. \<open>done j\<close> tells whether the
  \<open>j\<close>-th collective has delivered by the time the call returns; until it has, the buffer
  holds what \<^verbatim>\<open>torch.empty\<close> left there.
\<close>

definition allgather_params_coalesced ::
  "nat \<Rightarrow> (nat \<Rightarrow> 'a) \<Rightarrow> 'a collective \<Rightarrow> (nat \<Rightarrow> bool) \<Rightarrow> nat list \<Rightarrow> 'a heap \<Rightarrow> 'a heap result" where
  "allgather_params_coalesced W u ag done ids h =
     ebind (collect_shards h ids) (\<lambda>shards.
       foldE (\<lambda>(j, i) h.
           let t = shards ! j;
               buffer = (if j = 0 \<or> done j then ag i t else fresh u (length t * W))
           in ebind (narrow 0 (ds_numel (h i)) buffer) (\<lambda>v.
              ebind (view_as_shape (ds_shape (h i)) v) (\<lambda>v.
                Inr (h(i := (h i)\<lparr>pdata := v\<rparr>)))))
         (enumerate 0 ids) h)"

definition set_available :: "nat list \<Rightarrow> 'a heap \<Rightarrow> 'a heap" where
  "set_available ids h = fold (\<lambda>i h. h(i := (h i)\<lparr>ds_status := AVAILABLE\<rparr>)) ids h"

text \<open>\<^verbatim>\<open>_all_gather\<close> with \<^verbatim>\<open>async_op = False\<close>, the mode of \<^verbatim>\<open>param.all_gather()\<close>.\<close>

definition all_gather_sync ::
  "nat \<Rightarrow> (nat \<Rightarrow> 'a) \<Rightarrow> 'a collective \<Rightarrow> (nat \<Rightarrow> bool) \<Rightarrow> nat list \<Rightarrow> 'a heap \<Rightarrow> 'a heap result" where
  "all_gather_sync W u ag done ids h =
     (let all_gather_list = filter (\<lambda>i. ds_status (h i) = NOT_AVAILABLE) ids in
      ebind (if length ids = 1 then allgather_params W u ag all_gather_list h
             else allgather_params_coalesced W u ag done all_gather_list h)
        (\<lambda>h1. Inr (set_available all_gather_list h1)))"

text \<open>
  With \<^verbatim>\<open>async_op = True\<close>: each parameter is gathered by itself and marked in flight.
\<close>

definition all_gather_async_one :: "nat \<Rightarrow> 'a collective \<Rightarrow> nat \<Rightarrow> 'a heap \<Rightarrow> 'a heap result" where
  "all_gather_async_one W ag i h =
     (if ds_status (h i) = NOT_AVAILABLE
      then ebind (allgather_param W ag i h) (\<lambda>h1. Inr (h1(i := (h1 i)\<lparr>ds_status := INFLIGHT\<rparr>)))
      else Inr h)"

definition all_gather_async :: "nat \<Rightarrow> 'a collective \<Rightarrow> nat list \<Rightarrow> 'a heap \<Rightarrow> 'a heap result" where
  "all_gather_async W ag ids h = foldE (all_gather_async_one W ag) ids h"

section \<open>What gathering yields\<close>

text \<open>
  The situation all lemmas share: \<open>full i\<close> is the value of parameter \<open>i\<close>, \<open>S r i\<close> the shard
  rank \<open>r\<close> holds of it, and the heap of this rank agrees.
\<close>

definition holds_shards ::
  "nat \<Rightarrow> nat \<Rightarrow> (nat \<Rightarrow> 'a list) \<Rightarrow> (nat \<Rightarrow> nat \<Rightarrow> 'a list) \<Rightarrow> 'a heap \<Rightarrow> nat set \<Rightarrow> bool" where
  "holds_shards W rank full S h I \<longleftrightarrow>
     rank < W \<and> (\<forall>i \<in> I. (\<forall>r < W. shard_ok W r (full i) (S r i))
        \<and> ds_tensor (h i) = Some (S rank i) \<and> ds_numel (h i) = length (full i)
        \<and> prod_list (ds_shape (h i)) = length (full i))"

definition materialised :: "(nat \<Rightarrow> 'a list) \<Rightarrow> 'a heap \<Rightarrow> nat \<Rightarrow> 'a param" where
  "materialised full h i = (h i)\<lparr>pdata := full i, ds_status := AVAILABLE\<rparr>"

lemma holds_shards_pos: "holds_shards W rank full S h I \<Longrightarrow> 0 < W"
  by (auto simp: holds_shards_def)

lemma shard_ok_length: "shard_ok W r full t \<Longrightarrow> length t = shard_size W (length full)"
  by (simp add: shard_ok_def)

lemma concat_shards_full:
  assumes "0 < W"
  shows "concat (map (\<lambda>r. block (shard_size W (length full)) r full)
           (filter (\<lambda>r. r * shard_size W (length full) < length full) [0..<W])) = full"
  using concat_blocks [of full W "shard_size W (length full)"] shard_size_covers [OF assms]
  by (simp add: concat_filter_blocks)

lemma take_concat_shards:
  assumes "\<And>r. r < W \<Longrightarrow> shard_ok W r full (S r)" and "0 < W"
  shows "take (length full) (concat (map S [0..<W])) = full"
proof -
  let ?k = "shard_size W (length full)"
  have eq: "take (length full) (concat (map S [0..<w])) = take (length full) (concat (map (\<lambda>r. block ?k r full) [0..<w]))
      \<and> length (concat (map S [0..<w])) = w * ?k" if "w \<le> W" for w
    using that
  proof (induction w)
    case (Suc w)
    then have ok: "shard_ok W w full (S w)" using assms(1) by simp
    have "take (length full - w * ?k) (S w) = block ?k w full"
      using ok by (simp add: shard_ok_def)
    moreover have "length (concat (map (\<lambda>r. block ?k r full) [0..<w])) = min (w * ?k) (length full)"
      by (simp add: concat_blocks_take min.commute)
    ultimately show ?case
      using Suc shard_ok_length [OF ok]
      by (auto simp: min_def length_block block_empty add.commute not_le)
  qed simp
  show ?thesis
    using eq [of W] concat_blocks [of full W ?k] shard_size_covers [OF assms(2)] by simp
qed

lemma gather_pieces_ok:
  assumes "\<And>r. r \<in> set rs \<Longrightarrow> shard_ok W r full (S r)
      \<and> off + shard_size W (length full) \<le> length (parts ! r)
      \<and> take (shard_size W (length full)) (drop off (parts ! r)) = S r"
  shows "gather_pieces parts (length full) (shard_size W (length full)) off rs
    = Inr (map (\<lambda>r. block (shard_size W (length full)) r full)
            (filter (\<lambda>r. r * shard_size W (length full) < length full) rs))"
  using assms
proof (induction rs)
  case Nil
  then show ?case by simp
next
  case (Cons r rs)
  let ?k = "shard_size W (length full)"
  have r: "shard_ok W r full (S r)" "off + ?k \<le> length (parts ! r)" "take ?k (drop off (parts ! r)) = S r"
    using Cons.prems by auto
  have "take (min (length full - r * ?k) ?k) (drop off (parts ! r)) = take (length full - r * ?k) (S r)"
    using r(3) by (metis take_take)
  also have "\<dots> = block ?k r full" using r(1) by (simp add: shard_ok_def)
  finally have take_eq: "take (min (length full - r * ?k) ?k) (drop off (parts ! r)) = block ?k r full" .
  have "off + min (length full - r * ?k) ?k \<le> length (parts ! r)" using r(2) by linarith
  then have nar: "narrow off (min (length full - r * ?k) ?k) (parts ! r) = Inr (block ?k r full)"
    using take_eq by (simp add: narrow_def)
  have "gather_pieces parts (length full) ?k off rs
    = Inr (map (\<lambda>r. block ?k r full) (filter (\<lambda>r. r * ?k < length full) rs))"
    using Cons by simp
  then show ?case by (simp add: Let_def nar)
qed

lemma cat_pieces:
  assumes "0 < W" and "full \<noteq> []"
  shows "cat (map (\<lambda>r. block (shard_size W (length full)) r full)
           (filter (\<lambda>r. r * shard_size W (length full) < length full) [0..<W])) = Inr full"
proof -
  have "0 \<in> set (filter (\<lambda>r. r * shard_size W (length full) < length full) [0..<W])"
    using assms by simp
  then have "map (\<lambda>r. block (shard_size W (length full)) r full)
           (filter (\<lambda>r. r * shard_size W (length full) < length full) [0..<W]) \<noteq> []"
    by (metis empty_iff empty_set map_is_Nil_conv)
  then show ?thesis using concat_shards_full [OF assms(1), of full] by (simp add: cat_def)
qed

lemma restore_param_ok:
  assumes "holds_shards W rank full S h {i}" and "full i \<noteq> []" and "ds_status (h i) = INFLIGHT"
    and "\<And>r. r < W \<Longrightarrow> off + shard_size W (length (full i)) \<le> length (parts ! r)
        \<and> take (shard_size W (length (full i))) (drop off (parts ! r)) = S r i"
  shows "restore_param W parts i (h, off)
    = Inr (h(i := materialised full h i), off + shard_size W (length (full i)))"
proof -
  have W: "0 < W" using assms(1) by (rule holds_shards_pos)
  have k: "partition_numel (h i) = Inr (shard_size W (length (full i)))"
    using assms(1) by (auto simp: holds_shards_def partition_numel_def shard_ok_length)
  have "gather_pieces parts (length (full i)) (shard_size W (length (full i))) off [0..<W]
      = Inr (map (\<lambda>r. block (shard_size W (length (full i))) r (full i))
            (filter (\<lambda>r. r * shard_size W (length (full i)) < length (full i)) [0..<W]))"
    using assms by (intro gather_pieces_ok [where S = "\<lambda>r. S r i"]) (auto simp: holds_shards_def)
  then show ?thesis
    using assms k cat_pieces [OF W assms(2)]
    by (simp add: restore_param_def expect_inflight_def holds_shards_def materialised_def)
qed

lemma holds_shards_upd:
  "i \<notin> I \<Longrightarrow> holds_shards W rank full S (h(i := p)) I = holds_shards W rank full S h I"
  by (auto simp: holds_shards_def)

lemma restore_params_ok:
  assumes "distinct ids" and "holds_shards W rank full S h (set ids)"
    and "\<And>i. i \<in> set ids \<Longrightarrow> full i \<noteq> [] \<and> ds_status (h i) = INFLIGHT"
    and "\<And>r. r < W \<Longrightarrow> off \<le> length (parts ! r) \<and> drop off (parts ! r) = concat (map (S r) ids)"
  shows "\<exists>off'. foldE (restore_param W parts) ids (h, off)
    = Inr ((\<lambda>i. if i \<in> set ids then materialised full h i else h i), off')"
  using assms
proof (induction ids arbitrary: h off)
  case Nil
  then show ?case by simp
next
  case (Cons i ids)
  let ?k = "shard_size W (length (full i))"
  let ?h = "h(i := materialised full h i)"
  have len: "length (S r i) = ?k" if "r < W" for r
    using Cons.prems(2) that by (auto simp: holds_shards_def dest: shard_ok_length)
  have at: "off + ?k \<le> length (parts ! r) \<and> take ?k (drop off (parts ! r)) = S r i
      \<and> drop (off + ?k) (parts ! r) = concat (map (S r) ids)" if "r < W" for r
  proof -
    have d: "drop off (parts ! r) = S r i @ concat (map (S r) ids)" and le: "off \<le> length (parts ! r)"
      using Cons.prems(4) [OF that] by simp_all
    from d have "length (drop off (parts ! r)) \<ge> ?k" using len [OF that] by simp
    then have "off + ?k \<le> length (parts ! r)" using le by (simp only: length_drop)
    moreover have "drop (off + ?k) (parts ! r) = drop ?k (drop off (parts ! r))"
      by (simp add: add.commute)
    ultimately show ?thesis
      using d len [OF that] by simp
  qed
  show ?case
  proof (cases "off + ?k \<le> length (parts ! 0)")
    case True
    have one: "restore_param W parts i (h, off) = Inr (?h, off + ?k)"
      using Cons.prems at by (intro restore_param_ok) (auto simp: holds_shards_def)
    have "\<exists>off'. foldE (restore_param W parts) ids (?h, off + ?k)
        = Inr ((\<lambda>j. if j \<in> set ids then materialised full ?h j else ?h j), off')"
      using Cons.prems at by (intro Cons.IH) (auto simp: holds_shards_upd holds_shards_def)
    then show ?thesis
      using one Cons.prems(1) by (auto simp: materialised_def fun_eq_iff)
  next
    case False
    then show ?thesis using at holds_shards_pos [OF Cons.prems(2)] by blast
  qed
qed


lemma mark_inflight_list:
  assumes "distinct ids" and "\<And>i. i \<in> set ids \<Longrightarrow> ds_status (h i) = NOT_AVAILABLE"
  shows "foldE mark_inflight ids h
    = Inr (\<lambda>i. if i \<in> set ids then (h i)\<lparr>ds_status := INFLIGHT\<rparr> else h i)"
  using assms
proof (induction ids arbitrary: h)
  case Nil
  then show ?case by simp
next
  case (Cons i ids)
  let ?h = "h(i := (h i)\<lparr>ds_status := INFLIGHT\<rparr>)"
  have "foldE mark_inflight ids ?h
    = Inr (\<lambda>j. if j \<in> set ids then (?h j)\<lparr>ds_status := INFLIGHT\<rparr> else ?h j)"
    using Cons.prems by (intro Cons.IH) auto
  moreover have "mark_inflight i h = Inr ?h"
    using Cons.prems(2) by (simp add: mark_inflight_def)
  ultimately show ?case by (auto simp: fun_eq_iff)
qed

lemma collect_shards_ok:
  "(\<And>i. i \<in> set ids \<Longrightarrow> ds_tensor (h i) = Some (S i)) \<Longrightarrow> collect_shards h ids = Inr (map S ids)"
  by (induction ids) (auto simp: the_shard_def)

lemma unique_item_const:
  "(\<And>x. x \<in> set xs \<Longrightarrow> x = y) \<Longrightarrow> xs \<noteq> [] \<Longrightarrow> get_only_unique_item xs = Inr y"
proof -
  assume all: "\<And>x. x \<in> set xs \<Longrightarrow> x = y" and ne: "xs \<noteq> []"
  then have "set (remdups xs) = {y}" by (metis equals0I set_empty set_remdups singletonI subsetI subset_singletonD)
  then have "remdups xs = [y]"
    by (metis distinct_remdups distinct_card length_0_conv length_Suc_conv card.empty card_insert_disjoint
        finite.emptyI insert_absorb insert_not_empty list.set_intros(1) empty_iff singletonD One_nat_def)
  then show ?thesis by (simp add: get_only_unique_item_def)
qed

lemma holds_shards_status:
  "holds_shards W rank full S (\<lambda>i. if i \<in> A then (h i)\<lparr>ds_status := st\<rparr> else h i) I
    = holds_shards W rank full S h I"
  by (auto simp: holds_shards_def)

text \<open>The gathered partitions are the inputs of the ranks.\<close>

lemma rank_parts_concat:
  assumes "\<And>r. r < W \<Longrightarrow> length (ins r) = k" and "r < W"
  shows "rank_parts W k (concat (map ins [0..<W])) ! r = ins r"
proof -
  have "block k r (concat (map ins [0..<W])) = map ins [0..<W] ! r"
    using assms by (intro block_concat_uniform) auto
  then show ?thesis using assms(2) by (simp add: rank_parts_def)
qed


lemma length_shard:
  "holds_shards W rank full S h I \<Longrightarrow> i \<in> I \<Longrightarrow> r < W \<Longrightarrow> length (S r i) = shard_size W (length (full i))"
  by (auto simp: holds_shards_def dest: shard_ok_length)

lemma length_shards_eq:
  assumes "holds_shards W rank full S h (set ids)" and "r < W"
  shows "length (concat (map (S r) ids)) = length (concat (map (S rank) ids))"
proof -
  have "rank < W" using assms(1) by (simp add: holds_shards_def)
  then have "map (length \<circ> S r) ids = map (length \<circ> S rank) ids"
    using assms by (auto simp: length_shard [OF assms(1)])
  then show ?thesis by (simp only: length_concat map_map)
qed

text \<open>
  \<open>gathers\<close> is the contract of the all-gather: what it delivers for the collective \<open>cid\<close> is
  the concatenation of every rank's input, in rank order.
\<close>

definition gathers :: "nat \<Rightarrow> nat \<Rightarrow> 'a collective \<Rightarrow> nat \<Rightarrow> (nat \<Rightarrow> 'a list) \<Rightarrow> bool" where
  "gathers W rank ag cid ins \<longleftrightarrow> ag cid (ins rank) = concat (map ins [0..<W])"

definition launched :: "(nat \<Rightarrow> 'a) \<Rightarrow> nat list \<Rightarrow> 'a heap \<Rightarrow> 'a heap" where
  "launched u ids h = (\<lambda>i. if i \<in> set ids
     then (h i)\<lparr>pdata := if length ids = 1 then fresh u (ds_numel (h i)) else pdata (h i),
                ds_status := INFLIGHT\<rparr>
     else h i)"

lemma launched_many:
  "length ids \<noteq> 1 \<Longrightarrow>
     launched u ids h = (\<lambda>i. if i \<in> set ids then (h i)\<lparr>ds_status := INFLIGHT\<rparr> else h i)"
  by (auto simp: launched_def fun_eq_iff)

lemma launched_one: "launched u [i] h = h(i := (h i)\<lparr>ds_status := INFLIGHT, pdata := fresh u (ds_numel (h i))\<rparr>)"
  by (auto simp: launched_def fun_eq_iff)

definition gathered :: "(nat \<Rightarrow> 'a list) \<Rightarrow> nat list \<Rightarrow> 'a heap \<Rightarrow> 'a heap" where
  "gathered full ids h = (\<lambda>i. if i \<in> set ids then materialised full h i else h i)"

lemma launch_coalesced:
  assumes "foldE mark_inflight ids h = Inr h1" and "2 \<le> length ids"
    and "collect_shards h1 (sort ids) = Inr shards"
    and "get_only_unique_item (map (\<lambda>i. pdtype (h1 i)) (sort ids)) = Inr dt" and "cast dt = id"
  shows "all_gather_coalesced W u0 ag cast False ids h
    = Inr (h1, \<lparr>h_kind = CoalescedHandle, h_params = sort ids,
                 h_recv = ag (Min (set (sort ids))) (concat shards),
                 h_part_size = length (concat shards), h_complete = False\<rparr>)"
proof -
  have "2 \<le> length (sort ids)" using assms(2) by simp
  then obtain a b bs where p: "sort ids = a # b # bs"
    by (cases "sort ids" rule: remdups_adj.cases) auto
  show ?thesis
    unfolding all_gather_coalesced_def assms(1) ebind_Inr Let_def
    using assms(3-5) unfolding p by (simp add: assms(5) del: collect_shards.simps)
qed

section \<open>The contract of a handle\<close>

text \<open>
  A handle serves its parameters if waiting for it, in any heap in which they are still in
  flight, makes exactly them available with their full value. This is what a client that
  keeps handles relies on: the heap may change between the launch and the wait.
\<close>

definition finished :: "'a ag_handle \<Rightarrow> 'a ag_handle" where
  "finished hdl = hdl\<lparr>h_complete := True\<rparr>"

definition handle_serves ::
  "nat \<Rightarrow> nat \<Rightarrow> (nat \<Rightarrow> 'a list) \<Rightarrow> (nat \<Rightarrow> nat \<Rightarrow> 'a list) \<Rightarrow> 'a ag_handle \<Rightarrow> bool" where
  "handle_serves W rank full S hdl \<longleftrightarrow>
     (\<forall>h. holds_shards W rank full S h (set (h_params hdl))
        \<and> (\<forall>i \<in> set (h_params hdl). full i \<noteq> [] \<and> ds_status (h i) = INFLIGHT)
        \<longrightarrow> handle_wait W hdl h = Inr (gathered full (h_params hdl) h, finished hdl))"

lemma single_serves:
  assumes "0 < W" and "\<And>r. r < W \<Longrightarrow> shard_ok W r (full i) (S r i)" and "gathers W rank ag i (\<lambda>r. S r i)"
  shows "handle_serves W rank full S \<lparr>h_kind = SingleHandle, h_params = [i], h_recv = ag i (S rank i),
           h_part_size = 0, h_complete = False\<rparr>"
proof -
  have recv: "take (length (full i)) (ag i (S rank i)) = full i"
    using take_concat_shards [of W "full i" "\<lambda>r. S r i"] assms by (simp add: gathers_def)
  then show ?thesis
    by (auto simp: handle_serves_def holds_shards_def wait_defs gathered_def materialised_def
        finished_def fun_eq_iff)
qed

lemma coalesced_serves:
  assumes "distinct ids" and "0 < W" and "rank < W" and "\<And>i r. i \<in> set ids \<Longrightarrow> r < W \<Longrightarrow> shard_ok W r (full i) (S r i)"
  shows "handle_serves W rank full S \<lparr>h_kind = CoalescedHandle, h_params = ids,
           h_recv = concat (map (\<lambda>r. concat (map (S r) ids)) [0..<W]),
           h_part_size = length (concat (map (S rank) ids)), h_complete = False\<rparr>"
proof -
  let ?in = "\<lambda>r. concat (map (S r) ids)"
  let ?parts = "rank_parts W (length (?in rank)) (concat (map ?in [0..<W]))"
  have len: "length (?in r) = length (?in rank)" if "r < W" for r
  proof -
    have l: "length (S r i) = shard_size W (length (full i))" if "i \<in> set ids" "r < W" for i r
      using shard_ok_length [OF assms(4) [OF that]] .
    then have "map (length \<circ> S r) ids = map (length \<circ> S rank) ids"
      using assms(3) that by auto
    then show ?thesis by (simp only: length_concat map_map)
  qed
  have parts: "?parts ! r = ?in r" if "r < W" for r
    using that by (rule rank_parts_concat [rotated]) (rule len)
  have "\<exists>off'. foldE (restore_param W ?parts) ids (h, 0) = Inr (gathered full ids h, off')"
    if "holds_shards W rank full S h (set ids)"
      and "\<forall>i \<in> set ids. full i \<noteq> [] \<and> ds_status (h i) = INFLIGHT" for h
    unfolding gathered_def
    using that assms(1) by (intro restore_params_ok [OF _ that(1)]) (auto simp: parts)
  then show ?thesis
    by (fastforce simp: handle_serves_def wait_defs finished_def)
qed

lemma launch_serves:
  assumes h: "holds_shards W rank full S h (set ids)" and d: "distinct ids" and ne: "ids \<noteq> []"
    and st: "\<And>i. i \<in> set ids \<Longrightarrow> ds_status (h i) = NOT_AVAILABLE \<and> full i \<noteq> [] \<and> pdtype (h i) = dt"
    and cast: "cast dt = id"
    and ag: "gathers W rank ag (Min (set ids)) (\<lambda>r. concat (map (S r) (sort ids)))"
  shows "\<exists>hdl. all_gather_coalesced W u ag cast False ids h = Inr (launched u ids h, hdl)
    \<and> handle_serves W rank full S hdl \<and> set (h_params hdl) = set ids \<and> \<not> h_complete hdl
    \<and> (h_kind hdl = SingleHandle \<longrightarrow> length (h_params hdl) = 1)"
proof (cases "2 \<le> length ids")
  case True
  have rank: "rank < W" using h by (simp add: holds_shards_def)
  have shards: "collect_shards (launched u ids h) (sort ids) = Inr (map (S rank) (sort ids))"
    using h by (intro collect_shards_ok) (auto simp: holds_shards_def launched_def)
  have mark: "foldE mark_inflight ids h = Inr (launched u ids h)"
    using mark_inflight_list [OF d, of h] st True by (simp add: launched_many)
  have uniq: "get_only_unique_item (map (\<lambda>i. pdtype (launched u ids h i)) (sort ids)) = Inr dt"
  proof (rule unique_item_const)
    show "map (\<lambda>i. pdtype (launched u ids h i)) (sort ids) \<noteq> []"
      using ne by (metis Nil_is_map_conv length_0_conv length_sort)
    show "x = dt" if "x \<in> set (map (\<lambda>i. pdtype (launched u ids h i)) (sort ids))" for x
      using that st by (auto simp: launched_def)
  qed
  have "handle_serves W rank full S \<lparr>h_kind = CoalescedHandle, h_params = sort ids,
           h_recv = concat (map (\<lambda>r. concat (map (S r) (sort ids))) [0..<W]),
           h_part_size = length (concat (map (S rank) (sort ids))), h_complete = False\<rparr>"
    using h d rank by (intro coalesced_serves) (auto simp: holds_shards_def)
  then show ?thesis
    using launch_coalesced [where ?h1.0 = "launched u ids h" and cast = cast and dt = dt and ag = ag,
        OF mark True shards uniq cast] ag
    by (simp add: gathers_def)
next
  case False
  with ne obtain i where i: "ids = [i]" by (cases ids rule: remdups_adj.cases) auto
  have W: "0 < W" using h by (rule holds_shards_pos)
  have shard: "ds_tensor (h i) = Some (S rank i)" "ds_numel (h i) = length (full i)"
    "prod_list (ds_shape (h i)) = length (full i)"
    using h by (auto simp: i holds_shards_def)
  have buf: "narrow 0 (length (full i)) (fresh u (ceil_div (length (full i)) W * W))
      = Inr (fresh u (length (full i)))"
    using ceil_div_mult_ge [OF W, of "length (full i)"] by (intro narrow_fresh) (simp add: mult.commute)
  have launch: "all_gather_coalesced W u ag cast False [i] h
      = Inr (launched u [i] h, \<lparr>h_kind = SingleHandle, h_params = [i], h_recv = ag i (S rank i),
                                  h_part_size = 0, h_complete = False\<rparr>)"
    using st [of i] shard buf
    by (simp add: i all_gather_coalesced_def mark_inflight_def Let_def the_shard_def launched_one)
  have "handle_serves W rank full S \<lparr>h_kind = SingleHandle, h_params = [i], h_recv = ag i (S rank i),
           h_part_size = 0, h_complete = False\<rparr>"
    using h ag by (intro single_serves [OF W]) (auto simp: i holds_shards_def)
  with launch show ?thesis by (simp add: i)
qed

lemma gathered_launched: "set js = set ids \<Longrightarrow> gathered full js (launched u ids h) = gathered full ids h"
  by (auto simp: gathered_def launched_def materialised_def fun_eq_iff)

lemma holds_shards_launched:
  "holds_shards W rank full S (launched u ids h) I = holds_shards W rank full S h I"
  by (auto simp: holds_shards_def launched_def)

lemma all_gather_any:
  assumes h: "holds_shards W rank full S h (set ids)" and "distinct ids" and "ids \<noteq> []"
    and st: "\<And>i. i \<in> set ids \<Longrightarrow> ds_status (h i) = NOT_AVAILABLE \<and> full i \<noteq> [] \<and> pdtype (h i) = dt"
    and "cast dt = id"
    and "gathers W rank ag (Min (set ids)) (\<lambda>r. concat (map (S r) (sort ids)))"
  shows "\<exists>hdl hdl'. all_gather_coalesced W u0 ag cast False ids h = Inr (launched u0 ids h, hdl)
    \<and> handle_wait W hdl (launched u0 ids h) = Inr (gathered full ids h, hdl')"
proof -
  obtain hdl where hdl: "all_gather_coalesced W u0 ag cast False ids h = Inr (launched u0 ids h, hdl)"
      "handle_serves W rank full S hdl" "set (h_params hdl) = set ids"
    using launch_serves [where full = full and S = S and cast = cast and dt = dt and ag = ag, OF assms(1-6)] by blast
  have "handle_wait W hdl (launched u0 ids h) = Inr (gathered full (h_params hdl) (launched u0 ids h), finished hdl)"
  proof -
    have "holds_shards W rank full S (launched u0 ids h) (set (h_params hdl))"
      using h by (simp add: hdl(3) holds_shards_launched)
    moreover have "\<forall>i \<in> set (h_params hdl). full i \<noteq> [] \<and> ds_status (launched u0 ids h i) = INFLIGHT"
      using st by (simp add: hdl(3) launched_def)
    ultimately show ?thesis using hdl(2) unfolding handle_serves_def by blast
  qed
  then show ?thesis using hdl(1,3) by (simp add: gathered_launched)
qed

section \<open>The gather service as an interface\<close>

text \<open>
  What the scheduler relies on: \<open>launch\<close> marks parameters in flight and returns a handle that
  serves them; \<open>wait\<close> on a handle that is done changes nothing. \<open>ready\<close> is the condition on
  the parameters' shards; no client operation on values, states or users of parameters
  affects it.
\<close>

definition same_static :: "'a param \<Rightarrow> 'a param \<Rightarrow> bool" where
  "same_static p q \<longleftrightarrow> ds_tensor p = ds_tensor q \<and> ds_numel p = ds_numel q \<and> ds_shape p = ds_shape q
     \<and> pdtype p = pdtype q"

definition in_flight :: "nat list \<Rightarrow> 'a heap \<Rightarrow> 'a heap \<Rightarrow> bool" where
  "in_flight ids h h1 \<longleftrightarrow> (\<forall>i. if i \<in> set ids then \<exists>v. h1 i = (h i)\<lparr>pdata := v, ds_status := INFLIGHT\<rparr>
                                else h1 i = h i)"

locale gather_service =
  fixes launch :: "nat list \<Rightarrow> 'a heap \<Rightarrow> ('a heap \<times> 'a ag_handle) result"
    and wait :: "'a ag_handle \<Rightarrow> 'a heap \<Rightarrow> ('a heap \<times> 'a ag_handle) result"
    and ready :: "'a heap \<Rightarrow> nat set \<Rightarrow> bool"
    and full :: "nat \<Rightarrow> 'a list"
  assumes launch_ok: "ready h I \<Longrightarrow> set ids \<subseteq> I \<Longrightarrow> distinct ids \<Longrightarrow> ids \<noteq> []
      \<Longrightarrow> (\<forall>i \<in> set ids. ds_status (h i) = NOT_AVAILABLE)
      \<Longrightarrow> \<exists>h1 hdl. launch ids h = Inr (h1, hdl) \<and> in_flight ids h h1 \<and> set (h_params hdl) = set ids
        \<and> \<not> h_complete hdl \<and> (h_kind hdl = SingleHandle \<longrightarrow> length (h_params hdl) = 1)
        \<and> (\<forall>h'. ready h' I \<and> (\<forall>i \<in> set ids. ds_status (h' i) = INFLIGHT)
              \<longrightarrow> wait hdl h' = Inr (gathered full (h_params hdl) h', finished hdl))"
    and wait_done: "h_complete hdl \<Longrightarrow> h_kind hdl \<noteq> SingleHandle \<Longrightarrow> wait hdl h = Inr (h, hdl)"
    and ready_frame: "ready h I \<Longrightarrow> (\<forall>i \<in> I. same_static (h i) (h' i)) \<Longrightarrow> ready h' I"
begin

text \<open>
  Between the launch and the wait the client may change the heap in every way that keeps the
  shards and the states of the launched parameters; a second wait of a shared handle is void.
\<close>

lemma deferred_wait:
  assumes "ready h I" and "set ids \<subseteq> I" and "distinct ids" and "ids \<noteq> []"
    and "\<forall>i \<in> set ids. ds_status (h i) = NOT_AVAILABLE"
    and "launch ids h = Inr (h1, hdl)"
    and "\<forall>i \<in> I. same_static (h i) (h' i)" and "\<forall>i \<in> set ids. ds_status (h' i) = INFLIGHT"
  shows "wait hdl h' = Inr (gathered full (h_params hdl) h', finished hdl)"
    and "h_kind hdl \<noteq> SingleHandle \<Longrightarrow> wait (finished hdl) h'' = Inr (h'', finished hdl)"
  using launch_ok [OF assms(1-5)] assms(6,8) ready_frame [OF assms(1,7)]
  by (auto simp: finished_def wait_done)

end

definition gatherable ::
  "nat \<Rightarrow> nat \<Rightarrow> 'a collective \<Rightarrow> 'a staging \<Rightarrow> (nat \<Rightarrow> 'a list) \<Rightarrow> (nat \<Rightarrow> nat \<Rightarrow> 'a list) \<Rightarrow> dtype
     \<Rightarrow> 'a heap \<Rightarrow> nat set \<Rightarrow> bool" where
  "gatherable W rank ag cast full S dt h I \<longleftrightarrow>
     holds_shards W rank full S h I \<and> (\<forall>i \<in> I. full i \<noteq> [] \<and> pdtype (h i) = dt) \<and> cast dt = id
     \<and> (\<forall>js. distinct js \<and> js \<noteq> [] \<and> set js \<subseteq> I
          \<longrightarrow> gathers W rank ag (Min (set js)) (\<lambda>r. concat (map (S r) (sort js))))"

lemma holds_shards_subset: "holds_shards W rank full S h I \<Longrightarrow> J \<subseteq> I \<Longrightarrow> holds_shards W rank full S h J"
  by (auto simp: holds_shards_def)

lemma holds_shards_static:
  "holds_shards W rank full S h I \<Longrightarrow> (\<forall>i \<in> I. same_static (h i) (h' i)) \<Longrightarrow> holds_shards W rank full S h' I"
  by (auto simp: holds_shards_def same_static_def)

interpretation gs: gather_service "all_gather_coalesced W u ag cast False" "handle_wait W"
    "gatherable W rank ag cast full S dt" full
  for W rank u ag cast full S dt
proof
  fix h :: "'a heap" and I ids
  assume r: "gatherable W rank ag cast full S dt h I" and sub: "set ids \<subseteq> I" and "distinct ids" and "ids \<noteq> []"
    and na: "\<forall>i \<in> set ids. ds_status (h i) = NOT_AVAILABLE"
  then have ag: "gathers W rank ag (Min (set ids)) (\<lambda>r. concat (map (S r) (sort ids)))"
    and cast: "cast dt = id" and hs: "holds_shards W rank full S h (set ids)"
    by (auto simp: gatherable_def intro: holds_shards_subset)
  have st: "ds_status (h i) = NOT_AVAILABLE \<and> full i \<noteq> [] \<and> pdtype (h i) = dt" if "i \<in> set ids" for i
    using that r sub na by (auto simp: gatherable_def)
  obtain hdl where hdl: "all_gather_coalesced W u ag cast False ids h = Inr (launched u ids h, hdl)"
      "handle_serves W rank full S hdl" "set (h_params hdl) = set ids" "\<not> h_complete hdl"
      "h_kind hdl = SingleHandle \<longrightarrow> length (h_params hdl) = 1"
    using launch_serves [where full = full and S = S and cast = cast and dt = dt and ag = ag,
        OF hs \<open>distinct ids\<close> \<open>ids \<noteq> []\<close> st cast ag] by blast
  have fl: "in_flight ids h (launched u ids h)"
    unfolding in_flight_def
  proof
    fix i show "if i \<in> set ids then \<exists>v. launched u ids h i = (h i)\<lparr>pdata := v, ds_status := INFLIGHT\<rparr>
        else launched u ids h i = h i"
      unfolding launched_def by (cases "i \<in> set ids") (simp_all only: if_True if_False; blast)+
  qed
  have serve: "handle_wait W hdl h' = Inr (gathered full (h_params hdl) h', finished hdl)"
    if "gatherable W rank ag cast full S dt h' I" and "\<forall>i \<in> set ids. ds_status (h' i) = INFLIGHT" for h'
  proof -
    have "holds_shards W rank full S h' (set (h_params hdl))"
      using that(1) sub by (auto simp: gatherable_def hdl(3) intro: holds_shards_subset)
    moreover have "\<forall>i \<in> set (h_params hdl). full i \<noteq> [] \<and> ds_status (h' i) = INFLIGHT"
      using that(2) st by (simp add: hdl(3))
    ultimately show ?thesis using hdl(2) unfolding handle_serves_def by blast
  qed
  show "\<exists>h1 hdl. all_gather_coalesced W u ag cast False ids h = Inr (h1, hdl) \<and> in_flight ids h h1
      \<and> set (h_params hdl) = set ids \<and> \<not> h_complete hdl
      \<and> (h_kind hdl = SingleHandle \<longrightarrow> length (h_params hdl) = 1)
      \<and> (\<forall>h'. gatherable W rank ag cast full S dt h' I \<and> (\<forall>i \<in> set ids. ds_status (h' i) = INFLIGHT)
            \<longrightarrow> handle_wait W hdl h' = Inr (gathered full (h_params hdl) h', finished hdl))"
    using hdl fl serve by blast
next
  fix hdl :: "'a ag_handle" and h
  assume "h_complete hdl" and "h_kind hdl \<noteq> SingleHandle"
  then show "handle_wait W hdl h = Inr (h, hdl)" by (cases "h_kind hdl") (auto simp: wait_defs)
next
  fix h h' :: "'a heap" and I
  assume g: "gatherable W rank ag cast full S dt h I" and s: "\<forall>i \<in> I. same_static (h i) (h' i)"
  then have "holds_shards W rank full S h' I" by (auto simp: gatherable_def intro: holds_shards_static)
  moreover have "\<forall>i \<in> I. pdtype (h' i) = dt" using g s by (auto simp: gatherable_def same_static_def)
  ultimately show "gatherable W rank ag cast full S dt h' I" using g by (auto simp: gatherable_def)
qed

section \<open>Partitioning every rank\<close>

lemma partition_list_ok:
  assumes "0 < W" and "distinct ids"
    and "\<And>i. i \<in> set ids \<Longrightarrow> ds_tensor (h i) = None \<and> active_sub_modules (h i) = {}
        \<and> length (pdata (h i)) = ds_numel (h i)"
  shows "\<exists>H. partition_list W r u False ids h = Inr H
    \<and> (\<forall>i \<in> set ids. \<exists>t. shard_ok W r (pdata (h i)) t
        \<and> H i = (h i)\<lparr>ds_tensor := Some t, pdata := [], ds_status := NOT_AVAILABLE\<rparr>)
    \<and> (\<forall>i. i \<notin> set ids \<longrightarrow> H i = h i)"
  using assms
proof (induction ids arbitrary: h)
  case Nil
  then show ?case by (simp add: partition_list_def)
next
  case (Cons i ids)
  obtain t where t: "partition_param W r u False (h i)
      = Inr ((h i)\<lparr>ds_tensor := Some t, pdata := [], ds_status := NOT_AVAILABLE\<rparr>)"
      "shard_ok W r (pdata (h i)) t"
    using partition_param_fresh [of W "h i" r u False] Cons.prems by auto
  let ?h = "h(i := (h i)\<lparr>ds_tensor := Some t, pdata := [], ds_status := NOT_AVAILABLE\<rparr>)"
  have side: "ds_tensor (?h j) = None \<and> active_sub_modules (?h j) = {}
        \<and> length (pdata (?h j)) = ds_numel (?h j)" if "j \<in> set ids" for j
    using Cons.prems(2,3) that by auto
  have dist: "distinct ids" using Cons.prems(2) by simp
  obtain H where H: "partition_list W r u False ids ?h = Inr H"
      "\<forall>j \<in> set ids. \<exists>t. shard_ok W r (pdata (?h j)) t
        \<and> H j = (?h j)\<lparr>ds_tensor := Some t, pdata := [], ds_status := NOT_AVAILABLE\<rparr>"
      "\<forall>j. j \<notin> set ids \<longrightarrow> H j = ?h j"
    using Cons.IH [where h = ?h, OF Cons.prems(1) dist side] by blast
  have "partition_list W r u False (i # ids) h = Inr H"
    using H(1) t(1) by (simp add: partition_list_def partition_one_def)
  moreover have "\<forall>j \<in> set (i # ids). \<exists>t. shard_ok W r (pdata (h j)) t
        \<and> H j = (h j)\<lparr>ds_tensor := Some t, pdata := [], ds_status := NOT_AVAILABLE\<rparr>"
  proof
    fix j assume "j \<in> set (i # ids)"
    then show "\<exists>t. shard_ok W r (pdata (h j)) t
        \<and> H j = (h j)\<lparr>ds_tensor := Some t, pdata := [], ds_status := NOT_AVAILABLE\<rparr>"
      using H(3) t(2) Cons.prems(2) bspec [OF H(2), of j] by (cases "j = i") auto
  qed
  moreover have "\<forall>j. j \<notin> set (i # ids) \<longrightarrow> H j = h j" using H(3) by simp
  ultimately show ?case by blast
qed

section \<open>Properties\<close>

text \<open>
  C11: partitioning the parameters on every rank and gathering them again gives every rank the
  value it had before. The launch marks the parameters in flight, the wait makes them
  available with their full value; the shards, the padding of the last rank and whatever the
  padding bytes were never show.
\<close>

theorem partition_gather_roundtrip:
  assumes "rank < W" and "distinct ids" and "ids \<noteq> []"
    and plain: "\<And>i. i \<in> set ids \<Longrightarrow> ds_tensor (h i) = None \<and> active_sub_modules (h i) = {}
        \<and> pdata (h i) \<noteq> [] \<and> length (pdata (h i)) = ds_numel (h i)
        \<and> prod_list (ds_shape (h i)) = ds_numel (h i) \<and> pdtype (h i) = dt"
    and cast: "cast dt = id"
    and H: "\<And>r. r < W \<Longrightarrow> partition_list W r (u r) False ids h = Inr (H r)"
    and ag: "gathers W rank ag (Min (set ids)) (\<lambda>r. concat (map (\<lambda>i. the (ds_tensor (H r i))) (sort ids)))"
  shows "\<exists>h1 hdl h2 hdl'. all_gather_coalesced W u0 ag cast False ids (H rank) = Inr (h1, hdl)
    \<and> (\<forall>i \<in> set ids. ds_status (h1 i) = INFLIGHT)
    \<and> handle_wait W hdl h1 = Inr (h2, hdl')
    \<and> (\<forall>i \<in> set ids. ds_status (h2 i) = AVAILABLE \<and> pdata (h2 i) = pdata (h i))"
proof -
  let ?full = "\<lambda>i. pdata (h i)" and ?S = "\<lambda>r i. the (ds_tensor (H r i))"
  have W: "0 < W" using assms(1) by simp
  have shard: "\<exists>t. shard_ok W r (?full i) t
      \<and> H r i = (h i)\<lparr>ds_tensor := Some t, pdata := [], ds_status := NOT_AVAILABLE\<rparr>"
    if "r < W" "i \<in> set ids" for r i
    using partition_list_ok [OF W assms(2), of h r "u r"] plain H [OF that(1)] that(2) by auto
  have hs: "holds_shards W rank ?full ?S (H rank) (set ids)"
    unfolding holds_shards_def
  proof (intro conjI ballI)
    fix i assume i: "i \<in> set ids"
    show "\<forall>r < W. shard_ok W r (?full i) (?S r i)" using shard [OF _ i] by fastforce
    show "ds_tensor (H rank i) = Some (?S rank i)" "ds_numel (H rank i) = length (?full i)"
      "prod_list (ds_shape (H rank i)) = length (?full i)"
      using shard [OF assms(1) i] plain [OF i] by auto
  qed (rule assms(1))
  have st: "ds_status (H rank i) = NOT_AVAILABLE \<and> ?full i \<noteq> [] \<and> pdtype (H rank i) = dt"
    if "i \<in> set ids" for i
    using shard [OF assms(1) that] plain [OF that] by auto
  show ?thesis
    using all_gather_any [where full = ?full and h = "H rank" and S = ?S and cast = cast and dt = dt and ag = ag, OF hs assms(2,3) st cast ag]
    by (fastforce simp: launched_def gathered_def materialised_def)
qed


text \<open>A model of two parameters on two ranks, used to evaluate the definitions.\<close>

definition demo_heap :: "nat heap" where
  "demo_heap = (\<lambda>i. if i = 2 then convert_to_deepspeed_param [3] Float16 True [1, 2, 3]
                    else convert_to_deepspeed_param [1] Float16 True [4])"

definition demo_parted :: "nat \<Rightarrow> nat heap" where
  "demo_parted r = demo_heap
     (2 := (demo_heap 2)\<lparr>ds_tensor := Some (if r = 0 then [1, 2] else [3, 7]), pdata := [], ds_status := NOT_AVAILABLE\<rparr>,
      3 := (demo_heap 3)\<lparr>ds_tensor := Some (if r = 0 then [4] else [7]), pdata := [], ds_status := NOT_AVAILABLE\<rparr>)"

lemma demo_partition: "r < 2 \<Longrightarrow> partition_list 2 r (\<lambda>_. 7) False [3, 2] demo_heap = Inr (demo_parted r)"
  by (cases r) (auto simp: partition_list_def partition_one_def partition_param_def demo_heap_def
      demo_parted_def convert_to_deepspeed_param_def aligned_size_def padding_size_def Let_def
      fresh_def copy_into_def narrow_def copy_to_def free_param_def fun_eq_iff upt_rec)

theorem partition_gather_roundtrip_witness:
  "\<exists>h1 hdl h2 hdl'. all_gather_coalesced 2 (\<lambda>_. 9) (\<lambda>cid t. [1, 2, 4, 3, 7, 7]) (\<lambda>_. id) False [3, 2] (demo_parted 1)
      = Inr (h1, hdl)
    \<and> ds_status (h1 2) = INFLIGHT
    \<and> handle_wait 2 hdl h1 = Inr (h2, hdl')
    \<and> pdata (h2 2) = [1, 2, 3] \<and> pdata (h2 3) = [4]"
proof -
  have H: "partition_list 2 r ((\<lambda>_ _. 7) r) False [3, 2] demo_heap = Inr (demo_parted r)" if "r < 2" for r
    using demo_partition [OF that] by simp
  have "\<exists>h1 hdl h2 hdl'. all_gather_coalesced 2 (\<lambda>_. 9) (\<lambda>cid t. [1, 2, 4, 3, 7, 7]) (\<lambda>_. id) False [3, 2] (demo_parted 1)
      = Inr (h1, hdl)
    \<and> (\<forall>i \<in> set [3, 2]. ds_status (h1 i) = INFLIGHT)
    \<and> handle_wait 2 hdl h1 = Inr (h2, hdl')
    \<and> (\<forall>i \<in> set [3, 2]. ds_status (h2 i) = AVAILABLE \<and> pdata (h2 i) = pdata (demo_heap i))"
    by (rule partition_gather_roundtrip [where u = "\<lambda>_ _. 7" and H = demo_parted and dt = Float16, OF _ _ _ _ _ H])
      (auto simp: demo_heap_def demo_parted_def convert_to_deepspeed_param_def gathers_def upt_rec)
  then show ?thesis
    by (auto simp: demo_heap_def convert_to_deepspeed_param_def)
qed

lemma mark_inflight_fails:
  assumes "\<not> (distinct ids \<and> (\<forall>i \<in> set ids. ds_status (h i) = NOT_AVAILABLE))"
  shows "foldE mark_inflight ids h = Inl (RuntimeError ''all_gather_coalesced: status'')"
  using assms
proof (induction ids arbitrary: h)
  case Nil
  then show ?case by simp
next
  case (Cons i ids)
  show ?case
  proof (cases "ds_status (h i) = NOT_AVAILABLE")
    case True
    let ?h = "h(i := (h i)\<lparr>ds_status := INFLIGHT\<rparr>)"
    have "\<not> (distinct ids \<and> (\<forall>j \<in> set ids. ds_status (?h j) = NOT_AVAILABLE))"
      using Cons.prems True by (cases "i \<in> set ids") auto
    then have "foldE mark_inflight ids ?h = Inl (RuntimeError ''all_gather_coalesced: status'')"
      by (rule Cons.IH)
    moreover have "mark_inflight i h = Inr ?h" using True by (simp add: mark_inflight_def)
    ultimately show ?thesis by simp
  qed (simp add: mark_inflight_def [of i])
qed

text \<open>
  A launch succeeds in marking its parameters exactly when they are pairwise different and
  all not available; otherwise it raises before any collective is enqueued, so no parameter is
  ever gathered twice at the same time.
\<close>

theorem launch_guard:
  "\<not> (distinct ids \<and> (\<forall>i \<in> set ids. ds_status (h i) = NOT_AVAILABLE))
   \<Longrightarrow> all_gather_coalesced W u0 ag cast full_transfer ids h
       = Inl (RuntimeError ''all_gather_coalesced: status'')"
  by (simp add: all_gather_coalesced_def mark_inflight_fails)

theorem launch_guard_witness:
  "all_gather_coalesced 2 (\<lambda>_. 9) (\<lambda>cid t. t) (\<lambda>_. id) False [3, 3] (demo_parted 0)
     = Inl (RuntimeError ''all_gather_coalesced: status'')"
  by (rule launch_guard) simp

lemma partition_list_free:
  assumes "distinct ids"
    and "\<And>i. i \<in> set ids \<Longrightarrow> ds_status (h i) = AVAILABLE \<and> ds_tensor (h i) \<noteq> None \<and> active_sub_modules (h i) = {}"
  shows "partition_list W r u False ids h
    = Inr (\<lambda>i. if i \<in> set ids then (h i)\<lparr>pdata := [], ds_status := NOT_AVAILABLE\<rparr> else h i)"
  using assms
proof (induction ids arbitrary: h)
  case Nil
  then show ?case by (simp add: partition_list_def)
next
  case (Cons i ids)
  let ?h = "h(i := (h i)\<lparr>pdata := [], ds_status := NOT_AVAILABLE\<rparr>)"
  have one: "partition_one W r u False i h = Inr ?h"
    using Cons.prems(2) [of i] by (simp add: partition_one_def partition_param_def free_param_def)
  have "partition_list W r u False ids ?h
    = Inr (\<lambda>j. if j \<in> set ids then (?h j)\<lparr>pdata := [], ds_status := NOT_AVAILABLE\<rparr> else ?h j)"
    using Cons.prems by (intro Cons.IH) auto
  then show ?case
    using one by (auto simp: partition_list_def fun_eq_iff)
qed

text \<open>
  C10: one gather and release of partitioned parameters leaves the heap as it was: after the
  wait every parameter is available with its full value, and partitioning it again frees the
  value and keeps the shard. So gathers and releases may follow one another for any number of
  sub-modules.
\<close>

theorem gather_release_cycle:
  assumes "holds_shards W rank full S h (set ids)" and "distinct ids" and "ids \<noteq> []"
    and st: "\<And>i. i \<in> set ids \<Longrightarrow> ds_status (h i) = NOT_AVAILABLE \<and> full i \<noteq> [] \<and> pdtype (h i) = dt
        \<and> pdata (h i) = [] \<and> active_sub_modules (h i) = {}"
    and "cast dt = id"
    and "gathers W rank ag (Min (set ids)) (\<lambda>r. concat (map (S r) (sort ids)))"
  shows "\<exists>h1 hdl h2 hdl'. all_gather_coalesced W u0 ag cast False ids h = Inr (h1, hdl)
    \<and> handle_wait W hdl h1 = Inr (h2, hdl')
    \<and> (\<forall>i \<in> set ids. pdata (h2 i) = full i)
    \<and> partition_list W rank u False ids h2 = Inr h"
proof -
  have st': "ds_status (h i) = NOT_AVAILABLE \<and> full i \<noteq> [] \<and> pdtype (h i) = dt" if "i \<in> set ids" for i
    using st [OF that] by simp
  let ?h2 = "gathered full ids h"
  obtain hdl hdl' where g: "all_gather_coalesced W u0 ag cast False ids h = Inr (launched u0 ids h, hdl)"
      "handle_wait W hdl (launched u0 ids h) = Inr (?h2, hdl')"
    using all_gather_any [where full = full and h = h and S = S and cast = cast and dt = dt and ag = ag,
        OF assms(1-3) st' assms(5,6)] by blast
  have "partition_list W rank u False ids ?h2
    = Inr (\<lambda>i. if i \<in> set ids then (?h2 i)\<lparr>pdata := [], ds_status := NOT_AVAILABLE\<rparr> else ?h2 i)"
    using assms(1,2) st
    by (intro partition_list_free) (auto simp: gathered_def materialised_def holds_shards_def)
  moreover have "(\<lambda>i. if i \<in> set ids then (?h2 i)\<lparr>pdata := [], ds_status := NOT_AVAILABLE\<rparr> else ?h2 i) = h"
  proof
    fix i show "(if i \<in> set ids then (?h2 i)\<lparr>pdata := [], ds_status := NOT_AVAILABLE\<rparr> else ?h2 i) = h i"
      using st [of i] by (cases "h i") (auto simp: gathered_def materialised_def)
  qed
  ultimately show ?thesis using g by (auto simp: gathered_def materialised_def)
qed

definition demo_full :: "nat \<Rightarrow> nat list" where
  "demo_full i = (if i = 2 then [1, 2, 3] else [4])"

definition demo_shard :: "nat \<Rightarrow> nat \<Rightarrow> nat list" where
  "demo_shard r i = (if i = 2 then (if r = 0 then [1, 2] else [3, 7]) else (if r = 0 then [4] else [7]))"

lemma demo_sizes: "shard_size 2 (Suc (Suc (Suc 0))) = 2" "shard_size 2 (Suc 0) = 1" "r < 2 \<longleftrightarrow> r = 0 \<or> r = (1 :: nat)"
  by (auto simp: shard_size_def aligned_size_def padding_size_def Let_def)

lemma demo_shard_ok: "i = 2 \<or> i = 3 \<Longrightarrow> r < 2 \<Longrightarrow> shard_ok 2 r (demo_full i) (demo_shard r i)"
  by (auto simp: demo_sizes(3) demo_full_def demo_shard_def shard_ok_def demo_sizes(1,2) block_def)

lemma demo_holds: "rank < 2 \<Longrightarrow> I \<subseteq> {2, 3} \<Longrightarrow> holds_shards 2 rank demo_full demo_shard (demo_parted rank) I"
  using demo_shard_ok
  by (fastforce simp: holds_shards_def demo_sizes(3) demo_full_def demo_shard_def demo_parted_def
      demo_heap_def convert_to_deepspeed_param_def)

theorem gather_release_cycle_witness:
  "\<exists>h1 hdl h2 hdl'. all_gather_coalesced 2 (\<lambda>_. 9) (\<lambda>cid t. [1, 2, 4, 3, 7, 7]) (\<lambda>_. id) False [3, 2] (demo_parted 0)
      = Inr (h1, hdl)
    \<and> handle_wait 2 hdl h1 = Inr (h2, hdl') \<and> (\<forall>i \<in> set [3, 2]. pdata (h2 i) = demo_full i)
    \<and> partition_list 2 0 (\<lambda>_. 0) False [3, 2] h2 = Inr (demo_parted 0)"
  by (rule gather_release_cycle [where S = demo_shard and dt = Float16, OF demo_holds])
    (auto simp: demo_parted_def demo_heap_def convert_to_deepspeed_param_def gathers_def
      demo_full_def demo_shard_def upt_rec)


text \<open>
  Partitioning a parameter that already has a shard. If its full value is available and it
  is not marked as updated, the value is freed and the shard kept, unless a sub-module still
  uses it. In every other case, in particular whenever the caller says that the value has been
  updated, the code reads a local variable it never bound: the new value cannot be written
  back to the shard.
\<close>

theorem repartition:
  "partition_param W rank u has_been_updated (p\<lparr>ds_tensor := Some t\<rparr>) =
     (if ds_status p = AVAILABLE \<and> \<not> has_been_updated
      then if active_sub_modules p \<noteq> {} then Inl AssertionError
           else Inr (p\<lparr>ds_tensor := Some t, pdata := [], ds_status := NOT_AVAILABLE\<rparr>)
      else Inl UnboundLocalError)"
  by (simp add: partition_param_def free_param_def Let_def)

text \<open>
  The consequence for \<^verbatim>\<open>Module.apply\<close> under the context: it gathers, applies, and partitions
  with \<open>has_been_updated\<close>.
\<close>

definition apply_gathered ::
  "nat \<Rightarrow> nat \<Rightarrow> (nat \<Rightarrow> 'a) \<Rightarrow> 'a collective \<Rightarrow> (nat \<Rightarrow> bool) \<Rightarrow> ('a heap \<Rightarrow> 'a heap)
     \<Rightarrow> (nat \<Rightarrow> 'a list \<Rightarrow> 'a list) \<Rightarrow> nat list \<Rightarrow> 'a heap \<Rightarrow> 'a heap result" where
  "apply_gathered W rank u ag done fn bcast ids h =
     (let params = sort ids in
      ebind (foldE (\<lambda>i. all_gather_sync W u ag done [i]) params h) (\<lambda>h1.
        let h2 = fn h1;
            h3 = fold (\<lambda>i h. h(i := (h i)\<lparr>pdata := bcast i (pdata (h i))\<rparr>)) params h2
        in foldE (\<lambda>i. partition_list W rank u True [i]) params h3))"

lemma replicate_pieces_ok:
  assumes "\<And>r. r \<in> set rs \<Longrightarrow> shard_ok W r full (S r)
      \<and> off + shard_size W (length full) \<le> length (parts ! r)
      \<and> take (shard_size W (length full)) (drop off (parts ! r)) = S r"
    and "length dst = length full" and "rs = [a..<b]"
    and "take (a * shard_size W (length full)) dst = take (a * shard_size W (length full)) full"
    and "length full \<le> b * shard_size W (length full)" and "a \<le> b"
  shows "replicate_pieces parts (length full) (shard_size W (length full)) off rs dst = Inr full"
  using assms
proof (induction rs arbitrary: dst a)
  case Nil
  have "a = b" using Nil.prems(3) [symmetric] Nil.prems(6) by (auto simp: upt_eq_Nil_conv)
  with Nil show ?case by simp
next
  case (Cons r rs)
  let ?k = "shard_size W (length full)" and ?n = "length full"
  from Cons.prems(3) have ab: "a < b" "r = a" "rs = [Suc a..<b]"
    by (auto simp: eq_commute [of _ "[a..<b]"] upt_eq_Cons_conv)
  have r: "shard_ok W a full (S a)" "off + ?k \<le> length (parts ! a)" "take ?k (drop off (parts ! a)) = S a"
    using Cons.prems(1) ab by auto
  show ?case
  proof (cases "a * ?k < ?n")
    case False
    then have "a * ?k \<ge> ?n" by simp
    then have dst: "dst = full" using Cons.prems(2,4) by simp
    have "replicate_pieces parts ?n ?k off rs dst = Inr full"
    proof (rule Cons.IH [of dst "Suc a"])
      show "take (Suc a * ?k) dst = take (Suc a * ?k) full" by (simp add: dst)
    qed (use Cons.prems ab in auto)
    then show ?thesis using False by (simp add: ab)
  next
    case True
    let ?m = "min (?n - a * ?k) ?k"
    let ?dst = "take (a * ?k) dst @ block ?k a full @ drop (a * ?k + ?m) dst"
    have "take ?m (drop off (parts ! a)) = take (?n - a * ?k) (S a)"
      using r(3) by (metis take_take)
    also have "\<dots> = block ?k a full" using r(1) by (simp add: shard_ok_def)
    finally have piece: "narrow off ?m (parts ! a) = Inr (block ?k a full)"
      using r(2) by (simp add: narrow_def)
    have len: "length (block ?k a full) = ?m" by (simp add: length_block min.commute)
    have copy: "copy_into dst (a * ?k) ?m (block ?k a full) = Inr ?dst"
      using Cons.prems(2) True len by (intro copy_into_ok) auto
    have "replicate_pieces parts ?n ?k off rs ?dst = Inr full"
    proof (rule Cons.IH [of ?dst "Suc a"])
      show "length ?dst = ?n" using Cons.prems(2) True len by (simp add: min_def)
      have "take (Suc a * ?k) full = take (a * ?k) full @ block ?k a full"
        by (simp add: block_def take_add [symmetric] add.commute)
      moreover have "take (Suc a * ?k) ?dst = take (a * ?k) dst @ block ?k a full"
        using True Cons.prems(2) len by (auto simp: min_def)
      ultimately show "take (Suc a * ?k) ?dst = take (Suc a * ?k) full"
        using Cons.prems(4) by simp
    qed (use Cons.prems ab in auto)
    then show ?thesis using True piece copy by (simp add: ab Let_def)
  qed
qed


lemma all_gather_sync_one:
  assumes h: "holds_shards W rank full S h {i}" and "ds_status (h i) = NOT_AVAILABLE"
    and ag: "gathers W rank ag i (\<lambda>r. S r i)"
  shows "all_gather_sync W u ag done [i] h = Inr (h(i := materialised full h i))"
proof -
  let ?k = "shard_size W (length (full i))" and ?n = "length (full i)"
  let ?parts = "rank_parts W ?k (concat (map (\<lambda>r. S r i) [0..<W]))"
  have shard: "ds_tensor (h i) = Some (S rank i)" "ds_numel (h i) = ?n"
    "prod_list (ds_shape (h i)) = ?n" "length (S rank i) = ?k"
    using h by (auto simp: holds_shards_def shard_ok_length)
  have len: "length (S r i) = ?k" if "r < W" for r
    using length_shard [OF h _ that] by simp
  have parts: "?parts ! r = S r i" if "r < W" for r
    using that by (rule rank_parts_concat [rotated]) (rule len)
  have "replicate_pieces ?parts ?n ?k 0 [0..<W] (fresh u ?n) = Inr (full i)"
    using h shard_size_covers [OF holds_shards_pos [OF h], of ?n]
    by (intro replicate_pieces_ok [where S = "\<lambda>r. S r i" and W = W and a = 0 and b = W])
      (auto simp: parts len holds_shards_def)
  then show ?thesis
    using assms(2) shard ag
    by (simp add: all_gather_sync_def allgather_params_def the_shard_def replicate_param_def
        partition_numel_def gathers_def set_available_def materialised_def)
qed

lemma gathered_Cons:
  "i \<notin> set is \<Longrightarrow> gathered full is (h(i := materialised full h i)) = gathered full (i # is) h"
  by (auto simp: gathered_def materialised_def fun_eq_iff)

lemma all_gather_sync_each:
  assumes "holds_shards W rank full S h (set ids)" and "distinct ids"
    and "\<And>i. i \<in> set ids \<Longrightarrow> ds_status (h i) = NOT_AVAILABLE \<and> gathers W rank ag i (\<lambda>r. S r i)"
  shows "foldE (\<lambda>i. all_gather_sync W u ag done [i]) ids h = Inr (gathered full ids h)"
  using assms
proof (induction ids arbitrary: h)
  case Nil
  then show ?case by (simp add: gathered_def)
next
  case (Cons i ids)
  let ?h = "h(i := materialised full h i)"
  have i: "i \<notin> set ids" using Cons.prems(2) by simp
  have "all_gather_sync W u ag done [i] h = Inr ?h"
    using Cons.prems(1,3) by (intro all_gather_sync_one) (auto simp: holds_shards_def)
  moreover have "foldE (\<lambda>i. all_gather_sync W u ag done [i]) ids ?h = Inr (gathered full ids ?h)"
    using Cons.prems i by (intro Cons.IH) (auto simp: holds_shards_upd holds_shards_def)
  ultimately show ?case by (simp add: gathered_Cons [OF i])
qed

text \<open>
  \<^verbatim>\<open>Module.apply(fn)\<close> on a module whose parameters are already partitioned gathers every
  parameter correctly, and then always fails: the repartition with
  \<^verbatim>\<open>has_been_updated = True\<close> raises \<open>UnboundLocalError\<close>.
\<close>

theorem apply_gathered_fails:
  assumes "holds_shards W rank full S h (set ids)" and "distinct ids" and "ids \<noteq> []"
    and "\<And>i. i \<in> set ids \<Longrightarrow> ds_status (h i) = NOT_AVAILABLE \<and> gathers W rank ag i (\<lambda>r. S r i)"
    and fn: "\<And>h i. ds_tensor (fn h i) = ds_tensor (h i)"
  shows "foldE (\<lambda>i. all_gather_sync W u ag done [i]) (sort ids) h = Inr (gathered full ids h)
    \<and> apply_gathered W rank u ag done fn bcast ids h = Inl UnboundLocalError"
proof -
  let ?upd = "\<lambda>i h. h(i := (h i)\<lparr>pdata := bcast i (pdata (h i))\<rparr>)"
  have g: "foldE (\<lambda>i. all_gather_sync W u ag done [i]) (sort ids) h = Inr (gathered full (sort ids) h)"
    using assms by (intro all_gather_sync_each) auto
  have keep: "ds_tensor (fold ?upd js g i) = ds_tensor (g i)" for js g i
    by (induction js arbitrary: g) auto
  from assms(3) obtain j js where js: "sort ids = j # js"
    by (metis list.exhaust set_empty set_sort)
  then have "j \<in> set ids" by (metis list.set_intros(1) set_sort)
  then have "ds_tensor (gathered full (sort ids) h j) \<noteq> None"
    using assms(1) by (simp add: gathered_def materialised_def holds_shards_def)
  moreover have "ds_tensor (fold ?upd (sort ids) (fn (gathered full (sort ids) h)) j)
      = ds_tensor (gathered full (sort ids) h j)"
    by (simp only: keep fn)
  ultimately have "partition_list W rank u True [j] (fold ?upd (sort ids) (fn (gathered full (sort ids) h))) = Inl UnboundLocalError"
    by (auto simp: partition_list_def partition_one_def partition_param_def Let_def)
  then have "apply_gathered W rank u ag done fn bcast ids h = Inl UnboundLocalError"
    unfolding apply_gathered_def Let_def g ebind_Inr by (simp add: js)
  then show ?thesis using g by (simp add: gathered_def)
qed

theorem apply_gathered_fails_witness:
  "foldE (\<lambda>i. all_gather_sync 2 (\<lambda>_. 0) (\<lambda>cid t. if cid = 2 then [1, 2, 3, 7] else [4, 7]) (\<lambda>_. True) [i])
       (sort [3, 2]) (demo_parted 0) = Inr (gathered demo_full [3, 2] (demo_parted 0))
   \<and> apply_gathered 2 0 (\<lambda>_. 0) (\<lambda>cid t. if cid = 2 then [1, 2, 3, 7] else [4, 7]) (\<lambda>_. True)
       (\<lambda>h. h) (\<lambda>_ v. v) [3, 2] (demo_parted 0) = Inl UnboundLocalError"
  by (rule apply_gathered_fails [where S = demo_shard, OF demo_holds])
    (auto simp: demo_parted_def gathers_def demo_shard_def upt_rec)

lemma coalesced_fold:
  assumes "\<And>j i. (j, i) \<in> set ps \<Longrightarrow> ebind (narrow 0 (ds_numel (h i)) (buf j i)) (view_as_shape (ds_shape (h i))) = Inr (val j i)"
    and "distinct (map snd ps)"
  shows "foldE (\<lambda>(j, i) h. ebind (narrow 0 (ds_numel (h i)) (buf j i)) (\<lambda>v.
            ebind (view_as_shape (ds_shape (h i)) v) (\<lambda>v. Inr (h(i := (h i)\<lparr>pdata := v\<rparr>))))) ps h
    = Inr (\<lambda>i. case map_of (map prod.swap ps) i of None \<Rightarrow> h i | Some j \<Rightarrow> (h i)\<lparr>pdata := val j i\<rparr>)"
  using assms
proof (induction ps arbitrary: h)
  case Nil
  then show ?case by simp
next
  case (Cons p ps)
  obtain j i where p: "p = (j, i)" by (cases p)
  let ?h = "h(i := (h i)\<lparr>pdata := val j i\<rparr>)"
  let ?step = "\<lambda>(j, i) h. ebind (narrow 0 (ds_numel (h i)) (buf j i)) (\<lambda>v.
            ebind (view_as_shape (ds_shape (h i)) v) (\<lambda>v. Inr (h(i := (h i)\<lparr>pdata := v\<rparr>))))"
  have one: "?step (j, i) h = Inr ?h"
  proof -
    have "ebind (narrow 0 (ds_numel (h i)) (buf j i)) (view_as_shape (ds_shape (h i))) = Inr (val j i)"
      using Cons.prems(1) by (simp add: p)
    then show ?thesis by (auto simp: ebind_eq_Inr_iff ebind_def split: sum.splits)
  qed
  have rest: "foldE ?step ps ?h
    = Inr (\<lambda>i. case map_of (map prod.swap ps) i of None \<Rightarrow> ?h i | Some j \<Rightarrow> (?h i)\<lparr>pdata := val j i\<rparr>)"
  proof (rule Cons.IH)
    show "distinct (map snd ps)" using Cons.prems(2) by simp
    show "ebind (narrow 0 (ds_numel (?h i')) (buf j' i')) (view_as_shape (ds_shape (?h i'))) = Inr (val j' i')"
      if "(j', i') \<in> set ps" for j' i'
      using Cons.prems(1) [of j' i'] that by (cases "i' = i") auto
  qed
  have "map_of (map prod.swap ps) i = None"
    using Cons.prems(2) by (force simp: p map_of_eq_None_iff)
  then have "(\<lambda>i. case map_of (map prod.swap ps) i of None \<Rightarrow> ?h i | Some j \<Rightarrow> (?h i)\<lparr>pdata := val j i\<rparr>)
      = (\<lambda>i. case map_of (map prod.swap (p # ps)) i of None \<Rightarrow> h i | Some j \<Rightarrow> (h i)\<lparr>pdata := val j i\<rparr>)"
    by (auto simp: p fun_eq_iff split: option.splits)
  with rest one show ?case by (simp only: p foldE.simps ebind_Inr)
qed


lemma map_of_enumerate_swap:
  assumes "distinct ids" and "j < length ids"
  shows "map_of (map prod.swap (enumerate 0 ids)) (ids ! j) = Some j"
proof -
  have "map prod.swap (enumerate 0 ids) = zip ids [0..<length ids]"
    by (intro nth_equalityI) (auto simp: nth_enumerate_eq)
  then show ?thesis using assms by (simp add: map_of_zip_nth)
qed

text \<open>
  \<^verbatim>\<open>_allgather_params_coalesced\<close> gives the first parameter its full value, and each
  other parameter its full value only if its own collective has completed by then: the call
  waits for the first handle alone, and a parameter whose collective is still under way is
  declared available with the uninitialised contents of its buffer.
\<close>

theorem allgather_params_coalesced_stale:
  assumes h: "holds_shards W rank full S h (set ids)" and d: "distinct ids"
    and ag: "\<And>i. i \<in> set ids \<Longrightarrow> gathers W rank ag i (\<lambda>r. S r i)"
  shows "\<exists>h'. allgather_params_coalesced W u ag done ids h = Inr h'
    \<and> (\<forall>j < length ids. pdata (h' (ids ! j))
        = (if j = 0 \<or> done j then full (ids ! j) else fresh u (length (full (ids ! j)))))"
proof -
  let ?buf = "\<lambda>j i. if j = 0 \<or> done j then ag i (map (S rank) ids ! j)
                    else fresh u (length (map (S rank) ids ! j) * W)"
  let ?val = "\<lambda>j i. if j = 0 \<or> done j then full i else fresh u (length (full i))"
  let ?h = "\<lambda>i. case map_of (map prod.swap (enumerate 0 ids)) i of None \<Rightarrow> h i
                 | Some j \<Rightarrow> (h i)\<lparr>pdata := ?val j i\<rparr>"
  have W: "0 < W" using h by (rule holds_shards_pos)
  have shards: "collect_shards h ids = Inr (map (S rank) ids)"
    using h by (intro collect_shards_ok) (auto simp: holds_shards_def)
  have one: "ebind (narrow 0 (ds_numel (h i)) (?buf j i)) (view_as_shape (ds_shape (h i))) = Inr (?val j i)"
    if "(j, i) \<in> set (enumerate 0 ids)" for j i
  proof -
    from that have j: "j < length ids" "ids ! j = i" and i: "i \<in> set ids"
      by (auto simp: in_set_enumerate_eq)
    have p: "ds_numel (h i) = length (full i)" "prod_list (ds_shape (h i)) = length (full i)"
      "length (S rank i) = shard_size W (length (full i))"
      using h i length_shard [OF h i] by (auto simp: holds_shards_def)
    have recv: "take (length (full i)) (ag i (S rank i)) = full i"
      using take_concat_shards [of W "full i" "\<lambda>r. S r i"] h i W ag [OF i]
      by (auto simp: gathers_def holds_shards_def)
    then have nar: "narrow 0 (length (full i)) (ag i (S rank i)) = Inr (full i)"
      by (metis length_take min.absorb_iff2 min.commute narrow_ok add_0 drop_0)
    have "length (full i) \<le> shard_size W (length (full i)) * W"
      using shard_size_covers [OF W, of "length (full i)"] by (simp add: mult.commute)
    then show ?thesis using p nar j by (simp add: take_fresh)
  qed
  have "allgather_params_coalesced W u ag done ids h = Inr ?h"
    using coalesced_fold [of "enumerate 0 ids" h ?buf ?val] one d
    by (simp add: allgather_params_coalesced_def shards Let_def)
  moreover have "pdata (?h (ids ! j)) = ?val j (ids ! j)" if "j < length ids" for j
    using map_of_enumerate_swap [OF d that] by simp
  ultimately show ?thesis by blast
qed

theorem allgather_params_coalesced_stale_witness:
  "\<exists>h'. allgather_params_coalesced 2 (\<lambda>_. 99) (\<lambda>cid t. if cid = 2 then [1, 2, 3, 7] else [4, 7])
      (\<lambda>_. False) [3, 2] (demo_parted 0) = Inr h'
    \<and> pdata (h' 3) = [4] \<and> pdata (h' 2) = [99, 99, 99]"
proof -
  have "\<exists>h'. allgather_params_coalesced 2 (\<lambda>_. 99) (\<lambda>cid t. if cid = 2 then [1, 2, 3, 7] else [4, 7])
      (\<lambda>_. False) [3, 2] (demo_parted 0) = Inr h'
    \<and> (\<forall>j < length [3, 2 :: nat]. pdata (h' ([3, 2] ! j))
        = (if j = 0 \<or> (\<lambda>_. False) j then demo_full ([3, 2] ! j) else fresh (\<lambda>_. 99) (length (demo_full ([3, 2] ! j)))))"
    by (rule allgather_params_coalesced_stale [where S = demo_shard, OF demo_holds])
      (auto simp: gathers_def demo_shard_def upt_rec)
  then show ?thesis by (auto simp: All_less_Suc demo_full_def fresh_def)
qed

lemma restore_cpu_list:
  assumes "distinct ids"
    and "\<And>i. i \<in> set ids \<Longrightarrow> ds_numel (h i) = length (full i) \<and> prod_list (ds_shape (h i)) = length (full i)
        \<and> (\<exists>b. cpu_full_param (h i) = Some b \<and> buf_data b = full i)"
  shows "foldE restore_cpu ids h = Inr (gathered full ids h)"
  using assms
proof (induction ids arbitrary: h)
  case Nil
  then show ?case by (simp add: gathered_def)
next
  case (Cons i ids)
  let ?h = "h(i := materialised full h i)"
  have i: "i \<notin> set ids" using Cons.prems(1) by simp
  have "restore_cpu i h = Inr ?h"
    using Cons.prems(2) [of i] by (auto simp: restore_cpu_def materialised_def)
  moreover have "foldE restore_cpu ids ?h = Inr (gathered full ids ?h)"
    using Cons.prems i by (intro Cons.IH) auto
  ultimately show ?case by (simp add: gathered_Cons [OF i])
qed

text \<open>
  C12: when every parameter has a right host copy, the path without communication ends in the
  same heap as the gathering one: all parameters available with their full value.
\<close>

theorem cpu_full_path_equivalent:
  assumes "holds_shards W rank full S h (set ids)" and "distinct ids" and "ids \<noteq> []"
    and st: "\<And>i. i \<in> set ids \<Longrightarrow> ds_status (h i) = NOT_AVAILABLE \<and> full i \<noteq> [] \<and> pdtype (h i) = dt"
    and host: "\<And>i. i \<in> set ids \<Longrightarrow> \<exists>b. cpu_full_param (h i) = Some b \<and> buf_data b = full i"
    and "cast dt = id"
    and "gathers W rank ag (Min (set ids)) (\<lambda>r. concat (map (S r) (sort ids)))"
  shows "\<exists>h1 hdl1 h2 hdl2 h' d1 d2. all_gather_coalesced W u ag cast True ids h = Inr (h1, hdl1)
    \<and> h_kind hdl1 = CpuFullHandle \<and> handle_wait W hdl1 h1 = Inr (h', d1)
    \<and> all_gather_coalesced W u ag cast False ids h = Inr (h2, hdl2)
    \<and> handle_wait W hdl2 h2 = Inr (h', d2)"
proof -
  let ?h1 = "\<lambda>i. if i \<in> set ids then (h i)\<lparr>ds_status := INFLIGHT\<rparr> else h i"
  let ?hdl = "\<lparr>h_kind = CpuFullHandle, h_params = sort ids, h_recv = [], h_part_size = 0, h_complete = False\<rparr>"
  have mark: "foldE mark_inflight ids h = Inr ?h1"
    using st by (intro mark_inflight_list [OF assms(2)]) simp
  have "\<forall>i \<in> set (sort ids). cpu_full_param (?h1 i) \<noteq> None" using host by fastforce
  then have a: "all_gather_coalesced W u ag cast True ids h = Inr (?h1, ?hdl)"
    using mark by (simp add: all_gather_coalesced_def Let_def)
  have "foldE restore_cpu (sort ids) ?h1 = Inr (gathered full (sort ids) ?h1)"
    using assms(1,2) host by (intro restore_cpu_list) (auto simp: holds_shards_def)
  moreover have "gathered full (sort ids) ?h1 = gathered full ids h"
    by (auto simp: gathered_def materialised_def fun_eq_iff)
  ultimately have b: "handle_wait W ?hdl ?h1 = Inr (gathered full ids h, ?hdl\<lparr>h_complete := True\<rparr>)"
    by (simp add: wait_defs)
  obtain hdl hdl' where c: "all_gather_coalesced W u ag cast False ids h = Inr (launched u ids h, hdl)"
      "handle_wait W hdl (launched u ids h) = Inr (gathered full ids h, hdl')"
    using all_gather_any [where full = full and h = h and S = S and cast = cast and dt = dt and ag = ag,
        OF assms(1-3) st assms(6,7)] by blast
  show ?thesis using a b c by fastforce
qed

definition demo_host :: "nat heap" where
  "demo_host = (\<lambda>i. (demo_parted 0 i)\<lparr>cpu_full_param :=
     Some \<lparr>buf_ptr = i, buf_on_cpu = True, buf_pinned = True, buf_shape = [length (demo_full i)],
           buf_dtype = Float16, buf_data = demo_full i\<rparr>\<rparr>)"

theorem cpu_full_path_equivalent_witness:
  "\<exists>h1 hdl1 h2 hdl2 h' d1 d2.
    all_gather_coalesced 2 (\<lambda>_. 9) (\<lambda>cid t. [1, 2, 4, 3, 7, 7]) (\<lambda>_. id) True [3, 2] demo_host = Inr (h1, hdl1)
    \<and> h_kind hdl1 = CpuFullHandle \<and> handle_wait 2 hdl1 h1 = Inr (h', d1)
    \<and> all_gather_coalesced 2 (\<lambda>_. 9) (\<lambda>cid t. [1, 2, 4, 3, 7, 7]) (\<lambda>_. id) False [3, 2] demo_host = Inr (h2, hdl2)
    \<and> handle_wait 2 hdl2 h2 = Inr (h', d2)"
proof (rule cpu_full_path_equivalent [where S = demo_shard and full = demo_full and dt = Float16])
  show "holds_shards 2 0 demo_full demo_shard demo_host (set [3, 2])"
    using demo_holds [of 0 "{2, 3}"] by (simp add: holds_shards_def demo_host_def)
qed (auto simp: demo_host_def demo_parted_def demo_heap_def convert_to_deepspeed_param_def gathers_def
      demo_full_def demo_shard_def upt_rec)

end
