(* ===== verification/ComchWork.thy ===== *)
theory ComchWork
  imports FlagPool Tensor
begin

text \<open>
  Work handles of the SmartNIC collectives and the wrappers that create them:
  \<^verbatim>\<open>_ComchHandleWork\<close>, \<^verbatim>\<open>_AllGatherWork\<close>, \<^verbatim>\<open>_ReduceScatterWork\<close>, \<^verbatim>\<open>all_gather_list_via_base\<close>,
  \<^verbatim>\<open>reduce_scatter_list_via_base\<close>, \<^verbatim>\<open>all_gather_flat_via_base\<close>, \<^verbatim>\<open>reduce_scatter_flat_via_base\<close>
  of \<^verbatim>\<open>src/smartnic_offload/partition_parameters.py\<close>.

  The C binding is the environment. The model keeps the trace of the calls the code makes to
  it; the environment decides for the \<open>n\<close>-th call of the trace whether it raises, what a test
  answers and which handle an enqueue returns. The contract the binding asks for is on the
  trace: a handle is released at most once and not used after that.
\<close>

section \<open>The binding\<close>

datatype coll_kind = ALL_GATHER | REDUCE_SCATTER

datatype 'a comch_call =
    Enqueue coll_kind int "'a list"
  | EnqueueFlag coll_kind int "'a list" int int
  | ReqWait int
  | ReqRelease int
  | ReqTest int

record comch_env =
  call_fails :: "nat \<Rightarrow> bool"
  test_result :: "nat \<Rightarrow> bool"
  handle_of :: "nat \<Rightarrow> int"
  driver :: "(int \<Rightarrow> int \<Rightarrow> int) option"

record 'a comch_world =
  calls :: "'a comch_call list"
  stream :: "(int \<times> int) list"
  global_pool :: "flag_pool option"

definition bind_call :: "comch_env \<Rightarrow> 'a comch_call \<Rightarrow> 'a comch_world \<Rightarrow> 'a comch_world \<times> nat result" where
  "bind_call env c w =
     (w\<lparr>calls := calls w @ [c]\<rparr>,
      if call_fails env (length (calls w)) then Inl (RuntimeError ''comch'') else Inr (length (calls w)))"

section \<open>The handle class\<close>

record comch_work =
  w_handle :: int
  w_released :: bool
  w_completed :: bool
  gpu_flag_addr :: int
  gpu_flag_value :: int
  gpu_flag_scheduled :: bool

definition work_init :: "int \<Rightarrow> int \<Rightarrow> int \<Rightarrow> comch_work" where
  "work_init handle addr val =
     \<lparr>w_handle = handle, w_released = False, w_completed = False, gpu_flag_addr = addr,
      gpu_flag_value = val, gpu_flag_scheduled = False\<rparr>"

definition use_gpu_flag :: "comch_work \<Rightarrow> bool" where
  "use_gpu_flag k = (gpu_flag_addr k \<noteq> 0)"

definition release_once ::
  "comch_env \<Rightarrow> 'a comch_world \<times> comch_work \<Rightarrow> ('a comch_world \<times> comch_work) \<times> unit result" where
  "release_once env s =
     (case s of (w, k) \<Rightarrow>
        if w_released k then (s, Inr ())
        else case bind_call env (ReqRelease (w_handle k)) w of
               (w1, Inl e) \<Rightarrow> ((w1, k), Inl e)
             | (w1, Inr n) \<Rightarrow> ((w1, k\<lparr>w_released := True\<rparr>), Inr ()))"

definition work_wait ::
  "comch_env \<Rightarrow> 'a comch_world \<times> comch_work \<Rightarrow> ('a comch_world \<times> comch_work) \<times> unit result" where
  "work_wait env s =
     (case s of (w, k) \<Rightarrow>
        if use_gpu_flag k
        then case (if gpu_flag_scheduled k then Inr (stream w)
                   else stream_wait_value_eq (driver env) (stream w) (gpu_flag_addr k) (gpu_flag_value k)) of
               Inl e \<Rightarrow> (s, Inl e)
             | Inr st \<Rightarrow> release_once env (w\<lparr>stream := st\<rparr>, k\<lparr>gpu_flag_scheduled := True, w_completed := True\<rparr>)
        else if w_completed k then release_once env (w, k)
        else case bind_call env (ReqWait (w_handle k)) w of
               (w1, Inl e) \<Rightarrow> ((w1, k), Inl e)
             | (w1, Inr n) \<Rightarrow> release_once env (w1, k\<lparr>w_completed := True\<rparr>))"

definition work_is_completed ::
  "comch_env \<Rightarrow> 'a comch_world \<times> comch_work \<Rightarrow> ('a comch_world \<times> comch_work) \<times> bool result" where
  "work_is_completed env s =
     (case s of (w, k) \<Rightarrow>
        if w_completed k then (s, Inr True)
        else case bind_call env (ReqTest (w_handle k)) w of
               (w1, Inl e) \<Rightarrow> ((w1, k), Inl e)
             | (w1, Inr n) \<Rightarrow>
                 ((w1, if test_result env n then k\<lparr>w_completed := True\<rparr> else k), Inr (test_result env n)))"

text \<open>\<^verbatim>\<open>__del__\<close> swallows what the release raises.\<close>

definition work_del :: "comch_env \<Rightarrow> 'a comch_world \<times> comch_work \<Rightarrow> 'a comch_world \<times> comch_work" where
  "work_del env s =
     (case s of (w, k) \<Rightarrow>
        if \<not> w_released k
        then (fst (bind_call env (ReqRelease (w_handle k)) w), k\<lparr>w_released := True\<rparr>)
        else s)"

datatype work_event = WaitEv | TestEv

definition work_step ::
  "comch_env \<Rightarrow> 'a comch_world \<times> comch_work \<Rightarrow> work_event \<Rightarrow> 'a comch_world \<times> comch_work" where
  "work_step env s e = (case e of WaitEv \<Rightarrow> fst (work_wait env s) | TestEv \<Rightarrow> fst (work_is_completed env s))"

section \<open>The thread-based handles\<close>

record 'a thread_work =
  thread_alive :: bool
  output_flat :: "'a list"
  output_tensors :: "'a list list"
  t_completed :: bool

text \<open>\<^verbatim>\<open>_scatter_flat_to_list\<close>: the rows of the flat output, one per rank.\<close>

fun scatter_rows :: "nat \<Rightarrow> nat \<Rightarrow> 'a list \<Rightarrow> 'a list list \<Rightarrow> 'a list list result" where
  "scatter_rows k r flat [] = Inr []"
| "scatter_rows k r flat (out # outs) =
     ebind (view_as_shape [length out] (block k r flat)) (\<lambda>row.
     ebind (scatter_rows k (Suc r) flat outs) (\<lambda>rows. Inr (row # rows)))"

definition scatter_flat_to_list :: "'a list \<Rightarrow> 'a list list \<Rightarrow> nat \<Rightarrow> 'a list list result" where
  "scatter_flat_to_list flat outs numel_per_rank =
     ebind (view_as_shape [length outs, numel_per_rank] flat) (\<lambda>flat_2d.
       scatter_rows numel_per_rank 0 flat_2d outs)"

text \<open>
  \<^verbatim>\<open>_AllGatherWork.wait\<close>: the join ends the thread; \<open>recv\<close> is what it has written by then.
\<close>

definition ag_thread_wait :: "'a list \<Rightarrow> nat \<Rightarrow> 'a thread_work \<Rightarrow> 'a thread_work result" where
  "ag_thread_wait recv numel k =
     (if t_completed k then Inr k
      else ebind (scatter_flat_to_list recv (output_tensors k) numel) (\<lambda>outs.
        Inr (k\<lparr>thread_alive := False, output_flat := recv, output_tensors := outs, t_completed := True\<rparr>)))"

definition rs_thread_wait :: "'a list \<Rightarrow> 'a thread_work \<Rightarrow> 'a thread_work result" where
  "rs_thread_wait recv k =
     (if t_completed k then Inr k
      else case output_tensors k of
        [out] \<Rightarrow> ebind (view_as_shape [length out] recv) (\<lambda>v.
                  Inr (k\<lparr>thread_alive := False, output_flat := recv, output_tensors := [v], t_completed := True\<rparr>))
      | _ \<Rightarrow> Inl AttributeError)"

definition thread_is_completed :: "'a thread_work \<Rightarrow> bool" where
  "thread_is_completed k = (if t_completed k then True else \<not> thread_alive k)"

section \<open>The collective wrappers\<close>

text \<open>
  \<open>recv kind cid input\<close> is what the collective delivers into the output buffer. The
  synchronous call waits at once; the asynchronous one returns the handle beside the world.
  In both, the delivered bytes are visible to the code once the wait has returned.
\<close>

type_synonym 'a backend = "coll_kind \<Rightarrow> int \<Rightarrow> 'a list \<Rightarrow> 'a list"

definition enqueue :: "comch_env \<Rightarrow> 'a comch_call \<Rightarrow> 'a comch_world \<Rightarrow> 'a comch_world \<times> int result" where
  "enqueue env c w =
     (case bind_call env c w of
        (w1, Inl e) \<Rightarrow> (w1, Inl e) | (w1, Inr n) \<Rightarrow> (w1, Inr (handle_of env n)))"

definition all_gather_list_via_base ::
  "nat \<Rightarrow> comch_env \<Rightarrow> 'a backend \<Rightarrow> 'a list list \<Rightarrow> 'a list \<Rightarrow> int \<Rightarrow> 'a comch_world
     \<Rightarrow> 'a comch_world \<times> 'a list list result" where
  "all_gather_list_via_base W env recv outs inp cid w =
     (if length outs \<noteq> W then (w, Inl (ValueError ''len(output_tensors) must equal world_size''))
      else case enqueue env (Enqueue ALL_GATHER cid inp) w of
        (w1, Inl e) \<Rightarrow> (w1, Inl e)
      | (w1, Inr h) \<Rightarrow>
          (case work_wait env (w1, work_init h 0 0) of
             (s, Inl e) \<Rightarrow> (fst (work_del env s), Inl e)
           | (s, Inr _) \<Rightarrow>
               (fst (work_del env s), scatter_flat_to_list (recv ALL_GATHER cid inp) outs (length inp))))"

definition reduce_scatter_list_via_base ::
  "nat \<Rightarrow> comch_env \<Rightarrow> 'a backend \<Rightarrow> 'a list \<Rightarrow> 'a list list \<Rightarrow> int \<Rightarrow> 'a comch_world
     \<Rightarrow> 'a comch_world \<times> 'a list result" where
  "reduce_scatter_list_via_base W env recv out ins cid w =
     (if length ins \<noteq> W then (w, Inl (ValueError ''len(input_tensors) must equal world_size''))
      else case cat ins of
        Inl e \<Rightarrow> (w, Inl e)
      | Inr flat \<Rightarrow>
          (case enqueue env (Enqueue REDUCE_SCATTER cid flat) w of
             (w1, Inl e) \<Rightarrow> (w1, Inl e)
           | (w1, Inr h) \<Rightarrow>
               (case work_wait env (w1, work_init h 0 0) of
                  (s, Inl e) \<Rightarrow> (fst (work_del env s), Inl e)
                | (s, Inr _) \<Rightarrow>
                    (fst (work_del env s), view_as_shape [length out] (recv REDUCE_SCATTER cid flat)))))"

text \<open>\<^verbatim>\<open>all_gather_flat_via_base\<close> with \<^verbatim>\<open>async_op = True\<close>, through the flag pool when it is enabled.\<close>

definition all_gather_flat_launch ::
  "comch_env \<Rightarrow> 'a list \<Rightarrow> int \<Rightarrow> 'a comch_world \<Rightarrow> 'a comch_world \<times> comch_work result" where
  "all_gather_flat_launch env inp cid w =
     (case global_pool w of
        Some pool \<Rightarrow>
          (case acquire pool of
             (pool1, Inl e) \<Rightarrow> (w\<lparr>global_pool := Some pool1\<rparr>, Inl e)
           | (pool1, Inr (slot, gen, addr, expected)) \<Rightarrow>
               (case enqueue env (EnqueueFlag ALL_GATHER cid inp addr expected) (w\<lparr>global_pool := Some pool1\<rparr>) of
                  (w1, Inl e) \<Rightarrow> (w1, Inl e)
                | (w1, Inr h) \<Rightarrow> (w1, Inr (work_init h addr expected))))
      | None \<Rightarrow>
          (case enqueue env (Enqueue ALL_GATHER cid inp) w of
             (w1, Inl e) \<Rightarrow> (w1, Inl e)
           | (w1, Inr h) \<Rightarrow> (w1, Inr (work_init h 0 0))))"

definition sync_wait ::
  "comch_env \<Rightarrow> 'a comch_world \<times> comch_work result \<Rightarrow> 'a comch_world \<times> unit result" where
  "sync_wait env launch =
     (case launch of
        (w1, Inl e) \<Rightarrow> (w1, Inl e)
      | (w1, Inr k) \<Rightarrow>
          (case work_wait env (w1, k) of (s, r) \<Rightarrow> (fst (work_del env s), r)))"

definition all_gather_flat_via_base ::
  "comch_env \<Rightarrow> 'a list \<Rightarrow> int \<Rightarrow> bool \<Rightarrow> 'a comch_world \<Rightarrow> 'a comch_world \<times> comch_work option result" where
  "all_gather_flat_via_base env inp cid async_op w =
     (if async_op
      then (case all_gather_flat_launch env inp cid w of (w1, Inl e) \<Rightarrow> (w1, Inl e) | (w1, Inr k) \<Rightarrow> (w1, Inr (Some k)))
      else (case sync_wait env (all_gather_flat_launch env inp cid w) of
              (w1, Inl e) \<Rightarrow> (w1, Inl e) | (w1, Inr _) \<Rightarrow> (w1, Inr None)))"

definition reduce_scatter_flat_launch ::
  "comch_env \<Rightarrow> 'a list \<Rightarrow> int \<Rightarrow> 'a comch_world \<Rightarrow> 'a comch_world \<times> comch_work result" where
  "reduce_scatter_flat_launch env inp cid w =
     (case enqueue env (Enqueue REDUCE_SCATTER cid inp) w of
        (w1, Inl e) \<Rightarrow> (w1, Inl e)
      | (w1, Inr h) \<Rightarrow> (w1, Inr (work_init h 0 0)))"

definition reduce_scatter_flat_via_base ::
  "comch_env \<Rightarrow> 'a list \<Rightarrow> int \<Rightarrow> bool \<Rightarrow> 'a comch_world \<Rightarrow> 'a comch_world \<times> comch_work option result" where
  "reduce_scatter_flat_via_base env inp cid async_op w =
     (if async_op
      then (case reduce_scatter_flat_launch env inp cid w of (w1, Inl e) \<Rightarrow> (w1, Inl e) | (w1, Inr k) \<Rightarrow> (w1, Inr (Some k)))
      else (case sync_wait env (reduce_scatter_flat_launch env inp cid w) of
              (w1, Inl e) \<Rightarrow> (w1, Inl e) | (w1, Inr _) \<Rightarrow> (w1, Inr None)))"


section \<open>The release discipline\<close>

text \<open>
  A trace is safe for a handle when a successful release of it is the last call of the trace:
  no second release, no wait and no test can follow. (The trace starts when the handle is
  returned; all its calls are on this handle.)
\<close>

definition released_at :: "comch_env \<Rightarrow> int \<Rightarrow> 'a comch_call list \<Rightarrow> nat \<Rightarrow> bool" where
  "released_at env h cs i \<longleftrightarrow> i < length cs \<and> cs ! i = ReqRelease h \<and> \<not> call_fails env i"

definition handle_safe :: "comch_env \<Rightarrow> int \<Rightarrow> 'a comch_call list \<Rightarrow> bool" where
  "handle_safe env h cs \<longleftrightarrow> (\<forall>i. released_at env h cs i \<longrightarrow> Suc i = length cs)"

definition work_inv :: "comch_env \<Rightarrow> int \<Rightarrow> 'a comch_world \<times> comch_work \<Rightarrow> bool" where
  "work_inv env h s \<longleftrightarrow> w_handle (snd s) = h \<and> handle_safe env h (calls (fst s))
     \<and> (w_released (snd s) \<longleftrightarrow> (\<exists>i. released_at env h (calls (fst s)) i))
     \<and> (w_released (snd s) \<longrightarrow> w_completed (snd s))"

lemma released_at_snoc:
  "released_at env h (cs @ [c]) i \<longleftrightarrow>
     released_at env h cs i \<or> (i = length cs \<and> c = ReqRelease h \<and> \<not> call_fails env (length cs))"
  by (auto simp: released_at_def nth_append less_Suc_eq)

lemma handle_safe_snoc:
  "(\<And>i. \<not> released_at env h cs i) \<Longrightarrow> handle_safe env h (cs @ [c])"
  by (auto simp: handle_safe_def released_at_snoc)

lemma release_once_inv:
  assumes "work_inv env h s" and "w_completed (snd s)"
  shows "work_inv env h (fst (release_once env s))"
  using assms
  by (auto simp: work_inv_def release_once_def bind_call_def released_at_snoc handle_safe_snoc
      split: prod.splits sum.splits)

lemma work_inv_stream:
  assumes "work_inv env h (w, k)"
  shows "work_inv env h (w\<lparr>stream := st\<rparr>, k\<lparr>gpu_flag_scheduled := True, w_completed := True\<rparr>)"
    and "work_inv env h (w, k\<lparr>gpu_flag_scheduled := True, w_completed := True\<rparr>)"
    and "work_inv env h (w\<lparr>stream := st\<rparr>, k)"
  using assms by (auto simp: work_inv_def)

lemma work_inv_call:
  assumes "work_inv env h (w, k)" and "\<not> w_released k" and "\<And>h. c \<noteq> ReqRelease h"
  shows "work_inv env h (w\<lparr>calls := calls w @ [c]\<rparr>, k)"
    and "work_inv env h (w\<lparr>calls := calls w @ [c]\<rparr>, k\<lparr>w_completed := True\<rparr>)"
  using assms by (auto simp: work_inv_def released_at_snoc handle_safe_snoc)

lemma work_wait_inv: "work_inv env h s \<Longrightarrow> work_inv env h (fst (work_wait env s))"
proof -
  assume inv: "work_inv env h s"
  obtain w k where s: "s = (w, k)" by (cases s)
  consider (gpu) "use_gpu_flag k" | (again) "\<not> use_gpu_flag k" "w_completed k"
    | (wait) "\<not> use_gpu_flag k" "\<not> w_completed k" by blast
  then show ?thesis
  proof cases
    case gpu
    then show ?thesis
      using inv by (auto simp: s work_wait_def split: sum.splits intro!: release_once_inv work_inv_stream)
  next
    case again
    then show ?thesis using inv by (auto simp: s work_wait_def intro!: release_once_inv)
  next
    case wait
    then have "\<not> w_released k" using inv by (auto simp: s work_inv_def)
    with wait inv show ?thesis
      by (auto simp: s work_wait_def bind_call_def intro!: release_once_inv work_inv_call)
  qed
qed

lemma work_test_inv: "work_inv env h s \<Longrightarrow> work_inv env h (fst (work_is_completed env s))"
proof -
  assume inv: "work_inv env h s"
  obtain w k where s: "s = (w, k)" by (cases s)
  show ?thesis
  proof (cases "w_completed k")
    case True
    then show ?thesis using inv by (simp add: s work_is_completed_def)
  next
    case False
    then have "\<not> w_released k" using inv by (auto simp: s work_inv_def)
    with False inv show ?thesis
      by (auto simp: s work_is_completed_def bind_call_def intro!: work_inv_call)
  qed
qed

interpretation cw: machine "work_step env" "work_inv env h" for env :: comch_env and h :: int
proof
  fix s :: "'a comch_world \<times> comch_work" and e
  assume "work_inv env h s"
  then show "work_inv env h (work_step env s e)"
    by (cases e) (auto simp: work_step_def work_wait_inv work_test_inv)
qed

text \<open>Waiting never takes a completion back.\<close>

lemma release_once_completed: "w_completed (snd (fst (release_once env s))) = w_completed (snd s)"
  by (auto simp: release_once_def bind_call_def split: prod.splits)

lemma work_step_completed: "w_completed (snd s) \<Longrightarrow> w_completed (snd (work_step env s e))"
  by (cases e)
    (auto simp: work_step_def work_wait_def work_is_completed_def bind_call_def release_once_completed
      split: prod.splits sum.splits)

interpretation cwm: monotone_machine "work_step env" "work_inv env h" "\<lambda>s. if w_completed (snd s) then 1 else 0"
  for env :: comch_env and h :: int
  by unfold_locales (auto simp: work_step_completed)

section \<open>Properties\<close>

text \<open>
  C16: whatever sequence of waits and tests a handle sees before Python destroys it, and
  whatever calls of the binding raise in between, no call of the binding follows a successful
  release of the handle: it is released at most once and never used afterwards. And it does
  not leak: a release has been asked for by the end.
\<close>

theorem handle_released_once:
  assumes "calls w0 = []"
  shows "let cs = calls (fst (work_del env (run (work_step env) (w0, work_init h addr val) es)))
    in (\<forall>i. released_at env h cs i \<longrightarrow> Suc i = length cs) \<and> (\<exists>i < length cs. cs ! i = ReqRelease h)"
proof -
  let ?s = "run (work_step env) (w0, work_init h addr val) es"
  have "work_inv env h (w0, work_init h addr val)"
    using assms by (auto simp: work_inv_def work_init_def handle_safe_def released_at_def)
  then have inv: "work_inv env h ?s" by (rule cw.run_inv)
  obtain w k where s: "?s = (w, k)" by (cases ?s)
  have h: "w_handle k = h" using inv by (simp add: s work_inv_def)
  have "\<forall>i. released_at env h (calls (fst (work_del env ?s))) i \<longrightarrow> Suc i = length (calls (fst (work_del env ?s)))"
    using inv by (auto simp: s work_inv_def work_del_def bind_call_def released_at_snoc handle_safe_def)
  moreover have "\<exists>i < length (calls (fst (work_del env ?s))). calls (fst (work_del env ?s)) ! i = ReqRelease h"
  proof (cases "w_released k")
    case True
    then show ?thesis using inv by (auto simp: s work_del_def work_inv_def released_at_def)
  next
    case False
    then show ?thesis
      by (auto simp: s work_del_def bind_call_def h intro!: exI [of _ "length (calls w)"])
  qed
  ultimately show ?thesis by (simp add: Let_def)
qed

definition demo_env :: comch_env where
  "demo_env = \<lparr>call_fails = (\<lambda>n. n = 1), test_result = (\<lambda>_. False), handle_of = int,
               driver = Some (\<lambda>_ _. 0)\<rparr>"

definition demo_world :: "nat comch_world" where
  "demo_world = \<lparr>calls = [], stream = [], global_pool = None\<rparr>"

theorem handle_released_once_witness:
  "let cs = calls (fst (work_del demo_env (run (work_step demo_env) (demo_world, work_init 7 0 0) [TestEv, WaitEv, WaitEv])))
    in cs = [ReqTest 7, ReqWait 7, ReqWait 7, ReqRelease 7]
       \<and> (\<forall>i. released_at demo_env 7 cs i \<longrightarrow> Suc i = length cs) \<and> (\<exists>i < length cs. cs ! i = ReqRelease 7)"
  using handle_released_once [of demo_world demo_env 7 0 0 "[TestEv, WaitEv, WaitEv]"]
  by (simp add: demo_world_def demo_env_def work_step_def work_is_completed_def work_wait_def work_init_def
      bind_call_def use_gpu_flag_def release_once_def work_del_def Let_def)

lemma work_wait_scheduled:
  assumes "use_gpu_flag k" and "gpu_flag_scheduled k" and "w_released k" and "w_completed k"
  shows "run (work_step env) (w, k) (replicate n WaitEv) = (w, k)"
  using assms by (cases k) (induction n; simp add: work_step_def work_wait_def release_once_def use_gpu_flag_def)

lemma flag_wait_calls:
  assumes "use_gpu_flag k" and "\<not> gpu_flag_scheduled k" and "\<not> w_released k"
    and "driver env = Some f" and "f (gpu_flag_addr k) (gpu_flag_value k) = 0"
    and "\<not> call_fails env (length (calls w))"
  shows "run (work_step env) (w, k) (replicate (Suc n) WaitEv)
    = (w\<lparr>stream := stream w @ [(gpu_flag_addr k, gpu_flag_value k)], calls := calls w @ [ReqRelease (w_handle k)]\<rparr>,
       k\<lparr>gpu_flag_scheduled := True, w_completed := True, w_released := True\<rparr>)"
  using assms
  by (simp add: work_step_def work_wait_def stream_wait_value_eq_def release_once_def bind_call_def
      work_wait_scheduled use_gpu_flag_def)

text \<open>
  C17: the gather with a flag. When the pool is enabled, the launch takes one ticket and sends
  its address and expected value with the request; waiting any positive number of times puts
  exactly one wait for that address and value on the compute stream, and never blocks: no wait
  or test call is made.
\<close>

theorem flagged_gather_waits_once:
  assumes "global_pool w = Some pool" and "pool_shape s n pool" and "Suc (n div s) < 2 ^ 30"
    and "0 < base_addr pool" and "driver env = Some f" and "\<And>a v. f a v = 0"
    and "\<And>m. \<not> call_fails env m"
  shows "\<exists>w1 k pool1. all_gather_flat_launch env inp cid w = (w1, Inr k)
    \<and> global_pool w1 = Some pool1 \<and> pool_shape s (Suc n) pool1
    \<and> (let addr = base_addr pool + 4 * int (n mod s); value = int (Suc (n div s)) in
        calls (fst (run (work_step env) (w1, k) (replicate (Suc m) WaitEv)))
          = calls w @ [EnqueueFlag ALL_GATHER cid inp addr value, ReqRelease (handle_of env (length (calls w)))]
        \<and> stream (fst (run (work_step env) (w1, k) (replicate (Suc m) WaitEv))) = stream w @ [(addr, value)])"
proof -
  let ?addr = "base_addr pool + int (n mod s) * 4" and ?v = "int (Suc (n div s))"
  let ?h = "handle_of env (length (calls w))"
  from acquire_shape [OF assms(2)] obtain pool1 where
    acq: "acquire pool = (pool1, Inr (int (n mod s), ?v, ?addr, ?v))" and shape: "pool_shape s (Suc n) pool1"
    using assms(3) by (cases "acquire pool") auto
  let ?w1 = "w\<lparr>global_pool := Some pool1, calls := calls w @ [EnqueueFlag ALL_GATHER cid inp ?addr ?v]\<rparr>"
  have launch: "all_gather_flat_launch env inp cid w = (?w1, Inr (work_init ?h ?addr ?v))"
    using assms(1,7) acq by (simp add: all_gather_flat_launch_def enqueue_def bind_call_def)
  have "?addr \<noteq> 0" using assms(4) by (metis add_strict_increasing less_irrefl mult_nonneg_nonneg of_nat_0_le_iff zero_le_numeral)
  then have "run (work_step env) (?w1, work_init ?h ?addr ?v) (replicate (Suc m) WaitEv)
    = (?w1\<lparr>stream := stream ?w1 @ [(?addr, ?v)], calls := calls ?w1 @ [ReqRelease ?h]\<rparr>,
       (work_init ?h ?addr ?v)\<lparr>gpu_flag_scheduled := True, w_completed := True, w_released := True\<rparr>)"
    using flag_wait_calls [of "work_init ?h ?addr ?v" env f ?w1 m] assms(5-7)
    by (simp add: work_init_def use_gpu_flag_def)
  then show ?thesis
    unfolding launch using shape by (simp add: Let_def mult.commute)
qed


definition demo_pool :: flag_pool where
  "demo_pool = \<lparr>pool_size = 4, pool_mask = 3, use_gpu = True, base_addr = 4096,
                gens = [0, 0, 0, 0], next_slot = 0, flags = [0, 0, 0, 0]\<rparr>"

lemma demo_pool_shape: "pool_shape 4 0 demo_pool"
  by (auto simp: pool_shape_def demo_pool_def gen_of_def upt_rec intro: exI [of _ 2])

theorem flagged_gather_waits_once_witness:
  "\<exists>w1 k pool1. all_gather_flat_launch (demo_env\<lparr>call_fails := \<lambda>_. False\<rparr>) [1, 2] 5
        (demo_world\<lparr>global_pool := Some demo_pool\<rparr>) = (w1, Inr k)
    \<and> global_pool w1 = Some pool1 \<and> pool_shape 4 1 pool1
    \<and> stream (fst (run (work_step (demo_env\<lparr>call_fails := \<lambda>_. False\<rparr>)) (w1, k) (replicate 3 WaitEv)))
        = [(4096, 1)]"
proof -
  let ?env = "demo_env\<lparr>call_fails := \<lambda>_. False\<rparr>" and ?w = "demo_world\<lparr>global_pool := Some demo_pool\<rparr>"
  have "\<exists>w1 k pool1. all_gather_flat_launch ?env [1, 2] 5 ?w = (w1, Inr k)
    \<and> global_pool w1 = Some pool1 \<and> pool_shape 4 (Suc 0) pool1
    \<and> (let addr = base_addr demo_pool + 4 * int (0 mod 4); value = int (Suc (0 div 4)) in
        calls (fst (run (work_step ?env) (w1, k) (replicate (Suc 2) WaitEv)))
          = calls ?w @ [EnqueueFlag ALL_GATHER 5 [1, 2] addr value, ReqRelease (handle_of ?env (length (calls ?w)))]
        \<and> stream (fst (run (work_step ?env) (w1, k) (replicate (Suc 2) WaitEv))) = stream ?w @ [(addr, value)])"
    by (rule flagged_gather_waits_once [where f = "\<lambda>_ _. 0", OF _ demo_pool_shape])
      (auto simp: demo_env_def demo_pool_def)
  then show ?thesis
    by (simp only: Let_def One_nat_def numeral_3_eq_3 numeral_2_eq_2) (fastforce simp: demo_pool_def demo_world_def)
qed

lemma scatter_rows_ok:
  assumes "length outs = length ins" and "\<And>xs. xs \<in> set (outs @ ins) \<Longrightarrow> length xs = k"
    and "length pre = r" and "\<And>xs. xs \<in> set pre \<Longrightarrow> length xs = k"
  shows "scatter_rows k r (concat (pre @ ins)) outs = Inr ins"
  using assms
proof (induction outs arbitrary: ins pre r)
  case Nil
  then show ?case by simp
next
  case (Cons out outs)
  then obtain x xs where ins: "ins = x # xs" by (cases ins) auto
  have "block k r (concat (pre @ ins)) = (pre @ ins) ! r"
    using Cons.prems by (intro block_concat_uniform) (auto simp: ins)
  then have row: "block k r (concat (pre @ ins)) = x" using Cons.prems(3) by (simp add: ins nth_append)
  have lens: "length out = k" "length x = k" using Cons.prems(2) by (auto simp: ins)
  have "scatter_rows k (Suc r) (concat ((pre @ [x]) @ xs)) outs = Inr xs"
  proof (rule Cons.IH)
    show "length (pre @ [x]) = Suc r" using Cons.prems(3) by simp
    show "length ys = k" if "ys \<in> set (pre @ [x])" for ys
      using that Cons.prems(4) lens by auto
  qed (use Cons.prems in \<open>auto simp: ins\<close>)
  then show ?case using row lens by (simp add: ins)
qed

text \<open>
  The list gather fills the output tensor of each rank with what that rank sent, in rank
  order, when the collective delivers the concatenation of the inputs; with the wrong number
  of outputs it raises before any call of the binding.
\<close>

theorem list_gather_delivers:
  assumes "recv ALL_GATHER cid inp = concat ins" and "length ins = W" and "length outs = W"
    and "\<And>xs. xs \<in> set (outs @ ins) \<Longrightarrow> length xs = length inp"
    and "\<And>m. \<not> call_fails env m"
  shows "snd (all_gather_list_via_base W env recv outs inp cid w) = Inr ins
    \<and> calls (fst (all_gather_list_via_base W env recv outs inp cid w))
        = calls w @ [Enqueue ALL_GATHER cid inp, ReqWait (handle_of env (length (calls w))),
                     ReqRelease (handle_of env (length (calls w)))]"
proof -
  have "scatter_rows (length inp) 0 (concat ([] @ ins)) outs = Inr ins"
    using assms(2-4) by (intro scatter_rows_ok) auto
  moreover have "length (concat ins) = W * length inp"
    using assms(2,4) length_concat_uniform [of ins "length inp"] by simp
  ultimately have "scatter_flat_to_list (concat ins) outs (length inp) = Inr ins"
    using assms(3) by (simp add: scatter_flat_to_list_def)
  then show ?thesis
    using assms(1,3,5)
    by (simp add: all_gather_list_via_base_def enqueue_def bind_call_def work_wait_def work_init_def
        use_gpu_flag_def release_once_def work_del_def)
qed

theorem list_gather_delivers_witness:
  "snd (all_gather_list_via_base 2 (demo_env\<lparr>call_fails := \<lambda>_. False\<rparr>) (\<lambda>_ _ _. [1, 2, 3, 4])
      [[0, 0], [0, 0]] [3, 4 :: nat] 9 demo_world) = Inr [[1, 2], [3, 4]]"
  by (rule list_gather_delivers [THEN conjunct1]) (auto simp: demo_env_def)

end
