(* ===== verification/Coordinator.thy ===== *)
theory Coordinator
  imports AllGather
begin

text \<open>
  The scheduler of gathers and releases: \<^verbatim>\<open>src/smartnic_offload/partitioned_param_coordinator.py\<close>,
  the class \<^verbatim>\<open>PartitionedParameterCoordinator\<close>.

  A module is its \<^verbatim>\<open>id\<close>, a parameter its \<^verbatim>\<open>ds_id\<close>. The record \<open>coord\<close> has the attributes of
  the class, the parameters themselves (\<open>heap\<close>) and the handle objects it holds (\<open>handles\<close>; the
  registry maps a parameter to the position of its handle, so that one handle shared by several
  parameters is one object). The record \<open>cenv\<close> is what a run does not change: the modules'
  parameters, the collective library, the order in which Python iterates over a set, and
  whether a recorded CUDA event has completed when it is asked.
\<close>

section \<open>State\<close>

datatype trace_mode = RECORD | COMPLETE | INVALID

record 'a cenv =
  c_world :: nat
  c_rank :: nat
  c_fresh :: "nat \<Rightarrow> 'a"
  c_gather :: "'a collective"
  c_cast :: "'a staging"
  c_full_transfer :: bool
  c_params :: "nat \<Rightarrow> nat list"
  c_all_params :: "nat list"
  c_set_order :: "nat list \<Rightarrow> nat list"
  c_event_done :: "nat \<Rightarrow> nat \<Rightarrow> bool"
  c_from_rank0 :: "int list \<Rightarrow> int list"

record 'a coord =
  heap :: "'a heap"
  handles :: "'a ag_handle list"
  inflight :: "(nat \<times> nat) list"
  step_id :: nat
  mode :: trace_mode
  submodule_order :: "nat list"
  param_order :: "(nat \<times> nat) list"
  most_recent :: "nat \<Rightarrow> int"
  module_fetched_for :: "nat \<Rightarrow> nat list"
  n_available :: int
  max_n_available :: int
  max_reuse_dist :: int
  param_queue :: "(nat \<times> nat) list option"
  prefetch_bucket_sz :: int
  ongoing_events :: "nat list"
  n_events :: nat
  max_ongoing_events :: nat

definition never_fetched :: int where
  "never_fetched = - 10000000000"

definition init_coord :: "int \<Rightarrow> int \<Rightarrow> int \<Rightarrow> 'a heap \<Rightarrow> 'a coord" where
  "init_coord bucket reuse avail h =
     \<lparr>heap = h, handles = [], inflight = [], step_id = 0, mode = RECORD, submodule_order = [],
      param_order = [], most_recent = (\<lambda>_. never_fetched), module_fetched_for = (\<lambda>_. []),
      n_available = 0, max_n_available = avail, max_reuse_dist = reuse, param_queue = None,
      prefetch_bucket_sz = bucket, ongoing_events = [], n_events = 0, max_ongoing_events = 1024\<rparr>"

text \<open>The registry's \<^verbatim>\<open>__setitem__\<close>.\<close>

definition register_inflight :: "nat \<Rightarrow> nat \<Rightarrow> 'a coord \<Rightarrow> 'a coord result" where
  "register_inflight hid p c =
     (if p \<in> fst ` set (inflight c) then Inl (RuntimeError ''already in registry'')
      else if ds_status (heap c p) \<noteq> INFLIGHT
      then Inl (RuntimeError ''attempted to add non-inflight parameter to registry'')
      else Inr (c\<lparr>inflight := inflight c @ [(p, hid)]\<rparr>))"

section \<open>Trace\<close>

definition clear_trace_structures :: "'a coord \<Rightarrow> 'a coord" where
  "clear_trace_structures c =
     c\<lparr>submodule_order := [], param_order := [], most_recent := (\<lambda>_. never_fetched), param_queue := None\<rparr>"

definition invalidate_trace :: "'a coord \<Rightarrow> 'a coord result" where
  "invalidate_trace c =
     (if mode c = INVALID then Inl (RuntimeError ''attempted to invalidate already invalid trace'')
      else Inr (clear_trace_structures (c\<lparr>mode := INVALID\<rparr>)))"

definition trace_prologue :: "nat \<Rightarrow> 'a coord \<Rightarrow> 'a coord result" where
  "trace_prologue m c =
     (if mode c = COMPLETE
      then if step_id c < length (submodule_order c)
           then if m \<noteq> submodule_order c ! step_id c then invalidate_trace c else Inr c
           else Inl IndexError
      else Inr c)"

definition record_module :: "nat \<Rightarrow> 'a coord \<Rightarrow> 'a coord result" where
  "record_module m c =
     (if mode c \<noteq> RECORD then Inl (RuntimeError ''attempted to record trace'')
      else Inr (c\<lparr>submodule_order := submodule_order c @ [m],
                  module_fetched_for := (module_fetched_for c)(m := module_fetched_for c m @ [step_id c])\<rparr>))"

definition record_parameters :: "'a cenv \<Rightarrow> nat \<Rightarrow> 'a coord \<Rightarrow> 'a coord result" where
  "record_parameters env m c =
     (if mode c \<noteq> RECORD then Inl (RuntimeError ''attempted to record trace'')
      else case module_fetched_for c m of
        [] \<Rightarrow> Inl IndexError
      | sid # rest \<Rightarrow>
          Inr (c\<lparr>module_fetched_for := (module_fetched_for c)(m := rest),
                 param_order := param_order c @ map (\<lambda>p. (p, sid)) (sort (remdups (c_params env m)))\<rparr>))"

definition construct_parameter_trace :: "'a cenv \<Rightarrow> 'a coord \<Rightarrow> 'a coord result" where
  "construct_parameter_trace env c =
     foldE (record_parameters env) (submodule_order c) (c\<lparr>param_order := []\<rparr>)"

text \<open>\<^verbatim>\<open>assert_ints_same_as_other_ranks\<close>: compares with what rank 0 broadcasts.\<close>

definition assert_ints_same_as_other_ranks :: "(int list \<Rightarrow> int list) \<Rightarrow> int list \<Rightarrow> unit result" where
  "assert_ints_same_as_other_ranks from_rank0 ints =
     (let rank0_ints = from_rank0 ints in
      if ints \<noteq> rank0_ints then Inl (RuntimeError ''disagreement between rank0'') else Inr ())"

definition reset_step :: "'a cenv \<Rightarrow> 'a coord \<Rightarrow> 'a coord result" where
  "reset_step env c =
     (if inflight c \<noteq> [] then Inl (RuntimeError ''still have inflight params'')
      else ebind
        (if mode c \<noteq> COMPLETE
         then ebind (assert_ints_same_as_other_ranks (c_from_rank0 env) (map int (submodule_order c))) (\<lambda>_.
              ebind (assert_ints_same_as_other_ranks (c_from_rank0 env) (map (int \<circ> fst) (param_order c))) (\<lambda>_.
              ebind (assert_ints_same_as_other_ranks (c_from_rank0 env) (map (int \<circ> snd) (param_order c))) (\<lambda>_.
                if mode c = RECORD
                then ebind (construct_parameter_trace env c) (\<lambda>c1. Inr (c1\<lparr>mode := COMPLETE\<rparr>))
                else Inr (c\<lparr>mode := RECORD\<rparr>))))
         else Inr c)
        (\<lambda>c1. Inr (c1\<lparr>param_queue := Some (param_order c1), most_recent := (\<lambda>_. never_fetched),
                      module_fetched_for := (\<lambda>_. []), step_id := 0, n_available := 0\<rparr>)))"

section \<open>Gathering\<close>

definition not_available :: "'a coord \<Rightarrow> nat list \<Rightarrow> nat list" where
  "not_available c ps = filter (\<lambda>p. ds_status (heap c p) = NOT_AVAILABLE) ps"

definition all_gather_params :: "'a cenv \<Rightarrow> nat list \<Rightarrow> 'a coord \<Rightarrow> 'a coord result" where
  "all_gather_params env ps c =
     (let partitioned = not_available c ps;
          c1 = c\<lparr>n_available := n_available c + (\<Sum>p \<leftarrow> partitioned. int (ds_numel (heap c p)))\<rparr>
      in if partitioned = [] then Inr c1
         else ebind (all_gather_coalesced (c_world env) (c_fresh env) (c_gather env) (c_cast env)
                       (c_full_transfer env) partitioned (heap c1)) (\<lambda>(h, hdl).
           let hid = length (handles c1) in
           foldE (\<lambda>p c. ebind (assert_that (ds_status (heap c p) = INFLIGHT)) (\<lambda>_. register_inflight hid p c))
             partitioned (c1\<lparr>heap := h, handles := handles c1 @ [hdl]\<rparr>)))"

text \<open>
  One round of the wait loop of \<^verbatim>\<open>fetch_sub_module\<close>. The event recorded after the wait is
  numbered by \<open>n_events\<close>.
\<close>

definition drain_events :: "'a cenv \<Rightarrow> 'a coord \<Rightarrow> 'a coord" where
  "drain_events env c =
     (let evs = dropWhile (c_event_done env (n_events c)) (ongoing_events c) in
      c\<lparr>ongoing_events := if length evs > max_ongoing_events c then tl evs else evs\<rparr>)"

definition wait_inflight :: "'a cenv \<Rightarrow> nat \<Rightarrow> 'a coord \<Rightarrow> 'a coord result" where
  "wait_inflight env p c =
     (case map_of (inflight c) p of
        None \<Rightarrow> Inr c
      | Some hid \<Rightarrow>
          let c1 = drain_events env c in
          ebind (handle_wait (c_world env) (handles c1 ! hid) (heap c1)) (\<lambda>(h, hdl).
            Inr (c1\<lparr>heap := h, handles := (handles c1)[hid := hdl],
                    inflight := filter (\<lambda>e. fst e \<noteq> p) (inflight c1),
                    ongoing_events := ongoing_events c1 @ [n_events c1],
                    n_events := Suc (n_events c1)\<rparr>)))"

definition activate :: "nat \<Rightarrow> nat \<Rightarrow> 'a coord \<Rightarrow> 'a coord" where
  "activate m p c =
     c\<lparr>heap := (heap c)(p := (heap c p)\<lparr>active_sub_modules := insert m (active_sub_modules (heap c p))\<rparr>)\<rparr>"

definition fetch_one :: "'a cenv \<Rightarrow> nat \<Rightarrow> nat \<Rightarrow> 'a coord \<Rightarrow> 'a coord result" where
  "fetch_one env m p c =
     ebind (wait_inflight env p (activate m p c)) (\<lambda>c1.
     ebind (assert_that (ds_status (heap c1 p) = AVAILABLE)) (\<lambda>_. Inr c1))"

text \<open>
  The loop that takes the entries of the current module off the queue; the discarded set is
  kept as a duplicate-free list.
\<close>

fun discard_loop ::
  "nat \<Rightarrow> (nat \<times> nat) list \<Rightarrow> nat list \<Rightarrow> (nat \<Rightarrow> int) \<Rightarrow> (nat \<times> nat) list \<times> nat list \<times> (nat \<Rightarrow> int)" where
  "discard_loop need [] ds mr = ([], ds, mr)"
| "discard_loop need ((p, s) # q) ds mr =
     (if length ds < need then discard_loop need q (List.insert p ds) (mr(p := int s))
      else ((p, s) # q, ds, mr))"

fun prefetch_loop ::
  "(nat \<Rightarrow> 'a param) \<Rightarrow> int \<Rightarrow> (nat \<times> nat) list \<Rightarrow> nat list \<Rightarrow> int \<Rightarrow> (nat \<Rightarrow> int)
     \<Rightarrow> (nat \<times> nat) list \<times> nat list \<times> (nat \<Rightarrow> int)" where
  "prefetch_loop h limit [] ps n mr = ([], ps, mr)"
| "prefetch_loop h limit ((p, s) # q) ps n mr =
     (if n < limit
      then let do_prefetch = (ds_status (h p) = NOT_AVAILABLE \<and> p \<notin> set ps);
               mr' = mr(p := max (mr p) (int s))
           in if do_prefetch then prefetch_loop h limit q (ps @ [p]) (n + int (ds_numel (h p))) mr'
              else prefetch_loop h limit q ps n mr'
      else ((p, s) # q, ps, mr))"

definition prefetch :: "'a cenv \<Rightarrow> 'a coord \<Rightarrow> 'a coord result" where
  "prefetch env c =
     (if prefetch_bucket_sz c > 0
      then let limit = min (max_n_available c - n_available c) (prefetch_bucket_sz c) in
           (case param_queue c of
              None \<Rightarrow> all_gather_params env (c_set_order env []) c
            | Some q0 \<Rightarrow>
                (case prefetch_loop (heap c) limit q0 [] 0 (most_recent c) of
                   (q, ps, mr) \<Rightarrow>
                     all_gather_params env (c_set_order env ps) (c\<lparr>param_queue := Some q, most_recent := mr\<rparr>)))
      else Inr c)"

definition advance_queue :: "nat list \<Rightarrow> 'a coord \<Rightarrow> 'a coord result" where
  "advance_queue params_to_fetch c =
     (let fetched = filter (\<lambda>p. most_recent c p < int (step_id c)) params_to_fetch in
      case param_queue c of
        None \<Rightarrow> if fetched = [] then Inr c else Inl (RuntimeError ''tracing error'')
      | Some q0 \<Rightarrow>
          (case discard_loop (length fetched) q0 [] (most_recent c) of
             (q, discarded, mr) \<Rightarrow>
               if set discarded \<noteq> set fetched then Inl (RuntimeError ''tracing error'')
               else Inr (c\<lparr>param_queue := Some q, most_recent := mr\<rparr>)))"

definition fetch_sub_module :: "'a cenv \<Rightarrow> nat \<Rightarrow> 'a coord \<Rightarrow> 'a coord result" where
  "fetch_sub_module env m c =
     (let params_to_fetch = c_set_order env (c_params env m) in
      ebind (all_gather_params env params_to_fetch c) (\<lambda>c1.
      ebind (foldE (fetch_one env m) params_to_fetch c1) (\<lambda>c2.
      ebind (if mode c2 = COMPLETE
             then ebind (advance_queue params_to_fetch c2) (prefetch env)
             else Inr c2) (\<lambda>c3.
        Inr (c3\<lparr>step_id := Suc (step_id c3)\<rparr>)))))"

section \<open>Releasing\<close>

definition release_param :: "'a cenv \<Rightarrow> nat \<Rightarrow> 'a coord \<Rightarrow> 'a coord result" where
  "release_param env p c =
     (if ds_status (heap c p) = AVAILABLE \<and> active_sub_modules (heap c p) = {}
      then ebind (partition_list (c_world env) (c_rank env) (c_fresh env) False [p] (heap c)) (\<lambda>h.
             Inr (c\<lparr>heap := h, n_available := n_available c - int (ds_numel (h p))\<rparr>))
      else Inr c)"

text \<open>
  The scan over the modules that follow: the candidates they use are dropped, until as many
  elements as the reuse distance have been seen. The distance is tested before each module.
\<close>

fun reuse_scan :: "'a cenv \<Rightarrow> 'a heap \<Rightarrow> int \<Rightarrow> nat list \<Rightarrow> int \<Rightarrow> nat set \<Rightarrow> nat set" where
  "reuse_scan env h limit [] seen rel = rel"
| "reuse_scan env h limit (m # ms) seen rel =
     (if seen \<ge> limit then rel
      else reuse_scan env h limit ms (seen + (\<Sum>p \<leftarrow> c_params env m. int (ds_numel (h p))))
             (rel - set (c_params env m)))"

definition params_to_release :: "'a cenv \<Rightarrow> nat \<Rightarrow> nat \<Rightarrow> 'a coord \<Rightarrow> nat set result" where
  "params_to_release env m sid c =
     (if mode c \<noteq> COMPLETE then Inl (RuntimeError ''expected trace to be complete'')
      else
        let candidates = {p \<in> set (c_params env m). \<not> ds_persist (heap c p)};
            kept = {p \<in> candidates. \<not> (most_recent c p > int sid)}
        in Inr (reuse_scan env (heap c) (max_reuse_dist c) (drop sid (submodule_order c)) 0 kept))"

definition params_to_release_for_submodule :: "'a cenv \<Rightarrow> nat \<Rightarrow> 'a coord \<Rightarrow> nat set result" where
  "params_to_release_for_submodule env m c = params_to_release env m (step_id c) c"

definition release_one :: "'a cenv \<Rightarrow> nat \<Rightarrow> nat set \<Rightarrow> nat \<Rightarrow> 'a coord \<Rightarrow> 'a coord result" where
  "release_one env m rel p c =
     (let c1 = c\<lparr>heap := (heap c)(p := (heap c p)\<lparr>active_sub_modules := active_sub_modules (heap c p) - {m}\<rparr>)\<rparr> in
      if p \<in> rel \<and> \<not> is_external_param (heap c1 p) then release_param env p c1 else Inr c1)"

definition release_sub_module :: "'a cenv \<Rightarrow> nat \<Rightarrow> 'a coord \<Rightarrow> 'a coord result" where
  "release_sub_module env m c =
     ebind (if mode c = COMPLETE then params_to_release env m (step_id c) c
            else Inr (set (c_params env m))) (\<lambda>rel.
       foldE (release_one env m rel) (c_params env m) c)"

text \<open>The host copy's buffer goes back to the pool, unless the pool has that very buffer.\<close>

definition pool_cpu_full :: "'a param \<Rightarrow> 'a param" where
  "pool_cpu_full p =
     (let p1 = (case cpu_full_param p of
                  None \<Rightarrow> p
                | Some b \<Rightarrow>
                    (case cpu_full_param_pool p of
                       None \<Rightarrow> p\<lparr>cpu_full_param_pool := Some b\<rparr>
                     | Some pb \<Rightarrow> if buf_ptr pb \<noteq> buf_ptr b then p\<lparr>cpu_full_param_pool := Some b\<rparr> else p))
      in p1\<lparr>cpu_full_param := None\<rparr>)"

definition release_and_reset_one :: "'a cenv \<Rightarrow> nat \<Rightarrow> 'a coord \<Rightarrow> 'a coord result" where
  "release_and_reset_one env p c =
     (if p \<in> fst ` set (inflight c) then Inl (RuntimeError ''param still in flight'')
      else
        let c1 = c\<lparr>heap := (heap c)(p := (heap c p)\<lparr>active_sub_modules := {}\<rparr>)\<rparr> in
        ebind (release_param env p c1) (\<lambda>c2.
          Inr (c2\<lparr>heap := (heap c2)(p := pool_cpu_full (heap c2 p))\<rparr>)))"

definition release_and_reset_all :: "'a cenv \<Rightarrow> 'a coord \<Rightarrow> 'a coord result" where
  "release_and_reset_all env c =
     ebind (foldE (release_and_reset_one env) (c_all_params env) c) (\<lambda>c1.
       if \<forall>p \<in> set (c_all_params env). ds_status (heap c1 p) = NOT_AVAILABLE then Inr c1
       else Inl (RuntimeError ''expected to be released''))"

section \<open>The hooks' calls\<close>

text \<open>
  What the hooks of \<^verbatim>\<open>parameter_offload.py\<close> call, before and after a module runs, in forward and
  in backward.
\<close>

datatype hook_event = Pre nat | Post nat

definition pre_hook :: "'a cenv \<Rightarrow> nat \<Rightarrow> 'a coord \<Rightarrow> 'a coord result" where
  "pre_hook env m c =
     ebind (trace_prologue m c) (\<lambda>c1.
     ebind (if mode c1 = RECORD then record_module m c1 else Inr c1) (\<lambda>c2.
       fetch_sub_module env m c2))"

definition hook_step :: "'a cenv \<Rightarrow> hook_event \<Rightarrow> 'a coord \<Rightarrow> 'a coord result" where
  "hook_step env e c = (case e of Pre m \<Rightarrow> pre_hook env m c | Post m \<Rightarrow> release_sub_module env m c)"

definition run_hooks :: "'a cenv \<Rightarrow> hook_event list \<Rightarrow> 'a coord \<Rightarrow> 'a coord result" where
  "run_hooks env es c = foldE (hook_step env) es c"

definition pre_modules :: "hook_event list \<Rightarrow> nat list" where
  "pre_modules es = List.map_filter (\<lambda>e. case e of Pre m \<Rightarrow> Some m | Post m \<Rightarrow> None) es"

end
