(* ===== verification/CoordInv.thy ===== *)
theory CoordInv
  imports Coordinator
begin

text \<open>
  The invariant of the scheduler's state and that its operations keep it. \<open>P\<close> is the set of the
  parameters of the model, \<open>full\<close> their values, \<open>S\<close> the shards of all ranks.

  A parameter in flight is registered with a handle that serves it; a handle that several
  parameters share is waited for once, and from then on its other parameters are available
  although they are still registered. A parameter that a module uses is available and not
  registered.
\<close>

definition launch_of :: "'a cenv \<Rightarrow> nat list \<Rightarrow> 'a heap \<Rightarrow> ('a heap \<times> 'a ag_handle) result" where
  "launch_of env = all_gather_coalesced (c_world env) (c_fresh env) (c_gather env) (c_cast env) False"

definition ready ::
  "'a cenv \<Rightarrow> (nat \<Rightarrow> 'a list) \<Rightarrow> (nat \<Rightarrow> nat \<Rightarrow> 'a list) \<Rightarrow> dtype \<Rightarrow> nat set \<Rightarrow> 'a heap \<Rightarrow> bool" where
  "ready env full S dt P h = gatherable (c_world env) (c_rank env) (c_gather env) (c_cast env) full S dt h P"

definition serves_in ::
  "'a cenv \<Rightarrow> (nat \<Rightarrow> 'a list) \<Rightarrow> (nat \<Rightarrow> nat \<Rightarrow> 'a list) \<Rightarrow> dtype \<Rightarrow> nat set \<Rightarrow> 'a ag_handle \<Rightarrow> bool" where
  "serves_in env full S dt P hdl \<longleftrightarrow>
     (\<forall>h. ready env full S dt P h \<and> (\<forall>i \<in> set (h_params hdl). ds_status (h i) = INFLIGHT)
        \<longrightarrow> handle_wait (c_world env) hdl h = Inr (gathered full (h_params hdl) h, finished hdl))"

definition entry_ok ::
  "'a cenv \<Rightarrow> (nat \<Rightarrow> 'a list) \<Rightarrow> (nat \<Rightarrow> nat \<Rightarrow> 'a list) \<Rightarrow> dtype \<Rightarrow> nat set \<Rightarrow> 'a coord \<Rightarrow> nat \<Rightarrow> nat \<Rightarrow> bool" where
  "entry_ok env full S dt P c i hid \<longleftrightarrow>
     i \<in> P \<and> hid < length (handles c) \<and> i \<in> set (h_params (handles c ! hid))
     \<and> active_sub_modules (heap c i) = {}
     \<and> (if h_complete (handles c ! hid)
        then h_kind (handles c ! hid) \<noteq> SingleHandle \<and> ds_status (heap c i) = AVAILABLE
        else serves_in env full S dt P (handles c ! hid)
          \<and> (h_kind (handles c ! hid) = SingleHandle \<longrightarrow> length (h_params (handles c ! hid)) = 1)
          \<and> (\<forall>j \<in> set (h_params (handles c ! hid)).
               (j, hid) \<in> set (inflight c) \<and> ds_status (heap c j) = INFLIGHT))"

definition coord_inv ::
  "'a cenv \<Rightarrow> (nat \<Rightarrow> 'a list) \<Rightarrow> (nat \<Rightarrow> nat \<Rightarrow> 'a list) \<Rightarrow> dtype \<Rightarrow> nat set \<Rightarrow> 'a coord \<Rightarrow> bool" where
  "coord_inv env full S dt P c \<longleftrightarrow>
     ready env full S dt P (heap c)
     \<and> (\<forall>i \<in> P. ds_status (heap c i) = AVAILABLE \<longrightarrow> pdata (heap c i) = full i)
     \<and> (\<forall>i \<in> P. active_sub_modules (heap c i) \<noteq> {} \<longrightarrow> ds_status (heap c i) = AVAILABLE)
     \<and> (\<forall>i \<in> P. ds_status (heap c i) = INFLIGHT \<longrightarrow> i \<in> fst ` set (inflight c))
     \<and> distinct (map fst (inflight c))
     \<and> (\<forall>(i, hid) \<in> set (inflight c). entry_ok env full S dt P c i hid)"

text \<open>The control state the gathering and waiting operations leave alone.\<close>

definition ctl where
  "ctl c = (step_id c, mode c, submodule_order c, param_order c, most_recent c, module_fetched_for c,
            max_n_available c, max_reuse_dist c, param_queue c, prefetch_bucket_sz c)"

text \<open>
  The number of elements held (available or on the way), and by how much the counter is off.
\<close>

definition used :: "nat set \<Rightarrow> 'a coord \<Rightarrow> int" where
  "used P c = (\<Sum>i \<in> P. if ds_status (heap c i) = NOT_AVAILABLE then 0 else int (ds_numel (heap c i)))"

definition drift :: "nat set \<Rightarrow> 'a coord \<Rightarrow> int" where
  "drift P c = n_available c - used P c"

section \<open>Gathering\<close>

lemma ready_frame: "ready env full S dt P h \<Longrightarrow> (\<forall>i \<in> P. same_static (h i) (h' i)) \<Longrightarrow> ready env full S dt P h'"
  unfolding ready_def by (rule gs.ready_frame)

lemma coord_inv_ready: "coord_inv env full S dt P c \<Longrightarrow> ready env full S dt P (heap c)"
  by (simp add: coord_inv_def)

lemma coord_inv_entry:
  "coord_inv env full S dt P c \<Longrightarrow> (i, hid) \<in> set (inflight c) \<Longrightarrow> entry_ok env full S dt P c i hid"
  by (auto simp: coord_inv_def)

lemma registered_not_NA:
  assumes "coord_inv env full S dt P c" and "i \<in> fst ` set (inflight c)"
  shows "ds_status (heap c i) \<noteq> NOT_AVAILABLE"
  using assms by (auto simp: coord_inv_def entry_ok_def split: if_splits)

lemma registered_in_P: "coord_inv env full S dt P c \<Longrightarrow> i \<in> fst ` set (inflight c) \<Longrightarrow> i \<in> P"
  by (auto simp: coord_inv_def entry_ok_def)

lemma register_all:
  assumes "\<And>p. p \<in> set ps \<Longrightarrow> ds_status (heap c p) = INFLIGHT \<and> p \<notin> fst ` set (inflight c)" and "distinct ps"
  shows "foldE (\<lambda>p c. ebind (assert_that (ds_status (heap c p) = INFLIGHT)) (\<lambda>_. register_inflight hid p c)) ps c
    = Inr (c\<lparr>inflight := inflight c @ map (\<lambda>p. (p, hid)) ps\<rparr>)"
  using assms
proof (induction ps arbitrary: c)
  case Nil
  then show ?case by simp
next
  case (Cons p ps)
  let ?c = "c\<lparr>inflight := inflight c @ [(p, hid)]\<rparr>"
  have "foldE (\<lambda>p c. ebind (assert_that (ds_status (heap c p) = INFLIGHT)) (\<lambda>_. register_inflight hid p c)) ps ?c
    = Inr (?c\<lparr>inflight := inflight ?c @ map (\<lambda>p. (p, hid)) ps\<rparr>)"
    using Cons.prems by (intro Cons.IH) auto
  then show ?case using Cons.prems(1) [of p] by (simp add: register_inflight_def)
qed

lemma used_status_change:
  assumes "finite P" and "set ps \<subseteq> P" and "distinct ps"
    and "\<And>i. i \<in> set ps \<Longrightarrow> ds_status (h i) = NOT_AVAILABLE \<and> ds_status (h' i) \<noteq> NOT_AVAILABLE \<and> ds_numel (h' i) = ds_numel (h i)"
    and "\<And>i. i \<notin> set ps \<Longrightarrow> h' i = h i"
  shows "(\<Sum>i \<in> P. if ds_status (h' i) = NOT_AVAILABLE then 0 else int (ds_numel (h' i)))
    = (\<Sum>i \<in> P. if ds_status (h i) = NOT_AVAILABLE then 0 else int (ds_numel (h i))) + (\<Sum>p \<leftarrow> ps. int (ds_numel (h p)))"
proof -
  let ?f = "\<lambda>h i. if ds_status (h i) = NOT_AVAILABLE then 0 else int (ds_numel (h i))"
  have "sum (?f h') P = sum (?f h') (P - set ps) + sum (?f h') (set ps)"
    using assms(1,2) by (simp add: sum.subset_diff)
  moreover have "sum (?f h') (P - set ps) = sum (?f h) (P - set ps)"
    using assms(5) by (intro sum.cong) auto
  moreover have "sum (?f h') (set ps) = (\<Sum>p \<in> set ps. int (ds_numel (h p)))"
    using assms(4) by (intro sum.cong) auto
  moreover have "sum (?f h) P = sum (?f h) (P - set ps) + sum (?f h) (set ps)"
    using assms(1,2) by (simp add: sum.subset_diff)
  moreover have "sum (?f h) (set ps) = 0" using assms(4) by (intro sum.neutral) auto
  ultimately show ?thesis using assms(3) by (simp add: sum_list_distinct_conv_sum_set)
qed

text \<open>The state after a launch: the heap \<open>h1\<close> of the launch, its handle, and the parameters registered with it.\<close>

definition after_launch :: "nat list \<Rightarrow> 'a heap \<Rightarrow> 'a ag_handle \<Rightarrow> 'a coord \<Rightarrow> 'a coord" where
  "after_launch ns h1 hdl c =
     c\<lparr>n_available := n_available c + (\<Sum>p \<leftarrow> ns. int (ds_numel (heap c p))), heap := h1, handles := handles c @ [hdl],
       inflight := inflight c @ map (\<lambda>p. (p, length (handles c))) ns\<rparr>"

lemma after_launch_simps [simp]:
  "heap (after_launch ns h1 hdl c) = h1"
  "handles (after_launch ns h1 hdl c) = handles c @ [hdl]"
  "inflight (after_launch ns h1 hdl c) = inflight c @ map (\<lambda>p. (p, length (handles c))) ns"
  "n_available (after_launch ns h1 hdl c) = n_available c + (\<Sum>p \<leftarrow> ns. int (ds_numel (heap c p)))"
  "ctl (after_launch ns h1 hdl c) = ctl c"
  by (simp_all add: after_launch_def ctl_def)

lemma in_flight_at:
  assumes "in_flight ns h h1"
  shows "ds_status (h1 i) = (if i \<in> set ns then INFLIGHT else ds_status (h i))" "same_static (h i) (h1 i)"
    "active_sub_modules (h1 i) = active_sub_modules (h i)" "i \<notin> set ns \<Longrightarrow> h1 i = h i"
proof -
  have "if i \<in> set ns then \<exists>v. h1 i = (h i)\<lparr>pdata := v, ds_status := INFLIGHT\<rparr> else h1 i = h i"
    using assms by (simp add: in_flight_def)
  then show "ds_status (h1 i) = (if i \<in> set ns then INFLIGHT else ds_status (h i))" "same_static (h i) (h1 i)"
    "active_sub_modules (h1 i) = active_sub_modules (h i)" "i \<notin> set ns \<Longrightarrow> h1 i = h i"
    by (auto simp: same_static_def split: if_splits)
qed

lemma launch_drift:
  assumes "in_flight ns (heap c) h1" and "set ns \<subseteq> P" "distinct ns" "\<forall>i \<in> set ns. ds_status (heap c i) = NOT_AVAILABLE"
    and "finite P"
  shows "drift P (after_launch ns h1 hdl c) = drift P c"
proof -
  have "used P (after_launch ns h1 hdl c) = used P c + (\<Sum>p \<leftarrow> ns. int (ds_numel (heap c p)))"
    unfolding used_def after_launch_simps
    by (rule used_status_change [OF assms(5,2,3)])
      (use assms(4) in_flight_at [OF assms(1)] in \<open>auto simp: same_static_def\<close>)
  then show ?thesis by (simp add: drift_def)
qed

lemma launch_inv:
  assumes inv: "coord_inv env full S dt P c" and lau: "in_flight ns (heap c) h1"
    and ns: "set ns \<subseteq> P" "distinct ns" "\<forall>i \<in> set ns. ds_status (heap c i) = NOT_AVAILABLE"
    and hdl: "serves_in env full S dt P hdl" "set (h_params hdl) = set ns" "\<not> h_complete hdl"
      "h_kind hdl = SingleHandle \<longrightarrow> length (h_params hdl) = 1"
  shows "coord_inv env full S dt P (after_launch ns h1 hdl c)"
  unfolding coord_inv_def after_launch_simps
proof (intro conjI)
  note new = in_flight_at [OF lau]
  have unused: "active_sub_modules (heap c i) = {}" if "i \<in> set ns" for i
    using inv that ns(1,3) by (force simp: coord_inv_def)
  have unreg: "p \<notin> fst ` set (inflight c)" if "p \<in> set ns" for p
    using that ns(3) registered_not_NA [OF inv] by blast
  show "ready env full S dt P h1"
    using ready_frame [OF coord_inv_ready [OF inv], of h1] new(2) by simp
  show "\<forall>i \<in> P. ds_status (h1 i) = AVAILABLE \<longrightarrow> pdata (h1 i) = full i"
    using inv new(4) by (simp add: coord_inv_def new(1))
  show "\<forall>i \<in> P. active_sub_modules (h1 i) \<noteq> {} \<longrightarrow> ds_status (h1 i) = AVAILABLE"
    using inv unused by (simp add: coord_inv_def new(1,3))
  show "\<forall>i \<in> P. ds_status (h1 i) = INFLIGHT \<longrightarrow> i \<in> fst ` set (inflight c @ map (\<lambda>p. (p, length (handles c))) ns)"
    using inv by (auto simp: coord_inv_def new(1) image_Un image_image)
  show "distinct (map fst (inflight c @ map (\<lambda>p. (p, length (handles c))) ns))"
    using inv ns(2) unreg by (auto simp: coord_inv_def comp_def)
  show "\<forall>(i, hid) \<in> set (inflight c @ map (\<lambda>p. (p, length (handles c))) ns). entry_ok env full S dt P (after_launch ns h1 hdl c) i hid"
  proof clarify
    fix i hid assume e: "(i, hid) \<in> set (inflight c @ map (\<lambda>p. (p, length (handles c))) ns)"
    have same: "h1 j = heap c j" if "j \<in> fst ` set (inflight c)" for j
      using that unreg new(4) by blast
    consider "(i, hid) \<in> set (inflight c)" | "i \<in> set ns" "hid = length (handles c)" using e by auto
    then show "entry_ok env full S dt P (after_launch ns h1 hdl c) i hid"
    proof cases
      case 1
      then have "i \<in> fst ` set (inflight c)" by force
      moreover have "j \<in> fst ` set (inflight c)" if "(j, hid) \<in> set (inflight c)" for j using that by force
      ultimately show ?thesis using coord_inv_entry [OF inv 1] same
        by (auto simp: entry_ok_def nth_append split: if_splits)
    next
      case 2
      then show ?thesis using hdl ns(1) unused [of i] by (auto simp: entry_ok_def new(1,3))
    qed
  qed
qed

text \<open>
  Gathering a set of parameters: it never raises, puts exactly the unavailable ones in flight
  and accounts for them.
\<close>

lemma all_gather_params_ok:
  assumes inv: "coord_inv env full S dt P c" and ps: "set ps \<subseteq> P" "distinct ps"
    and env: "\<not> c_full_transfer env" and fin: "finite P"
  shows "\<exists>c'. all_gather_params env ps c = Inr c' \<and> coord_inv env full S dt P c' \<and> ctl c' = ctl c
    \<and> drift P c' = drift P c
    \<and> (\<forall>i. if i \<in> set (not_available c ps)
           then \<exists>v. heap c' i = (heap c i)\<lparr>pdata := v, ds_status := INFLIGHT\<rparr> else heap c' i = heap c i)
    \<and> fst ` set (inflight c') = fst ` set (inflight c) \<union> set (not_available c ps)
    \<and> n_available c' = n_available c + (\<Sum>p \<leftarrow> not_available c ps. int (ds_numel (heap c p)))"
proof (cases "not_available c ps = []")
  case True
  then show ?thesis using inv by (simp add: all_gather_params_def ctl_def drift_def used_def)
next
  case False
  let ?ns = "not_available c ps"
  have ns: "set ?ns \<subseteq> P" "distinct ?ns" "\<forall>i \<in> set ?ns. ds_status (heap c i) = NOT_AVAILABLE"
    using ps by (auto simp: not_available_def)
  have r: "gatherable (c_world env) (c_rank env) (c_gather env) (c_cast env) full S dt (heap c) P"
    using coord_inv_ready [OF inv] by (simp add: ready_def)
  obtain h1 hdl where l: "all_gather_coalesced (c_world env) (c_fresh env) (c_gather env) (c_cast env) False ?ns (heap c) = Inr (h1, hdl)"
      "in_flight ?ns (heap c) h1" and params: "set (h_params hdl) = set ?ns" and new: "\<not> h_complete hdl"
      "h_kind hdl = SingleHandle \<longrightarrow> length (h_params hdl) = 1"
    and sv: "\<forall>h'. gatherable (c_world env) (c_rank env) (c_gather env) (c_cast env) full S dt h' P
            \<and> (\<forall>i \<in> set ?ns. ds_status (h' i) = INFLIGHT)
          \<longrightarrow> handle_wait (c_world env) hdl h' = Inr (gathered full (h_params hdl) h', finished hdl)"
    using gs.launch_ok [OF r ns(1,2) False ns(3)] by blast
  have serves: "serves_in env full S dt P hdl" using sv params by (auto simp: serves_in_def ready_def)
  have unreg: "p \<notin> fst ` set (inflight c)" if "p \<in> set ?ns" for p
    using that ns(3) registered_not_NA [OF inv] by blast
  let ?c1 = "c\<lparr>n_available := n_available c + (\<Sum>p \<leftarrow> ?ns. int (ds_numel (heap c p))), heap := h1, handles := handles c @ [hdl]\<rparr>"
  have "foldE (\<lambda>p c'. ebind (assert_that (ds_status (heap c' p) = INFLIGHT)) (\<lambda>_. register_inflight (length (handles c)) p c')) ?ns ?c1
      = Inr (after_launch ?ns h1 hdl c)"
    using register_all [of ?ns ?c1 "length (handles c)"] in_flight_at(1) [OF l(2)] unreg ns(2) by (simp add: after_launch_def)
  then have op: "all_gather_params env ps c = Inr (after_launch ?ns h1 hdl c)"
    using l(1) env False by (simp add: all_gather_params_def Let_def)
  show ?thesis
    using op launch_inv [OF inv l(2) ns serves params new] launch_drift [OF l(2) ns fin, of hdl] l(2)
    by (auto simp: in_flight_def image_Un image_image)
qed

section \<open>Waiting\<close>

text \<open>
  One round of the fetch loop. The parameter ends up available, used by the module and no
  longer registered; other parameters keep their users, and at most become available.
\<close>

definition fetched_from :: "'a coord \<Rightarrow> 'a coord \<Rightarrow> nat \<Rightarrow> nat \<Rightarrow> bool" where
  "fetched_from c c' m p \<longleftrightarrow>
     (\<forall>i. active_sub_modules (heap c' i) = (if i = p then insert m (active_sub_modules (heap c i)) else active_sub_modules (heap c i))
        \<and> same_static (heap c i) (heap c' i)
        \<and> is_external_param (heap c' i) = is_external_param (heap c i)
        \<and> ds_persist (heap c' i) = ds_persist (heap c i)
        \<and> (ds_status (heap c' i) = ds_status (heap c i)
           \<or> (ds_status (heap c i) = INFLIGHT \<and> ds_status (heap c' i) = AVAILABLE)))"

lemma used_cong:
  "(\<And>i. i \<in> P \<Longrightarrow> (ds_status (h' i) = NOT_AVAILABLE \<longleftrightarrow> ds_status (h i) = NOT_AVAILABLE)
      \<and> ds_numel (h' i) = ds_numel (h i)) \<Longrightarrow>
   (\<Sum>i \<in> P. if ds_status (h' i) = NOT_AVAILABLE then 0 else int (ds_numel (h' i)))
    = (\<Sum>i \<in> P. if ds_status (h i) = NOT_AVAILABLE then 0 else int (ds_numel (h i)))"
  by (intro sum.cong) auto

lemma fetched_from_used: "fetched_from c c' m p \<Longrightarrow> used P c' = used P c"
  unfolding used_def fetched_from_def same_static_def
  by (rule used_cong) (metis param_status.distinct)

lemma map_of_distinct:
  "distinct (map fst xs) \<Longrightarrow> map_of xs k = Some v \<longleftrightarrow> (k, v) \<in> set xs"
  by (simp add: map_of_eq_Some_iff)

lemma filter_fst_image: "fst ` set (filter (\<lambda>e. fst e \<noteq> p) xs) = fst ` set xs - {p}"
  by force

text \<open>Not registered: the parameter is available already.\<close>

lemma fetch_one_available:
  assumes inv: "coord_inv env full S dt P c" and p: "p \<in> P" "p \<notin> fst ` set (inflight c)"
    and st: "ds_status (heap c p) \<noteq> NOT_AVAILABLE"
  shows "fetch_one env m p c = Inr (activate m p c) \<and> coord_inv env full S dt P (activate m p c)
    \<and> ds_status (heap (activate m p c) p) = AVAILABLE
    \<and> fetched_from c (activate m p c) m p"
proof -
  have av: "ds_status (heap c p) = AVAILABLE"
    using inv p st by (cases "ds_status (heap c p)") (auto simp: coord_inv_def)
  have none: "map_of (inflight c) p = None" using p(2) by (simp add: map_of_eq_None_iff)
  have ff: "fetched_from c (activate m p c) m p"
    by (simp add: fetched_from_def activate_def same_static_def)
  have "coord_inv env full S dt P (activate m p c)"
    unfolding coord_inv_def
  proof (intro conjI)
    show "ready env full S dt P (heap (activate m p c))"
      using coord_inv_ready [OF inv] by (rule ready_frame) (simp add: activate_def same_static_def)
    show "\<forall>(i, hid) \<in> set (inflight (activate m p c)). entry_ok env full S dt P (activate m p c) i hid"
    proof clarify
      fix i hid assume e: "(i, hid) \<in> set (inflight (activate m p c))"
      then have e: "(i, hid) \<in> set (inflight c)" by (simp add: activate_def)
      have "i \<noteq> p" using e p(2) by force
      moreover have "j \<noteq> p" if "(j, hid) \<in> set (inflight c)" for j using that p(2) by force
      ultimately show "entry_ok env full S dt P (activate m p c) i hid"
        using coord_inv_entry [OF inv e] by (auto simp: entry_ok_def activate_def)
    qed
  qed (use inv av in \<open>auto simp: coord_inv_def activate_def\<close>)
  then show ?thesis
    using av none ff by (simp add: fetch_one_def wait_inflight_def activate_def)
qed


text \<open>
  Registered: the handle is waited for. The wait fills the parameters of a handle that is still
  open; its heap, in which \<open>p\<close> has the module as a user already.
\<close>

definition open_params :: "'a ag_handle \<Rightarrow> nat set" where
  "open_params H = (if h_complete H then {} else set (h_params H))"

definition closed_handle :: "'a ag_handle \<Rightarrow> 'a ag_handle" where
  "closed_handle H = (if h_complete H then H else finished H)"

definition waited_heap :: "(nat \<Rightarrow> 'a list) \<Rightarrow> nat \<Rightarrow> nat \<Rightarrow> 'a ag_handle \<Rightarrow> 'a coord \<Rightarrow> 'a heap" where
  "waited_heap full m p H c = (\<lambda>i. if i \<in> open_params H then materialised full (heap (activate m p c)) i else heap (activate m p c) i)"

lemma waited_heap_at:
  "ds_status (waited_heap full m p H c i) = (if i \<in> open_params H then AVAILABLE else ds_status (heap c i))"
  "active_sub_modules (waited_heap full m p H c i)
     = (if i = p then insert m (active_sub_modules (heap c i)) else active_sub_modules (heap c i))"
  "same_static (heap c i) (waited_heap full m p H c i)"
  "is_external_param (waited_heap full m p H c i) = is_external_param (heap c i)"
  "ds_persist (waited_heap full m p H c i) = ds_persist (heap c i)"
  "pdata (waited_heap full m p H c i) = (if i \<in> open_params H then full i else pdata (heap c i))"
  by (simp_all add: waited_heap_def materialised_def activate_def same_static_def)

lemma closed_handle_simps [simp]:
  "h_params (closed_handle H) = h_params H" "h_kind (closed_handle H) = h_kind H"
  "h_complete (closed_handle H)"
  by (simp_all add: closed_handle_def finished_def)

lemma entry_params:
  assumes "entry_ok env full S dt P c p hid"
  shows "hid < length (handles c)" "p \<in> set (h_params (handles c ! hid))"
    "j \<in> open_params (handles c ! hid) \<Longrightarrow> (j, hid) \<in> set (inflight c) \<and> ds_status (heap c j) = INFLIGHT"
    "ds_status (waited_heap full m q (handles c ! hid) c p) = AVAILABLE"
  using assms by (auto simp: entry_ok_def open_params_def waited_heap_at split: if_splits)

lemma entry_wait:
  assumes inv: "coord_inv env full S dt P c" and reg: "(p, hid) \<in> set (inflight c)"
  shows "handle_wait (c_world env) (handles c ! hid) (heap (activate m p c))
    = Inr (waited_heap full m p (handles c ! hid) c, closed_handle (handles c ! hid))"
proof -
  let ?H = "handles c ! hid"
  have eo: "entry_ok env full S dt P c p hid" using inv reg by (rule coord_inv_entry)
  show ?thesis
  proof (cases "h_complete ?H")
    case True
    then have "h_kind ?H \<noteq> SingleHandle" using eo by (simp add: entry_ok_def)
    with True show ?thesis by (simp add: gs.wait_done waited_heap_def closed_handle_def open_params_def)
  next
    case False
    have "ready env full S dt P (heap (activate m p c))"
      using coord_inv_ready [OF inv] by (rule ready_frame) (simp add: activate_def same_static_def)
    moreover have "serves_in env full S dt P ?H" using eo False by (simp add: entry_ok_def)
    moreover have "\<forall>i \<in> set (h_params ?H). ds_status (heap (activate m p c) i) = INFLIGHT"
      using entry_params(3) [OF eo] False by (auto simp: open_params_def activate_def)
    ultimately have "handle_wait (c_world env) ?H (heap (activate m p c)) = Inr (gathered full (h_params ?H) (heap (activate m p c)), finished ?H)"
      unfolding serves_in_def by blast
    with False show ?thesis by (simp add: gathered_def waited_heap_def closed_handle_def open_params_def)
  qed
qed

text \<open>The coordinator after the wait: \<open>p\<close> is no longer registered.\<close>

definition waited :: "'a cenv \<Rightarrow> (nat \<Rightarrow> 'a list) \<Rightarrow> nat \<Rightarrow> nat \<Rightarrow> nat \<Rightarrow> 'a coord \<Rightarrow> 'a coord" where
  "waited env full m p hid c =
     (let c1 = drain_events env (activate m p c) in
      c1\<lparr>heap := waited_heap full m p (handles c ! hid) c, handles := (handles c)[hid := closed_handle (handles c ! hid)],
         inflight := filter (\<lambda>e. fst e \<noteq> p) (inflight c), ongoing_events := ongoing_events c1 @ [n_events c1],
         n_events := Suc (n_events c1)\<rparr>)"

lemma waited_simps [simp]:
  "heap (waited env full m p hid c) = waited_heap full m p (handles c ! hid) c"
  "handles (waited env full m p hid c) = (handles c)[hid := closed_handle (handles c ! hid)]"
  "inflight (waited env full m p hid c) = filter (\<lambda>e. fst e \<noteq> p) (inflight c)"
  "n_available (waited env full m p hid c) = n_available c"
  "ctl (waited env full m p hid c) = ctl c"
  by (simp_all add: waited_def Let_def drain_events_def activate_def ctl_def)

lemma fetch_one_waits:
  assumes inv: "coord_inv env full S dt P c" and reg: "(p, hid) \<in> set (inflight c)"
  shows "fetch_one env m p c = Inr (waited env full m p hid c)"
proof -
  have "map_of (inflight c) p = Some hid" using inv reg by (simp add: map_of_distinct coord_inv_def)
  moreover have "ds_status (waited_heap full m p (handles c ! hid) c p) = AVAILABLE"
    using coord_inv_entry [OF inv reg] by (rule entry_params(4))
  moreover have "inflight (activate m p c) = inflight c" "handles (drain_events env (activate m p c)) = handles c"
    "heap (drain_events env (activate m p c)) = heap (activate m p c)" "inflight (drain_events env (activate m p c)) = inflight c"
    by (simp_all add: activate_def drain_events_def Let_def)
  ultimately show ?thesis
    using entry_wait [OF inv reg, of m] by (simp add: fetch_one_def wait_inflight_def waited_def Let_def)
qed

lemma waited_entries:
  assumes inv: "coord_inv env full S dt P c" and reg: "(p, hid) \<in> set (inflight c)"
    and e: "(i, hid') \<in> set (inflight c)" "i \<noteq> p"
  shows "entry_ok env full S dt P (waited env full m p hid c) i hid'"
proof -
  let ?H = "handles c ! hid"
  have eo: "entry_ok env full S dt P c p hid" "entry_ok env full S dt P c i hid'" using inv reg e(1) by (auto intro: coord_inv_entry)
  show ?thesis
  proof (cases "hid' = hid")
    case True
    have "h_kind ?H \<noteq> SingleHandle"
    proof
      assume "h_kind ?H = SingleHandle"
      then have "length (h_params ?H) = 1" using eo(1) by (simp add: entry_ok_def split: if_splits)
      then show False using entry_params(2) [OF eo(1)] entry_params(2) [OF eo(2)] True e(2) by (auto simp: length_Suc_conv)
    qed
    moreover have "ds_status (waited_heap full m p ?H c i) = AVAILABLE"
      using entry_params(4) [OF eo(2)] True by simp
    ultimately show ?thesis
      using eo(2) True entry_params(1) [OF eo(1)] e(2)
      unfolding entry_ok_def waited_simps waited_heap_at(2) by simp
  next
    case False
    have uniq: "j \<noteq> k" if "(j, hid') \<in> set (inflight c)" "(k, hid) \<in> set (inflight c)" for j k
    proof
      assume "j = k"
      moreover have "distinct (map fst (inflight c))" using inv by (simp add: coord_inv_def)
      ultimately have "map_of (inflight c) k = Some hid'" "map_of (inflight c) k = Some hid"
        using that map_of_distinct [of "inflight c" k] by blast+
      then show False using False by simp
    qed
    have notA: "j \<notin> open_params ?H" if "(j, hid') \<in> set (inflight c)" for j
      using entry_params(3) [OF eo(1)] uniq [OF that] by blast
    have sj: "ds_status (waited_heap full m p ?H c j) = ds_status (heap c j)" if "(j, hid') \<in> set (inflight c)" for j
      unfolding waited_heap_at using notA [OF that] by simp
    have other: "(handles c)[hid := closed_handle ?H] ! hid' = handles c ! hid'" using False by simp
    show ?thesis
      using eo(2) e uniq [OF _ reg] sj
      unfolding entry_ok_def waited_simps waited_heap_at(2) other
      by (simp only: length_list_update set_filter mem_Collect_eq fst_conv) (auto split: if_splits)
  qed
qed

lemma waited_inv:
  assumes inv: "coord_inv env full S dt P c" and reg: "(p, hid) \<in> set (inflight c)"
  shows "coord_inv env full S dt P (waited env full m p hid c)"
  unfolding coord_inv_def waited_simps
proof (intro conjI)
  let ?h = "waited_heap full m p (handles c ! hid) c" and ?fl = "filter (\<lambda>e. fst e \<noteq> p) (inflight c)"
  have eo: "entry_ok env full S dt P c p hid" using inv reg by (rule coord_inv_entry)
  note pav = entry_params(4) [OF eo, of m p]
  show "ready env full S dt P ?h" using coord_inv_ready [OF inv] by (rule ready_frame) (simp add: waited_heap_at)
  show "\<forall>i \<in> P. ds_status (?h i) = AVAILABLE \<longrightarrow> pdata (?h i) = full i"
    using inv by (simp add: coord_inv_def waited_heap_at)
  show "\<forall>i \<in> P. active_sub_modules (?h i) \<noteq> {} \<longrightarrow> ds_status (?h i) = AVAILABLE"
  proof
    fix i assume "i \<in> P"
    then show "active_sub_modules (?h i) \<noteq> {} \<longrightarrow> ds_status (?h i) = AVAILABLE"
      using inv pav by (cases "i = p") (auto simp: coord_inv_def waited_heap_at(1,2))
  qed
  show "\<forall>i \<in> P. ds_status (?h i) = INFLIGHT \<longrightarrow> i \<in> fst ` set ?fl"
  proof (intro ballI impI)
    fix i assume i: "i \<in> P" "ds_status (?h i) = INFLIGHT"
    then have "ds_status (heap c i) = INFLIGHT" "i \<noteq> p"
      using pav by (auto simp: waited_heap_at(1) split: if_splits)
    then show "i \<in> fst ` set ?fl"
      using inv i(1) by (simp only: filter_fst_image) (auto simp: coord_inv_def)
  qed
  show "distinct (map fst ?fl)" using inv by (simp add: distinct_map_filter coord_inv_def)
  show "\<forall>(i, hid') \<in> set ?fl. entry_ok env full S dt P (waited env full m p hid c) i hid'"
    using waited_entries [OF inv reg] by auto
qed

lemma fetch_one_registered:
  assumes inv: "coord_inv env full S dt P c" and reg: "(p, hid) \<in> set (inflight c)"
  shows "\<exists>c'. fetch_one env m p c = Inr c' \<and> coord_inv env full S dt P c' \<and> ctl c' = ctl c
    \<and> n_available c' = n_available c \<and> ds_status (heap c' p) = AVAILABLE \<and> fetched_from c c' m p
    \<and> fst ` set (inflight c') = fst ` set (inflight c) - {p}"
proof -
  have eo: "entry_ok env full S dt P c p hid" using inv reg by (rule coord_inv_entry)
  have fst_img: "fst ` set (inflight (waited env full m p hid c)) = fst ` set (inflight c) - {p}"
    unfolding waited_simps by (rule filter_fst_image)
  have "fetched_from c (waited env full m p hid c) m p"
    using entry_params(3) [OF eo] by (auto simp: fetched_from_def waited_heap_at)
  then show ?thesis
    using fetch_one_waits [OF inv reg, of m] waited_inv [OF inv reg, of m] entry_params(4) [OF eo, of m p]
    by (intro exI [of _ "waited env full m p hid c"]) (simp add: fst_img del: waited_simps(3))
qed

lemma fetch_one_ok:
  assumes inv: "coord_inv env full S dt P c" and p: "p \<in> P" "ds_status (heap c p) \<noteq> NOT_AVAILABLE"
  shows "\<exists>c'. fetch_one env m p c = Inr c' \<and> coord_inv env full S dt P c' \<and> ctl c' = ctl c
    \<and> n_available c' = n_available c \<and> ds_status (heap c' p) = AVAILABLE \<and> fetched_from c c' m p
    \<and> fst ` set (inflight c') = fst ` set (inflight c) - {p}"
proof (cases "p \<in> fst ` set (inflight c)")
  case True
  then obtain hid where "(p, hid) \<in> set (inflight c)" by force
  then show ?thesis by (rule fetch_one_registered [OF inv])
next
  case False
  then show ?thesis
    using fetch_one_available [OF inv p(1) False p(2), of m] by (auto simp: activate_def ctl_def)
qed

text \<open>The whole loop over a set of parameters.\<close>

definition fetched_set :: "'a coord \<Rightarrow> 'a coord \<Rightarrow> nat \<Rightarrow> nat set \<Rightarrow> bool" where
  "fetched_set c c' m A \<longleftrightarrow>
     (\<forall>i. active_sub_modules (heap c' i) = (if i \<in> A then insert m (active_sub_modules (heap c i)) else active_sub_modules (heap c i))
        \<and> same_static (heap c i) (heap c' i)
        \<and> is_external_param (heap c' i) = is_external_param (heap c i)
        \<and> ds_persist (heap c' i) = ds_persist (heap c i)
        \<and> (ds_status (heap c' i) = ds_status (heap c i)
           \<or> (ds_status (heap c i) = INFLIGHT \<and> ds_status (heap c' i) = AVAILABLE)))"

lemma fetched_set_refl: "fetched_set c c m {}"
  by (simp add: fetched_set_def same_static_def)

lemma fetched_set_step:
  assumes a: "fetched_from c c1 m p" and b: "fetched_set c1 c2 m A"
  shows "fetched_set c c2 m (insert p A)"
  unfolding fetched_set_def
proof
  fix i
  show "active_sub_modules (heap c2 i) = (if i \<in> insert p A then insert m (active_sub_modules (heap c i)) else active_sub_modules (heap c i))
        \<and> same_static (heap c i) (heap c2 i)
        \<and> is_external_param (heap c2 i) = is_external_param (heap c i)
        \<and> ds_persist (heap c2 i) = ds_persist (heap c i)
        \<and> (ds_status (heap c2 i) = ds_status (heap c i)
           \<or> (ds_status (heap c i) = INFLIGHT \<and> ds_status (heap c2 i) = AVAILABLE))"
    using spec [OF a [unfolded fetched_from_def], of i] spec [OF b [unfolded fetched_set_def], of i]
    by (auto simp: same_static_def)
qed

lemma fetched_set_used: "fetched_set c c' m A \<Longrightarrow> used P c' = used P c"
  unfolding used_def fetched_set_def same_static_def
  by (rule used_cong) (metis param_status.distinct)

lemma fetch_loop_ok:
  assumes "coord_inv env full S dt P c" and "set ps \<subseteq> P"
    and "\<And>p. p \<in> set ps \<Longrightarrow> ds_status (heap c p) \<noteq> NOT_AVAILABLE"
  shows "\<exists>c'. foldE (fetch_one env m) ps c = Inr c' \<and> coord_inv env full S dt P c' \<and> ctl c' = ctl c
    \<and> n_available c' = n_available c \<and> fetched_set c c' m (set ps)
    \<and> (\<forall>p \<in> set ps. ds_status (heap c' p) = AVAILABLE)
    \<and> fst ` set (inflight c') = fst ` set (inflight c) - set ps"
  using assms
proof (induction ps arbitrary: c)
  case Nil
  then show ?case by (simp add: fetched_set_refl)
next
  case (Cons p ps)
  obtain c1 where c1: "fetch_one env m p c = Inr c1" "coord_inv env full S dt P c1" "ctl c1 = ctl c"
      "n_available c1 = n_available c" "ds_status (heap c1 p) = AVAILABLE" "fetched_from c c1 m p"
      "fst ` set (inflight c1) = fst ` set (inflight c) - {p}"
    using fetch_one_ok [OF Cons.prems(1), of p m] Cons.prems(2,3) by auto
  have mono: "ds_status (heap c1 i) \<noteq> NOT_AVAILABLE" if "ds_status (heap c i) \<noteq> NOT_AVAILABLE" for i
    using spec [OF c1(6) [unfolded fetched_from_def], of i] that by auto
  obtain c2 where c2: "foldE (fetch_one env m) ps c1 = Inr c2" "coord_inv env full S dt P c2" "ctl c2 = ctl c1"
      "n_available c2 = n_available c1" "fetched_set c1 c2 m (set ps)"
      "\<forall>p \<in> set ps. ds_status (heap c2 p) = AVAILABLE"
      "fst ` set (inflight c2) = fst ` set (inflight c1) - set ps"
    using Cons.IH [OF c1(2)] Cons.prems(2,3) mono by auto
  have "ds_status (heap c2 p) = AVAILABLE"
    using spec [OF c2(5) [unfolded fetched_set_def], of p] c1(5) by auto
  then show ?case
    using c1 c2 fetched_set_step [OF c1(6) c2(5)] by auto
qed

section \<open>Releasing\<close>

text \<open>
  Releasing frees at most available parameters that nobody uses; the caller must not pass a
  parameter that is registered.
\<close>

definition released_from :: "'a coord \<Rightarrow> 'a coord \<Rightarrow> nat set \<Rightarrow> bool" where
  "released_from c c' A \<longleftrightarrow>
     (\<forall>i. same_static (heap c i) (heap c' i)
        \<and> is_external_param (heap c' i) = is_external_param (heap c i)
        \<and> ds_persist (heap c' i) = ds_persist (heap c i)
        \<and> active_sub_modules (heap c' i) \<subseteq> active_sub_modules (heap c i)
        \<and> (i \<notin> A \<longrightarrow> active_sub_modules (heap c' i) = active_sub_modules (heap c i))
        \<and> ((ds_status (heap c' i) = ds_status (heap c i) \<and> pdata (heap c' i) = pdata (heap c i))
           \<or> (i \<in> A \<and> ds_status (heap c i) = AVAILABLE \<and> active_sub_modules (heap c' i) = {}
              \<and> ds_status (heap c' i) = NOT_AVAILABLE \<and> pdata (heap c' i) = [])))"

lemma coord_inv_upd_unregistered:
  assumes inv: "coord_inv env full S dt P c" and p: "p \<in> P" "p \<notin> fst ` set (inflight c)"
    and q: "same_static (heap c p) q"
    and av: "ds_status q = AVAILABLE \<longrightarrow> pdata q = full p"
    and ac: "active_sub_modules q \<noteq> {} \<longrightarrow> ds_status q = AVAILABLE"
    and nf: "ds_status q \<noteq> INFLIGHT"
  shows "coord_inv env full S dt P (c\<lparr>heap := (heap c)(p := q), n_available := n\<rparr>)"
  unfolding coord_inv_def
proof (intro conjI)
  show "ready env full S dt P (heap (c\<lparr>heap := (heap c)(p := q), n_available := n\<rparr>))"
    by (rule ready_frame [OF coord_inv_ready [OF inv]]) (use q in \<open>auto simp: same_static_def\<close>)
  show "\<forall>(i, hid) \<in> set (inflight (c\<lparr>heap := (heap c)(p := q), n_available := n\<rparr>)).
      entry_ok env full S dt P (c\<lparr>heap := (heap c)(p := q), n_available := n\<rparr>) i hid"
  proof clarify
    fix i hid assume "(i, hid) \<in> set (inflight (c\<lparr>heap := (heap c)(p := q), n_available := n\<rparr>))"
    then have e: "(i, hid) \<in> set (inflight c)" by simp
    have ne: "j \<noteq> p" if "(j, hid) \<in> set (inflight c)" for j using that p(2) by force
    show "entry_ok env full S dt P (c\<lparr>heap := (heap c)(p := q), n_available := n\<rparr>) i hid"
      using coord_inv_entry [OF inv e] ne e by (auto simp: entry_ok_def)
  qed
qed (use inv av ac nf in \<open>auto simp: coord_inv_def\<close>)

lemma sum_upd:
  assumes "finite P" and "p \<in> P"
  shows "(\<Sum>i \<in> P. f ((h(p := q)) i)) + f (h p) = (\<Sum>i \<in> P. f (h i)) + (f q :: int)"
proof -
  have "(\<Sum>i \<in> P. f ((h(p := q)) i)) = f q + (\<Sum>i \<in> P - {p}. f ((h(p := q)) i))"
    using assms by (simp add: sum.remove)
  moreover have "(\<Sum>i \<in> P - {p}. f ((h(p := q)) i)) = (\<Sum>i \<in> P - {p}. f (h i))"
    by (intro sum.cong) auto
  moreover have "(\<Sum>i \<in> P. f (h i)) = f (h p) + (\<Sum>i \<in> P - {p}. f (h i))"
    using assms by (simp add: sum.remove)
  ultimately show ?thesis by simp
qed

lemma used_upd:
  assumes "finite P" and "p \<in> P"
  shows "used P (c\<lparr>heap := (heap c)(p := q), n_available := n\<rparr>)
      + (if ds_status (heap c p) = NOT_AVAILABLE then 0 else int (ds_numel (heap c p)))
    = used P c + (if ds_status q = NOT_AVAILABLE then 0 else int (ds_numel q))"
proof -
  have hc: "heap (c\<lparr>heap := (heap c)(p := q), n_available := n\<rparr>) = (heap c)(p := q)" by simp
  show ?thesis
    unfolding used_def hc
    by (rule sum_upd [OF assms, of "\<lambda>p. if ds_status p = NOT_AVAILABLE then 0 else int (ds_numel p)"])
qed

lemma ready_shard: "ready env full S dt P h \<Longrightarrow> p \<in> P \<Longrightarrow> ds_tensor (h p) \<noteq> None"
  by (auto simp: ready_def gatherable_def holds_shards_def)

text \<open>Releasing one parameter, after its list of users has been changed to \<open>A\<close>.\<close>

lemma release_param_ok:
  assumes inv: "coord_inv env full S dt P c" and p: "p \<in> P" "p \<notin> fst ` set (inflight c)"
    and A: "A \<subseteq> active_sub_modules (heap c p)" and fin: "finite P"
    and c1: "c1 = c\<lparr>heap := (heap c)(p := (heap c p)\<lparr>active_sub_modules := A\<rparr>)\<rparr>"
  shows "\<exists>c'. release_param env p c1 = Inr c' \<and> coord_inv env full S dt P c' \<and> coord_inv env full S dt P c1
    \<and> ctl c' = ctl c \<and> drift P c' = drift P c \<and> drift P c1 = drift P c \<and> inflight c' = inflight c
    \<and> active_sub_modules (heap c' p) = A
    \<and> (A = {} \<longrightarrow> ds_status (heap c' p) = NOT_AVAILABLE)
    \<and> released_from c c1 {p} \<and> released_from c c' {p}"
proof -
  let ?q0 = "(heap c p)\<lparr>active_sub_modules := A\<rparr>" and ?q1 = "(heap c p)\<lparr>active_sub_modules := A, pdata := [], ds_status := NOT_AVAILABLE\<rparr>"
  have nf: "ds_status (heap c p) \<noteq> INFLIGHT" using inv p by (auto simp: coord_inv_def)
  have ac: "active_sub_modules (heap c p) \<noteq> {} \<longrightarrow> ds_status (heap c p) = AVAILABLE" using inv p by (simp add: coord_inv_def)
  have av: "ds_status (heap c p) = AVAILABLE \<longrightarrow> pdata (heap c p) = full p" using inv p by (simp add: coord_inv_def)
  have c1': "c1 = c\<lparr>heap := (heap c)(p := ?q0), n_available := n_available c\<rparr>" by (simp add: c1)
  have inv1: "coord_inv env full S dt P c1"
    unfolding c1' by (rule coord_inv_upd_unregistered [OF inv p]) (use nf ac av A in \<open>auto simp: same_static_def\<close>)
  have "used P c1 = used P c" using used_upd [OF fin p(1), where c = c and q = ?q0 and n = "n_available c"] unfolding c1' by (simp split: if_splits)
  then have d1: "drift P c1 = drift P c" by (simp add: drift_def c1)
  have r1: "released_from c c1 {p}" using A by (auto simp: released_from_def c1 same_static_def)
  show ?thesis
  proof (cases "ds_status (heap c p) = AVAILABLE \<and> A = {}")
    case True
    let ?c' = "c\<lparr>heap := (heap c)(p := ?q1), n_available := n_available c - int (ds_numel (heap c p))\<rparr>"
    have "ds_tensor (heap c p) \<noteq> None" using coord_inv_ready [OF inv] p(1) by (rule ready_shard)
    then have "partition_list (c_world env) (c_rank env) (c_fresh env) False [p] (heap c1)
        = Inr (\<lambda>i. if i \<in> set [p] then (heap c1 i)\<lparr>pdata := [], ds_status := NOT_AVAILABLE\<rparr> else heap c1 i)"
      using True by (intro partition_list_free) (auto simp: c1)
    moreover have "(\<lambda>i. if i \<in> set [p] then (heap c1 i)\<lparr>pdata := [], ds_status := NOT_AVAILABLE\<rparr> else heap c1 i)
        = (heap c)(p := ?q1)"
      by (auto simp: c1 fun_eq_iff)
    ultimately have op: "release_param env p c1 = Inr ?c'"
      using True by (simp add: release_param_def c1)
    have inv2: "coord_inv env full S dt P ?c'"
      by (rule coord_inv_upd_unregistered [OF inv p]) (use True in \<open>auto simp: same_static_def\<close>)
    have "used P ?c' + int (ds_numel (heap c p)) = used P c"
      using used_upd [OF fin p(1), where c = c and q = ?q1 and n = "n_available c - int (ds_numel (heap c p))"] True by simp
    then have d2: "drift P ?c' = drift P c" by (simp add: drift_def)
    have "released_from c ?c' {p}" using True by (auto simp: released_from_def same_static_def)
    then show ?thesis using op inv1 inv2 d1 d2 r1 True by (auto simp: ctl_def)
  next
    case False
    then have op: "release_param env p c1 = Inr c1" by (auto simp: release_param_def c1)
    have "A = {} \<longrightarrow> ds_status (heap c1 p) = NOT_AVAILABLE"
      using False nf by (cases "ds_status (heap c p)") (auto simp: c1)
    then show ?thesis using op inv1 d1 r1 by (auto simp: c1 ctl_def)
  qed
qed


lemma released_from_refl: "released_from c c {}"
  by (simp add: released_from_def same_static_def)

lemma released_from_trans:
  assumes a: "released_from c c1 A" and b: "released_from c1 c2 B"
  shows "released_from c c2 (A \<union> B)"
  unfolding released_from_def
proof
  fix i
  show "same_static (heap c i) (heap c2 i)
        \<and> is_external_param (heap c2 i) = is_external_param (heap c i)
        \<and> ds_persist (heap c2 i) = ds_persist (heap c i)
        \<and> active_sub_modules (heap c2 i) \<subseteq> active_sub_modules (heap c i)
        \<and> (i \<notin> A \<union> B \<longrightarrow> active_sub_modules (heap c2 i) = active_sub_modules (heap c i))
        \<and> ((ds_status (heap c2 i) = ds_status (heap c i) \<and> pdata (heap c2 i) = pdata (heap c i))
           \<or> (i \<in> A \<union> B \<and> ds_status (heap c i) = AVAILABLE \<and> active_sub_modules (heap c2 i) = {}
              \<and> ds_status (heap c2 i) = NOT_AVAILABLE \<and> pdata (heap c2 i) = []))"
    using spec [OF a [unfolded released_from_def], of i] spec [OF b [unfolded released_from_def], of i]
    by (auto simp: same_static_def)
qed

lemma release_one_ok:
  assumes inv: "coord_inv env full S dt P c" and p: "p \<in> P" "p \<notin> fst ` set (inflight c)" and fin: "finite P"
  shows "\<exists>c'. release_one env m rel p c = Inr c' \<and> coord_inv env full S dt P c' \<and> ctl c' = ctl c
    \<and> drift P c' = drift P c \<and> inflight c' = inflight c \<and> released_from c c' {p}
    \<and> (\<forall>i. active_sub_modules (heap c' i) = active_sub_modules (heap c i) - (if i = p then {m} else {}))
    \<and> (\<forall>i. (i \<notin> rel \<or> is_external_param (heap c i)) \<longrightarrow> ds_status (heap c' i) = ds_status (heap c i))
    \<and> (p \<in> rel \<and> \<not> is_external_param (heap c p) \<and> active_sub_modules (heap c p) \<subseteq> {m}
        \<longrightarrow> ds_status (heap c' p) = NOT_AVAILABLE)"
proof -
  let ?A = "active_sub_modules (heap c p) - {m}"
  let ?c1 = "c\<lparr>heap := (heap c)(p := (heap c p)\<lparr>active_sub_modules := ?A\<rparr>)\<rparr>"
  obtain c' where c': "release_param env p ?c1 = Inr c'" "coord_inv env full S dt P c'" "coord_inv env full S dt P ?c1"
      "ctl c' = ctl c" "drift P c' = drift P c" "drift P ?c1 = drift P c" "inflight c' = inflight c"
      "active_sub_modules (heap c' p) = ?A" "?A = {} \<longrightarrow> ds_status (heap c' p) = NOT_AVAILABLE"
      "released_from c ?c1 {p}" "released_from c c' {p}"
    using release_param_ok [OF inv p _ fin refl, of ?A] by auto
  have act: "active_sub_modules (heap c' i) = active_sub_modules (heap c i) - (if i = p then {m} else {})" for i
    using spec [OF c'(11) [unfolded released_from_def], of i] c'(8) by auto
  show ?thesis
  proof (cases "p \<in> rel \<and> \<not> is_external_param (heap c p)")
    case True
    have "ds_status (heap c' i) = ds_status (heap c i)" if "i \<notin> rel \<or> is_external_param (heap c i)" for i
      using spec [OF c'(11) [unfolded released_from_def], of i] that True by auto
    then show ?thesis using True c' act by (auto simp: release_one_def)
  next
    case False
    have "ctl ?c1 = ctl c" "inflight ?c1 = inflight c" by (simp_all add: ctl_def)
    moreover have "ds_status (heap ?c1 i) = ds_status (heap c i)" for i by simp
    ultimately show ?thesis using False c'(3,6,10) by (auto simp: release_one_def)
  qed
qed

lemma release_loop_ok:
  assumes "coord_inv env full S dt P c" and "set ps \<subseteq> P" and "set ps \<inter> fst ` set (inflight c) = {}"
    and "finite P"
  shows "\<exists>c'. foldE (release_one env m rel) ps c = Inr c' \<and> coord_inv env full S dt P c' \<and> ctl c' = ctl c
    \<and> drift P c' = drift P c \<and> inflight c' = inflight c \<and> released_from c c' (set ps)
    \<and> (\<forall>i. active_sub_modules (heap c' i) = active_sub_modules (heap c i) - (if i \<in> set ps then {m} else {}))
    \<and> (\<forall>i. (i \<notin> rel \<or> is_external_param (heap c i)) \<longrightarrow> ds_status (heap c' i) = ds_status (heap c i))
    \<and> (\<forall>p \<in> set ps. p \<in> rel \<and> \<not> is_external_param (heap c p) \<and> active_sub_modules (heap c p) \<subseteq> {m}
        \<longrightarrow> ds_status (heap c' p) = NOT_AVAILABLE)"
  using assms
proof (induction ps arbitrary: c)
  case Nil
  then show ?case by (simp add: released_from_refl)
next
  case (Cons p ps)
  obtain c1 where c1: "release_one env m rel p c = Inr c1" "coord_inv env full S dt P c1" "ctl c1 = ctl c"
      "drift P c1 = drift P c" "inflight c1 = inflight c" "released_from c c1 {p}"
      "\<forall>i. active_sub_modules (heap c1 i) = active_sub_modules (heap c i) - (if i = p then {m} else {})"
      "\<forall>i. (i \<notin> rel \<or> is_external_param (heap c i)) \<longrightarrow> ds_status (heap c1 i) = ds_status (heap c i)"
      "p \<in> rel \<and> \<not> is_external_param (heap c p) \<and> active_sub_modules (heap c p) \<subseteq> {m}
        \<longrightarrow> ds_status (heap c1 p) = NOT_AVAILABLE"
    using release_one_ok [OF Cons.prems(1), of p m rel] Cons.prems(2-4) by auto
  obtain c2 where c2: "foldE (release_one env m rel) ps c1 = Inr c2" "coord_inv env full S dt P c2" "ctl c2 = ctl c1"
      "drift P c2 = drift P c1" "inflight c2 = inflight c1" "released_from c1 c2 (set ps)"
      "\<forall>i. active_sub_modules (heap c2 i) = active_sub_modules (heap c1 i) - (if i \<in> set ps then {m} else {})"
      "\<forall>i. (i \<notin> rel \<or> is_external_param (heap c1 i)) \<longrightarrow> ds_status (heap c2 i) = ds_status (heap c1 i)"
      "\<forall>p \<in> set ps. p \<in> rel \<and> \<not> is_external_param (heap c1 p) \<and> active_sub_modules (heap c1 p) \<subseteq> {m}
        \<longrightarrow> ds_status (heap c2 p) = NOT_AVAILABLE"
    using Cons.IH [OF c1(2)] Cons.prems(2-4) c1(5) by auto
  have rel1: "is_external_param (heap c1 i) = is_external_param (heap c i)"
      "active_sub_modules (heap c1 i) \<subseteq> active_sub_modules (heap c i)" for i
    using c1(6) by (auto simp: released_from_def)
  have rel2: "active_sub_modules (heap c2 i) \<subseteq> active_sub_modules (heap c1 i)" 
      "ds_status (heap c1 i) = NOT_AVAILABLE \<Longrightarrow> ds_status (heap c2 i) = NOT_AVAILABLE" for i
    using spec [OF c2(6) [unfolded released_from_def], of i] by auto
  have "released_from c c2 (set (p # ps))"
    using released_from_trans [OF c1(6) c2(6)] by simp
  moreover have "\<forall>i. active_sub_modules (heap c2 i)
      = active_sub_modules (heap c i) - (if i \<in> set (p # ps) then {m} else {})"
    using c1(7) c2(7) by auto
  moreover have "\<forall>i. (i \<notin> rel \<or> is_external_param (heap c i)) \<longrightarrow> ds_status (heap c2 i) = ds_status (heap c i)"
    using c1(8) c2(8) rel1(1) by auto
  moreover have "\<forall>q \<in> set (p # ps). q \<in> rel \<and> \<not> is_external_param (heap c q) \<and> active_sub_modules (heap c q) \<subseteq> {m}
        \<longrightarrow> ds_status (heap c2 q) = NOT_AVAILABLE"
    using c1(9) c2(9) rel1 rel2(2) by fastforce
  ultimately show ?case using c1 c2 by simp
qed

lemma release_sub_module_ok:
  assumes inv: "coord_inv env full S dt P c" and "set (c_params env m) \<subseteq> P"
    and "set (c_params env m) \<inter> fst ` set (inflight c) = {}" and "finite P"
  shows "\<exists>c' rel. release_sub_module env m c = Inr c' \<and> coord_inv env full S dt P c' \<and> ctl c' = ctl c
    \<and> drift P c' = drift P c \<and> inflight c' = inflight c \<and> released_from c c' (set (c_params env m))
    \<and> (if mode c = COMPLETE then params_to_release env m (step_id c) c = Inr rel else rel = set (c_params env m))
    \<and> (\<forall>i. active_sub_modules (heap c' i)
          = active_sub_modules (heap c i) - (if i \<in> set (c_params env m) then {m} else {}))
    \<and> (\<forall>i. (i \<notin> rel \<or> is_external_param (heap c i)) \<longrightarrow> ds_status (heap c' i) = ds_status (heap c i))
    \<and> (\<forall>p \<in> set (c_params env m). p \<in> rel \<and> \<not> is_external_param (heap c p) \<and> active_sub_modules (heap c p) \<subseteq> {m}
        \<longrightarrow> ds_status (heap c' p) = NOT_AVAILABLE)"
proof -
  have "\<exists>rel. if mode c = COMPLETE then params_to_release env m (step_id c) c = Inr rel
      else rel = set (c_params env m)"
    by (cases "mode c = COMPLETE") (simp_all add: params_to_release_def Let_def)
  then obtain rel where rel: "if mode c = COMPLETE then params_to_release env m (step_id c) c = Inr rel
      else rel = set (c_params env m)" by blast
  then have eq: "foldE (release_one env m rel) (c_params env m) c = release_sub_module env m c"
    by (auto simp: release_sub_module_def split: if_splits)
  show ?thesis
    using release_loop_ok [OF assms, of m rel] rel unfolding eq
    by (elim exE conjE) (intro exI conjI; assumption)
qed

end
