(* ===== verification/Replay.thy ===== *)
theory Replay
  imports CoordInv
begin

text \<open>
  The trace: what is recorded in one step (\<open>param_trace\<close>), and that replaying the same module
  sequence consumes exactly it. \<open>latest\<close> is the value the code keeps in
  \<^verbatim>\<open>__most_recent_step_id_param_fetched_for\<close> after a prefix of the trace has left the queue.
\<close>

section \<open>The canonical trace\<close>

fun param_trace :: "'a cenv \<Rightarrow> nat \<Rightarrow> nat list \<Rightarrow> (nat \<times> nat) list" where
  "param_trace env k [] = []"
| "param_trace env k (m # ms) = map (\<lambda>p. (p, k)) (sort (remdups (c_params env m))) @ param_trace env (Suc k) ms"

lemma param_trace_set:
  "(p, s) \<in> set (param_trace env k ms) \<longleftrightarrow> k \<le> s \<and> s < k + length ms \<and> p \<in> set (c_params env (ms ! (s - k)))"
proof (induction ms arbitrary: k)
  case Nil
  then show ?case by auto
next
  case (Cons m ms)
  show ?case
  proof (cases "s = k")
    case False
    then have "Suc k \<le> s \<and> s < Suc k + length ms \<and> p \<in> set (c_params env (ms ! (s - Suc k)))
        \<longleftrightarrow> k \<le> s \<and> s < k + length (m # ms) \<and> p \<in> set (c_params env ((m # ms) ! (s - k)))"
      by (cases "Suc k \<le> s") (auto simp: nth_Cons' Suc_diff_Suc)
    then show ?thesis using False Cons.IH [of "Suc k"] by auto
  qed (use Cons.IH [of "Suc k"] in auto)
qed

lemma param_trace_sorted: "sorted (map snd (param_trace env k ms))"
proof (induction ms arbitrary: k)
  case Nil
  then show ?case by simp
next
  case (Cons m ms)
  have "\<forall>x \<in> set (map snd (param_trace env (Suc k) ms)). k \<le> x"
    by (auto simp: param_trace_set)
  with Cons.IH [of "Suc k"] show ?case by (auto simp: sorted_append comp_def map_replicate_const)
qed

lemma param_trace_distinct: "distinct (param_trace env k ms)"
proof (induction ms arbitrary: k)
  case Nil
  then show ?case by simp
next
  case (Cons m ms)
  have "set (map (\<lambda>p. (p, k)) (sort (remdups (c_params env m)))) \<inter> set (param_trace env (Suc k) ms) = {}"
    by (auto simp: param_trace_set)
  then show ?case using Cons.IH [of "Suc k"] by (auto simp: distinct_map inj_on_def)
qed

text \<open>The steps at which a module was recorded.\<close>

fun occurrences :: "nat \<Rightarrow> nat list \<Rightarrow> nat \<Rightarrow> nat list" where
  "occurrences k [] m = []"
| "occurrences k (x # xs) m = (if x = m then [k] else []) @ occurrences (Suc k) xs m"

lemma occurrences_snoc:
  "occurrences k (xs @ [y]) m = occurrences k xs m @ (if y = m then [k + length xs] else [])"
  by (induction xs arbitrary: k) auto

lemma construct_trace:
  assumes "mode c = RECORD" and "module_fetched_for c = occurrences k ms"
  shows "\<exists>mf. foldE (record_parameters env) ms c
    = Inr (c\<lparr>module_fetched_for := mf, param_order := param_order c @ param_trace env k ms\<rparr>)"
  using assms
proof (induction ms arbitrary: c k)
  case Nil
  then show ?case by (auto intro: exI [of _ "module_fetched_for c"])
next
  case (Cons m ms)
  let ?c = "c\<lparr>module_fetched_for := (module_fetched_for c)(m := occurrences (Suc k) ms m),
              param_order := param_order c @ map (\<lambda>p. (p, k)) (sort (remdups (c_params env m)))\<rparr>"
  have one: "record_parameters env m c = Inr ?c"
    using Cons.prems by (simp add: record_parameters_def)
  have "module_fetched_for ?c = occurrences (Suc k) ms"
    using Cons.prems(2) by (auto simp: fun_eq_iff)
  then obtain mf where "foldE (record_parameters env) ms ?c
    = Inr (?c\<lparr>module_fetched_for := mf, param_order := param_order ?c @ param_trace env (Suc k) ms\<rparr>)"
    using Cons.IH [of ?c "Suc k"] Cons.prems(1) by auto
  then show ?case using one by auto
qed

section \<open>The queue\<close>

definition latest :: "(nat \<times> nat) list \<Rightarrow> nat \<Rightarrow> int" where
  "latest xs = fold (\<lambda>(p, s) mr. mr(p := int s)) xs (\<lambda>_. never_fetched)"

lemma latest_snoc: "latest (xs @ [(p, s)]) = (latest xs)(p := int s)"
  by (simp add: latest_def)

lemma latest_Nil: "latest [] = (\<lambda>_. never_fetched)"
  by (simp add: latest_def)

lemma latest_cases: "latest xs p = never_fetched \<or> (\<exists>s. (p, s) \<in> set xs \<and> latest xs p = int s)"
proof (induction xs rule: rev_induct)
  case Nil
  then show ?case by (simp add: latest_Nil)
next
  case (snoc x xs)
  then show ?case by (cases x) (auto simp: latest_snoc)
qed

lemma latest_ge: "sorted (map snd xs) \<Longrightarrow> (p, s) \<in> set xs \<Longrightarrow> int s \<le> latest xs p"
proof (induction xs rule: rev_induct)
  case Nil
  then show ?case by simp
next
  case (snoc x xs)
  obtain p' s' where x: "x = (p', s')" by (cases x)
  have srt: "sorted (map snd xs)" "\<forall>e \<in> set xs. snd e \<le> s'" using snoc.prems(1) by (auto simp: x sorted_append)
  show ?case
  proof (cases "p' = p")
    case True
    then have "s \<le> s'" using snoc.prems(2) srt(2) by (auto simp: x)
    then show ?thesis using True by (simp add: x latest_snoc)
  next
    case False
    then show ?thesis using snoc srt(1) by (auto simp: x latest_snoc)
  qed
qed

lemma latest_less_iff:
  assumes "sorted (map snd xs)"
  shows "latest xs p < int k \<longleftrightarrow> (\<forall>s. (p, s) \<in> set xs \<longrightarrow> s < k)"
proof
  assume "latest xs p < int k"
  then show "\<forall>s. (p, s) \<in> set xs \<longrightarrow> s < k" using latest_ge [OF assms] by fastforce
next
  assume "\<forall>s. (p, s) \<in> set xs \<longrightarrow> s < k"
  then show "latest xs p < int k" using latest_cases [of xs p] by (auto simp: never_fetched_def)
qed

text \<open>Taking entries with the maximum of both steps is the same, since the trace is sorted.\<close>

definition bump :: "nat \<times> nat \<Rightarrow> (nat \<Rightarrow> int) \<Rightarrow> (nat \<Rightarrow> int)" where
  "bump e mr = mr(fst e := max (mr (fst e)) (int (snd e)))"

lemma fold_max_latest:
  assumes "sorted (map snd (xs @ ys))"
  shows "fold bump ys (latest xs) = latest (xs @ ys)"
  using assms
proof (induction ys arbitrary: xs)
  case Nil
  then show ?case by simp
next
  case (Cons y ys)
  obtain p s where y: "y = (p, s)" by (cases y)
  have "latest xs p \<le> int s"
    using latest_cases [of xs p] Cons.prems by (auto simp: never_fetched_def y sorted_append)
  then have "bump y (latest xs) = latest (xs @ [y])" by (simp add: y bump_def latest_snoc max_absorb2)
  then show ?case using Cons.IH [of "xs @ [y]"] Cons.prems by simp
qed

lemma discard_loop_exact:
  assumes "distinct (map fst front)" and "set ds \<inter> fst ` set front = {}"
  shows "discard_loop (length ds + length front) (front @ rest) ds (latest xs)
    = (rest, rev (map fst front) @ ds, latest (xs @ front))"
  using assms
proof (induction front arbitrary: ds xs)
  case Nil
  then show ?case by (cases rest) auto
next
  case (Cons e front)
  obtain p s where e: "e = (p, s)" by (cases e)
  have "p \<notin> set ds" using Cons.prems(2) by (auto simp: e)
  then have "List.insert p ds = p # ds" by (simp add: List.insert_def)
  moreover have "discard_loop (length (p # ds) + length front) (front @ rest) (p # ds) (latest (xs @ [e]))
    = (rest, rev (map fst front) @ p # ds, latest ((xs @ [e]) @ front))"
    using Cons.prems by (intro Cons.IH) (auto simp: e)
  ultimately show ?case by (simp add: e latest_snoc)
qed

lemma prefetch_loop_spec:
  assumes "prefetch_loop h limit q ps n mr = (q', ps', mr')" and "distinct ps"
    and "n = (\<Sum>p \<leftarrow> ps. int (ds_numel (h p)))"
  shows "\<exists>popped. q = popped @ q' \<and> mr' = fold bump popped mr
    \<and> set ps \<subseteq> set ps' \<and> set ps' \<subseteq> set ps \<union> fst ` set popped \<and> distinct ps'
    \<and> (\<forall>p \<in> set ps' - set ps. ds_status (h p) = NOT_AVAILABLE)
    \<and> (ps' = ps \<or> (\<exists>qs p. ps' = qs @ [p] \<and> (\<Sum>p \<leftarrow> qs. int (ds_numel (h p))) < limit))"
  using assms
proof (induction h limit q ps n mr rule: prefetch_loop.induct)
  case (1 h limit ps n mr)
  then show ?case by auto
next
  case (2 h limit p s q ps n mr)
  let ?mr = "mr(p := max (mr p) (int s))"
  have b: "?mr = bump (p, s) mr" by (simp add: bump_def)
  show ?case
  proof (cases "n < limit")
    case False
    then show ?thesis using 2 by (auto intro: exI [of _ "[]"])
  next
    case lim: True
    show ?thesis
    proof (cases "ds_status (h p) = NOT_AVAILABLE \<and> p \<notin> set ps")
      case True
      then have "prefetch_loop h limit q (ps @ [p]) (n + int (ds_numel (h p))) ?mr = (q', ps', mr')"
        using "2.prems"(1) lim by (simp add: Let_def)
      from "2.IH"(1) [OF lim refl refl True this, unfolded b] "2.prems"(2,3) True obtain popped where
        ih: "q = popped @ q'" "mr' = fold bump popped (bump (p, s) mr)"
          "set (ps @ [p]) \<subseteq> set ps'" "set ps' \<subseteq> set (ps @ [p]) \<union> fst ` set popped" "distinct ps'"
          "\<forall>p \<in> set ps' - set (ps @ [p]). ds_status (h p) = NOT_AVAILABLE"
          "ps' = ps @ [p] \<or> (\<exists>qs p. ps' = qs @ [p] \<and> (\<Sum>p \<leftarrow> qs. int (ds_numel (h p))) < limit)"
        by (elim meta_impE) (simp_all, blast)
      moreover have "\<exists>qs p. ps' = qs @ [p] \<and> (\<Sum>p \<leftarrow> qs. int (ds_numel (h p))) < limit"
        using ih(7) lim "2.prems"(3) by auto
      ultimately show ?thesis
        using True by (intro exI [of _ "(p, s) # popped"]) auto
    next
      case False
      then have "prefetch_loop h limit q ps n ?mr = (q', ps', mr')"
        using "2.prems"(1) lim by (auto simp add: Let_def)
      from "2.IH"(2) [OF lim refl refl False this, unfolded b] "2.prems"(2,3) obtain popped where
        "q = popped @ q'" "mr' = fold bump popped (bump (p, s) mr)"
          "set ps \<subseteq> set ps'" "set ps' \<subseteq> set ps \<union> fst ` set popped" "distinct ps'"
          "\<forall>p \<in> set ps' - set ps. ds_status (h p) = NOT_AVAILABLE"
          "ps' = ps \<or> (\<exists>qs p. ps' = qs @ [p] \<and> (\<Sum>p \<leftarrow> qs. int (ds_numel (h p))) < limit)"
        by auto
      then show ?thesis by (intro exI [of _ "(p, s) # popped"]) auto
    qed
  qed
qed


section \<open>Advancing the queue\<close>

lemma sorted_front:
  assumes "sorted (map snd q)" and "\<forall>e \<in> set q. k \<le> snd e"
  shows "\<forall>e \<in> set (dropWhile (\<lambda>e. snd e = k) q). Suc k \<le> snd e"
  using assms
proof (induction q)
  case Nil
  then show ?case by simp
next
  case (Cons e q)
  show ?case
  proof (cases "snd e = k")
    case True
    then show ?thesis using Cons by simp
  next
    case False
    then have "Suc k \<le> snd e" using Cons.prems(2) by auto
    then show ?thesis using False Cons.prems(1) by (auto intro: le_trans)
  qed
qed

definition cut :: "'a coord \<Rightarrow> (nat \<times> nat) list \<Rightarrow> (nat \<times> nat) list \<Rightarrow> bool" where
  "cut c popped q \<longleftrightarrow> param_order c = popped @ q \<and> param_queue c = Some q \<and> most_recent c = latest popped"

text \<open>
  The entries of the current step at the front of the queue are exactly the parameters of the
  module that were not fetched at this step before.
\<close>

lemma front_of_queue:
  assumes srt: "sorted (map snd q)" and ge: "\<forall>e \<in> set q. (k :: nat) \<le> snd e"
  shows "(p, k) \<in> set q \<longleftrightarrow> p \<in> fst ` set (takeWhile (\<lambda>e. snd e = k) q)"
proof
  assume "(p, k) \<in> set q"
  then have "(p, k) \<in> set (takeWhile (\<lambda>e. snd e = k) q) \<union> set (dropWhile (\<lambda>e. snd e = k) q)"
    by (metis set_append takeWhile_dropWhile_id)
  then show "p \<in> fst ` set (takeWhile (\<lambda>e. snd e = k) q)" using sorted_front [OF srt ge] by force
qed (auto dest: set_takeWhileD)

lemma front_distinct: "distinct q \<Longrightarrow> distinct (map fst (takeWhile (\<lambda>e. snd e = k) q))"
proof -
  assume "distinct q"
  then have "distinct (takeWhile (\<lambda>e. snd e = k) q)" by (simp add: distinct_takeWhile)
  moreover have "inj_on fst (set (takeWhile (\<lambda>e. snd e = k) q))"
    by (rule inj_onI) (metis prod_eqI set_takeWhileD)
  ultimately show ?thesis by (simp add: distinct_map)
qed

lemma not_yet_fetched:
  assumes srt: "sorted (map snd (popped @ q))" and d: "distinct (popped @ q)" and ge: "\<forall>e \<in> set q. k \<le> snd e"
    and ps: "\<And>p. (p, k) \<in> set (popped @ q) \<longleftrightarrow> p \<in> set ps"
  shows "set (filter (\<lambda>p. latest popped p < int k) ps) = fst ` set (takeWhile (\<lambda>e. snd e = k) q)"
proof -
  have srts: "sorted (map snd popped)" "sorted (map snd q)" "\<forall>e \<in> set popped. \<forall>f \<in> set q. snd e \<le> snd f"
    using srt by (auto simp: sorted_append)
  have "latest popped p < int k \<and> p \<in> set ps \<longleftrightarrow> (p, k) \<in> set q" for p
  proof
    assume "latest popped p < int k \<and> p \<in> set ps"
    then show "(p, k) \<in> set q" using latest_less_iff [OF srts(1)] ps [of p] by auto
  next
    assume q: "(p, k) \<in> set q"
    have "s < k" if "(p, s) \<in> set popped" for s
    proof -
      have "s \<le> k" using srts(3) that q by force
      moreover have "s \<noteq> k" using d that q by auto
      ultimately show ?thesis by simp
    qed
    then show "latest popped p < int k \<and> p \<in> set ps" using latest_less_iff [OF srts(1)] ps [of p] q by auto
  qed
  then show ?thesis using front_of_queue [OF srts(2) ge] by auto
qed

lemma advance_queue_ok:
  assumes trace: "param_order c = param_trace env 0 (submodule_order c)" and cut: "cut c popped q"
    and ge: "\<forall>e \<in> set q. step_id c \<le> snd e" and k: "step_id c < length (submodule_order c)"
    and ps: "set ps = set (c_params env (submodule_order c ! step_id c))" "distinct ps"
  shows "\<exists>popped' q'. advance_queue ps c = Inr (c\<lparr>param_queue := Some q', most_recent := latest popped'\<rparr>)
    \<and> param_order c = popped' @ q' \<and> (\<forall>e \<in> set q'. Suc (step_id c) \<le> snd e)"
proof -
  let ?k = "step_id c"
  let ?front = "takeWhile (\<lambda>e. snd e = ?k) q" and ?rest = "dropWhile (\<lambda>e. snd e = ?k) q"
  let ?fetched = "filter (\<lambda>p. most_recent c p < int ?k) ps"
  have order: "param_order c = popped @ q" "param_queue c = Some q" "most_recent c = latest popped"
    using cut by (simp_all add: cut_def)
  have srt: "sorted (map snd (popped @ q))" using param_trace_sorted [of env 0 "submodule_order c"] trace order by simp
  then have srtq: "sorted (map snd q)" by (simp add: sorted_append)
  have dist: "distinct (popped @ q)" using param_trace_distinct [of env 0 "submodule_order c"] trace order by simp
  have mem: "(p, ?k) \<in> set (popped @ q) \<longleftrightarrow> p \<in> set ps" for p
    using param_trace_set [of p ?k env 0 "submodule_order c"] trace order k ps(1) by simp
  have same: "set ?fetched = fst ` set ?front"
    unfolding order by (rule not_yet_fetched [OF srt dist ge mem])
  have dfront: "distinct (map fst ?front)" using dist by (intro front_distinct) simp
  have len: "length ?fetched = length ?front"
    using distinct_card [of ?fetched] distinct_card [OF dfront] ps(2) same by simp
  have "discard_loop (length ?front) q [] (latest popped) = (?rest, rev (map fst ?front), latest (popped @ ?front))"
    using discard_loop_exact [of ?front "[]" ?rest popped] dfront by simp
  with same len have "advance_queue ps c = Inr (c\<lparr>param_queue := Some ?rest, most_recent := latest (popped @ ?front)\<rparr>)"
    using order by (simp add: advance_queue_def Let_def)
  moreover have "param_order c = (popped @ ?front) @ ?rest" using order(1) by simp
  ultimately show ?thesis using sorted_front [OF srtq ge] by blast
qed

section \<open>Prefetching\<close>

definition set_order_ok :: "'a cenv \<Rightarrow> bool" where
  "set_order_ok env \<longleftrightarrow> (\<forall>xs. set (c_set_order env xs) = set xs \<and> distinct (c_set_order env xs))"

definition env_ok :: "'a cenv \<Rightarrow> nat set \<Rightarrow> bool" where
  "env_ok env P \<longleftrightarrow> \<not> c_full_transfer env \<and> set_order_ok env \<and> finite P \<and> (\<forall>m. set (c_params env m) \<subseteq> P)"

lemma env_ok_params: "env_ok env P \<Longrightarrow> p \<in> set (c_params env m) \<Longrightarrow> p \<in> P"
  by (auto simp: env_ok_def)

definition ctl0 where
  "ctl0 c = (step_id c, mode c, submodule_order c, param_order c, module_fetched_for c,
             max_n_available c, max_reuse_dist c, prefetch_bucket_sz c)"

lemma ctl_ctl0: "ctl c' = ctl c \<Longrightarrow> ctl0 c' = ctl0 c"
  by (simp add: ctl_def ctl0_def)

text \<open>
  The heap after launches only: users and values in use are untouched, only unavailable
  parameters change, and they go in flight.
\<close>

definition only_launched :: "'a coord \<Rightarrow> 'a coord \<Rightarrow> bool" where
  "only_launched c c' \<longleftrightarrow>
     (\<forall>i. heap c' i = heap c i
        \<or> (ds_status (heap c i) = NOT_AVAILABLE \<and> (\<exists>v. heap c' i = (heap c i)\<lparr>pdata := v, ds_status := INFLIGHT\<rparr>)))"

lemma coord_inv_queue:
  "coord_inv env full S dt P (c\<lparr>param_queue := q, most_recent := mr\<rparr>) = coord_inv env full S dt P c"
  by (simp add: coord_inv_def entry_ok_def)

lemma coord_inv_step:
  "coord_inv env full S dt P (c\<lparr>step_id := k\<rparr>) = coord_inv env full S dt P c"
  by (simp add: coord_inv_def entry_ok_def)

lemma used_heap: "heap c' = heap c \<Longrightarrow> used P c' = used P c"
  by (simp only: used_def)

lemma drift_queue: "drift P (c\<lparr>param_queue := q, most_recent := mr\<rparr>) = drift P c"
  by (simp add: drift_def used_heap [of "c\<lparr>param_queue := q, most_recent := mr\<rparr>" c])

lemma drift_step: "drift P (c\<lparr>step_id := k\<rparr>) = drift P c"
  by (simp add: drift_def used_heap [of "c\<lparr>step_id := k\<rparr>" c])

text \<open>A round of prefetching stops once it has reached its limit: the last parameter may go over it.\<close>

lemma prefetch_budget:
  assumes limit: "limit = min (mx - n) b" and n': "n' = n + (\<Sum>p \<leftarrow> ps. int (f p))" and P: "set ps \<subseteq> P"
    and last_over: "ps = [] \<or> (\<exists>qs p. ps = qs @ [p] \<and> (\<Sum>p \<leftarrow> qs. int (f p)) < limit)"
  shows "n' = n \<or> (\<exists>p \<in> P. n' < min mx (n + b) + int (f p))"
proof (cases "ps = []")
  case True
  then show ?thesis using n' by simp
next
  case False
  then obtain qs p where qs: "ps = qs @ [p]" "(\<Sum>p \<leftarrow> qs. int (f p)) < limit" using last_over by auto
  then have "p \<in> P" "n' = n + (\<Sum>p \<leftarrow> qs. int (f p)) + int (f p)" using P n' by auto
  then show ?thesis using qs(2) limit by (intro disjI2 bexI [of _ p]) (auto simp: min_def split: if_splits)
qed

lemma prefetch_ok:
  assumes inv: "coord_inv env full S dt P c" and env: "env_ok env P" and cut: "cut c popped q"
    and srt: "sorted (map snd (param_order c))" and sub: "fst ` set (param_order c) \<subseteq> P"
  shows "\<exists>c' pp q'. prefetch env c = Inr c' \<and> coord_inv env full S dt P c' \<and> ctl0 c' = ctl0 c
    \<and> drift P c' = drift P c \<and> q = pp @ q' \<and> cut c' (popped @ pp) q'
    \<and> fst ` set (inflight c') \<subseteq> fst ` set (inflight c) \<union> fst ` set pp \<and> only_launched c c'
    \<and> (n_available c' = n_available c \<or> (\<exists>p \<in> P. n_available c' <
         min (max_n_available c) (n_available c + prefetch_bucket_sz c) + int (ds_numel (heap c p))))"
proof (cases "prefetch_bucket_sz c > 0")
  case False
  then show ?thesis using inv cut
    by (intro exI [of _ c] exI [of _ "[]"] exI [of _ q]) (simp add: prefetch_def only_launched_def)
next
  case True
  have order: "param_order c = popped @ q" "param_queue c = Some q" "most_recent c = latest popped"
    using cut by (simp_all add: cut_def)
  let ?limit = "min (max_n_available c - n_available c) (prefetch_bucket_sz c)"
  obtain q' ps' mr' where pl: "prefetch_loop (heap c) ?limit q [] 0 (latest popped) = (q', ps', mr')"
    by (metis prod_cases3)
  obtain pp where pp: "q = pp @ q'" "mr' = fold bump pp (latest popped)" "set ps' \<subseteq> fst ` set pp" "distinct ps'"
      "\<forall>p \<in> set ps'. ds_status (heap c p) = NOT_AVAILABLE"
      "ps' = [] \<or> (\<exists>qs p. ps' = qs @ [p] \<and> (\<Sum>p \<leftarrow> qs. int (ds_numel (heap c p))) < ?limit)"
    using prefetch_loop_spec [OF pl] by auto
  have mr: "mr' = latest (popped @ pp)"
    using srt order(1) pp(1) by (simp only: pp(2)) (intro fold_max_latest, simp add: sorted_append)
  let ?c1 = "c\<lparr>param_queue := Some q', most_recent := latest (popped @ pp)\<rparr>"
  let ?ps = "c_set_order env ps'"
  have so: "set ?ps = set ps'" "distinct ?ps" using env by (auto simp: env_ok_def set_order_ok_def)
  have psP: "set ?ps \<subseteq> P" using so(1) pp(1,3) sub order(1) by auto
  have na: "not_available ?c1 ?ps = ?ps" using pp(5) so(1) by (simp add: not_available_def filter_True)
  obtain c' where c': "all_gather_params env ?ps ?c1 = Inr c'" "coord_inv env full S dt P c'" "ctl c' = ctl ?c1"
      "drift P c' = drift P ?c1"
      "\<forall>i. if i \<in> set ?ps then \<exists>v. heap c' i = (heap ?c1 i)\<lparr>pdata := v, ds_status := INFLIGHT\<rparr> else heap c' i = heap ?c1 i"
      "fst ` set (inflight c') = fst ` set (inflight ?c1) \<union> set ?ps"
      "n_available c' = n_available ?c1 + (\<Sum>p \<leftarrow> ?ps. int (ds_numel (heap ?c1 p)))"
    using all_gather_params_ok [of env full S dt P ?c1 ?ps] inv psP so(2) env unfolding na by (auto simp: env_ok_def coord_inv_queue)
  have op: "prefetch env c = Inr c'"
    using True order pl c'(1) by (simp add: prefetch_def Let_def mr)
  have ol: "only_launched c c'"
    unfolding only_launched_def
  proof
    fix i
    show "heap c' i = heap c i \<or> (ds_status (heap c i) = NOT_AVAILABLE \<and> (\<exists>v. heap c' i = (heap c i)\<lparr>pdata := v, ds_status := INFLIGHT\<rparr>))"
      using spec [OF c'(5), of i] pp(5) so(1) by (cases "i \<in> set ?ps") auto
  qed
  have "n_available c' = n_available c + (\<Sum>p \<leftarrow> ps'. int (ds_numel (heap c p)))"
    using c'(7) so pp(4) by (simp add: sum_list_distinct_conv_sum_set)
  then have budget: "n_available c' = n_available c \<or> (\<exists>p \<in> P. n_available c' <
         min (max_n_available c) (n_available c + prefetch_bucket_sz c) + int (ds_numel (heap c p)))"
    by (rule prefetch_budget [OF refl]) (use psP so(1) pp(6) in auto)
  have "cut c' (popped @ pp) q'" "ctl0 c' = ctl0 c" "drift P c' = drift P c"
    using c'(3,4) order(1) pp(1) by (simp_all add: cut_def ctl_def ctl0_def drift_queue)
  moreover have "fst ` set (inflight c') \<subseteq> fst ` set (inflight c) \<union> fst ` set pp"
    using c'(6) so(1) pp(3) by auto
  ultimately show ?thesis using op c'(2) pp(1) ol budget by blast
qed


section \<open>Fetching a module\<close>

definition recording :: "'a coord \<Rightarrow> bool" where
  "recording c \<longleftrightarrow> mode c = RECORD \<and> inflight c = [] \<and> step_id c = length (submodule_order c)
     \<and> module_fetched_for c = occurrences 0 (submodule_order c)"

definition replaying :: "'a cenv \<Rightarrow> 'a coord \<Rightarrow> bool" where
  "replaying env c \<longleftrightarrow> mode c = COMPLETE \<and> param_order c = param_trace env 0 (submodule_order c)
     \<and> (\<exists>popped q. cut c popped q \<and> (\<forall>e \<in> set q. step_id c \<le> snd e))
     \<and> (\<forall>p \<in> fst ` set (inflight c). \<exists>s. step_id c \<le> s \<and> (p, s) \<in> set (param_order c))"

text \<open>The first two phases: launch what is missing, wait for what is needed.\<close>

lemma fetch_core:
  assumes inv: "coord_inv env full S dt P c" and env: "env_ok env P"
  shows "\<exists>c1 c2. all_gather_params env (c_set_order env (c_params env m)) c = Inr c1
    \<and> foldE (fetch_one env m) (c_set_order env (c_params env m)) c1 = Inr c2
    \<and> coord_inv env full S dt P c2 \<and> ctl c2 = ctl c \<and> drift P c2 = drift P c
    \<and> (\<forall>i. active_sub_modules (heap c2 i) =
          (if i \<in> set (c_params env m) then insert m (active_sub_modules (heap c i)) else active_sub_modules (heap c i)))
    \<and> (\<forall>p \<in> set (c_params env m). ds_status (heap c2 p) = AVAILABLE)
    \<and> fst ` set (inflight c2) = fst ` set (inflight c) - set (c_params env m)
    \<and> (\<forall>i. ds_numel (heap c2 i) = ds_numel (heap c i))"
proof -
  let ?ps = "c_set_order env (c_params env m)"
  have so: "set ?ps = set (c_params env m)" "distinct ?ps" "set ?ps \<subseteq> P" "\<not> c_full_transfer env" "finite P"
    using env by (auto simp: env_ok_def set_order_ok_def)
  obtain c1 where c1: "all_gather_params env ?ps c = Inr c1" "coord_inv env full S dt P c1" "ctl c1 = ctl c"
      "drift P c1 = drift P c"
      "\<forall>i. if i \<in> set (not_available c ?ps) then \<exists>v. heap c1 i = (heap c i)\<lparr>pdata := v, ds_status := INFLIGHT\<rparr> else heap c1 i = heap c i"
      "fst ` set (inflight c1) = fst ` set (inflight c) \<union> set (not_available c ?ps)"
    using all_gather_params_ok [OF inv so(3,2,4,5)] by blast
  have h1: "active_sub_modules (heap c1 i) = active_sub_modules (heap c i)" "ds_numel (heap c1 i) = ds_numel (heap c i)" for i
    using spec [OF c1(5), of i] by (auto split: if_splits)
  have st: "ds_status (heap c1 p) \<noteq> NOT_AVAILABLE" if "p \<in> set ?ps" for p
    using spec [OF c1(5), of p] that by (auto simp: not_available_def split: if_splits)
  obtain c2 where c2: "foldE (fetch_one env m) ?ps c1 = Inr c2" "coord_inv env full S dt P c2" "ctl c2 = ctl c1"
      "n_available c2 = n_available c1" "fetched_set c1 c2 m (set ?ps)"
      "\<forall>p \<in> set ?ps. ds_status (heap c2 p) = AVAILABLE"
      "fst ` set (inflight c2) = fst ` set (inflight c1) - set ?ps"
    using fetch_loop_ok [OF c1(2) so(3) st] by blast
  have "drift P c2 = drift P c" using c1(4) c2(4) fetched_set_used [OF c2(5)] by (simp add: drift_def)
  moreover have "active_sub_modules (heap c2 i) =
      (if i \<in> set (c_params env m) then insert m (active_sub_modules (heap c i)) else active_sub_modules (heap c i))"
      "ds_numel (heap c2 i) = ds_numel (heap c i)" for i
    using spec [OF c2(5) [unfolded fetched_set_def], of i] h1 so(1) by (auto simp: same_static_def)
  moreover have "fst ` set (inflight c2) = fst ` set (inflight c) - set (c_params env m)"
    using c1(6) c2(7) so(1) by (auto simp: not_available_def)
  ultimately show ?thesis using c1(1,3) c2(1-3,6) so(1) by auto
qed

text \<open>While a trace is replayed: the queue is advanced past the module, and what follows is prefetched.\<close>

lemma fetch_replay:
  assumes inv: "coord_inv env full S dt P c" and env: "env_ok env P" and rp: "replaying env c"
    and k: "step_id c < length (submodule_order c)" "submodule_order c ! step_id c = m"
    and c2: "coord_inv env full S dt P c2" "ctl c2 = ctl c" "fst ` set (inflight c2) = fst ` set (inflight c) - set (c_params env m)"
  shows "\<exists>c3 c4. advance_queue (c_set_order env (c_params env m)) c2 = Inr c3 \<and> prefetch env c3 = Inr c4
    \<and> coord_inv env full S dt P c4 \<and> ctl0 c4 = ctl0 c \<and> drift P c4 = drift P c2 \<and> only_launched c2 c4
    \<and> replaying env (c4\<lparr>step_id := Suc (step_id c4)\<rparr>)"
proof -
  have ctl2: "step_id c2 = step_id c" "submodule_order c2 = submodule_order c" "param_order c2 = param_order c"
    "most_recent c2 = most_recent c" "param_queue c2 = param_queue c" "ctl0 c2 = ctl0 c"
    using c2(2) by (simp_all add: ctl_def ctl0_def)
  obtain popped q where cut: "cut c popped q" and ge: "\<forall>e \<in> set q. step_id c \<le> snd e"
    and trace: "param_order c = param_trace env 0 (submodule_order c)" and complete: "mode c = COMPLETE"
    using rp by (auto simp: replaying_def)
  have ps: "set (c_set_order env (c_params env m)) = set (c_params env m)" "distinct (c_set_order env (c_params env m))"
    using env by (auto simp: env_ok_def set_order_ok_def)
  have "cut c2 popped q" using cut ctl2 by (simp add: cut_def)
  then obtain popped1 q1 where adv: "advance_queue (c_set_order env (c_params env m)) c2 = Inr (c2\<lparr>param_queue := Some q1, most_recent := latest popped1\<rparr>)"
      "param_order c2 = popped1 @ q1" "\<forall>e \<in> set q1. Suc (step_id c2) \<le> snd e"
    using advance_queue_ok [of c2 env popped q "c_set_order env (c_params env m)"] trace ge k ps ctl2 by auto
  let ?c3 = "c2\<lparr>param_queue := Some q1, most_recent := latest popped1\<rparr>"
  have inv3: "coord_inv env full S dt P ?c3" using c2(1) by (simp add: coord_inv_queue)
  have cut3: "cut ?c3 popped1 q1" using adv(2) by (simp add: cut_def)
  have srt: "sorted (map snd (param_order ?c3))" using trace ctl2 param_trace_sorted by simp
  have sub: "fst ` set (param_order ?c3) \<subseteq> P"
    using trace ctl2 by (auto simp: param_trace_set intro: env_ok_params [OF env])
  obtain c4 pp q' where c4: "prefetch env ?c3 = Inr c4" "coord_inv env full S dt P c4" "ctl0 c4 = ctl0 ?c3"
      "drift P c4 = drift P ?c3" "q1 = pp @ q'" "cut c4 (popped1 @ pp) q'"
      "fst ` set (inflight c4) \<subseteq> fst ` set (inflight ?c3) \<union> fst ` set pp" "only_launched ?c3 c4"
    using prefetch_ok [OF inv3 env cut3 srt sub] by blast
  have ctl4: "step_id c4 = step_id c" "submodule_order c4 = submodule_order c" "param_order c4 = param_order c" "mode c4 = mode c" "ctl0 c4 = ctl0 c"
    using c4(3) ctl2 by (simp_all add: ctl0_def)
  have reg: "\<exists>s. Suc (step_id c) \<le> s \<and> (p, s) \<in> set (param_order c)" if "p \<in> fst ` set (inflight c4)" for p
  proof (cases "p \<in> fst ` set pp")
    case True
    then obtain s where "(p, s) \<in> set q1" using c4(5) by force
    moreover from this have "Suc (step_id c) \<le> s" using adv(3) ctl2 by force
    ultimately show ?thesis using adv(2) ctl2 by auto
  next
    case False
    then have "p \<in> fst ` set (inflight c)" and np: "p \<notin> set (c_params env m)" using that c4(7) c2(3) by auto
    then obtain s where s: "step_id c \<le> s" "(p, s) \<in> set (param_order c)" using rp by (auto simp: replaying_def)
    then have "s \<noteq> step_id c" using trace np k(2) by (auto simp: param_trace_set)
    with s show ?thesis by (intro exI [of _ s]) simp
  qed
  have "replaying env (c4\<lparr>step_id := Suc (step_id c4)\<rparr>)"
    unfolding replaying_def
  proof (intro conjI)
    show "\<exists>popped q. cut (c4\<lparr>step_id := Suc (step_id c4)\<rparr>) popped q \<and> (\<forall>e \<in> set q. step_id (c4\<lparr>step_id := Suc (step_id c4)\<rparr>) \<le> snd e)"
      using c4(5,6) adv(3) ctl2 ctl4 by (intro exI [of _ "popped1 @ pp"] exI [of _ q']) (auto simp: cut_def)
  qed (use complete ctl4 trace reg in auto)
  moreover have "only_launched c2 c4" using c4(8) by (simp add: only_launched_def)
  ultimately show ?thesis using adv(1) c4(1,2,4) ctl4(5) by (simp add: drift_queue)
qed

lemma fetch_sub_module_ok:
  assumes inv: "coord_inv env full S dt P c" and env: "env_ok env P"
    and next_module: "mode c = COMPLETE \<Longrightarrow> replaying env c \<and> step_id c < length (submodule_order c) \<and> submodule_order c ! step_id c = m"
  shows "\<exists>c'. fetch_sub_module env m c = Inr c' \<and> coord_inv env full S dt P c' \<and> drift P c' = drift P c
    \<and> step_id c' = Suc (step_id c) \<and> mode c' = mode c \<and> submodule_order c' = submodule_order c
    \<and> module_fetched_for c' = module_fetched_for c \<and> param_order c' = param_order c
    \<and> (\<forall>i. active_sub_modules (heap c' i) =
          (if i \<in> set (c_params env m) then insert m (active_sub_modules (heap c i)) else active_sub_modules (heap c i)))
    \<and> (\<forall>p \<in> set (c_params env m). ds_status (heap c' p) = AVAILABLE \<and> pdata (heap c' p) = full p)
    \<and> (mode c \<noteq> COMPLETE \<longrightarrow> fst ` set (inflight c') = fst ` set (inflight c) - set (c_params env m))
    \<and> (mode c = COMPLETE \<longrightarrow> replaying env c')"
proof -
  let ?ps = "c_set_order env (c_params env m)"
  obtain c1 c2 where op: "all_gather_params env ?ps c = Inr c1" "foldE (fetch_one env m) ?ps c1 = Inr c2"
    and c2: "coord_inv env full S dt P c2" "ctl c2 = ctl c" "drift P c2 = drift P c"
      "\<forall>i. active_sub_modules (heap c2 i) =
          (if i \<in> set (c_params env m) then insert m (active_sub_modules (heap c i)) else active_sub_modules (heap c i))"
      "\<forall>p \<in> set (c_params env m). ds_status (heap c2 p) = AVAILABLE"
      "fst ` set (inflight c2) = fst ` set (inflight c) - set (c_params env m)"
    using fetch_core [OF inv env, of m] by (elim exE conjE) (rule that; assumption)
  have val: "pdata (heap c' p) = full p" if "coord_inv env full S dt P c'" "p \<in> set (c_params env m)" "ds_status (heap c' p) = AVAILABLE" for c' p
    using that env_ok_params [OF env that(2)] by (simp add: coord_inv_def)
  have ctl2: "step_id c2 = step_id c" "mode c2 = mode c" "submodule_order c2 = submodule_order c"
    "param_order c2 = param_order c" "module_fetched_for c2 = module_fetched_for c"
    using c2(2) by (simp_all add: ctl_def)
  show ?thesis
  proof (cases "mode c = COMPLETE")
    case False
    then have "fetch_sub_module env m c = Inr (c2\<lparr>step_id := Suc (step_id c2)\<rparr>)"
      using op ctl2 by (simp add: fetch_sub_module_def Let_def)
    then show ?thesis
      using c2 ctl2 False val [OF c2(1)] by (simp add: coord_inv_step drift_step)
  next
    case True
    then have rp: "replaying env c" and k: "step_id c < length (submodule_order c)" "submodule_order c ! step_id c = m"
      using next_module by auto
    obtain c3 c4 where adv: "advance_queue ?ps c2 = Inr c3" "prefetch env c3 = Inr c4" "coord_inv env full S dt P c4"
        "ctl0 c4 = ctl0 c" "drift P c4 = drift P c2" "only_launched c2 c4" "replaying env (c4\<lparr>step_id := Suc (step_id c4)\<rparr>)"
      using fetch_replay [OF inv env rp k c2(1,2,6)] by blast
    have ctl4: "step_id c4 = step_id c" "mode c4 = mode c" "submodule_order c4 = submodule_order c"
      "param_order c4 = param_order c" "module_fetched_for c4 = module_fetched_for c"
      using adv(4) by (simp_all add: ctl0_def)
    let ?c' = "c4\<lparr>step_id := Suc (step_id c4)\<rparr>"
    have fetch: "fetch_sub_module env m c = Inr ?c'"
      using op True ctl2 adv(1,2) by (simp add: fetch_sub_module_def Let_def)
    have inv': "coord_inv env full S dt P ?c'" using adv(3) by (simp add: coord_inv_step)
    have keep: "active_sub_modules (heap c4 i) = active_sub_modules (heap c2 i)
        \<and> (ds_status (heap c2 i) = AVAILABLE \<longrightarrow> ds_status (heap c4 i) = AVAILABLE)" for i
      using spec [OF adv(6) [unfolded only_launched_def], of i] by auto
    show ?thesis
      using fetch inv' keep c2 ctl4 adv(5,7) val [OF inv'] True ctl2 by (simp add: drift_step)
  qed
qed


section \<open>Runs of the hooks\<close>

text \<open>
  A module is open from its \<open>Pre\<close> to its \<open>Post\<close>; the autograd graph runs the second only
  after the first.
\<close>

fun paired :: "nat set \<Rightarrow> hook_event list \<Rightarrow> bool" where
  "paired Op [] = True"
| "paired Op (Pre m # es) = paired (insert m Op) es"
| "paired Op (Post m # es) = (m \<in> Op \<and> paired (Op - {m}) es)"

fun open_after :: "nat set \<Rightarrow> hook_event list \<Rightarrow> nat set" where
  "open_after Op [] = Op"
| "open_after Op (Pre m # es) = open_after (insert m Op) es"
| "open_after Op (Post m # es) = open_after (Op - {m}) es"

definition opened :: "'a cenv \<Rightarrow> 'a coord \<Rightarrow> nat set \<Rightarrow> bool" where
  "opened env c Op \<longleftrightarrow> (\<forall>m \<in> Op. \<forall>p \<in> set (c_params env m). m \<in> active_sub_modules (heap c p))"

lemma pre_modules_simps [simp]:
  "pre_modules [] = []" "pre_modules (Pre m # es) = m # pre_modules es" "pre_modules (Post m # es) = pre_modules es"
  by (simp_all add: pre_modules_def map_filter_simps)

lemma coord_inv_cong:
  "heap c' = heap c \<Longrightarrow> handles c' = handles c \<Longrightarrow> inflight c' = inflight c \<Longrightarrow>
     coord_inv env full S dt P c' = coord_inv env full S dt P c"
  by (simp add: coord_inv_def entry_ok_def)

lemma opened_unregistered:
  assumes "coord_inv env full S dt P c" and "opened env c Op" and "m \<in> Op"
  shows "set (c_params env m) \<inter> fst ` set (inflight c) = {}"
proof -
  have "active_sub_modules (heap c p) = {}" if "p \<in> fst ` set (inflight c)" for p
    using that assms(1) by (auto simp: coord_inv_def entry_ok_def)
  then show ?thesis using assms(2,3) by (fastforce simp: opened_def)
qed

lemma opened_value:
  assumes "coord_inv env full S dt P c" and "opened env c Op" and "m \<in> Op" and "p \<in> set (c_params env m)"
    and "env_ok env P"
  shows "ds_status (heap c p) = AVAILABLE \<and> pdata (heap c p) = full p"
proof -
  have "p \<in> P" using assms(4,5) by (auto intro: env_ok_params)
  moreover have "active_sub_modules (heap c p) \<noteq> {}" using assms(2-4) by (auto simp: opened_def)
  ultimately show ?thesis using assms(1) by (auto simp: coord_inv_def)
qed

lemma post_ok:
  assumes inv: "coord_inv env full S dt P c" and env: "env_ok env P" and op: "opened env c Op" and m: "m \<in> Op"
  shows "\<exists>c'. hook_step env (Post m) c = Inr c' \<and> coord_inv env full S dt P c' \<and> ctl c' = ctl c
    \<and> drift P c' = drift P c \<and> inflight c' = inflight c \<and> opened env c' (Op - {m})"
proof -
  obtain c' where c': "release_sub_module env m c = Inr c'" "coord_inv env full S dt P c'" "ctl c' = ctl c"
      "drift P c' = drift P c" "inflight c' = inflight c"
      "\<forall>i. active_sub_modules (heap c' i) = active_sub_modules (heap c i) - (if i \<in> set (c_params env m) then {m} else {})"
    using release_sub_module_ok [OF inv _ opened_unregistered [OF inv op m]] env
    by (auto simp: env_ok_def)
  have "opened env c' (Op - {m})" using op c'(6) by (auto simp: opened_def)
  then show ?thesis using c' by (simp add: hook_step_def)
qed

lemma record_inv:
  assumes "coord_inv env full S dt P c" and "recording c"
  shows "trace_prologue m c = Inr c" "\<exists>c1. record_module m c = Inr c1 \<and> coord_inv env full S dt P c1
    \<and> drift P c1 = drift P c \<and> heap c1 = heap c \<and> inflight c1 = inflight c \<and> mode c1 = RECORD \<and> step_id c1 = step_id c
    \<and> submodule_order c1 = submodule_order c @ [m] \<and> module_fetched_for c1 = occurrences 0 (submodule_order c @ [m])"
proof -
  show "trace_prologue m c = Inr c" using assms(2) by (simp add: trace_prologue_def recording_def)
  let ?c1 = "c\<lparr>submodule_order := submodule_order c @ [m],
                module_fetched_for := (module_fetched_for c)(m := module_fetched_for c m @ [step_id c])\<rparr>"
  have "coord_inv env full S dt P ?c1" using assms(1) by (simp add: coord_inv_cong [of ?c1 c])
  moreover have "drift P ?c1 = drift P c" by (simp add: drift_def used_heap [of ?c1 c])
  moreover have "module_fetched_for ?c1 = occurrences 0 (submodule_order c @ [m])"
    using assms(2) by (auto simp: recording_def occurrences_snoc fun_eq_iff)
  ultimately show "\<exists>c1. record_module m c = Inr c1 \<and> coord_inv env full S dt P c1
    \<and> drift P c1 = drift P c \<and> heap c1 = heap c \<and> inflight c1 = inflight c \<and> mode c1 = RECORD \<and> step_id c1 = step_id c
    \<and> submodule_order c1 = submodule_order c @ [m] \<and> module_fetched_for c1 = occurrences 0 (submodule_order c @ [m])"
    using assms(2) by (simp add: record_module_def recording_def)
qed

lemma pre_recording:
  assumes inv: "coord_inv env full S dt P c" and env: "env_ok env P" and rec: "recording c" and op: "opened env c Op"
  shows "\<exists>c'. hook_step env (Pre m) c = Inr c' \<and> coord_inv env full S dt P c' \<and> recording c'
    \<and> drift P c' = drift P c \<and> submodule_order c' = submodule_order c @ [m] \<and> opened env c' (insert m Op)"
proof -
  obtain c1 where c1: "record_module m c = Inr c1" "coord_inv env full S dt P c1" "drift P c1 = drift P c"
      "heap c1 = heap c" "inflight c1 = inflight c" "mode c1 = RECORD" "step_id c1 = step_id c"
      "submodule_order c1 = submodule_order c @ [m]" "module_fetched_for c1 = occurrences 0 (submodule_order c @ [m])"
    using record_inv(2) [OF inv rec] by blast
  have "mode c1 \<noteq> COMPLETE" using c1(6) by simp
  then obtain c' where c': "fetch_sub_module env m c1 = Inr c'" "coord_inv env full S dt P c'" "drift P c' = drift P c1"
      "step_id c' = Suc (step_id c1)" "mode c' = mode c1" "submodule_order c' = submodule_order c1"
      "module_fetched_for c' = module_fetched_for c1"
      "\<forall>i. active_sub_modules (heap c' i) =
          (if i \<in> set (c_params env m) then insert m (active_sub_modules (heap c1 i)) else active_sub_modules (heap c1 i))"
      "fst ` set (inflight c') = fst ` set (inflight c1) - set (c_params env m)"
    using fetch_sub_module_ok [OF c1(2) env, of m] by auto
  have "pre_hook env m c = Inr c'"
    using record_inv(1) [OF inv rec] c1(1) c'(1) rec by (simp add: pre_hook_def recording_def)
  moreover have "recording c'"
    using c' c1 rec by (simp add: recording_def)
  moreover have "opened env c' (insert m Op)" using op c'(8) c1(4) by (auto simp: opened_def)
  ultimately show ?thesis using c' c1 by (simp add: hook_step_def)
qed

lemma pre_replaying:
  assumes inv: "coord_inv env full S dt P c" and env: "env_ok env P" and rp: "replaying env c"
    and op: "opened env c Op" and nxt: "drop (step_id c) (submodule_order c) = m # rest"
  shows "\<exists>c'. hook_step env (Pre m) c = Inr c' \<and> coord_inv env full S dt P c' \<and> replaying env c'
    \<and> drift P c' = drift P c \<and> submodule_order c' = submodule_order c \<and> step_id c' = Suc (step_id c)
    \<and> opened env c' (insert m Op)"
proof -
  have k: "step_id c < length (submodule_order c)" using nxt by (metis drop_all linorder_not_le list.distinct(1))
  then have m: "submodule_order c ! step_id c = m" using nxt by (simp add: Cons_nth_drop_Suc [symmetric])
  have mode: "mode c = COMPLETE" using rp by (simp add: replaying_def)
  obtain c' where c': "fetch_sub_module env m c = Inr c'" "coord_inv env full S dt P c'" "drift P c' = drift P c"
      "step_id c' = Suc (step_id c)" "submodule_order c' = submodule_order c"
      "\<forall>i. active_sub_modules (heap c' i) =
          (if i \<in> set (c_params env m) then insert m (active_sub_modules (heap c i)) else active_sub_modules (heap c i))"
      "replaying env c'"
    using fetch_sub_module_ok [OF inv env, of m] rp k m mode by auto
  have "pre_hook env m c = Inr c'"
    using mode k m c'(1) by (simp add: pre_hook_def trace_prologue_def)
  moreover have "opened env c' (insert m Op)" using op c'(6) by (auto simp: opened_def)
  ultimately show ?thesis using c' by (simp add: hook_step_def)
qed


lemma recording_post: "recording c \<Longrightarrow> ctl c' = ctl c \<Longrightarrow> inflight c' = inflight c \<Longrightarrow> recording c'"
  by (simp add: recording_def ctl_def)

lemma replaying_post: "replaying env c \<Longrightarrow> ctl c' = ctl c \<Longrightarrow> inflight c' = inflight c \<Longrightarrow> replaying env c'"
proof -
  assume rp: "replaying env c" and ct: "ctl c' = ctl c" and infl: "inflight c' = inflight c"
  have f: "step_id c' = step_id c" "mode c' = mode c" "submodule_order c' = submodule_order c"
    "param_order c' = param_order c" "most_recent c' = most_recent c" "param_queue c' = param_queue c"
    using ct by (simp_all add: ctl_def)
  show "replaying env c'" using rp unfolding replaying_def cut_def f infl .
qed

lemma run_recording:
  assumes "coord_inv env full S dt P c" and "env_ok env P" and "recording c" and "opened env c Op" and "paired Op es"
  shows "\<exists>c'. run_hooks env es c = Inr c' \<and> coord_inv env full S dt P c' \<and> recording c'
    \<and> drift P c' = drift P c \<and> submodule_order c' = submodule_order c @ pre_modules es
    \<and> opened env c' (open_after Op es)"
  using assms
proof (induction es arbitrary: c Op)
  case Nil
  then show ?case by (simp add: run_hooks_def)
next
  case (Cons e es)
  show ?case
  proof (cases e)
    case (Pre m)
    obtain c1 where c1: "hook_step env (Pre m) c = Inr c1" "coord_inv env full S dt P c1" "recording c1"
        "drift P c1 = drift P c" "submodule_order c1 = submodule_order c @ [m]" "opened env c1 (insert m Op)"
      using pre_recording [OF Cons.prems(1-4), of m] by blast
    with Cons.IH [OF c1(2) Cons.prems(2) c1(3,6)] Cons.prems(5) show ?thesis
      by (auto simp: Pre run_hooks_def)
  next
    case (Post m)
    then have m: "m \<in> Op" using Cons.prems(5) by simp
    obtain c1 where c1: "hook_step env (Post m) c = Inr c1" "coord_inv env full S dt P c1" "ctl c1 = ctl c"
        "drift P c1 = drift P c" "inflight c1 = inflight c" "opened env c1 (Op - {m})"
      using post_ok [OF Cons.prems(1,2,4) m] by blast
    have "submodule_order c1 = submodule_order c" using c1(3) by (simp add: ctl_def)
    with Cons.IH [OF c1(2) Cons.prems(2) recording_post [OF Cons.prems(3) c1(3,5)] c1(6)] Cons.prems(5) c1
    show ?thesis by (auto simp: Post run_hooks_def)
  qed
qed

lemma run_replaying:
  assumes "coord_inv env full S dt P c" and "env_ok env P" and "replaying env c" and "opened env c Op" and "paired Op es"
    and "drop (step_id c) (submodule_order c) = pre_modules es @ rest"
  shows "\<exists>c'. run_hooks env es c = Inr c' \<and> coord_inv env full S dt P c' \<and> replaying env c'
    \<and> drift P c' = drift P c \<and> submodule_order c' = submodule_order c
    \<and> step_id c' = step_id c + length (pre_modules es) \<and> opened env c' (open_after Op es)"
  using assms
proof (induction es arbitrary: c Op)
  case Nil
  then show ?case by (simp add: run_hooks_def)
next
  case (Cons e es)
  show ?case
  proof (cases e)
    case (Pre m)
    have nxt: "drop (step_id c) (submodule_order c) = m # (pre_modules es @ rest)" using Cons.prems(6) by (simp add: Pre)
    obtain c1 where c1: "hook_step env (Pre m) c = Inr c1" "coord_inv env full S dt P c1" "replaying env c1"
        "drift P c1 = drift P c" "submodule_order c1 = submodule_order c" "step_id c1 = Suc (step_id c)"
        "opened env c1 (insert m Op)"
      using pre_replaying [OF Cons.prems(1-4) nxt] by blast
    have "drop (step_id c1) (submodule_order c1) = pre_modules es @ rest"
      using nxt by (simp add: c1 drop_Suc tl_drop [symmetric])
    with Cons.IH [OF c1(2) Cons.prems(2) c1(3,7)] Cons.prems(5) c1 show ?thesis
      by (auto simp: Pre run_hooks_def)
  next
    case (Post m)
    then have m: "m \<in> Op" using Cons.prems(5) by simp
    obtain c1 where c1: "hook_step env (Post m) c = Inr c1" "coord_inv env full S dt P c1" "ctl c1 = ctl c"
        "drift P c1 = drift P c" "inflight c1 = inflight c" "opened env c1 (Op - {m})"
      using post_ok [OF Cons.prems(1,2,4) m] by blast
    have "submodule_order c1 = submodule_order c" "step_id c1 = step_id c" using c1(3) by (simp_all add: ctl_def)
    with Cons.IH [OF c1(2) Cons.prems(2) replaying_post [OF Cons.prems(3) c1(3,5)] c1(6)] Cons.prems(5,6) c1
    show ?thesis by (auto simp: Post run_hooks_def)
  qed
qed

section \<open>Steps\<close>

text \<open>Every rank sees the same lists, so the broadcast returns the argument.\<close>

definition ranks_agree :: "'a cenv \<Rightarrow> bool" where
  "ranks_agree env \<longleftrightarrow> (\<forall>xs. c_from_rank0 env xs = xs)"

definition fresh_replay :: "'a cenv \<Rightarrow> nat list \<Rightarrow> 'a coord \<Rightarrow> bool" where
  "fresh_replay env ms c \<longleftrightarrow> replaying env c \<and> step_id c = 0 \<and> submodule_order c = ms"

lemma replaying_start:
  assumes "mode c = COMPLETE" and "param_order c = param_trace env 0 (submodule_order c)" and "inflight c = []"
    and "param_queue c = Some (param_order c)" and "most_recent c = (\<lambda>_. never_fetched)" and "step_id c = 0"
  shows "replaying env c"
  using assms by (auto simp: replaying_def cut_def latest_Nil intro!: exI [of _ "[]"])

lemma reset_recording:
  assumes inv: "coord_inv env full S dt P c" and rec: "recording c" and "ranks_agree env"
  shows "\<exists>c'. reset_step env c = Inr c' \<and> coord_inv env full S dt P c' \<and> fresh_replay env (submodule_order c) c'
    \<and> heap c' = heap c"
proof -
  let ?c0 = "c\<lparr>param_order := []\<rparr>"
  obtain mf where tr: "foldE (record_parameters env) (submodule_order c) ?c0
    = Inr (?c0\<lparr>module_fetched_for := mf, param_order := param_order ?c0 @ param_trace env 0 (submodule_order c)\<rparr>)"
    using construct_trace [of ?c0 0 "submodule_order c" env] rec by (auto simp: recording_def)
  let ?c' = "c\<lparr>module_fetched_for := (\<lambda>_. []), param_order := param_trace env 0 (submodule_order c), mode := COMPLETE,
               param_queue := Some (param_trace env 0 (submodule_order c)), most_recent := (\<lambda>_. never_fetched),
               step_id := 0, n_available := 0\<rparr>"
  have "reset_step env c = Inr ?c'"
    using rec assms(3) tr
    by (simp add: reset_step_def recording_def ranks_agree_def assert_ints_same_as_other_ranks_def
        construct_parameter_trace_def)
  moreover have "coord_inv env full S dt P ?c'" using inv by (simp add: coord_inv_cong [of ?c' c])
  moreover have "fresh_replay env (submodule_order c) ?c'"
    using rec by (auto simp: fresh_replay_def recording_def intro!: replaying_start)
  ultimately show ?thesis by auto
qed

lemma replaying_end:
  assumes "replaying env c" and "step_id c = length (submodule_order c)"
  shows "inflight c = []"
proof -
  have "p \<notin> fst ` set (inflight c)" for p
  proof
    assume "p \<in> fst ` set (inflight c)"
    then obtain s where "step_id c \<le> s" "(p, s) \<in> set (param_order c)"
      using assms(1) unfolding replaying_def by blast
    then show False using assms by (simp add: replaying_def param_trace_set)
  qed
  then show ?thesis by (metis image_eqI list.set_intros(1) neq_Nil_conv)
qed

lemma reset_replaying:
  assumes inv: "coord_inv env full S dt P c" and rp: "replaying env c" and e: "step_id c = length (submodule_order c)"
  shows "\<exists>c'. reset_step env c = Inr c' \<and> coord_inv env full S dt P c' \<and> fresh_replay env (submodule_order c) c'
    \<and> heap c' = heap c"
proof -
  let ?c' = "c\<lparr>param_queue := Some (param_order c), most_recent := (\<lambda>_. never_fetched),
               module_fetched_for := (\<lambda>_. []), step_id := 0, n_available := 0\<rparr>"
  have infl: "inflight c = []" using replaying_end [OF rp e] .
  then have "reset_step env c = Inr ?c'" using rp by (simp add: reset_step_def replaying_def)
  moreover have "coord_inv env full S dt P ?c'" using inv by (simp add: coord_inv_cong [of ?c' c])
  moreover have "replaying env ?c'"
    by (rule replaying_start) (use rp infl in \<open>auto simp: replaying_def\<close>)
  then have "fresh_replay env (submodule_order c) ?c'" by (simp add: fresh_replay_def)
  ultimately show ?thesis by auto
qed

definition training_step :: "'a cenv \<Rightarrow> hook_event list \<Rightarrow> 'a coord \<Rightarrow> 'a coord result" where
  "training_step env es c = ebind (run_hooks env es c) (reset_step env)"

lemma opened_empty: "opened env c {}"
  by (simp add: opened_def)

lemma step_replaying:
  assumes "coord_inv env full S dt P c" and "env_ok env P" and "fresh_replay env ms c"
    and "paired {} es" and "pre_modules es = ms"
  shows "\<exists>c'. training_step env es c = Inr c' \<and> coord_inv env full S dt P c' \<and> fresh_replay env ms c'"
proof -
  have rp: "replaying env c" "step_id c = 0" "submodule_order c = ms" using assms(3) by (simp_all add: fresh_replay_def)
  then have d: "drop (step_id c) (submodule_order c) = pre_modules es @ []" using assms(5) by simp
  obtain c1 where c1: "run_hooks env es c = Inr c1" "coord_inv env full S dt P c1" "replaying env c1"
      "submodule_order c1 = ms" "step_id c1 = length ms"
    using run_replaying [OF assms(1,2) rp(1) opened_empty assms(4) d] rp assms(5) by auto
  then show ?thesis using reset_replaying [OF c1(2,3)] by (auto simp: training_step_def)
qed

lemma steps_replaying:
  assumes "coord_inv env full S dt P c" and "env_ok env P" and "fresh_replay env ms c"
    and "\<And>es. es \<in> set ess \<Longrightarrow> paired {} es \<and> pre_modules es = ms"
  shows "\<exists>c'. foldE (training_step env) ess c = Inr c' \<and> coord_inv env full S dt P c' \<and> fresh_replay env ms c'"
  using assms
proof (induction ess arbitrary: c)
  case Nil
  then show ?case by simp
next
  case (Cons es ess)
  obtain c1 where "training_step env es c = Inr c1" "coord_inv env full S dt P c1" "fresh_replay env ms c1"
    using step_replaying [OF Cons.prems(1-3), of es] Cons.prems(4) by auto
  then show ?case using Cons.IH [of c1] Cons.prems(2,4) by simp
qed

lemma step_recording:
  assumes "coord_inv env full S dt P c" and "env_ok env P" and "recording c" and "submodule_order c = []"
    and "paired {} es" and "ranks_agree env"
  shows "\<exists>c'. training_step env es c = Inr c' \<and> coord_inv env full S dt P c' \<and> fresh_replay env (pre_modules es) c'"
proof -
  obtain c1 where c1: "run_hooks env es c = Inr c1" "coord_inv env full S dt P c1" "recording c1"
      "submodule_order c1 = pre_modules es"
    using run_recording [OF assms(1-3) opened_empty assms(5)] assms(4) by auto
  then show ?thesis using reset_recording [OF c1(2,3) assms(6)] by (auto simp: training_step_def)
qed

lemma init_ok:
  assumes "ready env full S dt P h" and "\<And>i. i \<in> P \<Longrightarrow> ds_status (h i) = NOT_AVAILABLE \<and> active_sub_modules (h i) = {}"
  shows "coord_inv env full S dt P (init_coord b r a h) \<and> recording (init_coord b r a h)
    \<and> submodule_order (init_coord b r a h) = []"
  using assms by (auto simp: coord_inv_def init_coord_def recording_def)

section \<open>Properties\<close>

lemma training_run:
  assumes env: "env_ok env P" and "ranks_agree env" and h: "ready env full S dt P h"
    and na: "\<And>i. i \<in> P \<Longrightarrow> ds_status (h i) = NOT_AVAILABLE \<and> active_sub_modules (h i) = {}"
    and steps: "\<And>es. es \<in> set ess \<Longrightarrow> paired {} es \<and> pre_modules es = ms"
    and part: "paired {} es'" "ms = pre_modules es' @ rest"
  shows "\<exists>c c'. foldE (training_step env) ess (init_coord b r a h) = Inr c \<and> run_hooks env es' c = Inr c'
    \<and> coord_inv env full S dt P c' \<and> opened env c' (open_after {} es')
    \<and> (\<forall>m \<in> open_after {} es'. \<forall>p \<in> set (c_params env m).
          ds_status (heap c' p) = AVAILABLE \<and> pdata (heap c' p) = full p)
    \<and> (ess \<noteq> [] \<longrightarrow> mode c' = COMPLETE \<and> submodule_order c' = ms)"
proof -
  let ?c0 = "init_coord b r a h"
  have i: "coord_inv env full S dt P ?c0" "recording ?c0" "submodule_order ?c0 = []"
    using init_ok [OF h na] by auto
  show ?thesis
  proof (cases ess)
    case Nil
    obtain c' where "run_hooks env es' ?c0 = Inr c'" "coord_inv env full S dt P c'" "opened env c' (open_after {} es')"
      using run_recording [OF i(1) env i(2) opened_empty part(1)] by blast
    then show ?thesis using Nil opened_value [OF _ _ _ _ env] by fastforce
  next
    case (Cons es ess')
    obtain c1 where c1: "training_step env es ?c0 = Inr c1" "coord_inv env full S dt P c1" "fresh_replay env ms c1"
      using step_recording [OF i(1) env i(2,3) _ assms(2), of es] steps Cons by auto
    obtain c where c: "foldE (training_step env) ess' c1 = Inr c" "coord_inv env full S dt P c" "fresh_replay env ms c"
      using steps_replaying [OF c1(2) env c1(3), of ess'] steps Cons by auto
    have rp: "replaying env c" "drop (step_id c) (submodule_order c) = pre_modules es' @ rest" "submodule_order c = ms"
      using c(3) part(2) by (simp_all add: fresh_replay_def)
    obtain c' where c': "run_hooks env es' c = Inr c'" "coord_inv env full S dt P c'" "opened env c' (open_after {} es')"
        "replaying env c'" "submodule_order c' = ms"
      using run_replaying [OF c(2) env rp(1) opened_empty part(1) rp(2)] rp(3) by auto
    moreover have "mode c' = COMPLETE" using c'(4) by (simp add: replaying_def)
    moreover have "foldE (training_step env) ess ?c0 = Inr c" using c1(1) c(1) Cons by simp
    ultimately show ?thesis using opened_value [OF c'(2,3) _ _ env] by blast
  qed
qed


text \<open>
  C7: the scheduler is safe and complete for every training run. Start with partitioned
  parameters; run any number of steps that call the hooks in the same module order, with
  \<open>Post\<close> hooks placed anywhere after their \<open>Pre\<close> hooks, and stop in the middle of another.
  Whatever the prefetch and reuse limits are, no hook and no reset raises, in particular there
  is never a tracing error, a parameter gathered twice, or a parameter in flight at the end of
  a step. At every moment all parameters of every module that is between its \<open>Pre\<close> and its \<open>Post\<close>
  are available with their full value. After the first step the trace is complete and stays so.
\<close>

theorem training_run_safe:
  assumes "env_ok env P" and "ranks_agree env" and "ready env full S dt P h"
    and "\<And>i. i \<in> P \<Longrightarrow> ds_status (h i) = NOT_AVAILABLE \<and> active_sub_modules (h i) = {}"
    and "\<And>es. es \<in> set ess \<Longrightarrow> paired {} es \<and> pre_modules es = ms"
    and "paired {} es'" "ms = pre_modules es' @ rest"
  shows "\<exists>c c'. foldE (training_step env) ess (init_coord b r a h) = Inr c \<and> run_hooks env es' c = Inr c'
    \<and> (\<forall>m \<in> open_after {} es'. \<forall>p \<in> set (c_params env m).
          ds_status (heap c' p) = AVAILABLE \<and> pdata (heap c' p) = full p)
    \<and> (ess \<noteq> [] \<longrightarrow> mode c' = COMPLETE \<and> submodule_order c' = ms)"
  using training_run [OF assms, where b = b and r = r and a = a] by blast

text \<open>
  A model of three parameters and three modules on two ranks: rank 1 holds the values of rank 0
  plus ten. Modules 0 and 2 share parameter 1.
\<close>

definition demo_cenv :: "nat cenv" where
  "demo_cenv = \<lparr>c_world = 2, c_rank = 0, c_fresh = (\<lambda>_. 9), c_gather = (\<lambda>cid t. t @ map (\<lambda>x. x + 10) t),
     c_cast = (\<lambda>_. id), c_full_transfer = False,
     c_params = (\<lambda>m. if m = 0 then [0, 1] else if m = 1 then [2] else if m = 2 then [1, 1] else []),
     c_all_params = [0, 1, 2], c_set_order = (\<lambda>xs. rev (remdups xs)), c_event_done = (\<lambda>_ _. False),
     c_from_rank0 = (\<lambda>xs. xs)\<rparr>"

definition mini_full :: "nat \<Rightarrow> nat list" where
  "mini_full i = [i + 1, i + 11]"

definition mini_shard :: "nat \<Rightarrow> nat \<Rightarrow> nat list" where
  "mini_shard r i = (if r = 0 then [i + 1] else [i + 11])"

definition mini_heap :: "nat heap" where
  "mini_heap = (\<lambda>i. (convert_to_deepspeed_param [2] Float16 True (mini_full i))
     \<lparr>ds_tensor := Some (mini_shard 0 i), pdata := [], ds_status := NOT_AVAILABLE\<rparr>)"

lemma mini_env: "env_ok demo_cenv {0, 1, 2}" "ranks_agree demo_cenv"
  by (auto simp: env_ok_def set_order_ok_def ranks_agree_def demo_cenv_def)

lemma mini_ready: "ready demo_cenv mini_full mini_shard Float16 {0, 1, 2} mini_heap"
proof -
  have size: "shard_size 2 (Suc (Suc 0)) = 1" by (simp add: shard_size_def aligned_size_def padding_size_def)
  have "shard_ok 2 r (mini_full i) (mini_shard r i)" if "r < 2" for r i
    using that size by (auto simp: demo_sizes(3) shard_ok_def mini_full_def mini_shard_def block_def)
  moreover have "mini_shard 1 i = map (\<lambda>x. x + 10) (mini_shard 0 i)" for i by (simp add: mini_shard_def)
  then have "concat (map (mini_shard 1) js) = map (\<lambda>x. x + 10) (concat (map (mini_shard 0) js))" for js
    by (induction js) auto
  ultimately show ?thesis
    by (auto simp: ready_def gatherable_def holds_shards_def gathers_def demo_cenv_def mini_heap_def
        convert_to_deepspeed_param_def upt_rec) (simp_all add: mini_full_def)
qed

theorem training_run_safe_witness:
  "\<exists>c c'. foldE (training_step demo_cenv)
       [[Pre 0, Pre 1, Post 1, Pre 2, Post 0, Post 2], [Pre 0, Post 0, Pre 1, Pre 2, Post 2, Post 1]]
       (init_coord 3 0 100 mini_heap) = Inr c
    \<and> run_hooks demo_cenv [Pre 0, Pre 1] c = Inr c'
    \<and> (\<forall>m \<in> {0, 1}. \<forall>p \<in> set (c_params demo_cenv m).
          ds_status (heap c' p) = AVAILABLE \<and> pdata (heap c' p) = mini_full p)
    \<and> mode c' = COMPLETE \<and> submodule_order c' = [0, 1, 2]"
proof -
  have "\<exists>c c'. foldE (training_step demo_cenv)
       [[Pre 0, Pre 1, Post 1, Pre 2, Post 0, Post 2], [Pre 0, Post 0, Pre 1, Pre 2, Post 2, Post 1]]
       (init_coord 3 0 100 mini_heap) = Inr c
    \<and> run_hooks demo_cenv [Pre 0, Pre 1] c = Inr c'
    \<and> (\<forall>m \<in> open_after {} [Pre 0, Pre 1]. \<forall>p \<in> set (c_params demo_cenv m).
          ds_status (heap c' p) = AVAILABLE \<and> pdata (heap c' p) = mini_full p)
    \<and> ([[Pre 0, Pre 1, Post 1, Pre 2, Post 0, Post 2], [Pre 0, Post 0, Pre 1, Pre 2, Post 2, Post 1]] \<noteq> []
       \<longrightarrow> mode c' = COMPLETE \<and> submodule_order c' = [0, 1, 2])"
    by (rule training_run_safe [OF mini_env mini_ready, where rest = "[2]"])
      (auto simp: mini_heap_def convert_to_deepspeed_param_def)
  then show ?thesis by (simp add: insert_commute)
qed

end
