(* ===== verification/CoordProps.thy ===== *)
theory CoordProps
  imports Replay
begin

text \<open>
  More properties of the scheduler: the counter of available elements, the prefetch budget, the
  bound on the event queue, which parameters a release keeps, what happens when a step departs
  from the recorded trace, and the release of everything at the end of a step.
\<close>

section \<open>The counter\<close>

text \<open>
  The counter of available elements is off by a constant during a step: after any run of
  hooks it equals the number of elements held minus the number held when the counter was last
  reset. So in the first step it is exact, and afterwards it undercounts by whatever was not
  released before \<^verbatim>\<open>reset_step\<close> set it to zero.
\<close>

theorem counter_drift:
  assumes env: "env_ok env P" and "ranks_agree env" and h: "ready env full S dt P h"
    and na: "\<And>i. i \<in> P \<Longrightarrow> ds_status (h i) = NOT_AVAILABLE \<and> active_sub_modules (h i) = {}"
    and steps: "\<And>es. es \<in> set ess \<Longrightarrow> paired {} es \<and> pre_modules es = ms"
    and part: "paired {} es'" "ms = pre_modules es' @ rest"
  shows "\<exists>c c'. foldE (training_step env) ess (init_coord b r a h) = Inr c \<and> run_hooks env es' c = Inr c'
    \<and> n_available c' = used P c' - used P c"
proof -
  let ?c0 = "init_coord b r a h"
  have i: "coord_inv env full S dt P ?c0" "recording ?c0" "submodule_order ?c0 = []"
    using init_ok [OF h na] by auto
  have res: "n_available c' = 0" if "reset_step env c = Inr c'" for c c'
    using that by (auto simp: reset_step_def ebind_eq_Inr_iff split: if_splits)
  show ?thesis
  proof (cases ess)
    case Nil
    obtain c' where c': "run_hooks env es' ?c0 = Inr c'" "drift P c' = drift P ?c0"
      using run_recording [OF i(1) env i(2) opened_empty part(1)] by blast
    have "n_available ?c0 = 0" by (simp add: init_coord_def)
    then show ?thesis using c' Nil by (auto simp: drift_def)
  next
    case (Cons es ess')
    obtain c1 where c1: "training_step env es ?c0 = Inr c1" "coord_inv env full S dt P c1" "fresh_replay env ms c1"
      using step_recording [OF i(1) env i(2,3) _ assms(2), of es] steps Cons by auto
    obtain c where c: "foldE (training_step env) ess' c1 = Inr c" "coord_inv env full S dt P c" "fresh_replay env ms c"
      using steps_replaying [OF c1(2) env c1(3), of ess'] steps Cons by auto
    have all: "foldE (training_step env) ess ?c0 = Inr c" using c1(1) c(1) Cons by simp
    have "n_available c = 0"
    proof -
      have "\<exists>e d. training_step env e d = Inr c"
      proof (cases ess' rule: rev_cases)
        case Nil
        then show ?thesis using c1(1) c(1) by auto
      next
        case (snoc xs x)
        then show ?thesis using c(1) by (auto simp: foldE_append ebind_eq_Inr_iff)
      qed
      then show ?thesis using res by (auto simp: training_step_def ebind_eq_Inr_iff)
    qed
    moreover have rp: "replaying env c" "drop (step_id c) (submodule_order c) = pre_modules es' @ rest"
      using c(3) part(2) by (simp_all add: fresh_replay_def)
    obtain c' where "run_hooks env es' c = Inr c'" "drift P c' = drift P c"
      using run_replaying [OF c(2) env rp(1) opened_empty part(1) rp(2)] by auto
    ultimately show ?thesis using all by (auto simp: drift_def)
  qed
qed

theorem counter_drift_witness:
  "\<exists>c c'. foldE (training_step demo_cenv) [[Pre 0, Pre 1, Post 1, Pre 2, Post 0, Post 2]]
      (init_coord 3 0 100 mini_heap) = Inr c \<and> run_hooks demo_cenv [Pre 0, Pre 1] c = Inr c'
    \<and> n_available c' = used {0, 1, 2} c' - used {0, 1, 2} c"
  by (rule counter_drift [OF mini_env mini_ready, where rest = "[2]" and ms = "[0, 1, 2]"])
    (auto simp: mini_heap_def convert_to_deepspeed_param_def)

section \<open>The prefetch budget\<close>

lemma register_n_available:
  "foldE (\<lambda>p c. ebind (assert_that (ds_status (heap c p) = INFLIGHT)) (\<lambda>_. register_inflight hid p c)) ps c = Inr c'
    \<Longrightarrow> n_available c' = n_available c"
proof (induction ps arbitrary: c)
  case Nil
  then show ?case by simp
next
  case (Cons p ps)
  then show ?case by (fastforce simp: ebind_eq_Inr_iff register_inflight_def split: if_splits)
qed

lemma all_gather_n_available:
  assumes "all_gather_params env ps c = Inr c'"
  shows "n_available c' = n_available c + (\<Sum>p \<leftarrow> not_available c ps. int (ds_numel (heap c p)))"
  using assms
  by (auto simp: all_gather_params_def Let_def ebind_eq_Inr_iff dest!: register_n_available split: if_splits prod.splits)

text \<open>
  C23: a prefetch launches nothing, or leaves the counter below the limits plus one parameter:
  without the last parameter taken it would be below both the maximum of available elements
  and the old value plus the bucket size.
\<close>

theorem prefetch_within_budget:
  assumes "prefetch env c = Inr c'" and "set_order_ok env"
  shows "n_available c' = n_available c \<or>
    (\<exists>p. ds_status (heap c p) = NOT_AVAILABLE \<and> n_available c' - int (ds_numel (heap c p))
        < min (max_n_available c) (n_available c + prefetch_bucket_sz c))"
proof (cases "prefetch_bucket_sz c > 0 \<and> param_queue c \<noteq> None")
  case False
  then have "c' = c \<or> all_gather_params env (c_set_order env []) c = Inr c'"
    using assms(1) by (auto simp: prefetch_def split: if_splits option.splits)
  moreover have "c_set_order env [] = []" using assms(2) by (metis set_empty set_order_ok_def)
  ultimately show ?thesis by (auto simp: all_gather_params_def not_available_def)
next
  case True
  then obtain q0 where q0: "param_queue c = Some q0" by auto
  let ?limit = "min (max_n_available c - n_available c) (prefetch_bucket_sz c)"
  obtain q ps mr where pl: "prefetch_loop (heap c) ?limit q0 [] 0 (most_recent c) = (q, ps, mr)"
    by (metis prod_cases3)
  have ps: "distinct ps" "\<forall>p \<in> set ps. ds_status (heap c p) = NOT_AVAILABLE"
      "ps = [] \<or> (\<exists>qs p. ps = qs @ [p] \<and> (\<Sum>p \<leftarrow> qs. int (ds_numel (heap c p))) < ?limit)"
    using prefetch_loop_spec [OF pl] by auto
  let ?c1 = "c\<lparr>param_queue := Some q, most_recent := mr\<rparr>" and ?ps = "c_set_order env ps"
  have so: "set ?ps = set ps" "distinct ?ps" using assms(2) by (auto simp: set_order_ok_def)
  have "all_gather_params env ?ps ?c1 = Inr c'"
    using assms(1) True q0 pl by (simp add: prefetch_def Let_def)
  from all_gather_n_available [OF this]
  have n: "n_available c' = n_available c + (\<Sum>p \<leftarrow> not_available ?c1 ?ps. int (ds_numel (heap c p)))" by simp
  have "not_available ?c1 ?ps = ?ps" using ps(2) so(1) by (simp add: not_available_def filter_True)
  then have n: "n_available c' = n_available c + (\<Sum>p \<leftarrow> ps. int (ds_numel (heap c p)))"
    using n so ps(1) by (simp add: sum_list_distinct_conv_sum_set)
  from ps(3) show ?thesis
  proof
    assume "ps = []"
    then show ?thesis using n by simp
  next
    assume "\<exists>qs p. ps = qs @ [p] \<and> (\<Sum>p \<leftarrow> qs. int (ds_numel (heap c p))) < ?limit"
    then obtain qs p where qs: "ps = qs @ [p]" "(\<Sum>p \<leftarrow> qs. int (ds_numel (heap c p))) < ?limit" by blast
    then have "n_available c' - int (ds_numel (heap c p)) = n_available c + (\<Sum>p \<leftarrow> qs. int (ds_numel (heap c p)))"
      using n by simp
    moreover have "ds_status (heap c p) = NOT_AVAILABLE" using ps(2) qs(1) by simp
    ultimately show ?thesis using qs(2) by (intro disjI2 exI [of _ p]) auto
  qed
qed

definition demo_replay :: "nat coord" where
  "demo_replay = (init_coord 3 0 100 mini_heap)\<lparr>mode := COMPLETE, param_queue := Some [(0, 0), (2, 0), (1, 1)]\<rparr>"

lemma mini_NA: "ds_status (mini_heap i) = NOT_AVAILABLE" "ds_numel (mini_heap i) = 2"
  by (simp_all add: mini_heap_def convert_to_deepspeed_param_def mini_full_def)

theorem prefetch_within_budget_witness:
  "\<exists>c'. prefetch demo_cenv demo_replay = Inr c' \<and> n_available c' = 4
    \<and> (n_available c' = n_available demo_replay \<or>
      (\<exists>p. ds_status (heap demo_replay p) = NOT_AVAILABLE \<and> n_available c' - int (ds_numel (heap demo_replay p))
        < min (max_n_available demo_replay) (n_available demo_replay + prefetch_bucket_sz demo_replay)))"
proof -
  have r: "gatherable 2 0 (\<lambda>cid t. t @ map (\<lambda>x. x + 10) t) (\<lambda>_. id) mini_full mini_shard Float16 mini_heap {0, 1, 2}"
    using mini_ready by (simp add: ready_def demo_cenv_def)
  obtain h1 hdl where l: "all_gather_coalesced 2 (\<lambda>_. 9) (\<lambda>cid t. t @ map (\<lambda>x. x + 10) t) (\<lambda>_. id) False [2, 0] mini_heap = Inr (h1, hdl)"
      "in_flight [2, 0] mini_heap h1"
    using gs.launch_ok [where u = "\<lambda>_. 9" and ids = "[2, 0]", OF r] mini_NA by auto
  have "ds_status (h1 2) = INFLIGHT" "ds_status (h1 0) = INFLIGHT"
    using spec [OF l(2) [unfolded in_flight_def], of 2] spec [OF l(2) [unfolded in_flight_def], of 0] by auto
  then obtain c' where c': "prefetch demo_cenv demo_replay = Inr c'"
    using l(1) mini_NA
    by (simp add: prefetch_def demo_replay_def init_coord_def Let_def demo_cenv_def all_gather_params_def
        not_available_def register_inflight_def)
  moreover have "n_available c' = 4"
    using all_gather_n_available c' mini_NA
    by (fastforce simp: prefetch_def demo_replay_def init_coord_def Let_def demo_cenv_def not_available_def)
  ultimately show ?thesis using prefetch_within_budget [OF c'] mini_env(1) by (auto simp: env_ok_def)
qed


section \<open>The event queue\<close>

definition events_ok :: "'a coord \<Rightarrow> bool" where
  "events_ok c \<longleftrightarrow> length (ongoing_events c) \<le> Suc (max_ongoing_events c) \<and> max_ongoing_events c = 1024"

lemma register_events:
  "foldE (\<lambda>p c. ebind (assert_that (ds_status (heap c p) = INFLIGHT)) (\<lambda>_. register_inflight hid p c)) ps c = Inr c'
    \<Longrightarrow> events_ok c \<Longrightarrow> events_ok c'"
  by (erule foldE_invariant) (auto simp: ebind_eq_Inr_iff register_inflight_def events_ok_def split: if_splits)

lemma events_cong:
  "ongoing_events c' = ongoing_events c \<Longrightarrow> max_ongoing_events c' = max_ongoing_events c \<Longrightarrow> events_ok c' = events_ok c"
  by (simp add: events_ok_def)

lemma all_gather_events:
  assumes "all_gather_params env ps c = Inr c'" and "events_ok c"
  shows "events_ok c'"
proof (cases "not_available c ps = []")
  case True
  then show ?thesis using assms by (auto simp: all_gather_params_def events_ok_def)
next
  case False
  with assms(1) obtain d hid where
    "foldE (\<lambda>p c. ebind (assert_that (ds_status (heap c p) = INFLIGHT)) (\<lambda>_. register_inflight hid p c)) (not_available c ps) d = Inr c'"
    "ongoing_events d = ongoing_events c" "max_ongoing_events d = max_ongoing_events c"
    by (auto simp: all_gather_params_def Let_def ebind_eq_Inr_iff)
  then show ?thesis using register_events [of hid _ d c'] assms(2) events_cong [of d c] by blast
qed

lemma fetch_one_events: "fetch_one env m p c = Inr c' \<Longrightarrow> events_ok c \<Longrightarrow> events_ok c'"
proof -
  assume f: "fetch_one env m p c = Inr c'" and ok: "events_ok c"
  from f have w: "wait_inflight env p (activate m p c) = Inr c'"
    by (auto simp: fetch_one_def ebind_eq_Inr_iff)
  have "length (dropWhile (c_event_done env (n_events c)) (ongoing_events c)) \<le> 1025"
    using ok length_dropWhile_le [of "c_event_done env (n_events c)" "ongoing_events c"] by (simp add: events_ok_def)
  with w ok show "events_ok c'"
    by (auto simp: wait_inflight_def activate_def drain_events_def Let_def ebind_eq_Inr_iff events_ok_def
        split: option.splits if_splits)
qed

lemma release_param_events: "release_param env p c = Inr c' \<Longrightarrow> events_ok c \<Longrightarrow> events_ok c'"
  by (auto simp: release_param_def ebind_eq_Inr_iff events_ok_def split: if_splits)

lemma release_events: "release_sub_module env m c = Inr c' \<Longrightarrow> events_ok c \<Longrightarrow> events_ok c'"
proof -
  assume r: "release_sub_module env m c = Inr c'" and ok: "events_ok c"
  then obtain rel where "foldE (release_one env m rel) (c_params env m) c = Inr c'"
    by (auto simp: release_sub_module_def ebind_eq_Inr_iff)
  then show "events_ok c'"
  proof (rule foldE_invariant)
    fix p s s' assume s: "events_ok s" "release_one env m rel p s = Inr s'"
    let ?s1 = "s\<lparr>heap := (heap s)(p := (heap s p)\<lparr>active_sub_modules := active_sub_modules (heap s p) - {m}\<rparr>)\<rparr>"
    have "events_ok ?s1" using s(1) events_cong [of ?s1 s] by simp
    then show "events_ok s'"
      using s(2) release_param_events [of env p ?s1 s'] by (auto simp: release_one_def Let_def split: if_splits)
  qed (rule ok)
qed


lemma fetch_events: "fetch_sub_module env m c = Inr c' \<Longrightarrow> events_ok c \<Longrightarrow> events_ok c'"
proof -
  assume f: "fetch_sub_module env m c = Inr c'" and ok: "events_ok c"
  let ?ps = "c_set_order env (c_params env m)"
  from f obtain c1 c2 c3 where c: "all_gather_params env ?ps c = Inr c1" "foldE (fetch_one env m) ?ps c1 = Inr c2"
      "(if mode c2 = COMPLETE then ebind (advance_queue ?ps c2) (prefetch env) else Inr c2) = Inr c3"
      "c' = c3\<lparr>step_id := Suc (step_id c3)\<rparr>"
    by (auto simp: fetch_sub_module_def Let_def ebind_eq_Inr_iff)
  have "events_ok c1" using all_gather_events [OF c(1) ok] .
  with c(2) have ok2: "events_ok c2" by (rule foldE_invariant) (rule fetch_one_events)
  have "events_ok c3"
  proof (cases "mode c2 = COMPLETE")
    case True
    then obtain d where d: "advance_queue ?ps c2 = Inr d" "prefetch env d = Inr c3"
      using c(3) by (auto simp: ebind_eq_Inr_iff)
    have "events_ok d" using d(1) ok2
      by (auto simp: advance_queue_def Let_def events_ok_def split: option.splits prod.splits if_splits)
    moreover have "events_ok (d\<lparr>param_queue := q, most_recent := mr\<rparr>) = events_ok d" for q mr
      by (simp add: events_ok_def)
    ultimately show ?thesis using d(2)
      by (auto simp: prefetch_def Let_def split: if_splits option.splits prod.splits intro: all_gather_events)
  next
    case False
    then show ?thesis using c(3) ok2 by simp
  qed
  then show "events_ok c'" using c(4) by (simp add: events_ok_def)
qed

lemma hook_events: "hook_step env e c = Inr c' \<Longrightarrow> events_ok c \<Longrightarrow> events_ok c'"
proof (cases e)
  case (Pre m)
  assume h: "hook_step env e c = Inr c'" and ok: "events_ok c"
  then obtain c1 c2 where c: "trace_prologue m c = Inr c1" "(if mode c1 = RECORD then record_module m c1 else Inr c1) = Inr c2"
      "fetch_sub_module env m c2 = Inr c'"
    by (auto simp: hook_step_def Pre pre_hook_def ebind_eq_Inr_iff)
  have "events_ok c1" using c(1) ok
    by (auto simp: trace_prologue_def invalidate_trace_def clear_trace_structures_def events_ok_def split: if_splits)
  then have "events_ok c2" using c(2) by (auto simp: record_module_def events_ok_def split: if_splits)
  then show "events_ok c'" using c(3) by (blast intro: fetch_events)
next
  case (Post m)
  assume "hook_step env e c = Inr c'" and "events_ok c"
  then show "events_ok c'" by (auto simp: hook_step_def Post intro: release_events)
qed

lemma record_parameters_events:
  "record_parameters env m c = Inr c' \<Longrightarrow> events_ok c \<Longrightarrow> events_ok c'"
  by (auto simp: record_parameters_def events_ok_def split: if_splits list.splits)

lemma reset_events: "reset_step env c = Inr c' \<Longrightarrow> events_ok c \<Longrightarrow> events_ok c'"
proof -
  assume r: "reset_step env c = Inr c'" and ok: "events_ok c"
  have tr: "events_ok d" if "construct_parameter_trace env c = Inr d" for d
    using that [unfolded construct_parameter_trace_def]
    by (rule foldE_invariant) (use ok in \<open>auto simp: events_ok_def dest: record_parameters_events [unfolded events_ok_def]\<close>)
  show "events_ok c'"
  proof (cases "mode c")
    case RECORD
    then obtain d where d: "construct_parameter_trace env c = Inr d"
        "c' = d\<lparr>mode := COMPLETE, param_queue := Some (param_order d), most_recent := (\<lambda>_. never_fetched),
                module_fetched_for := (\<lambda>_. []), step_id := 0, n_available := 0\<rparr>"
      using r by (auto simp: reset_step_def ebind_eq_Inr_iff split: if_splits)
    show ?thesis using tr [OF d(1)] by (simp add: d(2) events_ok_def)
  qed (use r ok in \<open>auto simp: reset_step_def ebind_eq_Inr_iff events_ok_def split: if_splits\<close>)
qed

text \<open>
  In every run that does not raise, of any steps whatever, at most 1025 CUDA events are
  pending: the limit of 1024 is tested before the event of the current wait is appended.
\<close>

theorem event_queue_bounded:
  "case ebind (foldE (training_step env) ess (init_coord b r a h)) (run_hooks env es) of
     Inl e \<Rightarrow> True | Inr c \<Rightarrow> length (ongoing_events c) \<le> 1025"
proof (cases "ebind (foldE (training_step env) ess (init_coord b r a h)) (run_hooks env es)")
  case (Inr c')
  then obtain c where c: "foldE (training_step env) ess (init_coord b r a h) = Inr c" "run_hooks env es c = Inr c'"
    by (auto simp: ebind_eq_Inr_iff)
  have run: "events_ok c'" if "run_hooks env es c = Inr c'" "events_ok c" for es c c'
    using that [unfolded run_hooks_def] by (rule foldE_invariant) (rule hook_events)
  have "events_ok c"
    using c(1)
  proof (rule foldE_invariant)
    show "events_ok (init_coord b r a h)" by (simp add: events_ok_def init_coord_def)
    show "events_ok s'" if "events_ok s" "training_step env x s = Inr s'" for x s s'
      using that by (auto simp: training_step_def ebind_eq_Inr_iff dest: run reset_events)
  qed
  from run [OF c(2) this] show ?thesis using Inr by (simp add: events_ok_def)
qed simp

section \<open>Departing from the trace\<close>

lemma run_invalid:
  assumes "coord_inv env full S dt P c" and "env_ok env P" and "mode c = INVALID" and "opened env c Op" and "paired Op es"
  shows "\<exists>c'. run_hooks env es c = Inr c' \<and> coord_inv env full S dt P c' \<and> mode c' = INVALID
    \<and> submodule_order c' = submodule_order c \<and> param_order c' = param_order c \<and> opened env c' (open_after Op es)
    \<and> fst ` set (inflight c') = fst ` set (inflight c) - (\<Union>m \<in> set (pre_modules es). set (c_params env m))"
  using assms
proof (induction es arbitrary: c Op)
  case Nil
  then show ?case by (simp add: run_hooks_def)
next
  case (Cons e es)
  show ?case
  proof (cases e)
    case (Pre m)
    have "mode c \<noteq> COMPLETE" using Cons.prems(3) by simp
    then obtain c1 where c1: "fetch_sub_module env m c = Inr c1" "coord_inv env full S dt P c1" "mode c1 = mode c"
        "submodule_order c1 = submodule_order c" "param_order c1 = param_order c"
        "\<forall>i. active_sub_modules (heap c1 i) =
          (if i \<in> set (c_params env m) then insert m (active_sub_modules (heap c i)) else active_sub_modules (heap c i))"
        "fst ` set (inflight c1) = fst ` set (inflight c) - set (c_params env m)"
      using fetch_sub_module_ok [OF Cons.prems(1,2), of m] by auto
    have step: "hook_step env (Pre m) c = Inr c1"
      using Cons.prems(3) c1(1) by (simp add: hook_step_def pre_hook_def trace_prologue_def)
    have "opened env c1 (insert m Op)" using Cons.prems(4) c1(6) by (auto simp: opened_def)
    moreover have "mode c1 = INVALID" using c1(3) Cons.prems(3) by simp
    moreover have "paired (insert m Op) es" using Cons.prems(5) by (simp add: Pre)
    ultimately obtain c' where c': "run_hooks env es c1 = Inr c'" "coord_inv env full S dt P c'" "mode c' = INVALID"
        "submodule_order c' = submodule_order c1" "param_order c' = param_order c1"
        "opened env c' (open_after (insert m Op) es)"
        "fst ` set (inflight c') = fst ` set (inflight c1) - (\<Union>m \<in> set (pre_modules es). set (c_params env m))"
      using Cons.IH [OF c1(2) Cons.prems(2)] by blast
    have "run_hooks env (e # es) c = Inr c'" using step c'(1) by (simp add: Pre run_hooks_def)
    moreover have "fst ` set (inflight c')
        = fst ` set (inflight c) - (\<Union>m \<in> set (pre_modules (e # es)). set (c_params env m))"
      unfolding c'(7) c1(7) by (auto simp: Pre)
    ultimately show ?thesis using c' c1 by (simp add: Pre)
  next
    case (Post m)
    then have m: "m \<in> Op" using Cons.prems(5) by simp
    obtain c1 where c1: "hook_step env (Post m) c = Inr c1" "coord_inv env full S dt P c1" "ctl c1 = ctl c"
        "inflight c1 = inflight c" "opened env c1 (Op - {m})"
      using post_ok [OF Cons.prems(1,2,4) m] by blast
    have "submodule_order c1 = submodule_order c" "mode c1 = INVALID" "param_order c1 = param_order c"
      using c1(3) Cons.prems(3) by (simp_all add: ctl_def)
    with Cons.IH [OF c1(2) Cons.prems(2) _ c1(5)] Cons.prems(5) c1 show ?thesis
      by (auto simp: Post run_hooks_def)
  qed
qed

lemma pre_mismatch:
  assumes inv: "coord_inv env full S dt P c" and env: "env_ok env P" and rp: "replaying env c"
    and op: "opened env c Op" and k: "step_id c < length (submodule_order c)" "submodule_order c ! step_id c \<noteq> m"
  shows "\<exists>c'. hook_step env (Pre m) c = Inr c' \<and> coord_inv env full S dt P c' \<and> mode c' = INVALID
    \<and> submodule_order c' = [] \<and> param_order c' = [] \<and> opened env c' (insert m Op)
    \<and> fst ` set (inflight c') = fst ` set (inflight c) - set (c_params env m)"
proof -
  let ?c1 = "clear_trace_structures (c\<lparr>mode := INVALID\<rparr>)"
  have m: "mode c = COMPLETE" using rp by (simp add: replaying_def)
  have f: "heap ?c1 = heap c" "inflight ?c1 = inflight c" "handles ?c1 = handles c" "mode ?c1 = INVALID"
    "submodule_order ?c1 = []" "param_order ?c1 = []"
    by (simp_all add: clear_trace_structures_def)
  have inv1: "coord_inv env full S dt P ?c1" using inv f by (simp add: coord_inv_cong [of ?c1 c])
  obtain c' where c': "fetch_sub_module env m ?c1 = Inr c'" "coord_inv env full S dt P c'" "mode c' = mode ?c1"
        "submodule_order c' = submodule_order ?c1" "param_order c' = param_order ?c1"
        "\<forall>i. active_sub_modules (heap c' i) =
          (if i \<in> set (c_params env m) then insert m (active_sub_modules (heap ?c1 i)) else active_sub_modules (heap ?c1 i))"
        "fst ` set (inflight c') = fst ` set (inflight ?c1) - set (c_params env m)"
    using fetch_sub_module_ok [OF inv1 env, of m] f(4) by auto
  have "hook_step env (Pre m) c = Inr c'"
    using m k c'(1) f(4) by (simp add: hook_step_def pre_hook_def trace_prologue_def invalidate_trace_def)
  moreover have "opened env c' (insert m Op)" using op c'(6) f(1) by (auto simp: opened_def)
  ultimately show ?thesis using c' f by auto
qed


lemma run_hooks_append: "run_hooks env (xs @ ys) c = ebind (run_hooks env xs c) (run_hooks env ys)"
proof -
  have "run_hooks env es = foldE (hook_step env) es" for es by (simp add: run_hooks_def fun_eq_iff)
  then show ?thesis by (simp add: foldE_append)
qed

lemma paired_append: "paired Op (xs @ ys) \<longleftrightarrow> paired Op xs \<and> paired (open_after Op xs) ys"
  by (induction Op xs rule: paired.induct) auto

lemma trained:
  assumes env: "env_ok env P" and "ranks_agree env" and h: "ready env full S dt P h"
    and na: "\<And>i. i \<in> P \<Longrightarrow> ds_status (h i) = NOT_AVAILABLE \<and> active_sub_modules (h i) = {}"
    and steps: "\<And>es. es \<in> set ess \<Longrightarrow> paired {} es \<and> pre_modules es = ms" and "ess \<noteq> []"
  shows "\<exists>c. foldE (training_step env) ess (init_coord b r a h) = Inr c \<and> coord_inv env full S dt P c \<and> fresh_replay env ms c"
proof -
  have i: "coord_inv env full S dt P (init_coord b r a h)" "recording (init_coord b r a h)" "submodule_order (init_coord b r a h) = []"
    using init_ok [OF h na] by auto
  obtain es ess' where e: "ess = es # ess'" using assms(6) by (cases ess) auto
  obtain c1 where c1: "training_step env es (init_coord b r a h) = Inr c1" "coord_inv env full S dt P c1" "fresh_replay env ms c1"
    using step_recording [OF i(1) env i(2,3) _ assms(2), of es] steps e by auto
  show ?thesis using steps_replaying [OF c1(2) env c1(3), of ess'] steps e c1(1) by auto
qed

text \<open>
  C30: a step that departs from the recorded trace at module \<open>m\<close>. The hooks go on without an
  exception, the trace is dropped, and the modules still find their parameters. What has
  been prefetched for the recorded order stays in flight until a module needs it; if one of
  them is never used, the reset at the end of the step raises, otherwise the next step records
  a new trace.
\<close>

theorem departure_from_trace:
  assumes "env_ok env P" and agree: "ranks_agree env" and "ready env full S dt P h"
    and "\<And>i. i \<in> P \<Longrightarrow> ds_status (h i) = NOT_AVAILABLE \<and> active_sub_modules (h i) = {}"
    and "\<And>es. es \<in> set ess \<Longrightarrow> paired {} es \<and> pre_modules es = ms" and "ess \<noteq> []"
    and ms: "ms = pre_modules es1 @ m' # rest" and "m \<noteq> m'" and pd: "paired {} (es1 @ Pre m # es2)"
  shows "\<exists>c c1 c2. foldE (training_step env) ess (init_coord b r a h) = Inr c
    \<and> run_hooks env es1 c = Inr c1 \<and> run_hooks env (Pre m # es2) c1 = Inr c2 \<and> mode c2 = INVALID
    \<and> fst ` set (inflight c2) = fst ` set (inflight c1) - (\<Union>x \<in> set (m # pre_modules es2). set (c_params env x))
    \<and> (\<forall>x \<in> open_after {} (es1 @ Pre m # es2). \<forall>p \<in> set (c_params env x).
          ds_status (heap c2 p) = AVAILABLE \<and> pdata (heap c2 p) = full p)
    \<and> (if inflight c2 = [] then \<exists>c3. reset_step env c2 = Inr c3 \<and> recording c3 \<and> submodule_order c3 = []
       else reset_step env c2 = Inl (RuntimeError ''still have inflight params''))"
proof -
  obtain c where c: "foldE (training_step env) ess (init_coord b r a h) = Inr c" "coord_inv env full S dt P c" "fresh_replay env ms c"
    using trained [OF assms(1-6)] by blast
  have p1: "paired {} es1" and p2: "paired (insert m (open_after {} es1)) es2" using pd by (simp_all add: paired_append)
  have d: "drop (step_id c) (submodule_order c) = pre_modules es1 @ m' # rest" using c(3) ms by (simp add: fresh_replay_def)
  have rp: "replaying env c" using c(3) by (simp add: fresh_replay_def)
  obtain c1 where c1: "run_hooks env es1 c = Inr c1" "coord_inv env full S dt P c1" "replaying env c1"
      "submodule_order c1 = ms" "step_id c1 = length (pre_modules es1)" "opened env c1 (open_after {} es1)"
    using run_replaying [OF c(2) assms(1) rp opened_empty p1 d] c(3) by (auto simp: fresh_replay_def)
  have k: "step_id c1 < length (submodule_order c1)" "submodule_order c1 ! step_id c1 \<noteq> m"
    using c1(4,5) ms assms(8) by auto
  obtain c1' where c1': "hook_step env (Pre m) c1 = Inr c1'" "coord_inv env full S dt P c1'" "mode c1' = INVALID"
      "submodule_order c1' = []" "param_order c1' = []" "opened env c1' (insert m (open_after {} es1))"
      "fst ` set (inflight c1') = fst ` set (inflight c1) - set (c_params env m)"
    using pre_mismatch [OF c1(2) assms(1) c1(3,6) k] by blast
  obtain c2 where c2: "run_hooks env es2 c1' = Inr c2" "coord_inv env full S dt P c2" "mode c2 = INVALID"
      "submodule_order c2 = []" "param_order c2 = []" "opened env c2 (open_after (insert m (open_after {} es1)) es2)"
      "fst ` set (inflight c2) = fst ` set (inflight c1') - (\<Union>m \<in> set (pre_modules es2). set (c_params env m))"
    using run_invalid [OF c1'(2) assms(1) c1'(3,6) p2] c1'(4,5) by auto
  have oa: "open_after Op (xs @ ys) = open_after (open_after Op xs) ys" for Op xs ys
    by (induction Op xs rule: open_after.induct) auto
  have vals: "\<forall>x \<in> open_after {} (es1 @ Pre m # es2). \<forall>p \<in> set (c_params env x).
          ds_status (heap c2 p) = AVAILABLE \<and> pdata (heap c2 p) = full p"
    using opened_value [OF c2(2,6) _ _ assms(1)] by (simp add: oa)
  have reset: "if inflight c2 = [] then \<exists>c3. reset_step env c2 = Inr c3 \<and> recording c3 \<and> submodule_order c3 = []
       else reset_step env c2 = Inl (RuntimeError ''still have inflight params'')"
    using c2(3-5) agree
    by (auto simp: reset_step_def ranks_agree_def assert_ints_same_as_other_ranks_def recording_def fun_eq_iff)
  have "run_hooks env (Pre m # es2) c1 = Inr c2" using c1'(1) c2(1) by (simp add: run_hooks_def)
  moreover have "fst ` set (inflight c2) = fst ` set (inflight c1) - (\<Union>x \<in> set (m # pre_modules es2). set (c_params env x))"
    unfolding c2(7) c1'(7) by auto
  ultimately show ?thesis using c(1) c1(1) c2(3) vals reset by blast
qed

theorem departure_from_trace_witness:
  "\<exists>c c1 c2. foldE (training_step demo_cenv) [[Pre 0, Pre 1, Post 1, Pre 2, Post 0, Post 2]]
      (init_coord 3 0 100 mini_heap) = Inr c
    \<and> run_hooks demo_cenv [Pre 0, Post 0] c = Inr c1 \<and> run_hooks demo_cenv [Pre 2, Post 2] c1 = Inr c2
    \<and> mode c2 = INVALID \<and> fst ` set (inflight c2) = fst ` set (inflight c1) - {1}"
proof -
  have "\<exists>c c1 c2. foldE (training_step demo_cenv) [[Pre 0, Pre 1, Post 1, Pre 2, Post 0, Post 2]]
      (init_coord 3 0 100 mini_heap) = Inr c
    \<and> run_hooks demo_cenv [Pre 0, Post 0] c = Inr c1 \<and> run_hooks demo_cenv (Pre 2 # [Post 2]) c1 = Inr c2 \<and> mode c2 = INVALID
    \<and> fst ` set (inflight c2) = fst ` set (inflight c1) - (\<Union>x \<in> set (2 # pre_modules [Post 2]). set (c_params demo_cenv x))
    \<and> (\<forall>x \<in> open_after {} ([Pre 0, Post 0] @ Pre 2 # [Post 2]). \<forall>p \<in> set (c_params demo_cenv x).
          ds_status (heap c2 p) = AVAILABLE \<and> pdata (heap c2 p) = mini_full p)
    \<and> (if inflight c2 = [] then \<exists>c3. reset_step demo_cenv c2 = Inr c3 \<and> recording c3 \<and> submodule_order c3 = []
       else reset_step demo_cenv c2 = Inl (RuntimeError ''still have inflight params''))"
    by (rule departure_from_trace [OF mini_env mini_ready, where ms = "[0, 1, 2]" and m' = 1 and rest = "[2]"])
      (auto simp: mini_heap_def convert_to_deepspeed_param_def)
  then show ?thesis by (fastforce simp: demo_cenv_def)
qed

text \<open>
  A step with more module calls than the recorded one. The trace is not invalidated: the
  check indexes the recorded order with a step number past its end and raises
  \<open>IndexError\<close>.
\<close>

theorem overrun_raises:
  assumes "env_ok env P" and "ranks_agree env" and "ready env full S dt P h"
    and "\<And>i. i \<in> P \<Longrightarrow> ds_status (h i) = NOT_AVAILABLE \<and> active_sub_modules (h i) = {}"
    and "\<And>es. es \<in> set ess \<Longrightarrow> paired {} es \<and> pre_modules es = ms" and "ess \<noteq> []"
    and "paired {} es1" and "pre_modules es1 = ms"
  shows "ebind (foldE (training_step env) ess (init_coord b r a h)) (run_hooks env (es1 @ Pre m # es2)) = Inl IndexError"
proof -
  obtain c where c: "foldE (training_step env) ess (init_coord b r a h) = Inr c" "coord_inv env full S dt P c" "fresh_replay env ms c"
    using trained [OF assms(1-6)] by blast
  have d: "drop (step_id c) (submodule_order c) = pre_modules es1 @ []" using c(3) assms(8) by (simp add: fresh_replay_def)
  have rp: "replaying env c" using c(3) by (simp add: fresh_replay_def)
  obtain c1 where c1: "run_hooks env es1 c = Inr c1" "replaying env c1" "submodule_order c1 = ms" "step_id c1 = length ms"
    using run_replaying [OF c(2) assms(1) rp opened_empty assms(7) d] c(3) assms(8) by (auto simp: fresh_replay_def)
  then have "hook_step env (Pre m) c1 = Inl IndexError"
    by (simp add: hook_step_def pre_hook_def trace_prologue_def replaying_def)
  then have "run_hooks env (Pre m # es2) c1 = Inl IndexError" by (simp add: run_hooks_def)
  then show ?thesis using c(1) c1(1) by (simp add: run_hooks_append)
qed

theorem overrun_raises_witness:
  "ebind (foldE (training_step demo_cenv) [[Pre 0, Pre 1, Post 1, Pre 2, Post 0, Post 2]] (init_coord 3 0 100 mini_heap))
     (run_hooks demo_cenv ([Pre 0, Pre 1, Pre 2] @ Pre 7 # [])) = Inl IndexError"
  by (rule overrun_raises [OF mini_env mini_ready, where ms = "[0, 1, 2]"])
    (auto simp: mini_heap_def convert_to_deepspeed_param_def)

section \<open>What a release keeps\<close>

lemma reuse_scan_subset: "reuse_scan env h limit ms s r \<subseteq> r"
proof (induction ms arbitrary: s r)
  case (Cons m ms)
  show ?case using Cons.IH [of _ "r - set (c_params env m)"] by auto
qed simp

lemma reuse_scan_iff:
  assumes "p \<in> rel"
  shows "p \<in> reuse_scan env h limit ms seen rel \<longleftrightarrow>
    (\<forall>j < length ms. seen + (\<Sum>m \<leftarrow> take j ms. \<Sum>p \<leftarrow> c_params env m. int (ds_numel (h p))) < limit
        \<longrightarrow> p \<notin> set (c_params env (ms ! j)))"
  using assms
proof (induction ms arbitrary: seen rel)
  case Nil
  then show ?case by simp
next
  case (Cons m ms)
  let ?n = "\<Sum>p \<leftarrow> c_params env m. int (ds_numel (h p))"
  have nn: "0 \<le> (\<Sum>m \<leftarrow> xs. \<Sum>p \<leftarrow> c_params env m. int (ds_numel (h p)))" for xs
    by (intro sum_list_nonneg) (auto intro!: sum_list_nonneg)
  have n0: "0 \<le> ?n" by (intro sum_list_nonneg) auto
  show ?case
  proof (cases "seen \<ge> limit")
    case True
    have "seen + (\<Sum>m \<leftarrow> take j (m # ms). \<Sum>p \<leftarrow> c_params env m. int (ds_numel (h p))) \<ge> limit" for j
      using True nn [of "take j (m # ms)"] by linarith
    then show ?thesis using True Cons.prems by (auto simp: not_less [symmetric])
  next
    case False
    show ?thesis
    proof (cases "p \<in> set (c_params env m)")
      case True
      have "p \<notin> reuse_scan env h limit ms s (rel - set (c_params env m))" for s
        using reuse_scan_subset [of env h limit ms s "rel - set (c_params env m)"] True by blast
      then show ?thesis using False True by (auto intro!: exI [of _ 0])
    next
      case False': False
      have "p \<in> rel - set (c_params env m)" using Cons.prems False' by simp
      from Cons.IH [OF this, of "seen + ?n"] show ?thesis
        using False False' by (auto simp: All_less_Suc2 add.assoc)
    qed
  qed
qed

text \<open>
  The parameters a release may free: those of the module that are not persistent, were
  not skipped by the prefetcher for a later use, and are not used by a module of the window.
  The module at distance \<open>j\<close> is in the window exactly if the modules before it have fewer
  elements than the reuse distance, so with the default distance 0 the window is empty.
\<close>

theorem release_window:
  "params_to_release env m sid c =
    (if mode c \<noteq> COMPLETE then Inl (RuntimeError ''expected trace to be complete'')
     else Inr {p \<in> set (c_params env m). \<not> ds_persist (heap c p) \<and> most_recent c p \<le> int sid
       \<and> \<not> (\<exists>j < length (submodule_order c) - sid.
            (\<Sum>m \<leftarrow> take j (drop sid (submodule_order c)). \<Sum>p \<leftarrow> c_params env m. int (ds_numel (heap c p))) < max_reuse_dist c
            \<and> p \<in> set (c_params env (submodule_order c ! (sid + j))))})"
proof -
  let ?K = "{p \<in> {p \<in> set (c_params env m). \<not> ds_persist (heap c p)}. \<not> (most_recent c p > int sid)}"
  have "p \<in> reuse_scan env (heap c) (max_reuse_dist c) (drop sid (submodule_order c)) 0 ?K \<longleftrightarrow>
      p \<in> ?K \<and> (\<forall>j < length (submodule_order c) - sid.
            (\<Sum>m \<leftarrow> take j (drop sid (submodule_order c)). \<Sum>p \<leftarrow> c_params env m. int (ds_numel (heap c p))) < max_reuse_dist c
            \<longrightarrow> p \<notin> set (c_params env (submodule_order c ! (sid + j))))" for p
    using reuse_scan_subset [of env "heap c" "max_reuse_dist c" "drop sid (submodule_order c)" 0 ?K]
      reuse_scan_iff [of p ?K env "heap c" "max_reuse_dist c" "drop sid (submodule_order c)" 0]
    by (cases "p \<in> ?K") (auto simp: nth_drop)
  then have "reuse_scan env (heap c) (max_reuse_dist c) (drop sid (submodule_order c)) 0 ?K =
      {p \<in> set (c_params env m). \<not> ds_persist (heap c p) \<and> most_recent c p \<le> int sid
       \<and> \<not> (\<exists>j < length (submodule_order c) - sid.
            (\<Sum>m \<leftarrow> take j (drop sid (submodule_order c)). \<Sum>p \<leftarrow> c_params env m. int (ds_numel (heap c p))) < max_reuse_dist c
            \<and> p \<in> set (c_params env (submodule_order c ! (sid + j))))}"
    unfolding set_eq_iff mem_Collect_eq not_less by blast
  then show ?thesis unfolding params_to_release_def Let_def by simp
qed

end
