(* ===== verification/Offload.thy ===== *)
theory Offload
  imports Coordinator
begin

text \<open>
  The hooks of \<^verbatim>\<open>src/smartnic_offload/parameter_offload.py\<close>: which calls of the coordinator a
  forward and backward pass makes. A module is its \<^verbatim>\<open>id\<close>. \<open>mod_info\<close> has the attributes the
  hooks keep on a module, \<open>offload\<close> those of \<^verbatim>\<open>ZeroOffload\<close> together with the global
  \<^verbatim>\<open>FWD_MODULE_STACK\<close> (top first). The two coordinators, for training and for inference, share
  the parameters. PyTorch's part, when a hook or the backward of an autograd node runs, is the
  sequence of events.
\<close>

section \<open>State\<close>

record mod_info =
  training :: bool
  timing_call_counter :: nat
  fwd_call_stack :: "nat list"
  active_fwd_call :: "nat option"
  bwd_active_call :: "nat option"
  last_bwd_pre_call :: "nat option"
  pre_backward_ref_cnt :: int
  ds_grads_remaining :: int
  external_params :: "nat list"

record 'a offload =
  o_heap :: "'a heap"
  o_coords :: "bool \<Rightarrow> 'a coord option"
  o_mods :: "nat \<Rightarrow> mod_info"
  o_stack :: "nat list"
  o_root :: nat
  o_bucket :: int
  o_reuse :: int
  o_avail :: int
  next_ptr :: nat

definition upd_mod :: "nat \<Rightarrow> (mod_info \<Rightarrow> mod_info) \<Rightarrow> 'a offload \<Rightarrow> 'a offload" where
  "upd_mod m f s = s\<lparr>o_mods := (o_mods s)(m := f (o_mods s m))\<rparr>"

text \<open>\<^verbatim>\<open>iter_params\<close>: a module's own parameters, then the ones registered as external.\<close>

definition iter_env :: "'a cenv \<Rightarrow> 'a offload \<Rightarrow> 'a cenv" where
  "iter_env env s = env\<lparr>c_params := (\<lambda>m. c_params env m @ external_params (o_mods s m)),
     c_all_params := c_all_params env @ external_params (o_mods s (o_root s))\<rparr>"

text \<open>
  \<^verbatim>\<open>get_param_coordinator\<close> makes the coordinator at its first use. An operation on it works on
  the shared parameters.
\<close>

definition get_param_coordinator :: "bool \<Rightarrow> 'a offload \<Rightarrow> 'a coord" where
  "get_param_coordinator tr s =
     (case o_coords s tr of
        None \<Rightarrow> init_coord (o_bucket s) (o_reuse s) (o_avail s) (o_heap s)
      | Some c \<Rightarrow> c\<lparr>heap := o_heap s\<rparr>)"

definition on_coord :: "bool \<Rightarrow> ('a coord \<Rightarrow> 'a coord result) \<Rightarrow> 'a offload \<Rightarrow> 'a offload result" where
  "on_coord tr f s =
     ebind (f (get_param_coordinator tr s)) (\<lambda>c.
       Inr (s\<lparr>o_heap := heap c, o_coords := (o_coords s)(tr := Some c)\<rparr>))"

section \<open>Module ids\<close>

datatype mtree = MNode "mtree list"

text \<open>
  \<^verbatim>\<open>_register_hooks_recursively\<close>: the counter is a list shared by all calls; the result is the
  counter and the ids in the order they are given.
\<close>

fun number_modules :: "nat \<Rightarrow> mtree \<Rightarrow> nat \<times> nat list"
  and number_children :: "nat \<Rightarrow> mtree list \<Rightarrow> nat \<times> nat list" where
  "number_modules count (MNode ts) =
     (case number_children count ts of (c, ids) \<Rightarrow> (c, count # ids))"
| "number_children count [] = (count, [])"
| "number_children count (t # ts) =
     (case number_modules (count + 1) t of
        (c, ids) \<Rightarrow> (case number_children c ts of (c', ids') \<Rightarrow> (c', ids @ ids')))"

section \<open>Values a module takes and returns\<close>

text \<open>
  A tensor, with its \<^verbatim>\<open>requires_grad\<close>; a parameter (whose class is not \<^verbatim>\<open>torch.Tensor\<close> itself);
  a list or tuple; a dict; an object of a built-in type; any other object, with its attributes.
\<close>

datatype val =
    Tens bool
  | ParamVal nat
  | Seq "val list"
  | Dict "(string \<times> val) list"
  | NoneVal
  | Builtin
  | Obj "(string \<times> val) list"

text \<open>
  \<^verbatim>\<open>_apply_to_tensors_only\<close>: \<open>f\<close> is \<^verbatim>\<open>functional.apply\<close>, with its effect on the module.
\<close>

fun apply_to_tensors :: "(bool \<Rightarrow> 's \<Rightarrow> 's \<times> bool) \<Rightarrow> val \<Rightarrow> 's \<Rightarrow> 's \<times> val"
  and apply_seq :: "(bool \<Rightarrow> 's \<Rightarrow> 's \<times> bool) \<Rightarrow> val list \<Rightarrow> 's \<Rightarrow> 's \<times> val list"
  and apply_dict :: "(bool \<Rightarrow> 's \<Rightarrow> 's \<times> bool) \<Rightarrow> (string \<times> val) list \<Rightarrow> 's \<Rightarrow> 's \<times> (string \<times> val) list" where
  "apply_to_tensors f (Tens rg) s = (case f rg s of (s', rg') \<Rightarrow> (s', Tens rg'))"
| "apply_to_tensors f (Seq vs) s = (case apply_seq f vs s of (s', vs') \<Rightarrow> (s', Seq vs'))"
| "apply_to_tensors f (Dict kvs) s = (case apply_dict f kvs s of (s', kvs') \<Rightarrow> (s', Dict kvs'))"
| "apply_to_tensors f (ParamVal p) s = (s, ParamVal p)"
| "apply_to_tensors f NoneVal s = (s, NoneVal)"
| "apply_to_tensors f Builtin s = (s, Builtin)"
| "apply_to_tensors f (Obj kvs) s = (s, Obj kvs)"
| "apply_seq f [] s = (s, [])"
| "apply_seq f (v # vs) s =
     (case apply_to_tensors f v s of (s1, v') \<Rightarrow> (case apply_seq f vs s1 of (s2, vs') \<Rightarrow> (s2, v' # vs')))"
| "apply_dict f [] s = (s, [])"
| "apply_dict f ((k, v) # kvs) s =
     (case apply_to_tensors f v s of (s1, v') \<Rightarrow> (case apply_dict f kvs s1 of (s2, kvs') \<Rightarrow> (s2, (k, v') # kvs')))"

text \<open>The \<^verbatim>\<open>forward\<close> of the two autograd functions; the result of \<^verbatim>\<open>detach\<close> gets the node.\<close>

definition pre_backward_forward :: "bool \<Rightarrow> mod_info \<Rightarrow> mod_info \<times> bool" where
  "pre_backward_forward rg i = (i\<lparr>pre_backward_ref_cnt := pre_backward_ref_cnt i + 1\<rparr>, rg)"

definition post_backward_forward :: "bool \<Rightarrow> mod_info \<Rightarrow> mod_info \<times> bool" where
  "post_backward_forward rg i =
     (if rg then i\<lparr>ds_grads_remaining := ds_grads_remaining i + 1\<rparr> else i, rg)"

section \<open>External parameters\<close>

definition register_external_parameter :: "nat \<Rightarrow> nat \<Rightarrow> 'a offload \<Rightarrow> 'a offload" where
  "register_external_parameter m p =
     upd_mod m (\<lambda>i. if p \<in> set (external_params i) then i else i\<lparr>external_params := external_params i @ [p]\<rparr>)"

definition unregister_external_parameter :: "nat \<Rightarrow> nat \<Rightarrow> 'a offload \<Rightarrow> 'a offload result" where
  "unregister_external_parameter m p s =
     (if p \<in> set (external_params (o_mods s m))
      then Inr (upd_mod m (\<lambda>i. i\<lparr>external_params := filter (\<lambda>q. q \<noteq> p) (external_params i)\<rparr>) s)
      else Inl KeyError)"

text \<open>\<^verbatim>\<open>param.all_gather()\<close>, the synchronous gather of one parameter.\<close>

definition gather_now :: "'a cenv \<Rightarrow> nat \<Rightarrow> 'a offload \<Rightarrow> 'a offload result" where
  "gather_now env p s =
     ebind (all_gather_sync (c_world env) (c_fresh env) (c_gather env) (\<lambda>_. True) [p] (o_heap s)) (\<lambda>h.
       Inr (s\<lparr>o_heap := h\<rparr>))"

text \<open>\<^verbatim>\<open>ZeroOrderedDict.__getitem__\<close>: access to a parameter of a module that is not available.\<close>

definition dict_getitem :: "'a cenv \<Rightarrow> bool \<Rightarrow> nat option \<Rightarrow> 'a offload \<Rightarrow> 'a offload result" where
  "dict_getitem env in_forward param s =
     (case param of
        None \<Rightarrow> Inr s
      | Some p \<Rightarrow>
          if ds_status (o_heap s p) = NOT_AVAILABLE \<and> in_forward
          then (case o_stack s of
                  [] \<Rightarrow> Inl IndexError
                | m # _ \<Rightarrow> gather_now env p (register_external_parameter m p s))
          else Inr s)"

section \<open>The host copies\<close>

definition data_shape :: "'a param \<Rightarrow> nat list" where
  "data_shape p = (if pdata p = [] \<and> ds_numel p \<noteq> 0 then [0] else ds_shape p)"

definition needs_new :: "'a param \<Rightarrow> 'a cpu_buf option \<Rightarrow> bool" where
  "needs_new p cpu_full =
     (case cpu_full of
        None \<Rightarrow> True
      | Some b \<Rightarrow> \<not> buf_on_cpu b \<or> \<not> buf_pinned b \<or> buf_shape b \<noteq> data_shape p \<or> buf_dtype b \<noteq> pdtype p)"

text \<open>
  \<^verbatim>\<open>_ensure_pinned_cpu_full_param\<close>: \<open>k\<close> is the address the next allocation gets, \<open>u\<close> what
  uninitialised memory holds. The result is the buffer, the parameter and the next address.
\<close>

definition ensure_pinned_cpu_full_param ::
  "(nat \<Rightarrow> 'a) \<Rightarrow> 'a param \<Rightarrow> nat \<Rightarrow> 'a cpu_buf \<times> 'a param \<times> nat" where
  "ensure_pinned_cpu_full_param u p k =
     (let cpu_full = (case cpu_full_param p of None \<Rightarrow> cpu_full_param_pool p | Some b \<Rightarrow> Some b) in
      if needs_new p cpu_full
      then let b = \<lparr>buf_ptr = k, buf_on_cpu = True, buf_pinned = True, buf_shape = data_shape p,
                    buf_dtype = pdtype p, buf_data = fresh u (length (pdata p))\<rparr>
           in (b, p\<lparr>cpu_full_param_pool := Some b, cpu_full_param := Some b\<rparr>, Suc k)
      else (the cpu_full, p\<lparr>cpu_full_param := cpu_full\<rparr>, k))"

text \<open>A write through one reference to a buffer is seen through the other.\<close>

definition write_buf :: "nat \<Rightarrow> 'a list \<Rightarrow> 'a cpu_buf \<Rightarrow> 'a cpu_buf" where
  "write_buf ptr v b = (if buf_ptr b = ptr then b\<lparr>buf_data := v\<rparr> else b)"

definition save_to_host :: "(nat \<Rightarrow> 'a) \<Rightarrow> 'a param \<Rightarrow> nat \<Rightarrow> 'a param \<times> nat" where
  "save_to_host u p k =
     (case ensure_pinned_cpu_full_param u p k of
        (b, p1, k1) \<Rightarrow>
          (p1\<lparr>cpu_full_param := map_option (write_buf (buf_ptr b) (pdata p1)) (cpu_full_param p1),
              cpu_full_param_pool := map_option (write_buf (buf_ptr b) (pdata p1)) (cpu_full_param_pool p1)\<rparr>, k1))"

definition save_one :: "'a cenv \<Rightarrow> nat set \<Rightarrow> nat \<Rightarrow> 'a offload \<Rightarrow> 'a offload" where
  "save_one env rel p s =
     (if p \<in> rel \<and> \<not> is_external_param (o_heap s p)
      then case save_to_host (c_fresh env) (o_heap s p) (next_ptr s) of
             (p', k) \<Rightarrow> s\<lparr>o_heap := (o_heap s)(p := p'), next_ptr := k\<rparr>
      else s)"

definition pool_one :: "nat set \<Rightarrow> nat \<Rightarrow> 'a offload \<Rightarrow> 'a offload" where
  "pool_one rel p s =
     (if p \<in> rel \<and> \<not> is_external_param (o_heap s p)
      then s\<lparr>o_heap := (o_heap s)(p := pool_cpu_full (o_heap s p))\<rparr>
      else s)"

section \<open>Hook functions\<close>

definition releasable :: "'a cenv \<Rightarrow> nat \<Rightarrow> 'a offload \<Rightarrow> nat set result" where
  "releasable env m s =
     (let c = get_param_coordinator (training (o_mods s m)) s in
      if mode c = COMPLETE then params_to_release_for_submodule (iter_env env s) m c
      else Inr (set (c_params (iter_env env s) m)))"

definition pre_sub_module_forward :: "'a cenv \<Rightarrow> nat \<Rightarrow> 'a offload \<Rightarrow> 'a offload result" where
  "pre_sub_module_forward env m s =
     on_coord (training (o_mods s m)) (pre_hook (iter_env env s) m) (s\<lparr>o_stack := m # o_stack s\<rparr>)"

definition post_sub_module_forward :: "'a cenv \<Rightarrow> nat \<Rightarrow> 'a offload \<Rightarrow> 'a offload result" where
  "post_sub_module_forward env m s =
     ebind (releasable env m s) (\<lambda>rel.
       let s1 = (if c_full_transfer env then fold (save_one env rel) (c_params (iter_env env s) m) s else s)
       in on_coord (training (o_mods s m)) (release_sub_module (iter_env env s) m) s1)"

definition pre_sub_module_backward :: "'a cenv \<Rightarrow> nat \<Rightarrow> 'a offload \<Rightarrow> 'a offload result" where
  "pre_sub_module_backward env m s =
     on_coord (training (o_mods s m)) (pre_hook (iter_env env s) m) s"

definition post_sub_module_backward :: "'a cenv \<Rightarrow> nat \<Rightarrow> 'a offload \<Rightarrow> 'a offload result" where
  "post_sub_module_backward env m s =
     ebind (releasable env m s) (\<lambda>rel.
       on_coord (training (o_mods s m)) (release_sub_module (iter_env env s) m)
         (fold (pool_one rel) (c_params (iter_env env s) m) s))"

section \<open>Hooks\<close>

text \<open>
  \<^verbatim>\<open>_post_forward_module_hook\<close> brings the output into a list, of which only the parameters
  matter. \<^verbatim>\<open>vars\<close> of an object of a built-in type raises.
\<close>

definition has_dunder :: "string \<Rightarrow> bool" where
  "has_dunder s = (take 2 s = ''__'')"

fun is_tensor :: "val \<Rightarrow> bool" where
  "is_tensor (Tens rg) = True"
| "is_tensor (ParamVal p) = True"
| "is_tensor _ = False"

definition tensor_items :: "(string \<times> val) list \<Rightarrow> val list" where
  "tensor_items kvs = map snd (filter (\<lambda>(k, v). \<not> has_dunder k \<and> is_tensor v) kvs)"

fun output_list :: "val \<Rightarrow> val list result" where
  "output_list NoneVal = Inr []"
| "output_list (Seq vs) = Inr vs"
| "output_list (Tens rg) = Inr [Tens rg]"
| "output_list (ParamVal p) = Inr [ParamVal p]"
| "output_list (Dict kvs) = Inr (tensor_items kvs)"
| "output_list (Obj kvs) = Inr (tensor_items kvs)"
| "output_list Builtin = Inl (TypeError ''vars() argument must have __dict__ attribute'')"

fun zero_params :: "val list \<Rightarrow> nat list" where
  "zero_params [] = []"
| "zero_params (ParamVal p # vs) = p # zero_params vs"
| "zero_params (_ # vs) = zero_params vs"

definition dangling_param :: "'a cenv \<Rightarrow> nat \<Rightarrow> nat \<Rightarrow> 'a offload \<Rightarrow> 'a offload result" where
  "dangling_param env m p s =
     (if \<exists>x \<in> set (o_stack s). p \<in> set (external_params (o_mods s x)) then Inr s
      else
        let s1 = s\<lparr>o_heap := (o_heap s)(p := (o_heap s p)\<lparr>is_external_param := True\<rparr>)\<rparr> in
        case o_stack s1 of
          [] \<Rightarrow> Inl IndexError
        | x # _ \<Rightarrow>
            let s2 = register_external_parameter x p s1 in
            ebind (if p \<in> set (external_params (o_mods s2 m)) then unregister_external_parameter m p s2 else Inr s2)
              (gather_now env p))"

definition pre_forward_hook :: "'a cenv \<Rightarrow> nat \<Rightarrow> 'a offload \<Rightarrow> 'a offload result" where
  "pre_forward_hook env m s =
     pre_sub_module_forward env m
       (upd_mod m (\<lambda>i. let call_id = timing_call_counter i + 1 in
          i\<lparr>timing_call_counter := call_id, active_fwd_call := Some call_id,
            fwd_call_stack := call_id # fwd_call_stack i\<rparr>) s)"

definition post_forward_hook :: "'a cenv \<Rightarrow> nat \<Rightarrow> val \<Rightarrow> 'a offload \<Rightarrow> 'a offload result" where
  "post_forward_hook env m out s =
     (case o_stack s of
        [] \<Rightarrow> Inl IndexError
      | _ # st \<Rightarrow>
          ebind (output_list out) (\<lambda>items.
          ebind (foldE (dangling_param env m) (zero_params items) (s\<lparr>o_stack := st\<rparr>))
            (post_sub_module_forward env m)))"

definition pre_backward_hook :: "nat \<Rightarrow> val \<Rightarrow> 'a offload \<Rightarrow> 'a offload" where
  "pre_backward_hook m out s =
     upd_mod m (\<lambda>i. fst (apply_to_tensors pre_backward_forward out i)) s"

definition post_backward_hook :: "nat \<Rightarrow> val \<Rightarrow> 'a offload \<Rightarrow> 'a offload" where
  "post_backward_hook m inp s =
     upd_mod m (\<lambda>i. fst (apply_to_tensors post_backward_forward inp (i\<lparr>ds_grads_remaining := 0\<rparr>))) s"

text \<open>\<^verbatim>\<open>_run_before_backward_function\<close>. A second node of the same call returns early.\<close>

definition run_before_backward :: "'a cenv \<Rightarrow> nat \<Rightarrow> 'a offload \<Rightarrow> 'a offload result" where
  "run_before_backward env m s =
     (if pre_backward_ref_cnt (o_mods s m) > 0
      then
        let call_id = (case fwd_call_stack (o_mods s m) of [] \<Rightarrow> None | c # _ \<Rightarrow> Some c);
            s1 = upd_mod m (\<lambda>i. i\<lparr>bwd_active_call := call_id\<rparr>) s
        in if call_id \<noteq> None \<and> last_bwd_pre_call (o_mods s m) = call_id then Inr s1
           else
             ebind (pre_sub_module_backward env m
                      (if call_id \<noteq> None then upd_mod m (\<lambda>i. i\<lparr>last_bwd_pre_call := call_id\<rparr>) s1 else s1)) (\<lambda>s2.
               Inr (upd_mod m (\<lambda>i. i\<lparr>pre_backward_ref_cnt := pre_backward_ref_cnt i - 1\<rparr>) s2))
      else Inr s)"

definition run_after_backward :: "'a cenv \<Rightarrow> nat \<Rightarrow> 'a offload \<Rightarrow> 'a offload result" where
  "run_after_backward env m s =
     (if ds_grads_remaining (o_mods s m) = 0
      then
        let call_id = (case bwd_active_call (o_mods s m) of
                         Some c \<Rightarrow> Some c
                       | None \<Rightarrow> (case fwd_call_stack (o_mods s m) of [] \<Rightarrow> None | c # _ \<Rightarrow> Some c))
        in ebind (post_sub_module_backward env m (upd_mod m (\<lambda>i. i\<lparr>bwd_active_call := call_id\<rparr>) s)) (\<lambda>s1.
             Inr (upd_mod m (\<lambda>i. i\<lparr>fwd_call_stack := tl (fwd_call_stack i), bwd_active_call := None\<rparr>) s1))
      else Inr s)"

text \<open>\<^verbatim>\<open>PostBackwardFunction.backward\<close>; \<^verbatim>\<open>PreBackwardFunction.backward\<close> only calls its function.\<close>

definition post_backward_backward :: "'a cenv \<Rightarrow> nat \<Rightarrow> 'a offload \<Rightarrow> 'a offload result" where
  "post_backward_backward env m s =
     (let s1 = upd_mod m (\<lambda>i. i\<lparr>ds_grads_remaining := ds_grads_remaining i - 1\<rparr>) s in
      if ds_grads_remaining (o_mods s1 m) = 0 then run_after_backward env m s1 else Inr s1)"

text \<open>
  What PyTorch does: call a module (with its inputs), return from it (with its outputs), or run
  the backward of a node made for its outputs or its inputs.
\<close>

datatype torch_event = Call nat val | Return nat val | PreNode nat | PostNode nat

definition torch_step :: "'a cenv \<Rightarrow> torch_event \<Rightarrow> 'a offload \<Rightarrow> 'a offload result" where
  "torch_step env e s =
     (case e of
        Call m inp \<Rightarrow> ebind (pre_forward_hook env m s) (\<lambda>s1. Inr (post_backward_hook m inp s1))
      | Return m out \<Rightarrow> ebind (post_forward_hook env m out s) (\<lambda>s1. Inr (pre_backward_hook m out s1))
      | PreNode m \<Rightarrow> run_before_backward env m s
      | PostNode m \<Rightarrow> post_backward_backward env m s)"

definition partition_all_parameters :: "'a cenv \<Rightarrow> 'a offload \<Rightarrow> 'a offload result" where
  "partition_all_parameters env s =
     ebind (on_coord (training (o_mods s (o_root s))) (release_and_reset_all (iter_env env s)) s) (\<lambda>s1.
       if \<forall>p \<in> set (c_all_params (iter_env env s1)). ds_status (o_heap s1 p) = NOT_AVAILABLE then Inr s1
       else Inl (RuntimeError ''expected to be released''))"

text \<open>\<^verbatim>\<open>_end_of_forward_hook\<close> of the root module.\<close>

definition end_of_forward :: "'a cenv \<Rightarrow> bool \<Rightarrow> 'a offload \<Rightarrow> 'a offload result" where
  "end_of_forward env grad_enabled s =
     (if \<not> grad_enabled then on_coord False (reset_step (iter_env env s)) s else Inr s)"

end
