(* ===== verification/OffloadProps.thy ===== *)
theory OffloadProps
  imports Offload CoordProps
begin

text \<open>
  The hooks seen from PyTorch. Which calls of the coordinator a sequence of autograd events
  makes does not depend on the coordinator (\<open>emit\<close>); the hooks refine the coordinator's run
  over those calls, a module called once in a pass is fetched and released once in forward and
  once in backward, and whole training runs are safe. The second part is about the pinned host
  copies.
\<close>

section \<open>What the coordinator does not touch\<close>

definition host_view ::
  "'a param \<Rightarrow> 'a cpu_buf option \<times> 'a cpu_buf option \<times> nat \<times> nat list \<times> dtype" where
  [simp]: "host_view p = (cpu_full_param p, cpu_full_param_pool p, ds_numel p, ds_shape p, pdtype p)"

definition keeps_host :: "'a heap \<Rightarrow> 'a heap \<Rightarrow> bool" where
  "keeps_host h h' \<longleftrightarrow> (\<forall>p. host_view (h' p) = host_view (h p))"

named_theorems keeps

lemma keeps_host_refl [simp]: "keeps_host h h"
  by (simp add: keeps_host_def)

lemma keeps_host_trans: "keeps_host h h1 \<Longrightarrow> keeps_host h1 h2 \<Longrightarrow> keeps_host h h2"
  by (simp add: keeps_host_def)

lemma keeps_host_upd: "host_view v = host_view (h p) \<Longrightarrow> keeps_host h (h(p := v))"
  by (simp add: keeps_host_def)

lemma foldE_keeps:
  assumes "foldE f xs s = Inr t" and "\<And>x s s'. f x s = Inr s' \<Longrightarrow> keeps_host (H s) (H s')"
  shows "keeps_host (H s) (H t)"
  by (rule foldE_invariant [where I = "\<lambda>t. keeps_host (H s) (H t)", OF assms(1)])
    (auto intro: keeps_host_trans assms(2))

lemma mark_inflight_keeps: "mark_inflight i h = Inr h' \<Longrightarrow> keeps_host h h'"
  by (auto simp: mark_inflight_def intro!: keeps_host_upd split: if_splits)

lemma launch_keeps [keeps]:
  assumes "all_gather_coalesced W u ag cast ft ids h = Inr (h', hdl)"
  shows "keeps_host h h'"
proof -
  obtain h1 where m: "foldE mark_inflight ids h = Inr h1"
    using assms by (auto simp: all_gather_coalesced_def ebind_eq_Inr_iff)
  have "keeps_host h h1" using foldE_keeps [where H = "\<lambda>h. h", OF m] mark_inflight_keeps by blast
  moreover have "keeps_host h1 h'"
    using assms m
    by (auto simp: all_gather_coalesced_def Let_def ebind_eq_Inr_iff intro!: keeps_host_upd
        split: if_splits list.splits)
  ultimately show ?thesis by (rule keeps_host_trans)
qed

lemma restore_param_keeps: "restore_param W parts i s = Inr s' \<Longrightarrow> keeps_host (fst s) (fst s')"
  by (auto simp: restore_param_def ebind_eq_Inr_iff intro!: keeps_host_upd split: prod.splits)

lemma restore_cpu_keeps: "restore_cpu i h = Inr h' \<Longrightarrow> keeps_host h h'"
  by (auto simp: restore_cpu_def ebind_eq_Inr_iff intro!: keeps_host_upd split: option.splits if_splits)

lemma wait_keeps [keeps]:
  assumes "handle_wait W hdl h = Inr (h', hdl')"
  shows "keeps_host h h'"
proof (cases "h_kind hdl")
  case SingleHandle
  then show ?thesis using assms
    by (auto simp: wait_defs Let_def intro!: keeps_host_upd split: list.splits if_splits)
next
  case CoalescedHandle
  then show ?thesis
    using assms foldE_keeps [where H = fst, OF _ restore_param_keeps]
    by (fastforce simp: wait_defs ebind_eq_Inr_iff split: if_splits)
next
  case CpuFullHandle
  then show ?thesis
    using assms foldE_keeps [where H = "\<lambda>h. h", OF _ restore_cpu_keeps]
    by (fastforce simp: wait_defs ebind_eq_Inr_iff split: if_splits)
qed

lemma free_keeps: "free_param p = Inr q \<Longrightarrow> host_view q = host_view p"
  by (auto simp: free_param_def split: if_splits)

lemma partition_keeps [keeps]:
  assumes "partition_list W r u upd ids h = Inr h'"
  shows "keeps_host h h'"
proof -
  have "host_view q = host_view p" if "partition_param W r u upd p = Inr q" for p q
    using that by (auto simp: partition_param_def Let_def ebind_eq_Inr_iff dest!: free_keeps split: if_splits)
  then have "keeps_host h h'" if "partition_one W r u upd i h = Inr h'" for i h h'
    using that by (auto simp: partition_one_def ebind_eq_Inr_iff intro!: keeps_host_upd)
  then show ?thesis using assms foldE_keeps [where H = "\<lambda>h. h"] unfolding partition_list_def by blast
qed

lemma all_gather_params_keeps [keeps]:
  assumes "all_gather_params env ps c = Inr c'"
  shows "keeps_host (heap c) (heap c')"
proof -
  have reg: "keeps_host (heap d) (heap d')"
    if "foldE (\<lambda>p c. ebind (assert_that (ds_status (heap c p) = INFLIGHT)) (\<lambda>_. register_inflight hid p c)) qs d = Inr d'" for hid qs d d'
    by (rule foldE_keeps [where H = heap, OF that])
      (auto simp: register_inflight_def ebind_eq_Inr_iff split: if_splits)
  show ?thesis using assms
    by (auto simp: all_gather_params_def Let_def ebind_eq_Inr_iff dest!: keeps reg intro: keeps_host_trans split: if_splits)
qed

lemma wait_inflight_keeps [keeps]: "wait_inflight env p c = Inr c' \<Longrightarrow> keeps_host (heap c) (heap c')"
  by (auto simp: wait_inflight_def Let_def ebind_eq_Inr_iff drain_events_def dest!: wait_keeps split: option.splits)

lemma fetch_one_keeps: "fetch_one env m p c = Inr c' \<Longrightarrow> keeps_host (heap c) (heap c')"
  by (auto simp: fetch_one_def ebind_eq_Inr_iff activate_def dest!: wait_inflight_keeps
      elim!: keeps_host_trans [rotated] intro!: keeps_host_upd)

lemma advance_queue_keeps: "advance_queue ps c = Inr c' \<Longrightarrow> heap c' = heap c"
  by (auto simp: advance_queue_def Let_def split: option.splits if_splits prod.splits)

lemma prefetch_keeps [keeps]: "prefetch env c = Inr c' \<Longrightarrow> keeps_host (heap c) (heap c')"
  by (auto simp: prefetch_def Let_def dest!: all_gather_params_keeps split: option.splits if_splits prod.splits)

lemma pre_hook_keeps [keeps]:
  assumes "pre_hook env m c = Inr c'"
  shows "keeps_host (heap c) (heap c')"
proof -
  obtain c1 c2 where c: "trace_prologue m c = Inr c1" "(if mode c1 = RECORD then record_module m c1 else Inr c1) = Inr c2"
      "fetch_sub_module env m c2 = Inr c'"
    using assms by (auto simp: pre_hook_def ebind_eq_Inr_iff)
  have "heap c1 = heap c"
    using c(1) by (auto simp: trace_prologue_def invalidate_trace_def clear_trace_structures_def split: if_splits)
  moreover have "heap c2 = heap c1" using c(2) by (auto simp: record_module_def split: if_splits)
  moreover have "keeps_host (heap c2) (heap c')"
    using c(3) foldE_keeps [where H = heap, OF _ fetch_one_keeps]
    by (fastforce simp: fetch_sub_module_def Let_def ebind_eq_Inr_iff dest!: keeps advance_queue_keeps
        intro: keeps_host_trans split: if_splits)
  ultimately show ?thesis by simp
qed

lemma release_param_keeps: "release_param env p c = Inr c' \<Longrightarrow> keeps_host (heap c) (heap c')"
  by (auto simp: release_param_def ebind_eq_Inr_iff dest!: partition_keeps split: if_splits)

lemma release_one_keeps: "release_one env m rel p c = Inr c' \<Longrightarrow> keeps_host (heap c) (heap c')"
  by (auto simp: release_one_def Let_def dest!: release_param_keeps
      elim!: keeps_host_trans [rotated] intro!: keeps_host_upd split: if_splits)

lemma release_keeps [keeps]: "release_sub_module env m c = Inr c' \<Longrightarrow> keeps_host (heap c) (heap c')"
  using foldE_keeps [where H = heap, OF _ release_one_keeps]
  by (fastforce simp: release_sub_module_def ebind_eq_Inr_iff)

section \<open>The tensors of a value\<close>

fun tensor_flags :: "val \<Rightarrow> bool list" and seq_flags :: "val list \<Rightarrow> bool list"
  and dict_flags :: "(string \<times> val) list \<Rightarrow> bool list" where
  "tensor_flags (Tens rg) = [rg]"
| "tensor_flags (Seq vs) = seq_flags vs"
| "tensor_flags (Dict kvs) = dict_flags kvs"
| "tensor_flags (ParamVal p) = []"
| "tensor_flags NoneVal = []"
| "tensor_flags Builtin = []"
| "tensor_flags (Obj kvs) = []"
| "seq_flags [] = []"
| "seq_flags (v # vs) = tensor_flags v @ seq_flags vs"
| "dict_flags [] = []"
| "dict_flags ((k, v) # kvs) = tensor_flags v @ dict_flags kvs"

definition n_tensors :: "val \<Rightarrow> nat" where
  "n_tensors v = length (tensor_flags v)"

definition n_grads :: "val \<Rightarrow> nat" where
  "n_grads v = count_list (tensor_flags v) True"

lemma apply_to_tensors_fold:
  "fst (apply_to_tensors f v s) = fold (\<lambda>rg s. fst (f rg s)) (tensor_flags v) s"
  "fst (apply_seq f vs s) = fold (\<lambda>rg s. fst (f rg s)) (seq_flags vs) s"
  "fst (apply_dict f kvs s) = fold (\<lambda>rg s. fst (f rg s)) (dict_flags kvs) s"
  by (induction f v s and f vs s and f kvs s rule: apply_to_tensors_apply_seq_apply_dict.induct)
    (auto split: prod.splits)

lemma post_backward_count:
  "fold (\<lambda>rg i. fst (post_backward_forward rg i)) rgs i
    = i\<lparr>ds_grads_remaining := ds_grads_remaining i + int (count_list rgs True)\<rparr>"
  by (induction rgs arbitrary: i) (auto simp: post_backward_forward_def)

lemma pre_backward_count:
  "fold (\<lambda>rg i. fst (pre_backward_forward rg i)) rgs i
    = i\<lparr>pre_backward_ref_cnt := pre_backward_ref_cnt i + int (length rgs)\<rparr>"
  by (induction rgs arbitrary: i) (auto simp: pre_backward_forward_def)

section \<open>The calls a pass makes\<close>

text \<open>
  What an event does to the attributes of its module, and which of the coordinator's hooks it
  calls.
\<close>

fun mod_of :: "torch_event \<Rightarrow> nat" where
  "mod_of (Call m v) = m"
| "mod_of (Return m v) = m"
| "mod_of (PreNode m) = m"
| "mod_of (PostNode m) = m"

fun emit :: "torch_event \<Rightarrow> mod_info \<Rightarrow> mod_info \<times> hook_event list" where
  "emit (Call m inp) i =
     (i\<lparr>timing_call_counter := Suc (timing_call_counter i), active_fwd_call := Some (Suc (timing_call_counter i)),
        fwd_call_stack := Suc (timing_call_counter i) # fwd_call_stack i, ds_grads_remaining := int (n_grads inp)\<rparr>, [Pre m])"
| "emit (Return m out) i = (i\<lparr>pre_backward_ref_cnt := pre_backward_ref_cnt i + int (n_tensors out)\<rparr>, [Post m])"
| "emit (PreNode m) i =
     (if pre_backward_ref_cnt i > 0
      then case fwd_call_stack i of
             [] \<Rightarrow> (i\<lparr>bwd_active_call := None, pre_backward_ref_cnt := pre_backward_ref_cnt i - 1\<rparr>, [Pre m])
           | c # _ \<Rightarrow>
               if last_bwd_pre_call i = Some c then (i\<lparr>bwd_active_call := Some c\<rparr>, [])
               else (i\<lparr>bwd_active_call := Some c, last_bwd_pre_call := Some c,
                       pre_backward_ref_cnt := pre_backward_ref_cnt i - 1\<rparr>, [Pre m])
      else (i, []))"
| "emit (PostNode m) i =
     (let i1 = i\<lparr>ds_grads_remaining := ds_grads_remaining i - 1\<rparr> in
      if ds_grads_remaining i1 = 0
      then (i1\<lparr>fwd_call_stack := tl (fwd_call_stack i1), bwd_active_call := None\<rparr>, [Post m])
      else (i1, []))"

fun emits :: "torch_event list \<Rightarrow> (nat \<Rightarrow> mod_info) \<Rightarrow> (nat \<Rightarrow> mod_info) \<times> hook_event list" where
  "emits [] M = (M, [])"
| "emits (e # es) M =
     (case emit e (M (mod_of e)) of
        (i, hs) \<Rightarrow> (case emits es (M(mod_of e := i)) of (M', hs') \<Rightarrow> (M', hs @ hs')))"

fun stack_after :: "torch_event list \<Rightarrow> nat list \<Rightarrow> nat list" where
  "stack_after [] st = st"
| "stack_after (Call m v # es) st = stack_after es (m # st)"
| "stack_after (Return m v # es) st = stack_after es (tl st)"
| "stack_after (_ # es) st = stack_after es st"

text \<open>Returns match calls, and no module returns a parameter.\<close>

fun depth :: "nat \<Rightarrow> torch_event list \<Rightarrow> nat option" where
  "depth n [] = Some n"
| "depth n (Call m v # es) = depth (Suc n) es"
| "depth n (Return m v # es) = (if 0 < n then depth (n - 1) es else None)"
| "depth n (_ # es) = depth n es"

definition plain_output :: "val \<Rightarrow> bool" where
  "plain_output out \<longleftrightarrow> (\<exists>items. output_list out = Inr items \<and> zero_params items = [])"

definition plain_outputs :: "torch_event list \<Rightarrow> bool" where
  "plain_outputs es \<longleftrightarrow> (\<forall>m out. Return m out \<in> set es \<longrightarrow> plain_output out)"

section \<open>Refinement\<close>

definition offload_at :: "'a offload \<Rightarrow> 'a coord \<Rightarrow> (nat \<Rightarrow> mod_info) \<Rightarrow> nat list \<Rightarrow> 'a offload" where
  "offload_at s c M st = s\<lparr>o_heap := heap c, o_coords := (o_coords s)(True := Some c), o_mods := M, o_stack := st\<rparr>"

definition plain_mods :: "(nat \<Rightarrow> mod_info) \<Rightarrow> bool" where
  "plain_mods M \<longleftrightarrow> (\<forall>m. training (M m) \<and> external_params (M m) = [])"

definition no_host :: "'a heap \<Rightarrow> bool" where
  "no_host h \<longleftrightarrow> (\<forall>p. cpu_full_param (h p) = None)"

lemma offload_at_simps [simp]:
  "o_heap (offload_at s c M st) = heap c" "o_mods (offload_at s c M st) = M" "o_stack (offload_at s c M st) = st"
  "upd_mod m f (offload_at s c M st) = offload_at s c (M(m := f (M m))) st"
  "get_param_coordinator True (offload_at s c M st) = c"
  "(offload_at s c M st)\<lparr>o_stack := st'\<rparr> = offload_at s c M st'"
  by (simp_all add: offload_at_def upd_mod_def get_param_coordinator_def)

lemma on_coord_at [simp]:
  "on_coord True f (offload_at s c M st) = ebind (f c) (\<lambda>c'. Inr (offload_at s c' M st))"
  by (simp add: on_coord_def) (cases s; simp add: offload_at_def)

lemma iter_env_at [simp]: "plain_mods M \<Longrightarrow> iter_env env (offload_at s c M st) = env"
  by (simp add: iter_env_def plain_mods_def)

lemma plain_mods_upd: "plain_mods M \<Longrightarrow> training i \<and> external_params i = [] \<Longrightarrow> plain_mods (M(m := i))"
  by (simp add: plain_mods_def)

lemma plain_modsD [simp]: "plain_mods M \<Longrightarrow> training (M m)" "plain_mods M \<Longrightarrow> external_params (M m) = []"
  by (simp_all add: plain_mods_def)

lemma emit_plain: "emit e i = (i', hs) \<Longrightarrow> training i' = training i \<and> external_params i' = external_params i"
  by (cases e) (auto simp: Let_def split: if_splits list.splits)

lemma pool_none:
  assumes "no_host (heap c)"
  shows "fold (pool_one rel) ps (offload_at s c M st) = offload_at s c M st"
proof -
  have "pool_one rel p (offload_at s c M st) = offload_at s c M st" for p
  proof -
    have "pool_cpu_full (heap c p) = heap c p"
      using assms by (cases "heap c p") (auto simp: pool_cpu_full_def no_host_def dest: spec [of _ p])
    then show ?thesis by (cases s) (simp add: pool_one_def offload_at_def)
  qed
  then show ?thesis by (induction ps) auto
qed

lemma releasable_at: "\<exists>rel. releasable env m (offload_at s c M st) = Inr rel" if "plain_mods M"
  using that by (simp add: releasable_def Let_def params_to_release_for_submodule_def params_to_release_def)

lemma run_hooks_one [simp]: "run_hooks env [] c = Inr c" "run_hooks env [Pre m] c = pre_hook env m c"
  "run_hooks env [Post m] c = release_sub_module env m c"
  by (auto simp: run_hooks_def hook_step_def ebind_def split: sum.splits)

lemma call_refines:
  assumes "plain_mods M"
  shows "torch_step env (Call m inp) (offload_at s c M st) =
    ebind (run_hooks env [Pre m] c) (\<lambda>c'. Inr (offload_at s c' (M(m := fst (emit (Call m inp) (M m)))) (m # st)))"
proof -
  let ?i = "(M m)\<lparr>timing_call_counter := Suc (timing_call_counter (M m)), active_fwd_call := Some (Suc (timing_call_counter (M m))),
              fwd_call_stack := Suc (timing_call_counter (M m)) # fwd_call_stack (M m)\<rparr>"
  have p: "plain_mods (M(m := ?i))" using assms by (intro plain_mods_upd) auto
  have "pre_forward_hook env m (offload_at s c M st) = ebind (pre_hook env m c) (\<lambda>c'. Inr (offload_at s c' (M(m := ?i)) (m # st)))"
    using p assms by (simp add: pre_forward_hook_def pre_sub_module_forward_def Let_def)
  moreover have "post_backward_hook m inp (offload_at s c' (M(m := ?i)) (m # st))
      = offload_at s c' (M(m := fst (emit (Call m inp) (M m)))) (m # st)" for c'
    by (simp add: post_backward_hook_def apply_to_tensors_fold post_backward_count n_grads_def)
  ultimately show ?thesis by (auto simp: torch_step_def ebind_def split: sum.splits)
qed

lemma return_refines:
  assumes "plain_mods M" and "\<not> c_full_transfer env" and "plain_output out"
  shows "torch_step env (Return m out) (offload_at s c M (x # st)) =
    ebind (run_hooks env [Post m] c) (\<lambda>c'. Inr (offload_at s c' (M(m := fst (emit (Return m out) (M m)))) st))"
proof -
  obtain items where it: "output_list out = Inr items" "zero_params items = []"
    using assms(3) by (auto simp: plain_output_def)
  have "post_forward_hook env m out (offload_at s c M (x # st))
      = ebind (release_sub_module env m c) (\<lambda>c'. Inr (offload_at s c' M st))"
    using releasable_at [OF assms(1), of env m s c st] assms(1,2)
    by (auto simp: post_forward_hook_def it post_sub_module_forward_def)
  moreover have "pre_backward_hook m out (offload_at s c' M st)
      = offload_at s c' (M(m := fst (emit (Return m out) (M m)))) st" for c'
    by (simp add: pre_backward_hook_def apply_to_tensors_fold pre_backward_count n_tensors_def)
  ultimately show ?thesis by (auto simp: torch_step_def ebind_def split: sum.splits)
qed

lemma pre_node_refines:
  assumes "plain_mods M" and "emit (PreNode m) (M m) = (i, hs)"
  shows "torch_step env (PreNode m) (offload_at s c M st) =
    ebind (run_hooks env hs c) (\<lambda>c'. Inr (offload_at s c' (M(m := i)) st))"
proof -
  have p: "plain_mods (M(m := j))" if "training j \<and> external_params j = []" for j
    using assms(1) that by (intro plain_mods_upd) auto
  show ?thesis using assms
    by (auto simp: torch_step_def run_before_backward_def pre_sub_module_backward_def Let_def p ebind_assoc
        split: if_splits list.splits)
qed

lemma post_node_refines:
  assumes "plain_mods M" and "no_host (heap c)" and "emit (PostNode m) (M m) = (i, hs)"
  shows "torch_step env (PostNode m) (offload_at s c M st) =
    ebind (run_hooks env hs c) (\<lambda>c'. Inr (offload_at s c' (M(m := i)) st))"
proof -
  have p: "plain_mods (M(m := j))" if "training j \<and> external_params j = []" for j
    using assms(1) that by (intro plain_mods_upd) auto
  have post: "post_sub_module_backward env m (offload_at s c N st) = ebind (release_sub_module env m c) (\<lambda>c'. Inr (offload_at s c' N st))"
    if "plain_mods N" for N
    using releasable_at [OF that, of env m s c st] that assms(2) by (auto simp: post_sub_module_backward_def pool_none)
  show ?thesis using assms(1,3)
    by (auto simp: torch_step_def post_backward_backward_def run_after_backward_def post p Let_def ebind_assoc split: if_splits)
qed

lemma hooks_keep_host:
  assumes "run_hooks env hs c = Inr c'" and "no_host (heap c)"
  shows "no_host (heap c')"
proof -
  have "keeps_host (heap c) (heap c')" if "hook_step env e c = Inr c'" for e c c'
    using that by (cases e) (auto simp: hook_step_def dest: keeps)
  then have "keeps_host (heap c) (heap c')"
    using assms(1) foldE_keeps [where H = heap] unfolding run_hooks_def by blast
  then show ?thesis using assms(2) by (simp add: keeps_host_def no_host_def)
qed

lemma torch_refines:
  assumes "\<not> c_full_transfer env" and "plain_mods M" and "no_host (heap c)" and "depth (length st) es \<noteq> None" and "plain_outputs es"
  shows "foldE (torch_step env) es (offload_at s c M st) =
    (case emits es M of (M', hs) \<Rightarrow> ebind (run_hooks env hs c) (\<lambda>c'. Inr (offload_at s c' M' (stack_after es st))))"
  using assms(2-5)
proof (induction es arbitrary: c M st)
  case Nil
  then show ?case by simp
next
  case (Cons e es)
  obtain i hs where e: "emit e (M (mod_of e)) = (i, hs)" by fastforce
  obtain M' hs' where r: "emits es (M(mod_of e := i)) = (M', hs')" by fastforce
  have step: "torch_step env e (offload_at s c M st)
      = ebind (run_hooks env hs c) (\<lambda>c'. Inr (offload_at s c' (M(mod_of e := i)) (stack_after [e] st)))"
  proof (cases e)
    case (Call m inp)
    then show ?thesis using e call_refines [OF Cons.prems(1), of env m inp s c st] by auto
  next
    case (Return m out)
    then obtain x st' where "st = x # st'" using Cons.prems(3) by (cases st) auto
    then show ?thesis using Return e return_refines [OF Cons.prems(1) assms(1), of out m s c x st'] Cons.prems(4)
      by (auto simp: plain_outputs_def)
  next
    case (PreNode m)
    then show ?thesis using e pre_node_refines [OF Cons.prems(1)] by simp
  next
    case (PostNode m)
    then show ?thesis using e post_node_refines [OF Cons.prems(1,2)] by simp
  qed
  have rest: "foldE (torch_step env) es (offload_at s c' (M(mod_of e := i)) (stack_after [e] st)) =
      ebind (run_hooks env hs' c') (\<lambda>c'. Inr (offload_at s c' M' (stack_after (e # es) st)))"
    if "run_hooks env hs c = Inr c'" for c'
  proof -
    have "foldE (torch_step env) es (offload_at s c' (M(mod_of e := i)) (stack_after [e] st)) =
      (case emits es (M(mod_of e := i)) of (M', hs) \<Rightarrow>
        ebind (run_hooks env hs c') (\<lambda>c'. Inr (offload_at s c' M' (stack_after es (stack_after [e] st)))))"
    proof (rule Cons.IH)
      show "plain_mods (M(mod_of e := i))" using Cons.prems(1) emit_plain [OF e] by (intro plain_mods_upd) auto
      show "no_host (heap c')" using hooks_keep_host [OF that Cons.prems(2)] .
      show "depth (length (stack_after [e] st)) es \<noteq> None" using Cons.prems(3) by (cases e) (auto split: if_splits)
      show "plain_outputs es" using Cons.prems(4) by (simp add: plain_outputs_def)
    qed
    moreover have "stack_after es (stack_after [e] st) = stack_after (e # es) st" by (cases e) auto
    ultimately show ?thesis by (simp add: r)
  qed
  have app: "run_hooks env (hs @ hs') c = ebind (run_hooks env hs c) (run_hooks env hs')"
    by (simp add: run_hooks_def foldE_append fun_eq_iff ebind_def split: sum.splits)
  show ?case using rest
    by (cases "run_hooks env hs c") (simp_all add: step e r app)
qed

section \<open>One call of a module in a pass\<close>

fun hook_mod :: "hook_event \<Rightarrow> nat" where
  "hook_mod (Pre m) = m"
| "hook_mod (Post m) = m"

definition events_of :: "nat \<Rightarrow> torch_event list \<Rightarrow> torch_event list" where
  "events_of m es = filter (\<lambda>e. mod_of e = m) es"

definition hooks_of :: "nat \<Rightarrow> hook_event list \<Rightarrow> hook_event list" where
  "hooks_of m hs = filter (\<lambda>h. hook_mod h = m) hs"

text \<open>
  The module is called, returns, the backward reaches its outputs, and then its inputs, each
  input that requires a gradient once.
\<close>

definition called_once :: "nat \<Rightarrow> val \<Rightarrow> torch_event list \<Rightarrow> bool" where
  "called_once m inp es \<longleftrightarrow> (\<exists>out mid. 0 < n_tensors out \<and> set mid \<subseteq> {PreNode m, PostNode m}
     \<and> count_list mid (PostNode m) = n_grads inp - 1
     \<and> es = [Call m inp, Return m out, PreNode m] @ mid @ (if n_grads inp = 0 then [] else [PostNode m])
     \<and> (n_grads inp = 0 \<longrightarrow> PostNode m \<notin> set mid))"

fun emit_list :: "torch_event list \<Rightarrow> mod_info \<Rightarrow> mod_info \<times> hook_event list list" where
  "emit_list [] i = (i, [])"
| "emit_list (e # es) i =
     (case emit e i of (j, hs) \<Rightarrow> (case emit_list es j of (k, hss) \<Rightarrow> (k, hs # hss)))"

lemma emits_Cons:
  "emits (e # es) M = (let r = emit e (M (mod_of e)); t = emits es (M(mod_of e := fst r)) in (fst t, snd r @ snd t))"
  by (simp add: Let_def split: prod.splits)

lemma emit_list_Cons:
  "emit_list (e # es) i = (let r = emit e i; t = emit_list es (fst r) in (fst t, snd r # snd t))"
  by (simp add: Let_def split: prod.splits)

lemma emit_list_append:
  "emit_list (xs @ ys) i =
     (case emit_list xs i of (j, hs) \<Rightarrow> (case emit_list ys j of (k, hs') \<Rightarrow> (k, hs @ hs')))"
  by (induction xs arbitrary: i) (auto split: prod.splits)

lemma emit_hook_mod: "h \<in> set (snd (emit e i)) \<Longrightarrow> hook_mod h = mod_of e"
  by (cases e) (auto simp: Let_def split: if_splits list.splits)

lemma emits_fst: "fst (emits es M) m = fst (emit_list (events_of m es) (M m))"
  by (induction es arbitrary: M)
    (auto simp: events_of_def emits_Cons emit_list_Cons Let_def simp del: emits.simps(2) emit_list.simps(2))

lemma emits_hooks: "hooks_of m (snd (emits es M)) = concat (snd (emit_list (events_of m es) (M m)))"
proof (induction es arbitrary: M)
  case Nil
  then show ?case by (simp add: events_of_def hooks_of_def)
next
  case (Cons e es)
  have "hooks_of m (snd (emit e (M (mod_of e)))) = (if mod_of e = m then snd (emit e (M (mod_of e))) else [])"
    using emit_hook_mod [of _ e "M (mod_of e)"] by (auto simp: hooks_of_def filter_id_conv filter_empty_conv)
  then show ?case using Cons.IH [of "M(mod_of e := fst (emit e (M (mod_of e))))"]
    by (auto simp: events_of_def hooks_of_def emits_Cons emit_list_Cons Let_def fun_upd_same fun_upd_other
        simp del: emits.simps(2) emit_list.simps(2) fun_upd_apply split: if_splits)
qed

lemma emits_cong:
  assumes "\<And>m. snd (emit_list (events_of m es) (M m)) = snd (emit_list (events_of m es) (N m))"
  shows "snd (emits es M) = snd (emits es N)"
  using assms
proof (induction es arbitrary: M N)
  case Nil
  then show ?case by simp
next
  case (Cons e es)
  let ?i = "emit e (M (mod_of e))" and ?j = "emit e (N (mod_of e))"
  have own: "snd ?i = snd ?j \<and> snd (emit_list (events_of (mod_of e) es) (fst ?i)) = snd (emit_list (events_of (mod_of e) es) (fst ?j))"
    using Cons.prems [of "mod_of e"] by (simp add: events_of_def emit_list_Cons Let_def del: emit_list.simps(2))
  have "snd (emits es (M(mod_of e := fst ?i))) = snd (emits es (N(mod_of e := fst ?j)))"
  proof (rule Cons.IH)
    show "snd (emit_list (events_of m es) ((M(mod_of e := fst ?i)) m)) = snd (emit_list (events_of m es) ((N(mod_of e := fst ?j)) m))" for m
      using own Cons.prems [of m] by (cases "m = mod_of e") (auto simp: events_of_def)
  qed
  then show ?case using own by (simp add: emits_Cons Let_def del: emits.simps(2))
qed

lemma emits_append:
  "emits (xs @ ys) M = (case emits xs M of (M1, hs) \<Rightarrow> (case emits ys M1 of (M2, hs') \<Rightarrow> (M2, hs @ hs')))"
  by (induction xs arbitrary: M) (auto split: prod.splits)

text \<open>A module no backward of which is under way.\<close>

definition idle :: "mod_info \<Rightarrow> bool" where
  "idle i \<longleftrightarrow> 0 \<le> pre_backward_ref_cnt i \<and> (\<forall>c. last_bwd_pre_call i = Some c \<longrightarrow> c \<le> timing_call_counter i)"

lemma emit_mid:
  assumes "set mid \<subseteq> {PreNode m, PostNode m}" and "fwd_call_stack i = c # st" and "last_bwd_pre_call i = Some c"
    and "ds_grads_remaining i \<le> 0 \<or> int (count_list mid (PostNode m)) < ds_grads_remaining i"
  shows "\<exists>b. emit_list mid i = (i\<lparr>bwd_active_call := b,
      ds_grads_remaining := ds_grads_remaining i - int (count_list mid (PostNode m))\<rparr>, map (\<lambda>_. []) mid)"
  using assms
proof (induction mid arbitrary: i)
  case Nil
  then show ?case by (intro exI [of _ "bwd_active_call i"]) simp
next
  case (Cons e es)
  consider "e = PreNode m" | "e = PostNode m" using Cons.prems(1) by auto
  then show ?case
  proof cases
    case 1
    then have "\<exists>b. emit e i = (i\<lparr>bwd_active_call := b\<rparr>, [])"
      using Cons.prems(2,3) by (cases "pre_backward_ref_cnt i > 0") (simp, blast, simp add: exI [of _ "bwd_active_call i"])
    then obtain b where b: "emit e i = (i\<lparr>bwd_active_call := b\<rparr>, [])" ..
    show ?thesis using Cons.IH [of "i\<lparr>bwd_active_call := b\<rparr>"] Cons.prems 1 b by auto
  next
    case 2
    then have g: "ds_grads_remaining i \<noteq> 1" using Cons.prems(4) by auto
    then have "emit e i = (i\<lparr>ds_grads_remaining := ds_grads_remaining i - 1\<rparr>, [])" using 2 by simp
    moreover obtain b where "emit_list es (i\<lparr>ds_grads_remaining := ds_grads_remaining i - 1\<rparr>) = (i\<lparr>bwd_active_call := b,
        ds_grads_remaining := ds_grads_remaining i - 1 - int (count_list es (PostNode m))\<rparr>, map (\<lambda>_. []) es)"
      using Cons.IH [of "i\<lparr>ds_grads_remaining := ds_grads_remaining i - 1\<rparr>"] Cons.prems 2 by auto
    ultimately show ?thesis using 2 by (intro exI [of _ b]) (simp add: emit_list_Cons Let_def del: emit_list.simps(2))
  qed
qed

text \<open>A forward call followed by the first node of the backward.\<close>

lemma emit_prefix:
  assumes "idle i" and "0 < n_tensors out"
  obtains j where "emit_list [Call m inp, Return m out, PreNode m] i = (j, [[Pre m], [Post m], [Pre m]])"
    and "fwd_call_stack j = Suc (timing_call_counter i) # fwd_call_stack i"
    and "last_bwd_pre_call j = Some (Suc (timing_call_counter i))" and "ds_grads_remaining j = int (n_grads inp)"
    and "timing_call_counter j = Suc (timing_call_counter i)" and "0 \<le> pre_backward_ref_cnt j"
proof -
  let ?j = "fst (emit_list [Call m inp, Return m out, PreNode m] i)"
  have last: "last_bwd_pre_call i \<noteq> Some (Suc (timing_call_counter i))" using assms(1) by (auto simp: idle_def)
  have ref: "0 < pre_backward_ref_cnt i + int (n_tensors out)" "0 \<le> pre_backward_ref_cnt i + int (n_tensors out) - 1"
    using assms by (simp_all add: idle_def)
  show thesis by (rule that [of ?j]) (use last ref in simp_all)
qed

lemma called_once_emits:
  assumes "called_once m inp es" and "idle i"
  shows "concat (snd (emit_list es i)) = [Pre m, Post m, Pre m] @ (if n_grads inp = 0 then [] else [Post m])
    \<and> idle (fst (emit_list es i))"
    and "idle k \<Longrightarrow> snd (emit_list es k) = snd (emit_list es i)"
proof -
  obtain out mid where c: "0 < n_tensors out" "set mid \<subseteq> {PreNode m, PostNode m}" "count_list mid (PostNode m) = n_grads inp - 1"
     "es = [Call m inp, Return m out, PreNode m] @ mid @ (if n_grads inp = 0 then [] else [PostNode m])"
     "n_grads inp = 0 \<longrightarrow> PostNode m \<notin> set mid"
    using assms(1) by (auto simp: called_once_def)
  have run: "snd (emit_list es k) = [[Pre m], [Post m], [Pre m]] @ map (\<lambda>_. []) mid @ (if n_grads inp = 0 then [] else [[Post m]])
      \<and> idle (fst (emit_list es k))" if k: "idle k" for k
  proof -
    obtain j where j: "emit_list [Call m inp, Return m out, PreNode m] k = (j, [[Pre m], [Post m], [Pre m]])"
        "fwd_call_stack j = Suc (timing_call_counter k) # fwd_call_stack k"
        "last_bwd_pre_call j = Some (Suc (timing_call_counter k))" "ds_grads_remaining j = int (n_grads inp)"
        "timing_call_counter j = Suc (timing_call_counter k)" "0 \<le> pre_backward_ref_cnt j"
      using emit_prefix [OF k c(1), of m inp] .
    have "ds_grads_remaining j \<le> 0 \<or> int (count_list mid (PostNode m)) < ds_grads_remaining j"
      using c(3,5) j(4) by (cases "n_grads inp") auto
    then obtain b where "emit_list mid j = (j\<lparr>bwd_active_call := b,
        ds_grads_remaining := ds_grads_remaining j - int (count_list mid (PostNode m))\<rparr>, map (\<lambda>_. []) mid)"
      using emit_mid [OF c(2) j(2,3)] by blast
    then show ?thesis
      using j(3-6) c(3) unfolding c(4) emit_list_append j(1) by (auto simp: idle_def)
  qed
  have "concat (map (\<lambda>_. []) mid) = []" by simp
  then show "concat (snd (emit_list es i)) = [Pre m, Post m, Pre m] @ (if n_grads inp = 0 then [] else [Post m])
    \<and> idle (fst (emit_list es i))"
    using run [OF assms(2)] by simp
  show "idle k \<Longrightarrow> snd (emit_list es k) = snd (emit_list es i)" using run assms(2) by simp
qed

section \<open>A pass\<close>

text \<open>
  A pass over a model: calls nest, every module that occurs is called once, and its backward
  follows.
\<close>

definition pass_ok :: "torch_event list \<Rightarrow> bool" where
  "pass_ok es \<longleftrightarrow> depth 1 es = Some 1 \<and> plain_outputs es
     \<and> (\<forall>m. events_of m es = [] \<or> (\<exists>inp. called_once m inp (events_of m es)))"

definition all_idle :: "(nat \<Rightarrow> mod_info) \<Rightarrow> bool" where
  "all_idle M \<longleftrightarrow> (\<forall>m. idle (M m))"

lemma paired_if_hooks:
  assumes "\<And>m. paired (Op \<inter> {m}) (hooks_of m hs)"
  shows "paired Op hs"
  using assms
proof (induction hs arbitrary: Op)
  case Nil
  then show ?case by simp
next
  case (Cons h hs)
  show ?case
  proof (cases h)
    case (Pre m)
    have "paired (insert m Op \<inter> {m'}) (hooks_of m' hs)" for m'
    proof (cases "m' = m")
      case True
      have "insert m Op \<inter> {m} = {m}" "insert m (Op \<inter> {m}) = {m}" by auto
      have "paired (insert m (Op \<inter> {m})) (hooks_of m hs)" using Cons.prems [of m] Pre by (simp add: hooks_of_def)
      then show ?thesis unfolding True \<open>insert m Op \<inter> {m} = {m}\<close> \<open>insert m (Op \<inter> {m}) = {m}\<close> .
    next
      case False
      then show ?thesis using Cons.prems [of m'] Pre by (simp add: hooks_of_def)
    qed
    then show ?thesis using Cons.IH Pre by simp
  next
    case (Post m)
    have "m \<in> Op" using Cons.prems [of m] Post by (simp add: hooks_of_def)
    moreover have "paired ((Op - {m}) \<inter> {m'}) (hooks_of m' hs)" for m'
    proof (cases "m' = m")
      case True
      have "(Op - {m}) \<inter> {m} = {}" "Op \<inter> {m} - {m} = {}" by auto
      have "paired (Op \<inter> {m}) (Post m # hooks_of m hs)" using Cons.prems [of m] Post by (simp add: hooks_of_def del: paired.simps)
      then have "paired (Op \<inter> {m} - {m}) (hooks_of m hs)" by (simp only: paired.simps)
      then show ?thesis unfolding True \<open>(Op - {m}) \<inter> {m} = {}\<close> \<open>Op \<inter> {m} - {m} = {}\<close> .
    next
      case False
      then have "(Op - {m}) \<inter> {m'} = Op \<inter> {m'}" by auto
      then show ?thesis using Cons.prems [of m'] Post False by (simp add: hooks_of_def)
    qed
    ultimately show ?thesis using Cons.IH Post by simp
  qed
qed

lemma pass_hooks:
  assumes "pass_ok es" and "all_idle M"
  shows "paired {} (snd (emits es M))" and "all_idle (fst (emits es M))"
    and "all_idle N \<Longrightarrow> snd (emits es N) = snd (emits es M)"
proof -
  have shape: "(events_of m es = [] \<or> (\<exists>inp. called_once m inp (events_of m es)))" for m
    using assms(1) by (simp add: pass_ok_def)
  have i: "idle (M m)" for m using assms(2) by (simp add: all_idle_def)
  have "paired ({} \<inter> {m}) (hooks_of m (snd (emits es M)))" for m
    using shape [of m] called_once_emits(1) [OF _ i [of m]] by (auto simp: emits_hooks)
  then show "paired {} (snd (emits es M))" by (rule paired_if_hooks)
  show "all_idle (fst (emits es M))"
    unfolding all_idle_def emits_fst
  proof
    show "idle (fst (emit_list (events_of m es) (M m)))" for m
      using shape [of m] called_once_emits(1) [OF _ i [of m]] i [of m] by auto
  qed
  show "snd (emits es N) = snd (emits es M)" if "all_idle N"
  proof (rule emits_cong)
    show "snd (emit_list (events_of m es) (N m)) = snd (emit_list (events_of m es) (M m))" for m
      using shape [of m] called_once_emits(2) [OF _ i [of m], where k = "N m"] that by (auto simp: all_idle_def)
  qed
qed

lemma emit_list_snd_append:
  "snd (emit_list (xs @ ys) i) = snd (emit_list xs i) @ snd (emit_list ys (fst (emit_list xs i)))"
  by (simp add: emit_list_append split: prod.splits)

lemma length_emit_list: "length (snd (emit_list es i)) = length es"
  by (induction es arbitrary: i) (auto split: prod.splits simp: Let_def, metis snd_conv)

lemma emits_prefix_cong:
  assumes "pass_ok (es1 @ es2)" and "all_idle M" and "all_idle N"
  shows "snd (emits es1 N) = snd (emits es1 M)"
proof (rule emits_cong)
  fix m
  have ev: "events_of m (es1 @ es2) = events_of m es1 @ events_of m es2" by (simp add: events_of_def)
  have "snd (emit_list (events_of m (es1 @ es2)) (N m)) = snd (emit_list (events_of m (es1 @ es2)) (M m))"
  proof (cases "events_of m (es1 @ es2) = []")
    case False
    then obtain inp where "called_once m inp (events_of m (es1 @ es2))" using assms(1) unfolding pass_ok_def by blast
    then show ?thesis using assms(2,3) by (intro called_once_emits(2)) (auto simp: all_idle_def)
  qed simp
  then have "take (length (events_of m es1)) (snd (emit_list (events_of m es1 @ events_of m es2) (N m)))
      = take (length (events_of m es1)) (snd (emit_list (events_of m es1 @ events_of m es2) (M m)))"
    by (simp only: ev)
  then show "snd (emit_list (events_of m es1) (N m)) = snd (emit_list (events_of m es1) (M m))"
    by (simp add: emit_list_snd_append length_emit_list)
qed

lemma emits_plain: "plain_mods M \<Longrightarrow> plain_mods (fst (emits es M))"
proof (induction es arbitrary: M)
  case (Cons e es)
  have "plain_mods (M(mod_of e := fst (emit e (M (mod_of e)))))"
    using Cons.prems emit_plain [of e "M (mod_of e)"] by (intro plain_mods_upd) (auto simp: prod_eq_iff)
  then show ?case using Cons.IH by (simp add: emits_Cons Let_def del: emits.simps(2))
qed simp

lemma depth_stack: "depth (length st) es = Some n \<Longrightarrow> length (stack_after es st) = n"
proof (induction es arbitrary: st)
  case (Cons e es)
  then show ?case by (cases e) (auto split: if_splits simp: Cons.IH [of "_ # st"])
qed simp

lemma depth_append: "depth n (xs @ ys) = Option.bind (depth n xs) (\<lambda>k. depth k ys)"
  by (induction n xs rule: depth.induct) auto

section \<open>Training through the hooks\<close>

text \<open>
  A training step: the pass, then the reset of the training coordinator.
\<close>

definition offload_training_step :: "'a cenv \<Rightarrow> torch_event list \<Rightarrow> 'a offload \<Rightarrow> 'a offload result" where
  "offload_training_step env es s =
     ebind (foldE (torch_step env) es s) (\<lambda>s1. on_coord True (reset_step (iter_env env s1)) s1)"

lemma reset_keeps: "reset_step env c = Inr c' \<Longrightarrow> heap c' = heap c"
proof -
  have "heap c2 = heap c1" if "foldE (record_parameters env) ms c1 = Inr c2" for ms c1 c2
    by (rule foldE_invariant [where I = "\<lambda>c. heap c = heap c1", OF that])
      (auto simp: record_parameters_def split: if_splits list.splits)
  then show "reset_step env c = Inr c' \<Longrightarrow> heap c' = heap c"
    by (auto simp: reset_step_def construct_parameter_trace_def ebind_eq_Inr_iff split: if_splits)
qed

lemma offload_step_refines:
  assumes env: "\<not> c_full_transfer env" and p: "pass_ok es" and M: "plain_mods M" "all_idle M" and h: "no_host (heap c)" and st: "length st = 1"
  shows "offload_training_step env es (offload_at s c M st) =
    ebind (training_step env (snd (emits es M)) c) (\<lambda>c'. Inr (offload_at s c' (fst (emits es M)) (stack_after es st)))"
proof -
  obtain M' hs where e: "emits es M = (M', hs)" by fastforce
  have "plain_mods M'" using emits_plain [OF M(1), of es] e by simp
  moreover have "foldE (torch_step env) es (offload_at s c M st) = ebind (run_hooks env hs c) (\<lambda>c'. Inr (offload_at s c' M' (stack_after es st)))"
    using torch_refines [OF env M(1) h, of st es s] p st e by (simp add: pass_ok_def)
  ultimately show ?thesis
    by (auto simp: offload_training_step_def training_step_def e ebind_assoc)
qed

lemma offload_steps_refine:
  assumes env: "\<not> c_full_transfer env" and p: "pass_ok es" and "plain_mods M" "all_idle M" and "no_host (heap c)" and "length st = 1"
    and "foldE (training_step env) (replicate n hs) c = Inr c'" and "\<And>N. all_idle N \<Longrightarrow> snd (emits es N) = hs"
  shows "\<exists>M' st'. foldE (offload_training_step env) (replicate n es) (offload_at s c M st) = Inr (offload_at s c' M' st')
    \<and> plain_mods M' \<and> all_idle M' \<and> no_host (heap c') \<and> length st' = 1"
  using assms(3-7)
proof (induction n arbitrary: c M st)
  case 0
  then show ?case by auto
next
  case (Suc n)
  let ?M = "fst (emits es M)"
  obtain c1 where c1: "training_step env hs c = Inr c1" "foldE (training_step env) (replicate n hs) c1 = Inr c'"
    using Suc.prems(5) by (auto simp: ebind_eq_Inr_iff)
  have step: "offload_training_step env es (offload_at s c M st) = Inr (offload_at s c1 ?M (stack_after es st))"
    using offload_step_refines [OF env p Suc.prems(1-4), of s] assms(8) [OF Suc.prems(2)] c1(1) by simp
  have "no_host (heap c1)"
    using c1(1) hooks_keep_host [OF _ Suc.prems(3)] reset_keeps by (fastforce simp: training_step_def ebind_eq_Inr_iff)
  moreover have "length (stack_after es st) = 1" using p depth_stack [of st es 1] Suc.prems(4) by (simp add: pass_ok_def)
  ultimately show ?case
    using Suc.IH [OF emits_plain [OF Suc.prems(1)] pass_hooks(2) [OF p Suc.prems(2)] _ _ c1(2)] step by simp
qed

text \<open>
  A module is in use from its call to its return, and from the first node of its backward to
  the last.
\<close>

definition in_use :: "torch_event list \<Rightarrow> nat \<Rightarrow> bool" where
  "in_use es m \<longleftrightarrow> (\<exists>inp. events_of m es = [Call m inp])
     \<or> (\<exists>inp out mid. events_of m es = [Call m inp, Return m out, PreNode m] @ mid
          \<and> (n_grads inp = 0 \<or> count_list mid (PostNode m) < n_grads inp))"

lemma open_after_hooks: "m \<in> open_after Op hs \<longleftrightarrow> m \<in> open_after (Op \<inter> {m}) (hooks_of m hs)"
proof (induction hs arbitrary: Op)
  case Nil
  then show ?case by (simp add: hooks_of_def)
next
  case (Cons h hs)
  have e: "insert m' Op \<inter> {m} = (if m' = m then insert m (Op \<inter> {m}) else Op \<inter> {m})"
    "(Op - {m'}) \<inter> {m} = (if m' = m then Op \<inter> {m} - {m} else Op \<inter> {m})" for m' by auto
  show ?case
  proof (cases h)
    case (Pre m')
    show ?thesis unfolding Pre open_after.simps(2) Cons.IH [of "insert m' Op"] e
      by (cases "m' = m") (simp_all add: hooks_of_def)
  next
    case (Post m')
    show ?thesis unfolding Post open_after.simps(3) Cons.IH [of "Op - {m'}"] e
      by (cases "m' = m") (simp_all only: hooks_of_def filter.simps hook_mod.simps if_True if_False simp_thms open_after.simps)
  qed
qed

lemma in_use_open:
  assumes "pass_ok (es1 @ es2)" and "all_idle M" and "in_use es1 m"
  shows "m \<in> open_after {} (snd (emits es1 M))"
proof -
  have i: "idle (M m)" using assms(2) by (simp add: all_idle_def)
  have ev: "events_of m (es1 @ es2) = events_of m es1 @ events_of m es2" by (simp add: events_of_def)
  have ne: "events_of m es1 \<noteq> []" using assms(3) by (auto simp: in_use_def)
  then obtain inp0 where "called_once m inp0 (events_of m (es1 @ es2))"
    using assms(1) ev unfolding pass_ok_def by (metis append_is_Nil_conv)
  then obtain out0 mid0 where c: "0 < n_tensors out0" "set mid0 \<subseteq> {PreNode m, PostNode m}"
     "n_grads inp0 = 0 \<longrightarrow> PostNode m \<notin> set mid0"
     "events_of m es1 @ events_of m es2 = [Call m inp0, Return m out0, PreNode m] @ mid0 @ (if n_grads inp0 = 0 then [] else [PostNode m])"
    by (auto simp: called_once_def ev)
  have "concat (snd (emit_list (events_of m es1) (M m))) \<in> {[Pre m], [Pre m, Post m, Pre m]}"
  proof (cases "\<exists>inp. events_of m es1 = [Call m inp]")
    case True
    then show ?thesis by auto
  next
    case False
    then obtain inp out mid where u: "events_of m es1 = [Call m inp, Return m out, PreNode m] @ mid"
        "n_grads inp = 0 \<or> count_list mid (PostNode m) < n_grads inp"
      using assms(3) by (auto simp: in_use_def)
    have eq: "inp = inp0" "out = out0" "mid @ events_of m es2 = mid0 @ (if n_grads inp0 = 0 then [] else [PostNode m])"
      using c(4) by (simp_all add: u(1))
    have "set mid \<subseteq> set (mid @ events_of m es2)" by simp
    then have sub: "set mid \<subseteq> {PreNode m, PostNode m}" "n_grads inp = 0 \<longrightarrow> PostNode m \<notin> set mid"
      unfolding eq(3) using c(2,3) by (auto simp: eq(1) split: if_splits)
    have "0 < n_tensors out" using c(1) by (simp add: eq(2))
    from emit_prefix [OF i this, of m inp] obtain j where j: "emit_list [Call m inp, Return m out, PreNode m] (M m) = (j, [[Pre m], [Post m], [Pre m]])"
        "fwd_call_stack j = Suc (timing_call_counter (M m)) # fwd_call_stack (M m)"
        "last_bwd_pre_call j = Some (Suc (timing_call_counter (M m)))" "ds_grads_remaining j = int (n_grads inp)"
      by metis
    have "ds_grads_remaining j \<le> 0 \<or> int (count_list mid (PostNode m)) < ds_grads_remaining j"
      using u(2) sub(2) j(4) by auto
    then obtain b where "emit_list mid j = (j\<lparr>bwd_active_call := b,
        ds_grads_remaining := ds_grads_remaining j - int (count_list mid (PostNode m))\<rparr>, map (\<lambda>_. []) mid)"
      using emit_mid [OF sub(1) j(2,3)] by blast
    then show ?thesis unfolding u(1) emit_list_append j(1) by simp
  qed
  then have "m \<in> open_after ({} \<inter> {m}) (hooks_of m (snd (emits es1 M)))" by (auto simp: emits_hooks)
  then show ?thesis using open_after_hooks [of m "{}"] by blast
qed

text \<open>
  C8: the hooks refine the coordinator. A pass in which every module is called once makes the
  coordinator's calls \<open>hs\<close>, whatever order PyTorch runs the nodes of the graph in: one fetch
  and one release of each module in forward, one fetch and, if an input requires a gradient, one
  release in backward, however many tensors the module takes and returns. The hooks do nothing
  else to the parameters, and raise exactly if one of these calls does.
\<close>

theorem hooks_refine_coordinator:
  assumes "\<not> c_full_transfer env" and "pass_ok es" and "plain_mods M" "all_idle M" and "no_host (heap c)" and "length st = 1"
  shows "\<exists>hs M' st'. foldE (torch_step env) es (offload_at s c M st) = ebind (run_hooks env hs c) (\<lambda>c'. Inr (offload_at s c' M' st'))
    \<and> paired {} hs \<and> all_idle M' \<and> length st' = 1
    \<and> (\<forall>m. if events_of m es = [] then hooks_of m hs = []
           else \<exists>inp. called_once m inp (events_of m es)
              \<and> hooks_of m hs = [Pre m, Post m, Pre m] @ (if n_grads inp = 0 then [] else [Post m]))"
proof -
  obtain M' hs where e: "emits es M = (M', hs)" by fastforce
  have run: "foldE (torch_step env) es (offload_at s c M st) = ebind (run_hooks env hs c) (\<lambda>c'. Inr (offload_at s c' M' (stack_after es st)))"
    using torch_refines [OF assms(1,3,5), of st es s] assms(2,6) e by (simp add: pass_ok_def)
  have "if events_of m es = [] then hooks_of m hs = []
           else \<exists>inp. called_once m inp (events_of m es)
              \<and> hooks_of m hs = [Pre m, Post m, Pre m] @ (if n_grads inp = 0 then [] else [Post m])" for m
    using emits_hooks [of m es M] called_once_emits(1) [of m _ "events_of m es" "M m"] assms(2,4)
    by (fastforce simp: e pass_ok_def all_idle_def)
  moreover have "length (stack_after es st) = 1" using assms(2,6) depth_stack [of st es 1] by (simp add: pass_ok_def)
  moreover have "paired {} hs" "all_idle M'" using pass_hooks(1,2) [OF assms(2,4)] by (simp_all add: e)
  ultimately show ?thesis using run by blast
qed

text \<open>
  C3: training through the hooks. Start with partitioned parameters; run any number of steps
  of the same pass and stop in the middle of another. No hook and no reset raises, and every
  module in use, in forward or in backward, has all its parameters available with their full
  value.
\<close>

theorem offload_training_safe:
  assumes "env_ok env P" and "ranks_agree env" and "ready env full S dt P h" and "no_host h"
    and "\<And>i. i \<in> P \<Longrightarrow> ds_status (h i) = NOT_AVAILABLE \<and> active_sub_modules (h i) = {}"
    and pass: "pass_ok (es1 @ es2)" and M: "plain_mods M" "all_idle M" and st: "length st = 1"
  shows "\<exists>s' s''. foldE (offload_training_step env) (replicate n (es1 @ es2)) (offload_at s (init_coord b r a h) M st) = Inr s'
    \<and> foldE (torch_step env) es1 s' = Inr s''
    \<and> (\<forall>m. in_use es1 m \<longrightarrow> (\<forall>p \<in> set (c_params env m). ds_status (o_heap s'' p) = AVAILABLE \<and> pdata (o_heap s'' p) = full p))"
proof -
  define hs where "hs = snd (emits (es1 @ es2) M)"
  have ft: "\<not> c_full_transfer env" using assms(1) by (simp add: env_ok_def)
  have same: "snd (emits (es1 @ es2) N) = hs" if "all_idle N" for N
    using pass_hooks(3) [OF pass M(2) that] by (simp add: hs_def)
  have split: "hs = snd (emits es1 N) @ snd (emits es2 (fst (emits es1 N)))" if "all_idle N" for N
    using same [OF that] by (simp add: emits_append split: prod.splits)
  have hs: "paired {} (snd (emits es1 M))" "pre_modules hs = pre_modules (snd (emits es1 M)) @ pre_modules (snd (emits es2 (fst (emits es1 M))))"
    "paired {} hs"
    using pass_hooks(1) [OF pass M(2)] split [OF M(2)] by (auto simp: hs_def paired_append pre_modules_def map_filter_def)
  obtain c c' where c: "foldE (training_step env) (replicate n hs) (init_coord b r a h) = Inr c" "run_hooks env (snd (emits es1 M)) c = Inr c'"
      "\<forall>m \<in> open_after {} (snd (emits es1 M)). \<forall>p \<in> set (c_params env m). ds_status (heap c' p) = AVAILABLE \<and> pdata (heap c' p) = full p"
    using training_run [OF assms(1-3,5) _ hs(1,2), of "replicate n hs" b r a] hs(3) by auto
  have "no_host (heap (init_coord b r a h))" using assms(4) by (simp add: init_coord_def)
  from offload_steps_refine [OF ft pass M this st c(1) same, of s] obtain M' st' where
      s': "foldE (offload_training_step env) (replicate n (es1 @ es2)) (offload_at s (init_coord b r a h) M st) = Inr (offload_at s c M' st')"
      "plain_mods M'" "all_idle M'" "no_host (heap c)" "length st' = 1"
    by blast
  have es1: "snd (emits es1 M') = snd (emits es1 M)" by (rule emits_prefix_cong [OF pass M(2) s'(3)])
  have d: "depth (length st') es1 \<noteq> None" "plain_outputs es1"
    using pass s'(5) by (auto simp: pass_ok_def depth_append plain_outputs_def bind_eq_Some_conv)
  have "foldE (torch_step env) es1 (offload_at s c M' st') = Inr (offload_at s c' (fst (emits es1 M')) (stack_after es1 st'))"
    using torch_refines [OF ft s'(2,4) d, of s] c(2) es1 by (simp split: prod.splits)
  moreover have "\<forall>p \<in> set (c_params env m). ds_status (heap c' p) = AVAILABLE \<and> pdata (heap c' p) = full p"
    if "in_use es1 m" for m
    using c(3) in_use_open [OF pass M(2) that] by blast
  ultimately show ?thesis using s'(1) by fastforce
qed

definition demo_pass :: "torch_event list" where
  "demo_pass = [Call 0 (Seq [Tens True]), Call 1 (Tens True), Return 1 (Tens True), Return 0 (Seq [Tens True, Tens True]),
     PreNode 0, PreNode 0, PreNode 1, PostNode 1, PostNode 0]"

definition demo_mods :: "nat \<Rightarrow> mod_info" where
  "demo_mods = (\<lambda>_. \<lparr>training = True, timing_call_counter = 0, fwd_call_stack = [], active_fwd_call = None,
     bwd_active_call = None, last_bwd_pre_call = None, pre_backward_ref_cnt = 0, ds_grads_remaining = 0,
     external_params = []\<rparr>)"

definition demo_offload :: "nat offload" where
  "demo_offload = \<lparr>o_heap = mini_heap, o_coords = (\<lambda>_. None), o_mods = demo_mods, o_stack = [0], o_root = 0,
     o_bucket = 3, o_reuse = 0, o_avail = 100, next_ptr = 0\<rparr>"

lemma demo_pass_ok: "pass_ok demo_pass"
proof -
  have "called_once 0 (Seq [Tens True]) (events_of 0 demo_pass)"
    unfolding called_once_def
    by (rule exI [of _ "Seq [Tens True, Tens True]"], rule exI [of _ "[PreNode 0]"])
      (simp add: demo_pass_def events_of_def n_tensors_def n_grads_def)
  moreover have "called_once 1 (Tens True) (events_of 1 demo_pass)"
    unfolding called_once_def
    by (rule exI [of _ "Tens True"], rule exI [of _ "[]"])
      (simp add: demo_pass_def events_of_def n_tensors_def n_grads_def)
  moreover have "events_of m demo_pass = []" if "m \<noteq> 0" "m \<noteq> 1" for m
    using that by (simp add: demo_pass_def events_of_def)
  moreover have "depth 1 demo_pass = Some 1" "plain_outputs demo_pass"
    by (auto simp: demo_pass_def plain_outputs_def plain_output_def eval_nat_numeral)
  ultimately show ?thesis unfolding pass_ok_def by metis
qed

lemma demo_mods_ok: "plain_mods demo_mods" "all_idle demo_mods" "no_host mini_heap"
  by (simp_all add: plain_mods_def all_idle_def idle_def demo_mods_def no_host_def mini_heap_def convert_to_deepspeed_param_def)

theorem hooks_refine_coordinator_witness:
  "\<exists>hs M' st'. foldE (torch_step demo_cenv) demo_pass (offload_at demo_offload (init_coord 3 0 100 mini_heap) demo_mods [0])
      = ebind (run_hooks demo_cenv hs (init_coord 3 0 100 mini_heap)) (\<lambda>c'. Inr (offload_at demo_offload c' M' st'))
    \<and> hooks_of 0 hs = [Pre 0, Post 0, Pre 0, Post 0] \<and> hooks_of 7 hs = []"
proof -
  have "\<exists>hs M' st'. foldE (torch_step demo_cenv) demo_pass (offload_at demo_offload (init_coord 3 0 100 mini_heap) demo_mods [0])
      = ebind (run_hooks demo_cenv hs (init_coord 3 0 100 mini_heap)) (\<lambda>c'. Inr (offload_at demo_offload c' M' st'))
    \<and> paired {} hs \<and> all_idle M' \<and> length st' = 1
    \<and> (\<forall>m. if events_of m demo_pass = [] then hooks_of m hs = []
           else \<exists>inp. called_once m inp (events_of m demo_pass)
              \<and> hooks_of m hs = [Pre m, Post m, Pre m] @ (if n_grads inp = 0 then [] else [Post m]))"
    by (rule hooks_refine_coordinator)
      (simp_all add: demo_pass_ok demo_mods_ok demo_cenv_def init_coord_def)
  then obtain hs M' st' where r: "foldE (torch_step demo_cenv) demo_pass (offload_at demo_offload (init_coord 3 0 100 mini_heap) demo_mods [0])
      = ebind (run_hooks demo_cenv hs (init_coord 3 0 100 mini_heap)) (\<lambda>c'. Inr (offload_at demo_offload c' M' st'))"
    "\<And>m. if events_of m demo_pass = [] then hooks_of m hs = []
           else \<exists>inp. called_once m inp (events_of m demo_pass)
              \<and> hooks_of m hs = [Pre m, Post m, Pre m] @ (if n_grads inp = 0 then [] else [Post m])"
    by blast
  have "hooks_of 0 hs = [Pre 0, Post 0, Pre 0, Post 0]"
    using r(2) [of 0] by (auto simp: demo_pass_def events_of_def called_once_def n_grads_def)
  moreover have "hooks_of 7 hs = []" using r(2) [of 7] by (simp add: demo_pass_def events_of_def)
  ultimately show ?thesis using r(1) by blast
qed

theorem offload_training_safe_witness:
  "\<exists>s' s''. foldE (offload_training_step demo_cenv) (replicate 2 demo_pass)
        (offload_at demo_offload (init_coord 3 0 100 mini_heap) demo_mods [0]) = Inr s'
    \<and> foldE (torch_step demo_cenv) [Call 0 (Seq [Tens True]), Call 1 (Tens True)] s' = Inr s''
    \<and> pdata (o_heap s'' 2) = [3, 13]"
proof -
  let ?es1 = "[Call 0 (Seq [Tens True]), Call 1 (Tens True)]"
  let ?es2 = "[Return 1 (Tens True), Return 0 (Seq [Tens True, Tens True]),
     PreNode 0, PreNode 0, PreNode 1, PostNode 1, PostNode 0]"
  have e: "demo_pass = ?es1 @ ?es2" by (simp add: demo_pass_def)
  have "in_use ?es1 1" by (simp add: in_use_def events_of_def)
  moreover have "\<exists>s' s''. foldE (offload_training_step demo_cenv) (replicate 2 (?es1 @ ?es2))
        (offload_at demo_offload (init_coord 3 0 100 mini_heap) demo_mods [0]) = Inr s'
    \<and> foldE (torch_step demo_cenv) ?es1 s' = Inr s''
    \<and> (\<forall>m. in_use ?es1 m \<longrightarrow> (\<forall>p \<in> set (c_params demo_cenv m). ds_status (o_heap s'' p) = AVAILABLE \<and> pdata (o_heap s'' p) = mini_full p))"
  proof (rule offload_training_safe [OF mini_env mini_ready demo_mods_ok(3) _ _ demo_mods_ok(1,2)])
    show "pass_ok (?es1 @ ?es2)" using demo_pass_ok by (simp only: e)
  qed (simp_all add: mini_heap_def convert_to_deepspeed_param_def)
  ultimately show ?thesis unfolding e by (fastforce simp: demo_cenv_def mini_full_def)
qed

lemma node_runs:
  "depth n (replicate k (PreNode m) @ es) = depth n es" "depth n (replicate k (PostNode m) @ es) = depth n es"
  "stack_after (replicate k (PreNode m) @ es) st = stack_after es st" "stack_after (replicate k (PostNode m) @ es) st = stack_after es st"
  "depth n (replicate k (PostNode m)) = Some n" "stack_after (replicate k (PostNode m)) st = st"
  by (induction k) simp_all

lemma only_hooks:
  assumes "\<forall>e \<in> set es. mod_of e = m"
  shows "hooks_of m (snd (emits es M)) = snd (emits es M)"
  using assms
proof (induction es arbitrary: M)
  case (Cons e es)
  then show ?case using emit_hook_mod [of _ e "M (mod_of e)"]
    by (auto simp: hooks_of_def emits_Cons Let_def filter_id_conv simp del: emits.simps(2))
qed (simp add: hooks_of_def)

text \<open>
  A module that is called twice in a forward pass. Each call resets the count of the
  gradients to come, so the backward of the second call ends with a release as it should, but
  the release after the backward of the first call never happens: the module is fetched for it
  and stays in use when the pass is over.
\<close>

theorem repeated_module_not_released:
  assumes "\<not> c_full_transfer env" and "plain_mods M" "all_idle M" and "no_host (heap c)" and "st \<noteq> []"
    and "plain_output o1" "plain_output o2" and "0 < n_tensors o1" "0 < n_tensors o2" and "0 < n_grads i1" "0 < n_grads i2"
  shows "\<exists>M'. foldE (torch_step env) ([Call m i1, Return m o1, Call m i2, Return m o2]
        @ replicate (n_tensors o2) (PreNode m) @ replicate (n_grads i2) (PostNode m)
        @ replicate (n_tensors o1) (PreNode m) @ replicate (n_grads i1) (PostNode m)) (offload_at s c M st)
    = ebind (run_hooks env [Pre m, Post m, Pre m, Post m, Pre m, Post m, Pre m] c) (\<lambda>c'. Inr (offload_at s c' M' st))"
proof -
  let ?mid2 = "replicate (n_tensors o2 - 1) (PreNode m) @ replicate (n_grads i2 - 1) (PostNode m)"
  let ?mid1 = "replicate (n_tensors o1 - 1) (PreNode m) @ replicate (n_grads i1) (PostNode m)"
  let ?es = "[Call m i1, Return m o1, Call m i2, Return m o2]
        @ replicate (n_tensors o2) (PreNode m) @ replicate (n_grads i2) (PostNode m)
        @ replicate (n_tensors o1) (PreNode m) @ replicate (n_grads i1) (PostNode m)"
  let ?pre = "[Call m i1, Return m o1, Call m i2, Return m o2, PreNode m]"
  have unroll: "replicate n x = (if 0 < n then x # replicate (n - 1) x else [])"
      "0 < n \<Longrightarrow> replicate n x = replicate (n - 1) x @ [x]" for n and x :: torch_event
    by (cases n; simp add: replicate_append_same)+
  have es: "?es = ?pre @ ?mid2 @ [PostNode m, PreNode m] @ ?mid1"
    using assms(8-11) unroll(1) [of "n_tensors o2"] unroll(1) [of "n_tensors o1"] unroll(2) [of "n_grads i2"] by simp
  have count: "count_list (replicate n (PreNode m)) (PostNode m) = 0" "count_list (replicate n (PostNode m)) (PostNode m) = n" for n
    by (induction n) auto
  let ?i = "M m"
  have idle: "0 \<le> pre_backward_ref_cnt ?i" "last_bwd_pre_call ?i \<noteq> Some (Suc (Suc (timing_call_counter ?i)))"
    using assms(3) unfolding all_idle_def idle_def by (blast, metis Suc_n_not_le_n Suc_leD)
  define j where "j = fst (emit_list ?pre ?i)"
  have j: "emit_list ?pre ?i = (j, [[Pre m], [Post m], [Pre m], [Post m], [Pre m]])"
      "fwd_call_stack j = Suc (Suc (timing_call_counter ?i)) # Suc (timing_call_counter ?i) # fwd_call_stack ?i"
      "last_bwd_pre_call j = Some (Suc (Suc (timing_call_counter ?i)))" "ds_grads_remaining j = int (n_grads i2)"
      "0 < pre_backward_ref_cnt j"
    using idle assms(8,9) by (simp_all add: j_def)
  have sub: "set ?mid1 \<subseteq> {PreNode m, PostNode m}" "set ?mid2 \<subseteq> {PreNode m, PostNode m}" by auto
  obtain b where b: "emit_list ?mid2 j = (j\<lparr>bwd_active_call := b,
      ds_grads_remaining := ds_grads_remaining j - int (count_list ?mid2 (PostNode m))\<rparr>, map (\<lambda>_. []) ?mid2)"
    using emit_mid [OF sub(2) j(2,3)] assms(11) by (auto simp: j(4) count)
  let ?k = "j\<lparr>bwd_active_call := b, ds_grads_remaining := 1\<rparr>"
  have k: "ds_grads_remaining j - int (count_list ?mid2 (PostNode m)) = 1" using assms(11) by (simp add: j(4) count)
  define l where "l = fst (emit_list [PostNode m, PreNode m] ?k)"
  have l: "emit_list [PostNode m, PreNode m] ?k = (l, [[Post m], [Pre m]])"
      "fwd_call_stack l = Suc (timing_call_counter ?i) # fwd_call_stack ?i"
      "last_bwd_pre_call l = Some (Suc (timing_call_counter ?i))" "ds_grads_remaining l = 0"
    using j(2,3,5) by (simp_all add: l_def)
  obtain b' where b': "emit_list ?mid1 l = (l\<lparr>bwd_active_call := b',
      ds_grads_remaining := ds_grads_remaining l - int (count_list ?mid1 (PostNode m))\<rparr>, map (\<lambda>_. []) ?mid1)"
    using emit_mid [OF sub(1) l(2,3)] by (auto simp: l(4))
  have "snd (emit_list ?es ?i) = [[Pre m], [Post m], [Pre m], [Post m], [Pre m]] @ map (\<lambda>_. []) ?mid2 @ [[Post m], [Pre m]] @ map (\<lambda>_. []) ?mid1"
    unfolding es emit_list_append [of ?pre] j(1) emit_list_append [of ?mid2] b k
      emit_list_append [of "[PostNode m, PreNode m]"] l(1) b' prod.case snd_conv ..
  then have "concat (snd (emit_list ?es ?i)) = [Pre m, Post m, Pre m, Post m, Pre m, Post m, Pre m]" by simp
  moreover have own: "\<forall>e \<in> set ?es. mod_of e = m" by auto
  then have "events_of m ?es = ?es" by (simp only: events_of_def filter_id_conv)
  moreover have "hooks_of m (snd (emits ?es M)) = snd (emits ?es M)"
    using own by (intro only_hooks)
  ultimately have hs: "snd (emits ?es M) = [Pre m, Post m, Pre m, Post m, Pre m, Post m, Pre m]"
    using emits_hooks [of m ?es M] by metis
  have d: "depth (length st) ?es \<noteq> None" "stack_after ?es st = st" "plain_outputs ?es"
    using assms(5-7) by (auto simp: plain_outputs_def node_runs)
  obtain M' where e: "emits ?es M = (M', [Pre m, Post m, Pre m, Post m, Pre m, Post m, Pre m])" using hs by (metis prod.collapse)
  show ?thesis using torch_refines [OF assms(1,2,4) d(1,3), of s] unfolding e prod.case d(2) by blast
qed

theorem repeated_module_not_released_witness:
  "\<exists>M'. foldE (torch_step demo_cenv) [Call 1 (Tens True), Return 1 (Tens True), Call 1 (Tens True), Return 1 (Tens True),
        PreNode 1, PostNode 1, PreNode 1, PostNode 1] (offload_at demo_offload (init_coord 3 0 100 mini_heap) demo_mods [0])
    = ebind (run_hooks demo_cenv [Pre 1, Post 1, Pre 1, Post 1, Pre 1, Post 1, Pre 1] (init_coord 3 0 100 mini_heap))
        (\<lambda>c'. Inr (offload_at demo_offload c' M' [0]))"
  using repeated_module_not_released [of demo_cenv demo_mods "init_coord 3 0 100 mini_heap" "[0]" "Tens True" "Tens True" "Tens True" "Tens True" 1 demo_offload]
  by (simp add: demo_mods_ok plain_output_def n_tensors_def n_grads_def demo_cenv_def init_coord_def)

section \<open>The pinned host copies\<close>

text \<open>
  A parameter is ready if the buffer \<^verbatim>\<open>_ensure_pinned_cpu_full_param\<close> would take is good. Saving
  the value needs a new buffer only if it is not, and leaves it ready, also after the buffer went
  back to the pool.
\<close>

definition host_ready :: "'a param \<Rightarrow> bool" where
  "host_ready p \<longleftrightarrow> \<not> needs_new p (case cpu_full_param p of None \<Rightarrow> cpu_full_param_pool p | Some b \<Rightarrow> Some b)"

definition saved :: "'a param \<Rightarrow> bool" where
  "saved p \<longleftrightarrow> (\<exists>b. cpu_full_param p = Some b \<and> buf_data b = pdata p \<and> \<not> needs_new p (Some b))"

lemma save_to_host_spec:
  "case save_to_host u p k of (q, k') \<Rightarrow>
     saved q \<and> k' = (if host_ready p then k else Suc k)
     \<and> (\<exists>f g. q = p\<lparr>cpu_full_param := f, cpu_full_param_pool := g\<rparr>)"
proof -
  have pool: "p\<lparr>cpu_full_param_pool := g, cpu_full_param := f\<rparr> = p\<lparr>cpu_full_param := f, cpu_full_param_pool := g\<rparr>" for f g
    by (cases p) simp
  have self: "p\<lparr>cpu_full_param := f\<rparr> = p\<lparr>cpu_full_param := f, cpu_full_param_pool := cpu_full_param_pool p\<rparr>" for f
    by (cases p) simp
  show ?thesis
  proof (cases "host_ready p")
    case False
    then show ?thesis
      by (auto simp: save_to_host_def ensure_pinned_cpu_full_param_def host_ready_def Let_def saved_def write_buf_def
          needs_new_def data_shape_def intro: pool)
  next
    case True
    then obtain b where b: "(case cpu_full_param p of None \<Rightarrow> cpu_full_param_pool p | Some b \<Rightarrow> Some b) = Some b"
      by (auto simp: host_ready_def needs_new_def split: option.splits)
    with True show ?thesis
      by (auto simp: save_to_host_def ensure_pinned_cpu_full_param_def host_ready_def Let_def saved_def write_buf_def
          needs_new_def data_shape_def intro: exI [of _ "Some (b\<lparr>buf_data := pdata p\<rparr>)"])
  qed
qed

definition host_cycle :: "(nat \<Rightarrow> 'a) \<Rightarrow> 'a list \<Rightarrow> 'a param \<times> nat \<Rightarrow> 'a param \<times> nat" where
  "host_cycle u v s = (case save_to_host u ((fst s)\<lparr>pdata := v\<rparr>) (snd s) of (q, k) \<Rightarrow> (pool_cpu_full q, k))"

text \<open>Two references with the same address are to one buffer.\<close>

definition alias_ok :: "'a param \<Rightarrow> bool" where
  "alias_ok p \<longleftrightarrow> (case (cpu_full_param p, cpu_full_param_pool p) of
     (Some b, Some pb) \<Rightarrow> buf_ptr b = buf_ptr pb \<longrightarrow> b = pb | _ \<Rightarrow> True)"

lemma save_alias: "alias_ok p \<Longrightarrow> alias_ok (fst (save_to_host u p k))"
  by (auto simp: alias_ok_def save_to_host_def ensure_pinned_cpu_full_param_def Let_def write_buf_def split: option.splits)

lemma pool_alias:
  "alias_ok p \<Longrightarrow> cpu_full_param p = Some b \<Longrightarrow>
     pool_cpu_full p = p\<lparr>cpu_full_param := None, cpu_full_param_pool := Some b\<rparr>"
  by (cases p) (auto simp: alias_ok_def pool_cpu_full_def Let_def split: option.splits)

lemma host_cycle_ready:
  assumes "alias_ok (fst s)" and "length v = length v'"
  shows "host_ready ((fst (host_cycle u v s))\<lparr>pdata := v'\<rparr>) \<and> alias_ok (fst (host_cycle u v s))"
    and "snd (host_cycle u v s) = (if host_ready ((fst s)\<lparr>pdata := v\<rparr>) then snd s else Suc (snd s))"
proof -
  obtain q k where q: "save_to_host u ((fst s)\<lparr>pdata := v\<rparr>) (snd s) = (q, k)" by fastforce
  have sp: "saved q" "k = (if host_ready ((fst s)\<lparr>pdata := v\<rparr>) then snd s else Suc (snd s))"
      "\<exists>f g. q = (fst s)\<lparr>pdata := v, cpu_full_param := f, cpu_full_param_pool := g\<rparr>"
    using save_to_host_spec [where u = u and p = "(fst s)\<lparr>pdata := v\<rparr>" and k = "snd s"] by (simp_all add: q)
  then obtain b f g where b: "cpu_full_param q = Some b" "\<not> needs_new q (Some b)"
      "q = (fst s)\<lparr>pdata := v, cpu_full_param := f, cpu_full_param_pool := g\<rparr>"
    by (auto simp: saved_def)
  have "alias_ok ((fst s)\<lparr>pdata := v\<rparr>)" using assms(1) by (simp add: alias_ok_def)
  then have "alias_ok q" using save_alias [where u = u and p = "(fst s)\<lparr>pdata := v\<rparr>" and k = "snd s"] by (simp add: q)
  from pool_alias [OF this b(1)] have "fst (host_cycle u v s) = q\<lparr>cpu_full_param := None, cpu_full_param_pool := Some b\<rparr>"
    by (simp add: host_cycle_def q)
  moreover have "v' = [] \<longleftrightarrow> v = []" using assms(2) by auto
  ultimately show "host_ready ((fst (host_cycle u v s))\<lparr>pdata := v'\<rparr>) \<and> alias_ok (fst (host_cycle u v s))"
    using b(2) by (simp add: host_ready_def alias_ok_def needs_new_def data_shape_def b(3))
  show "snd (host_cycle u v s) = (if host_ready ((fst s)\<lparr>pdata := v\<rparr>) then snd s else Suc (snd s))"
    using sp(2) by (simp add: host_cycle_def q)
qed

text \<open>
  Pinned memory is allocated once. Over any number of passes, each saving a new value of the
  parameter after forward and returning the buffer to the pool after backward, a parameter gets
  at most one pinned allocation, in the first pass, and none if the pool had a good buffer.
\<close>

theorem pinned_allocated_once:
  assumes "alias_ok p" and "\<And>v. v \<in> set vs \<Longrightarrow> length v = n"
  shows "snd (fold (host_cycle u) vs (p, k)) =
    (case vs of [] \<Rightarrow> k | v # _ \<Rightarrow> if host_ready (p\<lparr>pdata := v\<rparr>) then k else Suc k)"
proof -
  have rest: "snd (fold (host_cycle u) ws s) = snd s"
    if "alias_ok (fst s)" "\<And>w. w \<in> set ws \<Longrightarrow> length w = n" "\<And>w. length w = n \<Longrightarrow> host_ready ((fst s)\<lparr>pdata := w\<rparr>)" for ws s
    using that
  proof (induction ws arbitrary: s)
    case (Cons w ws)
    have w: "length w = n" using Cons.prems(2) by simp
    have "snd (fold (host_cycle u) ws (host_cycle u w s)) = snd (host_cycle u w s)"
      using Cons.prems host_cycle_ready(1) [OF Cons.prems(1), of w _ u] w by (intro Cons.IH) auto
    then show ?case using host_cycle_ready(2) [OF Cons.prems(1), of w w u] Cons.prems(3) [OF w] by simp
  qed simp
  show ?thesis
  proof (cases vs)
    case (Cons v ws)
    have v: "length v = n" using assms(2) Cons by simp
    have "snd (fold (host_cycle u) ws (host_cycle u v (p, k))) = snd (host_cycle u v (p, k))"
      using assms Cons host_cycle_ready(1) [of "(p, k)" v _ u] v by (intro rest) auto
    then show ?thesis using host_cycle_ready(2) [of "(p, k)" v v u] assms(1) Cons by simp
  qed simp
qed

theorem pinned_allocated_once_witness:
  "snd (fold (host_cycle (\<lambda>_. 9)) [[1, 2], [3, 4], [5, 6]] (mini_heap 0, 40)) = 41"
proof -
  have "alias_ok (mini_heap 0)" by (simp add: alias_ok_def mini_heap_def convert_to_deepspeed_param_def)
  then have "snd (fold (host_cycle (\<lambda>_. 9)) [[1, 2], [3, 4], [5, 6]] (mini_heap 0, 40)) =
    (case [[1, 2], [3, 4], [5, 6 :: nat]] of [] \<Rightarrow> 40 | v # _ \<Rightarrow> if host_ready ((mini_heap 0)\<lparr>pdata := v\<rparr>) then 40 else Suc 40)"
    by (rule pinned_allocated_once [where n = 2]) auto
  then show ?thesis by (simp add: host_ready_def needs_new_def mini_heap_def convert_to_deepspeed_param_def)
qed

definition only_host_changed :: "'a heap \<Rightarrow> 'a heap \<Rightarrow> bool" where
  "only_host_changed h h' \<longleftrightarrow> (\<forall>p. \<exists>f g. h' p = (h p)\<lparr>cpu_full_param := f, cpu_full_param_pool := g\<rparr>)"

lemma only_host_refl [simp]: "only_host_changed h h"
proof -
  have "h p = (h p)\<lparr>cpu_full_param := cpu_full_param (h p), cpu_full_param_pool := cpu_full_param_pool (h p)\<rparr>" for p
    by simp
  then show ?thesis unfolding only_host_changed_def by blast
qed

lemma only_host_fields:
  assumes "only_host_changed h h'"
  shows "pdata (h' p) = pdata (h p)" "ds_numel (h' p) = ds_numel (h p)" "ds_shape (h' p) = ds_shape (h p)"
    "is_external_param (h' p) = is_external_param (h p)" "pdtype (h' p) = pdtype (h p)"
  using assms [unfolded only_host_changed_def, rule_format, of p] by auto

lemma save_one_spec:
  assumes "only_host_changed h (o_heap t)"
  shows "only_host_changed h (o_heap (save_one env rel p t))"
    and "p \<in> rel \<Longrightarrow> \<not> is_external_param (h p) \<Longrightarrow> saved (o_heap (save_one env rel p t) p)"
    and "saved (o_heap t q) \<Longrightarrow> saved (o_heap (save_one env rel p t) q)"
proof -
  obtain q' k where q: "save_to_host (c_fresh env) (o_heap t p) (next_ptr t) = (q', k)" by fastforce
  have sp: "saved q'" "\<exists>f g. q' = (o_heap t p)\<lparr>cpu_full_param := f, cpu_full_param_pool := g\<rparr>"
    using save_to_host_spec [where u = "c_fresh env" and p = "o_heap t p" and k = "next_ptr t"] by (simp_all add: q)
  have "\<exists>f g. q' = (h p)\<lparr>cpu_full_param := f, cpu_full_param_pool := g\<rparr>"
    using sp(2) assms [unfolded only_host_changed_def, rule_format, of p] by (cases "h p") auto
  then show "only_host_changed h (o_heap (save_one env rel p t))"
    using assms by (auto simp: save_one_def q only_host_changed_def)
  show "p \<in> rel \<Longrightarrow> \<not> is_external_param (h p) \<Longrightarrow> saved (o_heap (save_one env rel p t) p)"
    using sp(1) only_host_fields(4) [OF assms, of p] by (simp add: save_one_def q)
  show "saved (o_heap t q) \<Longrightarrow> saved (o_heap (save_one env rel p t) q)"
    using sp(1) by (auto simp: save_one_def q)
qed

lemma save_all_spec:
  assumes "only_host_changed h (o_heap t)"
  shows "only_host_changed h (o_heap (fold (save_one env rel) ps t))
    \<and> (\<forall>p \<in> set ps. p \<in> rel \<and> \<not> is_external_param (h p) \<longrightarrow> saved (o_heap (fold (save_one env rel) ps t) p))
    \<and> (\<forall>p. saved (o_heap t p) \<longrightarrow> saved (o_heap (fold (save_one env rel) ps t) p))"
  using assms
proof (induction ps arbitrary: t)
  case (Cons p ps)
  show ?case using Cons.IH [OF save_one_spec(1) [OF Cons.prems, of env rel p]] save_one_spec(2,3) [OF Cons.prems, where env = env and rel = rel and p = p]
    by auto
qed simp

section \<open>Module ids\<close>

fun n_modules :: "mtree \<Rightarrow> nat" where
  "n_modules (MNode ts) = Suc (\<Sum>t \<leftarrow> ts. n_modules t)"

lemma number_modules_ids:
  "number_modules c t = (c + n_modules t - 1, [c ..< c + n_modules t])"
  "number_children c ts = (c + (\<Sum>t \<leftarrow> ts. n_modules t), [Suc c ..< Suc c + (\<Sum>t \<leftarrow> ts. n_modules t)])"
proof (induction c t and c ts rule: number_modules_number_children.induct)
  case (1 count ts)
  then show ?case by (simp add: upt_rec [of count] del: upt_Suc)
next
  case (3 count t ts)
  have pos: "0 < n_modules t" by (cases t) simp
  have "[Suc count ..< Suc count + n_modules t] @ [Suc (count + n_modules t) ..< Suc (count + n_modules t) + (\<Sum>t \<leftarrow> ts. n_modules t)]
      = [Suc count ..< Suc count + (n_modules t + (\<Sum>t \<leftarrow> ts. n_modules t))]"
    using upt_add_eq_append [of "Suc count" "Suc count + n_modules t" "\<Sum>t \<leftarrow> ts. n_modules t"] by (simp add: add.assoc)
  then show ?case using 3 pos by (simp add: add.assoc)
qed simp

text \<open>
  The ids the hooks are registered under. The modules of a model get the numbers from the
  counter's value on, without gaps, in the order of a depth-first traversal. The counter is a
  default argument that all registrations of the process share and is left at the last id given:
  the root of a second model gets the id of the last module of the first.
\<close>

theorem module_ids:
  "snd (number_modules 0 t1) = [0 ..< n_modules t1]
    \<and> snd (number_modules (fst (number_modules 0 t1)) t2) = [n_modules t1 - 1 ..< n_modules t1 - 1 + n_modules t2]
    \<and> last (snd (number_modules 0 t1)) = hd (snd (number_modules (fst (number_modules 0 t1)) t2))"
proof -
  have "0 < n_modules t1" "0 < n_modules t2" by (cases t1, simp, cases t2, simp)
  then show ?thesis by (simp add: number_modules_ids)
qed

end
