(* ===== verification/HostRestore.thy ===== *)
theory HostRestore
  imports OffloadProps
begin

text \<open>
  The way of a module's parameters from the hook after its forward to the hook before its
  backward, with the pinned host copies switched on: \<^verbatim>\<open>post_sub_module_forward\<close> saves what it
  releases, and \<^verbatim>\<open>pre_sub_module_backward\<close> fetches the module again from the copies.
\<close>

section \<open>What the release leaves\<close>

text \<open>Each parameter keeps its status and value, or is one of those to release and given back.\<close>

definition released_or_kept :: "nat set \<Rightarrow> 'a heap \<Rightarrow> 'a heap \<Rightarrow> bool" where
  "released_or_kept rel h h' \<longleftrightarrow> (\<forall>p. is_external_param (h' p) = is_external_param (h p) \<and>
     (ds_status (h' p) = ds_status (h p) \<and> pdata (h' p) = pdata (h p)
      \<or> ds_status (h' p) = NOT_AVAILABLE \<and> p \<in> rel \<and> \<not> is_external_param (h p)))"

lemma released_or_kept_refl: "released_or_kept rel h h"
  by (simp add: released_or_kept_def)

lemma released_or_kept_trans:
  "released_or_kept rel h h1 \<Longrightarrow> released_or_kept rel h1 h2 \<Longrightarrow> released_or_kept rel h h2"
  unfolding released_or_kept_def by metis

lemma partition_external: "partition_param W r u upd p = Inr q \<Longrightarrow> is_external_param q = is_external_param p"
  by (auto simp: partition_param_def free_param_def Let_def ebind_eq_Inr_iff split: if_splits)

lemma release_one_kept:
  assumes "release_one env m rel p c = Inr c'"
  shows "released_or_kept rel (heap c) (heap c')"
proof -
  let ?c1 = "c\<lparr>heap := (heap c)(p := (heap c p)\<lparr>active_sub_modules := active_sub_modules (heap c p) - {m}\<rparr>)\<rparr>"
  have one: "released_or_kept rel (heap c) (heap ?c1)" by (simp add: released_or_kept_def)
  show ?thesis
  proof (cases "p \<in> rel \<and> \<not> is_external_param (heap c p)")
    case False
    then show ?thesis using assms one by (auto simp: release_one_def Let_def)
  next
    case True
    then have "release_param env p ?c1 = Inr c'" using assms by (simp add: release_one_def Let_def)
    then have "heap c' = heap ?c1 \<or> (\<exists>q. partition_param (c_world env) (c_rank env) (c_fresh env) False (heap ?c1 p) = Inr q
        \<and> heap c' = (heap ?c1)(p := q\<lparr>ds_status := NOT_AVAILABLE\<rparr>))"
      by (auto simp: release_param_def partition_list_def partition_one_def ebind_eq_Inr_iff split: if_splits)
    then have "released_or_kept rel (heap ?c1) (heap c')"
    proof
      assume "\<exists>q. partition_param (c_world env) (c_rank env) (c_fresh env) False (heap ?c1 p) = Inr q
        \<and> heap c' = (heap ?c1)(p := q\<lparr>ds_status := NOT_AVAILABLE\<rparr>)"
      then obtain q where q: "partition_param (c_world env) (c_rank env) (c_fresh env) False (heap ?c1 p) = Inr q"
          "heap c' = (heap ?c1)(p := q\<lparr>ds_status := NOT_AVAILABLE\<rparr>)" by blast
      then show ?thesis using True partition_external [OF q(1)] by (simp add: released_or_kept_def)
    qed (simp add: released_or_kept_refl)
    with one show ?thesis by (rule released_or_kept_trans)
  qed
qed

definition release_set :: "'a cenv \<Rightarrow> nat \<Rightarrow> 'a coord \<Rightarrow> nat set result" where
  "release_set env m c = (if mode c = COMPLETE then params_to_release_for_submodule env m c else Inr (set (c_params env m)))"

lemma release_kept:
  assumes "release_sub_module env m c = Inr c'" and "release_set env m c = Inr rel"
  shows "released_or_kept rel (heap c) (heap c')"
proof -
  have "foldE (release_one env m rel) (c_params env m) c = Inr c'"
    using assms by (auto simp: release_sub_module_def release_set_def params_to_release_for_submodule_def split: if_splits)
  then show ?thesis
    by (rule foldE_invariant [where I = "\<lambda>c'. released_or_kept rel (heap c) (heap c')"])
      (auto intro: released_or_kept_refl released_or_kept_trans release_one_kept)
qed

text \<open>The set of parameters to release does not depend on the host copies.\<close>

lemma reuse_scan_host: "only_host_changed h h' \<Longrightarrow> reuse_scan env h' l ms n A = reuse_scan env h l ms n A"
  by (induction ms arbitrary: n A) (simp_all add: only_host_fields)

lemma only_host_more:
  assumes "only_host_changed h h'"
  shows "ds_persist (h' p) = ds_persist (h p)" "ds_status (h' p) = ds_status (h p)"
    "active_sub_modules (h' p) = active_sub_modules (h p)"
  using assms [unfolded only_host_changed_def, rule_format, of p] by auto

lemma release_set_host:
  assumes "only_host_changed (heap c) h'"
  shows "release_set env m (c\<lparr>heap := h'\<rparr>) = release_set env m c"
  using only_host_more(1) [OF assms]
  by (simp add: release_set_def params_to_release_for_submodule_def params_to_release_def Let_def reuse_scan_host [OF assms])

section \<open>Fetching from the host copies\<close>

text \<open>
  The state while the hook before backward fetches the parameters \<open>P\<close>: nothing is left
  unavailable, what is available has its value, and what is in flight is registered with a
  handle that will read it from its host copy.
\<close>

definition has_copy :: "(nat \<Rightarrow> 'a list) \<Rightarrow> 'a heap \<Rightarrow> nat \<Rightarrow> bool" where
  "has_copy full h p \<longleftrightarrow> ds_numel (h p) = length (full p) \<and> prod_list (ds_shape (h p)) = length (full p)
     \<and> (\<exists>b. cpu_full_param (h p) = Some b \<and> buf_data b = full p)"

definition host_handle_ok :: "(nat \<Rightarrow> 'a list) \<Rightarrow> nat set \<Rightarrow> 'a coord \<Rightarrow> nat \<Rightarrow> nat \<Rightarrow> bool" where
  "host_handle_ok full P c p hid \<longleftrightarrow> hid < length (handles c) \<and> h_kind (handles c ! hid) = CpuFullHandle
     \<and> (if h_complete (handles c ! hid) then ds_status (heap c p) = AVAILABLE
        else p \<in> set (h_params (handles c ! hid)) \<and> distinct (h_params (handles c ! hid))
          \<and> (\<forall>j \<in> set (h_params (handles c ! hid)). j \<in> P \<and> has_copy full (heap c) j \<and> map_of (inflight c) j = Some hid))"

definition host_inv :: "(nat \<Rightarrow> 'a list) \<Rightarrow> nat set \<Rightarrow> 'a coord \<Rightarrow> bool" where
  "host_inv full P c \<longleftrightarrow> (\<forall>p \<in> P. ds_status (heap c p) \<noteq> NOT_AVAILABLE
     \<and> (ds_status (heap c p) = AVAILABLE \<longrightarrow> pdata (heap c p) = full p)
     \<and> (ds_status (heap c p) = INFLIGHT \<longrightarrow> map_of (inflight c) p \<noteq> None)
     \<and> (\<forall>hid. map_of (inflight c) p = Some hid \<longrightarrow> host_handle_ok full P c p hid))"

lemma host_invD:
  assumes "host_inv full P c" and "p \<in> P"
  shows "ds_status (heap c p) \<noteq> NOT_AVAILABLE" "ds_status (heap c p) = AVAILABLE \<Longrightarrow> pdata (heap c p) = full p"
    "map_of (inflight c) p = None \<Longrightarrow> ds_status (heap c p) = AVAILABLE"
    "map_of (inflight c) p = Some hid \<Longrightarrow> host_handle_ok full P c p hid"
  using assms by (cases "ds_status (heap c p)"; force simp: host_inv_def)+

lemma has_copy_cong: "host_view (h' p) = host_view (h p) \<Longrightarrow> has_copy full h' p = has_copy full h p"
  by (simp add: has_copy_def)

text \<open>The launch: the parameters that are missing go in flight together, with one handle.\<close>

lemma host_launch:
  assumes ft: "c_full_transfer env" and ps: "distinct ps"
    and copy: "\<And>p. p \<in> set ps \<Longrightarrow> ds_status (heap c p) = NOT_AVAILABLE \<Longrightarrow> has_copy full (heap c) p"
    and av: "\<And>p. p \<in> set ps \<Longrightarrow> ds_status (heap c p) \<noteq> NOT_AVAILABLE \<Longrightarrow> ds_status (heap c p) = AVAILABLE \<and> pdata (heap c p) = full p"
    and unreg: "\<And>p. p \<in> set ps \<Longrightarrow> p \<notin> fst ` set (inflight c)"
  shows "\<exists>c'. all_gather_params env ps c = Inr c' \<and> host_inv full (set ps) c' \<and> ctl c' = ctl c"
proof (cases "not_available c ps = []")
  case True
  then have "\<forall>p \<in> set ps. ds_status (heap c p) \<noteq> NOT_AVAILABLE" by (simp add: not_available_def filter_empty_conv)
  moreover have "map_of (inflight c) p = None" if "p \<in> set ps" for p using unreg that by (simp add: map_of_eq_None_iff)
  ultimately have "host_inv full (set ps) c" using av by (simp add: host_inv_def)
  moreover have "all_gather_params env ps c = Inr c" using True by (simp add: all_gather_params_def)
  ultimately show ?thesis by simp
next
  case False
  let ?ns = "not_available c ps"
  let ?h1 = "\<lambda>i. if i \<in> set ?ns then (heap c i)\<lparr>ds_status := INFLIGHT\<rparr> else heap c i"
  let ?hdl = "\<lparr>h_kind = CpuFullHandle, h_params = sort ?ns, h_recv = [], h_part_size = 0, h_complete = False\<rparr>"
  have ns: "distinct ?ns" "set ?ns \<subseteq> set ps" "\<And>p. p \<in> set ?ns \<Longrightarrow> ds_status (heap c p) = NOT_AVAILABLE"
    using ps by (auto simp: not_available_def)
  have cp: "has_copy full (heap c) p" if "p \<in> set ?ns" for p using copy ns that by blast
  have "foldE mark_inflight ?ns (heap c) = Inr ?h1" using ns(1,3) by (rule mark_inflight_list)
  moreover have "\<forall>i \<in> set (sort ?ns). cpu_full_param (?h1 i) \<noteq> None" using cp by (auto simp: has_copy_def)
  ultimately have l: "all_gather_coalesced (c_world env) (c_fresh env) (c_gather env) (c_cast env) True ?ns (heap c) = Inr (?h1, ?hdl)"
    by (simp add: all_gather_coalesced_def Let_def)
  let ?c' = "after_launch ?ns ?h1 ?hdl c"
  let ?c1 = "c\<lparr>n_available := n_available c + (\<Sum>p \<leftarrow> ?ns. int (ds_numel (heap c p))), heap := ?h1, handles := handles c @ [?hdl]\<rparr>"
  have "foldE (\<lambda>p c'. ebind (assert_that (ds_status (heap c' p) = INFLIGHT)) (\<lambda>_. register_inflight (length (handles c)) p c')) ?ns ?c1
      = Inr ?c'"
    using register_all [of ?ns ?c1 "length (handles c)"] unreg ns(1,2) by (auto simp: after_launch_def)
  then have op: "all_gather_params env ps c = Inr ?c'"
    using l ft False by (simp add: all_gather_params_def Let_def)
  have none: "map_of (inflight c) p = None" if "p \<in> set ps" for p using unreg that by (simp add: map_of_eq_None_iff)
  have reg: "map_of (inflight c @ map (\<lambda>p. (p, length (handles c))) ?ns) p = (if p \<in> set ?ns then Some (length (handles c)) else None)"
    if "p \<in> set ps" for p
    using none [OF that] by (simp add: map_of_append map_add_def map_of_map_restrict split: option.splits)
  have copies: "has_copy full ?h1 j" if "j \<in> set ?ns" for j
    using cp [OF that] by (simp add: has_copy_def)
  have hdl: "host_handle_ok full (set ps) ?c' p (length (handles c))" if "p \<in> set ?ns" for p
    unfolding host_handle_ok_def after_launch_simps
    using that ns(1,2) copies reg by (auto simp: subset_iff)
  have "host_inv full (set ps) ?c'"
    unfolding host_inv_def
  proof (intro ballI conjI impI allI)
    fix p assume p: "p \<in> set ps"
    have st: "ds_status (heap c p) = NOT_AVAILABLE \<longleftrightarrow> p \<in> set ?ns" using p by (simp add: not_available_def)
    show "ds_status (heap ?c' p) \<noteq> NOT_AVAILABLE" using st by simp
    show "pdata (heap ?c' p) = full p" if "ds_status (heap ?c' p) = AVAILABLE" using that av p st by (auto split: if_splits)
    show "map_of (inflight ?c') p \<noteq> None" if "ds_status (heap ?c' p) = INFLIGHT"
      using that av [OF p] st reg [OF p] by (auto split: if_splits)
    show "host_handle_ok full (set ps) ?c' p hid" if "map_of (inflight ?c') p = Some hid" for hid
      using that reg [OF p] hdl by (auto split: if_splits)
  qed
  then show ?thesis using op by (intro exI [of _ ?c']) simp
qed

text \<open>One round of the wait loop.\<close>

lemma drain_same [simp]:
  "heap (drain_events env c) = heap c" "handles (drain_events env c) = handles c" "inflight (drain_events env c) = inflight c"
  "ctl (drain_events env c) = ctl c"
  by (simp_all add: drain_events_def Let_def ctl_def)

lemma activate_same [simp]:
  "handles (activate m p c) = handles c" "inflight (activate m p c) = inflight c" "ctl (activate m p c) = ctl c"
  "pdata (heap (activate m p c) i) = pdata (heap c i)" "ds_status (heap (activate m p c) i) = ds_status (heap c i)"
  "has_copy full (heap (activate m p c)) i = has_copy full (heap c) i"
  by (simp_all add: activate_def ctl_def has_copy_def)

lemma activate_users:
  "active_sub_modules (heap (activate m p c) i) = (if i = p then insert m (active_sub_modules (heap c i)) else active_sub_modules (heap c i))"
  by (simp add: activate_def)

lemma host_inv_activate [simp]: "host_inv full P (activate m p c) = host_inv full P c"
  by (simp add: host_inv_def host_handle_ok_def)

text \<open>What the wait leaves: the parameters of a handle that was still open have their values.\<close>

definition host_waited :: "'a cenv \<Rightarrow> (nat \<Rightarrow> 'a list) \<Rightarrow> nat \<Rightarrow> nat \<Rightarrow> 'a coord \<Rightarrow> 'a coord" where
  "host_waited env full p hid c =
     (let c1 = drain_events env c; H = handles c ! hid in
      c1\<lparr>heap := (if h_complete H then heap c else gathered full (h_params H) (heap c)),
         handles := (handles c)[hid := H\<lparr>h_complete := True\<rparr>],
         inflight := filter (\<lambda>e. fst e \<noteq> p) (inflight c), ongoing_events := ongoing_events c1 @ [n_events c1],
         n_events := Suc (n_events c1)\<rparr>)"

lemma host_wait_runs:
  assumes inv: "host_inv full P c" and p: "p \<in> P" and reg: "map_of (inflight c) p = Some hid"
  shows "wait_inflight env p c = Inr (host_waited env full p hid c)"
proof -
  have ok: "host_handle_ok full P c p hid" using host_invD(4) [OF inv p reg] .
  have "handle_wait (c_world env) (handles c ! hid) (heap c)
    = Inr (if h_complete (handles c ! hid) then heap c else gathered full (h_params (handles c ! hid)) (heap c),
           (handles c ! hid)\<lparr>h_complete := True\<rparr>)"
  proof (cases "h_complete (handles c ! hid)")
    case True
    then show ?thesis using ok by (cases "handles c ! hid") (simp add: host_handle_ok_def wait_defs)
  next
    case False
    then have "foldE restore_cpu (h_params (handles c ! hid)) (heap c) = Inr (gathered full (h_params (handles c ! hid)) (heap c))"
      using ok by (intro restore_cpu_list) (auto simp: host_handle_ok_def has_copy_def)
    then show ?thesis using ok False by (simp add: host_handle_ok_def wait_defs)
  qed
  then show ?thesis using reg by (simp add: wait_inflight_def host_waited_def Let_def)
qed

lemma host_waited_simps [simp]:
  "heap (host_waited env full p hid c) = (if h_complete (handles c ! hid) then heap c else gathered full (h_params (handles c ! hid)) (heap c))"
  "handles (host_waited env full p hid c) = (handles c)[hid := (handles c ! hid)\<lparr>h_complete := True\<rparr>]"
  "inflight (host_waited env full p hid c) = filter (\<lambda>e. fst e \<noteq> p) (inflight c)"
  "ctl (host_waited env full p hid c) = ctl c"
  by (simp_all add: host_waited_def Let_def drain_events_def ctl_def)

lemma map_of_filter_ne: "q \<noteq> p \<Longrightarrow> map_of (filter (\<lambda>e. fst e \<noteq> p) xs) q = map_of xs q"
  by (induction xs) auto

lemma map_of_filter_eq: "map_of (filter (\<lambda>e. fst e \<noteq> p) xs) p = None"
  by (induction xs) auto

lemma host_waited_inv:
  assumes inv: "host_inv full P c" and p: "p \<in> P" and reg: "map_of (inflight c) p = Some hid"
  shows "host_inv full P (host_waited env full p hid c)" "ds_status (heap (host_waited env full p hid c) p) = AVAILABLE"
proof -
  let ?c = "host_waited env full p hid c" and ?H = "handles c ! hid"
  have ok: "host_handle_ok full P c p hid" using host_invD(4) [OF inv p reg] .
  have at: "heap ?c i = (if \<not> h_complete ?H \<and> i \<in> set (h_params ?H) then (heap c i)\<lparr>pdata := full i, ds_status := AVAILABLE\<rparr> else heap c i)" for i
    by (simp add: gathered_def materialised_def)
  show av: "ds_status (heap ?c p) = AVAILABLE" using ok unfolding at by (auto simp: host_handle_ok_def split: if_splits)
  show "host_inv full P ?c"
    unfolding host_inv_def
  proof (intro ballI conjI impI allI)
    fix q assume q: "q \<in> P"
    show "ds_status (heap ?c q) \<noteq> NOT_AVAILABLE" using host_invD(1) [OF inv q] unfolding at by simp
    show "pdata (heap ?c q) = full q" if "ds_status (heap ?c q) = AVAILABLE"
      using that host_invD(2) [OF inv q] unfolding at by (auto split: if_splits)
    show "map_of (inflight ?c) q \<noteq> None" if "ds_status (heap ?c q) = INFLIGHT"
    proof -
      have "q \<noteq> p" using that av by auto
      moreover have "ds_status (heap c q) \<noteq> AVAILABLE" using that unfolding at by (auto split: if_splits)
      ultimately show ?thesis using host_invD(3) [OF inv q] by (auto simp: map_of_filter_ne)
    qed
    show "host_handle_ok full P ?c q hid'" if r: "map_of (inflight ?c) q = Some hid'" for hid'
    proof -
      have qp: "q \<noteq> p" using r by (auto simp: map_of_filter_eq)
      then have ok': "host_handle_ok full P c q hid'" using r host_invD(4) [OF inv q] by (simp add: map_of_filter_ne)
      show ?thesis
      proof (cases "hid' = hid")
        case True
        then have "ds_status (heap ?c q) = AVAILABLE" using ok' unfolding at by (auto simp: host_handle_ok_def split: if_splits)
        then show ?thesis using ok' True by (simp add: host_handle_ok_def)
      next
        case False
        have same: "handles ?c ! hid' = handles c ! hid'" "length (handles ?c) = length (handles c)" using False by simp_all
        have "ds_status (heap ?c q) = AVAILABLE" if "ds_status (heap c q) = AVAILABLE" using that unfolding at by simp
        moreover have "p \<notin> set (h_params (handles c ! hid'))" if "\<not> h_complete (handles c ! hid')"
          using that ok' reg False by (auto simp: host_handle_ok_def)
        moreover have "has_copy full (heap ?c) j" if "has_copy full (heap c) j" for j
          using that unfolding at by (simp add: has_copy_def at)
        moreover have "map_of (inflight ?c) j = map_of (inflight c) j" if "j \<noteq> p" for j using that by (simp add: map_of_filter_ne)
        ultimately show ?thesis using ok' unfolding host_handle_ok_def same by metis
      qed
    qed
  qed
qed

lemma host_fetch_one:
  assumes inv: "host_inv full P c" and p: "p \<in> P"
  shows "\<exists>c'. fetch_one env m p c = Inr c' \<and> host_inv full P c' \<and> ctl c' = ctl c \<and> ds_status (heap c' p) = AVAILABLE
    \<and> (\<forall>i. ds_status (heap c i) = AVAILABLE \<longrightarrow> ds_status (heap c' i) = AVAILABLE)
    \<and> (\<forall>i. active_sub_modules (heap c' i) = (if i = p then insert m (active_sub_modules (heap c i)) else active_sub_modules (heap c i)))"
proof (cases "map_of (inflight c) p")
  case None
  then have "ds_status (heap c p) = AVAILABLE" using host_invD(3) [OF inv p] by simp
  then show ?thesis
    using None inv by (intro exI [of _ "activate m p c"]) (simp add: fetch_one_def wait_inflight_def activate_users)
next
  case (Some hid)
  let ?c' = "host_waited env full p hid (activate m p c)"
  have reg: "map_of (inflight (activate m p c)) p = Some hid" and inv': "host_inv full P (activate m p c)" using Some inv by simp_all
  have "fetch_one env m p c = Inr ?c'"
    using host_wait_runs [OF inv' p reg, of env] host_waited_inv(2) [OF inv' p reg, of env]
    by (simp add: fetch_one_def del: host_waited_simps)
  moreover have "active_sub_modules (heap ?c' i) = (if i = p then insert m (active_sub_modules (heap c i)) else active_sub_modules (heap c i))" for i
    by (simp add: activate_users gathered_def materialised_def)
  moreover have "ds_status (heap ?c' i) = AVAILABLE" if "ds_status (heap c i) = AVAILABLE" for i
    using that by (simp add: gathered_def materialised_def)
  moreover have "ctl ?c' = ctl c" by simp
  ultimately show ?thesis using host_waited_inv [OF inv' p reg, of env] by blast
qed

text \<open>The whole loop: every parameter of the module is available, in use, and has its value.\<close>

definition served :: "(nat \<Rightarrow> 'a list) \<Rightarrow> nat \<Rightarrow> nat set \<Rightarrow> 'a heap \<Rightarrow> bool" where
  "served full m P h \<longleftrightarrow> (\<forall>p \<in> P. ds_status (h p) = AVAILABLE \<and> pdata (h p) = full p \<and> m \<in> active_sub_modules (h p))"

lemma host_fetch_loop:
  assumes "host_inv full P c" and "set ps \<subseteq> P"
  shows "\<exists>c'. foldE (fetch_one env m) ps c = Inr c' \<and> host_inv full P c' \<and> ctl c' = ctl c
    \<and> (\<forall>i. ds_status (heap c i) = AVAILABLE \<and> m \<in> active_sub_modules (heap c i)
        \<longrightarrow> ds_status (heap c' i) = AVAILABLE \<and> m \<in> active_sub_modules (heap c' i))
    \<and> (\<forall>p \<in> set ps. ds_status (heap c' p) = AVAILABLE \<and> m \<in> active_sub_modules (heap c' p))"
  using assms
proof (induction ps arbitrary: c)
  case Nil
  then show ?case by simp
next
  case (Cons p ps)
  obtain c1 where c1: "fetch_one env m p c = Inr c1" "host_inv full P c1" "ctl c1 = ctl c" "ds_status (heap c1 p) = AVAILABLE"
      "\<forall>i. ds_status (heap c i) = AVAILABLE \<longrightarrow> ds_status (heap c1 i) = AVAILABLE"
      "\<forall>i. active_sub_modules (heap c1 i) = (if i = p then insert m (active_sub_modules (heap c i)) else active_sub_modules (heap c i))"
    using host_fetch_one [OF Cons.prems(1), of p env m] Cons.prems(2) by auto
  obtain c2 where c2: "foldE (fetch_one env m) ps c1 = Inr c2" "host_inv full P c2" "ctl c2 = ctl c1"
      "\<forall>i. ds_status (heap c1 i) = AVAILABLE \<and> m \<in> active_sub_modules (heap c1 i)
        \<longrightarrow> ds_status (heap c2 i) = AVAILABLE \<and> m \<in> active_sub_modules (heap c2 i)"
      "\<forall>p \<in> set ps. ds_status (heap c2 p) = AVAILABLE \<and> m \<in> active_sub_modules (heap c2 p)"
    using Cons.IH [OF c1(2)] Cons.prems(2) by auto
  have "\<forall>i. ds_status (heap c i) = AVAILABLE \<and> m \<in> active_sub_modules (heap c i)
        \<longrightarrow> ds_status (heap c2 i) = AVAILABLE \<and> m \<in> active_sub_modules (heap c2 i)"
    using c1(5,6) c2(4) by simp
  moreover have "\<forall>q \<in> set (p # ps). ds_status (heap c2 q) = AVAILABLE \<and> m \<in> active_sub_modules (heap c2 q)"
    using c1(4,6) c2(4,5) by simp
  ultimately show ?case using c1(1,3) c2(1-3) by (intro exI [of _ c2]) simp
qed

text \<open>A launch for other modules leaves what is available alone.\<close>

lemma launch_leaves:
  assumes "all_gather_coalesced W u ag cast ft ids h = Inr (h', hdl)" and "i \<notin> set ids"
  shows "h' i = h i"
proof -
  obtain h1 where m: "foldE mark_inflight ids h = Inr h1"
    using assms by (auto simp: all_gather_coalesced_def ebind_eq_Inr_iff)
  have "distinct ids \<and> (\<forall>i \<in> set ids. ds_status (h i) = NOT_AVAILABLE)"
    using m mark_inflight_fails [of ids h] by (cases "distinct ids \<and> (\<forall>i \<in> set ids. ds_status (h i) = NOT_AVAILABLE)") auto
  then have "h1 i = h i" using m mark_inflight_list [of ids h] assms(2) by auto
  moreover have "h' = h1 \<or> (\<exists>j q. j \<in> set ids \<and> h' = h1(j := q))"
  proof (cases "sort ids")
    case Nil
    then show ?thesis using assms(1) m by (auto simp: all_gather_coalesced_def Let_def ebind_eq_Inr_iff split: if_splits)
  next
    case (Cons j js)
    then have "j \<in> set ids" by (metis list.set_intros(1) set_sort)
    then show ?thesis using assms(1) m Cons
      by (cases js) (auto simp: all_gather_coalesced_def Let_def ebind_eq_Inr_iff split: if_splits)
  qed
  ultimately show ?thesis using assms(2) by auto
qed

lemma gather_leaves:
  assumes "all_gather_params env ps c = Inr c'" and "ds_status (heap c i) \<noteq> NOT_AVAILABLE"
  shows "heap c' i = heap c i"
proof -
  have reg: "heap d' = heap d"
    if "foldE (\<lambda>p c. ebind (assert_that (ds_status (heap c p) = INFLIGHT)) (\<lambda>_. register_inflight hid p c)) qs d = Inr d'" for hid qs d d'
    by (rule foldE_invariant [where I = "\<lambda>d'. heap d' = heap d", OF that])
      (auto simp: register_inflight_def ebind_eq_Inr_iff split: if_splits)
  have "i \<notin> set (not_available c ps)" using assms(2) by (simp add: not_available_def)
  then show ?thesis using assms(1)
    by (auto simp: all_gather_params_def Let_def ebind_eq_Inr_iff dest!: reg launch_leaves split: if_splits)
qed

lemma prefetch_leaves: "prefetch env c = Inr c' \<Longrightarrow> ds_status (heap c i) \<noteq> NOT_AVAILABLE \<Longrightarrow> heap c' i = heap c i"
  by (auto simp: prefetch_def Let_def dest!: gather_leaves split: option.splits if_splits prod.splits)

lemma served_prefetch: "prefetch env c = Inr c' \<Longrightarrow> served full m P (heap c) \<Longrightarrow> served full m P (heap c')"
  unfolding served_def by (metis prefetch_leaves param_status.distinct(1) param_status.distinct)

section \<open>The two hooks together\<close>

definition restorable :: "(nat \<Rightarrow> 'a list) \<Rightarrow> nat set \<Rightarrow> 'a coord \<Rightarrow> bool" where
  "restorable full P c \<longleftrightarrow> (\<forall>p \<in> P. p \<notin> fst ` set (inflight c)
     \<and> (ds_status (heap c p) = AVAILABLE \<and> pdata (heap c p) = full p
        \<or> ds_status (heap c p) = NOT_AVAILABLE \<and> has_copy full (heap c) p))"

lemma host_fetch:
  assumes ft: "c_full_transfer env" and so: "set_order_ok env" and res: "restorable full (set (c_params env m)) c"
  shows "mode c \<noteq> COMPLETE \<Longrightarrow> \<exists>c'. fetch_sub_module env m c = Inr c'"
    and "fetch_sub_module env m c = Inr c' \<Longrightarrow> served full m (set (c_params env m)) (heap c')"
proof -
  let ?ps = "c_set_order env (c_params env m)" and ?P = "set (c_params env m)"
  have ps: "set ?ps = ?P" "distinct ?ps" using so by (simp_all add: set_order_ok_def)
  have r: "p \<notin> fst ` set (inflight c)
      \<and> (ds_status (heap c p) = AVAILABLE \<and> pdata (heap c p) = full p \<or> ds_status (heap c p) = NOT_AVAILABLE \<and> has_copy full (heap c) p)"
    if "p \<in> set ?ps" for p
    using that res unfolding ps(1) restorable_def by blast
  obtain c1 where c1: "all_gather_params env ?ps c = Inr c1" "host_inv full ?P c1" "ctl c1 = ctl c"
    using host_launch [of env ?ps c full, OF ft ps(2)] r unfolding ps(1) by force
  obtain c2 where c2: "foldE (fetch_one env m) ?ps c1 = Inr c2" "host_inv full ?P c2" "ctl c2 = ctl c1"
      "\<forall>p \<in> ?P. ds_status (heap c2 p) = AVAILABLE \<and> m \<in> active_sub_modules (heap c2 p)"
    using host_fetch_loop [OF c1(2), of ?ps env m] unfolding ps(1) by auto
  have srv: "served full m ?P (heap c2)" using c2(4) host_invD(2) [OF c2(2)] by (auto simp: served_def)
  have md: "mode c2 = mode c" using c1(3) c2(3) by (simp add: ctl_def)
  show "\<exists>c'. fetch_sub_module env m c = Inr c'" if "mode c \<noteq> COMPLETE"
    using c1(1) c2(1) md that by (simp add: fetch_sub_module_def Let_def)
  show "served full m ?P (heap c')" if run: "fetch_sub_module env m c = Inr c'"
  proof (cases "mode c = COMPLETE")
    case False
    then have "heap c' = heap c2" using run c1(1) c2(1) md by (auto simp: fetch_sub_module_def Let_def)
    then show ?thesis using srv by simp
  next
    case True
    then obtain c3 c4 where "advance_queue ?ps c2 = Inr c3" "prefetch env c3 = Inr c4" "heap c' = heap c4"
      using run c1(1) c2(1) md by (auto simp: fetch_sub_module_def Let_def ebind_eq_Inr_iff)
    then show ?thesis using srv served_prefetch advance_queue_keeps by metis
  qed
qed

lemma host_pre_hook:
  assumes ft: "c_full_transfer env" and so: "set_order_ok env" and res: "restorable full (set (c_params env m)) c"
  shows "mode c \<noteq> COMPLETE \<Longrightarrow> \<exists>c'. pre_hook env m c = Inr c'"
    and "pre_hook env m c = Inr c' \<Longrightarrow> served full m (set (c_params env m)) (heap c')"
proof -
  have keep: "restorable full (set (c_params env m)) c2" if "heap c2 = heap c" "inflight c2 = inflight c" for c2
    using res that by (simp add: restorable_def)
  show "\<exists>c'. pre_hook env m c = Inr c'" if md: "mode c \<noteq> COMPLETE"
  proof (cases "mode c = RECORD")
    case True
    let ?c2 = "c\<lparr>submodule_order := submodule_order c @ [m], module_fetched_for := (module_fetched_for c)(m := module_fetched_for c m @ [step_id c])\<rparr>"
    have "restorable full (set (c_params env m)) ?c2" by (rule keep) simp_all
    then have "\<exists>c'. fetch_sub_module env m ?c2 = Inr c'" using md by (intro host_fetch(1) [OF ft so]) simp_all
    then show ?thesis using True by (simp add: pre_hook_def trace_prologue_def record_module_def)
  next
    case False
    then show ?thesis using md host_fetch(1) [OF ft so res] by (simp add: pre_hook_def trace_prologue_def)
  qed
  show "served full m (set (c_params env m)) (heap c')" if "pre_hook env m c = Inr c'"
  proof -
    obtain c1 c2 where c: "trace_prologue m c = Inr c1" "(if mode c1 = RECORD then record_module m c1 else Inr c1) = Inr c2"
        "fetch_sub_module env m c2 = Inr c'"
      using \<open>pre_hook env m c = Inr c'\<close> by (auto simp: pre_hook_def ebind_eq_Inr_iff)
    have "heap c1 = heap c \<and> inflight c1 = inflight c"
      using c(1) by (auto simp: trace_prologue_def invalidate_trace_def clear_trace_structures_def split: if_splits)
    moreover have "heap c2 = heap c1 \<and> inflight c2 = inflight c1" using c(2) by (auto simp: record_module_def split: if_splits)
    ultimately show ?thesis using host_fetch(2) [OF ft so keep c(3)] by simp
  qed
qed

lemma save_all_coords:
  "o_coords (fold (save_one env rel) ps s) = o_coords s \<and> o_bucket (fold (save_one env rel) ps s) = o_bucket s
    \<and> o_reuse (fold (save_one env rel) ps s) = o_reuse s \<and> o_avail (fold (save_one env rel) ps s) = o_avail s"
proof (induction ps arbitrary: s)
  case (Cons p ps)
  have "o_coords (save_one env rel p s) = o_coords s \<and> o_bucket (save_one env rel p s) = o_bucket s
    \<and> o_reuse (save_one env rel p s) = o_reuse s \<and> o_avail (save_one env rel p s) = o_avail s"
    by (simp add: save_one_def split: prod.splits)
  then show ?case using Cons.IH [of "save_one env rel p s"] by simp
qed simp

text \<open>After the hook of forward, every parameter of the module can be restored.\<close>

lemma after_forward:
  assumes full: "c_full_transfer env" and post: "post_sub_module_forward env m s = Inr s'"
    and p: "p \<in> set (c_params (iter_env env s) m)" and av: "ds_status (o_heap s p) = AVAILABLE"
    and len: "length (pdata (o_heap s p)) = ds_numel (o_heap s p)" "prod_list (ds_shape (o_heap s p)) = ds_numel (o_heap s p)"
  shows "ds_status (o_heap s' p) = AVAILABLE \<and> pdata (o_heap s' p) = pdata (o_heap s p)
    \<or> ds_status (o_heap s' p) = NOT_AVAILABLE \<and> has_copy (\<lambda>p. pdata (o_heap s p)) (o_heap s') p"
proof -
  let ?coord = "get_param_coordinator (training (o_mods s m))"
  obtain rel where rel: "releasable env m s = Inr rel" using post by (auto simp: post_sub_module_forward_def ebind_eq_Inr_iff)
  let ?s1 = "fold (save_one env rel) (c_params (iter_env env s) m) s"
  have sv: "only_host_changed (o_heap s) (o_heap ?s1)"
      "p \<in> rel \<Longrightarrow> \<not> is_external_param (o_heap s p) \<Longrightarrow> saved (o_heap ?s1 p)"
    using save_all_spec [of "o_heap s" s env rel "c_params (iter_env env s) m"] p by auto
  have rest: "o_coords ?s1 = o_coords s" "o_bucket ?s1 = o_bucket s" "o_reuse ?s1 = o_reuse s" "o_avail ?s1 = o_avail s"
    using save_all_coords [of env rel "c_params (iter_env env s) m" s] by simp_all
  have hp: "heap (?coord t) = o_heap t" for t :: "'a offload" by (auto simp: get_param_coordinator_def init_coord_def split: option.splits)
  have co: "?coord ?s1 = (?coord s)\<lparr>heap := o_heap ?s1\<rparr>"
    by (simp add: get_param_coordinator_def init_coord_def rest split: option.splits)
  obtain c where c: "release_sub_module (iter_env env s) m (?coord ?s1) = Inr c" "o_heap s' = heap c"
    using post rel full by (auto simp: post_sub_module_forward_def on_coord_def ebind_eq_Inr_iff Let_def)
  have "release_set (iter_env env s) m (?coord s) = Inr rel" using rel by (simp add: releasable_def release_set_def Let_def split: if_splits)
  then have "release_set (iter_env env s) m (?coord ?s1) = Inr rel"
    unfolding co using release_set_host [of "?coord s" "o_heap ?s1"] sv(1) hp by metis
  with c(1) have rk: "released_or_kept rel (o_heap ?s1) (o_heap s')" using release_kept hp c(2) by metis
  have view: "host_view (o_heap s' p) = host_view (o_heap ?s1 p)"
    using release_keeps [OF c(1)] c(2) hp by (simp add: keeps_host_def)
  have s1: "ds_status (o_heap ?s1 p) = AVAILABLE" "pdata (o_heap ?s1 p) = pdata (o_heap s p)"
      "is_external_param (o_heap ?s1 p) = is_external_param (o_heap s p)"
    using av only_host_more(2) [OF sv(1)] only_host_fields [OF sv(1)] by simp_all
  have "has_copy (\<lambda>p. pdata (o_heap s p)) (o_heap s') p" if "p \<in> rel" "\<not> is_external_param (o_heap s p)"
    using sv(2) [OF that] view len only_host_fields [OF sv(1), of p] by (auto simp: saved_def has_copy_def)
  then show ?thesis
    using spec [OF rk [unfolded released_or_kept_def], of p] s1 by auto
qed

text \<open>
  C13: the value saved after forward is the value restored before backward. With the host copies
  switched on, the hook after a module's forward releases some of its parameters; when, later
  and with these parameters as that hook left them, the hook before its backward runs, it
  returns whenever the trace is not being replayed (a replay can raise a tracing error, which is
  the subject of other theorems), and whenever it returns, every parameter of the module is
  available, marked as used by the module, and has exactly the value it had in forward, whatever
  the collectives would deliver.
\<close>

theorem host_copy_restores:
  assumes full: "c_full_transfer env" and post: "post_sub_module_forward env m s = Inr s'"
    and used: "\<And>p. p \<in> set (c_params (iter_env env s) m) \<Longrightarrow> ds_status (o_heap s p) = AVAILABLE
      \<and> length (pdata (o_heap s p)) = ds_numel (o_heap s p) \<and> prod_list (ds_shape (o_heap s p)) = ds_numel (o_heap s p)"
    and later: "\<And>p. p \<in> set (c_params (iter_env env s) m) \<Longrightarrow> o_heap t p = o_heap s' p
      \<and> p \<notin> fst ` set (inflight (get_param_coordinator (training (o_mods t m)) t))"
    and ext: "external_params (o_mods t m) = external_params (o_mods s m)"
    and order: "set_order_ok (iter_env env t)"
  shows "(mode (get_param_coordinator (training (o_mods t m)) t) \<noteq> COMPLETE \<longrightarrow> (\<exists>t'. pre_sub_module_backward env m t = Inr t'))
    \<and> (\<forall>t'. pre_sub_module_backward env m t = Inr t' \<longrightarrow>
        (\<forall>p \<in> set (c_params (iter_env env s) m). ds_status (o_heap t' p) = AVAILABLE
          \<and> pdata (o_heap t' p) = pdata (o_heap s p) \<and> m \<in> active_sub_modules (o_heap t' p)))"
proof -
  let ?c = "get_param_coordinator (training (o_mods t m)) t" and ?v = "\<lambda>p. pdata (o_heap s p)"
  have ps: "c_params (iter_env env t) m = c_params (iter_env env s) m" using ext by (simp add: iter_env_def)
  have hp: "heap ?c = o_heap t" by (auto simp: get_param_coordinator_def init_coord_def split: option.splits)
  have res: "restorable ?v (set (c_params (iter_env env t) m)) ?c"
    unfolding restorable_def ps hp
  proof
    fix p assume p: "p \<in> set (c_params (iter_env env s) m)"
    have "has_copy ?v (o_heap t) p = has_copy ?v (o_heap s') p" using later [OF p] by (intro has_copy_cong) simp
    then show "p \<notin> fst ` set (inflight ?c) \<and> (ds_status (o_heap t p) = AVAILABLE \<and> pdata (o_heap t p) = ?v p
        \<or> ds_status (o_heap t p) = NOT_AVAILABLE \<and> has_copy ?v (o_heap t) p)"
      using after_forward [OF full post p] used [OF p] later [OF p] by simp
  qed
  have ft: "c_full_transfer (iter_env env t)" using full by (simp add: iter_env_def)
  note hook = host_pre_hook [OF ft order res]
  show ?thesis
  proof (intro conjI impI allI)
    assume "mode ?c \<noteq> COMPLETE"
    then show "\<exists>t'. pre_sub_module_backward env m t = Inr t'"
      using hook(1) by (auto simp: pre_sub_module_backward_def on_coord_def)
  next
    fix t' assume "pre_sub_module_backward env m t = Inr t'"
    then obtain c' where "pre_hook (iter_env env t) m ?c = Inr c'" "o_heap t' = heap c'"
      by (auto simp: pre_sub_module_backward_def on_coord_def ebind_eq_Inr_iff)
    then show "\<forall>p \<in> set (c_params (iter_env env s) m). ds_status (o_heap t' p) = AVAILABLE
          \<and> pdata (o_heap t' p) = pdata (o_heap s p) \<and> m \<in> active_sub_modules (o_heap t' p)"
      using hook(2) by (simp add: served_def ps)
  qed
qed

definition demo_saving :: "nat cenv" where
  "demo_saving = demo_cenv\<lparr>c_full_transfer := True\<rparr>"

definition demo_running :: "nat offload" where
  "demo_running = demo_offload\<lparr>o_heap := mini_heap(2 := (mini_heap 2)\<lparr>ds_status := AVAILABLE, pdata := [3, 13], active_sub_modules := {1}\<rparr>)\<rparr>"

theorem host_copy_restores_witness:
  "\<exists>s' t'. post_sub_module_forward demo_saving 1 demo_running = Inr s' \<and> ds_status (o_heap s' 2) = NOT_AVAILABLE
    \<and> pre_sub_module_backward demo_saving 1 s' = Inr t' \<and> ds_status (o_heap t' 2) = AVAILABLE
    \<and> pdata (o_heap t' 2) = [3, 13] \<and> 1 \<in> active_sub_modules (o_heap t' 2)"
proof -
  note defs = demo_running_def demo_offload_def demo_mods_def demo_cenv_def mini_heap_def convert_to_deepspeed_param_def demo_saving_def
  have rel: "releasable demo_saving 1 demo_running = Inr {2}"
    by (simp add: releasable_def Let_def get_param_coordinator_def init_coord_def iter_env_def defs)
  have "\<exists>s'. post_sub_module_forward demo_saving 1 demo_running = Inr s' \<and> ds_status (o_heap s' 2) = NOT_AVAILABLE
      \<and> o_mods s' = demo_mods \<and> inflight (get_param_coordinator True s') = [] \<and> mode (get_param_coordinator True s') = RECORD"
    unfolding post_sub_module_forward_def rel
    by (simp add: Let_def on_coord_def get_param_coordinator_def init_coord_def iter_env_def defs save_one_def save_to_host_def
        ensure_pinned_cpu_full_param_def needs_new_def data_shape_def release_sub_module_def release_one_def release_param_def
        partition_list_def partition_one_def partition_param_def free_param_def)
  then obtain s' where s': "post_sub_module_forward demo_saving 1 demo_running = Inr s'" "ds_status (o_heap s' 2) = NOT_AVAILABLE"
      "o_mods s' = demo_mods" "inflight (get_param_coordinator True s') = []" "mode (get_param_coordinator True s') = RECORD" by blast
  have tr: "training (demo_mods 1)" "o_mods demo_running = demo_mods" by (simp_all add: demo_mods_def demo_running_def demo_offload_def)
  have ps: "c_params (iter_env demo_saving demo_running) 1 = [2]" by (simp add: iter_env_def defs)
  have order: "set_order_ok (iter_env demo_saving s')" by (simp add: set_order_ok_def iter_env_def demo_saving_def demo_cenv_def)
  have "(mode (get_param_coordinator (training (o_mods s' 1)) s') \<noteq> COMPLETE \<longrightarrow> (\<exists>t'. pre_sub_module_backward demo_saving 1 s' = Inr t'))
    \<and> (\<forall>t'. pre_sub_module_backward demo_saving 1 s' = Inr t' \<longrightarrow>
        (\<forall>p \<in> set (c_params (iter_env demo_saving demo_running) 1). ds_status (o_heap t' p) = AVAILABLE
          \<and> pdata (o_heap t' p) = pdata (o_heap demo_running p) \<and> 1 \<in> active_sub_modules (o_heap t' p)))"
  proof (rule host_copy_restores [OF _ s'(1) _ _ _ order])
    show "c_full_transfer demo_saving" by (simp add: demo_saving_def)
    show "external_params (o_mods s' 1) = external_params (o_mods demo_running 1)" using s'(3) tr by simp
    fix p assume "p \<in> set (c_params (iter_env demo_saving demo_running) 1)"
    then have p: "p = 2" unfolding ps by simp
    show "ds_status (o_heap demo_running p) = AVAILABLE \<and> length (pdata (o_heap demo_running p)) = ds_numel (o_heap demo_running p)
        \<and> prod_list (ds_shape (o_heap demo_running p)) = ds_numel (o_heap demo_running p)"
      by (simp add: p defs mini_full_def)
    show "o_heap s' p = o_heap s' p \<and> p \<notin> fst ` set (inflight (get_param_coordinator (training (o_mods s' 1)) s'))"
      using s'(3,4) tr by simp
  qed
  then obtain t' where "pre_sub_module_backward demo_saving 1 s' = Inr t'" "ds_status (o_heap t' 2) = AVAILABLE"
      "pdata (o_heap t' 2) = pdata (o_heap demo_running 2)" "1 \<in> active_sub_modules (o_heap t' 2)"
    using s'(3,5) tr ps by auto
  moreover have "pdata (o_heap demo_running 2) = [3, 13]" by (simp add: demo_running_def)
  ultimately show ?thesis using s'(1,2) by metis
qed

end
