(* ===== verification/ReduceScatter.thy ===== *)
theory ReduceScatter
  imports ComchWork Params
begin

text \<open>
  The reduce-scatter of gradients: \<^verbatim>\<open>src/smartnic_offload/zero_optimizer.py\<close>, its handle class
  and the function \<^verbatim>\<open>reduce_scatter_coalesced\<close> with the result object it returns.

  \<open>dv\<close> is division by the world size, \<open>red\<close> what the collective makes of the values of all ranks
  at one position; nothing is assumed of either. \<open>u\<close> is what uninitialised memory holds.
\<close>

section \<open>The handle class of the optimizer\<close>

record rs_work =
  r_handle :: int
  r_released :: bool
  r_completed :: bool

definition rs_work_init :: "int \<Rightarrow> rs_work" where
  "rs_work_init handle = \<lparr>r_handle = handle, r_released = False, r_completed = False\<rparr>"

definition rs_release_once ::
  "comch_env \<Rightarrow> 'a comch_world \<times> rs_work \<Rightarrow> ('a comch_world \<times> rs_work) \<times> unit result" where
  "rs_release_once env s =
     (case s of (w, k) \<Rightarrow>
        if \<not> r_released k
        then (case bind_call env (ReqRelease (r_handle k)) w of
                (w1, Inl e) \<Rightarrow> ((w1, k), Inl e)
              | (w1, Inr n) \<Rightarrow> ((w1, k\<lparr>r_released := True\<rparr>), Inr ()))
        else (s, Inr ()))"

definition rs_work_wait ::
  "comch_env \<Rightarrow> 'a comch_world \<times> rs_work \<Rightarrow> ('a comch_world \<times> rs_work) \<times> unit result" where
  "rs_work_wait env s =
     (case s of (w, k) \<Rightarrow>
        if \<not> r_completed k
        then (case bind_call env (ReqWait (r_handle k)) w of
                (w1, Inl e) \<Rightarrow> ((w1, k), Inl e)
              | (w1, Inr n) \<Rightarrow> rs_release_once env (w1, k\<lparr>r_completed := True\<rparr>))
        else rs_release_once env s)"

definition rs_work_is_completed ::
  "comch_env \<Rightarrow> 'a comch_world \<times> rs_work \<Rightarrow> ('a comch_world \<times> rs_work) \<times> bool result" where
  "rs_work_is_completed env s =
     (case s of (w, k) \<Rightarrow>
        if r_completed k then (s, Inr True)
        else case bind_call env (ReqTest (r_handle k)) w of
               (w1, Inl e) \<Rightarrow> ((w1, k), Inl e)
             | (w1, Inr n) \<Rightarrow>
                 if test_result env n then ((w1, k\<lparr>r_completed := True\<rparr>), Inr True) else ((w1, k), Inr False))"

definition rs_work_del :: "comch_env \<Rightarrow> 'a comch_world \<times> rs_work \<Rightarrow> 'a comch_world \<times> rs_work" where
  "rs_work_del env s =
     (case s of (w, k) \<Rightarrow>
        if \<not> r_released k
        then (fst (bind_call env (ReqRelease (r_handle k)) w), k\<lparr>r_released := True\<rparr>)
        else s)"

definition rs_step :: "comch_env \<Rightarrow> 'a comch_world \<times> rs_work \<Rightarrow> work_event \<Rightarrow> 'a comch_world \<times> rs_work" where
  "rs_step env s e = (case e of WaitEv \<Rightarrow> fst (rs_work_wait env s) | TestEv \<Rightarrow> fst (rs_work_is_completed env s))"

text \<open>The flat version, launched without waiting, and the list version.\<close>

definition rs_flat_launch ::
  "comch_env \<Rightarrow> 'a list \<Rightarrow> int \<Rightarrow> 'a comch_world \<Rightarrow> 'a comch_world \<times> rs_work result" where
  "rs_flat_launch env inp cid w =
     (case enqueue env (Enqueue REDUCE_SCATTER cid inp) w of
        (w1, Inl e) \<Rightarrow> (w1, Inl e)
      | (w1, Inr h) \<Rightarrow> (w1, Inr (rs_work_init h)))"

definition rs_list_sync ::
  "nat \<Rightarrow> comch_env \<Rightarrow> 'a backend \<Rightarrow> 'a list \<Rightarrow> 'a list list \<Rightarrow> int \<Rightarrow> 'a comch_world
     \<Rightarrow> 'a comch_world \<times> 'a list result" where
  "rs_list_sync W env recv out ins cid w =
     (if length ins \<noteq> W then (w, Inl (ValueError ''len(input_tensors) must equal world_size''))
      else case cat ins of
        Inl e \<Rightarrow> (w, Inl e)
      | Inr flat \<Rightarrow>
          (case rs_flat_launch env flat cid w of
             (w1, Inl e) \<Rightarrow> (w1, Inl e)
           | (w1, Inr k) \<Rightarrow>
               (case rs_work_wait env (w1, k) of
                  (s, Inl e) \<Rightarrow> (fst (rs_work_del env s), Inl e)
                | (s, Inr _) \<Rightarrow>
                    (fst (rs_work_del env s),
                     ebind (view_as_shape [length out] (recv REDUCE_SCATTER cid flat)) (copy_to out)))))"

section \<open>One flat input for many tensors\<close>

definition chunk_sz :: "nat \<Rightarrow> 'a list \<Rightarrow> nat" where
  "chunk_sz W t = ceil_div (length t) W"

definition partition_lst :: "nat \<Rightarrow> 'a list \<Rightarrow> 'a list list" where
  "partition_lst W t = map (\<lambda>r. block (chunk_sz W t) r t) [0..<W]"

definition padded_chunk :: "nat \<Rightarrow> (nat \<Rightarrow> 'a) \<Rightarrow> 'a list \<Rightarrow> nat \<Rightarrow> 'a list list" where
  "padded_chunk W u t r =
     (let tensor_chunk = partition_lst W t ! r;
          padding_sz = int (chunk_sz W t) - int (length tensor_chunk)
      in tensor_chunk # (if padding_sz > 0 then [fresh u (nat padding_sz)] else []))"

definition interleave :: "nat \<Rightarrow> (nat \<Rightarrow> nat \<Rightarrow> nat \<Rightarrow> 'a) \<Rightarrow> 'a list list \<Rightarrow> 'a list list" where
  "interleave W u ts =
     concat (map (\<lambda>r. concat (map (\<lambda>i. padded_chunk W (u r i) (ts ! i) r) [0..<length ts])) [0..<W])"

text \<open>With one tensor that needs no padding the flat input is that tensor itself.\<close>

definition aliases_input :: "nat \<Rightarrow> 'a list list \<Rightarrow> bool" where
  "aliases_input W ts \<longleftrightarrow> length ts = 1 \<and> length (hd ts) mod W = 0"

definition flat_input :: "nat \<Rightarrow> (nat \<Rightarrow> nat \<Rightarrow> nat \<Rightarrow> 'a) \<Rightarrow> 'a list list \<Rightarrow> 'a list result" where
  "flat_input W u ts = (if aliases_input W ts then Inr (hd ts) else cat (interleave W u ts))"

section \<open>Output and result object\<close>

text \<open>
  The caller may pass an output buffer, of which the size and the device count. The answer is
  whether the output is written there.
\<close>

definition use_output_buffer :: "bool \<Rightarrow> (nat \<times> bool) option \<Rightarrow> nat \<Rightarrow> bool result" where
  "use_output_buffer rs_use_nccl output_buffer chunk_numel =
     (case output_buffer of
        None \<Rightarrow> Inr False
      | Some (n, is_cuda) \<Rightarrow>
          if rs_use_nccl then Inr (is_cuda \<and> n \<ge> chunk_numel)
          else if n \<ge> chunk_numel then Inr True else Inl AssertionError)"

fun output_views :: "nat \<Rightarrow> nat \<Rightarrow> (nat \<times> nat) list \<Rightarrow> (nat \<times> nat) list result" where
  "output_views avail offset [] = Inr []"
| "output_views avail offset ((local_numel, padded) # xs) =
     (if offset + local_numel \<le> avail
      then ebind (output_views avail (offset + padded) xs) (\<lambda>vs. Inr ((offset, local_numel) # vs))
      else Inl (RuntimeError ''narrow''))"

record 'a deferred =
  d_handle :: "rs_work option"
  d_cid :: int
  d_input :: "'a list"
  d_alias :: bool
  d_in_buffer :: bool
  d_views :: "(nat \<times> nat) list"
  d_waited :: bool

definition reduce_scatter_coalesced ::
  "nat \<Rightarrow> nat \<Rightarrow> (nat \<Rightarrow> 'a \<Rightarrow> 'a) \<Rightarrow> (nat \<Rightarrow> nat \<Rightarrow> nat \<Rightarrow> 'a) \<Rightarrow> comch_env \<Rightarrow> bool
     \<Rightarrow> 'a list list \<Rightarrow> int \<Rightarrow> (nat \<times> bool) option \<Rightarrow> 'a comch_world \<Rightarrow> 'a comch_world \<times> 'a deferred result" where
  "reduce_scatter_coalesced W this_rank dv u env rs_use_nccl tensors cid output_buffer w =
     (case flat_input W u tensors of
        Inl e \<Rightarrow> (w, Inl e)
      | Inr flat \<Rightarrow>
          let flat = map (dv W) flat;
              chunk_numel = length flat div W
          in case use_output_buffer rs_use_nccl output_buffer chunk_numel of
               Inl e \<Rightarrow> (w, Inl e)
             | Inr in_buffer \<Rightarrow>
                 (case (if rs_use_nccl then (w, Inr None)
                        else case rs_flat_launch env flat cid w of
                               (w1, Inl e) \<Rightarrow> (w1, Inl e) | (w1, Inr k) \<Rightarrow> (w1, Inr (Some k))) of
                    (w1, Inl e) \<Rightarrow> (w1, Inl e)
                  | (w1, Inr rs_handle) \<Rightarrow>
                      (w1,
                       ebind (output_views chunk_numel 0
                                (map (\<lambda>t. (length (partition_lst W t ! this_rank), chunk_sz W t)) tensors)) (\<lambda>views.
                       Inr \<lparr>d_handle = rs_handle, d_cid = cid, d_input = flat,
                            d_alias = aliases_input W tensors, d_in_buffer = in_buffer,
                            d_views = views, d_waited = False\<rparr>))))"

text \<open>\<^verbatim>\<open>_DeferredRsResult.wait\<close>.\<close>

definition deferred_wait ::
  "comch_env \<Rightarrow> 'a comch_world \<times> 'a deferred \<Rightarrow> ('a comch_world \<times> 'a deferred) \<times> (nat \<times> nat) list result" where
  "deferred_wait env s =
     (case s of (w, d) \<Rightarrow>
        if d_waited d then (s, Inr (d_views d))
        else case d_handle d of
               None \<Rightarrow> ((w, d\<lparr>d_waited := True\<rparr>), Inr (d_views d))
             | Some k \<Rightarrow>
                 (case rs_work_wait env (w, k) of
                    ((w1, k1), Inl e) \<Rightarrow> ((w1, d\<lparr>d_handle := Some k1\<rparr>), Inl e)
                  | ((w1, k1), Inr _) \<Rightarrow>
                      ((w1, d\<lparr>d_handle := Some k1, d_waited := True\<rparr>), Inr (d_views d))))"

section \<open>The collective\<close>

text \<open>
  A reduce-scatter: rank \<open>r\<close> receives block \<open>r\<close> of the elementwise reduction of all ranks' inputs.
  \<open>mean_grad\<close> is what the gradients of one parameter are to become.
\<close>

definition scatter_block :: "('a list \<Rightarrow> 'a) \<Rightarrow> nat \<Rightarrow> nat \<Rightarrow> 'a list list \<Rightarrow> 'a list" where
  "scatter_block red k r xs = map (\<lambda>j. red (map (\<lambda>x. x ! (r * k + j)) xs)) [0..<k]"

definition mean_grad :: "('a list \<Rightarrow> 'a) \<Rightarrow> (nat \<Rightarrow> 'a \<Rightarrow> 'a) \<Rightarrow> 'a list list \<Rightarrow> 'a list" where
  "mean_grad red dv gs = map (\<lambda>j. red (map (\<lambda>g. dv (length gs) (g ! j)) gs)) [0..<length (hd gs)]"

section \<open>The handle class is the one without flags\<close>

text \<open>
  The class is a copy of the one of \<^verbatim>\<open>partition_parameters.py\<close> from before the flag pool: seen as
  a handle without a flag it makes the same calls and ends in the same state.
\<close>

definition as_work :: "rs_work \<Rightarrow> comch_work" where
  "as_work k = \<lparr>w_handle = r_handle k, w_released = r_released k, w_completed = r_completed k,
                gpu_flag_addr = 0, gpu_flag_value = 0, gpu_flag_scheduled = False\<rparr>"

definition as_state :: "'a comch_world \<times> rs_work \<Rightarrow> 'a comch_world \<times> comch_work" where
  "as_state s = (fst s, as_work (snd s))"

lemma as_work_simps [simp]:
  "w_handle (as_work k) = r_handle k" "w_released (as_work k) = r_released k"
  "w_completed (as_work k) = r_completed k" "\<not> use_gpu_flag (as_work k)"
  "as_work (rs_work_init h) = work_init h 0 0"
  "(as_work k)\<lparr>w_released := b\<rparr> = as_work (k\<lparr>r_released := b\<rparr>)"
  "(as_work k)\<lparr>w_completed := b\<rparr> = as_work (k\<lparr>r_completed := b\<rparr>)"
  by (simp_all add: as_work_def use_gpu_flag_def rs_work_init_def work_init_def)

lemma rs_release_once_as:
  "release_once env (as_state s) = (case rs_release_once env s of (t, r) \<Rightarrow> (as_state t, r))"
  by (cases s) (simp add: release_once_def rs_release_once_def as_state_def split: prod.splits sum.splits)

lemma rs_work_wait_as:
  "work_wait env (as_state s) = (case rs_work_wait env s of (t, r) \<Rightarrow> (as_state t, r))"
proof (cases s)
  case (Pair w k)
  have rel: "release_once env (w1, as_work k1) = (case rs_release_once env (w1, k1) of (t, r) \<Rightarrow> (as_state t, r))" for w1 k1
    using rs_release_once_as [of env "(w1, k1)"] by (simp add: as_state_def)
  show ?thesis
    by (simp add: Pair work_wait_def rs_work_wait_def rel as_state_def split: prod.splits sum.splits)
qed

lemma rs_work_is_completed_as:
  "work_is_completed env (as_state s) = (case rs_work_is_completed env s of (t, r) \<Rightarrow> (as_state t, r))"
  by (cases s) (simp add: work_is_completed_def rs_work_is_completed_def as_state_def split: prod.splits sum.splits)

lemma rs_work_del_as: "work_del env (as_state s) = as_state (rs_work_del env s)"
  by (cases s) (simp add: work_del_def rs_work_del_def as_state_def)

lemma rs_step_as: "work_step env (as_state s) e = as_state (rs_step env s e)"
  by (cases e) (simp_all add: work_step_def rs_step_def rs_work_wait_as rs_work_is_completed_as
      split: prod.splits)

lemma rs_run_as: "run (work_step env) (as_state s) es = as_state (run (rs_step env) s es)"
  by (induction es arbitrary: s) (simp_all add: rs_step_as)

section \<open>The flat input, row by row\<close>

definition padded_block :: "nat \<Rightarrow> (nat \<Rightarrow> 'a) \<Rightarrow> 'a list \<Rightarrow> nat \<Rightarrow> 'a list" where
  "padded_block W u t r = concat (padded_chunk W u t r)"

definition rank_row :: "nat \<Rightarrow> (nat \<Rightarrow> nat \<Rightarrow> nat \<Rightarrow> 'a) \<Rightarrow> 'a list list \<Rightarrow> nat \<Rightarrow> 'a list" where
  "rank_row W u ts r = concat (map (\<lambda>i. padded_block W (u r i) (ts ! i) r) [0..<length ts])"

lemma padded_block_eq:
  assumes "r < W"
  shows "padded_block W u t r = block (chunk_sz W t) r t @ fresh u (chunk_sz W t - length (block (chunk_sz W t) r t))"
  using assms by (auto simp: padded_block_def padded_chunk_def partition_lst_def Let_def fresh_def of_nat_diff
      nat_diff_distrib)

lemma length_padded_block: "r < W \<Longrightarrow> length (padded_block W u t r) = chunk_sz W t"
  by (simp add: padded_block_eq length_block)

lemma nth_padded_block:
  "r < W \<Longrightarrow> j < min (chunk_sz W t) (length t - r * chunk_sz W t)
    \<Longrightarrow> padded_block W u t r ! j = t ! (r * chunk_sz W t + j)"
  by (auto simp: padded_block_eq nth_append length_block) (auto simp: block_def)

lemma interleave_rows: "concat (interleave W u ts) = concat (map (rank_row W u ts) [0..<W])"
  by (simp add: interleave_def rank_row_def [abs_def] concat_concat_map padded_block_def)

lemma length_rank_row:
  assumes "r < W"
  shows "length (rank_row W u ts r) = (\<Sum>t \<leftarrow> ts. chunk_sz W t)"
proof -
  have "length (rank_row W u ts r) = (\<Sum>i \<leftarrow> [0..<length ts]. chunk_sz W (ts ! i))"
    using assms by (simp add: rank_row_def length_concat length_padded_block o_def)
  also have "\<dots> = (\<Sum>t \<leftarrow> map ((!) ts) [0..<length ts]. chunk_sz W t)" by (simp add: o_def)
  finally show ?thesis unfolding map_nth .
qed

text \<open>Where tensor \<open>i\<close> starts in a row.\<close>

definition row_offset :: "nat \<Rightarrow> 'a list list \<Rightarrow> nat \<Rightarrow> nat" where
  "row_offset W ts i = (\<Sum>t \<leftarrow> take i ts. chunk_sz W t)"

lemma nth_rank_row:
  assumes "r < W" and "i < length ts" and "j < chunk_sz W (ts ! i)"
  shows "rank_row W u ts r ! (row_offset W ts i + j) = padded_block W (u r i) (ts ! i) r ! j"
proof -
  let ?b = "\<lambda>i. padded_block W (u r i) (ts ! i) r"
  have split: "[0..<length ts] = [0..<i] @ i # [Suc i..<length ts]"
    using assms(2) upt_add_eq_append [of 0 i "length ts - i"] by (simp add: upt_conv_Cons)
  have "length (concat (map ?b [0..<i])) = (\<Sum>k \<leftarrow> [0..<i]. chunk_sz W (ts ! k))"
    using assms(1) by (simp add: length_concat length_padded_block o_def)
  also have "\<dots> = (\<Sum>t \<leftarrow> map ((!) ts) [0..<i]. chunk_sz W t)" by (simp add: o_def)
  also have "map ((!) ts) [0..<i] = take i ts" using assms(2) by (intro nth_equalityI) auto
  finally have len: "length (concat (map ?b [0..<i])) = row_offset W ts i" by (simp add: row_offset_def)
  have "rank_row W u ts r = concat (map ?b [0..<i]) @ ?b i @ concat (map ?b [Suc i..<length ts])"
    by (simp add: rank_row_def split)
  then show ?thesis using assms len by (simp add: nth_append length_padded_block)
qed

text \<open>The shortcut for one tensor gives the same flat input as the general construction.\<close>

lemma chunk_mult: "0 < W \<Longrightarrow> length t mod W = 0 \<Longrightarrow> W * chunk_sz W t = length t"
  by (simp add: chunk_sz_def ceil_div_dvd mod_eq_0_iff_dvd)

lemma flat_input_rows:
  assumes "0 < W" and "ts \<noteq> []"
  shows "flat_input W u ts = Inr (concat (map (rank_row W u ts) [0..<W]))"
proof (cases "aliases_input W ts")
  case True
  then obtain t where t: "ts = [t]" "length t mod W = 0"
    by (cases ts) (auto simp: aliases_input_def)
  have len: "W * chunk_sz W t = length t" using chunk_mult [OF assms(1) t(2)] .
  have "rank_row W u ts r = block (chunk_sz W t) r t" if "r < W" for r
  proof -
    have "(r + 1) * chunk_sz W t \<le> W * chunk_sz W t" using that by (intro mult_right_mono) auto
    then have "chunk_sz W t \<le> length t - r * chunk_sz W t" using len by (simp add: algebra_simps)
    then have "length (block (chunk_sz W t) r t) = chunk_sz W t" by (simp add: length_block)
    then show ?thesis using that by (simp add: rank_row_def t(1) padded_block_eq fresh_def)
  qed
  then have "map (rank_row W u ts) [0..<W] = map (\<lambda>r. block (chunk_sz W t) r t) [0..<W]" by simp
  then have "concat (map (rank_row W u ts) [0..<W]) = concat (map (\<lambda>r. block (chunk_sz W t) r t) [0..<W])"
    by (rule arg_cong)
  also have "\<dots> = t" by (rule concat_blocks) (simp add: len)
  finally have eq: "concat (map (rank_row W u ts) [0..<W]) = t" .
  have "hd ts = t" by (simp add: t(1))
  then show ?thesis unfolding flat_input_def if_P [OF True] eq by (rule arg_cong)
next
  case False
  have "interleave W u ts \<noteq> []"
    using assms by (auto simp: interleave_def padded_chunk_def Let_def neq_Nil_conv)
  then have "cat (interleave W u ts) = Inr (concat (interleave W u ts))" by (simp add: cat_def)
  then show ?thesis using False by (simp add: flat_input_def interleave_rows)
qed

lemma length_flat:
  "length (concat (map (rank_row W u ts) [0..<W])) = W * (\<Sum>t \<leftarrow> ts. chunk_sz W t)"
  using length_concat_uniform [of "map (rank_row W u ts) [0..<W]" "\<Sum>t \<leftarrow> ts. chunk_sz W t"]
  by (simp add: length_rank_row image_iff) (metis atLeastLessThan_iff length_rank_row)

lemma nth_flat:
  assumes "r < W" and "i < length ts" and "j < chunk_sz W (ts ! i)"
  shows "concat (map (rank_row W u ts) [0..<W]) ! (r * (\<Sum>t \<leftarrow> ts. chunk_sz W t) + (row_offset W ts i + j))
     = padded_block W (u r i) (ts ! i) r ! j"
proof -
  let ?C = "\<Sum>t \<leftarrow> ts. chunk_sz W t" and ?rows = "map (rank_row W u ts) [0..<W]"
  have "ts = take i ts @ ts ! i # drop (Suc i) ts" using assms(2) by (rule id_take_nth_drop)
  then have "?C = row_offset W ts i + chunk_sz W (ts ! i) + (\<Sum>t \<leftarrow> drop (Suc i) ts. chunk_sz W t)"
    by (metis (no_types) row_offset_def map_append sum_list_append list.simps(9) sum_list.Cons add.assoc)
  then have lt: "row_offset W ts i + j < ?C" using assms(3) by linarith
  have "block ?C r (concat ?rows) = ?rows ! r"
    by (rule block_concat_uniform) (use assms(1) length_rank_row in auto)
  then have "take ?C (drop (r * ?C) (concat ?rows)) = rank_row W u ts r" using assms(1) by (simp add: block_def)
  moreover have "r * ?C + ?C \<le> length (concat ?rows)"
  proof -
    have "(r + 1) * ?C \<le> W * ?C" using assms(1) by (intro mult_right_mono) auto
    then show ?thesis by (simp only: length_flat) (simp add: algebra_simps)
  qed
  ultimately have "concat ?rows ! (r * ?C + (row_offset W ts i + j)) = rank_row W u ts r ! (row_offset W ts i + j)"
    using lt by (metis nth_drop nth_take add_leD1)
  then show ?thesis using nth_rank_row [OF assms] by simp
qed

section \<open>What a launch leaves behind\<close>

lemma output_views_eq:
  assumes "\<And>l c. (l, c) \<in> set xs \<Longrightarrow> l \<le> c" and "offset + (\<Sum>x \<leftarrow> xs. snd x) \<le> avail"
  shows "output_views avail offset xs
    = Inr (map (\<lambda>i. (offset + (\<Sum>x \<leftarrow> take i xs. snd x), fst (xs ! i))) [0..<length xs])"
  using assms
proof (induction xs arbitrary: offset)
  case (Cons x xs)
  obtain l c where x: "x = (l, c)" by (cases x)
  have "output_views avail (offset + c) xs
      = Inr (map (\<lambda>i. (offset + c + (\<Sum>x \<leftarrow> take i xs. snd x), fst (xs ! i))) [0..<length xs])"
    using Cons.prems by (intro Cons.IH) (auto simp: x)
  moreover have "l \<le> c" using Cons.prems(1) by (auto simp: x)
  ultimately show ?case using Cons.prems(2)
    by (simp add: x upt_conv_Cons map_Suc_upt [symmetric] o_def add.assoc del: upt_Suc)
qed simp

definition views_of :: "nat \<Rightarrow> nat \<Rightarrow> 'a list list \<Rightarrow> (nat \<times> nat) list" where
  "views_of W r ts =
     map (\<lambda>i. (row_offset W ts i, min (chunk_sz W (ts ! i)) (length (ts ! i) - r * chunk_sz W (ts ! i)))) [0..<length ts]"

lemma output_views_launch:
  assumes "r < W" and "avail = (\<Sum>t \<leftarrow> ts. chunk_sz W t)"
  shows "output_views avail 0 (map (\<lambda>t. (length (partition_lst W t ! r), chunk_sz W t)) ts) = Inr (views_of W r ts)"
proof -
  let ?xs = "map (\<lambda>t. (length (partition_lst W t ! r), chunk_sz W t)) ts"
  have sum: "(\<Sum>x \<leftarrow> ?xs. snd x) = (\<Sum>t \<leftarrow> ts. chunk_sz W t)" by (simp add: o_def)
  have "(\<Sum>x \<leftarrow> take i ?xs. snd x) = row_offset W ts i" for i
    by (simp add: take_map row_offset_def o_def)
  moreover have "length (partition_lst W t ! r) = min (chunk_sz W t) (length t - r * chunk_sz W t)" for t
    using assms(1) by (simp add: partition_lst_def length_block)
  ultimately have "map (\<lambda>i. (0 + (\<Sum>x \<leftarrow> take i ?xs. snd x), fst (?xs ! i))) [0..<length ?xs] = views_of W r ts"
    unfolding views_of_def by (intro map_cong) auto
  moreover have "output_views avail 0 ?xs
      = Inr (map (\<lambda>i. (0 + (\<Sum>x \<leftarrow> take i ?xs. snd x), fst (?xs ! i))) [0..<length ?xs])"
    by (rule output_views_eq) (use assms sum in \<open>auto simp: partition_lst_def length_block\<close>)
  ultimately show ?thesis by simp
qed

lemma launch_fields:
  assumes "0 < W" and "r < W" and "ts \<noteq> []"
    and "snd (reduce_scatter_coalesced W r dv u env nccl ts cid ob w) = Inr d"
  shows "d_input d = map (dv W) (concat (map (rank_row W u ts) [0..<W]))"
    and "d_views d = views_of W r ts" and "d_alias d = aliases_input W ts" and "d_cid d = cid"
    and "\<not> d_waited d" and "use_output_buffer nccl ob (\<Sum>t \<leftarrow> ts. chunk_sz W t) = Inr (d_in_buffer d)"
    and "(d_handle d = None) = nccl"
proof -
  let ?C = "\<Sum>t \<leftarrow> ts. chunk_sz W t"
  have flat: "flat_input W u ts = Inr (concat (map (rank_row W u ts) [0..<W]))"
    by (rule flat_input_rows [OF assms(1,3)])
  have len: "length (map (dv W) (concat (map (rank_row W u ts) [0..<W]))) div W = ?C"
    using assms(1) by (simp add: length_flat del: length_concat)
  have views: "output_views ?C 0 (map (\<lambda>t. (length (partition_lst W t ! r), chunk_sz W t)) ts) = Inr (views_of W r ts)"
    by (rule output_views_launch [OF assms(2) refl])
  obtain b where b: "use_output_buffer nccl ob ?C = Inr b"
    using assms(4) by (simp add: reduce_scatter_coalesced_def flat Let_def len del: map_concat length_map split: sum.splits)
  define x where "x = map (dv W) (concat (map (rank_row W u ts) [0..<W]))"
  have lenx: "length x div W = ?C" unfolding x_def by (rule len)
  have "d = \<lparr>d_handle = d_handle d, d_cid = cid, d_input = x, d_alias = aliases_input W ts, d_in_buffer = b,
         d_views = views_of W r ts, d_waited = False\<rparr> \<and> (d_handle d = None) = nccl"
    using assms(4)
    by (auto simp: reduce_scatter_coalesced_def flat Let_def x_def [symmetric] lenx b views
        split: sum.splits prod.splits if_splits)
  then have eq: "d = \<lparr>d_handle = d_handle d, d_cid = cid, d_input = x, d_alias = aliases_input W ts, d_in_buffer = b,
         d_views = views_of W r ts, d_waited = False\<rparr>" and h: "(d_handle d = None) = nccl" by blast+
  show "d_input d = map (dv W) (concat (map (rank_row W u ts) [0..<W]))" "d_views d = views_of W r ts"
      "d_alias d = aliases_input W ts" "d_cid d = cid" "\<not> d_waited d"
      "use_output_buffer nccl ob ?C = Inr (d_in_buffer d)"
    unfolding x_def [symmetric] b by (subst eq, simp)+
  show "(d_handle d = None) = nccl" by (rule h)
qed

text \<open>Reading the output through the views.\<close>

definition read_views :: "(nat \<times> nat) list \<Rightarrow> 'a list \<Rightarrow> 'a list list" where
  "read_views vs out = map (\<lambda>(start, len). take len (drop start out)) vs"

lemma take_drop_nths:
  "start + len \<le> length t \<Longrightarrow> take len (drop start t) = map (\<lambda>j. t ! (start + j)) [0..<len]"
  by (intro nth_equalityI) auto

lemma block_nths: "block k r t = map (\<lambda>j. t ! (r * k + j)) [0..<min k (length t - r * k)]"
  by (intro nth_equalityI) (auto simp: length_block, auto simp: block_def)

lemma row_fits:
  assumes "i < length ts"
  shows "row_offset W ts i + chunk_sz W (ts ! i) \<le> (\<Sum>t \<leftarrow> ts. chunk_sz W t)"
proof -
  have "ts = take i ts @ ts ! i # drop (Suc i) ts" using assms by (rule id_take_nth_drop)
  then have "(\<Sum>t \<leftarrow> ts. chunk_sz W t)
      = row_offset W ts i + (chunk_sz W (ts ! i) + (\<Sum>t \<leftarrow> drop (Suc i) ts. chunk_sz W t))"
    by (metis (no_types) row_offset_def map_append sum_list_append list.simps(9) sum_list.Cons)
  then show ?thesis by linarith
qed

lemma same_lengths:
  fixes ts ts' :: "'a list list"
  assumes "map length ts = map length ts'"
  shows "length ts = length ts'" "i < length ts \<Longrightarrow> length (ts ! i) = length (ts' ! i)"
    "(\<Sum>t \<leftarrow> ts. chunk_sz W t) = (\<Sum>t \<leftarrow> ts'. chunk_sz W t)" "row_offset W ts i = row_offset W ts' i"
proof -
  show l: "length ts = length ts'" using assms by (metis length_map)
  show "length (ts ! i) = length (ts' ! i)" if "i < length ts" using assms l that by (metis nth_map)
  have chunk: "map (chunk_sz W) ts = map (\<lambda>n. ceil_div n W) (map length ts)" for ts :: "'a list list"
    by (simp add: chunk_sz_def o_def)
  show "(\<Sum>t \<leftarrow> ts. chunk_sz W t) = (\<Sum>t \<leftarrow> ts'. chunk_sz W t)" unfolding chunk assms ..
  show "row_offset W ts i = row_offset W ts' i" unfolding row_offset_def take_map [symmetric] chunk assms ..
qed

lemma block_mean:
  assumes "0 < W" and "length (g 0) = n"
  shows "block c r (mean_grad red dv (map g [0..<W]))
    = map (\<lambda>j. red (map (\<lambda>q. dv W (g q ! (r * c + j))) [0..<W])) [0..<min c (n - r * c)]"
proof -
  have hd: "length (hd (map g [0..<W])) = n" using assms by (simp add: hd_map)
  then have len: "length (mean_grad red dv (map g [0..<W])) = n" by (simp only: mean_grad_def) simp
  show ?thesis unfolding block_nths len
  proof (rule map_cong [OF refl])
    fix j assume "j \<in> set [0..<min c (n - r * c)]"
    then have "r * c + j < n" by simp linarith
    then show "mean_grad red dv (map g [0..<W]) ! (r * c + j) = red (map (\<lambda>q. dv W (g q ! (r * c + j))) [0..<W])"
      using hd by (simp add: mean_grad_def o_def)
  qed
qed

lemma scatter_rows_mean:
  assumes "r < W" and "tss r \<noteq> []" and shapes: "\<And>q. q < W \<Longrightarrow> map length (tss q) = map length (tss r)"
  shows "read_views (views_of W r (tss r))
      (scatter_block red (\<Sum>t \<leftarrow> tss r. chunk_sz W t) r
        (map (\<lambda>q. map (dv W) (concat (map (rank_row W (u q) (tss q)) [0..<W]))) [0..<W]))
    = map (\<lambda>i. block (chunk_sz W (tss r ! i)) r (mean_grad red dv (map (\<lambda>q. tss q ! i) [0..<W]))) [0..<length (tss r)]"
proof -
  have W: "0 < W" using assms(1) by simp
  let ?C = "\<Sum>t \<leftarrow> tss r. chunk_sz W t"
  let ?x = "\<lambda>q. concat (map (rank_row W (u q) (tss q)) [0..<W])"
  have lenx: "length (?x q) = W * ?C" if "q < W" for q
    unfolding length_flat same_lengths(3) [OF shapes [OF that]] ..
  let ?S = "scatter_block red ?C r (map (\<lambda>q. map (dv W) (?x q)) [0..<W])"
  have lenS: "length ?S = ?C" by (simp add: scatter_block_def)
  have "take (min c (length (tss r ! i) - r * c)) (drop (row_offset W (tss r) i) ?S)
      = block c r (mean_grad red dv (map (\<lambda>q. tss q ! i) [0..<W]))"
    if i: "i < length (tss r)" and c: "c = chunk_sz W (tss r ! i)" for i c
  proof -
    let ?l = "min c (length (tss r ! i) - r * c)" and ?o = "row_offset W (tss r) i"
    have fit: "?o + c \<le> ?C" using row_fits [OF i] by (simp add: c)
    have elem: "map (dv W) (?x q) ! (r * ?C + (?o + j)) = dv W (tss q ! i ! (r * c + j))" if q: "q < W" and j: "j < ?l" for q j
    proof -
      note same = same_lengths [OF shapes [OF q]]
      have iq: "i < length (tss q)" using i same(1) by simp
      have cq: "chunk_sz W (tss q ! i) = c" using same(2) [OF iq] by (simp add: chunk_sz_def c)
      have idx: "r * ?C + (?o + j) < W * ?C"
      proof -
        have "(r + 1) * ?C \<le> W * ?C" using assms(1) by (intro mult_right_mono) auto
        then show ?thesis using fit j by (simp add: algebra_simps)
      qed
      have "?x q ! (r * ?C + (?o + j)) = padded_block W (u q r i) (tss q ! i) r ! j"
        using nth_flat [OF assms(1) iq, of j "u q"] j unfolding same(3,4) cq by simp
      also have "\<dots> = tss q ! i ! (r * c + j)"
        using nth_padded_block [OF assms(1), of j "tss q ! i"] j same(2) [OF iq] unfolding cq by simp
      finally show ?thesis using idx lenx [OF q] by (simp only: nth_map)
    qed
    have "take ?l (drop ?o ?S) = map (\<lambda>j. ?S ! (?o + j)) [0..<?l]"
      by (rule take_drop_nths) (use fit lenS in linarith)
    also have "\<dots> = map (\<lambda>j. red (map (\<lambda>q. dv W (tss q ! i ! (r * c + j))) [0..<W])) [0..<?l]"
    proof (rule map_cong [OF refl])
      fix j assume "j \<in> set [0..<?l]"
      then have j: "j < ?l" by simp
      then have "?S ! (?o + j) = red (map (\<lambda>q. map (dv W) (?x q) ! (r * ?C + (?o + j))) [0..<W])"
        using fit by (simp add: scatter_block_def o_def del: map_concat)
      moreover have "map (\<lambda>q. map (dv W) (?x q) ! (r * ?C + (?o + j))) [0..<W]
          = map (\<lambda>q. dv W (tss q ! i ! (r * c + j))) [0..<W]"
        by (rule map_cong [OF refl]) (use elem [OF _ j] in simp)
      ultimately show "?S ! (?o + j) = red (map (\<lambda>q. dv W (tss q ! i ! (r * c + j))) [0..<W])"
        by (simp only:)
    qed
    also have "\<dots> = block c r (mean_grad red dv (map (\<lambda>q. tss q ! i) [0..<W]))"
      by (rule block_mean [symmetric, OF W])
        (use same_lengths(2) [OF shapes [OF W]] same_lengths(1) [OF shapes [OF W]] i in simp)
    finally show ?thesis .
  qed
  then show ?thesis unfolding read_views_def views_of_def by simp
qed

text \<open>
  C6: the coalesced reduce-scatter is a reduce-scatter of each tensor. All ranks launch it with
  tensors of the same shapes; whatever the paddings hold, whether or not the flat input is the
  tensor itself, with either backend, the views of the result read, for each tensor, this rank's
  block of the mean of the ranks' tensors.
\<close>

theorem reduce_scatter_equivalent:
  assumes "r < W" and "tss r \<noteq> []" and shapes: "\<And>q. q < W \<Longrightarrow> map length (tss q) = map length (tss r)"
    and launch: "\<And>q. q < W \<Longrightarrow>
      snd (reduce_scatter_coalesced W q dv (u q) (env q) nccl (tss q) cid (ob q) (w q)) = Inr (d q)"
  shows "read_views (d_views (d r))
      (scatter_block red (length (d_input (d r)) div W) r (map (\<lambda>q. d_input (d q)) [0..<W]))
    = map (\<lambda>i. block (chunk_sz W (tss r ! i)) r (mean_grad red dv (map (\<lambda>q. tss q ! i) [0..<W]))) [0..<length (tss r)]"
proof -
  have W: "0 < W" using assms(1) by simp
  have ne: "tss q \<noteq> []" if "q < W" for q using shapes [OF that] assms(2) by auto
  have inp: "d_input (d q) = map (dv W) (concat (map (rank_row W (u q) (tss q)) [0..<W]))" if "q < W" for q
    by (rule launch_fields(1) [OF W that ne [OF that] launch [OF that]])
  have inps: "map (\<lambda>q. d_input (d q)) [0..<W] = map (\<lambda>q. map (dv W) (concat (map (rank_row W (u q) (tss q)) [0..<W]))) [0..<W]"
    by (rule map_cong [OF refl]) (use inp in simp)
  have C: "length (d_input (d r)) div W = (\<Sum>t \<leftarrow> tss r. chunk_sz W t)"
    unfolding inp [OF assms(1)] length_map length_flat using W by simp
  have views: "d_views (d r) = views_of W r (tss r)"
    by (rule launch_fields(2) [OF W assms(1) assms(2) launch [OF assms(1)]])
  show ?thesis unfolding views inps C by (rule scatter_rows_mean [where tss = tss, OF assms(1,2) shapes])
qed

definition demo_grads :: "nat \<Rightarrow> int list list" where
  "demo_grads q = (if q = 0 then [[2, 4, 6], [8, 10]] else [[20, 40, 60], [80, 100]])"

definition quiet_env :: comch_env where
  "quiet_env = demo_env\<lparr>call_fails := \<lambda>_. False\<rparr>"

definition quiet_world :: "int comch_world" where
  "quiet_world = \<lparr>calls = [], stream = [], global_pool = None\<rparr>"

definition demo_launch :: "nat \<Rightarrow> int deferred" where
  "demo_launch q = \<lparr>d_handle = Some (rs_work_init 0), d_cid = 5, d_input = map (\<lambda>x. x div 2)
       (if q = 0 then [2, 4, 8, 6, 7, 10] else [20, 40, 80, 60, 7, 100]),
     d_alias = False, d_in_buffer = False, d_views = (if q = 0 then [(0, 2), (2, 1)] else [(0, 1), (2, 1)]),
     d_waited = False\<rparr>"

lemma demo_launches:
  "snd (reduce_scatter_coalesced 2 0 (\<lambda>n x. x div int n) (\<lambda>_ _ _. 7) quiet_env False (demo_grads 0) 5 None quiet_world)
     = Inr (demo_launch 0)"
  "snd (reduce_scatter_coalesced 2 1 (\<lambda>n x. x div int n) (\<lambda>_ _ _. 7) quiet_env False (demo_grads 1) 5 None quiet_world)
     = Inr (demo_launch 1)"
  by code_simp+

lemma demo_launch_ok:
  "q < 2 \<Longrightarrow> snd (reduce_scatter_coalesced 2 q (\<lambda>n x. x div int n) (\<lambda>_ _ _. 7) quiet_env False (demo_grads q) 5 None quiet_world)
     = Inr (demo_launch q)"
  using demo_launches by (auto simp: less_2_cases_iff)

theorem reduce_scatter_equivalent_witness:
  "read_views (d_views (demo_launch 1)) (scatter_block sum_list 3 1 (map (\<lambda>q. d_input (demo_launch q)) [0..<2]))
     = [[33], [55 :: int]]
   \<and> map (\<lambda>i. block (chunk_sz 2 (demo_grads 1 ! i)) 1 (mean_grad sum_list (\<lambda>n x. x div int n) (map (\<lambda>q. demo_grads q ! i) [0..<2]))) [0..<2]
     = [[33], [55]]"
proof -
  have len: "length (d_input (demo_launch 1)) div 2 = 3" "length (demo_grads 1) = 2"
    by (simp_all add: demo_launch_def demo_grads_def)
  have eval: "map (\<lambda>i. block (chunk_sz 2 (demo_grads 1 ! i)) 1 (mean_grad sum_list (\<lambda>n x. x div int n) (map (\<lambda>q. demo_grads q ! i) [0..<2]))) [0..<2]
     = [[33], [55]]"
    by code_simp
  have "demo_grads 1 \<noteq> []" "map length (demo_grads q) = map length (demo_grads 1)" for q
    by (simp_all add: demo_grads_def)
  then show ?thesis
    using reduce_scatter_equivalent [of 1 2 demo_grads "\<lambda>n x. x div int n" "\<lambda>_ _ _ _. 7" "\<lambda>_. quiet_env" False 5
        "\<lambda>_. None" "\<lambda>_. quiet_world" demo_launch sum_list, OF _ _ _ demo_launch_ok]
    unfolding len eval by simp
qed

end
