(* ===== verification/FlatLayout.thy ===== *)
theory FlatLayout
  imports AllGather
begin

text \<open>
  How the optimizer of \<^verbatim>\<open>src/smartnic_offload/zero_optimizer.py\<close> lays out its memory: the groups
  of parameters are split into sub-groups, and the shards of a group are moved into one flat
  buffer, of which the shards and the sub-groups' flat tensors become views.

  A shard is a tensor of its own or a view of a flat buffer; \<open>n p\<close> is \<^verbatim>\<open>p.partition_numel()\<close>, the
  size of the shard of parameter \<open>p\<close>.
\<close>

section \<open>Sub-groups\<close>

definition total_numel :: "(nat \<Rightarrow> nat) \<Rightarrow> nat list \<Rightarrow> nat" where
  "total_numel n ps = (\<Sum>p \<leftarrow> ps. n p)"

text \<open>The loop has the sub-group under construction and its size as its state.\<close>

fun sub_group_loop :: "(nat \<Rightarrow> nat) \<Rightarrow> nat \<Rightarrow> nat \<Rightarrow> nat list \<Rightarrow> nat list \<Rightarrow> nat \<Rightarrow> nat list list \<Rightarrow> nat list list" where
  "sub_group_loop n sub_group_size last_param [] sub_group local_size sub_groups = sub_groups"
| "sub_group_loop n sub_group_size last_param (param # ps) sub_group local_size sub_groups =
     (if local_size + n param \<ge> sub_group_size \<or> param = last_param
      then sub_group_loop n sub_group_size last_param ps [] 0 (sub_groups @ [sub_group @ [param]])
      else sub_group_loop n sub_group_size last_param ps (sub_group @ [param]) (local_size + n param) sub_groups)"

definition create_fp16_sub_groups :: "(nat \<Rightarrow> nat) \<Rightarrow> nat option \<Rightarrow> nat list \<Rightarrow> nat list list" where
  "create_fp16_sub_groups n sub_group_size params_group =
     (case sub_group_size of
        None \<Rightarrow> [params_group]
      | Some sz \<Rightarrow>
          if sz \<ge> total_numel n params_group then [params_group]
          else sub_group_loop n sz (last params_group) params_group [] 0 [])"

section \<open>Storage\<close>

datatype 'a storage = Own "'a list" | View nat nat nat

record 'a layout =
  fp16_groups :: "nat list list"
  sub_group_to_group_id :: "nat list"
  fp16_partitioned_groups_flat_numel :: "nat list"
  groups_padding :: "nat list list"
  flat_cpu_memory :: "'a list list"
  fp16_partitioned_groups_flat :: "(nat \<times> nat \<times> nat) list"
  shard_of :: "nat \<Rightarrow> 'a storage"

definition read_view :: "'a list list \<Rightarrow> nat \<times> nat \<times> nat \<Rightarrow> 'a list" where
  "read_view mem v = (case v of (g, start, len) \<Rightarrow> take len (drop start (mem ! g)))"

definition read_shard :: "'a layout \<Rightarrow> nat \<Rightarrow> 'a list" where
  "read_shard s p = (case shard_of s p of Own x \<Rightarrow> x | View g start len \<Rightarrow> read_view (flat_cpu_memory s) (g, start, len))"

definition write_view :: "nat \<times> nat \<times> nat \<Rightarrow> 'a list \<Rightarrow> 'a layout \<Rightarrow> 'a layout result" where
  "write_view v x s =
     (case v of (g, start, len) \<Rightarrow>
        ebind (copy_into (flat_cpu_memory s ! g) start len x) (\<lambda>buf.
          Inr (s\<lparr>flat_cpu_memory := (flat_cpu_memory s)[g := buf]\<rparr>)))"

section \<open>Building the layout\<close>

definition create_flat_cpu_memory :: "(nat \<Rightarrow> nat) \<Rightarrow> (nat \<Rightarrow> 'a) \<Rightarrow> nat list list \<Rightarrow> 'a list list" where
  "create_flat_cpu_memory n u groups =
     concat (map (\<lambda>ps. let flat_buffer_size = total_numel n ps in
                   if flat_buffer_size > 0 then [fresh u flat_buffer_size] else []) groups)"

text \<open>
  The first loop over the sub-groups, one of group \<open>i\<close> at a time. Only the last rank pads.
\<close>

definition record_sub_group ::
  "(nat \<Rightarrow> nat) \<Rightarrow> (nat \<Rightarrow> nat) \<Rightarrow> bool \<Rightarrow> nat \<Rightarrow> nat list \<Rightarrow> 'a layout \<Rightarrow> 'a layout" where
  "record_sub_group n padding last_rank i sub_group s =
     s\<lparr>fp16_groups := fp16_groups s @ [sub_group],
       sub_group_to_group_id := sub_group_to_group_id s @ [i],
       fp16_partitioned_groups_flat_numel := fp16_partitioned_groups_flat_numel s @ [total_numel n sub_group],
       groups_padding := groups_padding s @ [map (\<lambda>p. if last_rank then padding p else 0) sub_group]\<rparr>"

definition record_groups ::
  "(nat \<Rightarrow> nat) \<Rightarrow> (nat \<Rightarrow> nat) \<Rightarrow> bool \<Rightarrow> nat list list list \<Rightarrow> 'a layout \<Rightarrow> 'a layout" where
  "record_groups n padding last_rank gs s =
     fold (\<lambda>i. fold (record_sub_group n padding last_rank i) (gs ! i)) [0..<length gs] s"

definition move_one :: "(nat \<Rightarrow> nat) \<Rightarrow> bool \<Rightarrow> nat \<times> nat \<times> nat \<Rightarrow> nat \<Rightarrow> nat \<times> 'a layout \<Rightarrow> (nat \<times> 'a layout) result" where
  "move_one n avoid_copy flat param st =
     (case flat of (g, offset, len) \<Rightarrow> case st of (start, s) \<Rightarrow>
        if start + n param \<le> len
        then let dest = (g, offset + start, n param) in
             ebind (if avoid_copy then Inr s else write_view dest (read_shard s param) s) (\<lambda>s1.
               Inr (start + n param, s1\<lparr>shard_of := (shard_of s1)(param := View g (offset + start) (n param))\<rparr>))
        else Inl (RuntimeError ''narrow''))"

definition move_to_flat_buffer ::
  "(nat \<Rightarrow> nat) \<Rightarrow> bool \<Rightarrow> nat list \<Rightarrow> nat \<times> nat \<times> nat \<Rightarrow> 'a layout \<Rightarrow> 'a layout result" where
  "move_to_flat_buffer n avoid_copy param_list flat s =
     ebind (foldE (move_one n avoid_copy flat) param_list (0, s)) (\<lambda>st. Inr (snd st))"

definition place_sub_group ::
  "(nat \<Rightarrow> nat) \<Rightarrow> bool \<Rightarrow> nat \<Rightarrow> nat list \<Rightarrow> nat \<times> 'a layout \<Rightarrow> (nat \<times> 'a layout) result" where
  "place_sub_group n avoid_copy i sub_group st =
     (case st of (flat_offset, s) \<Rightarrow>
        let total_elements = total_numel n sub_group in
        if length (flat_cpu_memory s) \<le> i then Inl IndexError
        else if flat_offset + total_elements \<le> length (flat_cpu_memory s ! i)
        then let flat = (i, flat_offset, total_elements) in
             ebind (move_to_flat_buffer n avoid_copy sub_group flat
                      (s\<lparr>fp16_partitioned_groups_flat := fp16_partitioned_groups_flat s @ [flat]\<rparr>)) (\<lambda>s1.
               Inr (flat_offset + total_elements, s1))
        else Inl (RuntimeError ''narrow''))"

definition place_group :: "(nat \<Rightarrow> nat) \<Rightarrow> bool \<Rightarrow> nat list list list \<Rightarrow> nat \<Rightarrow> 'a layout \<Rightarrow> 'a layout result" where
  "place_group n avoid_copy gs i s =
     ebind (foldE (place_sub_group n avoid_copy i) (gs ! i) (0, s)) (\<lambda>st. Inr (snd st))"

definition empty_layout :: "(nat \<Rightarrow> 'a storage) \<Rightarrow> 'a layout" where
  "empty_layout sh =
     \<lparr>fp16_groups = [], sub_group_to_group_id = [], fp16_partitioned_groups_flat_numel = [],
      groups_padding = [], flat_cpu_memory = [], fp16_partitioned_groups_flat = [], shard_of = sh\<rparr>"

definition create_fp16_partitions ::
  "(nat \<Rightarrow> nat) \<Rightarrow> (nat \<Rightarrow> nat) \<Rightarrow> bool \<Rightarrow> bool \<Rightarrow> (nat \<Rightarrow> 'a) \<Rightarrow> nat option \<Rightarrow> nat list list \<Rightarrow> 'a layout \<Rightarrow> 'a layout result" where
  "create_fp16_partitions n padding last_rank avoid_copy u sub_group_size groups s =
     (let param_groups = map (create_fp16_sub_groups n sub_group_size) groups;
          s1 = record_groups n padding last_rank param_groups s
      in foldE (place_group n avoid_copy param_groups) [0..<length param_groups]
           (s1\<lparr>flat_cpu_memory := flat_cpu_memory s1 @ create_flat_cpu_memory n u groups\<rparr>))"

section \<open>Positions of the gradients\<close>

text \<open>
  \<^verbatim>\<open>grad_position\<close> gives the place of a parameter's gradient in the buffer of its sub-group,
  \<^verbatim>\<open>__param_id_to_grad_offset\<close> its place in the buffer of all gradients.
\<close>

definition set_grad_position ::
  "(nat \<Rightarrow> nat) \<Rightarrow> nat \<Rightarrow> nat \<Rightarrow> nat \<times> (nat \<Rightarrow> (nat \<times> nat \<times> nat) option) \<Rightarrow> nat \<times> (nat \<Rightarrow> (nat \<times> nat \<times> nat) option)" where
  "set_grad_position n i param st =
     (case st of (current_offset, pos) \<Rightarrow> (current_offset + n param, pos(param \<mapsto> (i, current_offset, n param))))"

definition set_grad_positions :: "(nat \<Rightarrow> nat) \<Rightarrow> nat list list \<Rightarrow> nat \<Rightarrow> (nat \<times> nat \<times> nat) option" where
  "set_grad_positions n groups =
     fold (\<lambda>i pos. snd (fold (set_grad_position n i) (groups ! i) (0, pos))) [0..<length groups] (\<lambda>_. None)"

fun grad_offsets :: "(nat \<Rightarrow> nat) \<Rightarrow> nat \<Rightarrow> nat list \<Rightarrow> (nat \<Rightarrow> nat option) \<Rightarrow> nat \<Rightarrow> nat option" where
  "grad_offsets n offset [] m = m"
| "grad_offsets n offset (param # ps) m = grad_offsets n (offset + n param) ps (m(param \<mapsto> offset))"

section \<open>Defragmentation\<close>

text \<open>
  \<^verbatim>\<open>defragment\<close>: the tensors are copied one after the other into a host buffer, which goes back to
  the device as one; each tensor becomes a view of it.
\<close>

fun defragment_loop :: "'a list \<Rightarrow> nat \<Rightarrow> 'a list list \<Rightarrow> ('a list \<times> (nat \<times> nat) list) result" where
  "defragment_loop cpu_buffer offset [] = Inr (cpu_buffer, [])"
| "defragment_loop cpu_buffer offset (t # ts) =
     ebind (copy_into cpu_buffer offset (length t) t) (\<lambda>b.
     ebind (defragment_loop b (offset + length t) ts) (\<lambda>(b', infos).
       Inr (b', (offset, length t) # infos)))"

definition defragment ::
  "(nat \<Rightarrow> 'a) \<Rightarrow> ('a list \<times> dtype \<times> 'd) list \<Rightarrow> ('a list \<times> 'd \<times> (nat \<times> nat) list) result" where
  "defragment u tensors =
     ebind (get_only_unique_item (map (\<lambda>(t, dt, dev). dt) tensors)) (\<lambda>dt.
     ebind (get_only_unique_item (map (\<lambda>(t, dt, dev). dev) tensors)) (\<lambda>orig_device.
     ebind (defragment_loop (fresh u (\<Sum>(t, dt, dev) \<leftarrow> tensors. length t)) 0 (map fst tensors)) (\<lambda>(buf, infos).
       Inr (buf, orig_device, infos))))"

section \<open>Sub-groups keep the order and their bound\<close>

lemma total_numel_simps [simp]:
  "total_numel n [] = 0" "total_numel n (p # ps) = n p + total_numel n ps"
  "total_numel n (ps @ qs) = total_numel n ps + total_numel n qs"
  by (simp_all add: total_numel_def)

lemma sub_group_loop_concat:
  assumes "ps = [] \<Longrightarrow> sg = []" and "ps \<noteq> [] \<Longrightarrow> last ps = l"
  shows "concat (sub_group_loop n sz l ps sg k acc) = concat acc @ sg @ ps"
  using assms by (induction ps arbitrary: sg k acc) (auto split: if_splits)

definition sub_group_ok :: "(nat \<Rightarrow> nat) \<Rightarrow> nat \<Rightarrow> nat list \<Rightarrow> bool" where
  "sub_group_ok n sz g \<longleftrightarrow> g \<noteq> [] \<and> total_numel n (butlast g) < sz"

lemma sub_group_loop_ok:
  assumes "k = total_numel n sg" and "k < sz" and "\<forall>g \<in> set acc. sub_group_ok n sz g"
  shows "\<forall>g \<in> set (sub_group_loop n sz l ps sg k acc). sub_group_ok n sz g"
  using assms
proof (induction ps arbitrary: sg k acc)
  case (Cons p ps)
  show ?case
  proof (cases "k + n p \<ge> sz \<or> p = l")
    case True
    have "\<forall>g \<in> set (sub_group_loop n sz l ps [] 0 (acc @ [sg @ [p]])). sub_group_ok n sz g"
      using Cons.prems by (intro Cons.IH) (auto simp: sub_group_ok_def)
    with True show ?thesis by simp
  next
    case False
    have "\<forall>g \<in> set (sub_group_loop n sz l ps (sg @ [p]) (k + n p) acc). sub_group_ok n sz g"
      using Cons.prems False by (intro Cons.IH) auto
    with False show ?thesis by simp
  qed
qed simp

lemma sub_group_loop_full:
  assumes "k = total_numel n sg" and "l \<notin> set sg" and "distinct ps" and "ps = [] \<Longrightarrow> sg = []"
    and "\<forall>g \<in> set acc. sz \<le> total_numel n g \<or> last g = l"
  shows "\<forall>g \<in> set (sub_group_loop n sz l ps sg k acc). sz \<le> total_numel n g \<or> last g = l"
  using assms
proof (induction ps arbitrary: sg k acc)
  case (Cons p ps)
  show ?case
  proof (cases "k + n p \<ge> sz \<or> p = l")
    case True
    have "\<forall>g \<in> set (sub_group_loop n sz l ps [] 0 (acc @ [sg @ [p]])). sz \<le> total_numel n g \<or> last g = l"
      using Cons.prems True by (intro Cons.IH) auto
    with True show ?thesis by simp
  next
    case False
    show ?thesis
    proof (cases ps)
      case Nil
      with False Cons.prems show ?thesis by simp
    next
      case (Cons q qs)
      have "\<forall>g \<in> set (sub_group_loop n sz l ps (sg @ [p]) (k + n p) acc). sz \<le> total_numel n g \<or> last g = l"
        using Cons.prems False Cons by (intro Cons.IH) auto
      with False show ?thesis by simp
    qed
  qed
qed simp

lemma sub_groups_concat: "ps \<noteq> [] \<Longrightarrow> concat (create_fp16_sub_groups n sz ps) = ps"
  by (simp add: create_fp16_sub_groups_def sub_group_loop_concat split: option.split)

text \<open>
  The sub-groups of a group. They are the group cut into consecutive parts; no part is empty,
  a part without its last parameter is below the size limit, and every part but the last one
  reaches the limit.
\<close>

theorem sub_groups_cut:
  assumes "ps \<noteq> []" and "distinct ps" and "0 < sz"
  shows "let gs = create_fp16_sub_groups n (Some sz) ps in
      concat gs = ps \<and> gs \<noteq> [] \<and> [] \<notin> set gs
    \<and> (gs = [ps] \<and> total_numel n ps \<le> sz
       \<or> list_all (\<lambda>g. total_numel n (butlast g) < sz) gs
         \<and> list_all (\<lambda>g. sz \<le> total_numel n g \<or> last g = last ps) gs)"
proof (cases "sz \<ge> total_numel n ps")
  case True
  then show ?thesis using assms(1) by (simp add: create_fp16_sub_groups_def)
next
  case False
  let ?gs = "sub_group_loop n sz (last ps) ps [] 0 []"
  have c: "concat ?gs = ps" using assms(1) by (subst sub_group_loop_concat) auto
  have ok: "\<forall>g \<in> set ?gs. sub_group_ok n sz g" using assms(3) by (intro sub_group_loop_ok) auto
  moreover have "\<forall>g \<in> set ?gs. sz \<le> total_numel n g \<or> last g = last ps"
    using assms by (intro sub_group_loop_full) auto
  moreover have "?gs \<noteq> []" using c assms(1) by auto
  ultimately show ?thesis using False c
    by (auto simp: create_fp16_sub_groups_def sub_group_ok_def list_all_iff Let_def)
qed

theorem sub_groups_cut_witness:
  "create_fp16_sub_groups (\<lambda>p. p + 1) (Some 5) [0, 1, 2, 3, 4, 5] = [[0, 1, 2], [3, 4], [5]]
   \<and> concat [[0, 1, 2], [3, 4], [5]] = [0, 1, 2, 3, 4, 5 :: nat]"
proof -
  have "create_fp16_sub_groups (\<lambda>p. p + 1) (Some 5) [0, 1, 2, 3, 4, 5] = [[0, 1, 2], [3, 4], [5]]"
    by (simp add: create_fp16_sub_groups_def)
  then show ?thesis using sub_groups_cut [of "[0, 1, 2, 3, 4, 5]" 5 "\<lambda>p. p + 1"] by (simp only: Let_def) simp
qed

section \<open>The layout keeps every shard\<close>

text \<open>The views the moves assign, from an offset of a buffer on.\<close>

fun assign_views :: "nat \<Rightarrow> nat \<Rightarrow> (nat \<Rightarrow> nat) \<Rightarrow> nat list \<Rightarrow> (nat \<Rightarrow> 'a storage) \<Rightarrow> nat \<Rightarrow> 'a storage" where
  "assign_views g start n [] sh = sh"
| "assign_views g start n (p # ps) sh = assign_views g (start + n p) n ps (sh(p := View g start (n p)))"

lemma assign_views_append:
  "assign_views g start n (ps @ qs) sh = assign_views g (start + total_numel n ps) n qs (assign_views g start n ps sh)"
  by (induction ps arbitrary: start sh) (auto simp: add.assoc)

lemma assign_views_other: "q \<notin> set ps \<Longrightarrow> assign_views g start n ps sh q = sh q"
  by (induction ps arbitrary: start sh) auto

lemma assign_views_nth:
  "distinct ps \<Longrightarrow> i < length ps \<Longrightarrow>
    assign_views g start n ps sh (ps ! i) = View g (start + total_numel n (take i ps)) (n (ps ! i))"
proof (induction ps arbitrary: start sh i)
  case (Cons p ps)
  then show ?case by (cases i) (auto simp: assign_views_other add.assoc)
qed simp

text \<open>What is known of the shards before they are moved: parameter \<open>p\<close> has the value \<open>v p\<close>.\<close>

definition unmoved :: "(nat \<Rightarrow> nat) \<Rightarrow> (nat \<Rightarrow> 'a list) \<Rightarrow> (nat \<Rightarrow> 'a storage) \<Rightarrow> nat list \<Rightarrow> bool" where
  "unmoved n v sh ps \<longleftrightarrow> distinct ps \<and> (\<forall>p \<in> set ps. sh p = Own (v p) \<and> length (v p) = n p)"

lemma unmoved_length: "unmoved n v sh ps \<Longrightarrow> length (concat (map v ps)) = total_numel n ps"
  by (induction ps) (auto simp: unmoved_def)

lemma move_list:
  assumes "unmoved n v (shard_of s) ps" and "g < length (flat_cpu_memory s)"
    and "start + total_numel n ps \<le> len" and "offset + len \<le> length (flat_cpu_memory s ! g)"
  shows "foldE (move_one n False (g, offset, len)) ps (start, s)
    = Inr (start + total_numel n ps,
        s\<lparr>flat_cpu_memory := (flat_cpu_memory s)[g := take (offset + start) (flat_cpu_memory s ! g)
              @ concat (map v ps) @ drop (offset + start + total_numel n ps) (flat_cpu_memory s ! g)],
          shard_of := assign_views g (offset + start) n ps (shard_of s)\<rparr>)"
  using assms
proof (induction ps arbitrary: start s)
  case Nil
  then show ?case by simp
next
  case (Cons p ps)
  let ?buf = "flat_cpu_memory s ! g" and ?o = "offset + start"
  have p: "shard_of s p = Own (v p)" "length (v p) = n p" "p \<notin> set ps"
    using Cons.prems(1) by (auto simp: unmoved_def)
  define buf1 where "buf1 = take ?o ?buf @ v p @ drop (?o + n p) ?buf"
  let ?s1 = "s\<lparr>flat_cpu_memory := (flat_cpu_memory s)[g := buf1], shard_of := (shard_of s)(p := View g ?o (n p))\<rparr>"
  have step: "move_one n False (g, offset, len) p (start, s) = Inr (start + n p, ?s1)"
    using Cons.prems p by (simp add: move_one_def write_view_def read_shard_def copy_into_ok Let_def buf1_def)
  have len1: "length buf1 = length ?buf" using Cons.prems p by (simp add: buf1_def)
  have "foldE (move_one n False (g, offset, len)) ps (start + n p, ?s1)
    = Inr (start + n p + total_numel n ps,
        ?s1\<lparr>flat_cpu_memory := (flat_cpu_memory ?s1)[g := take (offset + (start + n p)) (flat_cpu_memory ?s1 ! g)
              @ concat (map v ps) @ drop (offset + (start + n p) + total_numel n ps) (flat_cpu_memory ?s1 ! g)],
          shard_of := assign_views g (offset + (start + n p)) n ps (shard_of ?s1)\<rparr>)"
    by (rule Cons.IH) (use Cons.prems p len1 in \<open>auto simp: unmoved_def\<close>)
  moreover have "take (offset + (start + n p)) buf1 = take ?o ?buf @ v p"
    using Cons.prems p by (simp add: buf1_def)
  moreover have "drop (offset + (start + n p) + total_numel n ps) buf1 = drop (?o + (n p + total_numel n ps)) ?buf"
    using Cons.prems p by (simp add: buf1_def ac_simps)
  ultimately show ?case using Cons.prems(2) by (simp add: step add.assoc)
qed

text \<open>The flat tensors of the sub-groups of one group.\<close>

fun flats_from :: "nat \<Rightarrow> nat \<Rightarrow> (nat \<Rightarrow> nat) \<Rightarrow> nat list list \<Rightarrow> (nat \<times> nat \<times> nat) list" where
  "flats_from g start n [] = []"
| "flats_from g start n (ps # pss) = (g, start, total_numel n ps) # flats_from g (start + total_numel n ps) n pss"

lemma place_sub_groups:
  assumes "unmoved n v (shard_of s) (concat gs)" and "g < length (flat_cpu_memory s)"
    and "offset + total_numel n (concat gs) \<le> length (flat_cpu_memory s ! g)"
  shows "foldE (place_sub_group n False g) gs (offset, s)
    = Inr (offset + total_numel n (concat gs),
        s\<lparr>flat_cpu_memory := (flat_cpu_memory s)[g := take offset (flat_cpu_memory s ! g)
              @ concat (map v (concat gs)) @ drop (offset + total_numel n (concat gs)) (flat_cpu_memory s ! g)],
          fp16_partitioned_groups_flat := fp16_partitioned_groups_flat s @ flats_from g offset n gs,
          shard_of := assign_views g offset n (concat gs) (shard_of s)\<rparr>)"
  using assms
proof (induction gs arbitrary: offset s)
  case Nil
  then show ?case by simp
next
  case (Cons ps gs)
  let ?buf = "flat_cpu_memory s ! g" and ?k = "total_numel n ps"
  define buf1 where "buf1 = take offset ?buf @ concat (map v ps) @ drop (offset + ?k) ?buf"
  let ?s1 = "s\<lparr>flat_cpu_memory := (flat_cpu_memory s)[g := buf1],
               fp16_partitioned_groups_flat := fp16_partitioned_groups_flat s @ [(g, offset, ?k)],
               shard_of := assign_views g offset n ps (shard_of s)\<rparr>"
  have um: "unmoved n v (shard_of s) ps" using Cons.prems(1) by (auto simp: unmoved_def)
  have lenv: "length (concat (map v ps)) = ?k" by (rule unmoved_length [OF um])
  define t where "t = s\<lparr>fp16_partitioned_groups_flat := fp16_partitioned_groups_flat s @ [(g, offset, ?k)]\<rparr>"
  have t: "shard_of t = shard_of s" "flat_cpu_memory t = flat_cpu_memory s" by (simp_all add: t_def)
  have "foldE (move_one n False (g, offset, ?k)) ps (0, t)
      = Inr (0 + ?k, t\<lparr>flat_cpu_memory := (flat_cpu_memory t)[g := take (offset + 0) (flat_cpu_memory t ! g)
              @ concat (map v ps) @ drop (offset + 0 + ?k) (flat_cpu_memory t ! g)],
          shard_of := assign_views g (offset + 0) n ps (shard_of t)\<rparr>)"
    by (rule move_list) (use um Cons.prems in \<open>simp_all add: t\<close>)
  moreover have "t\<lparr>flat_cpu_memory := (flat_cpu_memory s)[g := buf1],
          shard_of := assign_views g offset n ps (shard_of s)\<rparr> = ?s1"
    by (cases s) (simp add: t_def)
  moreover have "(flat_cpu_memory s)[g := take offset ?buf @ concat (map v ps) @ drop (offset + ?k) ?buf] = (flat_cpu_memory s)[g := buf1]"
    by (simp only: buf1_def)
  ultimately have step: "place_sub_group n False g ps (offset, s) = Inr (offset + ?k, ?s1)"
    using Cons.prems by (simp add: place_sub_group_def move_to_flat_buffer_def Let_def t_def [symmetric] t)
  have len1: "length buf1 = length ?buf" using Cons.prems lenv by (simp add: buf1_def)
  have "assign_views g offset n ps (shard_of s) p = shard_of s p" if "p \<in> set (concat gs)" for p
    using Cons.prems(1) that by (intro assign_views_other) (auto simp: unmoved_def)
  then have "unmoved n v (shard_of ?s1) (concat gs)"
    using Cons.prems(1) by (simp add: unmoved_def)
  then have "foldE (place_sub_group n False g) gs (offset + ?k, ?s1)
    = Inr (offset + ?k + total_numel n (concat gs),
        ?s1\<lparr>flat_cpu_memory := (flat_cpu_memory ?s1)[g := take (offset + ?k) (flat_cpu_memory ?s1 ! g)
              @ concat (map v (concat gs)) @ drop (offset + ?k + total_numel n (concat gs)) (flat_cpu_memory ?s1 ! g)],
          fp16_partitioned_groups_flat := fp16_partitioned_groups_flat ?s1 @ flats_from g (offset + ?k) n gs,
          shard_of := assign_views g (offset + ?k) n (concat gs) (shard_of ?s1)\<rparr>)"
    by (rule Cons.IH) (use Cons.prems len1 in \<open>auto simp: add.assoc\<close>)
  moreover have "take (offset + ?k) buf1 = take offset ?buf @ concat (map v ps)"
    using Cons.prems lenv by (simp add: buf1_def)
  moreover have "drop (offset + ?k + total_numel n (concat gs)) buf1 = drop (offset + (?k + total_numel n (concat gs))) ?buf"
    using Cons.prems lenv by (simp add: buf1_def ac_simps)
  ultimately show ?case using Cons.prems(2)
    by (simp add: step assign_views_append add.assoc del: length_concat)
qed

text \<open>The whole layout, group by group.\<close>

definition moved :: "(nat \<Rightarrow> nat) \<Rightarrow> nat list list list \<Rightarrow> nat \<Rightarrow> (nat \<Rightarrow> 'a storage) \<Rightarrow> nat \<Rightarrow> 'a storage" where
  "moved n gss k sh = fold (\<lambda>i. assign_views i 0 n (concat (gss ! i))) [0..<k] sh"

lemma moved_other: "(\<And>i. i < k \<Longrightarrow> p \<notin> set (concat (gss ! i))) \<Longrightarrow> moved n gss k sh p = sh p"
proof (induction k)
  case (Suc k)
  have "moved n gss k sh p = sh p" by (rule Suc.IH) (rule Suc.prems, simp)
  moreover have "p \<notin> set (concat (gss ! k))" by (rule Suc.prems) simp
  ultimately show ?case by (simp add: moved_def assign_views_other del: set_concat)
qed (simp add: moved_def)

lemma moved_Suc: "moved n gss (Suc k) sh = assign_views k 0 n (concat (gss ! k)) (moved n gss k sh)"
  by (simp add: moved_def)

lemma moved_at:
  assumes "i < k" and "p \<in> set (concat (gss ! i))" and "\<And>j. j < k \<Longrightarrow> j \<noteq> i \<Longrightarrow> p \<notin> set (concat (gss ! j))"
  shows "moved n gss k sh p = assign_views i 0 n (concat (gss ! i)) (moved n gss i sh) p"
  using assms
proof (induction k)
  case (Suc k)
  show ?case
  proof (cases "i = k")
    case True
    then show ?thesis by (simp add: moved_def)
  next
    case False
    then have "moved n gss k sh p = assign_views i 0 n (concat (gss ! i)) (moved n gss i sh) p"
      using Suc.prems(1,2) Suc.prems(3) by (intro Suc.IH) (simp_all del: set_concat)
    moreover have "p \<notin> set (concat (gss ! k))" using Suc.prems(3) [of k] False by simp
    ultimately show ?thesis by (simp add: moved_def assign_views_other del: set_concat)
  qed
qed simp

definition all_unmoved :: "(nat \<Rightarrow> nat) \<Rightarrow> (nat \<Rightarrow> 'a list) \<Rightarrow> (nat \<Rightarrow> 'a storage) \<Rightarrow> nat list list list \<Rightarrow> bool" where
  "all_unmoved n v sh gss \<longleftrightarrow> (\<forall>i < length gss. unmoved n v sh (concat (gss ! i)))
     \<and> (\<forall>i < length gss. \<forall>j < length gss. i \<noteq> j \<longrightarrow> set (concat (gss ! i)) \<inter> set (concat (gss ! j)) = {})"

lemma place_groups:
  assumes "all_unmoved n v (shard_of s) gss" and "length (flat_cpu_memory s) = length gss"
    and "\<And>i. i < length gss \<Longrightarrow> length (flat_cpu_memory s ! i) = total_numel n (concat (gss ! i))"
    and "k \<le> length gss"
  shows "foldE (place_group n False gss) [0..<k] s
    = Inr (s\<lparr>flat_cpu_memory := map (\<lambda>i. concat (map v (concat (gss ! i)))) [0..<k] @ drop k (flat_cpu_memory s),
          fp16_partitioned_groups_flat := fp16_partitioned_groups_flat s @ concat (map (\<lambda>i. flats_from i 0 n (gss ! i)) [0..<k]),
          shard_of := moved n gss k (shard_of s)\<rparr>)"
  using assms(4)
proof (induction k)
  case 0
  show ?case by (cases s) (simp add: moved_def)
next
  case (Suc k)
  let ?b = "\<lambda>i. concat (map v (concat (gss ! i)))"
  define M where "M = map ?b [0..<k] @ drop k (flat_cpu_memory s)"
  let ?t = "s\<lparr>flat_cpu_memory := M,
          fp16_partitioned_groups_flat := fp16_partitioned_groups_flat s @ concat (map (\<lambda>i. flats_from i 0 n (gss ! i)) [0..<k]),
          shard_of := moved n gss k (shard_of s)\<rparr>"
  have k: "k < length gss" using Suc.prems by simp
  have mem: "flat_cpu_memory ?t ! k = flat_cpu_memory s ! k" "k < length (flat_cpu_memory ?t)"
    using k assms(2) by (simp_all add: M_def nth_append)
  have "moved n gss k (shard_of s) p = shard_of s p" if p: "p \<in> set (concat (gss ! k))" for p
  proof (rule moved_other)
    fix i assume "i < k"
    then have "set (concat (gss ! i)) \<inter> set (concat (gss ! k)) = {}" using assms(1) k by (simp add: all_unmoved_def)
    then show "p \<notin> set (concat (gss ! i))" using p by blast
  qed
  moreover have "unmoved n v (shard_of s) (concat (gss ! k))" using assms(1) k by (simp add: all_unmoved_def)
  ultimately have um: "unmoved n v (shard_of ?t) (concat (gss ! k))" by (simp add: unmoved_def)
  have lenb: "length (?b k) = total_numel n (concat (gss ! k))" by (rule unmoved_length [OF um])
  have "foldE (place_sub_group n False k) (gss ! k) (0, ?t)
    = Inr (0 + total_numel n (concat (gss ! k)),
        ?t\<lparr>flat_cpu_memory := (flat_cpu_memory ?t)[k := take 0 (flat_cpu_memory ?t ! k) @ ?b k
              @ drop (0 + total_numel n (concat (gss ! k))) (flat_cpu_memory ?t ! k)],
          fp16_partitioned_groups_flat := fp16_partitioned_groups_flat ?t @ flats_from k 0 n (gss ! k),
          shard_of := assign_views k 0 n (concat (gss ! k)) (shard_of ?t)\<rparr>)"
    by (rule place_sub_groups [OF um mem(2)]) (simp only: mem(1) assms(3) [OF k])
  moreover have "drop (total_numel n (concat (gss ! k))) (flat_cpu_memory s ! k) = []"
    by (rule drop_all) (simp only: assms(3) [OF k])
  moreover have "M[k := ?b k]
      = map ?b [0..<Suc k] @ drop (Suc k) (flat_cpu_memory s)"
    using k assms(2) by (simp add: M_def Cons_nth_drop_Suc [symmetric] list_update_append)
  ultimately have "place_group n False gss k ?t
    = Inr (s\<lparr>flat_cpu_memory := map ?b [0..<Suc k] @ drop (Suc k) (flat_cpu_memory s),
          fp16_partitioned_groups_flat := fp16_partitioned_groups_flat s @ concat (map (\<lambda>i. flats_from i 0 n (gss ! i)) [0..<Suc k]),
          shard_of := moved n gss (Suc k) (shard_of s)\<rparr>)"
    using mem(1) by (simp add: place_group_def moved_Suc)
  then show ?case using Suc by (simp add: foldE_append M_def)
qed

lemma record_group:
  "fold (record_sub_group n padding last_rank i) sgs s
    = s\<lparr>fp16_groups := fp16_groups s @ sgs,
        sub_group_to_group_id := sub_group_to_group_id s @ replicate (length sgs) i,
        fp16_partitioned_groups_flat_numel := fp16_partitioned_groups_flat_numel s @ map (total_numel n) sgs,
        groups_padding := groups_padding s @ map (map (\<lambda>p. if last_rank then padding p else 0)) sgs\<rparr>"
  by (induction sgs arbitrary: s) (simp_all add: record_sub_group_def)

lemma record_groups_eq:
  "fold (\<lambda>i. fold (record_sub_group n padding last_rank i) (gs ! i)) [0..<k] s
    = s\<lparr>fp16_groups := fp16_groups s @ concat (map ((!) gs) [0..<k]),
        sub_group_to_group_id := sub_group_to_group_id s @ concat (map (\<lambda>i. replicate (length (gs ! i)) i) [0..<k]),
        fp16_partitioned_groups_flat_numel := fp16_partitioned_groups_flat_numel s @ map (total_numel n) (concat (map ((!) gs) [0..<k])),
        groups_padding := groups_padding s
          @ map (map (\<lambda>p. if last_rank then padding p else 0)) (concat (map ((!) gs) [0..<k]))\<rparr>"
proof (induction k)
  case 0
  show ?case by (cases s) simp
next
  case (Suc k)
  then show ?case by (simp add: record_group)
qed

text \<open>A sub-group and its flat tensor: the shards one after the other, and the shards are its parts.\<close>

definition flat_ok :: "(nat \<Rightarrow> nat) \<Rightarrow> (nat \<Rightarrow> 'a list) \<Rightarrow> 'a list list \<Rightarrow> (nat \<Rightarrow> 'a storage) \<Rightarrow> nat list \<Rightarrow> nat \<times> nat \<times> nat \<Rightarrow> bool" where
  "flat_ok n v mem sh ps flat =
     (case flat of (g, start, len) \<Rightarrow>
        g < length mem \<and> start + len \<le> length (mem ! g)
        \<and> len = total_numel n ps \<and> read_view mem flat = concat (map v ps)
        \<and> map sh ps = map (\<lambda>i. View g (start + total_numel n (take i ps)) (n (ps ! i))) [0..<length ps])"

lemma flats_ok:
  assumes "distinct (pre @ concat gs)" and "\<And>p. p \<in> set (pre @ concat gs) \<Longrightarrow> length (v p) = n p"
    and "mem ! g = concat (map v (pre @ concat gs))" and "g < length mem"
    and "\<And>p. p \<in> set (concat gs) \<Longrightarrow> sh p = assign_views g 0 n (pre @ concat gs) sh0 p"
  shows "list_all2 (flat_ok n v mem sh) gs (flats_from g (total_numel n pre) n gs)"
  using assms
proof (induction gs arbitrary: pre)
  case (Cons ps gs)
  have "list_all2 (flat_ok n v mem sh) gs (flats_from g (total_numel n (pre @ ps)) n gs)"
    by (rule Cons.IH) (use Cons.prems in auto)
  moreover have "flat_ok n v mem sh ps (g, total_numel n pre, total_numel n ps)"
  proof -
    have len: "length (concat (map v qs)) = total_numel n qs" if "set qs \<subseteq> set (pre @ concat (ps # gs))" for qs
      using that Cons.prems(2) by (induction qs) auto
    have "read_view mem (g, total_numel n pre, total_numel n ps) = concat (map v ps)"
    proof -
      have "length (concat (map v pre)) = total_numel n pre" "length (concat (map v ps)) = total_numel n ps"
        by (rule len, auto)+
      then show ?thesis by (simp add: read_view_def Cons.prems(3) del: length_concat)
    qed
    moreover have "total_numel n pre + total_numel n ps \<le> length (mem ! g)"
      unfolding Cons.prems(3) len [OF order.refl] by simp
    moreover have "map sh ps = map (\<lambda>i. View g (total_numel n pre + total_numel n (take i ps)) (n (ps ! i))) [0..<length ps]"
    proof (rule nth_equalityI)
      fix i assume "i < length (map sh ps)"
      then have i: "i < length ps" by simp
      have all: "(pre @ concat (ps # gs)) ! (length pre + i) = ps ! i" using i by (simp add: nth_append)
      have "sh (ps ! i) = assign_views g 0 n (pre @ concat (ps # gs)) sh0 (ps ! i)"
        using i by (intro Cons.prems(5)) simp
      also have "\<dots> = View g (0 + total_numel n (take (length pre + i) (pre @ concat (ps # gs)))) (n (ps ! i))"
        using assign_views_nth [OF Cons.prems(1), of "length pre + i" g 0 n sh0] i unfolding all by simp
      finally show "map sh ps ! i = map (\<lambda>i. View g (total_numel n pre + total_numel n (take i ps)) (n (ps ! i))) [0..<length ps] ! i"
        using i by simp
    qed simp
    ultimately show ?thesis using Cons.prems(4) by (simp add: flat_ok_def)
  qed
  ultimately show ?case by simp
qed simp

lemma fst_flats_from: "map fst (flats_from g start n gs) = replicate (length gs) g"
  by (induction gs arbitrary: start) simp_all

lemma list_all2_concat_upt:
  "(\<And>i. i < k \<Longrightarrow> list_all2 P (f i) (g i)) \<Longrightarrow> list_all2 P (concat (map f [0..<k])) (concat (map g [0..<k]))"
  by (induction k) (simp_all add: list_all2_appendI)

lemma create_flat_cpu_memory_eq:
  "(\<And>ps. ps \<in> set groups \<Longrightarrow> 0 < total_numel n ps) \<Longrightarrow>
    create_flat_cpu_memory n u groups = map (\<lambda>ps. fresh u (total_numel n ps)) groups"
  unfolding create_flat_cpu_memory_def
  by (induction groups) (simp_all add: Let_def)

lemma moved_flats_ok:
  assumes "all_unmoved n v sh gss"
    and "\<And>i. i < length gss \<Longrightarrow> mem ! i = concat (map v (concat (gss ! i)))" and "length mem = length gss"
  shows "list_all2 (flat_ok n v mem (moved n gss (length gss) sh)) (concat (map ((!) gss) [0..<length gss]))
      (concat (map (\<lambda>i. flats_from i 0 n (gss ! i)) [0..<length gss]))"
proof (rule list_all2_concat_upt)
  fix i assume i: "i < length gss"
  have um: "unmoved n v sh (concat (gss ! i))" using assms(1) i by (simp add: all_unmoved_def)
  have "list_all2 (flat_ok n v mem (moved n gss (length gss) sh)) (gss ! i) (flats_from i (total_numel n []) n (gss ! i))"
  proof (rule flats_ok)
    show "i < length mem" "distinct ([] @ concat (gss ! i))" "mem ! i = concat (map v ([] @ concat (gss ! i)))"
      using um assms(2) [OF i] i assms(3) by (simp_all add: unmoved_def)
    show "length (v p) = n p" if "p \<in> set ([] @ concat (gss ! i))" for p
      using um that unfolding unmoved_def append_Nil by blast
    fix p assume p: "p \<in> set (concat (gss ! i))"
    have "p \<notin> set (concat (gss ! j))" if "j < length gss" "j \<noteq> i" for j
      using assms(1) i that p unfolding all_unmoved_def by blast
    then have "moved n gss (length gss) sh p = assign_views i 0 n (concat (gss ! i)) (moved n gss i sh) p"
      by (intro moved_at i p)
    then show "moved n gss (length gss) sh p = assign_views i 0 n ([] @ concat (gss ! i)) (moved n gss i sh) p" by simp
  qed
  then show "list_all2 (flat_ok n v mem (moved n gss (length gss) sh)) (gss ! i) (flats_from i 0 n (gss ! i))" by simp
qed

text \<open>The groups an optimizer may have: no empty one, no parameter twice, every shard of its own.\<close>

definition groups_ok :: "(nat \<Rightarrow> nat) \<Rightarrow> (nat \<Rightarrow> 'a list) \<Rightarrow> (nat \<Rightarrow> 'a storage) \<Rightarrow> nat list list \<Rightarrow> bool" where
  "groups_ok n v sh groups \<longleftrightarrow> [] \<notin> set groups \<and> distinct (concat groups)
     \<and> list_all (\<lambda>p. 0 < n p \<and> sh p = Own (v p) \<and> length (v p) = n p) (concat groups)"

lemma distinct_concat_nth:
  "distinct (concat xss) \<Longrightarrow> i < length xss \<Longrightarrow> j < length xss \<Longrightarrow> i \<noteq> j \<Longrightarrow> set (xss ! i) \<inter> set (xss ! j) = {}"
proof (induction xss arbitrary: i j)
  case (Cons xs xss)
  have other: "set xs \<inter> set (xss ! k) = {}" if "k < length xss" for k
    using Cons.prems(1) nth_mem [OF that] by auto
  show ?case
  proof (cases i)
    case 0
    then obtain k where "j = Suc k" using Cons.prems(4) by (cases j) auto
    with 0 Cons.prems(3) other [of k] show ?thesis by simp
  next
    case i: (Suc i')
    show ?thesis
    proof (cases j)
      case 0
      with i Cons.prems(2) other [of i'] show ?thesis by (simp add: Int_commute)
    next
      case (Suc j')
      with i Cons show ?thesis by simp
    qed
  qed
qed simp

lemma groups_unmoved:
  assumes "groups_ok n v sh groups"
  shows "all_unmoved n v sh (map (create_fp16_sub_groups n sz) groups)"
    and "i < length groups \<Longrightarrow> concat (create_fp16_sub_groups n sz (groups ! i)) = groups ! i"
    and "ps \<in> set groups \<Longrightarrow> 0 < total_numel n ps"
proof -
  have cat: "concat (create_fp16_sub_groups n sz (groups ! i)) = groups ! i" if "i < length groups" for i
    using assms nth_mem [OF that] by (intro sub_groups_concat) (auto simp: groups_ok_def)
  have mem: "p \<in> set (concat groups)" if "ps \<in> set groups" "p \<in> set ps" for p ps
    unfolding set_concat using that by blast
  have one: "distinct ps" if "ps \<in> set groups" for ps using assms that by (simp add: groups_ok_def distinct_concat_iff)
  show "all_unmoved n v sh (map (create_fp16_sub_groups n sz) groups)"
  proof -
    have "unmoved n v sh (groups ! i)" if "i < length groups" for i
      using assms one [OF nth_mem [OF that]] mem [OF nth_mem [OF that]]
      by (simp add: unmoved_def groups_ok_def list_all_iff del: set_concat)
    moreover have "set (groups ! i) \<inter> set (groups ! j) = {}" if "i < length groups" "j < length groups" "i \<noteq> j" for i j
      using assms that by (intro distinct_concat_nth) (simp_all add: groups_ok_def)
    ultimately show ?thesis by (simp add: all_unmoved_def cat del: set_concat)
  qed
  show "i < length groups \<Longrightarrow> concat (create_fp16_sub_groups n sz (groups ! i)) = groups ! i" by (rule cat)
  assume ps: "ps \<in> set groups"
  then have "ps \<noteq> []" using assms by (auto simp: groups_ok_def)
  then have "hd ps \<in> set (concat groups)" using mem [OF ps] by simp
  then have "0 < n (hd ps)" using assms unfolding groups_ok_def list_all_iff by blast
  then show "0 < total_numel n ps" using \<open>ps \<noteq> []\<close> by (cases ps) simp_all
qed

section \<open>The form a layout keeps\<close>

text \<open>The flat tensors are parts of their buffers, one after the other, and the shards are parts of them.\<close>

definition before :: "nat \<times> nat \<times> nat \<Rightarrow> nat \<times> nat \<times> nat \<Rightarrow> bool" where
  "before a b \<longleftrightarrow> fst a < fst b \<or> fst a = fst b \<and> fst (snd a) + snd (snd a) \<le> fst (snd b)"

definition flat_shape :: "(nat \<Rightarrow> nat) \<Rightarrow> 'a layout \<Rightarrow> nat list \<Rightarrow> nat \<times> nat \<times> nat \<Rightarrow> bool" where
  "flat_shape n s ps flat =
     (case flat of (g, start, len) \<Rightarrow>
        g < length (flat_cpu_memory s) \<and> start + len \<le> length (flat_cpu_memory s ! g) \<and> len = total_numel n ps
        \<and> map (shard_of s) ps = map (\<lambda>i. View g (start + total_numel n (take i ps)) (n (ps ! i))) [0..<length ps])"

definition layout_ok :: "(nat \<Rightarrow> nat) \<Rightarrow> 'a layout \<Rightarrow> bool" where
  "layout_ok n s \<longleftrightarrow> distinct (concat (fp16_groups s)) \<and> sorted_wrt before (fp16_partitioned_groups_flat s)
     \<and> list_all2 (flat_shape n s) (fp16_groups s) (fp16_partitioned_groups_flat s)"

lemma flats_from_mem: "x \<in> set (flats_from g start n gs) \<Longrightarrow> fst x = g \<and> start \<le> fst (snd x)"
proof (induction gs arbitrary: start)
  case (Cons ps gs)
  then consider "x = (g, start, total_numel n ps)" | "x \<in> set (flats_from g (start + total_numel n ps) n gs)" by auto
  then show ?case using Cons.IH [of "start + total_numel n ps"] by cases auto
qed simp

lemma flats_from_sorted: "sorted_wrt before (flats_from g start n gs)"
  by (induction gs arbitrary: start) (auto simp: before_def dest: flats_from_mem)

lemma sorted_wrt_flats: "sorted_wrt before (concat (map (\<lambda>i. flats_from i 0 n (gss ! i)) [0..<k]))"
proof (induction k)
  case (Suc k)
  have "before x y" if "x \<in> set (flats_from i 0 n (gss ! i))" "i < k" "y \<in> set (flats_from k 0 n (gss ! k))" for x y i
    using flats_from_mem [OF that(1)] flats_from_mem [OF that(3)] that(2) by (simp add: before_def)
  then show ?case using Suc by (auto simp: sorted_wrt_append flats_from_sorted)
qed simp

text \<open>The group of every sub-group.\<close>

definition group_ids :: "nat list list list \<Rightarrow> nat list" where
  "group_ids gss = concat (map (\<lambda>i. replicate (length (gss ! i)) i) [0..<length gss])"

lemma create_layout:
  assumes "groups_ok n v sh groups"
  shows "\<exists>s. create_fp16_partitions n padding last_rank False u sz groups (empty_layout sh) = Inr s
    \<and> fp16_groups s = concat (map (create_fp16_sub_groups n sz) groups)
    \<and> sub_group_to_group_id s = group_ids (map (create_fp16_sub_groups n sz) groups)
    \<and> sub_group_to_group_id s = map fst (fp16_partitioned_groups_flat s)
    \<and> fp16_partitioned_groups_flat_numel s = map (total_numel n) (fp16_groups s)
    \<and> sorted_wrt before (fp16_partitioned_groups_flat s) \<and> length (flat_cpu_memory s) = length groups
    \<and> list_all2 (flat_ok n v (flat_cpu_memory s) (shard_of s)) (fp16_groups s) (fp16_partitioned_groups_flat s)"
proof -
  define gss where "gss = map (create_fp16_sub_groups n sz) groups"
  note ok = groups_unmoved [OF assms]
  have len: "length gss = length groups" by (simp add: gss_def)
  have cat: "concat (gss ! i) = groups ! i" if "i < length groups" for i using that ok(2) by (simp add: gss_def)
  have um: "all_unmoved n v sh gss" unfolding gss_def by (rule ok(1))
  define s1 where "s1 = record_groups n padding last_rank gss (empty_layout sh)"
  define s2 where "s2 = s1\<lparr>flat_cpu_memory := flat_cpu_memory s1 @ create_flat_cpu_memory n u groups\<rparr>"
  have mem: "flat_cpu_memory s2 = map (\<lambda>ps. fresh u (total_numel n ps)) groups" and sh: "shard_of s2 = sh"
    and grp: "fp16_groups s2 = concat gss" and flat: "fp16_partitioned_groups_flat s2 = []"
    and ids: "sub_group_to_group_id s2 = concat (map (\<lambda>i. replicate (length (gss ! i)) i) [0..<length gss])"
    and num: "fp16_partitioned_groups_flat_numel s2 = map (total_numel n) (concat gss)"
    by (simp_all add: s2_def s1_def record_groups_def record_groups_eq empty_layout_def create_flat_cpu_memory_eq ok(3) map_nth)
  let ?s = "s2\<lparr>flat_cpu_memory := map (\<lambda>i. concat (map v (concat (gss ! i)))) [0..<length gss] @ drop (length gss) (flat_cpu_memory s2),
          fp16_partitioned_groups_flat := fp16_partitioned_groups_flat s2 @ concat (map (\<lambda>i. flats_from i 0 n (gss ! i)) [0..<length gss]),
          shard_of := moved n gss (length gss) (shard_of s2)\<rparr>"
  have "foldE (place_group n False gss) [0..<length gss] s2 = Inr ?s"
    by (rule place_groups [OF _ _ _ order.refl]) (simp_all add: sh um mem len cat)
  then have eq: "create_fp16_partitions n padding last_rank False u sz groups (empty_layout sh) = Inr ?s"
    by (simp add: create_fp16_partitions_def Let_def gss_def [symmetric] s1_def [symmetric] s2_def [symmetric] len)
  have "list_all2 (flat_ok n v (flat_cpu_memory ?s) (shard_of ?s)) (concat (map ((!) gss) [0..<length gss]))
      (concat (map (\<lambda>i. flats_from i 0 n (gss ! i)) [0..<length gss]))"
    using moved_flats_ok [OF um, of "flat_cpu_memory ?s"] by (simp add: sh nth_append mem len)
  moreover have "map fst (concat (map (\<lambda>i. flats_from i 0 n (gss ! i)) [0..<length gss]))
      = concat (map (\<lambda>i. replicate (length (gss ! i)) i) [0..<length gss])"
    by (simp add: map_concat o_def fst_flats_from)
  ultimately show ?thesis
    by (intro exI [of _ ?s]) (simp add: eq grp flat ids num map_nth [of gss, unfolded len] gss_def [symmetric] sorted_wrt_flats mem len group_ids_def)
qed

lemma create_layout_ok:
  assumes "groups_ok n v sh groups"
  shows "\<exists>s. create_fp16_partitions n padding last_rank False u sz groups (empty_layout sh) = Inr s \<and> layout_ok n s
    \<and> sub_group_to_group_id s = map fst (fp16_partitioned_groups_flat s)
    \<and> fp16_partitioned_groups_flat_numel s = map (total_numel n) (fp16_groups s)
    \<and> (\<forall>g \<in> set (sub_group_to_group_id s). g < length groups)
    \<and> map (read_view (flat_cpu_memory s)) (fp16_partitioned_groups_flat s) = map (\<lambda>ps. concat (map v ps)) (fp16_groups s)"
proof -
  obtain s where s: "create_fp16_partitions n padding last_rank False u sz groups (empty_layout sh) = Inr s"
      "fp16_groups s = concat (map (create_fp16_sub_groups n sz) groups)"
      "sub_group_to_group_id s = map fst (fp16_partitioned_groups_flat s)"
      "fp16_partitioned_groups_flat_numel s = map (total_numel n) (fp16_groups s)"
      "list_all2 (flat_ok n v (flat_cpu_memory s) (shard_of s)) (fp16_groups s) (fp16_partitioned_groups_flat s)"
      "sorted_wrt before (fp16_partitioned_groups_flat s)" "length (flat_cpu_memory s) = length groups"
    using create_layout [OF assms] by blast
  have "map (\<lambda>ps. concat (create_fp16_sub_groups n sz ps)) groups = groups"
    using groups_unmoved(2) [OF assms] by (intro nth_equalityI) simp_all
  then have "distinct (concat (fp16_groups s))" using assms by (simp add: s(2) concat_concat_map groups_ok_def)
  moreover have "list_all2 (flat_shape n s) (fp16_groups s) (fp16_partitioned_groups_flat s)"
    using s(5) by (rule list_all2_mono) (auto simp: flat_ok_def flat_shape_def)
  moreover have "list_all2 (\<lambda>ps flat. read_view (flat_cpu_memory s) flat = concat (map v ps) \<and> fst flat < length groups)
      (fp16_groups s) (fp16_partitioned_groups_flat s)"
    using s(5) by (rule list_all2_mono) (auto simp: flat_ok_def s(7))
  then have "map (read_view (flat_cpu_memory s)) (fp16_partitioned_groups_flat s) = map (\<lambda>ps. concat (map v ps)) (fp16_groups s)"
      "\<forall>flat \<in> set (fp16_partitioned_groups_flat s). fst flat < length groups"
    by (induction rule: list_all2_induct) simp_all
  ultimately show ?thesis using s(1,3,4,6) unfolding layout_ok_def by auto
qed

section \<open>Gradient positions match the layout\<close>

lemma set_grad_position_simp [simp]:
  "set_grad_position n i p (start, pos) = (start + n p, pos(p \<mapsto> (i, start, n p)))"
  by (simp add: set_grad_position_def)

lemma fst_set_grad_group: "fst (fold (set_grad_position n i) ps (start, pos)) = start + total_numel n ps"
  by (induction ps arbitrary: start pos) simp_all

lemma set_grad_group_other: "p \<notin> set ps \<Longrightarrow> snd (fold (set_grad_position n i) ps (start, pos)) p = pos p"
  by (induction ps arbitrary: start pos) simp_all

lemma set_grad_group_nth:
  "distinct ps \<Longrightarrow> j < length ps \<Longrightarrow>
    snd (fold (set_grad_position n i) ps (start, pos)) (ps ! j) = Some (i, start + total_numel n (take j ps), n (ps ! j))"
proof (induction ps arbitrary: start pos j)
  case (Cons p ps)
  then show ?case
    by (cases j) (simp_all add: set_grad_group_other add.assoc)
qed simp

lemma set_grad_positions_upto:
  assumes "distinct (concat gs)" and "k < m" and "m \<le> length gs" and "j < length (gs ! k)"
  shows "fold (\<lambda>i pos. snd (fold (set_grad_position n i) (gs ! i) (0, pos))) [0..<m] (\<lambda>_. None) (gs ! k ! j)
    = Some (k, total_numel n (take j (gs ! k)), n (gs ! k ! j))"
  using assms(2,3)
proof (induction m)
  case (Suc m)
  show ?case
  proof (cases "k = m")
    case True
    have "distinct (gs ! m)" using assms(1) Suc.prems by (simp add: distinct_concat_iff)
    then show ?thesis using set_grad_group_nth [of "gs ! m" j n m 0] assms(4) True by simp
  next
    case False
    have "gs ! k ! j \<notin> set (gs ! m)"
      using distinct_concat_nth [OF assms(1), of k m] nth_mem [OF assms(4)] Suc.prems False by auto
    then show ?thesis using Suc False by (simp add: set_grad_group_other)
  qed
qed simp

lemma set_grad_positions_nth:
  "distinct (concat gs) \<Longrightarrow> k < length gs \<Longrightarrow> j < length (gs ! k) \<Longrightarrow>
    set_grad_positions n gs (gs ! k ! j) = Some (k, total_numel n (take j (gs ! k)), n (gs ! k ! j))"
  unfolding set_grad_positions_def by (rule set_grad_positions_upto) simp_all

lemma grad_offsets_other: "p \<notin> set ps \<Longrightarrow> grad_offsets n start ps m p = m p"
  by (induction ps arbitrary: start m) simp_all

lemma grad_offsets_nth:
  "distinct ps \<Longrightarrow> j < length ps \<Longrightarrow> grad_offsets n start ps m (ps ! j) = Some (start + total_numel n (take j ps))"
proof (induction ps arbitrary: start m j)
  case (Cons p ps)
  then show ?case by (cases j) (simp_all add: grad_offsets_other add.assoc)
qed simp

lemma slice_concat:
  assumes "j < length ps" and "\<And>p. p \<in> set ps \<Longrightarrow> length (v p) = n p"
  shows "take (n (ps ! j)) (drop (total_numel n (take j ps)) (concat (map v ps))) = v (ps ! j)"
  using assms
proof (induction ps arbitrary: j)
  case (Cons p ps)
  then show ?case by (cases j) simp_all
qed simp

lemma total_numel_take: "j < length ps \<Longrightarrow> total_numel n (take j ps) + n (ps ! j) \<le> total_numel n ps"
proof (induction ps arbitrary: j)
  case (Cons p ps)
  then show ?case by (cases j) simp_all
qed simp

lemma flat_ok_shard:
  assumes "flat_ok n v (flat_cpu_memory s) (shard_of s) ps (g, start, l)" and "j < length ps"
    and "\<And>p. p \<in> set ps \<Longrightarrow> length (v p) = n p"
  shows "shard_of s (ps ! j) = View g (start + total_numel n (take j ps)) (n (ps ! j))"
    and "read_shard s (ps ! j) = v (ps ! j)"
proof -
  have "map (shard_of s) ps ! j = map (\<lambda>i. View g (start + total_numel n (take i ps)) (n (ps ! i))) [0..<length ps] ! j"
    using assms(1) by (simp add: flat_ok_def)
  then show sh: "shard_of s (ps ! j) = View g (start + total_numel n (take j ps)) (n (ps ! j))"
    using assms(2) by simp
  let ?buf = "flat_cpu_memory s ! g" and ?o = "total_numel n (take j ps)"
  have view: "take l (drop start ?buf) = concat (map v ps)" and l: "l = total_numel n ps"
    using assms(1) unfolding flat_ok_def read_view_def prod.case by blast+
  have "take (n (ps ! j)) (drop (start + ?o) ?buf) = take (n (ps ! j)) (drop ?o (take l (drop start ?buf)))"
    using total_numel_take [OF assms(2), of n] by (simp add: l drop_take add.commute)
  also have "\<dots> = v (ps ! j)" unfolding view by (rule slice_concat) (use assms in auto)
  finally show "read_shard s (ps ! j) = v (ps ! j)" by (simp add: read_shard_def sh read_view_def)
qed

text \<open>
  C14: the layout keeps every shard, and the gradients have their places in it. The constructor
  does not fail; the sub-groups are the groups cut into parts; the flat tensor of a sub-group lies
  in the buffer of its group and reads as the shards of its parameters one after the other, as
  they were before they were moved; and every shard is the view of its buffer at the place
  \<^verbatim>\<open>grad_position\<close> gives for its gradient, counted from the start of the flat tensor.
\<close>

theorem flat_layout_keeps_shards:
  assumes "groups_ok n v sh groups"
  shows "\<exists>s. create_fp16_partitions n padding last_rank False u sz groups (empty_layout sh) = Inr s
    \<and> concat (fp16_groups s) = concat groups \<and> layout_ok n s
    \<and> sub_group_to_group_id s = map fst (fp16_partitioned_groups_flat s)
    \<and> list_all2 (\<lambda>ps flat. read_view (flat_cpu_memory s) flat = concat (map v ps)
        \<and> list_all (\<lambda>p. read_shard s p = v p
            \<and> (case set_grad_positions n (fp16_groups s) p of None \<Rightarrow> False
               | Some (k, offset, len) \<Rightarrow> fp16_partitioned_groups_flat s ! k = flat
                   \<and> shard_of s p = View (fst flat) (fst (snd flat) + offset) len)) ps)
      (fp16_groups s) (fp16_partitioned_groups_flat s)"
proof -
  obtain s where s: "create_fp16_partitions n padding last_rank False u sz groups (empty_layout sh) = Inr s"
      "fp16_groups s = concat (map (create_fp16_sub_groups n sz) groups)"
      "sub_group_to_group_id s = map fst (fp16_partitioned_groups_flat s)"
      "list_all2 (flat_ok n v (flat_cpu_memory s) (shard_of s)) (fp16_groups s) (fp16_partitioned_groups_flat s)"
      "sorted_wrt before (fp16_partitioned_groups_flat s)"
    using create_layout [OF assms] by blast
  have cat: "concat (fp16_groups s) = concat groups"
  proof -
    have "map (\<lambda>ps. concat (create_fp16_sub_groups n sz ps)) groups = groups"
      using groups_unmoved(2) [OF assms] by (intro nth_equalityI) simp_all
    then show ?thesis by (simp add: s(2) concat_concat_map)
  qed
  have len: "length (v p) = n p" if "p \<in> set (concat groups)" for p
    using assms that unfolding groups_ok_def list_all_iff by blast
  have dist: "distinct (concat (fp16_groups s))" using assms by (simp add: cat groups_ok_def)
  let ?P = "\<lambda>ps flat. read_view (flat_cpu_memory s) flat = concat (map v ps)
        \<and> list_all (\<lambda>p. read_shard s p = v p
            \<and> (case set_grad_positions n (fp16_groups s) p of None \<Rightarrow> False
               | Some (k, offset, len) \<Rightarrow> fp16_partitioned_groups_flat s ! k = flat
                   \<and> shard_of s p = View (fst flat) (fst (snd flat) + offset) len)) ps"
  have "?P (fp16_groups s ! k) (fp16_partitioned_groups_flat s ! k)" if k: "k < length (fp16_groups s)" for k
  proof -
    let ?ps = "fp16_groups s ! k"
    obtain g start l where flat: "fp16_partitioned_groups_flat s ! k = (g, start, l)" by (metis prod_cases3)
    then have ok: "flat_ok n v (flat_cpu_memory s) (shard_of s) ?ps (g, start, l)"
      using list_all2_nthD [OF s(4) k] by simp
    have lens: "length (v p) = n p" if "p \<in> set ?ps" for p
      using that nth_mem [OF k] len cat by (metis UN_I set_concat)
    have "read_shard s (?ps ! j) = v (?ps ! j) \<and> shard_of s (?ps ! j) = View g (start + total_numel n (take j ?ps)) (n (?ps ! j))
        \<and> set_grad_positions n (fp16_groups s) (?ps ! j) = Some (k, total_numel n (take j ?ps), n (?ps ! j))"
      if "j < length ?ps" for j
      using flat_ok_shard [OF ok that lens] set_grad_positions_nth [OF dist k that] by blast
    then have "list_all (\<lambda>p. read_shard s p = v p
        \<and> (case set_grad_positions n (fp16_groups s) p of None \<Rightarrow> False
           | Some (k', offset, len) \<Rightarrow> fp16_partitioned_groups_flat s ! k' = (g, start, l)
               \<and> shard_of s p = View g (start + offset) len)) ?ps"
      unfolding list_all_length by (simp add: flat)
    moreover have "read_view (flat_cpu_memory s) (g, start, l) = concat (map v ?ps)"
      using ok unfolding flat_ok_def prod.case by blast
    ultimately show ?thesis unfolding flat fst_conv snd_conv by blast
  qed
  then have "list_all2 ?P (fp16_groups s) (fp16_partitioned_groups_flat s)"
    using list_all2_lengthD [OF s(4)] by (simp add: list_all2_conv_all_nth)
  moreover have "list_all2 (flat_shape n s) (fp16_groups s) (fp16_partitioned_groups_flat s)"
    using s(4) by (rule list_all2_mono) (auto simp: flat_ok_def flat_shape_def)
  ultimately show ?thesis using s(1,3,5) cat dist unfolding layout_ok_def by blast
qed

definition demo_size :: "nat \<Rightarrow> nat" where
  "demo_size p = p + 1"

definition demo_value :: "nat \<Rightarrow> nat list" where
  "demo_value p = replicate (p + 1) p"

theorem flat_layout_keeps_shards_witness:
  "groups_ok demo_size demo_value (\<lambda>p. Own (demo_value p)) [[0, 1, 2], [3, 4]]
   \<and> (\<exists>s. create_fp16_partitions demo_size (\<lambda>_. 1) True False (\<lambda>_. 9) (Some 3) [[0, 1, 2], [3, 4]]
            (empty_layout (\<lambda>p. Own (demo_value p))) = Inr s
        \<and> concat (fp16_groups s) = [0, 1, 2, 3, 4])"
proof -
  have ok: "groups_ok demo_size demo_value (\<lambda>p. Own (demo_value p)) [[0, 1, 2], [3, 4]]"
    by (simp add: groups_ok_def demo_size_def demo_value_def)
  show ?thesis
    using ok flat_layout_keeps_shards [OF ok, of "\<lambda>_. 1" True "\<lambda>_. 9" "Some 3"] by auto
qed

end
