(* ===== verification/Optimizer.thy ===== *)
theory Optimizer
  imports FlatLayout
begin

text \<open>
  The optimizer step of \<^verbatim>\<open>src/smartnic_offload/zero_optimizer.py\<close>: the 32-bit master copies of the
  flat tensors, the two sets of gradient buffers, the step that updates one sub-group at a time
  and copies the result back into the 16-bit shards, and the worker that makes the same update in
  a process of its own.

  The Adam kernel and the conversions between number formats are arguments: \<open>adam g k st w d\<close> is
  the new state and the new weights of tensor \<open>k\<close>, treated with the settings of group \<open>g\<close>, for
  the weights \<open>w\<close> and the gradient \<open>d\<close>; \<open>cvt dt x\<close> is \<open>x\<close> in format \<open>dt\<close>. That \<open>adam\<close> keeps the
  number of weights is the only law used.
\<close>

section \<open>State\<close>

record ('a, 'st) oenv =
  cvt :: "dtype \<Rightarrow> 'a \<Rightarrow> 'a"
  model_dtype :: dtype
  zero_elem :: 'a
  adam :: "nat \<Rightarrow> nat \<Rightarrow> 'st \<Rightarrow> 'a list \<Rightarrow> 'a list \<Rightarrow> 'st \<times> 'a list"

text \<open>
  \<open>opt_params\<close> holds, per group of the optimizer, the numbers of the tensors in it, \<open>grad_of\<close> the
  set of gradient buffers a master tensor's gradient is in.
\<close>

record ('a, 'st) zopt =
  lay :: "'a layout"
  fp32_partitioned_groups_flat :: "'a list list"
  fp32_grad_bufs :: "nat \<Rightarrow> 'a list list"
  grad_of :: "nat \<Rightarrow> nat option"
  opt_params :: "nat list list"
  opt_state :: 'st

section \<open>Operations\<close>

definition create_fp32_partitions :: "('a, 'st) oenv \<Rightarrow> ('a, 'st) zopt \<Rightarrow> ('a, 'st) zopt" where
  "create_fp32_partitions env s =
     s\<lparr>fp32_partitioned_groups_flat := fp32_partitioned_groups_flat s
         @ map (\<lambda>flat. map (cvt env Float32) (read_view (flat_cpu_memory (lay s)) flat)) (fp16_partitioned_groups_flat (lay s)),
       opt_params := map (\<lambda>_. []) (opt_params s)\<rparr>"

text \<open>\<^verbatim>\<open>optimizer.step()\<close> of the library: every tensor of every group that has a gradient.\<close>

definition adam_update :: "('a, 'st) oenv \<Rightarrow> nat \<Rightarrow> nat \<Rightarrow> ('a, 'st) zopt \<Rightarrow> ('a, 'st) zopt" where
  "adam_update env g k s =
     (case grad_of s k of
        None \<Rightarrow> s
      | Some b \<Rightarrow>
          (case adam env g k (opt_state s) (fp32_partitioned_groups_flat s ! k) (fp32_grad_bufs s b ! k) of
             (st, w) \<Rightarrow> s\<lparr>fp32_partitioned_groups_flat := (fp32_partitioned_groups_flat s)[k := w], opt_state := st\<rparr>))"

definition library_step :: "('a, 'st) oenv \<Rightarrow> ('a, 'st) zopt \<Rightarrow> ('a, 'st) zopt" where
  "library_step env s = fold (\<lambda>g. fold (adam_update env g) (opt_params s ! g)) [0..<length (opt_params s)] s"

definition optimizer_step :: "('a, 'st) oenv \<Rightarrow> nat \<Rightarrow> ('a, 'st) zopt \<Rightarrow> ('a, 'st) zopt" where
  "optimizer_step env sub_group_id s =
     (let param_group_id = sub_group_to_group_id (lay s) ! sub_group_id;
          s1 = library_step env (s\<lparr>opt_params := (opt_params s)[param_group_id := [sub_group_id]]\<rparr>)
      in s1\<lparr>opt_params := (opt_params s1)[param_group_id := []]\<rparr>)"

definition initialize_one :: "('a, 'st) oenv \<Rightarrow> nat \<Rightarrow> ('a, 'st) zopt \<Rightarrow> ('a, 'st) zopt" where
  "initialize_one env i s =
     (let buf = replicate (fp16_partitioned_groups_flat_numel (lay s) ! i) (zero_elem env) in
      optimizer_step env i
        (s\<lparr>fp32_grad_bufs := (fp32_grad_bufs s)(0 := fp32_grad_bufs s 0 @ [buf], 1 := fp32_grad_bufs s 1 @ [buf]),
           grad_of := (grad_of s)(i \<mapsto> 0)\<rparr>))"

definition initialize_optimizer_states :: "('a, 'st) oenv \<Rightarrow> ('a, 'st) zopt \<Rightarrow> ('a, 'st) zopt" where
  "initialize_optimizer_states env s = fold (initialize_one env) [0..<length (fp16_groups (lay s))] s"

text \<open>
  \<^verbatim>\<open>_unflatten_partitioned_parameters\<close>: the flat tensor cut by the sizes of the shards, each part
  becoming the data of its shard.
\<close>

fun unflatten :: "nat \<times> nat \<times> nat \<Rightarrow> nat \<Rightarrow> nat list \<Rightarrow> 'a storage list result" where
  "unflatten flat offset [] = Inr []"
| "unflatten flat offset (sz # sizes) =
     (case flat of (g, start, len) \<Rightarrow>
        if offset + sz \<le> len
        then ebind (unflatten flat (offset + sz) sizes) (\<lambda>vs. Inr (View g (start + offset) sz # vs))
        else Inl (RuntimeError ''narrow''))"

definition assign_shards :: "nat list \<Rightarrow> 'a storage list \<Rightarrow> (nat \<Rightarrow> 'a storage) \<Rightarrow> nat \<Rightarrow> 'a storage" where
  "assign_shards ps vs sh = fold (\<lambda>(p, v) sh. sh(p := v)) (zip ps vs) sh"

definition unflatten_partitioned_parameters :: "nat \<Rightarrow> 'a layout \<Rightarrow> 'a layout result" where
  "unflatten_partitioned_parameters i s =
     (let ps = fp16_groups s ! i in
      ebind (unflatten (fp16_partitioned_groups_flat s ! i) 0 (map (\<lambda>p. length (read_shard s p)) ps)) (\<lambda>vs.
        Inr (s\<lparr>shard_of := assign_shards ps vs (shard_of s)\<rparr>)))"

definition reassign_partitioned_parameters :: "('a, 'st) oenv \<Rightarrow> nat \<Rightarrow> ('a, 'st) zopt \<Rightarrow> ('a, 'st) zopt result" where
  "reassign_partitioned_parameters env i s =
     ebind (write_view (fp16_partitioned_groups_flat (lay s) ! i)
              (map (cvt env (model_dtype env)) (fp32_partitioned_groups_flat s ! i)) (lay s)) (\<lambda>l.
     ebind (unflatten_partitioned_parameters i l) (\<lambda>l1. Inr (s\<lparr>lay := l1\<rparr>)))"

text \<open>The loop over the sub-groups in \<^verbatim>\<open>step\<close>.\<close>

definition step_sub_group :: "('a, 'st) oenv \<Rightarrow> nat \<Rightarrow> ('a, 'st) zopt \<Rightarrow> ('a, 'st) zopt result" where
  "step_sub_group env i s = reassign_partitioned_parameters env i (optimizer_step env i s)"

definition step_loop :: "('a, 'st) oenv \<Rightarrow> ('a, 'st) zopt \<Rightarrow> ('a, 'st) zopt result" where
  "step_loop env s = foldE (step_sub_group env) [0..<length (fp16_groups (lay s))] s"

text \<open>\<^verbatim>\<open>update_new_params\<close> without the waiting: every sub-group is copied back.\<close>

definition reassign_all :: "('a, 'st) oenv \<Rightarrow> ('a, 'st) zopt \<Rightarrow> ('a, 'st) zopt result" where
  "reassign_all env s = foldE (reassign_partitioned_parameters env) [0..<length (fp16_groups (lay s))] s"

text \<open>One round of the loop in \<^verbatim>\<open>_adam_worker\<close>, for the gradients in set \<open>b\<close>.\<close>

definition worker_update :: "('a, 'st) oenv \<Rightarrow> nat \<Rightarrow> nat \<Rightarrow> ('a, 'st) zopt \<Rightarrow> ('a, 'st) zopt" where
  "worker_update env b i s =
     (let s1 = optimizer_step env i (s\<lparr>grad_of := (grad_of s)(i \<mapsto> b)\<rparr>)
      in s1\<lparr>grad_of := (grad_of s1)(i := None)\<rparr>)"

section \<open>One sub-group\<close>

text \<open>With the groups of the optimizer empty, only the tensor put into its group is updated.\<close>

lemma fold_one_group:
  assumes "gid < m" and "\<And>g. g \<noteq> gid \<Longrightarrow> g < m \<Longrightarrow> ps g = []"
  shows "fold (\<lambda>g. fold (f g) (ps g)) [0..<m] s = fold (f gid) (ps gid) s"
proof -
  have none: "fold (\<lambda>g. fold (f g) (ps g)) xs s = s" if "\<forall>g \<in> set xs. ps g = []" for xs s
    using that by (induction xs) simp_all
  have "[0..<m] = [0..<gid] @ gid # [Suc gid..<m]"
    using assms(1) upt_add_eq_append [of 0 gid "m - gid"] by (simp add: upt_conv_Cons)
  then show ?thesis using assms(2) none [of "[0..<gid]"] none [of "[Suc gid..<m]"] assms(1) by simp
qed

definition opt_ok :: "('a, 'st) zopt \<Rightarrow> bool" where
  "opt_ok s \<longleftrightarrow> (\<forall>ps \<in> set (opt_params s). ps = [])
     \<and> length (sub_group_to_group_id (lay s)) = length (fp16_groups (lay s))
     \<and> (\<forall>g \<in> set (sub_group_to_group_id (lay s)). g < length (opt_params s))"

lemma optimizer_step_eq:
  assumes "opt_ok s" and "k < length (fp16_groups (lay s))"
  shows "optimizer_step env k s = adam_update env (sub_group_to_group_id (lay s) ! k) k s"
proof -
  let ?g = "sub_group_to_group_id (lay s) ! k" and ?ps = "(opt_params s)[sub_group_to_group_id (lay s) ! k := [k]]"
  have g: "?g < length (opt_params s)" using assms by (simp add: opt_ok_def)
  have empty: "opt_params s ! i = []" if "i < length (opt_params s)" for i
    using assms(1) that by (simp add: opt_ok_def)
  have restore: "(?ps)[?g := []] = opt_params s" using g empty by (simp add: list_update_same_conv)
  let ?s = "s\<lparr>opt_params := ?ps\<rparr>"
  have "fold (\<lambda>g. fold (adam_update env g) (?ps ! g)) [0..<length (opt_params s)] ?s = fold (adam_update env ?g) (?ps ! ?g) ?s"
    by (rule fold_one_group [OF g]) (simp add: empty)
  then have "library_step env ?s = adam_update env ?g k ?s" using g by (simp add: library_step_def)
  moreover have "(adam_update env ?g k ?s)\<lparr>opt_params := (opt_params (adam_update env ?g k ?s))[?g := []]\<rparr> = adam_update env ?g k s"
    by (cases s) (use restore in \<open>auto simp: adam_update_def split: option.splits prod.splits\<close>)
  ultimately show ?thesis by (simp add: optimizer_step_def Let_def)
qed

lemma adam_update_fields [simp]:
  "lay (adam_update env g k s) = lay s" "opt_params (adam_update env g k s) = opt_params s"
  "fp32_grad_bufs (adam_update env g k s) = fp32_grad_bufs s" "grad_of (adam_update env g k s) = grad_of s"
  by (simp_all add: adam_update_def split: option.splits prod.splits)

lemma opt_ok_cong: "lay s = lay t \<Longrightarrow> opt_params s = opt_params t \<Longrightarrow> opt_ok s = opt_ok t"
  by (simp add: opt_ok_def)

section \<open>Writing a flat tensor\<close>

lemma read_write_view:
  assumes "g < length mem" and "start + len \<le> length (mem ! g)" and "length x = len"
  shows "read_view (mem[g := take start (mem ! g) @ x @ drop (start + len) (mem ! g)]) (g, start, len) = x"
  using assms by (simp add: read_view_def)

lemma read_write_other:
  assumes "g < length mem" and "start + len \<le> length (mem ! g)" and "length x = len"
    and "before (g, start, len) v \<or> before v (g, start, len)"
  shows "read_view (mem[g := take start (mem ! g) @ x @ drop (start + len) (mem ! g)]) v = read_view mem v"
proof -
  obtain g' start' len' where v: "v = (g', start', len')" by (cases v)
  show ?thesis
  proof (cases "g = g'")
    case False
    then show ?thesis by (simp add: read_view_def v)
  next
    case True
    then have apart: "start + len \<le> start' \<or> start' + len' \<le> start" using assms(4) by (auto simp: before_def v)
    define buf where "buf = take start (mem ! g) @ x @ drop (start + len) (mem ! g)"
    have "take len' (drop start' buf) = take len' (drop start' (mem ! g))"
      using apart
    proof
      assume "start + len \<le> start'"
      then have "drop start' buf = drop start' (mem ! g)" using assms(2,3) by (simp add: buf_def)
      then show ?thesis by simp
    next
      assume "start' + len' \<le> start"
      then show ?thesis using assms(2,3) by (simp add: buf_def drop_take)
    qed
    then show ?thesis unfolding buf_def [symmetric] using True assms(1) by (simp add: read_view_def v)
  qed
qed

lemma layout_shape:
  assumes "layout_ok n s" and "k < length (fp16_groups s)"
  shows "flat_shape n s (fp16_groups s ! k) (fp16_partitioned_groups_flat s ! k)"
    and "length (fp16_partitioned_groups_flat s) = length (fp16_groups s)"
  using assms list_all2_nthD [of "flat_shape n s" "fp16_groups s"] list_all2_lengthD [of "flat_shape n s" "fp16_groups s"]
  by (auto simp: layout_ok_def)

lemma layout_disjoint:
  assumes "layout_ok n s" and "k < length (fp16_groups s)" and "j < length (fp16_groups s)" and "j \<noteq> k"
  shows "before (fp16_partitioned_groups_flat s ! k) (fp16_partitioned_groups_flat s ! j)
    \<or> before (fp16_partitioned_groups_flat s ! j) (fp16_partitioned_groups_flat s ! k)"
proof -
  have "sorted_wrt before (fp16_partitioned_groups_flat s)" using assms(1) by (simp add: layout_ok_def)
  moreover have "length (fp16_partitioned_groups_flat s) = length (fp16_groups s)" by (rule layout_shape(2) [OF assms(1,2)])
  ultimately show ?thesis using assms(2-4) sorted_wrt_nth_less [of before] by (metis linorder_neqE_nat)
qed

definition flat_values :: "'a layout \<Rightarrow> 'a list list" where
  "flat_values s = map (read_view (flat_cpu_memory s)) (fp16_partitioned_groups_flat s)"

lemma write_flat:
  assumes "layout_ok n s" and "k < length (fp16_groups s)" and "length x = total_numel n (fp16_groups s ! k)"
  shows "\<exists>mem. write_view (fp16_partitioned_groups_flat s ! k) x s = Inr (s\<lparr>flat_cpu_memory := mem\<rparr>)
    \<and> layout_ok n (s\<lparr>flat_cpu_memory := mem\<rparr>) \<and> flat_values (s\<lparr>flat_cpu_memory := mem\<rparr>) = (flat_values s)[k := x]"
proof -
  obtain g start len where flat: "fp16_partitioned_groups_flat s ! k = (g, start, len)" by (metis prod_cases3)
  let ?mem = "flat_cpu_memory s"
  define mem where "mem = ?mem[g := take start (?mem ! g) @ x @ drop (start + len) (?mem ! g)]"
  have shape: "g < length ?mem" "start + len \<le> length (?mem ! g)" "length x = len"
    using layout_shape(1) [OF assms(1,2)] assms(3) unfolding flat flat_shape_def by auto
  note len = layout_shape(2) [OF assms(1,2)]
  have lens: "length mem = length ?mem" "length (mem ! i) = length (?mem ! i)" for i
    using shape by (cases "i = g"; simp add: mem_def)+
  have "write_view (fp16_partitioned_groups_flat s ! k) x s = Inr (s\<lparr>flat_cpu_memory := mem\<rparr>)"
    using shape by (simp add: flat write_view_def copy_into_ok mem_def)
  moreover have "layout_ok n (s\<lparr>flat_cpu_memory := mem\<rparr>)"
    using assms(1) by (simp add: layout_ok_def flat_shape_def [abs_def] lens)
  moreover have "flat_values (s\<lparr>flat_cpu_memory := mem\<rparr>) = (flat_values s)[k := x]"
  proof (rule nth_equalityI)
    fix j assume "j < length (flat_values (s\<lparr>flat_cpu_memory := mem\<rparr>))"
    then have j: "j < length (fp16_groups s)" by (simp add: flat_values_def len)
    show "flat_values (s\<lparr>flat_cpu_memory := mem\<rparr>) ! j = (flat_values s)[k := x] ! j"
    proof (cases "j = k")
      case True
      then show ?thesis using j len flat read_write_view [OF shape] by (simp add: flat_values_def mem_def)
    next
      case False
      then have "read_view mem (fp16_partitioned_groups_flat s ! j) = read_view ?mem (fp16_partitioned_groups_flat s ! j)"
        unfolding mem_def using layout_disjoint [OF assms(1,2) j] unfolding flat by (intro read_write_other shape) auto
      then show ?thesis using j len False by (simp add: flat_values_def)
    qed
  qed (simp add: flat_values_def)
  ultimately show ?thesis by blast
qed

section \<open>Copying a sub-group back\<close>

lemma unflatten_eq:
  "offset + total_numel n ps \<le> len \<Longrightarrow>
    (unflatten (g, start, len) offset (map n ps) :: 'a storage list result)
      = Inr (map (\<lambda>i. View g (start + offset + total_numel n (take i ps)) (n (ps ! i))) [0..<length ps])"
proof (induction ps arbitrary: offset)
  case (Cons p ps)
  have "(unflatten (g, start, len) (offset + n p) (map n ps) :: 'a storage list result)
      = Inr (map (\<lambda>i. View g (start + (offset + n p) + total_numel n (take i ps)) (n (ps ! i))) [0..<length ps])"
    by (rule Cons.IH) (use Cons.prems in simp)
  then show ?case using Cons.prems
    by (simp add: upt_conv_Cons map_Suc_upt [symmetric] o_def add.assoc del: upt_Suc)
qed simp

lemma assign_shards_same: "assign_shards ps (map sh ps) sh = sh"
  by (induction ps) (simp_all add: assign_shards_def)

lemma length_read_shard:
  assumes "layout_ok n s" and "k < length (fp16_groups s)" and "j < length (fp16_groups s ! k)"
  shows "length (read_shard s (fp16_groups s ! k ! j)) = n (fp16_groups s ! k ! j)"
    and "read_shard s (fp16_groups s ! k ! j)
      = take (n (fp16_groups s ! k ! j)) (drop (total_numel n (take j (fp16_groups s ! k))) (flat_values s ! k))"
proof -
  let ?ps = "fp16_groups s ! k" and ?o = "total_numel n (take j (fp16_groups s ! k))"
  obtain g start len where flat: "fp16_partitioned_groups_flat s ! k = (g, start, len)" by (metis prod_cases3)
  have shape: "g < length (flat_cpu_memory s)" "start + len \<le> length (flat_cpu_memory s ! g)" "len = total_numel n ?ps"
      "map (shard_of s) ?ps = map (\<lambda>i. View g (start + total_numel n (take i ?ps)) (n (?ps ! i))) [0..<length ?ps]"
    using layout_shape(1) [OF assms(1,2)] unfolding flat flat_shape_def by auto
  have "shard_of s (?ps ! j) = View g (start + ?o) (n (?ps ! j))"
    using arg_cong [OF shape(4), of "\<lambda>xs. xs ! j"] assms(3) by simp
  then have read: "read_shard s (?ps ! j) = take (n (?ps ! j)) (drop (start + ?o) (flat_cpu_memory s ! g))"
    by (simp add: read_shard_def read_view_def)
  have fit: "?o + n (?ps ! j) \<le> len" unfolding shape(3) by (rule total_numel_take [OF assms(3)])
  then show "length (read_shard s (?ps ! j)) = n (?ps ! j)" using shape(2) by (simp add: read)
  have "flat_values s ! k = take len (drop start (flat_cpu_memory s ! g))"
    using layout_shape(2) [OF assms(1,2)] assms(2) flat by (simp add: flat_values_def read_view_def)
  then show "read_shard s (?ps ! j) = take (n (?ps ! j)) (drop ?o (flat_values s ! k))"
    using fit by (simp add: read drop_take add.commute)
qed

lemma concat_slices:
  "length xs = total_numel n ps \<Longrightarrow>
    concat (map (\<lambda>i. take (n (ps ! i)) (drop (total_numel n (take i ps)) xs)) [0..<length ps]) = xs"
proof (induction ps arbitrary: xs)
  case (Cons p ps)
  have "concat (map (\<lambda>i. take (n (ps ! i)) (drop (total_numel n (take i ps)) (drop (n p) xs))) [0..<length ps]) = drop (n p) xs"
    using Cons.prems by (intro Cons.IH) simp
  then show ?case
    by (simp add: upt_conv_Cons map_Suc_upt [symmetric] o_def add.commute del: upt_Suc)
qed simp

lemma length_flat_value:
  assumes "layout_ok n s" and "k < length (fp16_groups s)"
  shows "length (flat_values s ! k) = total_numel n (fp16_groups s ! k)"
proof -
  obtain g start len where flat: "fp16_partitioned_groups_flat s ! k = (g, start, len)" by (metis prod_cases3)
  have "start + len \<le> length (flat_cpu_memory s ! g)" "len = total_numel n (fp16_groups s ! k)"
    using layout_shape(1) [OF assms] unfolding flat flat_shape_def by auto
  then show ?thesis using layout_shape(2) [OF assms] assms(2) flat by (simp add: flat_values_def read_view_def)
qed

text \<open>In a well-formed layout the shards of a sub-group are the parts of its flat tensor.\<close>

lemma shards_of_flat:
  assumes "layout_ok n s" and "k < length (fp16_groups s)"
  shows "concat (map (read_shard s) (fp16_groups s ! k)) = flat_values s ! k"
proof -
  let ?ps = "fp16_groups s ! k"
  have "map (read_shard s) ?ps = map (\<lambda>j. take (n (?ps ! j)) (drop (total_numel n (take j ?ps)) (flat_values s ! k))) [0..<length ?ps]"
    using length_read_shard(2) [OF assms] by (intro nth_equalityI) simp_all
  then show ?thesis using concat_slices [OF length_flat_value [OF assms]] by simp
qed

definition same_layout :: "'a layout \<Rightarrow> 'a layout \<Rightarrow> bool" where
  "same_layout l l' \<longleftrightarrow> (\<exists>mem. l' = l\<lparr>flat_cpu_memory := mem\<rparr>)"

lemma same_layout_refl [simp]: "same_layout l l"
  unfolding same_layout_def by (rule exI [of _ "flat_cpu_memory l"]) simp

lemma same_layout_trans: "same_layout a b \<Longrightarrow> same_layout b c \<Longrightarrow> same_layout a c"
  by (auto simp: same_layout_def)

lemma same_layout_fields:
  "same_layout l l' \<Longrightarrow> fp16_groups l' = fp16_groups l \<and> sub_group_to_group_id l' = sub_group_to_group_id l
     \<and> shard_of l' = shard_of l \<and> fp16_partitioned_groups_flat l' = fp16_partitioned_groups_flat l"
  by (auto simp: same_layout_def)

lemma reassign_eq:
  assumes "layout_ok n (lay s)" and "k < length (fp16_groups (lay s))"
    and "length (fp32_partitioned_groups_flat s ! k) = total_numel n (fp16_groups (lay s) ! k)"
  shows "\<exists>l. reassign_partitioned_parameters env k s = Inr (s\<lparr>lay := l\<rparr>) \<and> same_layout (lay s) l \<and> layout_ok n l
    \<and> flat_values l = (flat_values (lay s))[k := map (cvt env (model_dtype env)) (fp32_partitioned_groups_flat s ! k)]"
proof -
  let ?x = "map (cvt env (model_dtype env)) (fp32_partitioned_groups_flat s ! k)" and ?ps = "fp16_groups (lay s) ! k"
  obtain mem where w: "write_view (fp16_partitioned_groups_flat (lay s) ! k) ?x (lay s) = Inr (lay s\<lparr>flat_cpu_memory := mem\<rparr>)"
      "layout_ok n (lay s\<lparr>flat_cpu_memory := mem\<rparr>)"
      "flat_values (lay s\<lparr>flat_cpu_memory := mem\<rparr>) = (flat_values (lay s))[k := ?x]"
    using write_flat [OF assms(1,2), of ?x] assms(3) by auto
  let ?l = "lay s\<lparr>flat_cpu_memory := mem\<rparr>"
  have k: "k < length (fp16_groups ?l)" using assms(2) by simp
  obtain g start len where flat: "fp16_partitioned_groups_flat ?l ! k = (g, start, len)" by (metis prod_cases3)
  have shape: "len = total_numel n ?ps"
      "map (shard_of ?l) ?ps = map (\<lambda>i. View g (start + total_numel n (take i ?ps)) (n (?ps ! i))) [0..<length ?ps]"
    using layout_shape(1) [OF w(2) k] unfolding flat flat_shape_def by auto
  have sizes: "map (\<lambda>p. length (read_shard ?l p)) ?ps = map n ?ps"
    using length_read_shard(1) [OF w(2) k] by (intro nth_equalityI) simp_all
  have "unflatten (g, start, len) 0 (map n ?ps)
      = Inr (map (\<lambda>i. View g (start + 0 + total_numel n (take i ?ps)) (n (?ps ! i))) [0..<length ?ps])"
    by (rule unflatten_eq) (simp add: shape(1))
  then have "unflatten (g, start, len) 0 (map n ?ps) = Inr (map (shard_of ?l) ?ps)" by (simp only: shape(2)) simp
  moreover have "fp16_groups ?l ! k = ?ps" by simp
  ultimately have "unflatten_partitioned_parameters k ?l = Inr ?l"
    by (simp only: unflatten_partitioned_parameters_def Let_def flat sizes ebind_Inr assign_shards_same) simp
  then have "reassign_partitioned_parameters env k s = Inr (s\<lparr>lay := ?l\<rparr>)"
    by (simp add: reassign_partitioned_parameters_def w(1))
  then show ?thesis using w unfolding same_layout_def by blast
qed

section \<open>A whole step\<close>

text \<open>
  The reference: Adam on each sub-group in order, the state passed on. \<open>adam_upto\<close> stops before
  sub-group \<open>m\<close>.
\<close>

definition adam_upto ::
  "('a, 'st) oenv \<Rightarrow> nat list \<Rightarrow> 'st \<Rightarrow> 'a list list \<Rightarrow> 'a list list \<Rightarrow> nat \<Rightarrow> 'st \<times> 'a list list" where
  "adam_upto env gids st ws ds m =
     fold (\<lambda>k (st, vs). case adam env (gids ! k) k st (ws ! k) (ds ! k) of (st', w) \<Rightarrow> (st', vs @ [w])) [0..<m] (st, [])"

definition adam_all ::
  "('a, 'st) oenv \<Rightarrow> nat list \<Rightarrow> 'st \<Rightarrow> 'a list list \<Rightarrow> 'a list list \<Rightarrow> 'st \<times> 'a list list" where
  "adam_all env gids st ws ds = adam_upto env gids st ws ds (length ws)"

lemma adam_upto_Suc:
  "adam_upto env gids st ws ds (Suc m)
    = (case adam_upto env gids st ws ds m of (st1, vs) \<Rightarrow>
        (case adam env (gids ! m) m st1 (ws ! m) (ds ! m) of (st', w) \<Rightarrow> (st', vs @ [w])))"
  by (simp add: adam_upto_def split: prod.splits)

lemma length_adam_upto: "length (snd (adam_upto env gids st ws ds m)) = m"
  by (induction m) (simp_all add: adam_upto_def case_prod_unfold)

definition keeps_length :: "('a, 'st) oenv \<Rightarrow> bool" where
  "keeps_length env \<longleftrightarrow> (\<forall>g k st w d. length (snd (adam env g k st w d)) = length w)"

lemma adam_upto_lengths:
  assumes "keeps_length env" and "k < m"
  shows "length (snd (adam_upto env gids st ws ds m) ! k) = length (ws ! k)"
  using assms(2)
proof (induction m)
  case (Suc m)
  obtain st1 vs where vs: "adam_upto env gids st ws ds m = (st1, vs)" by (cases "adam_upto env gids st ws ds m")
  obtain st2 w where w: "adam env (gids ! m) m st1 (ws ! m) (ds ! m) = (st2, w)" by (cases "adam env (gids ! m) m st1 (ws ! m) (ds ! m)")
  have len: "length vs = m" using length_adam_upto [of env gids st ws ds m] by (simp add: vs)
  have "length w = length (ws ! m)" using assms(1) w unfolding keeps_length_def by (metis snd_conv)
  then show ?case using Suc len by (auto simp: adam_upto_Suc vs w nth_append less_Suc_eq)
qed simp

text \<open>The optimizer between two steps, all gradients in the buffers of set \<open>b\<close>.\<close>

definition zopt_ok :: "(nat \<Rightarrow> nat) \<Rightarrow> ('a, 'st) zopt \<Rightarrow> bool" where
  "zopt_ok n s \<longleftrightarrow> layout_ok n (lay s) \<and> opt_ok s
     \<and> map length (fp32_partitioned_groups_flat s) = map (total_numel n) (fp16_groups (lay s))"

definition all_in_set :: "nat \<Rightarrow> ('a, 'st) zopt \<Rightarrow> bool" where
  "all_in_set b s \<longleftrightarrow> (\<forall>k < length (fp16_groups (lay s)). grad_of s k = Some b)"

lemma zopt_lengths:
  assumes "zopt_ok n s"
  shows "length (fp32_partitioned_groups_flat s) = length (fp16_groups (lay s))"
    and "k < length (fp16_groups (lay s)) \<Longrightarrow> length (fp32_partitioned_groups_flat s ! k) = total_numel n (fp16_groups (lay s) ! k)"
proof -
  have eq: "map length (fp32_partitioned_groups_flat s) = map (total_numel n) (fp16_groups (lay s))"
    using assms by (simp add: zopt_ok_def)
  show len: "length (fp32_partitioned_groups_flat s) = length (fp16_groups (lay s))" using arg_cong [OF eq, of length] by simp
  assume "k < length (fp16_groups (lay s))"
  then show "length (fp32_partitioned_groups_flat s ! k) = total_numel n (fp16_groups (lay s) ! k)"
    using arg_cong [OF eq, of "\<lambda>xs. xs ! k"] len by simp
qed

text \<open>After the first \<open>m\<close> sub-groups.\<close>

definition stepped :: "('a, 'st) oenv \<Rightarrow> nat \<Rightarrow> ('a, 'st) zopt \<Rightarrow> nat \<Rightarrow> ('a, 'st) zopt \<Rightarrow> bool" where
  "stepped env b s m t \<longleftrightarrow>
     (case adam_upto env (sub_group_to_group_id (lay s)) (opt_state s) (fp32_partitioned_groups_flat s) (fp32_grad_bufs s b) m of
        (st, vs) \<Rightarrow>
          same_layout (lay s) (lay t)
          \<and> flat_values (lay t) = map (map (cvt env (model_dtype env))) vs @ drop m (flat_values (lay s))
          \<and> t = s\<lparr>lay := lay t, fp32_partitioned_groups_flat := vs @ drop m (fp32_partitioned_groups_flat s), opt_state := st\<rparr>)"

lemma step_sub_group_stepped:
  assumes "zopt_ok n s" "keeps_length env" "all_in_set b s" and "m < length (fp16_groups (lay s))"
    and "stepped env b s m t" and "layout_ok n (lay t)"
  shows "\<exists>t'. step_sub_group env m t = Inr t' \<and> stepped env b s (Suc m) t' \<and> layout_ok n (lay t')"
proof -
  let ?ws = "fp32_partitioned_groups_flat s" and ?ds = "fp32_grad_bufs s b" and ?gids = "sub_group_to_group_id (lay s)"
  obtain st vs where vs: "adam_upto env ?gids (opt_state s) ?ws ?ds m = (st, vs)" by (metis surj_pair)
  obtain st1 w where w: "adam env (?gids ! m) m st (?ws ! m) (?ds ! m) = (st1, w)" by (metis surj_pair)
  have lenv: "length vs = m" using length_adam_upto [of env ?gids "opt_state s" ?ws ?ds m] by (simp add: vs)
  have lenw: "length ?ws = length (fp16_groups (lay s))" by (rule zopt_lengths(1) [OF assms(1)])
  have t: "same_layout (lay s) (lay t)" "flat_values (lay t) = map (map (cvt env (model_dtype env))) vs @ drop m (flat_values (lay s))"
      "t = s\<lparr>lay := lay t, fp32_partitioned_groups_flat := vs @ drop m ?ws, opt_state := st\<rparr>"
    using assms(5) by (simp_all add: stepped_def vs)
  have tf: "opt_params t = opt_params s" "fp32_grad_bufs t = fp32_grad_bufs s" "grad_of t = grad_of s"
      "fp32_partitioned_groups_flat t = vs @ drop m ?ws" "opt_state t = st"
    by (subst t(3), simp)+
  note same = same_layout_fields [OF t(1)]
  have ok: "opt_ok t" using assms(1) same tf(1) by (simp add: zopt_ok_def opt_ok_def)
  have m: "m < length (fp16_groups (lay t))" using assms(4) same by simp
  have wm: "(vs @ drop m ?ws) ! m = ?ws ! m" using lenv assms(4) lenw by (simp add: nth_append)
  have upd: "(vs @ drop m ?ws)[m := w] = (vs @ [w]) @ drop (Suc m) ?ws"
    using lenv assms(4) lenw by (simp add: list_update_append Cons_nth_drop_Suc [symmetric])
  let ?t1 = "t\<lparr>fp32_partitioned_groups_flat := (vs @ [w]) @ drop (Suc m) ?ws, opt_state := st1\<rparr>"
  have "optimizer_step env m t = ?t1"
    unfolding optimizer_step_eq [OF ok m] adam_update_def
    using assms(3,4) same upd by (simp add: all_in_set_def tf wm w)
  moreover have "length w = total_numel n (fp16_groups (lay s) ! m)"
    using assms(2) w zopt_lengths(2) [OF assms(1,4)] unfolding keeps_length_def by (metis snd_conv)
  moreover obtain l where l: "reassign_partitioned_parameters env m ?t1 = Inr (?t1\<lparr>lay := l\<rparr>)" "same_layout (lay t) l" "layout_ok n l"
      "flat_values l = (flat_values (lay t))[m := map (cvt env (model_dtype env)) w]"
    using reassign_eq [of n ?t1 m env] assms(6) m calculation(2) same lenv by (auto simp: nth_append)
  ultimately have "step_sub_group env m t = Inr (?t1\<lparr>lay := l\<rparr>)" by (simp add: step_sub_group_def)
  moreover have "flat_values l = map (map (cvt env (model_dtype env))) (vs @ [w]) @ drop (Suc m) (flat_values (lay s))"
  proof -
    have "m < length (flat_values (lay s))"
      using assms(1,4) layout_shape(2) by (fastforce simp: flat_values_def zopt_ok_def)
    then show ?thesis unfolding l(4) t(2) using lenv by (simp add: list_update_append Cons_nth_drop_Suc [symmetric])
  qed
  moreover have "?t1\<lparr>lay := l\<rparr> = s\<lparr>lay := l, fp32_partitioned_groups_flat := (vs @ [w]) @ drop (Suc m) ?ws, opt_state := st1\<rparr>"
    by (subst t(3), cases s) simp
  ultimately show ?thesis using l(2,3) same_layout_trans [OF t(1)] by (simp add: stepped_def adam_upto_Suc vs w)
qed

lemma step_loop_stepped:
  assumes "zopt_ok n s" "keeps_length env" "all_in_set b s" and "m \<le> length (fp16_groups (lay s))"
  shows "\<exists>t. foldE (step_sub_group env) [0..<m] s = Inr t \<and> stepped env b s m t \<and> layout_ok n (lay t)"
  using assms(4)
proof (induction m)
  case 0
  have "stepped env b s 0 s" by (cases s) (simp add: stepped_def adam_upto_def)
  then show ?case using assms(1) by (simp add: zopt_ok_def)
next
  case (Suc m)
  then obtain t where t: "foldE (step_sub_group env) [0..<m] s = Inr t" "stepped env b s m t" "layout_ok n (lay t)" by auto
  obtain t' where "step_sub_group env m t = Inr t'" "stepped env b s (Suc m) t'" "layout_ok n (lay t')"
    using step_sub_group_stepped [OF assms(1-3) _ t(2,3)] Suc.prems by auto
  then show ?case using t(1) by (simp add: foldE_append)
qed

text \<open>The whole loop: Adam on the master weights, and the flat tensors are their rounded values.\<close>

lemma step_loop_ok:
  assumes "zopt_ok n s" "keeps_length env" "all_in_set b s"
  shows "\<exists>t. step_loop env s = Inr t
    \<and> (opt_state t, fp32_partitioned_groups_flat t)
        = adam_all env (sub_group_to_group_id (lay s)) (opt_state s) (fp32_partitioned_groups_flat s) (fp32_grad_bufs s b)
    \<and> flat_values (lay t) = map (map (cvt env (model_dtype env))) (fp32_partitioned_groups_flat t)
    \<and> same_layout (lay s) (lay t) \<and> zopt_ok n t \<and> all_in_set b t"
proof -
  let ?N = "length (fp16_groups (lay s))"
  note len = zopt_lengths [OF assms(1)]
  obtain t where t: "foldE (step_sub_group env) [0..<?N] s = Inr t" "stepped env b s ?N t" "layout_ok n (lay t)"
    using step_loop_stepped [OF assms order.refl] by blast
  obtain st vs where vs: "adam_upto env (sub_group_to_group_id (lay s)) (opt_state s)
      (fp32_partitioned_groups_flat s) (fp32_grad_bufs s b) ?N = (st, vs)" by (metis surj_pair)
  have lenv: "length vs = ?N" using length_adam_upto [of env _ _ _ _ ?N] vs by (metis snd_conv)
  have lenf: "length (flat_values (lay s)) = ?N"
    using assms(1) list_all2_lengthD by (fastforce simp: flat_values_def zopt_ok_def layout_ok_def)
  have eq: "same_layout (lay s) (lay t)" "flat_values (lay t) = map (map (cvt env (model_dtype env))) vs"
      "t = s\<lparr>lay := lay t, fp32_partitioned_groups_flat := vs, opt_state := st\<rparr>"
    using t(2) by (simp_all add: stepped_def vs lenf len)
  have f: "fp32_partitioned_groups_flat t = vs" "opt_state t = st" "opt_params t = opt_params s" "grad_of t = grad_of s"
    by (subst eq(3), simp)+
  note same = same_layout_fields [OF eq(1)]
  have "length (vs ! k) = total_numel n (fp16_groups (lay s) ! k)" if "k < ?N" for k
    using adam_upto_lengths [OF assms(2) that] vs len(2) [OF that] by (metis snd_conv)
  then have "map length vs = map (total_numel n) (fp16_groups (lay s))"
    using lenv by (intro nth_equalityI) simp_all
  then have "zopt_ok n t" using assms(1) t(3) same by (simp add: zopt_ok_def opt_ok_def f)
  moreover have "all_in_set b t" using assms(3) same by (simp add: all_in_set_def f)
  ultimately show ?thesis using t(1) vs eq(1,2) by (auto simp: step_loop_def adam_all_def f len(1))
qed

text \<open>
  C15: a step updates every shard. From a well-formed state whose gradients are all in the buffers
  of one set, the loop does not fail; the master weights and the state of the optimizer become
  what Adam makes of them sub-group by sub-group; the shards of each sub-group, one after the
  other, are the rounded master weights, and no shard moves.
\<close>

theorem step_updates_shards:
  assumes "zopt_ok n s" "keeps_length env" "all_in_set b s"
  shows "\<exists>t. step_loop env s = Inr t
    \<and> (opt_state t, fp32_partitioned_groups_flat t)
        = adam_all env (sub_group_to_group_id (lay s)) (opt_state s) (fp32_partitioned_groups_flat s) (fp32_grad_bufs s b)
    \<and> map (\<lambda>ps. concat (map (read_shard (lay t)) ps)) (fp16_groups (lay s))
        = map (map (cvt env (model_dtype env))) (fp32_partitioned_groups_flat t)
    \<and> shard_of (lay t) = shard_of (lay s) \<and> zopt_ok n t"
proof -
  obtain t where t: "step_loop env s = Inr t"
      "(opt_state t, fp32_partitioned_groups_flat t)
        = adam_all env (sub_group_to_group_id (lay s)) (opt_state s) (fp32_partitioned_groups_flat s) (fp32_grad_bufs s b)"
      "flat_values (lay t) = map (map (cvt env (model_dtype env))) (fp32_partitioned_groups_flat t)"
      "same_layout (lay s) (lay t)" "zopt_ok n t"
    using step_loop_ok [OF assms] by blast
  have ok: "layout_ok n (lay t)" using t(5) by (simp add: zopt_ok_def)
  have "length (flat_values (lay t)) = length (fp16_groups (lay t))" using arg_cong [OF t(3), of length] zopt_lengths(1) [OF t(5)] by simp
  then have "map (\<lambda>ps. concat (map (read_shard (lay t)) ps)) (fp16_groups (lay s)) = flat_values (lay t)"
    using shards_of_flat [OF ok] same_layout_fields [OF t(4)] by (intro nth_equalityI) simp_all
  then show ?thesis using t same_layout_fields [OF t(4)] by auto
qed

text \<open>Copying back without a step.\<close>

lemma reassign_upto:
  assumes "zopt_ok n s" and "m \<le> length (fp16_groups (lay s))"
  shows "\<exists>l. foldE (reassign_partitioned_parameters env) [0..<m] s = Inr (s\<lparr>lay := l\<rparr>) \<and> same_layout (lay s) l \<and> layout_ok n l
    \<and> flat_values l = map (map (cvt env (model_dtype env))) (take m (fp32_partitioned_groups_flat s)) @ drop m (flat_values (lay s))"
  using assms(2)
proof (induction m)
  case 0
  show ?case using assms(1) by (intro exI [of _ "lay s"]) (simp add: zopt_ok_def)
next
  case (Suc m)
  let ?c = "map (cvt env (model_dtype env))" and ?ws = "fp32_partitioned_groups_flat s"
  obtain l where l: "foldE (reassign_partitioned_parameters env) [0..<m] s = Inr (s\<lparr>lay := l\<rparr>)" "same_layout (lay s) l"
      "layout_ok n l" "flat_values l = map ?c (take m ?ws) @ drop m (flat_values (lay s))"
    using Suc by auto
  note same = same_layout_fields [OF l(2)] and len = zopt_lengths [OF assms(1)]
  have lenf: "length (flat_values (lay s)) = length (fp16_groups (lay s))"
    using assms(1) list_all2_lengthD by (fastforce simp: flat_values_def zopt_ok_def layout_ok_def)
  obtain l' where l': "reassign_partitioned_parameters env m (s\<lparr>lay := l\<rparr>) = Inr (s\<lparr>lay := l\<rparr>\<lparr>lay := l'\<rparr>)"
      "same_layout l l'" "layout_ok n l'" "flat_values l' = (flat_values l)[m := ?c (?ws ! m)]"
    using reassign_eq [of n "s\<lparr>lay := l\<rparr>" m env] l(3) same len(2) Suc.prems by auto
  have "flat_values l' = map ?c (take (Suc m) ?ws) @ drop (Suc m) (flat_values (lay s))"
    unfolding l'(4) l(4) using Suc.prems len(1) lenf
    by (simp add: list_update_append take_Suc_conv_app_nth Cons_nth_drop_Suc [symmetric])
  then show ?case using l(1,2) l'(1-3) same_layout_trans by (intro exI [of _ l']) (auto simp: foldE_append)
qed

lemma reassign_all_eq:
  assumes "zopt_ok n s"
  shows "\<exists>l. reassign_all env s = Inr (s\<lparr>lay := l\<rparr>) \<and> same_layout (lay s) l \<and> layout_ok n l
    \<and> flat_values l = map (map (cvt env (model_dtype env))) (fp32_partitioned_groups_flat s)"
proof -
  have "length (flat_values (lay s)) = length (fp16_groups (lay s))"
    using assms list_all2_lengthD by (fastforce simp: flat_values_def zopt_ok_def layout_ok_def)
  then show ?thesis
    using reassign_upto [OF assms order.refl, of env] zopt_lengths(1) [OF assms] by (auto simp: reassign_all_def)
qed

section \<open>The constructor establishes the invariant\<close>

definition zero_grads :: "('a, 'st) oenv \<Rightarrow> (nat \<Rightarrow> nat) \<Rightarrow> nat list list \<Rightarrow> 'a list list" where
  "zero_grads env n groups = map (\<lambda>ps. replicate (total_numel n ps) (zero_elem env)) groups"

definition initialized :: "('a, 'st) oenv \<Rightarrow> (nat \<Rightarrow> nat) \<Rightarrow> ('a, 'st) zopt \<Rightarrow> nat \<Rightarrow> ('a, 'st) zopt \<Rightarrow> bool" where
  "initialized env n s m t \<longleftrightarrow>
     (case adam_upto env (sub_group_to_group_id (lay s)) (opt_state s) (fp32_partitioned_groups_flat s)
             (zero_grads env n (fp16_groups (lay s))) m of
        (st, vs) \<Rightarrow>
          lay t = lay s \<and> opt_params t = opt_params s \<and> opt_state t = st
          \<and> fp32_partitioned_groups_flat t = vs @ drop m (fp32_partitioned_groups_flat s)
          \<and> fp32_grad_bufs t 0 = take m (zero_grads env n (fp16_groups (lay s)))
          \<and> fp32_grad_bufs t 1 = take m (zero_grads env n (fp16_groups (lay s)))
          \<and> (\<forall>k < m. grad_of t k = Some 0))"

lemma initialize_one_step:
  assumes "zopt_ok n s" and "fp16_partitioned_groups_flat_numel (lay s) = map (total_numel n) (fp16_groups (lay s))"
    and "m < length (fp16_groups (lay s))" and "initialized env n s m t"
  shows "initialized env n s (Suc m) (initialize_one env m t)"
proof -
  let ?ws = "fp32_partitioned_groups_flat s" and ?gids = "sub_group_to_group_id (lay s)"
  let ?ds = "zero_grads env n (fp16_groups (lay s))" and ?z = "replicate (total_numel n (fp16_groups (lay s) ! m)) (zero_elem env)"
  obtain st vs where vs: "adam_upto env ?gids (opt_state s) ?ws ?ds m = (st, vs)" by (metis surj_pair)
  have dm: "?ds ! m = ?z" and take: "take (Suc m) ?ds = take m ?ds @ [?z]"
    using assms(3) by (simp_all add: zero_grads_def take_Suc_conv_app_nth)
  obtain st1 w where w: "adam env (?gids ! m) m st (?ws ! m) ?z = (st1, w)" by (metis surj_pair)
  have lenv: "length vs = m" using length_adam_upto [of env ?gids "opt_state s" ?ws ?ds m] by (simp add: vs)
  have lenw: "length ?ws = length (fp16_groups (lay s))" by (rule zopt_lengths(1) [OF assms(1)])
  have t: "lay t = lay s" "opt_params t = opt_params s" "opt_state t = st" "fp32_partitioned_groups_flat t = vs @ drop m ?ws"
      "fp32_grad_bufs t 0 = take m ?ds" "fp32_grad_bufs t 1 = take m ?ds" "\<forall>k < m. grad_of t k = Some 0"
    using assms(4) unfolding initialized_def vs prod.case by blast+
  let ?t1 = "t\<lparr>fp32_grad_bufs := (fp32_grad_bufs t)(0 := fp32_grad_bufs t 0 @ [?z], 1 := fp32_grad_bufs t 1 @ [?z]),
           grad_of := (grad_of t)(m \<mapsto> 0)\<rparr>"
  have ok: "opt_ok ?t1" using assms(1) by (simp add: zopt_ok_def opt_ok_def t)
  have "initialize_one env m t = optimizer_step env m ?t1"
    using assms(2,3) t by (simp add: initialize_one_def Let_def)
  also have "\<dots> = adam_update env (?gids ! m) m ?t1"
    using optimizer_step_eq [OF ok] assms(3) by (simp add: t(1))
  also have "\<dots> = ?t1\<lparr>fp32_partitioned_groups_flat := (vs @ drop m ?ws)[m := w], opt_state := st1\<rparr>"
    using assms(3) lenv lenw t w by (simp add: adam_update_def nth_append zero_grads_def)
  finally have eq: "initialize_one env m t = ?t1\<lparr>fp32_partitioned_groups_flat := (vs @ drop m ?ws)[m := w], opt_state := st1\<rparr>" .
  have "(vs @ drop m ?ws)[m := w] = (vs @ [w]) @ drop (Suc m) ?ws"
    using lenv assms(3) lenw by (simp add: list_update_append Cons_nth_drop_Suc [symmetric])
  then show ?thesis
    unfolding initialized_def adam_upto_Suc vs prod.case dm w eq take using t by (auto simp: less_Suc_eq)
qed

lemma initialize_states:
  assumes "zopt_ok n s" and "fp16_partitioned_groups_flat_numel (lay s) = map (total_numel n) (fp16_groups (lay s))"
    and "fp32_grad_bufs s 0 = []" "fp32_grad_bufs s 1 = []" and "m \<le> length (fp16_groups (lay s))"
  shows "initialized env n s m (fold (initialize_one env) [0..<m] s)"
  using assms(5)
proof (induction m)
  case 0
  then show ?case using assms(3,4) by (simp add: initialized_def adam_upto_def)
next
  case (Suc m)
  then show ?case using initialize_one_step [OF assms(1,2), of m env] by simp
qed

text \<open>
  The constructor builds a well-formed state. The layout, the master copies and the two sets of
  gradient buffers fit together, every gradient is in the buffers of set 0, and the master weights
  are what one step of Adam with zero gradients makes of the converted shards; the shards keep
  their values, whatever that step does.
\<close>

theorem optimizer_setup:
  assumes "groups_ok n v sh groups" and "keeps_length env"
    and "create_fp16_partitions n padding last_rank False u sz groups (empty_layout sh) = Inr l"
  shows "let s = initialize_optimizer_states env (create_fp32_partitions env
        \<lparr>lay = l, fp32_partitioned_groups_flat = [], fp32_grad_bufs = \<lambda>_. [], grad_of = \<lambda>_. None,
         opt_params = groups, opt_state = st\<rparr>)
    in zopt_ok n s \<and> all_in_set 0 s \<and> lay s = l
      \<and> fp32_grad_bufs s 0 = zero_grads env n (fp16_groups l) \<and> fp32_grad_bufs s 1 = zero_grads env n (fp16_groups l)
      \<and> (opt_state s, fp32_partitioned_groups_flat s)
          = adam_all env (sub_group_to_group_id l) st
              (map (\<lambda>ps. map (cvt env Float32) (concat (map v ps))) (fp16_groups l)) (zero_grads env n (fp16_groups l))"
proof -
  define s0 where "s0 = create_fp32_partitions env
        \<lparr>lay = l, fp32_partitioned_groups_flat = [], fp32_grad_bufs = \<lambda>_. [], grad_of = \<lambda>_. None,
         opt_params = groups, opt_state = st\<rparr>"
  obtain l' where l': "create_fp16_partitions n padding last_rank False u sz groups (empty_layout sh) = Inr l'"
      "layout_ok n l'" "sub_group_to_group_id l' = map fst (fp16_partitioned_groups_flat l')"
      "fp16_partitioned_groups_flat_numel l' = map (total_numel n) (fp16_groups l')"
      "\<forall>g \<in> set (sub_group_to_group_id l'). g < length groups"
      "map (read_view (flat_cpu_memory l')) (fp16_partitioned_groups_flat l') = map (\<lambda>ps. concat (map v ps)) (fp16_groups l')"
    using create_layout_ok [OF assms(1)] by blast
  have l: "l' = l" using l'(1) assms(3) by simp
  note l' = l' [unfolded l]
  let ?ws = "map (\<lambda>ps. map (cvt env Float32) (concat (map v ps))) (fp16_groups l)"
  have "map (map (cvt env Float32)) (map (read_view (flat_cpu_memory l)) (fp16_partitioned_groups_flat l)) = ?ws"
    unfolding l'(6) by simp
  then have s0: "lay s0 = l" "fp32_partitioned_groups_flat s0 = ?ws" "opt_params s0 = map (\<lambda>_. []) groups"
      "fp32_grad_bufs s0 = (\<lambda>_. [])" "opt_state s0 = st"
    by (simp_all add: s0_def create_fp32_partitions_def o_def)
  have "length (flat_values l ! k) = total_numel n (fp16_groups l ! k)" if "k < length (fp16_groups l)" for k
    by (rule length_flat_value [OF l'(2) that])
  then have "map length (flat_values l) = map (total_numel n) (fp16_groups l)"
    using arg_cong [OF l'(6), of length] by (intro nth_equalityI) (simp_all add: flat_values_def)
  then have lens: "map length ?ws = map (total_numel n) (fp16_groups l)"
    unfolding flat_values_def l'(6) by (simp add: o_def)
  have "length (sub_group_to_group_id l) = length (fp16_groups l)"
    using arg_cong [OF l'(6), of length] by (simp add: l'(3))
  then have ok0: "zopt_ok n s0" using l'(2,5) lens by (simp add: zopt_ok_def opt_ok_def s0)
  let ?N = "length (fp16_groups l)"
  define s where "s = initialize_optimizer_states env s0"
  have "initialized env n s0 ?N s"
    unfolding s_def initialize_optimizer_states_def s0(1)
    by (rule initialize_states [OF ok0]) (simp_all add: s0 l'(4))
  moreover obtain st1 vs where vs: "adam_upto env (sub_group_to_group_id l) st ?ws (zero_grads env n (fp16_groups l)) ?N = (st1, vs)"
    by (metis surj_pair)
  ultimately have s: "lay s = l" "opt_params s = map (\<lambda>_. []) groups" "opt_state s = st1" "fp32_partitioned_groups_flat s = vs"
      "fp32_grad_bufs s 0 = zero_grads env n (fp16_groups l)" "fp32_grad_bufs s 1 = zero_grads env n (fp16_groups l)"
      "\<forall>k < ?N. grad_of s k = Some 0"
    by (simp_all add: initialized_def s0 zero_grads_def)
  have lenv: "length vs = ?N" using length_adam_upto [of env _ _ _ _ ?N] vs by (metis snd_conv)
  have "length (vs ! k) = total_numel n (fp16_groups l ! k)" if "k < ?N" for k
  proof -
    have "length (vs ! k) = length (?ws ! k)" using adam_upto_lengths [OF assms(2) that] vs by (metis snd_conv)
    also have "\<dots> = total_numel n (fp16_groups l ! k)" using arg_cong [OF lens, of "\<lambda>xs. xs ! k"] that by simp
    finally show ?thesis .
  qed
  then have "map length vs = map (total_numel n) (fp16_groups l)" using lenv by (intro nth_equalityI) simp_all
  then have "zopt_ok n s" using ok0 by (simp add: zopt_ok_def opt_ok_def s s0)
  then show ?thesis
    unfolding s0_def [symmetric] Let_def s_def [symmetric] using s vs by (simp add: all_in_set_def adam_all_def)
qed

section \<open>Example\<close>

text \<open>Gradient descent instead of Adam, and a 16-bit format that drops the last digit.\<close>

definition demo_oenv :: "(int, nat) oenv" where
  "demo_oenv = \<lparr>cvt = (\<lambda>dt x. if dt = Float32 then x else 10 * (x div 10)), model_dtype = Float16, zero_elem = 0,
     adam = (\<lambda>g k st w d. (st + 1, map (\<lambda>i. w ! i - (if i < length d then d ! i else 0)) [0..<length w]))\<rparr>"

lemma demo_oenv_ok: "keeps_length demo_oenv"
  by (simp add: keeps_length_def demo_oenv_def)

definition demo_layout :: "int layout" where
  "demo_layout = \<lparr>fp16_groups = [[0, 1], [2]], sub_group_to_group_id = [0, 0],
     fp16_partitioned_groups_flat_numel = [3, 3], groups_padding = [[0, 0], [0]],
     flat_cpu_memory = [[10, 20, 30, 40, 50, 60]], fp16_partitioned_groups_flat = [(0, 0, 3), (0, 3, 3)],
     shard_of = (\<lambda>p. if p = 0 then View 0 0 1 else if p = 1 then View 0 1 2 else View 0 3 3)\<rparr>"

definition demo_zopt :: "(int, nat) zopt" where
  "demo_zopt = \<lparr>lay = demo_layout, fp32_partitioned_groups_flat = [[10, 20, 30], [40, 50, 60]],
     fp32_grad_bufs = (\<lambda>b. if b = 0 then [[1, 2, 3], [4, 5, 6]] else [[0, 0, 0], [0, 0, 0]]),
     grad_of = (\<lambda>_. Some 0), opt_params = [[]], opt_state = 7\<rparr>"

lemma demo_zopt_ok: "zopt_ok demo_size demo_zopt" "all_in_set 0 demo_zopt"
  by (simp_all add: zopt_ok_def layout_ok_def flat_shape_def opt_ok_def all_in_set_def demo_zopt_def demo_layout_def
      before_def demo_size_def)

lemma demo_adam:
  "adam_all demo_oenv (sub_group_to_group_id (lay demo_zopt)) (opt_state demo_zopt)
     (fp32_partitioned_groups_flat demo_zopt) (fp32_grad_bufs demo_zopt 0) = (9, [[9, 18, 27], [36, 45, 54]])"
  by code_simp

theorem step_updates_shards_witness:
  "\<exists>t. step_loop demo_oenv demo_zopt = Inr t \<and> opt_state t = 9
    \<and> fp32_partitioned_groups_flat t = [[9, 18, 27], [36, 45, 54]]
    \<and> map (\<lambda>ps. concat (map (read_shard (lay t)) ps)) [[0, 1], [2]] = [[0, 10, 20], [30, 40, 50]]"
proof -
  obtain t where t: "step_loop demo_oenv demo_zopt = Inr t"
      "(opt_state t, fp32_partitioned_groups_flat t) = (9, [[9, 18, 27], [36, 45, 54]])"
      "map (\<lambda>ps. concat (map (read_shard (lay t)) ps)) (fp16_groups (lay demo_zopt))
        = map (map (cvt demo_oenv (model_dtype demo_oenv))) (fp32_partitioned_groups_flat t)"
    using step_updates_shards [OF demo_zopt_ok(1) demo_oenv_ok demo_zopt_ok(2)] unfolding demo_adam by blast
  moreover have "fp16_groups (lay demo_zopt) = [[0, 1], [2]]" by (simp add: demo_zopt_def demo_layout_def)
  ultimately show ?thesis by (auto simp: demo_oenv_def)
qed

theorem optimizer_setup_witness:
  "\<exists>l. create_fp16_partitions demo_size (\<lambda>_. 1) True False (\<lambda>_. 9) (Some 3) [[0, 1, 2], [3, 4]]
        (empty_layout (\<lambda>p. Own (map int (demo_value p)))) = Inr l
    \<and> zopt_ok demo_size (initialize_optimizer_states demo_oenv (create_fp32_partitions demo_oenv
        \<lparr>lay = l, fp32_partitioned_groups_flat = [], fp32_grad_bufs = \<lambda>_. [], grad_of = \<lambda>_. None,
         opt_params = [[0, 1, 2], [3, 4]], opt_state = 0\<rparr>))"
proof -
  have ok: "groups_ok demo_size (\<lambda>p. map int (demo_value p)) (\<lambda>p. Own (map int (demo_value p))) [[0, 1, 2], [3, 4]]"
    by (simp add: groups_ok_def demo_size_def demo_value_def)
  obtain l where l: "create_fp16_partitions demo_size (\<lambda>_. 1) True False (\<lambda>_. 9) (Some 3) [[0, 1, 2], [3, 4]]
        (empty_layout (\<lambda>p. Own (map int (demo_value p)))) = Inr l"
    using create_layout [OF ok] by blast
  show ?thesis using l optimizer_setup [OF ok demo_oenv_ok l] by (auto simp: Let_def)
qed

end
