(* ===== verification/DelayedUpdate.thy ===== *)
theory DelayedUpdate
  imports Optimizer
begin

text \<open>
  The delayed parameter update of \<^verbatim>\<open>src/smartnic_offload/zero_optimizer.py\<close>: the training process
  and the Adam worker, which share the master weights and the two sets of gradient buffers and
  exchange messages over a pipe, as a step relation. The training process repeats the body of the
  loop in \<^verbatim>\<open>run_zero.py\<close>: \<^verbatim>\<open>step_dpu\<close>, a backward pass that writes its gradients sub-group by
  sub-group, \<^verbatim>\<open>update_new_params\<close>.

  A message is a step of one of the processes; the worker's update of one sub-group is one step.
  \<open>G j\<close> are the gradients of iteration \<open>j\<close>, one list per sub-group, any function.
\<close>

section \<open>The two processes\<close>

datatype adam_cmd = CmdStep nat | CmdShutdown | CmdSetAffinity "nat list"

datatype worker_pc = WaitCmd | Updating nat nat | Stopped

datatype main_pc = AtStep | AtBackward nat | AtUpdate | Failed exn

record ('a, 'st) dpu =
  opt :: "('a, 'st) zopt"
  grad_buf_switch :: nat
  adam_step_pending :: bool
  dpu_steps :: nat
  to_worker :: "adam_cmd list"
  to_main :: "string list"
  w_pc :: worker_pc
  w_params :: "nat list list"
  w_grad :: "nat \<Rightarrow> nat option"
  w_state :: 'st
  m_pc :: main_pc
  iter :: nat

definition num_subgroups :: "('a, 'st) dpu \<Rightarrow> nat" where
  "num_subgroups s = length (fp16_groups (lay (opt s)))"

definition step_dpu :: "bool \<Rightarrow> ('a, 'st) dpu \<Rightarrow> ('a, 'st) dpu" where
  "step_dpu first_step s =
     (let s1 = s\<lparr>adam_step_pending := False\<rparr> in
      if \<not> first_step
      then s1\<lparr>to_worker := to_worker s1 @ [CmdStep (1 - grad_buf_switch s1)], adam_step_pending := True\<rparr>
      else s1)"

text \<open>\<^verbatim>\<open>_take_model_step_dpu\<close> of the wrapper.\<close>

definition take_model_step_dpu :: "('a, 'st) dpu \<Rightarrow> ('a, 'st) dpu" where
  "take_model_step_dpu s = (let s1 = step_dpu (dpu_steps s = 0) s in s1\<lparr>dpu_steps := dpu_steps s1 + 1\<rparr>)"

text \<open>What \<^verbatim>\<open>__partition_grads\<close> leaves in the 32-bit gradient buffer of a sub-group.\<close>

definition write_grad :: "nat \<Rightarrow> 'a list \<Rightarrow> ('a, 'st) dpu \<Rightarrow> ('a, 'st) dpu" where
  "write_grad k d s =
     s\<lparr>opt := (opt s)\<lparr>fp32_grad_bufs := (fp32_grad_bufs (opt s))
         (grad_buf_switch s := (fp32_grad_bufs (opt s) (grad_buf_switch s))[k := d])\<rparr>\<rparr>"

text \<open>
  \<^verbatim>\<open>recv\<close> of the training process: \<open>None\<close> when there is nothing to receive yet. When the worker has ended,
  which closes its end of the pipe, and no message is left, it raises \<^verbatim>\<open>EOFError\<close>: the training process
  itself keeps no reference to that end after \<^verbatim>\<open>start_adam_process\<close>.
\<close>

definition recv_from_worker :: "('a, 'st) dpu \<Rightarrow> (string \<times> ('a, 'st) dpu) result option" where
  "recv_from_worker s =
     (case to_main s of
        msg # msgs \<Rightarrow> Some (Inr (msg, s\<lparr>to_main := msgs\<rparr>))
      | [] \<Rightarrow> if w_pc s = Stopped then Some (Inl EOFError) else None)"

definition update_new_params :: "('a, 'st) oenv \<Rightarrow> ('a, 'st) dpu \<Rightarrow> ('a, 'st) dpu result option" where
  "update_new_params env s =
     (case (if adam_step_pending s then recv_from_worker s else Some (Inr (''done'', s))) of
        None \<Rightarrow> None
      | Some m \<Rightarrow>
          Some (ebind m (\<lambda>(msg, s1).
                ebind (assert_that (msg = ''done'')) (\<lambda>_.
                ebind (reassign_all env (opt s1)) (\<lambda>z.
                  Inr (s1\<lparr>opt := z, grad_buf_switch := 1 - grad_buf_switch s1\<rparr>))))))"

text \<open>
  The worker: it has an optimizer of its own over the shared tensors, made from the list of
  tensors, so with one group of parameters. An exception ends the worker.
\<close>

definition worker_recv :: "('a, 'st) dpu \<Rightarrow> ('a, 'st) dpu option" where
  "worker_recv s =
     (case to_worker s of
        [] \<Rightarrow> None
      | cmd # cmds \<Rightarrow>
          Some (case cmd of
                  CmdShutdown \<Rightarrow> s\<lparr>to_worker := cmds, w_pc := Stopped\<rparr>
                | CmdSetAffinity cpus \<Rightarrow> s\<lparr>to_worker := cmds\<rparr>
                | CmdStep grad_idx \<Rightarrow> s\<lparr>to_worker := cmds, w_pc := Updating grad_idx 0\<rparr>))"

definition worker_zopt :: "('a, 'st) dpu \<Rightarrow> ('a, 'st) zopt" where
  "worker_zopt s = (opt s)\<lparr>grad_of := w_grad s, opt_params := w_params s, opt_state := w_state s\<rparr>"

definition worker_sub_group :: "('a, 'st) oenv \<Rightarrow> nat \<Rightarrow> nat \<Rightarrow> ('a, 'st) dpu \<Rightarrow> ('a, 'st) dpu" where
  "worker_sub_group env grad_idx i s =
     (if length (w_params s) \<le> sub_group_to_group_id (lay (opt s)) ! i then s\<lparr>w_pc := Stopped\<rparr>
      else
      let z = worker_update env grad_idx i (worker_zopt s) in
      s\<lparr>opt := (opt s)\<lparr>fp32_partitioned_groups_flat := fp32_partitioned_groups_flat z\<rparr>,
        w_pc := Updating grad_idx (Suc i), w_params := opt_params z, w_grad := grad_of z, w_state := opt_state z\<rparr>)"

definition worker_done :: "('a, 'st) dpu \<Rightarrow> ('a, 'st) dpu" where
  "worker_done s = s\<lparr>to_main := to_main s @ [''done''], w_pc := WaitCmd\<rparr>"

inductive dpu_step :: "('a, 'st) oenv \<Rightarrow> (nat \<Rightarrow> 'a list list) \<Rightarrow> ('a, 'st) dpu \<Rightarrow> ('a, 'st) dpu \<Rightarrow> bool"
  for env :: "('a, 'st) oenv" and G :: "nat \<Rightarrow> 'a list list" where
  MStep: "m_pc s = AtStep \<Longrightarrow> dpu_step env G s ((take_model_step_dpu s)\<lparr>m_pc := AtBackward 0\<rparr>)"
| MWrite: "m_pc s = AtBackward k \<Longrightarrow> k < num_subgroups s \<Longrightarrow>
    dpu_step env G s ((write_grad k (G (iter s) ! k) s)\<lparr>m_pc := AtBackward (Suc k)\<rparr>)"
| MBackwardEnd: "m_pc s = AtBackward (num_subgroups s) \<Longrightarrow> dpu_step env G s (s\<lparr>m_pc := AtUpdate\<rparr>)"
| MUpdate: "m_pc s = AtUpdate \<Longrightarrow> update_new_params env s = Some (Inr t) \<Longrightarrow>
    dpu_step env G s (t\<lparr>m_pc := AtStep, iter := Suc (iter t)\<rparr>)"
| MFail: "m_pc s = AtUpdate \<Longrightarrow> update_new_params env s = Some (Inl e) \<Longrightarrow> dpu_step env G s (s\<lparr>m_pc := Failed e\<rparr>)"
| WRecv: "w_pc s = WaitCmd \<Longrightarrow> worker_recv s = Some t \<Longrightarrow> dpu_step env G s t"
| WUpdate: "w_pc s = Updating b i \<Longrightarrow> i < num_subgroups s \<Longrightarrow> dpu_step env G s (worker_sub_group env b i s)"
| WDone: "w_pc s = Updating b (num_subgroups s) \<Longrightarrow> dpu_step env G s (worker_done s)"

inductive dpu_reach :: "('a, 'st) oenv \<Rightarrow> (nat \<Rightarrow> 'a list list) \<Rightarrow> ('a, 'st) dpu \<Rightarrow> ('a, 'st) dpu \<Rightarrow> bool"
  for env :: "('a, 'st) oenv" and G :: "nat \<Rightarrow> 'a list list" and s0 :: "('a, 'st) dpu" where
  dpu_init: "dpu_reach env G s0 s0"
| dpu_next: "dpu_reach env G s0 s \<Longrightarrow> dpu_step env G s t \<Longrightarrow> dpu_reach env G s0 t"

text \<open>
  After \<^verbatim>\<open>start_adam_process\<close>: the worker has announced itself and waits, the group of its
  optimizer has been emptied.
\<close>

definition start_adam_process :: "'st \<Rightarrow> ('a, 'st) zopt \<Rightarrow> ('a, 'st) dpu" where
  "start_adam_process st z =
     \<lparr>opt = z, grad_buf_switch = 0, adam_step_pending = False, dpu_steps = 0, to_worker = [], to_main = [],
      w_pc = WaitCmd, w_params = [[]], w_grad = (\<lambda>_. None), w_state = st,
      m_pc = AtStep, iter = 0\<rparr>"

text \<open>
  \<^verbatim>\<open>stop_adam_process\<close>: the main process sends the command and waits, and the worker goes on by itself,
  for \<open>n\<close> turns within the timeout; a process that is then still alive is terminated, a thread is not.
\<close>

definition worker_turn :: "('a, 'st) oenv \<Rightarrow> ('a, 'st) dpu \<Rightarrow> ('a, 'st) dpu" where
  "worker_turn env s =
     (case w_pc s of
        WaitCmd \<Rightarrow> (case worker_recv s of None \<Rightarrow> s | Some t \<Rightarrow> t)
      | Updating b i \<Rightarrow> if i < num_subgroups s then worker_sub_group env b i s else worker_done s
      | Stopped \<Rightarrow> s)"

definition stop_adam_process :: "('a, 'st) oenv \<Rightarrow> bool \<Rightarrow> nat \<Rightarrow> ('a, 'st) dpu \<Rightarrow> ('a, 'st) dpu" where
  "stop_adam_process env forked n s =
     (let s1 = (worker_turn env ^^ n) (s\<lparr>to_worker := to_worker s @ [CmdShutdown]\<rparr>)
      in if forked then s1\<lparr>w_pc := Stopped\<rparr> else s1)"

section \<open>The invariant\<close>

text \<open>\<open>j\<close> updates, with the gradients of the iterations before \<open>j\<close>.\<close>

fun updated :: "('a, 'st) oenv \<Rightarrow> nat list \<Rightarrow> (nat \<Rightarrow> 'a list list) \<Rightarrow> 'st \<times> 'a list list \<Rightarrow> nat \<Rightarrow> 'st \<times> 'a list list" where
  "updated env gids G x 0 = x"
| "updated env gids G x (Suc j) =
     (case updated env gids G x j of (st, ws) \<Rightarrow> adam_all env gids st ws (G j))"

lemma length_updated: "length (snd (updated env gids G x j)) = length (snd x)"
  by (induction j) (simp_all add: adam_all_def length_adam_upto case_prod_unfold)

definition idle_at :: "'st \<times> 'a list list \<Rightarrow> ('a, 'st) dpu \<Rightarrow> bool" where
  "idle_at x s \<longleftrightarrow> w_pc s = WaitCmd \<and> to_worker s = [] \<and> to_main s = []
     \<and> (w_state s, fp32_partitioned_groups_flat (opt s)) = x"

definition in_round :: "('a, 'st) oenv \<Rightarrow> 'st \<times> 'a list list \<Rightarrow> 'a list list \<Rightarrow> nat \<Rightarrow> ('a, 'st) dpu \<Rightarrow> bool" where
  "in_round env x ds i s \<longleftrightarrow>
     (case adam_upto env (sub_group_to_group_id (lay (opt s))) (fst x) (snd x) ds i of
        (st, vs) \<Rightarrow> w_state s = st \<and> fp32_partitioned_groups_flat (opt s) = vs @ drop i (snd x))"

definition working :: "('a, 'st) oenv \<Rightarrow> nat \<Rightarrow> 'st \<times> 'a list list \<Rightarrow> 'a list list \<Rightarrow> ('a, 'st) dpu \<Rightarrow> bool" where
  "working env b x ds s \<longleftrightarrow>
     (if to_worker s = [CmdStep b] then w_pc s = WaitCmd \<and> to_main s = [] \<and> in_round env x ds 0 s
      else to_worker s = []
        \<and> (case w_pc s of
             WaitCmd \<Rightarrow> to_main s = [''done''] \<and> in_round env x ds (num_subgroups s) s
           | Updating b' i \<Rightarrow> b' = b \<and> i \<le> num_subgroups s \<and> to_main s = [] \<and> in_round env x ds i s
           | Stopped \<Rightarrow> False))"

definition shared_ok :: "(nat \<Rightarrow> nat) \<Rightarrow> ('a, 'st) dpu \<Rightarrow> bool" where
  "shared_ok n s \<longleftrightarrow> zopt_ok n (opt s) \<and> (\<forall>g \<in> set (sub_group_to_group_id (lay (opt s))). g = 0) \<and> w_params s = [[]]
     \<and> length (fp32_grad_bufs (opt s) 0) = num_subgroups s \<and> length (fp32_grad_bufs (opt s) 1) = num_subgroups s"

definition busy :: "('a, 'st) oenv \<Rightarrow> (nat \<Rightarrow> 'a list list) \<Rightarrow> 'st \<times> 'a list list \<Rightarrow> ('a, 'st) dpu \<Rightarrow> bool" where
  "busy env G x s \<longleftrightarrow>
     (let u = updated env (sub_group_to_group_id (lay (opt s))) G x in
      if iter s = 0 then idle_at (u 0) s
      else fp32_grad_bufs (opt s) (1 - grad_buf_switch s) = G (iter s - 1)
        \<and> working env (1 - grad_buf_switch s) (u (iter s - 1)) (G (iter s - 1)) s)"

definition main_at :: "('a, 'st) oenv \<Rightarrow> (nat \<Rightarrow> 'a list list) \<Rightarrow> 'st \<times> 'a list list \<Rightarrow> ('a, 'st) dpu \<Rightarrow> bool" where
  "main_at env G x s \<longleftrightarrow>
     (case m_pc s of
        AtStep \<Rightarrow> dpu_steps s = iter s
          \<and> idle_at (updated env (sub_group_to_group_id (lay (opt s))) G x (iter s - 1)) s
          \<and> (0 < iter s \<longrightarrow> fp32_grad_bufs (opt s) (1 - grad_buf_switch s) = G (iter s - 1)
              \<and> flat_values (lay (opt s)) = map (map (cvt env (model_dtype env))) (fp32_partitioned_groups_flat (opt s)))
      | AtBackward k \<Rightarrow> k \<le> num_subgroups s \<and> dpu_steps s = Suc (iter s) \<and> adam_step_pending s = (0 < iter s)
          \<and> take k (fp32_grad_bufs (opt s) (grad_buf_switch s)) = take k (G (iter s)) \<and> busy env G x s
      | AtUpdate \<Rightarrow> dpu_steps s = Suc (iter s) \<and> adam_step_pending s = (0 < iter s)
          \<and> fp32_grad_bufs (opt s) (grad_buf_switch s) = G (iter s) \<and> busy env G x s
      | Failed e \<Rightarrow> False)"

definition dpu_inv :: "(nat \<Rightarrow> nat) \<Rightarrow> ('a, 'st) oenv \<Rightarrow> (nat \<Rightarrow> 'a list list) \<Rightarrow> 'st \<times> 'a list list \<Rightarrow> ('a, 'st) dpu \<Rightarrow> bool" where
  "dpu_inv n env G x s \<longleftrightarrow> shared_ok n s \<and> grad_buf_switch s = iter s mod 2 \<and> main_at env G x s
     \<and> (\<forall>j. length (G j) = num_subgroups s) \<and> length (snd x) = num_subgroups s"

section \<open>Every step keeps the invariant\<close>

lemma worker_sub_group_eq:
  assumes "shared_ok n s" and "i < num_subgroups s"
    and "adam env (sub_group_to_group_id (lay (opt s)) ! i) i (w_state s) (fp32_partitioned_groups_flat (opt s) ! i)
      (fp32_grad_bufs (opt s) b ! i) = (st, w)"
  shows "worker_sub_group env b i s
    = s\<lparr>opt := (opt s)\<lparr>fp32_partitioned_groups_flat := (fp32_partitioned_groups_flat (opt s))[i := w]\<rparr>,
        w_pc := Updating b (Suc i), w_grad := (w_grad s)(i := None), w_state := st\<rparr>"
proof -
  let ?g = "sub_group_to_group_id (lay (opt s)) ! i"
  let ?z = "(worker_zopt s)\<lparr>grad_of := (w_grad s)(i \<mapsto> b)\<rparr>"
  have i: "i < length (fp16_groups (lay (opt s)))" using assms(2) by (simp add: num_subgroups_def)
  have lenid: "length (sub_group_to_group_id (lay (opt s))) = length (fp16_groups (lay (opt s)))"
    using assms(1) by (simp add: shared_ok_def zopt_ok_def opt_ok_def)
  have all0: "\<forall>g \<in> set (sub_group_to_group_id (lay (opt s))). g = 0" and wp: "w_params s = [[]]"
    using assms(1) by (simp_all add: shared_ok_def)
  have g0: "?g = 0" using all0 i lenid by simp
  have ok: "opt_ok ?z" using all0 wp lenid by (auto simp: opt_ok_def worker_zopt_def)
  have "optimizer_step env i ?z = adam_update env ?g i ?z"
    using optimizer_step_eq [OF ok, of i env] i by (simp add: worker_zopt_def)
  also have "\<dots> = ?z\<lparr>fp32_partitioned_groups_flat := (fp32_partitioned_groups_flat (opt s))[i := w], opt_state := st\<rparr>"
    using assms(3) by (simp add: adam_update_def worker_zopt_def)
  finally have "worker_update env b i (worker_zopt s)
      = (?z\<lparr>fp32_partitioned_groups_flat := (fp32_partitioned_groups_flat (opt s))[i := w], opt_state := st\<rparr>)
          \<lparr>grad_of := (w_grad s)(i := None)\<rparr>"
    by (simp add: worker_update_def worker_zopt_def)
  then show ?thesis using wp g0 by (cases s) (simp add: worker_sub_group_def worker_zopt_def)
qed

text \<open>The worker changes nothing the training process looks at.\<close>

definition same_main :: "('a, 'st) dpu \<Rightarrow> ('a, 'st) dpu \<Rightarrow> bool" where
  "same_main s t \<longleftrightarrow> m_pc t = m_pc s \<and> iter t = iter s \<and> dpu_steps t = dpu_steps s
     \<and> adam_step_pending t = adam_step_pending s \<and> grad_buf_switch t = grad_buf_switch s
     \<and> fp32_grad_bufs (opt t) = fp32_grad_bufs (opt s) \<and> lay (opt t) = lay (opt s)"

definition round_of :: "('a, 'st) oenv \<Rightarrow> (nat \<Rightarrow> 'a list list) \<Rightarrow> 'st \<times> 'a list list \<Rightarrow> ('a, 'st) dpu \<Rightarrow> ('a, 'st) dpu \<Rightarrow> bool" where
  "round_of env G x s t \<longleftrightarrow> working env (1 - grad_buf_switch s)
     (updated env (sub_group_to_group_id (lay (opt s))) G x (iter s - 1)) (G (iter s - 1)) t"

lemma inv_worker:
  assumes "dpu_inv n env G x s" and "w_pc s \<noteq> WaitCmd \<or> to_worker s \<noteq> []"
  shows "m_pc s \<noteq> AtStep" "0 < iter s" "fp32_grad_bufs (opt s) (1 - grad_buf_switch s) = G (iter s - 1)" "round_of env G x s s"
  using assms
  by (auto simp: dpu_inv_def main_at_def busy_def idle_at_def round_of_def Let_def split: main_pc.splits if_splits)

lemma worker_alive: "dpu_inv n env G x s \<Longrightarrow> w_pc s \<noteq> Stopped"
  using inv_worker(4) [of n env G x s] by (auto simp: round_of_def working_def split: if_splits)

lemma inv_swap:
  assumes "dpu_inv n env G x s" and "same_main s t" and "shared_ok n t"
    and "m_pc s \<noteq> AtStep" "0 < iter s" "fp32_grad_bufs (opt s) (1 - grad_buf_switch s) = G (iter s - 1)" "round_of env G x s t"
  shows "dpu_inv n env G x t"
  using assms
  by (auto simp: dpu_inv_def main_at_def busy_def same_main_def round_of_def num_subgroups_def Let_def split: main_pc.splits)

lemma worker_recv_keeps:
  assumes "dpu_inv n env G x s" and "w_pc s = WaitCmd" and "worker_recv s = Some t"
  shows "dpu_inv n env G x t"
proof -
  have ne: "to_worker s \<noteq> []" using assms(3) by (auto simp: worker_recv_def split: list.splits)
  note w = inv_worker [OF assms(1), OF disjI2, OF ne]
  have cmd: "to_worker s = [CmdStep (1 - grad_buf_switch s)]"
    using w(4) ne by (auto simp: round_of_def working_def split: if_splits)
  then have t: "t = s\<lparr>to_worker := [], w_pc := Updating (1 - grad_buf_switch s) 0\<rparr>"
    using assms(3) by (simp add: worker_recv_def)
  show ?thesis
  proof (rule inv_swap [OF assms(1) _ _ w(1-3)])
    show "same_main s t" by (simp add: same_main_def t)
    show "shared_ok n t" using assms(1) by (simp add: t dpu_inv_def shared_ok_def num_subgroups_def)
    show "round_of env G x s t"
      using w(4) cmd by (simp add: round_of_def working_def t in_round_def)
  qed
qed

lemma worker_done_keeps:
  assumes "dpu_inv n env G x s" and "w_pc s = Updating b (num_subgroups s)"
  shows "dpu_inv n env G x (worker_done s)"
proof -
  note w = inv_worker [OF assms(1), OF disjI1, unfolded assms(2), OF worker_pc.distinct(2)]
  show ?thesis
  proof (rule inv_swap [OF assms(1) _ _ w(1-3)])
    show "same_main s (worker_done s)" by (simp add: same_main_def worker_done_def)
    show "shared_ok n (worker_done s)"
      using assms(1) by (simp add: worker_done_def dpu_inv_def shared_ok_def num_subgroups_def)
    show "round_of env G x s (worker_done s)"
      using w(4) assms(2) by (auto simp: round_of_def working_def worker_done_def in_round_def num_subgroups_def split: if_splits)
  qed
qed

lemma worker_update_keeps:
  assumes "dpu_inv n env G x s" and "keeps_length env" and "w_pc s = Updating b i" and "i < num_subgroups s"
  shows "dpu_inv n env G x (worker_sub_group env b i s)"
proof -
  note w = inv_worker [OF assms(1), OF disjI1, unfolded assms(3), OF worker_pc.distinct(2)]
  define y where "y = updated env (sub_group_to_group_id (lay (opt s))) G x (iter s - 1)"
  define ds where "ds = G (iter s - 1)"
  let ?gids = "sub_group_to_group_id (lay (opt s))" and ?ws = "fp32_partitioned_groups_flat (opt s)"
  have sh: "shared_ok n s" using assms(1) by (simp add: dpu_inv_def)
  have lenw: "length ?ws = num_subgroups s"
    using sh zopt_lengths(1) by (auto simp: shared_ok_def num_subgroups_def)
  have r: "b = 1 - grad_buf_switch s" "to_worker s = []" "to_main s = []" "in_round env y ds i s"
    using w(4) assms(3) unfolding round_of_def y_def [symmetric] ds_def [symmetric] working_def by (auto split: if_splits)
  obtain st vs where vs: "adam_upto env ?gids (fst y) (snd y) ds i = (st, vs)" by (metis surj_pair)
  have lenv: "length vs = i" using length_adam_upto [of env ?gids "fst y" "snd y" ds i] by (simp add: vs)
  have now: "w_state s = st" "?ws = vs @ drop i (snd y)" using r(4) by (simp_all add: in_round_def vs)
  have leny: "length (snd y) = num_subgroups s" using lenw lenv assms(4) by (simp add: now(2))
  have wi: "?ws ! i = snd y ! i" using lenv leny assms(4) by (simp add: now(2) nth_append)
  obtain st1 v where v: "adam env (?gids ! i) i st (snd y ! i) (ds ! i) = (st1, v)" by (metis surj_pair)
  have eq: "worker_sub_group env b i s
    = s\<lparr>opt := (opt s)\<lparr>fp32_partitioned_groups_flat := ?ws[i := v]\<rparr>, w_pc := Updating b (Suc i),
        w_grad := (w_grad s)(i := None), w_state := st1\<rparr>"
    by (rule worker_sub_group_eq [OF sh assms(4)]) (simp only: v now(1) wi r(1) w(3) ds_def [symmetric])
  have upd: "?ws[i := v] = (vs @ [v]) @ drop (Suc i) (snd y)"
    using lenv leny assms(4) by (simp add: now(2) list_update_append Cons_nth_drop_Suc [symmetric])
  have "length v = length (?ws ! i)" using assms(2) v wi unfolding keeps_length_def by (metis snd_conv)
  then have "map length (?ws[i := v]) = map length ?ws"
    by (metis list_update_id map_update)
  then have sh': "shared_ok n (worker_sub_group env b i s)"
    using sh by (simp add: eq shared_ok_def zopt_ok_def opt_ok_def num_subgroups_def)
  show ?thesis
  proof (rule inv_swap [OF assms(1) _ sh' w(1-3)])
    show "same_main s (worker_sub_group env b i s)" by (simp add: same_main_def eq)
    show "round_of env G x s (worker_sub_group env b i s)"
      using r(1,2,3) assms(4) upd
      unfolding round_of_def y_def [symmetric] ds_def [symmetric] eq
      by (simp add: working_def eq in_round_def adam_upto_Suc vs v num_subgroups_def)
  qed
qed

text \<open>The training process.\<close>

lemma step_keeps:
  assumes "dpu_inv n env G x s" and "m_pc s = AtStep"
  shows "dpu_inv n env G x ((take_model_step_dpu s)\<lparr>m_pc := AtBackward 0\<rparr>)"
proof -
  let ?t = "(take_model_step_dpu s)\<lparr>m_pc := AtBackward 0\<rparr>"
  let ?u = "updated env (sub_group_to_group_id (lay (opt s))) G x"
  have s: "dpu_steps s = iter s" "idle_at (?u (iter s - 1)) s" "0 < iter s \<longrightarrow> fp32_grad_bufs (opt s) (1 - grad_buf_switch s) = G (iter s - 1)"
    using assms(1) unfolding dpu_inv_def main_at_def assms(2) main_pc.case by blast+
  have t: "opt ?t = opt s" "grad_buf_switch ?t = grad_buf_switch s" "iter ?t = iter s" "dpu_steps ?t = Suc (dpu_steps s)"
      "adam_step_pending ?t = (dpu_steps s \<noteq> 0)" "w_pc ?t = w_pc s" "to_main ?t = to_main s" "w_state ?t = w_state s"
      "to_worker ?t = (if dpu_steps s = 0 then to_worker s else to_worker s @ [CmdStep (1 - grad_buf_switch s)])"
      "w_params ?t = w_params s"
    by (simp_all add: take_model_step_dpu_def step_dpu_def Let_def)
  have y: "?u (iter s - 1) = (w_state s, fp32_partitioned_groups_flat (opt s))"
    using s(2) unfolding idle_at_def by metis
  have idle: "w_pc s = WaitCmd" "to_worker s = []" "to_main s = []" using s(2) by (simp_all add: idle_at_def)
  have "busy env G x ?t"
  proof (cases "iter s")
    case 0
    then show ?thesis using idle s(1) y by (simp add: busy_def t Let_def idle_at_def)
  next
    case (Suc j)
    have yj: "?u j = (w_state s, fp32_partitioned_groups_flat (opt s))" using y Suc by simp
    show ?thesis
      using idle s(1,3) Suc by (simp add: busy_def Let_def t yj working_def in_round_def adam_upto_def)
  qed
  then show ?thesis
    using assms(1) s(1) by (simp add: dpu_inv_def main_at_def shared_ok_def num_subgroups_def t)
qed

lemma busy_cong:
  assumes "lay (opt t) = lay (opt s)" "iter t = iter s" "grad_buf_switch t = grad_buf_switch s"
    "w_pc t = w_pc s" "to_worker t = to_worker s" "to_main t = to_main s" "w_state t = w_state s"
    "fp32_partitioned_groups_flat (opt t) = fp32_partitioned_groups_flat (opt s)"
    "fp32_grad_bufs (opt t) (1 - grad_buf_switch s) = fp32_grad_bufs (opt s) (1 - grad_buf_switch s)"
  shows "busy env G x t = busy env G x s"
  using assms by (simp add: busy_def idle_at_def working_def in_round_def num_subgroups_def Let_def split: worker_pc.split)

lemma write_keeps:
  assumes "dpu_inv n env G x s" and "m_pc s = AtBackward k" and "k < num_subgroups s"
  shows "dpu_inv n env G x ((write_grad k (G (iter s) ! k) s)\<lparr>m_pc := AtBackward (Suc k)\<rparr>)"
proof -
  let ?t = "(write_grad k (G (iter s) ! k) s)\<lparr>m_pc := AtBackward (Suc k)\<rparr>"
  have sw: "grad_buf_switch s = 0 \<or> grad_buf_switch s = 1" using assms(1) by (auto simp: dpu_inv_def)
  have "busy env G x s" "take k (fp32_grad_bufs (opt s) (grad_buf_switch s)) = take k (G (iter s))"
    using assms(1) unfolding dpu_inv_def main_at_def assms(2) main_pc.case by blast+
  moreover have "busy env G x ?t = busy env G x s" using sw by (intro busy_cong) (auto simp: write_grad_def)
  moreover have len: "k < length (fp32_grad_bufs (opt s) (grad_buf_switch s))" "k < length (G (iter s))"
    using assms(1,3) sw by (auto simp: dpu_inv_def shared_ok_def)
  ultimately have "take (Suc k) ((fp32_grad_bufs (opt s) (grad_buf_switch s))[k := G (iter s) ! k]) = take (Suc k) (G (iter s))"
    by (simp add: take_Suc_conv_app_nth)
  then show ?thesis
    using assms \<open>busy env G x ?t = busy env G x s\<close> \<open>busy env G x s\<close>
    by (auto simp: dpu_inv_def main_at_def shared_ok_def num_subgroups_def write_grad_def zopt_ok_def opt_ok_def)
qed

lemma backward_end_keeps:
  assumes "dpu_inv n env G x s" and "m_pc s = AtBackward (num_subgroups s)"
  shows "dpu_inv n env G x (s\<lparr>m_pc := AtUpdate\<rparr>)"
proof -
  have sw: "grad_buf_switch s = 0 \<or> grad_buf_switch s = 1" using assms(1) by (auto simp: dpu_inv_def)
  then have "length (fp32_grad_bufs (opt s) (grad_buf_switch s)) = num_subgroups s" "length (G (iter s)) = num_subgroups s"
    using assms(1) by (auto simp: dpu_inv_def shared_ok_def)
  moreover have "busy env G x (s\<lparr>m_pc := AtUpdate\<rparr>) = busy env G x s" by (rule busy_cong) simp_all
  ultimately show ?thesis
    using assms by (auto simp: dpu_inv_def main_at_def shared_ok_def num_subgroups_def)
qed

text \<open>When the training process gets to the update and there is a message, the round is over.\<close>

lemma update_ready:
  assumes "dpu_inv n env G x s" and "m_pc s = AtUpdate" and "adam_step_pending s \<longrightarrow> to_main s \<noteq> []"
  shows "idle_at (updated env (sub_group_to_group_id (lay (opt s))) G x (iter s)) (s\<lparr>to_main := []\<rparr>)"
    and "adam_step_pending s \<Longrightarrow> to_main s = [''done'']" and "\<not> adam_step_pending s \<Longrightarrow> to_main s = []"
proof -
  let ?gids = "sub_group_to_group_id (lay (opt s))"
  have b: "busy env G x s" "adam_step_pending s = (0 < iter s)" using assms(1,2) by (simp_all add: dpu_inv_def main_at_def)
  have "idle_at (updated env ?gids G x (iter s)) (s\<lparr>to_main := []\<rparr>)
      \<and> (adam_step_pending s \<longrightarrow> to_main s = [''done'']) \<and> (\<not> adam_step_pending s \<longrightarrow> to_main s = [])"
  proof (cases "iter s")
    case 0
    then show ?thesis using b by (simp add: busy_def idle_at_def Let_def)
  next
    case (Suc j)
    define y where "y = updated env ?gids G x j"
    have w: "working env (1 - grad_buf_switch s) y (G j) s" using b(1) Suc by (simp add: busy_def Let_def y_def)
    then have d: "w_pc s = WaitCmd" "to_worker s = []" "to_main s = [''done'']" "in_round env y (G j) (num_subgroups s) s"
      using assms(3) b(2) Suc by (auto simp: working_def split: if_splits worker_pc.splits)
    obtain st vs where vs: "adam_upto env ?gids (fst y) (snd y) (G j) (num_subgroups s) = (st, vs)" by (metis surj_pair)
    have r: "w_state s = st" "fp32_partitioned_groups_flat (opt s) = vs @ drop (num_subgroups s) (snd y)"
      using d(4) by (simp_all add: in_round_def vs)
    have leny: "length (snd y) = num_subgroups s"
      using assms(1) by (simp add: y_def length_updated dpu_inv_def)
    then have "updated env ?gids G x (Suc j) = (st, vs)"
      using vs by (cases y) (simp add: y_def [symmetric] adam_all_def)
    then show ?thesis using d b(2) r leny Suc by (simp add: idle_at_def)
  qed
  then show "idle_at (updated env ?gids G x (iter s)) (s\<lparr>to_main := []\<rparr>)"
    "adam_step_pending s \<Longrightarrow> to_main s = [''done'']" "\<not> adam_step_pending s \<Longrightarrow> to_main s = []" by blast+
qed

lemma update_keeps:
  assumes "dpu_inv n env G x s" and "m_pc s = AtUpdate" and "adam_step_pending s \<longrightarrow> to_main s \<noteq> []"
  shows "\<exists>t. update_new_params env s = Some (Inr t) \<and> dpu_inv n env G x (t\<lparr>m_pc := AtStep, iter := Suc (iter t)\<rparr>)"
proof -
  let ?gids = "sub_group_to_group_id (lay (opt s))"
  note ready = update_ready [OF assms]
  have sh: "shared_ok n s" "grad_buf_switch s = iter s mod 2" "\<forall>j. length (G j) = num_subgroups s" "length (snd x) = num_subgroups s"
      "dpu_steps s = Suc (iter s)" "fp32_grad_bufs (opt s) (grad_buf_switch s) = G (iter s)"
    using assms(1) unfolding dpu_inv_def main_at_def assms(2) main_pc.case by blast+
  have "zopt_ok n (opt s)" using sh(1) by (simp add: shared_ok_def)
  then obtain l where l: "reassign_all env (opt s) = Inr (opt s\<lparr>lay := l\<rparr>)" "same_layout (lay (opt s)) l" "layout_ok n l"
      "flat_values l = map (map (cvt env (model_dtype env))) (fp32_partitioned_groups_flat (opt s))"
    using reassign_all_eq by blast
  let ?s1 = "s\<lparr>to_main := []\<rparr>"
  let ?t = "?s1\<lparr>opt := opt s\<lparr>lay := l\<rparr>, grad_buf_switch := 1 - grad_buf_switch s\<rparr>"
  have s1: "s\<lparr>to_main := []\<rparr> = s" if "to_main s = []" using that by (cases s) simp
  have t: "update_new_params env s = Some (Inr ?t)"
    using ready(2,3) l(1) s1 by (cases "adam_step_pending s") (simp_all add: update_new_params_def recv_from_worker_def)
  note same = same_layout_fields [OF l(2)]
  have "zopt_ok n (opt s\<lparr>lay := l\<rparr>)"
    using sh(1) same l(3) by (simp add: shared_ok_def zopt_ok_def opt_ok_def)
  then have "shared_ok n (?t\<lparr>m_pc := AtStep, iter := Suc (iter ?t)\<rparr>)"
    using sh(1) same by (simp add: shared_ok_def num_subgroups_def)
  moreover have "1 - iter s mod 2 = Suc (iter s) mod 2" by presburger
  moreover have "main_at env G x (?t\<lparr>m_pc := AtStep, iter := Suc (iter ?t)\<rparr>)"
    using ready(1) sh same l(4) by (simp add: main_at_def idle_at_def)
  ultimately have "dpu_inv n env G x (?t\<lparr>m_pc := AtStep, iter := Suc (iter ?t)\<rparr>)"
    using sh same by (simp add: dpu_inv_def num_subgroups_def)
  then show ?thesis using t by blast
qed

lemma dpu_step_keeps:
  assumes "dpu_step env G s t" and "dpu_inv n env G x s" and "keeps_length env"
  shows "dpu_inv n env G x t"
  using assms(1)
proof cases
  case MStep
  then show ?thesis using step_keeps [OF assms(2)] by simp
next
  case (MWrite k)
  then show ?thesis using write_keeps [OF assms(2)] by simp
next
  case MBackwardEnd
  then show ?thesis using backward_end_keeps [OF assms(2)] by simp
next
  case (MUpdate t1)
  then have "adam_step_pending s \<longrightarrow> to_main s \<noteq> []"
    by (auto simp: update_new_params_def recv_from_worker_def split: if_splits)
  then show ?thesis using update_keeps [OF assms(2) MUpdate(2)] MUpdate by auto
next
  case (MFail e)
  then have "adam_step_pending s \<longrightarrow> to_main s \<noteq> []"
    using worker_alive [OF assms(2)] by (auto simp: update_new_params_def recv_from_worker_def)
  then show ?thesis using update_keeps [OF assms(2) MFail(2)] MFail by auto
next
  case WRecv
  then show ?thesis using worker_recv_keeps [OF assms(2)] by simp
next
  case (WUpdate b i)
  then show ?thesis using worker_update_keeps [OF assms(2,3)] by simp
next
  case (WDone b)
  then show ?thesis using worker_done_keeps [OF assms(2)] by simp
qed

section \<open>Safety and refinement\<close>

text \<open>What the two processes may be started from: an optimizer with one group of parameters.\<close>

definition dpu_start_ok :: "(nat \<Rightarrow> nat) \<Rightarrow> (nat \<Rightarrow> 'a list list) \<Rightarrow> ('a, 'st) zopt \<Rightarrow> bool" where
  "dpu_start_ok n G z \<longleftrightarrow> zopt_ok n z \<and> (\<forall>g \<in> set (sub_group_to_group_id (lay z)). g = 0)
     \<and> length (fp32_grad_bufs z 0) = length (fp16_groups (lay z)) \<and> length (fp32_grad_bufs z 1) = length (fp16_groups (lay z))
     \<and> (\<forall>j. length (G j) = length (fp16_groups (lay z)))"

lemma start_inv:
  "dpu_start_ok n G z \<Longrightarrow> dpu_inv n env G (st, fp32_partitioned_groups_flat z) (start_adam_process st z)"
  using zopt_lengths(1) [of n z]
  by (simp add: dpu_start_ok_def dpu_inv_def shared_ok_def main_at_def start_adam_process_def num_subgroups_def idle_at_def)

lemma reach_keeps:
  "dpu_reach env G s0 s \<Longrightarrow> dpu_inv n env G x s0 \<Longrightarrow> keeps_length env \<Longrightarrow> dpu_inv n env G x s"
  by (induction rule: dpu_reach.induct) (auto intro: dpu_step_keeps)

text \<open>What never changes.\<close>

definition same_static :: "('a, 'st) dpu \<Rightarrow> ('a, 'st) dpu \<Rightarrow> bool" where
  "same_static s t \<longleftrightarrow> fp16_groups (lay (opt t)) = fp16_groups (lay (opt s))
     \<and> sub_group_to_group_id (lay (opt t)) = sub_group_to_group_id (lay (opt s))"

lemma reassign_static:
  assumes "reassign_partitioned_parameters env i z = Inr z'"
  shows "fp16_groups (lay z') = fp16_groups (lay z) \<and> sub_group_to_group_id (lay z') = sub_group_to_group_id (lay z)"
  using assms
  by (auto simp: reassign_partitioned_parameters_def write_view_def unflatten_partitioned_parameters_def Let_def
      elim!: ebind_InrE split: prod.splits)

lemma reassign_all_static:
  "reassign_all env z = Inr z' \<Longrightarrow>
    fp16_groups (lay z') = fp16_groups (lay z) \<and> sub_group_to_group_id (lay z') = sub_group_to_group_id (lay z)"
  unfolding reassign_all_def
  by (erule foldE_invariant [where I = "\<lambda>y. fp16_groups (lay y) = fp16_groups (lay z)
        \<and> sub_group_to_group_id (lay y) = sub_group_to_group_id (lay z)"]) (auto dest: reassign_static)

lemma update_Inr:
  assumes "update_new_params env s = Some (Inr t)"
  shows "same_static s t" and "iter t = iter s" and "m_pc t = m_pc s" and "adam_step_pending s \<Longrightarrow> to_main s \<noteq> []"
    and "dpu_steps t = dpu_steps s" "to_worker t = to_worker s" "w_pc t = w_pc s" "w_params t = w_params s"
    and "\<not> adam_step_pending s \<Longrightarrow> to_main t = to_main s"
  using assms
  by (auto simp: update_new_params_def recv_from_worker_def same_static_def assert_that_def elim!: ebind_InrE
      dest!: reassign_all_static split: if_splits list.splits)

lemma step_static: "dpu_step env G s t \<Longrightarrow> same_static s t"
proof (induction rule: dpu_step.induct)
  case (MUpdate s t)
  then show ?case using update_Inr(1) by (fastforce simp: same_static_def)
qed (auto simp: same_static_def take_model_step_dpu_def step_dpu_def write_grad_def worker_recv_def worker_sub_group_def
      worker_done_def Let_def split: list.splits adam_cmd.splits)

lemma reach_static: "dpu_reach env G s0 s \<Longrightarrow> same_static s0 s"
  by (induction rule: dpu_reach.induct) (auto simp: same_static_def dest!: step_static)

text \<open>
  C9: the processes do not meet in the buffers they share, for any interleaving of their steps.
  While the worker is in a round it reads the set of gradients the training process does not
  write; while the training process copies the weights back the worker is not in a round; the
  worker stays alive, and the update never gets an unexpected message or fails otherwise.
\<close>

theorem dpu_no_conflict:
  assumes "dpu_start_ok n G z" and "keeps_length env" and "dpu_reach env G (start_adam_process st z) s"
  shows "case w_pc s of Updating b i \<Rightarrow> b = 1 - grad_buf_switch s \<and> b \<noteq> grad_buf_switch s \<and> i \<le> num_subgroups s
             \<and> m_pc s \<noteq> AtStep \<and> update_new_params env s = None
         | Stopped \<Rightarrow> False
         | WaitCmd \<Rightarrow> (case m_pc s of AtUpdate \<Rightarrow> (case update_new_params env s of None \<Rightarrow> to_worker s \<noteq> [] | Some (Inl e) \<Rightarrow> False | Some (Inr t) \<Rightarrow> to_worker s = []) | _ \<Rightarrow> True)"
proof -
  have inv: "dpu_inv n env G (st, fp32_partitioned_groups_flat z) s"
    by (rule reach_keeps [OF assms(3) start_inv [OF assms(1)] assms(2)])
  have sw: "grad_buf_switch s = 0 \<or> grad_buf_switch s = 1" using inv by (auto simp: dpu_inv_def)
  show ?thesis
  proof (cases "w_pc s")
    case (Updating b i)
    note w = inv_worker [OF inv, OF disjI1, unfolded Updating, OF worker_pc.distinct(2)]
    have r: "b = 1 - grad_buf_switch s" "to_main s = []" "i \<le> num_subgroups s"
      using w(4) Updating by (auto simp: round_of_def working_def split: if_splits)
    moreover have "adam_step_pending s"
      using inv w(1,2) by (auto simp: dpu_inv_def main_at_def split: main_pc.splits)
    ultimately show ?thesis using Updating w(1) sw by (auto simp: update_new_params_def recv_from_worker_def)
  next
    case Stopped
    then show ?thesis using worker_alive [OF inv] by simp
  next
    case WaitCmd
    have "case update_new_params env s of None \<Rightarrow> to_worker s \<noteq> [] | Some (Inl e) \<Rightarrow> False | Some (Inr t) \<Rightarrow> to_worker s = []"
      if m: "m_pc s = AtUpdate"
    proof (cases "adam_step_pending s \<longrightarrow> to_main s \<noteq> []")
      case True
      then obtain t where "update_new_params env s = Some (Inr t)" using update_keeps [OF inv m] by blast
      moreover have "to_worker s = []" using update_ready(1) [OF inv m True] by (simp add: idle_at_def)
      ultimately show ?thesis by simp
    next
      case False
      then have "update_new_params env s = None" using WaitCmd by (simp add: update_new_params_def recv_from_worker_def)
      moreover have "to_worker s \<noteq> []"
      proof
        assume "to_worker s = []"
        moreover have "busy env G (st, fp32_partitioned_groups_flat z) s" "adam_step_pending s = (0 < iter s)"
          using inv m by (simp_all add: dpu_inv_def main_at_def)
        ultimately show False using False WaitCmd by (simp add: busy_def working_def Let_def)
      qed
      ultimately show ?thesis by simp
    qed
    then show ?thesis using WaitCmd by (cases "m_pc s") simp_all
  qed
qed

text \<open>
  C4: the delayed update is the sequential one, a step behind. Whatever the interleaving, when the
  training process has finished \<open>j\<close> iterations the master weights and the worker's state are what
  the gradients of the first \<open>j - 1\<close> iterations make of the initial ones, applied in order, and
  the 16-bit shards are those weights rounded.
\<close>

theorem dpu_refines_sequential:
  assumes "dpu_start_ok n G z" and "keeps_length env" and "dpu_reach env G (start_adam_process st z) s" and "m_pc s = AtStep"
  shows "let x = updated env (sub_group_to_group_id (lay z)) G (st, fp32_partitioned_groups_flat z) (iter s - 1) in
      (w_state s, fp32_partitioned_groups_flat (opt s)) = x
    \<and> (if iter s = 0 then True
       else map (\<lambda>ps. concat (map (read_shard (lay (opt s))) ps)) (fp16_groups (lay z))
          = map (map (cvt env (model_dtype env))) (snd x))"
proof -
  have inv: "dpu_inv n env G (st, fp32_partitioned_groups_flat z) s"
    by (rule reach_keeps [OF assms(3) start_inv [OF assms(1)] assms(2)])
  have static: "fp16_groups (lay (opt s)) = fp16_groups (lay z)" "sub_group_to_group_id (lay (opt s)) = sub_group_to_group_id (lay z)"
    using reach_static [OF assms(3)] by (simp_all add: same_static_def start_adam_process_def)
  let ?x = "updated env (sub_group_to_group_id (lay z)) G (st, fp32_partitioned_groups_flat z) (iter s - 1)"
  have x: "(w_state s, fp32_partitioned_groups_flat (opt s)) = ?x"
    using inv unfolding dpu_inv_def main_at_def assms(4) main_pc.case idle_at_def static by blast
  have "map (\<lambda>ps. concat (map (read_shard (lay (opt s))) ps)) (fp16_groups (lay z))
      = map (map (cvt env (model_dtype env))) (snd ?x)" if "iter s \<noteq> 0"
  proof -
    have "flat_values (lay (opt s)) = map (map (cvt env (model_dtype env))) (fp32_partitioned_groups_flat (opt s))"
      using inv that unfolding dpu_inv_def main_at_def assms(4) main_pc.case by blast
    moreover have lay: "layout_ok n (lay (opt s))" using inv by (simp add: dpu_inv_def shared_ok_def zopt_ok_def)
    moreover have "length (flat_values (lay (opt s))) = length (fp16_groups (lay z))"
      using lay list_all2_lengthD static(1) by (fastforce simp: flat_values_def layout_ok_def)
    ultimately show ?thesis
      using shards_of_flat [OF lay] static(1) unfolding x [symmetric] by (intro nth_equalityI) simp_all
  qed
  then show ?thesis using x by (simp add: Let_def)
qed

text \<open>
  Stopping the worker between two iterations cuts no update short, whether it is terminated or has the
  time for a turn; the gradients of the last iteration are then in their buffer and stay there.
\<close>

lemma worker_turns_stopped: "w_pc s = Stopped \<Longrightarrow> (worker_turn env ^^ n) s = s"
  by (induction n) (simp_all add: worker_turn_def)

theorem stop_at_rest:
  assumes "dpu_start_ok n G z" and "keeps_length env" and "dpu_reach env G (start_adam_process st z) s" and "m_pc s = AtStep"
    and "forked \<or> 0 < k"
  shows "let t = stop_adam_process env forked k s in
      w_pc t = Stopped \<and> opt t = opt s \<and> w_state t = w_state s \<and> grad_buf_switch t = grad_buf_switch s
    \<and> (w_state t, fp32_partitioned_groups_flat (opt t))
        = updated env (sub_group_to_group_id (lay (opt t))) G (st, fp32_partitioned_groups_flat z) (iter s - 1)
    \<and> (0 < iter s \<longrightarrow> fp32_grad_bufs (opt t) (1 - grad_buf_switch t) = G (iter s - 1))"
proof -
  have "dpu_inv n env G (st, fp32_partitioned_groups_flat z) s"
    by (rule reach_keeps [OF assms(3) start_inv [OF assms(1)] assms(2)])
  then have idle: "w_pc s = WaitCmd" "to_worker s = []"
      "(w_state s, fp32_partitioned_groups_flat (opt s))
        = updated env (sub_group_to_group_id (lay (opt s))) G (st, fp32_partitioned_groups_flat z) (iter s - 1)"
      "0 < iter s \<Longrightarrow> fp32_grad_bufs (opt s) (1 - grad_buf_switch s) = G (iter s - 1)"
    using assms(4) unfolding dpu_inv_def main_at_def by (auto simp only: main_pc.simps idle_at_def)
  have "worker_turn env (s\<lparr>to_worker := to_worker s @ [CmdShutdown]\<rparr>) = s\<lparr>w_pc := Stopped\<rparr>"
    using idle(1,2) by (cases s) (simp add: worker_turn_def worker_recv_def)
  then have turns: "(worker_turn env ^^ Suc m) (s\<lparr>to_worker := to_worker s @ [CmdShutdown]\<rparr>) = s\<lparr>w_pc := Stopped\<rparr>" for m
    by (simp add: funpow_swap1 worker_turns_stopped del: funpow.simps add: funpow_Suc_right)
  show ?thesis
    using idle(3,4) assms(5) turns [of "k - 1"] by (cases k) (auto simp: stop_adam_process_def Let_def)
qed

section \<open>Progress\<close>

lemma dpu_reach_trans: "dpu_reach env G s t \<Longrightarrow> dpu_reach env G r s \<Longrightarrow> dpu_reach env G r t"
  by (induction rule: dpu_reach.induct) (auto intro: dpu_reach.intros)

lemma dpu_reach_step: "dpu_step env G s t \<Longrightarrow> dpu_reach env G s t"
  by (auto intro: dpu_reach.intros)

lemma same_main_trans: "same_main a b \<Longrightarrow> same_main b c \<Longrightarrow> same_main a c"
  by (simp add: same_main_def)

lemma worker_sub_group_main:
  assumes "shared_ok n s" and "i < num_subgroups s"
  shows "same_main s (worker_sub_group env b i s)" and "w_pc (worker_sub_group env b i s) = Updating b (Suc i)"
proof -
  obtain st w where "adam env (sub_group_to_group_id (lay (opt s)) ! i) i (w_state s)
      (fp32_partitioned_groups_flat (opt s) ! i) (fp32_grad_bufs (opt s) b ! i) = (st, w)" by (metis surj_pair)
  then have eq: "worker_sub_group env b i s
    = s\<lparr>opt := (opt s)\<lparr>fp32_partitioned_groups_flat := (fp32_partitioned_groups_flat (opt s))[i := w]\<rparr>,
        w_pc := Updating b (Suc i), w_grad := (w_grad s)(i := None), w_state := st\<rparr>"
    by (rule worker_sub_group_eq [OF assms])
  show "same_main s (worker_sub_group env b i s)" "w_pc (worker_sub_group env b i s) = Updating b (Suc i)"
    by (simp_all add: eq same_main_def)
qed

text \<open>A round that has begun comes to its end.\<close>

lemma worker_finishes:
  assumes "dpu_inv n env G x s" and "keeps_length env" and "w_pc s = Updating b i"
  shows "\<exists>t. dpu_reach env G s t \<and> same_main s t \<and> to_main t \<noteq> []"
  using assms
proof (induction "num_subgroups s - i" arbitrary: s i)
  case 0
  have "i \<le> num_subgroups s"
    using inv_worker(4) [OF 0(2)] 0(4) by (auto simp: round_of_def working_def split: if_splits)
  with 0 have "dpu_step env G s (worker_done s)" by (intro dpu_step.WDone) simp
  then show ?case by (intro exI [of _ "worker_done s"]) (auto simp: worker_done_def same_main_def intro: dpu_reach_step)
next
  case (Suc m)
  then have i: "i < num_subgroups s" by simp
  let ?t = "worker_sub_group env b i s"
  have st: "dpu_step env G s ?t" by (rule dpu_step.WUpdate [OF Suc(5) i])
  have sh: "shared_ok n s" using Suc(3) by (simp add: dpu_inv_def)
  note f = worker_sub_group_main [OF sh i, of env b]
  have "num_subgroups ?t = num_subgroups s" using f(1) by (simp add: same_main_def num_subgroups_def)
  moreover have "m = num_subgroups s - Suc i" using Suc(2) by simp
  ultimately obtain t where "dpu_reach env G ?t t" "same_main ?t t" "to_main t \<noteq> []"
    using Suc(1) [OF _ dpu_step_keeps [OF st Suc(3,4)] Suc(4) f(2)] by auto
  then show ?case using dpu_reach_trans [OF _ dpu_reach_step [OF st]] same_main_trans [OF f(1)] by blast
qed

lemma update_enabled:
  assumes "dpu_inv n env G x s" and "keeps_length env" and "m_pc s = AtUpdate"
  shows "\<exists>t. dpu_reach env G s t \<and> same_main s t \<and> (adam_step_pending t \<longrightarrow> to_main t \<noteq> [])"
proof (cases "adam_step_pending s \<longrightarrow> to_main s \<noteq> []")
  case True
  then show ?thesis by (intro exI [of _ s]) (simp add: dpu_reach.dpu_init same_main_def)
next
  case False
  have "busy env G x s" "adam_step_pending s = (0 < iter s)" using assms(1,3) by (simp_all add: dpu_inv_def main_at_def)
  then have w: "working env (1 - grad_buf_switch s) (updated env (sub_group_to_group_id (lay (opt s))) G x (iter s - 1)) (G (iter s - 1)) s"
    using False by (simp add: busy_def Let_def)
  consider b i where "w_pc s = Updating b i" | "to_worker s = [CmdStep (1 - grad_buf_switch s)]" "w_pc s = WaitCmd"
    using w False by (auto simp: working_def split: if_splits worker_pc.splits)
  then show ?thesis
  proof cases
    case 1
    then show ?thesis using worker_finishes [OF assms(1,2)] by blast
  next
    case 2
    let ?t = "s\<lparr>to_worker := [], w_pc := Updating (1 - grad_buf_switch s) 0\<rparr>"
    have st: "dpu_step env G s ?t" using 2 by (intro dpu_step.WRecv) (simp_all add: worker_recv_def)
    obtain t where "dpu_reach env G ?t t" "same_main ?t t" "to_main t \<noteq> []"
      using worker_finishes [OF dpu_step_keeps [OF st assms(1,2)] assms(2)] by fastforce
    moreover have "same_main s ?t" by (simp add: same_main_def)
    ultimately show ?thesis using dpu_reach_trans [OF _ dpu_reach_step [OF st]] same_main_trans by blast
  qed
qed

lemma update_done:
  assumes "dpu_inv n env G x s" and "keeps_length env" and "m_pc s = AtUpdate"
  shows "\<exists>t. dpu_reach env G s t \<and> m_pc t = AtStep \<and> iter t = Suc (iter s)"
proof -
  obtain t where t: "dpu_reach env G s t" "same_main s t" "adam_step_pending t \<longrightarrow> to_main t \<noteq> []"
    using update_enabled [OF assms] by blast
  have inv: "dpu_inv n env G x t" and m: "m_pc t = AtUpdate"
    using reach_keeps [OF t(1) assms(1,2)] t(2) assms(3) by (simp_all add: same_main_def)
  obtain t' where t': "update_new_params env t = Some (Inr t')" using update_keeps [OF inv m t(3)] by blast
  have "dpu_step env G t (t'\<lparr>m_pc := AtStep, iter := Suc (iter t')\<rparr>)" by (rule dpu_step.MUpdate [OF m t'])
  moreover have "iter t' = iter s" using update_Inr(2) [OF t'] t(2) by (simp add: same_main_def)
  ultimately show ?thesis using dpu_next [OF t(1)] by fastforce
qed

lemma backward_done:
  assumes "dpu_inv n env G x s" and "keeps_length env" and "m_pc s = AtBackward k"
  shows "\<exists>t. dpu_reach env G s t \<and> m_pc t = AtStep \<and> iter t = Suc (iter s)"
  using assms
proof (induction "num_subgroups s - k" arbitrary: s k)
  case 0
  have "k \<le> num_subgroups s" using 0(2,4) by (simp add: dpu_inv_def main_at_def)
  with 0 have st: "dpu_step env G s (s\<lparr>m_pc := AtUpdate\<rparr>)" by (intro dpu_step.MBackwardEnd) simp
  show ?case
    using update_done [OF dpu_step_keeps [OF st 0(2,3)] 0(3)] dpu_reach_trans [OF _ dpu_reach_step [OF st]] by fastforce
next
  case (Suc m)
  then have k: "k < num_subgroups s" by simp
  let ?t = "(write_grad k (G (iter s) ! k) s)\<lparr>m_pc := AtBackward (Suc k)\<rparr>"
  have st: "dpu_step env G s ?t" by (rule dpu_step.MWrite [OF Suc(5) k])
  have "num_subgroups ?t = num_subgroups s" "iter ?t = iter s" by (simp_all add: num_subgroups_def write_grad_def)
  then show ?case
    using Suc(1) [OF _ dpu_step_keeps [OF st Suc(3,4)] Suc(4), of "Suc k"] Suc(2)
      dpu_reach_trans [OF _ dpu_reach_step [OF st]] by fastforce
qed

text \<open>
  C22: an iteration always comes to its end. From every reachable state the processes can go on to
  the end of the iteration the training process is in; in particular they never block each other.
\<close>

theorem dpu_progress:
  assumes "dpu_start_ok n G z" and "keeps_length env" and "dpu_reach env G (start_adam_process st z) s"
  shows "\<exists>t. dpu_reach env G s t \<and> m_pc t = AtStep \<and> iter t = Suc (iter s)"
proof -
  have inv: "dpu_inv n env G (st, fp32_partitioned_groups_flat z) s"
    by (rule reach_keeps [OF assms(3) start_inv [OF assms(1)] assms(2)])
  show ?thesis
  proof (cases "m_pc s")
    case AtStep
    let ?t = "(take_model_step_dpu s)\<lparr>m_pc := AtBackward 0\<rparr>"
    have st: "dpu_step env G s ?t" by (rule dpu_step.MStep [OF AtStep])
    have "iter ?t = iter s" by (simp add: take_model_step_dpu_def step_dpu_def Let_def)
    then show ?thesis
      using backward_done [OF dpu_step_keeps [OF st inv assms(2)] assms(2), of 0] dpu_reach_trans [OF _ dpu_reach_step [OF st]]
      by fastforce
  next
    case (AtBackward k)
    then show ?thesis using backward_done [OF inv assms(2)] by blast
  next
    case AtUpdate
    then show ?thesis using update_done [OF inv assms(2)] by blast
  next
    case (Failed e)
    then show ?thesis using inv by (simp add: dpu_inv_def main_at_def)
  qed
qed

section \<open>More than one group of parameters\<close>

text \<open>
  The states of a run whose sub-group \<open>k\<close> belongs to another group than the first. The worker is alive
  whenever a command is sent to it.
\<close>

definition doomed :: "(nat \<Rightarrow> nat) \<Rightarrow> nat \<Rightarrow> ('a, 'st) dpu \<Rightarrow> bool" where
  "doomed n k s \<longleftrightarrow> k < num_subgroups s \<and> length (sub_group_to_group_id (lay (opt s))) = num_subgroups s
     \<and> 0 < sub_group_to_group_id (lay (opt s)) ! k \<and> w_params s = [[]] \<and> to_main s = [] \<and> (iter s = 0 \<longrightarrow> zopt_ok n (opt s))
     \<and> (case m_pc s of AtBackward j \<Rightarrow> j \<le> num_subgroups s | Failed e \<Rightarrow> e = EOFError \<and> iter s = 1 \<and> w_pc s = Stopped | _ \<Rightarrow> True)
     \<and> (if m_pc s = AtStep then dpu_steps s = iter s \<and> iter s \<le> 1 \<and> w_pc s = WaitCmd \<and> to_worker s = []
        else dpu_steps s = Suc (iter s) \<and> iter s \<le> 1 \<and> adam_step_pending s = (iter s = 1)
          \<and> (if iter s = 0 then w_pc s = WaitCmd \<and> to_worker s = []
             else case w_pc s of
                    WaitCmd \<Rightarrow> (\<exists>b. to_worker s = [CmdStep b])
                  | Updating b i \<Rightarrow> i \<le> k \<and> to_worker s = []
                  | Stopped \<Rightarrow> to_worker s = []))"

lemma worker_params:
  fixes s :: "('a, 'st) dpu"
  assumes "w_params s = [[]]" and "sub_group_to_group_id (lay (opt s)) ! i = 0"
  shows "w_params (worker_sub_group env b i s) = [[]]"
proof -
  have "opt_params (library_step env y) = opt_params y" for y :: "('a, 'st) zopt"
  proof -
    have "opt_params (fold (adam_update env g) ks w) = opt_params w" for g ks and w :: "('a, 'st) zopt"
      by (induction ks arbitrary: w) simp_all
    then have "opt_params (fold (\<lambda>g. fold (adam_update env g) (ps g)) gs w) = opt_params w" for gs ps and w :: "('a, 'st) zopt"
      by (induction gs arbitrary: w) simp_all
    then show ?thesis by (simp add: library_step_def)
  qed
  then show ?thesis using assms
    by (simp add: worker_sub_group_def worker_update_def worker_zopt_def optimizer_step_def Let_def)
qed

lemma worker_main: "m_pc (worker_sub_group env b i s) = m_pc s" "iter (worker_sub_group env b i s) = iter s"
  by (simp_all add: worker_sub_group_def Let_def)

text \<open>The first update, which waits for nothing.\<close>

lemma first_update:
  assumes "doomed n k s" and "m_pc s = AtUpdate" and "iter s = 0"
  shows "\<exists>t. update_new_params env s = Some (Inr t)"
proof -
  have "zopt_ok n (opt s)" "\<not> adam_step_pending s" using assms by (simp_all add: doomed_def)
  then show ?thesis using reassign_all_eq [of n "opt s" env] by (auto simp: update_new_params_def)
qed

lemma second_update:
  assumes "doomed n k s" and "m_pc s = AtUpdate" and "iter s \<noteq> 0"
  shows "update_new_params env s = (if w_pc s = Stopped then Some (Inl EOFError) else None)"
  using assms by (auto simp: doomed_def update_new_params_def recv_from_worker_def)

lemma doomed_step:
  assumes "dpu_step env G s t" and "doomed n k s"
  shows "doomed n k t"
  using assms(1)
proof cases
  case MStep
  then show ?thesis
    using assms(2) by (auto simp: doomed_def take_model_step_dpu_def step_dpu_def Let_def num_subgroups_def)
next
  case (MWrite j)
  have "zopt_ok n (opt (write_grad j (G (iter s) ! j) s)) = zopt_ok n (opt s)"
    by (simp add: write_grad_def zopt_ok_def opt_ok_def)
  then show ?thesis using assms(2) MWrite
    by (auto simp: doomed_def num_subgroups_def write_grad_def split: worker_pc.splits)
next
  case MBackwardEnd
  then show ?thesis using assms(2) by (auto simp: doomed_def num_subgroups_def split: worker_pc.splits)
next
  case (MUpdate t1)
  note u = update_Inr [OF MUpdate(3)]
  have "\<not> adam_step_pending s" using assms(2) u(4) by (auto simp: doomed_def)
  then show ?thesis using assms(2) MUpdate(1,2) u by (auto simp: doomed_def same_static_def num_subgroups_def)
next
  case (MFail e)
  then have "iter s \<noteq> 0" using first_update [OF assms(2), of env] by auto
  moreover from this have "w_pc s = Stopped" "e = EOFError" using second_update [OF assms(2) MFail(2), of env] MFail(3) by (auto split: if_splits)
  ultimately show ?thesis using assms(2) MFail(1,2) by (auto simp: doomed_def num_subgroups_def)
next
  case WRecv
  then show ?thesis using assms(2)
    by (auto simp: doomed_def worker_recv_def num_subgroups_def split: list.splits if_splits main_pc.splits)
next
  case (WUpdate b i)
  let ?g = "sub_group_to_group_id (lay (opt s)) ! i" and ?t = "worker_sub_group env b i s"
  have i: "i \<le> k" "m_pc s \<noteq> AtStep" "iter s = 1" using assms(2) WUpdate by (auto simp: doomed_def split: if_splits)
  have st: "fp16_groups (lay (opt ?t)) = fp16_groups (lay (opt s))" "sub_group_to_group_id (lay (opt ?t)) = sub_group_to_group_id (lay (opt s))"
      "to_main ?t = to_main s" "to_worker ?t = to_worker s" "dpu_steps ?t = dpu_steps s" "adam_step_pending ?t = adam_step_pending s"
    by (simp_all add: worker_sub_group_def Let_def)
  have "w_params ?t = [[]] \<and> (w_pc ?t = Stopped \<or> w_pc ?t = Updating b (Suc i) \<and> i \<noteq> k)"
  proof (cases "?g = 0")
    case True
    then have "i \<noteq> k" using assms(2) by (auto simp: doomed_def)
    moreover have "w_params ?t = [[]]"
      using assms(2) True by (intro worker_params) (simp_all add: doomed_def)
    ultimately show ?thesis using assms(2) True by (simp add: doomed_def worker_sub_group_def Let_def)
  next
    case False
    then show ?thesis using assms(2) by (simp add: doomed_def worker_sub_group_def)
  qed
  then show ?thesis using assms(2) WUpdate(1,2) i st
    by (auto simp: doomed_def worker_main num_subgroups_def split: main_pc.splits)
next
  case (WDone b)
  then show ?thesis using assms(2) by (auto simp: doomed_def split: if_splits)
qed

lemma doomed_reach: "dpu_reach env G s t \<Longrightarrow> doomed n k s \<Longrightarrow> doomed n k t"
  by (induction rule: dpu_reach.induct) (auto intro: doomed_step)

text \<open>The backward pass alone needs nothing of the worker.\<close>

lemma writes_done:
  assumes "m_pc s = AtBackward j" and "j \<le> num_subgroups s"
  shows "\<exists>t. dpu_reach env G s t \<and> m_pc t = AtUpdate \<and> iter t = iter s"
  using assms
proof (induction "num_subgroups s - j" arbitrary: s j)
  case 0
  then have "dpu_step env G s (s\<lparr>m_pc := AtUpdate\<rparr>)" by (intro dpu_step.MBackwardEnd) simp
  then show ?case by (intro exI [of _ "s\<lparr>m_pc := AtUpdate\<rparr>"]) (simp add: dpu_reach_step)
next
  case (Suc m)
  then have j: "j < num_subgroups s" by simp
  let ?t = "(write_grad j (G (iter s) ! j) s)\<lparr>m_pc := AtBackward (Suc j)\<rparr>"
  have st: "dpu_step env G s ?t" by (rule dpu_step.MWrite [OF Suc(3) j])
  have t: "num_subgroups ?t = num_subgroups s" "iter ?t = iter s" by (simp_all add: num_subgroups_def write_grad_def)
  have "m = num_subgroups ?t - Suc j" "Suc j \<le> num_subgroups ?t" using Suc(2) j t(1) by simp_all
  then obtain r where "dpu_reach env G ?t r" "m_pc r = AtUpdate" "iter r = iter s"
    using Suc(1) [of ?t "Suc j"] t by auto
  then show ?case using dpu_reach_trans [OF _ dpu_reach_step [OF st]] by blast
qed

text \<open>The worker dies in its first round, and then the training process fails.\<close>

lemma worker_dies:
  assumes "doomed n k s" and "m_pc s = AtUpdate" and "w_pc s = Updating b i"
  shows "\<exists>t. dpu_reach env G s t \<and> m_pc t = AtUpdate \<and> w_pc t = Stopped \<and> iter t = iter s"
  using assms
proof (induction "k - i" arbitrary: s i)
  case 0
  have i: "i = k" "i < num_subgroups s" using 0 by (auto simp: doomed_def split: if_splits)
  then have "w_pc (worker_sub_group env b i s) = Stopped" using 0(2) by (simp add: doomed_def worker_sub_group_def)
  then show ?case using dpu_reach_step [OF dpu_step.WUpdate [OF 0(4) i(2)]] 0(3) worker_main [of env b i s] by metis
next
  case (Suc m)
  then have i: "i < num_subgroups s" by (auto simp: doomed_def)
  let ?t = "worker_sub_group env b i s"
  have st: "dpu_step env G s ?t" by (rule dpu_step.WUpdate [OF Suc(5) i])
  have d: "doomed n k ?t" by (rule doomed_step [OF st Suc(3)])
  have "w_pc ?t = Stopped \<or> w_pc ?t = Updating b (Suc i)" by (simp add: worker_sub_group_def Let_def)
  then show ?case
  proof
    assume "w_pc ?t = Stopped"
    then show ?thesis using dpu_reach_step [OF st] Suc(4) worker_main [of env b i s] by metis
  next
    assume w: "w_pc ?t = Updating b (Suc i)"
    have "m = k - Suc i" using Suc(2) by simp
    then obtain t where "dpu_reach env G ?t t" "m_pc t = AtUpdate" "w_pc t = Stopped" "iter t = iter s"
      using Suc(1) [OF _ d _ w] Suc(4) worker_main [of env b i s] by metis
    then show ?thesis using dpu_reach_trans [OF _ dpu_reach_step [OF st]] by blast
  qed
qed

lemma second_fails:
  assumes "doomed n k s" and "m_pc s = AtUpdate" and "iter s \<noteq> 0"
  shows "\<exists>t. dpu_reach env G s t \<and> m_pc t = Failed EOFError"
proof -
  have dead: "\<exists>t. dpu_reach env G r t \<and> m_pc t = Failed EOFError"
    if "doomed n k r" "m_pc r = AtUpdate" "iter r \<noteq> 0" "w_pc r = Stopped" for r :: "('a, 'b) dpu"
    using dpu_reach_step [OF dpu_step.MFail [OF that(2)], of env EOFError G] second_update [OF that(1-3), of env] that(4)
    by (intro exI [of _ "r\<lparr>m_pc := Failed EOFError\<rparr>"]) simp
  have dies: "\<exists>t. dpu_reach env G r t \<and> m_pc t = Failed EOFError"
    if r: "doomed n k r" "m_pc r = AtUpdate" "iter r \<noteq> 0" "w_pc r = Updating b i" for r :: "('a, 'b) dpu" and b i
  proof -
    obtain u where u: "dpu_reach env G r u" "m_pc u = AtUpdate" "w_pc u = Stopped" "iter u = iter r"
      using worker_dies [OF r(1,2,4)] by blast
    have "\<exists>t. dpu_reach env G u t \<and> m_pc t = Failed EOFError"
      by (rule dead [OF doomed_reach [OF u(1) r(1)] u(2) _ u(3)]) (use u(4) r(3) in simp)
    then show ?thesis using dpu_reach_trans [OF _ u(1)] by blast
  qed
  show ?thesis
  proof (cases "w_pc s")
    case WaitCmd
    then obtain b where b: "to_worker s = [CmdStep b]" using assms by (auto simp: doomed_def)
    let ?t = "s\<lparr>to_worker := [], w_pc := Updating b 0\<rparr>"
    have st: "dpu_step env G s ?t" using WaitCmd b by (intro dpu_step.WRecv) (simp_all add: worker_recv_def)
    have "\<exists>t. dpu_reach env G ?t t \<and> m_pc t = Failed EOFError"
      by (rule dies [OF doomed_step [OF st assms(1)]]) (use assms(2,3) in simp_all)
    then show ?thesis using dpu_reach_trans [OF _ dpu_reach_step [OF st]] by blast
  next
    case (Updating b i)
    then show ?thesis by (rule dies [OF assms])
  next
    case Stopped
    then show ?thesis by (rule dead [OF assms])
  qed
qed

lemma doomed_backward:
  assumes "doomed n k s" and "m_pc s = AtBackward j"
  shows "\<exists>t. dpu_reach env G s t \<and> doomed n k t \<and> m_pc t = AtUpdate \<and> iter t = iter s"
proof -
  have "j \<le> num_subgroups s" using assms by (simp add: doomed_def)
  then show ?thesis using writes_done [OF assms(2)] doomed_reach [OF _ assms(1)] by blast
qed

lemma doomed_iteration:
  assumes "doomed n k s" and "m_pc s = AtStep"
  shows "\<exists>t. dpu_reach env G s t \<and> doomed n k t \<and> m_pc t = AtUpdate \<and> iter t = iter s"
proof -
  let ?t = "(take_model_step_dpu s)\<lparr>m_pc := AtBackward 0\<rparr>"
  have st: "dpu_step env G s ?t" by (rule dpu_step.MStep [OF assms(2)])
  have "iter ?t = iter s" by (simp add: take_model_step_dpu_def step_dpu_def Let_def)
  then show ?thesis
    using doomed_backward [OF doomed_step [OF st assms(1)], of 0 env G] dpu_reach_trans [OF _ dpu_reach_step [OF st]] by fastforce
qed

lemma doomed_fails:
  assumes "doomed n k s"
  shows "\<exists>t. dpu_reach env G s t \<and> m_pc t = Failed EOFError"
proof -
  have at_update: "\<exists>t. dpu_reach env G r t \<and> m_pc t = Failed EOFError"
    if r: "doomed n k r" "m_pc r = AtUpdate" for r :: "('a, 'b) dpu"
  proof (cases "iter r = 0")
    case True
    obtain t where t: "update_new_params env r = Some (Inr t)" using first_update [OF r True] by blast
    let ?t = "t\<lparr>m_pc := AtStep, iter := Suc (iter t)\<rparr>"
    have st: "dpu_step env G r ?t" by (rule dpu_step.MUpdate [OF r(2) t])
    obtain u where u: "dpu_reach env G ?t u" "doomed n k u" "m_pc u = AtUpdate" "iter u = iter ?t"
      using doomed_iteration [OF doomed_step [OF st r(1)]] by fastforce
    obtain v where "dpu_reach env G u v" "m_pc v = Failed EOFError" using second_fails [OF u(2,3)] u(4) by auto
    then show ?thesis using dpu_reach_trans [OF _ dpu_reach_trans [OF u(1) dpu_reach_step [OF st]]] by blast
  next
    case False
    then show ?thesis by (rule second_fails [OF r])
  qed
  have after: "\<exists>t. dpu_reach env G s t \<and> m_pc t = Failed EOFError"
    if "dpu_reach env G s u" "doomed n k u" "m_pc u = AtUpdate" for u
    using at_update [OF that(2,3)] dpu_reach_trans [OF _ that(1)] by blast
  show ?thesis
  proof (cases "m_pc s")
    case AtStep
    then show ?thesis using doomed_iteration [OF assms] after by blast
  next
    case (AtBackward j)
    then show ?thesis using doomed_backward [OF assms] after by blast
  next
    case AtUpdate
    then show ?thesis by (rule at_update [OF assms])
  next
    case (Failed e)
    then show ?thesis using assms by (intro exI [of _ s]) (simp add: dpu_reach.dpu_init doomed_def)
  qed
qed

text \<open>
  C31: with more than one group of parameters the training fails in its second iteration. The worker's
  optimizer is made from the list of tensors and has one group, but is indexed by the group of the
  training process's optimizer: the worker dies with an IndexError in its first round, and the
  \<^verbatim>\<open>recv\<close> of the training process then raises \<^verbatim>\<open>EOFError\<close>. No run gets past that update, every state a
  run fails in is this one, and it is reachable from every state of every run.
\<close>

theorem dpu_multi_group_fails:
  assumes "zopt_ok n z" and "k < length (fp16_groups (lay z))" and "0 < sub_group_to_group_id (lay z) ! k"
    and "dpu_reach env G (start_adam_process st z) s"
  shows "iter s \<le> 1 \<and> (case m_pc s of Failed e \<Rightarrow> e = EOFError \<and> iter s = 1 \<and> w_pc s = Stopped | _ \<Rightarrow> True)
    \<and> (\<exists>t. dpu_reach env G s t \<and> m_pc t = Failed EOFError \<and> w_pc t = Stopped)"
proof -
  have "doomed n k (start_adam_process st z)"
    using assms(1-3) by (simp add: doomed_def start_adam_process_def num_subgroups_def zopt_ok_def opt_ok_def)
  with assms(4) have d: "doomed n k s" by (rule doomed_reach)
  obtain t where t: "dpu_reach env G s t" "m_pc t = Failed EOFError" using doomed_fails [OF d] by blast
  have "w_pc t = Stopped" using doomed_reach [OF t(1) d] t(2) by (simp add: doomed_def)
  moreover have "iter s \<le> 1 \<and> (case m_pc s of Failed e \<Rightarrow> e = EOFError \<and> iter s = 1 \<and> w_pc s = Stopped | _ \<Rightarrow> True)"
    using d by (auto simp: doomed_def split: main_pc.splits)
  ultimately show ?thesis using t by blast
qed

section \<open>Examples\<close>

lemma iterations_reachable:
  assumes "dpu_start_ok n G z" and "keeps_length env"
  shows "\<exists>s. dpu_reach env G (start_adam_process st z) s \<and> m_pc s = AtStep \<and> iter s = j"
proof (induction j)
  case 0
  show ?case by (intro exI [of _ "start_adam_process st z"]) (simp add: dpu_reach.dpu_init start_adam_process_def)
next
  case (Suc j)
  then obtain s where s: "dpu_reach env G (start_adam_process st z) s" "m_pc s = AtStep" "iter s = j" by blast
  let ?t = "(take_model_step_dpu s)\<lparr>m_pc := AtBackward 0\<rparr>"
  have st: "dpu_step env G s ?t" by (rule dpu_step.MStep [OF s(2)])
  have "iter ?t = j" using s(3) by (simp add: take_model_step_dpu_def step_dpu_def Let_def)
  moreover have "dpu_inv n env G (st, fp32_partitioned_groups_flat z) ?t"
    by (rule dpu_step_keeps [OF st reach_keeps [OF s(1) start_inv [OF assms(1)] assms(2)] assms(2)])
  ultimately show ?case
    using backward_done [OF _ assms(2), of n G _ ?t 0] dpu_reach_trans [OF _ dpu_next [OF s(1) st]] by fastforce
qed

definition demo_G :: "nat \<Rightarrow> int list list" where
  "demo_G j = [[1, 1, 1], [1, 1, 1]]"

lemma demo_start_ok: "dpu_start_ok demo_size demo_G demo_zopt"
  using demo_zopt_ok(1) by (simp add: dpu_start_ok_def demo_G_def demo_zopt_def demo_layout_def)

theorem dpu_no_conflict_witness:
  "\<exists>s. dpu_reach demo_oenv demo_G (start_adam_process 0 demo_zopt) s \<and> iter s = 1
    \<and> (\<exists>b. w_pc s = Updating b 0 \<and> b \<noteq> grad_buf_switch s \<and> update_new_params demo_oenv s = None)"
proof -
  obtain s where s: "dpu_reach demo_oenv demo_G (start_adam_process 0 demo_zopt) s" "m_pc s = AtStep" "iter s = 1"
    using iterations_reachable [OF demo_start_ok demo_oenv_ok] by blast
  have "dpu_inv demo_size demo_oenv demo_G (0, fp32_partitioned_groups_flat demo_zopt) s"
    by (rule reach_keeps [OF s(1) start_inv [OF demo_start_ok] demo_oenv_ok])
  then have d: "dpu_steps s = 1" "to_worker s = []" "w_pc s = WaitCmd"
    using s(2,3) by (simp_all add: dpu_inv_def main_at_def idle_at_def)
  let ?t = "(take_model_step_dpu s)\<lparr>m_pc := AtBackward 0\<rparr>"
  let ?b = "1 - grad_buf_switch s"
  have t: "dpu_step demo_oenv demo_G s ?t" by (rule dpu_step.MStep [OF s(2)])
  have f: "w_pc ?t = WaitCmd" "worker_recv ?t = Some (?t\<lparr>to_worker := [], w_pc := Updating ?b 0\<rparr>)"
    using d by (simp_all add: take_model_step_dpu_def step_dpu_def worker_recv_def)
  let ?r = "?t\<lparr>to_worker := [], w_pc := Updating ?b 0\<rparr>"
  have r: "dpu_reach demo_oenv demo_G (start_adam_process 0 demo_zopt) ?r"
    by (rule dpu_next [OF dpu_next [OF s(1) t] dpu_step.WRecv [OF f]])
  have "iter ?r = 1" using s(3) by (simp add: take_model_step_dpu_def step_dpu_def Let_def)
  moreover have "grad_buf_switch (take_model_step_dpu s) = grad_buf_switch s"
    by (simp add: take_model_step_dpu_def step_dpu_def Let_def)
  ultimately show ?thesis
    using dpu_no_conflict [OF demo_start_ok demo_oenv_ok r] r by (intro exI [of _ ?r]) simp
qed

theorem dpu_refines_sequential_witness:
  "\<exists>s. dpu_reach demo_oenv demo_G (start_adam_process 0 demo_zopt) s \<and> m_pc s = AtStep \<and> iter s = 3
    \<and> w_state s = 4 \<and> fp32_partitioned_groups_flat (opt s) = [[8, 18, 28], [38, 48, 58]]
    \<and> map (\<lambda>ps. concat (map (read_shard (lay (opt s))) ps)) [[0, 1], [2]] = [[0, 10, 20], [30, 40, 50]]"
proof -
  obtain s where s: "dpu_reach demo_oenv demo_G (start_adam_process 0 demo_zopt) s" "m_pc s = AtStep" "iter s = 3"
    using iterations_reachable [OF demo_start_ok demo_oenv_ok] by blast
  have "updated demo_oenv (sub_group_to_group_id (lay demo_zopt)) demo_G (0, fp32_partitioned_groups_flat demo_zopt) (3 - 1)
      = (4, [[8, 18, 28], [38, 48, 58]])"
    by code_simp
  moreover have "fp16_groups (lay demo_zopt) = [[0, 1], [2]]" by (simp add: demo_zopt_def demo_layout_def)
  ultimately show ?thesis
    using dpu_refines_sequential [OF demo_start_ok demo_oenv_ok s(1,2), unfolded s(3)] s
    by (intro exI [of _ s]) (auto simp: Let_def demo_oenv_def)
qed

theorem dpu_progress_witness:
  "\<exists>t. dpu_reach demo_oenv demo_G (start_adam_process 0 demo_zopt) t \<and> m_pc t = AtStep \<and> iter t = 1"
  using dpu_progress [OF demo_start_ok demo_oenv_ok dpu_reach.dpu_init]
  by (simp add: start_adam_process_def)

definition demo_zopt2 :: "(int, nat) zopt" where
  "demo_zopt2 = demo_zopt\<lparr>lay := demo_layout\<lparr>sub_group_to_group_id := [0, 1]\<rparr>, opt_params := [[], []]\<rparr>"

lemma demo_zopt2_ok: "zopt_ok demo_size demo_zopt2"
  using demo_zopt_ok(1)
  by (auto simp: zopt_ok_def layout_ok_def flat_shape_def opt_ok_def demo_zopt2_def demo_zopt_def demo_layout_def before_def demo_size_def)

theorem dpu_multi_group_fails_witness:
  "\<exists>t. dpu_reach demo_oenv demo_G (start_adam_process 0 demo_zopt2) t \<and> m_pc t = Failed EOFError \<and> w_pc t = Stopped"
proof -
  have "1 < length (fp16_groups (lay demo_zopt2))" "0 < sub_group_to_group_id (lay demo_zopt2) ! 1"
    by (simp_all add: demo_zopt2_def demo_zopt_def demo_layout_def)
  from dpu_multi_group_fails [OF demo_zopt2_ok this dpu_reach.dpu_init] show ?thesis by blast
qed

end
