(* ===== verification/GradBucket.thy ===== *)
theory GradBucket
  imports ReduceScatter Optimizer
begin

text \<open>
  The gradients on their way from the backward pass to the optimizer:
  \<^verbatim>\<open>src/smartnic_offload/zero_optimizer.py\<close>, from the hook of a parameter's gradient to
  \<^verbatim>\<open>__partition_grads\<close>.

  A gradient has storage of its own or a place in the flat buffer of the bucket. A launched
  reduce-scatter whose input is a gradient itself reads that storage when it runs, which is any
  time between the launch and the end of the wait; \<open>g_late\<close> says for a collective whether it
  reads late. \<open>g_rs cid x\<close> is what the collective delivers to this rank for its input \<open>x\<close>. Waits
  between streams, \<^verbatim>\<open>record_stream\<close> and the queue of reduce events order GPU work that the model
  already has in program order.
\<close>

section \<open>State\<close>

datatype 'a gstore = GOwn "'a list" | GBucket nat nat

text \<open>
  A pending reduce-scatter: the result object, the parameters, where its output lies in the buffer
  of the gradient partitions, and where its input lies in the flat buffer of the bucket.
\<close>

record 'a pending =
  p_deferred :: "'a deferred"
  p_params :: "nat list"
  p_out :: "nat option"
  p_in :: "(nat \<times> nat) option"
  p_needs_dtype_convert :: bool

record 'a genv =
  g_world :: nat
  g_rank :: nat
  g_dv :: "nat \<Rightarrow> 'a \<Rightarrow> 'a"
  g_add :: "'a \<Rightarrow> 'a \<Rightarrow> 'a"
  g_cvt :: "dtype \<Rightarrow> 'a \<Rightarrow> 'a"
  g_dtype :: dtype
  g_fresh :: "nat \<Rightarrow> nat \<Rightarrow> nat \<Rightarrow> 'a"
  g_comch :: comch_env
  g_rs :: "int \<Rightarrow> 'a list \<Rightarrow> 'a list"
  g_late :: "int \<Rightarrow> bool"
  rs_use_nccl :: bool
  comm_fp32 :: bool
  contiguous_gradients :: bool
  reduce_bucket_size :: nat
  g_numel :: "nat \<Rightarrow> nat"
  g_part :: "nat \<Rightarrow> nat"
  g_offset :: "nat \<Rightarrow> nat"
  g_position :: "nat \<Rightarrow> nat \<times> nat \<times> nat"

record 'a ipg =
  params_in_ipg_bucket :: "nat list"
  ipg_bucket_flat :: "'a list"
  grad :: "nat \<Rightarrow> 'a gstore option"
  pending_rs :: "'a pending option"
  grad_partitions_flat :: "'a list"
  grad_bufs :: "nat \<Rightarrow> 'a list list"
  buf_switch :: nat
  micro_step_id :: nat
  accumulation_boundary :: bool
  params_already_reduced :: "nat \<Rightarrow> bool"
  gworld :: "'a comch_world"

section \<open>The bucket\<close>

definition read_grad :: "'a ipg \<Rightarrow> nat \<Rightarrow> 'a list result" where
  "read_grad s p =
     (case grad s p of
        None \<Rightarrow> Inl AttributeError
      | Some (GOwn x) \<Rightarrow> Inr x
      | Some (GBucket start len) \<Rightarrow> Inr (take len (drop start (ipg_bucket_flat s))))"

definition elements_in_ipg_bucket :: "'a genv \<Rightarrow> 'a ipg \<Rightarrow> nat" where
  "elements_in_ipg_bucket env s = (\<Sum>p \<leftarrow> params_in_ipg_bucket s. g_numel env p)"

definition add_grad_to_ipg_bucket :: "'a genv \<Rightarrow> nat \<Rightarrow> 'a ipg \<Rightarrow> 'a ipg result" where
  "add_grad_to_ipg_bucket env p s =
     ebind (read_grad s p) (\<lambda>g.
     ebind (if contiguous_gradients env \<and> elements_in_ipg_bucket env s + length g < reduce_bucket_size env
            then let start = elements_in_ipg_bucket env s in
                 ebind (copy_into (ipg_bucket_flat s) start (length g) g) (\<lambda>flat.
                   Inr (s\<lparr>ipg_bucket_flat := flat, grad := (grad s)(p \<mapsto> GBucket start (length g))\<rparr>))
            else Inr s) (\<lambda>s1.
       Inr (s1\<lparr>params_in_ipg_bucket := params_in_ipg_bucket s1 @ [p]\<rparr>)))"

fun read_grads :: "'a ipg \<Rightarrow> nat list \<Rightarrow> 'a list list result" where
  "read_grads s [] = Inr []"
| "read_grads s (p # ps) = ebind (read_grad s p) (\<lambda>g. ebind (read_grads s ps) (\<lambda>gs. Inr (g # gs)))"

section \<open>Launching a reduce-scatter\<close>

text \<open>\<^verbatim>\<open>div_\<close> on an input that is the gradient itself changes the gradient.\<close>

definition divide_grad :: "'a genv \<Rightarrow> nat \<Rightarrow> 'a ipg \<Rightarrow> 'a ipg" where
  "divide_grad env p s =
     (case grad s p of
        None \<Rightarrow> s
      | Some (GOwn x) \<Rightarrow> s\<lparr>grad := (grad s)(p \<mapsto> GOwn (map (g_dv env (g_world env)) x))\<rparr>
      | Some (GBucket start len) \<Rightarrow>
          s\<lparr>ipg_bucket_flat := take start (ipg_bucket_flat s)
              @ map (g_dv env (g_world env)) (take len (drop start (ipg_bucket_flat s)))
              @ drop (start + len) (ipg_bucket_flat s)\<rparr>)"

definition bucket_place :: "'a ipg \<Rightarrow> nat \<Rightarrow> (nat \<times> nat) option" where
  "bucket_place s p = (case grad s p of Some (GBucket start len) \<Rightarrow> Some (start, len) | _ \<Rightarrow> None)"

text \<open>\<^verbatim>\<open>float()\<close> of a gradient that is in 32-bit format already is the gradient itself.\<close>

definition copies_grads :: "'a genv \<Rightarrow> bool" where
  "copies_grads env \<longleftrightarrow> comm_fp32 env \<and> g_dtype env \<noteq> Float32"

definition avg_scatter_grads :: "'a genv \<Rightarrow> nat list \<Rightarrow> 'a ipg \<Rightarrow> ('a pending \<times> 'a ipg) result" where
  "avg_scatter_grads env ps s =
     ebind (read_grads s ps) (\<lambda>grads.
       let full_grads = (if copies_grads env then map (map (g_cvt env Float32)) grads else grads);
           cid = int (hd ps);
           first_offset = g_offset env (hd ps);
           total_numel = (\<Sum>p \<leftarrow> ps. g_part env p);
           expected_end = g_offset env (last ps) + g_part env (last ps);
           direct = (first_offset + total_numel = expected_end \<and> \<not> rs_use_nccl env)
       in if direct \<and> length (grad_partitions_flat s) < first_offset + total_numel then Inl (RuntimeError ''narrow'')
          else case reduce_scatter_coalesced (g_world env) (g_rank env) (g_dv env) (g_fresh env) (g_comch env)
                      (rs_use_nccl env) full_grads cid (if direct then Some (total_numel, False) else None) (gworld s) of
                 (w, Inl e) \<Rightarrow> Inl e
               | (w, Inr d) \<Rightarrow>
                   let s1 = s\<lparr>gworld := w\<rparr>;
                       itself = (d_alias d \<and> \<not> copies_grads env)
                   in Inr (\<lparr>p_deferred = d, p_params = ps,
                            p_out = (if d_in_buffer d then Some first_offset else None),
                            p_in = (if itself then bucket_place s (hd ps) else None),
                            p_needs_dtype_convert = copies_grads env\<rparr>,
                           if itself then divide_grad env (hd ps) s1 else s1))"

section \<open>Waiting and partitioning\<close>

text \<open>A partition of the result lies in the buffer of the gradient partitions or elsewhere.\<close>

datatype 'a gpart = InPlace nat nat | Elsewhere "'a list"

definition part_value :: "'a ipg \<Rightarrow> 'a gpart \<Rightarrow> 'a list" where
  "part_value s gp = (case gp of InPlace start len \<Rightarrow> take len (drop start (grad_partitions_flat s)) | Elsewhere x \<Rightarrow> x)"

definition part_numel :: "'a gpart \<Rightarrow> nat" where
  "part_numel gp = (case gp of InPlace start len \<Rightarrow> len | Elsewhere x \<Rightarrow> length x)"

definition offload_grad :: "'a genv \<Rightarrow> nat \<Rightarrow> 'a list \<Rightarrow> 'a ipg \<Rightarrow> 'a ipg result" where
  "offload_grad env p grad_buffer s =
     (case g_position env p of (i, dest_offset, _) \<Rightarrow>
        if accumulation_boundary s
        then ebind (copy_into (grad_bufs s (buf_switch s) ! i) dest_offset (length grad_buffer)
                     (map (g_cvt env Float32) grad_buffer)) (\<lambda>b.
               Inr (s\<lparr>grad_bufs := (grad_bufs s)(buf_switch s := (grad_bufs s (buf_switch s))[i := b])\<rparr>))
        else Inr s)"

definition partition_grad :: "'a genv \<Rightarrow> nat \<times> 'a gpart \<Rightarrow> 'a ipg \<Rightarrow> 'a ipg result" where
  "partition_grad env pg s =
     (case pg of (p, gp) \<Rightarrow>
        if g_part env p * g_rank env > g_numel env p then Inr s
        else if part_numel gp > g_part env p then Inl (RuntimeError ''narrow'')
        else
          let start = g_offset env p; len = part_numel gp;
              grad_buffer = take len (drop start (grad_partitions_flat s));
              same_buffer = (case gp of InPlace start' _ \<Rightarrow> start' = start | Elsewhere _ \<Rightarrow> False)
          in ebind (if same_buffer then Inr s
                    else ebind (copy_into (grad_partitions_flat s) start len
                                 (if micro_step_id s = 0 then part_value s gp
                                  else map2 (g_add env) grad_buffer (part_value s gp))) (\<lambda>b.
                           Inr (s\<lparr>grad_partitions_flat := b\<rparr>))) (\<lambda>s1.
             ebind (offload_grad env p (take len (drop start (grad_partitions_flat s1))) s1) (\<lambda>s2.
             if grad s2 p = None then Inl AttributeError
             else Inr (s2\<lparr>grad := (grad s2)(p := None)\<rparr>))))"

definition partition_grads :: "'a genv \<Rightarrow> nat list \<Rightarrow> 'a gpart list \<Rightarrow> 'a ipg \<Rightarrow> 'a ipg result" where
  "partition_grads env ps gps s = foldE (partition_grad env) (zip ps gps) s"

text \<open>What the collective has read, and its output.\<close>

definition rs_source :: "'a genv \<Rightarrow> 'a pending \<Rightarrow> 'a ipg \<Rightarrow> 'a list" where
  "rs_source env pr s =
     (case p_in pr of
        Some (start, len) \<Rightarrow>
          if g_late env (d_cid (p_deferred pr)) then take len (drop start (ipg_bucket_flat s)) else d_input (p_deferred pr)
      | None \<Rightarrow> d_input (p_deferred pr))"

definition deliver :: "'a pending \<Rightarrow> 'a list \<Rightarrow> 'a ipg \<Rightarrow> 'a ipg" where
  "deliver pr out s =
     (case p_out pr of
        Some start \<Rightarrow> s\<lparr>grad_partitions_flat := take start (grad_partitions_flat s) @ out
                          @ drop (start + length out) (grad_partitions_flat s)\<rparr>
      | None \<Rightarrow> s)"

definition delivered_parts :: "'a genv \<Rightarrow> 'a pending \<Rightarrow> (nat \<times> nat) list \<Rightarrow> 'a list \<Rightarrow> 'a gpart list" where
  "delivered_parts env pr views out =
     map (\<lambda>(start, len).
       if p_needs_dtype_convert pr then Elsewhere (map (g_cvt env (g_dtype env)) (take len (drop start out)))
       else case p_out pr of Some start0 \<Rightarrow> InPlace (start0 + start) len | None \<Rightarrow> Elsewhere (take len (drop start out))) views"

definition flush_pending_rs :: "'a genv \<Rightarrow> 'a ipg \<Rightarrow> 'a ipg result" where
  "flush_pending_rs env s =
     (case pending_rs s of
        None \<Rightarrow> Inr s
      | Some pr \<Rightarrow>
          (case deferred_wait (g_comch env) (gworld s, p_deferred pr) of
             (_, Inl e) \<Rightarrow> Inl e
           | ((w, d), Inr views) \<Rightarrow>
               let out = g_rs env (d_cid (p_deferred pr)) (rs_source env pr s) in
               ebind (partition_grads env (p_params pr) (delivered_parts env pr views out)
                        (deliver pr out (s\<lparr>gworld := w\<rparr>))) (\<lambda>s1.
                 Inr (s1\<lparr>pending_rs := None\<rparr>))))"

section \<open>Hook, epilogue and step\<close>

definition check_sizes :: "'a genv \<Rightarrow> 'a ipg \<Rightarrow> unit result" where
  "check_sizes env s =
     foldE (\<lambda>p _. ebind (read_grad s p) (\<lambda>g.
       if length g = g_numel env p then Inr () else Inl (RuntimeError ''Cannot reduce scatter gradients''))) (params_in_ipg_bucket s) ()"

text \<open>The percentage in the memory report divides by the bucket size.\<close>

definition report_ipg_memory_usage :: "'a genv \<Rightarrow> unit result" where
  "report_ipg_memory_usage env = (if reduce_bucket_size env = 0 then Inl ZeroDivisionError else Inr ())"

definition reduce_and_partition_ipg_grads :: "'a genv \<Rightarrow> 'a ipg \<Rightarrow> 'a ipg result" where
  "reduce_and_partition_ipg_grads env s =
     (if params_in_ipg_bucket s = [] then Inr s
      else
        ebind (check_sizes env s) (\<lambda>_.
          let s1 = s\<lparr>params_in_ipg_bucket := sort (params_in_ipg_bucket s)\<rparr> in
          ebind (flush_pending_rs env s1) (\<lambda>s2.
          ebind (avg_scatter_grads env (params_in_ipg_bucket s2) s2) (\<lambda>(pr, s3).
            Inr (s3\<lparr>pending_rs := Some pr, params_in_ipg_bucket := []\<rparr>)))))"

text \<open>Autograd stores the gradient of \<open>p\<close>, or adds it to the one that is there, before the hook runs.\<close>

definition accumulate_grad :: "'a genv \<Rightarrow> nat \<Rightarrow> 'a list \<Rightarrow> 'a ipg \<Rightarrow> 'a ipg" where
  "accumulate_grad env p g s =
     (case grad s p of
        None \<Rightarrow> s\<lparr>grad := (grad s)(p \<mapsto> GOwn g)\<rparr>
      | Some (GOwn x) \<Rightarrow> s\<lparr>grad := (grad s)(p \<mapsto> GOwn (map2 (g_add env) x g))\<rparr>
      | Some (GBucket start len) \<Rightarrow>
          s\<lparr>ipg_bucket_flat := take start (ipg_bucket_flat s)
              @ map2 (g_add env) (take len (drop start (ipg_bucket_flat s))) g
              @ drop (start + len) (ipg_bucket_flat s)\<rparr>)"

definition reduce_ready_partitions :: "'a genv \<Rightarrow> nat \<Rightarrow> 'a ipg \<Rightarrow> 'a ipg result" where
  "reduce_ready_partitions env p s =
     ebind (if elements_in_ipg_bucket env s > 0 \<and> elements_in_ipg_bucket env s + g_numel env p > reduce_bucket_size env
            then ebind (report_ipg_memory_usage env) (\<lambda>_. reduce_and_partition_ipg_grads env s) else Inr s) (\<lambda>s1.
     ebind (assert_that (\<not> params_already_reduced s1 p)) (\<lambda>_.
       add_grad_to_ipg_bucket env p s1))"

definition backward_param :: "'a genv \<Rightarrow> nat \<times> 'a list \<Rightarrow> 'a ipg \<Rightarrow> 'a ipg result" where
  "backward_param env pg s = (case pg of (p, g) \<Rightarrow> reduce_ready_partitions env p (accumulate_grad env p g s))"

definition gradient_partition_epilogue :: "'a genv \<Rightarrow> 'a ipg \<Rightarrow> 'a ipg result" where
  "gradient_partition_epilogue env s =
     ebind (report_ipg_memory_usage env) (\<lambda>_.
     ebind (reduce_and_partition_ipg_grads env s) (\<lambda>s1.
     ebind (report_ipg_memory_usage env) (\<lambda>_.
       Inr (s1\<lparr>params_already_reduced := \<lambda>_. False, micro_step_id := micro_step_id s1 + 1\<rparr>))))"

definition zero_grad :: "bool \<Rightarrow> 'a \<Rightarrow> nat list list \<Rightarrow> 'a ipg \<Rightarrow> 'a ipg" where
  "zero_grad set_to_None z groups s =
     fold (\<lambda>ps. fold (\<lambda>p s.
       if set_to_None then s\<lparr>grad := (grad s)(p := None)\<rparr>
       else case grad s p of
              None \<Rightarrow> s
            | Some (GOwn x) \<Rightarrow> s\<lparr>grad := (grad s)(p \<mapsto> GOwn (map (\<lambda>_. z) x))\<rparr>
            | Some (GBucket start len) \<Rightarrow>
                s\<lparr>ipg_bucket_flat := take start (ipg_bucket_flat s) @ map (\<lambda>_. z) (take len (drop start (ipg_bucket_flat s)))
                     @ drop (start + len) (ipg_bucket_flat s)\<rparr>) ps) groups (s\<lparr>micro_step_id := 0\<rparr>)"

text \<open>A backward pass: the hooks of the parameters in the order of autograd, then the epilogue.\<close>

definition backward_pass :: "'a genv \<Rightarrow> (nat \<times> 'a list) list \<Rightarrow> 'a ipg \<Rightarrow> 'a ipg result" where
  "backward_pass env pgs s = ebind (foldE (backward_param env) pgs s) (gradient_partition_epilogue env)"

end
