(* ===== verification/GradBucketProps.thy ===== *)
theory GradBucketProps
  imports GradBucket
begin

text \<open>
  What the bucket and the partitioning of the gradients guarantee, and where they do not.
\<close>

section \<open>The bucket keeps its gradients\<close>

definition sum_numel :: "'a genv \<Rightarrow> nat list \<Rightarrow> nat" where
  "sum_numel env ps = (\<Sum>p \<leftarrow> ps. g_numel env p)"

lemma sum_numel_simps [simp]:
  "sum_numel env [] = 0" "sum_numel env (p # ps) = g_numel env p + sum_numel env ps"
  "sum_numel env (ps @ qs) = sum_numel env ps + sum_numel env qs"
  by (simp_all add: sum_numel_def)

lemma sum_numel_take: "i < length ps \<Longrightarrow> sum_numel env (take i ps) + g_numel env (ps ! i) \<le> sum_numel env ps"
  using total_numel_take [of i ps "g_numel env"] by (simp add: sum_numel_def total_numel_def)

lemma elements_sum: "elements_in_ipg_bucket env s = sum_numel env (params_in_ipg_bucket s)"
  by (simp add: elements_in_ipg_bucket_def sum_numel_def)

text \<open>
  A gradient of the bucket has storage of its own or the place after the parameters before it.
\<close>

definition slot_ok :: "'a genv \<Rightarrow> 'a ipg \<Rightarrow> nat list \<Rightarrow> nat \<Rightarrow> bool" where
  "slot_ok env s b i =
     (case grad s (b ! i) of
        None \<Rightarrow> False
      | Some (GOwn g) \<Rightarrow> length g = g_numel env (b ! i)
      | Some (GBucket start len) \<Rightarrow>
          start = sum_numel env (take i b) \<and> len = g_numel env (b ! i) \<and> start + len < reduce_bucket_size env \<and> contiguous_gradients env)"

definition bucket_ok :: "'a genv \<Rightarrow> 'a ipg \<Rightarrow> bool" where
  "bucket_ok env s \<longleftrightarrow> length (ipg_bucket_flat s) = reduce_bucket_size env
     \<and> list_all (slot_ok env s (params_in_ipg_bucket s)) [0..<length (params_in_ipg_bucket s)]"

lemma bucket_ok_slot: "bucket_ok env s \<Longrightarrow> i < length (params_in_ipg_bucket s) \<Longrightarrow> slot_ok env s (params_in_ipg_bucket s) i"
  by (simp add: bucket_ok_def list_all_iff)

definition only_bucket :: "'a ipg \<Rightarrow> 'a ipg \<Rightarrow> bool" where
  "only_bucket s t \<longleftrightarrow> t = s\<lparr>params_in_ipg_bucket := params_in_ipg_bucket t, ipg_bucket_flat := ipg_bucket_flat t, grad := grad t\<rparr>"

lemma read_slot:
  assumes "bucket_ok env s" and "i < length (params_in_ipg_bucket s)"
  shows "\<exists>g. read_grad s (params_in_ipg_bucket s ! i) = Inr g \<and> length g = g_numel env (params_in_ipg_bucket s ! i)"
  using bucket_ok_slot [OF assms] assms(1)
  by (auto simp: slot_ok_def read_grad_def bucket_ok_def split: option.splits gstore.splits)

lemma take_drop_prefix:
  "j + k \<le> m \<Longrightarrow> m \<le> length xs \<Longrightarrow> take k (drop j (take m xs @ ys)) = take k (drop j xs)"
  by (simp add: drop_take min_def) linarith

lemma add_grad_keeps:
  assumes "bucket_ok env s" and "p \<notin> set (params_in_ipg_bucket s)" and "grad s p = Some (GOwn g)" and "length g = g_numel env p"
  shows "\<exists>t. add_grad_to_ipg_bucket env p s = Inr t \<and> bucket_ok env t \<and> only_bucket s t
    \<and> params_in_ipg_bucket t = params_in_ipg_bucket s @ [p] \<and> read_grad t p = Inr g
    \<and> (\<forall>q. q \<noteq> p \<longrightarrow> grad t q = grad s q) \<and> (\<forall>q \<in> set (params_in_ipg_bucket s). read_grad t q = read_grad s q)"
proof -
  let ?b = "params_in_ipg_bucket s" and ?start = "sum_numel env (params_in_ipg_bucket s)" and ?flat = "ipg_bucket_flat s"
  have lenf: "length ?flat = reduce_bucket_size env" using assms(1) by (simp add: bucket_ok_def)
  have ne: "?b ! i \<noteq> p" if "i < length ?b" for i using assms(2) nth_mem [OF that] by metis
  show ?thesis
  proof (cases "contiguous_gradients env \<and> ?start + length g < reduce_bucket_size env")
    case False
    let ?t = "s\<lparr>params_in_ipg_bucket := ?b @ [p]\<rparr>"
    have eq: "add_grad_to_ipg_bucket env p s = Inr ?t"
      using False by (auto simp: add_grad_to_ipg_bucket_def read_grad_def assms(3) elements_sum)
    have "slot_ok env ?t (?b @ [p]) i" if "i < Suc (length ?b)" for i
      using that bucket_ok_slot [OF assms(1), of i] assms(3,4)
      by (cases "i = length ?b") (auto simp: slot_ok_def nth_append split: option.splits gstore.splits)
    then have "bucket_ok env ?t" using lenf by (simp add: bucket_ok_def list_all_iff)
    then show ?thesis using eq assms(3)
      by (intro exI [of _ ?t]) (auto simp: only_bucket_def read_grad_def split: option.splits gstore.splits)
  next
    case True
    define flat where "flat = take ?start ?flat @ g @ drop (?start + length g) ?flat"
    let ?t = "s\<lparr>ipg_bucket_flat := flat, grad := (grad s)(p \<mapsto> GBucket ?start (length g)), params_in_ipg_bucket := ?b @ [p]\<rparr>"
    have lenflat: "length flat = reduce_bucket_size env" using True lenf by (simp add: flat_def)
    have eq: "add_grad_to_ipg_bucket env p s = Inr ?t"
      using True lenf by (simp add: add_grad_to_ipg_bucket_def read_grad_def assms(3) elements_sum copy_into_ok flat_def Let_def)
    have "slot_ok env ?t (?b @ [p]) i" if "i < Suc (length ?b)" for i
      using that bucket_ok_slot [OF assms(1), of i] ne True assms(4)
      by (cases "i = length ?b") (auto simp: slot_ok_def nth_append split: option.splits gstore.splits)
    then have ok: "bucket_ok env ?t" using lenflat by (simp add: bucket_ok_def list_all_iff)
    have "read_grad ?t (?b ! i) = read_grad s (?b ! i)" if i: "i < length ?b" for i
    proof -
      have "sum_numel env (take i ?b) + g_numel env (?b ! i) \<le> ?start" by (rule sum_numel_take [OF i])
      moreover have "take k (drop j flat) = take k (drop j ?flat)" if "j + k \<le> ?start" for j k
        unfolding flat_def by (rule take_drop_prefix [OF that]) (use True lenf in simp)
      ultimately show ?thesis
        using bucket_ok_slot [OF assms(1) i] ne [OF i]
        by (auto simp: slot_ok_def read_grad_def split: option.splits gstore.splits)
    qed
    then have "\<forall>q \<in> set ?b. read_grad ?t q = read_grad s q" by (metis in_set_conv_nth)
    moreover have "read_grad ?t p = Inr g" using True lenf by (simp add: read_grad_def flat_def)
    ultimately show ?thesis using eq ok by (intro exI [of _ ?t]) (simp add: only_bucket_def)
  qed
qed

section \<open>Partitioning in place\<close>

text \<open>The part of a parameter's gradient this rank keeps, and the places it is kept in.\<close>

definition local_numel :: "'a genv \<Rightarrow> nat \<Rightarrow> nat" where
  "local_numel env p = min (g_part env p) (g_numel env p - g_rank env * g_part env p)"

definition grad_slot :: "'a genv \<Rightarrow> 'a ipg \<Rightarrow> nat \<Rightarrow> 'a list" where
  "grad_slot env s p = take (local_numel env p) (drop (g_offset env p) (grad_partitions_flat s))"

definition fp32_slot :: "'a genv \<Rightarrow> 'a ipg \<Rightarrow> nat \<Rightarrow> 'a list" where
  "fp32_slot env s p =
     (case g_position env p of (i, dest, _) \<Rightarrow> take (local_numel env p) (drop dest (grad_bufs s (buf_switch s) ! i)))"

definition apart :: "'a genv \<Rightarrow> nat \<Rightarrow> nat \<Rightarrow> bool" where
  "apart env p q \<longleftrightarrow>
     (case g_position env p of (i, dest, _) \<Rightarrow> case g_position env q of (i', dest', _) \<Rightarrow>
        i \<noteq> i' \<or> dest + g_part env p \<le> dest' \<or> dest' + g_part env q \<le> dest)"

definition fits :: "'a genv \<Rightarrow> 'a ipg \<Rightarrow> nat \<Rightarrow> bool" where
  "fits env s p \<longleftrightarrow>
     (case g_position env p of (i, dest, _) \<Rightarrow>
        i < length (grad_bufs s (buf_switch s)) \<and> dest + g_part env p \<le> length (grad_bufs s (buf_switch s) ! i))
     \<and> g_offset env p + g_part env p \<le> length (grad_partitions_flat s)"

text \<open>A step that touches the 32-bit buffers and the gradients of some parameters only.\<close>

definition only_offload :: "nat set \<Rightarrow> 'a ipg \<Rightarrow> 'a ipg \<Rightarrow> bool" where
  "only_offload P s t \<longleftrightarrow> t = s\<lparr>grad_bufs := grad_bufs t, grad := grad t\<rparr>
     \<and> (\<forall>b. map length (grad_bufs t b) = map length (grad_bufs s b)) \<and> (\<forall>q. q \<notin> P \<longrightarrow> grad t q = grad s q)"

lemma only_offload_refl: "only_offload P s s"
  by (simp add: only_offload_def)

lemma only_offload_trans: "only_offload P s t \<Longrightarrow> only_offload Q t r \<Longrightarrow> only_offload (P \<union> Q) s r"
  unfolding only_offload_def by (cases s; cases t; cases r) simp

lemma only_offload_fields:
  assumes "only_offload P s t"
  shows "grad_partitions_flat t = grad_partitions_flat s" "buf_switch t = buf_switch s" "accumulation_boundary t = accumulation_boundary s"
    "micro_step_id t = micro_step_id s" "params_in_ipg_bucket t = params_in_ipg_bucket s" "ipg_bucket_flat t = ipg_bucket_flat s"
    "pending_rs t = pending_rs s" "params_already_reduced t = params_already_reduced s" "gworld t = gworld s"
    "length (grad_bufs t b) = length (grad_bufs s b)" "i < length (grad_bufs s b) \<Longrightarrow> length (grad_bufs t b ! i) = length (grad_bufs s b ! i)"
proof -
  have t: "t = s\<lparr>grad_bufs := grad_bufs t, grad := grad t\<rparr>" and l: "map length (grad_bufs t b) = map length (grad_bufs s b)"
    using assms by (simp_all add: only_offload_def)
  show "grad_partitions_flat t = grad_partitions_flat s" "buf_switch t = buf_switch s" "accumulation_boundary t = accumulation_boundary s"
    "micro_step_id t = micro_step_id s" "params_in_ipg_bucket t = params_in_ipg_bucket s" "ipg_bucket_flat t = ipg_bucket_flat s"
    "pending_rs t = pending_rs s" "params_already_reduced t = params_already_reduced s" "gworld t = gworld s"
    by (subst t, simp)+
  show len: "length (grad_bufs t b) = length (grad_bufs s b)" using l by (metis length_map)
  show "i < length (grad_bufs s b) \<Longrightarrow> length (grad_bufs t b ! i) = length (grad_bufs s b ! i)"
    using l len by (metis nth_map)
qed

lemma only_offload_fits: "only_offload P s t \<Longrightarrow> fits env t p = fits env s p"
  by (auto simp: fits_def only_offload_fields split: prod.splits)

lemma take_drop_outside:
  assumes "start + k \<le> length xs" and "length ys = k" and "j + m \<le> start \<or> start + k \<le> j"
  shows "take m (drop j (take start xs @ ys @ drop (start + k) xs)) = take m (drop j xs)"
  using assms(3)
proof
  assume "j + m \<le> start"
  then show ?thesis using assms(1) by (intro take_drop_prefix) simp_all
next
  assume "start + k \<le> j"
  then have "drop j (take start xs @ ys @ drop (start + k) xs) = drop j xs" using assms by simp
  then show ?thesis by simp
qed

lemma partition_in_place:
  assumes "accumulation_boundary s" and "grad s p \<noteq> None" and "fits env s p"
  shows "\<exists>t. partition_grad env (p, InPlace (g_offset env p) (local_numel env p)) s = Inr t \<and> only_offload {p} s t
    \<and> fp32_slot env t p = map (g_cvt env Float32) (grad_slot env s p)
    \<and> (\<forall>q. q \<noteq> p \<longrightarrow> apart env p q \<longrightarrow> fp32_slot env t q = fp32_slot env s q)
    \<and> (grad t p = None \<or> g_numel env p < g_part env p * g_rank env)"
proof (cases "g_part env p * g_rank env > g_numel env p")
  case True
  then have "local_numel env p = 0" by (simp add: local_numel_def mult.commute)
  then show ?thesis using True
    by (intro exI [of _ s]) (auto simp: partition_grad_def only_offload_refl fp32_slot_def grad_slot_def split: prod.splits)
next
  case False
  obtain i dest l where pos: "g_position env p = (i, dest, l)" by (metis prod_cases3)
  have le: "local_numel env p \<le> g_part env p" by (simp add: local_numel_def)
  let ?bufs = "grad_bufs s (buf_switch s)" and ?v = "map (g_cvt env Float32) (grad_slot env s p)"
  have f: "i < length ?bufs" "dest + g_part env p \<le> length (?bufs ! i)" "g_offset env p + g_part env p \<le> length (grad_partitions_flat s)"
    using assms(3) by (simp_all add: fits_def pos)
  have lenv: "length ?v = local_numel env p" using f(3) le by (simp add: grad_slot_def)
  define buf where "buf = take dest (?bufs ! i) @ ?v @ drop (dest + local_numel env p) (?bufs ! i)"
  have lenb: "length buf = length (?bufs ! i)" using f(2) le lenv by (simp add: buf_def)
  define t where "t = s\<lparr>grad_bufs := (grad_bufs s)(buf_switch s := ?bufs[i := buf]), grad := (grad s)(p := None)\<rparr>"
  have "offload_grad env p (grad_slot env s p) s = Inr (s\<lparr>grad_bufs := (grad_bufs s)(buf_switch s := ?bufs[i := buf])\<rparr>)"
    using f le lenv assms(1) by (simp add: offload_grad_def pos copy_into_ok buf_def)
  then have eq: "partition_grad env (p, InPlace (g_offset env p) (local_numel env p)) s = Inr t"
    using False assms(2) le by (simp add: partition_grad_def part_numel_def Let_def grad_slot_def [symmetric] t_def)
  have "map length (?bufs[i := buf]) = map length ?bufs" using lenb f(1) by (simp add: map_update list_update_same_conv)
  then have "only_offload {p} s t" by (simp add: only_offload_def t_def)
  moreover have "fp32_slot env t p = ?v"
    using f le lenv by (simp add: fp32_slot_def pos t_def buf_def)
  moreover have "fp32_slot env t q = fp32_slot env s q" if "q \<noteq> p" "apart env p q" for q
  proof -
    obtain i' dest' l' where pos': "g_position env q = (i', dest', l')" by (metis prod_cases3)
    have le': "local_numel env q \<le> g_part env q" by (simp add: local_numel_def)
    show ?thesis
    proof (cases "i' = i")
      case True
      then have "dest' + local_numel env q \<le> dest \<or> dest + local_numel env p \<le> dest'"
        using that(2) le le' by (auto simp: apart_def pos pos')
      then have "take (local_numel env q) (drop dest' buf) = take (local_numel env q) (drop dest' (?bufs ! i))"
        unfolding buf_def by (intro take_drop_outside lenv) (use f(2) le in simp_all)
      then show ?thesis using True f(1) by (simp add: fp32_slot_def pos' t_def)
    next
      case False
      then show ?thesis by (simp add: fp32_slot_def pos' t_def)
    qed
  qed
  ultimately show ?thesis using eq by (intro exI [of _ t]) (simp add: t_def)
qed

lemma partition_all_in_place:
  assumes "accumulation_boundary s" and "distinct ps" and "\<And>p. p \<in> set ps \<Longrightarrow> grad s p \<noteq> None \<and> fits env s p"
    and "\<And>p q. p \<in> set ps \<Longrightarrow> q \<in> set ps \<union> Q \<Longrightarrow> p \<noteq> q \<Longrightarrow> apart env p q" and "set ps \<inter> Q = {}"
  shows "\<exists>t. partition_grads env ps (map (\<lambda>p. InPlace (g_offset env p) (local_numel env p)) ps) s = Inr t
    \<and> only_offload (set ps) s t \<and> (\<forall>p \<in> set ps. fp32_slot env t p = map (g_cvt env Float32) (grad_slot env s p))
    \<and> (\<forall>q \<in> Q. fp32_slot env t q = fp32_slot env s q)"
  using assms
proof (induction ps arbitrary: s Q)
  case Nil
  then show ?case by (simp add: partition_grads_def only_offload_refl)
next
  case (Cons p ps)
  obtain t where t: "partition_grad env (p, InPlace (g_offset env p) (local_numel env p)) s = Inr t" "only_offload {p} s t"
      "fp32_slot env t p = map (g_cvt env Float32) (grad_slot env s p)"
      "\<forall>q. q \<noteq> p \<longrightarrow> apart env p q \<longrightarrow> fp32_slot env t q = fp32_slot env s q"
    using partition_in_place [of s p env] Cons.prems(1,3) by auto
  note f = only_offload_fields [OF t(2)]
  have grads: "grad t q = grad s q" if "q \<in> set ps" for q
    using t(2) that Cons.prems(2) by (auto simp: only_offload_def)
  have "\<exists>r. partition_grads env ps (map (\<lambda>p. InPlace (g_offset env p) (local_numel env p)) ps) t = Inr r
    \<and> only_offload (set ps) t r \<and> (\<forall>p \<in> set ps. fp32_slot env r p = map (g_cvt env Float32) (grad_slot env t p))
    \<and> (\<forall>q \<in> insert p Q. fp32_slot env r q = fp32_slot env t q)"
  proof (rule Cons.IH)
    show "accumulation_boundary t" "distinct ps" using Cons.prems(1,2) f by simp_all
    show "grad t q \<noteq> None \<and> fits env t q" if "q \<in> set ps" for q
      using that Cons.prems(3) grads only_offload_fits [OF t(2)] by simp
    show "apart env a b" if "a \<in> set ps" "b \<in> set ps \<union> insert p Q" "a \<noteq> b" for a b
      using Cons.prems(4) [of a b] that by auto
    show "set ps \<inter> insert p Q = {}" using Cons.prems(2,5) by auto
  qed
  then obtain r where r: "partition_grads env ps (map (\<lambda>p. InPlace (g_offset env p) (local_numel env p)) ps) t = Inr r"
      "only_offload (set ps) t r" "\<forall>p \<in> set ps. fp32_slot env r p = map (g_cvt env Float32) (grad_slot env t p)"
      "\<forall>q \<in> insert p Q. fp32_slot env r q = fp32_slot env t q" by blast
  have slot: "grad_slot env t q = grad_slot env s q" for q by (simp add: grad_slot_def f)
  have other: "fp32_slot env t q = fp32_slot env s q" if "q \<in> Q" for q
  proof -
    have "q \<noteq> p" using Cons.prems(5) that by auto
    moreover from this have "apart env p q" using Cons.prems(4) [of p q] that by simp
    ultimately show ?thesis using t(4) by blast
  qed
  show ?case
  proof (intro exI [of _ r] conjI)
    show "partition_grads env (p # ps) (map (\<lambda>p. InPlace (g_offset env p) (local_numel env p)) (p # ps)) s = Inr r"
      using t(1) r(1) by (simp add: partition_grads_def)
    show "only_offload (set (p # ps)) s r" using only_offload_trans [OF t(2) r(2)] by simp
    show "\<forall>q \<in> set (p # ps). fp32_slot env r q = map (g_cvt env Float32) (grad_slot env s q)"
      using r(3,4) t(3) slot by simp
    show "\<forall>q \<in> Q. fp32_slot env r q = fp32_slot env s q" using r(4) other by simp
  qed
qed

section \<open>One bucket through the reduce-scatter\<close>

text \<open>
  The settings in which a result is written straight into the gradient partitions: the transport
  of the DPU and no conversion of the gradients. A collective may read its input at any time up to
  the wait.
\<close>

definition direct_env :: "'a genv \<Rightarrow> bool" where
  "direct_env env \<longleftrightarrow> \<not> rs_use_nccl env \<and> \<not> copies_grads env \<and> (\<forall>i. \<not> call_fails (g_comch env) i)
     \<and> g_rank env < g_world env
     \<and> (\<forall>p. g_part env p = ceil_div (g_numel env p) (g_world env))"

definition sum_part :: "'a genv \<Rightarrow> nat list \<Rightarrow> nat" where
  "sum_part env ps = (\<Sum>p \<leftarrow> ps. g_part env p)"

fun consecutive :: "'a genv \<Rightarrow> nat list \<Rightarrow> bool" where
  "consecutive env (p # q # ps) \<longleftrightarrow> g_offset env q = g_offset env p + g_part env p \<and> consecutive env (q # ps)"
| "consecutive env _ \<longleftrightarrow> True"

lemma consecutive_nth:
  "consecutive env ps \<Longrightarrow> i < length ps \<Longrightarrow> g_offset env (ps ! i) = g_offset env (hd ps) + sum_part env (take i ps)"
proof (induction ps arbitrary: i rule: consecutive.induct)
  case (1 env p q ps)
  then show ?case by (cases i) (simp_all add: sum_part_def add.assoc)
qed (auto simp: sum_part_def)

lemma consecutive_end:
  assumes "consecutive env ps" and "ps \<noteq> []"
  shows "g_offset env (last ps) + g_part env (last ps) = g_offset env (hd ps) + sum_part env ps"
proof -
  obtain qs q where ps: "ps = qs @ [q]" using assms(2) by (metis rev_exhaust)
  have "g_offset env (ps ! length qs) = g_offset env (hd ps) + sum_part env (take (length qs) ps)"
    by (rule consecutive_nth [OF assms(1)]) (simp add: ps)
  then show ?thesis by (simp add: ps sum_part_def)
qed

lemma sum_part_take: "i < length ps \<Longrightarrow> sum_part env (take i ps) + g_part env (ps ! i) \<le> sum_part env ps"
  using total_numel_take [of i ps "g_part env"] by (simp add: sum_part_def total_numel_def)

definition rs_input :: "'a genv \<Rightarrow> 'a list list \<Rightarrow> 'a list" where
  "rs_input env gs = map (g_dv env (g_world env)) (concat (map (rank_row (g_world env) (g_fresh env) gs) [0..<g_world env]))"

definition launched_for :: "'a genv \<Rightarrow> nat list \<Rightarrow> 'a list list \<Rightarrow> 'a pending \<Rightarrow> bool" where
  "launched_for env ps gs pr \<longleftrightarrow> p_params pr = ps \<and> p_out pr = Some (g_offset env (hd ps)) \<and> \<not> p_needs_dtype_convert pr
     \<and> d_cid (p_deferred pr) = int (hd ps) \<and> d_input (p_deferred pr) = rs_input env gs
     \<and> d_views (p_deferred pr) = views_of (g_world env) (g_rank env) gs \<and> \<not> d_waited (p_deferred pr)
     \<and> (case d_handle (p_deferred pr) of None \<Rightarrow> False | Some k \<Rightarrow> \<not> r_completed k \<and> \<not> r_released k)"

definition grads_for :: "'a genv \<Rightarrow> nat list \<Rightarrow> 'a list list \<Rightarrow> bool" where
  "grads_for env ps gs \<longleftrightarrow> ps \<noteq> [] \<and> map length gs = map (g_numel env) ps"

lemma grads_for_chunks:
  assumes "direct_env env" and "grads_for env ps gs"
  shows "length gs = length ps" "gs \<noteq> []" "i < length ps \<Longrightarrow> chunk_sz (g_world env) (gs ! i) = g_part env (ps ! i)"
    "i < length ps \<Longrightarrow> length (gs ! i) = g_numel env (ps ! i)"
    "(\<Sum>t \<leftarrow> gs. chunk_sz (g_world env) t) = sum_part env ps" "row_offset (g_world env) gs i = sum_part env (take i ps)"
proof -
  have len: "map length gs = map (g_numel env) ps" using assms(2) by (simp add: grads_for_def)
  show l: "length gs = length ps" using arg_cong [OF len, of length] by simp
  show "gs \<noteq> []" using l assms(2) by (auto simp: grads_for_def)
  show n: "length (gs ! i) = g_numel env (ps ! i)" if "i < length ps" for i
    using arg_cong [OF len, of "\<lambda>xs. xs ! i"] l that by simp
  show "chunk_sz (g_world env) (gs ! i) = g_part env (ps ! i)" if "i < length ps"
    using n [OF that] assms(1) by (simp add: chunk_sz_def direct_env_def)
  have parts: "map (chunk_sz (g_world env)) gs = map (g_part env) ps"
    using n l assms(1) by (intro nth_equalityI) (simp_all add: chunk_sz_def direct_env_def)
  show "(\<Sum>t \<leftarrow> gs. chunk_sz (g_world env) t) = sum_part env ps" unfolding parts sum_part_def ..
  show "row_offset (g_world env) gs i = sum_part env (take i ps)"
    unfolding row_offset_def take_map [symmetric] parts sum_part_def ..
qed

text \<open>
  Only the input of a bucket with a single gradient that needs no padding can change after the
  launch: it is the place of that gradient in the flat buffer.
\<close>

lemma rs_source_flat: "ipg_bucket_flat t = ipg_bucket_flat s \<Longrightarrow> rs_source env pr t = rs_source env pr s"
  by (simp add: rs_source_def split: option.split)

lemma rs_source_updates [simp]:
  "rs_source env pr (s\<lparr>params_in_ipg_bucket := b\<rparr>) = rs_source env pr s" "rs_source env pr (s\<lparr>grad := g\<rparr>) = rs_source env pr s"
  "rs_source env pr (s\<lparr>pending_rs := q\<rparr>) = rs_source env pr s" "rs_source env pr (s\<lparr>gworld := w\<rparr>) = rs_source env pr s"
  "rs_source env pr (s\<lparr>params_already_reduced := a\<rparr>) = rs_source env pr s" "rs_source env pr (s\<lparr>micro_step_id := m\<rparr>) = rs_source env pr s"
  by (rule rs_source_flat, simp)+

definition not_overwritten :: "'a genv \<Rightarrow> 'a pending \<Rightarrow> bool" where
  "not_overwritten env pr \<longleftrightarrow> p_in pr = None \<or> \<not> g_late env (d_cid (p_deferred pr))"

lemma rs_source_kept: "not_overwritten env pr \<Longrightarrow> rs_source env pr s = d_input (p_deferred pr)"
  by (auto simp: not_overwritten_def rs_source_def split: option.split)

lemma aliased_source:
  assumes "aliases_input W gs" and "0 < W" and "bucket_place s p = Some (start, len)" and "read_grads s [p] = Inr gs"
    and "start + len \<le> length (ipg_bucket_flat s)"
  shows "take len (drop start (ipg_bucket_flat (divide_grad env p s))) = map (g_dv env (g_world env)) (concat (map (rank_row W u gs) [0..<W]))"
proof -
  have gr: "grad s p = Some (GBucket start len)"
    using assms(3) by (simp add: bucket_place_def split: option.splits gstore.splits)
  then have gs: "gs = [take len (drop start (ipg_bucket_flat s))]" using assms(4) by (simp add: read_grad_def)
  then have "flat_input W u gs = Inr (take len (drop start (ipg_bucket_flat s)))" using assms(1) by (simp add: flat_input_def)
  moreover have "gs \<noteq> []" by (simp add: gs)
  ultimately have "concat (map (rank_row W u gs) [0..<W]) = take len (drop start (ipg_bucket_flat s))"
    using flat_input_rows [OF assms(2), of gs u] by simp
  then show ?thesis using gr assms(5) by (simp add: divide_grad_def)
qed

lemma avg_scatter_direct:
  assumes "direct_env env" and "grads_for env ps gs" and "read_grads s ps = Inr gs" and "consecutive env ps"
    and "g_offset env (hd ps) + sum_part env ps \<le> length (grad_partitions_flat s)"
    and "\<forall>start len. grad s (hd ps) = Some (GBucket start len) \<longrightarrow> start + len \<le> length (ipg_bucket_flat s)"
  shows "\<exists>pr t. avg_scatter_grads env ps s = Inr (pr, t) \<and> launched_for env ps gs pr
    \<and> t = s\<lparr>gworld := gworld t, ipg_bucket_flat := ipg_bucket_flat t, grad := grad t\<rparr>
    \<and> length (ipg_bucket_flat t) = length (ipg_bucket_flat s)
    \<and> (\<forall>q. q \<noteq> hd ps \<longrightarrow> grad t q = grad s q) \<and> (\<forall>q. grad t q = None \<longleftrightarrow> grad s q = None)
    \<and> rs_source env pr t = rs_input env gs
    \<and> p_in pr = (if aliases_input (g_world env) gs then bucket_place s (hd ps) else None)"
proof -
  let ?W = "g_world env"
  note g = grads_for_chunks [OF assms(1,2)]
  have W: "0 < ?W" "g_rank env < ?W" using assms(1) by (simp_all add: direct_env_def)
  have ps: "ps \<noteq> []" using assms(2) by (simp add: grads_for_def)
  let ?ob = "Some (sum_part env ps, False)"
  have flat: "flat_input ?W (g_fresh env) gs = Inr (concat (map (rank_row ?W (g_fresh env) gs) [0..<?W]))"
    by (rule flat_input_rows [OF W(1) g(2)])
  define x where "x = concat (map (rank_row ?W (g_fresh env) gs) [0..<?W])"
  have lenx: "length x div ?W = sum_part env ps" unfolding x_def length_flat g(5) using W(1) by simp
  have call: "bind_call (g_comch env) c w = (w\<lparr>calls := calls w @ [c]\<rparr>, Inr (length (calls w)))" for c w
    using assms(1) by (simp add: bind_call_def direct_env_def)
  have views: "output_views (sum_part env ps) 0 (map (\<lambda>t. (length (partition_lst ?W t ! g_rank env), chunk_sz ?W t)) gs)
      = Inr (views_of ?W (g_rank env) gs)"
    by (rule output_views_launch [OF W(2)]) (simp add: g(5))
  obtain w k where launch: "reduce_scatter_coalesced ?W (g_rank env) (g_dv env) (g_fresh env) (g_comch env) False gs (int (hd ps)) ?ob (gworld s)
      = (w, Inr \<lparr>d_handle = Some (rs_work_init k), d_cid = int (hd ps), d_input = map (g_dv env ?W) x,
          d_alias = aliases_input ?W gs, d_in_buffer = True, d_views = views_of ?W (g_rank env) gs, d_waited = False\<rparr>)"
    by (simp add: reduce_scatter_coalesced_def flat x_def [symmetric] Let_def lenx use_output_buffer_def rs_flat_launch_def
        enqueue_def call views)
  define d where "d = \<lparr>d_handle = Some (rs_work_init k), d_cid = int (hd ps), d_input = map (g_dv env ?W) x,
          d_alias = aliases_input ?W gs, d_in_buffer = True, d_views = views_of ?W (g_rank env) gs, d_waited = False\<rparr>"
  let ?itself = "aliases_input ?W gs"
  let ?pr = "\<lparr>p_deferred = d, p_params = ps, p_out = Some (g_offset env (hd ps)),
       p_in = (if ?itself then bucket_place s (hd ps) else None), p_needs_dtype_convert = False\<rparr>"
  let ?t = "if ?itself then divide_grad env (hd ps) (s\<lparr>gworld := w\<rparr>) else s\<lparr>gworld := w\<rparr>"
  have "avg_scatter_grads env ps s = Inr (?pr, ?t)"
    using assms(1) assms(3,5) launch consecutive_end [OF assms(4) ps]
    by (simp add: avg_scatter_grads_def direct_env_def Let_def sum_part_def d_def)
  moreover have "launched_for env ps gs ?pr"
    by (simp add: launched_for_def d_def rs_input_def x_def rs_work_init_def)
  moreover have "?t = s\<lparr>gworld := gworld ?t, ipg_bucket_flat := ipg_bucket_flat ?t, grad := grad ?t\<rparr>"
    by (cases s) (auto simp: divide_grad_def split: option.splits gstore.splits)
  moreover have "length (ipg_bucket_flat ?t) = length (ipg_bucket_flat s)"
    using assms(6) by (auto simp: divide_grad_def split: option.splits gstore.splits)
  moreover have "\<forall>q. q \<noteq> hd ps \<longrightarrow> grad ?t q = grad s q" "\<forall>q. grad ?t q = None \<longleftrightarrow> grad s q = None"
    by (auto simp: divide_grad_def split: option.splits gstore.splits)
  moreover have "rs_source env ?pr ?t = rs_input env gs"
  proof (cases "?itself \<and> bucket_place s (hd ps) \<noteq> None")
    case True
    then obtain start len where pl: "bucket_place s (hd ps) = Some (start, len)" by auto
    have "length ps = 1" using True g(1) by (simp add: aliases_input_def)
    then have one: "ps = [hd ps]" by (cases ps) auto
    have rd: "read_grads s [hd ps] = Inr gs" using assms(3) one by simp
    have fit: "start + len \<le> length (ipg_bucket_flat s)"
      using assms(6) pl by (simp add: bucket_place_def split: option.splits gstore.splits)
    have "take len (drop start (ipg_bucket_flat (divide_grad env (hd ps) s))) = map (g_dv env ?W) x"
      unfolding x_def by (rule aliased_source [OF _ W(1) pl rd fit]) (use True in simp)
    moreover have "ipg_bucket_flat (divide_grad env (hd ps) (s\<lparr>gworld := w\<rparr>)) = ipg_bucket_flat (divide_grad env (hd ps) s)"
      by (simp add: divide_grad_def split: option.split gstore.split)
    ultimately show ?thesis using True pl by (simp add: rs_source_def d_def rs_input_def x_def)
  next
    case False
    then show ?thesis by (auto simp: rs_source_def d_def rs_input_def x_def split: option.split)
  qed
  moreover have "p_in ?pr = (if ?itself then bucket_place s (hd ps) else None)" by simp
  ultimately show ?thesis by blast
qed

lemma deferred_wait_ok:
  assumes "direct_env env" and "launched_for env ps gs pr"
  shows "\<exists>w d. deferred_wait (g_comch env) (w0, p_deferred pr) = ((w, d), Inr (d_views (p_deferred pr)))"
proof -
  obtain k where k: "d_handle (p_deferred pr) = Some k" "\<not> r_completed k" "\<not> r_released k" "\<not> d_waited (p_deferred pr)"
    using assms(2) by (auto simp: launched_for_def split: option.splits)
  have call: "bind_call (g_comch env) c w = (w\<lparr>calls := calls w @ [c]\<rparr>, Inr (length (calls w)))" for c w
    using assms(1) by (simp add: bind_call_def direct_env_def)
  show ?thesis using k by (simp add: deferred_wait_def rs_work_wait_def rs_release_once_def call)
qed

text \<open>The parameters of a launched bucket still have their gradients and their places.\<close>

definition keeps_places :: "'a genv \<Rightarrow> 'a ipg \<Rightarrow> nat list \<Rightarrow> bool" where
  "keeps_places env s ps \<longleftrightarrow> list_all (\<lambda>p. grad s p \<noteq> None \<and> fits env s p) ps"

definition only_flushed :: "nat set \<Rightarrow> 'a ipg \<Rightarrow> 'a ipg \<Rightarrow> bool" where
  "only_flushed P s t \<longleftrightarrow> t = s\<lparr>gworld := gworld t, grad_partitions_flat := grad_partitions_flat t, grad_bufs := grad_bufs t,
       grad := grad t, pending_rs := None\<rparr>
     \<and> length (grad_partitions_flat t) = length (grad_partitions_flat s)
     \<and> (\<forall>b. map length (grad_bufs t b) = map length (grad_bufs s b)) \<and> (\<forall>q. q \<notin> P \<longrightarrow> grad t q = grad s q)"

lemma delivered_slots:
  assumes "direct_env env" and "grads_for env ps gs" and "launched_for env ps gs pr" and "consecutive env ps"
    and "length out = sum_part env ps" and "g_offset env (hd ps) + sum_part env ps \<le> length (grad_partitions_flat s)"
    and "read_views (views_of (g_world env) (g_rank env) gs) out = map res ps"
  shows "delivered_parts env pr (views_of (g_world env) (g_rank env) gs) out
      = map (\<lambda>p. InPlace (g_offset env p) (local_numel env p)) ps"
    and "p \<in> set ps \<Longrightarrow> grad_slot env (deliver pr out s) p = res p"
proof -
  note g = grads_for_chunks [OF assms(1,2)]
  let ?o = "g_offset env (hd ps)"
  have pr: "p_out pr = Some ?o" "\<not> p_needs_dtype_convert pr" using assms(3) by (simp_all add: launched_for_def)
  have views: "views_of (g_world env) (g_rank env) gs = map (\<lambda>i. (sum_part env (take i ps), local_numel env (ps ! i))) [0..<length ps]"
    unfolding views_of_def using g by (simp add: local_numel_def)
  have off: "g_offset env (ps ! i) = ?o + sum_part env (take i ps)" if "i < length ps" for i
    by (rule consecutive_nth [OF assms(4) that])
  show "delivered_parts env pr (views_of (g_world env) (g_rank env) gs) out
      = map (\<lambda>p. InPlace (g_offset env p) (local_numel env p)) ps"
    unfolding delivered_parts_def views using pr off by (intro nth_equalityI) simp_all
  assume "p \<in> set ps"
  then obtain i where i: "i < length ps" "ps ! i = p" by (auto simp: in_set_conv_nth)
  have le: "sum_part env (take i ps) + local_numel env p \<le> sum_part env ps"
    using sum_part_take [OF i(1), of env] by (simp add: i(2) local_numel_def)
  have "grad_slot env (deliver pr out s) p
      = take (local_numel env p) (drop (?o + sum_part env (take i ps)) (take ?o (grad_partitions_flat s) @ out
          @ drop (?o + length out) (grad_partitions_flat s)))"
    using off [OF i(1)] by (simp add: grad_slot_def deliver_def pr(1) i(2))
  also have "\<dots> = take (local_numel env p) (drop (sum_part env (take i ps)) out)"
    using assms(5,6) le by simp
  also have "\<dots> = res p"
    using arg_cong [OF assms(7), of "\<lambda>xs. xs ! i"] i by (simp add: read_views_def views)
  finally show "grad_slot env (deliver pr out s) p = res p" .
qed

lemma flush_direct:
  assumes "direct_env env" and "grads_for env ps gs" and "launched_for env ps gs pr" and "pending_rs s = Some pr"
    and src: "rs_source env pr s = x" and "consecutive env ps" and "distinct ps" and "keeps_places env s ps" and "accumulation_boundary s"
    and "\<And>p q. p \<in> set ps \<Longrightarrow> q \<in> set ps \<union> Q \<Longrightarrow> p \<noteq> q \<Longrightarrow> apart env p q" and "set ps \<inter> Q = {}"
    and "length (g_rs env (int (hd ps)) x) = sum_part env ps"
    and "read_views (views_of (g_world env) (g_rank env) gs) (g_rs env (int (hd ps)) x) = map res ps"
  shows "\<exists>t. flush_pending_rs env s = Inr t \<and> only_flushed (set ps) s t
    \<and> (\<forall>p \<in> set ps. fp32_slot env t p = map (g_cvt env Float32) (res p))
    \<and> (\<forall>q \<in> Q. fp32_slot env t q = fp32_slot env s q)"
proof -
  let ?out = "g_rs env (int (hd ps)) x"
  have cid: "d_cid (p_deferred pr) = int (hd ps)" and views: "d_views (p_deferred pr) = views_of (g_world env) (g_rank env) gs"
    and params: "p_params pr = ps" and pout: "p_out pr = Some (g_offset env (hd ps))"
    using assms(3) by (simp_all add: launched_for_def)
  obtain w d where wait: "deferred_wait (g_comch env) (gworld s, p_deferred pr) = ((w, d), Inr (d_views (p_deferred pr)))"
    using deferred_wait_ok [OF assms(1,3)] by blast
  let ?s1 = "deliver pr ?out (s\<lparr>gworld := w\<rparr>)"
  have ne: "ps \<noteq> []" using assms(2) by (simp add: grads_for_def)
  have "fits env s (last ps)" using assms(8) ne by (simp add: keeps_places_def list_all_iff)
  then have room: "g_offset env (hd ps) + sum_part env ps \<le> length (grad_partitions_flat s)"
    using consecutive_end [OF assms(6) ne] by (simp add: fits_def)
  note slots = delivered_slots [OF assms(1-3,6,12) _ assms(13)]
  have s1: "?s1 = s\<lparr>gworld := w, grad_partitions_flat := grad_partitions_flat ?s1\<rparr>"
    "length (grad_partitions_flat ?s1) = length (grad_partitions_flat s)"
    using room by (simp_all add: deliver_def pout assms(12))
  have f1: "grad ?s1 = grad s" "grad_bufs ?s1 = grad_bufs s" "buf_switch ?s1 = buf_switch s" "accumulation_boundary ?s1 = accumulation_boundary s"
    by (subst s1(1), simp)+
  have places: "grad ?s1 p \<noteq> None \<and> fits env ?s1 p" if "p \<in> set ps" for p
    using assms(8) that s1(2) f1 by (auto simp: keeps_places_def list_all_iff fits_def)
  obtain t where t: "partition_grads env ps (map (\<lambda>p. InPlace (g_offset env p) (local_numel env p)) ps) ?s1 = Inr t"
      "only_offload (set ps) ?s1 t" "\<forall>p \<in> set ps. fp32_slot env t p = map (g_cvt env Float32) (grad_slot env ?s1 p)"
      "\<forall>q \<in> Q. fp32_slot env t q = fp32_slot env ?s1 q"
    using partition_all_in_place [of ?s1 ps env Q] assms(7,9,10,11) places f1(4) by auto
  let ?t = "t\<lparr>pending_rs := None\<rparr>"
  have "flush_pending_rs env s = Inr ?t"
    using assms(4) wait t(1) room by (simp add: flush_pending_rs_def Let_def cid views src params slots(1))
  moreover have "only_flushed (set ps) s ?t"
  proof -
    have eq: "t = ?s1\<lparr>grad_bufs := grad_bufs t, grad := grad t\<rparr>" using t(2) by (simp add: only_offload_def)
    have "gworld t = w" "grad_partitions_flat t = grad_partitions_flat ?s1" by (subst eq, subst s1(1), simp)+
    then have "?t = s\<lparr>gworld := gworld ?t, grad_partitions_flat := grad_partitions_flat ?t, grad_bufs := grad_bufs ?t,
       grad := grad ?t, pending_rs := None\<rparr>"
      by (subst eq, subst s1(1)) simp
    then show ?thesis using t(2) f1 s1(2) only_offload_fields(1) [OF t(2)] by (simp add: only_flushed_def only_offload_def)
  qed
  moreover have "fp32_slot env ?t p = map (g_cvt env Float32) (res p)" if "p \<in> set ps" for p
    using t(3) that slots(2) [of "s\<lparr>gworld := w\<rparr>"] room by (simp add: fp32_slot_def)
  moreover have "fp32_slot env ?t q = fp32_slot env s q" if "q \<in> Q" for q
    using t(4) that f1 by (simp add: fp32_slot_def)
  ultimately show ?thesis by blast
qed

section \<open>A backward pass\<close>

text \<open>
  \<open>gr p\<close> is this rank's gradient of \<open>p\<close> and \<open>res p\<close> what the reduce-scatter is to leave for it.
  A bucket is \<open>reducible\<close> when its partitions lie side by side and the collective delivers \<open>res\<close>.
\<close>

definition reducible :: "'a genv \<Rightarrow> (nat \<Rightarrow> 'a list) \<Rightarrow> (nat \<Rightarrow> 'a list) \<Rightarrow> nat list \<Rightarrow> bool" where
  "reducible env gr res ps \<longleftrightarrow> ps \<noteq> [] \<and> consecutive env ps
     \<and> length (g_rs env (int (hd ps)) (rs_input env (map gr ps))) = sum_part env ps
     \<and> read_views (views_of (g_world env) (g_rank env) (map gr ps)) (g_rs env (int (hd ps)) (rs_input env (map gr ps))) = map res ps"

definition pass_static :: "'a genv \<Rightarrow> (nat \<Rightarrow> 'a list) \<Rightarrow> nat set \<Rightarrow> bool" where
  "pass_static env gr P \<longleftrightarrow> direct_env env \<and> 0 < reduce_bucket_size env \<and> (\<forall>p \<in> P. length (gr p) = g_numel env p)
     \<and> (\<forall>p \<in> P. \<forall>q \<in> P. p \<noteq> q \<longrightarrow> apart env p q)"

text \<open>
  Between the hooks: the parameters done, those of the reduce-scatter in flight, those of the
  bucket, and those whose gradients are still to come.
\<close>

definition pass_core ::
  "'a genv \<Rightarrow> (nat \<Rightarrow> 'a list) \<Rightarrow> (nat \<Rightarrow> 'a list) \<Rightarrow> (nat \<Rightarrow> 'a gstore option) \<Rightarrow> nat set \<Rightarrow> nat list \<Rightarrow> nat list \<Rightarrow> nat list \<Rightarrow> 'a ipg \<Rightarrow> bool" where
  "pass_core env gr res own fin pend b rest s \<longleftrightarrow>
     distinct (pend @ b @ rest) \<and> fin \<inter> set (pend @ b @ rest) = {}
     \<and> length (ipg_bucket_flat s) = reduce_bucket_size env \<and> params_in_ipg_bucket s = b \<and> (\<forall>p \<in> set b. read_grad s p = Inr (gr p))
     \<and> (\<forall>p \<in> set b \<union> set pend. grad s p \<noteq> None) \<and> (\<forall>p \<in> set rest. grad s p = own p)
     \<and> (\<forall>p \<in> set (pend @ b @ rest). fits env s p) \<and> accumulation_boundary s \<and> (\<forall>p. \<not> params_already_reduced s p)
     \<and> (case pending_rs s of None \<Rightarrow> pend = [] | Some pr \<Rightarrow> launched_for env pend (map gr pend) pr \<and> reducible env gr res pend
          \<and> rs_source env pr s = rs_input env (map gr pend) \<and> (rest \<noteq> [] \<longrightarrow> not_overwritten env pr))
     \<and> (\<forall>p \<in> fin. fits env s p \<and> fp32_slot env s p = map (g_cvt env Float32) (res p))"

lemma read_grad_cong: "grad s p = grad t p \<Longrightarrow> ipg_bucket_flat s = ipg_bucket_flat t \<Longrightarrow> read_grad s p = read_grad t p"
  by (simp add: read_grad_def split: option.splits gstore.splits)

lemma read_grad_some: "read_grad s p = Inr g \<Longrightarrow> grad s p \<noteq> None"
  by (cases "grad s p") (simp_all add: read_grad_def)

lemma bucket_update [simp]:
  "read_grad (s\<lparr>params_in_ipg_bucket := b\<rparr>) p = read_grad s p" "fits env (s\<lparr>params_in_ipg_bucket := b\<rparr>) p = fits env s p"
  "fp32_slot env (s\<lparr>params_in_ipg_bucket := b\<rparr>) p = fp32_slot env s p"
  by (rule read_grad_cong, simp_all add: fits_def fp32_slot_def)

lemma read_grads_all: "(\<And>p. p \<in> set ps \<Longrightarrow> read_grad s p = Inr (gr p)) \<Longrightarrow> read_grads s ps = Inr (map gr ps)"
  by (induction ps) simp_all

lemma check_sizes_all:
  assumes "\<And>p. p \<in> set (params_in_ipg_bucket s) \<Longrightarrow> read_grad s p = Inr (gr p) \<and> length (gr p) = g_numel env p"
  shows "check_sizes env s = Inr ()"
proof -
  have "foldE (\<lambda>p _. ebind (read_grad s p) (\<lambda>g. if length g = g_numel env p then Inr () else Inl (RuntimeError ''Cannot reduce scatter gradients''))) ps () = Inr ()"
    if "\<And>p. p \<in> set ps \<Longrightarrow> read_grad s p = Inr (gr p) \<and> length (gr p) = g_numel env p" for ps
    using that by (induction ps) simp_all
  then show ?thesis using assms by (simp add: check_sizes_def)
qed

lemma bucket_ok_fits_flat:
  assumes "bucket_ok env s" and "p \<in> set (params_in_ipg_bucket s)" and "grad s p = Some (GBucket start len)"
  shows "start + len \<le> length (ipg_bucket_flat s)"
proof -
  obtain i where i: "i < length (params_in_ipg_bucket s)" "params_in_ipg_bucket s ! i = p" using assms(2) by (auto simp: in_set_conv_nth)
  then show ?thesis using bucket_ok_slot [OF assms(1) i(1)] assms(1,3) by (simp add: slot_ok_def bucket_ok_def)
qed

lemma reducible_grads:
  "pass_static env gr P \<Longrightarrow> set ps \<subseteq> P \<Longrightarrow> reducible env gr res ps \<Longrightarrow> grads_for env ps (map gr ps)"
  by (auto simp: pass_static_def reducible_def grads_for_def)

text \<open>A finished reduce-scatter moves its parameters to the finished ones.\<close>

lemma pass_flush:
  assumes "pass_static env gr P" and "fin \<union> set (pend @ b @ rest) \<subseteq> P" and "pass_core env gr res own fin pend b rest s"
  shows "\<exists>t. flush_pending_rs env s = Inr t \<and> pass_core env gr res own (fin \<union> set pend) [] b rest t \<and> pending_rs t = None
    \<and> ipg_bucket_flat t = ipg_bucket_flat s \<and> (\<forall>p \<in> set b. grad t p = grad s p)"
proof (cases "pending_rs s")
  case None
  then show ?thesis using assms(3) by (intro exI [of _ s]) (auto simp: flush_pending_rs_def pass_core_def)
next
  case (Some pr)
  have inv: "distinct (pend @ b @ rest)" "fin \<inter> set (pend @ b @ rest) = {}" "length (ipg_bucket_flat s) = reduce_bucket_size env"
      "params_in_ipg_bucket s = b"
      "\<forall>p \<in> set b. read_grad s p = Inr (gr p)" "\<forall>p \<in> set b \<union> set pend. grad s p \<noteq> None" "\<forall>p \<in> set rest. grad s p = own p"
      "\<forall>p \<in> set (pend @ b @ rest). fits env s p" "accumulation_boundary s" "\<forall>p. \<not> params_already_reduced s p"
      "launched_for env pend (map gr pend) pr" "reducible env gr res pend" "rs_source env pr s = rs_input env (map gr pend)"
      "\<forall>p \<in> fin. fits env s p \<and> fp32_slot env s p = map (g_cvt env Float32) (res p)"
    using assms(3) by (simp_all add: pass_core_def Some)
  have st: "direct_env env" using assms(1) by (simp add: pass_static_def)
  have ap: "apart env p q" if "p \<in> set pend" "q \<in> set pend \<union> fin" "p \<noteq> q" for p q
  proof -
    have "p \<in> P" "q \<in> P" using that(1,2) assms(2) by auto
    then show ?thesis using assms(1) that(3) unfolding pass_static_def by blast
  qed
  have red: "consecutive env pend" "length (g_rs env (int (hd pend)) (rs_input env (map gr pend))) = sum_part env pend"
      "read_views (views_of (g_world env) (g_rank env) (map gr pend)) (g_rs env (int (hd pend)) (rs_input env (map gr pend))) = map res pend"
    using inv(12) by (simp_all add: reducible_def)
  have gf: "grads_for env pend (map gr pend)" using reducible_grads [OF assms(1) _ inv(12)] assms(2) by simp
  have kp: "keeps_places env s pend" using inv(6,8) by (simp add: keeps_places_def list_all_iff)
  have dis: "distinct pend" "set pend \<inter> fin = {}" using inv(1,2) by auto
  obtain t where t: "flush_pending_rs env s = Inr t" "only_flushed (set pend) s t"
      "\<forall>p \<in> set pend. fp32_slot env t p = map (g_cvt env Float32) (res p)" "\<forall>q \<in> fin. fp32_slot env t q = fp32_slot env s q"
    using flush_direct [OF st gf inv(11) Some inv(13) red(1) dis(1) kp inv(9) ap dis(2) red(2,3)] by blast
  have eq: "t = s\<lparr>gworld := gworld t, grad_partitions_flat := grad_partitions_flat t, grad_bufs := grad_bufs t, grad := grad t, pending_rs := None\<rparr>"
    and fr: "length (grad_partitions_flat t) = length (grad_partitions_flat s)" "\<forall>b. map length (grad_bufs t b) = map length (grad_bufs s b)"
      "\<forall>q. q \<notin> set pend \<longrightarrow> grad t q = grad s q"
    using t(2) unfolding only_flushed_def by blast+
  have f: "params_in_ipg_bucket t = b" "ipg_bucket_flat t = ipg_bucket_flat s" "accumulation_boundary t" "params_already_reduced t = params_already_reduced s"
      "pending_rs t = None" "buf_switch t = buf_switch s"
    by (subst eq, simp add: inv(4,9))+
  have same: "grad t q = grad s q" if "q \<in> set b \<union> set rest" for q using fr(3) inv(1) that by auto
  have read: "read_grad t q = read_grad s q" if "q \<in> set b" for q using same that f(2) by (intro read_grad_cong) simp_all
  have len1: "length (grad_bufs t k) = length (grad_bufs s k)" for k using fr(2) by (metis length_map)
  have len2: "length (grad_bufs t k ! i) = length (grad_bufs s k ! i)" if "i < length (grad_bufs s k)" for k i
    using fr(2) len1 that by (metis nth_map)
  have fits: "fits env t q = fits env s q" for q using fr(1) len1 len2 f(6) by (auto simp: fits_def split: prod.splits)
  have "pass_core env gr res own (fin \<union> set pend) [] b rest t"
    using inv f t(3,4) same read fits by (auto simp: pass_core_def)
  then show ?thesis using t(1) f(2,5) same by auto
qed

text \<open>
  A bucket is safe from late reads unless it is a single gradient that lies in the flat buffer and
  needs no padding.
\<close>

definition bucket_safe :: "'a genv \<Rightarrow> nat list \<Rightarrow> bool" where
  "bucket_safe env b \<longleftrightarrow>
     (case b of
        [p] \<Rightarrow> \<not> (contiguous_gradients env \<and> g_numel env p < reduce_bucket_size env \<and> g_numel env p mod g_world env = 0
               \<and> g_late env (int p))
      | _ \<Rightarrow> True)"

lemma safe_not_overwritten:
  fixes env :: "'a genv" and gs :: "'a list list" and pr :: "'a pending"
  assumes "bucket_safe env b" and "bucket_ok env s" and "params_in_ipg_bucket s = b" and "map length gs = map (g_numel env) (sort b)"
    and "p_in pr = (if aliases_input (g_world env) gs then bucket_place s (hd (sort b)) else None)"
    and "d_cid (p_deferred pr) = int (hd (sort b))"
  shows "not_overwritten env pr"
proof (cases "p_in pr = None")
  case True
  then show ?thesis by (simp add: not_overwritten_def)
next
  case False
  then have al: "aliases_input (g_world env) gs" "bucket_place s (hd (sort b)) \<noteq> None"
    using assms(5) by (auto split: if_splits)
  have "length b = 1" using al(1) arg_cong [OF assms(4), of length] by (simp add: aliases_input_def)
  then obtain p where b: "b = [p]" by (cases b) auto
  obtain start len where g: "grad s p = Some (GBucket start len)"
    using al(2) by (auto simp: bucket_place_def b split: option.splits gstore.splits)
  have "slot_ok env s b 0" using bucket_ok_slot [OF assms(2), of 0] assms(3) by (simp add: b)
  then have "contiguous_gradients env" "g_numel env p < reduce_bucket_size env" using g by (simp_all add: slot_ok_def b)
  moreover have "g_numel env p mod g_world env = 0"
    using al(1) assms(4) by (cases gs) (auto simp: aliases_input_def b)
  ultimately show ?thesis using assms(1,6) by (simp add: not_overwritten_def bucket_safe_def b)
qed

text \<open>A bucket that is full, or the last one, is launched.\<close>

lemma pass_reduce:
  assumes "pass_static env gr P" and "fin \<union> set (pend @ b @ rest) \<subseteq> P" and "pass_core env gr res own fin pend b rest s"
    and "bucket_ok env s" and "b \<noteq> []" and "reducible env gr res (sort b)" and safe: "rest \<noteq> [] \<Longrightarrow> bucket_safe env b"
  shows "\<exists>t. reduce_and_partition_ipg_grads env s = Inr t \<and> pass_core env gr res own (fin \<union> set pend) (sort b) [] rest t"
proof -
  let ?s1 = "s\<lparr>params_in_ipg_bucket := sort b\<rparr>"
  have inv: "params_in_ipg_bucket s = b" "\<forall>p \<in> set b. read_grad s p = Inr (gr p)" using assms(3) by (simp_all add: pass_core_def)
  have len: "length (gr p) = g_numel env p" if "p \<in> set b" for p using assms(1,2) that by (auto simp: pass_static_def)
  have chk: "check_sizes env s = Inr ()" by (rule check_sizes_all) (use inv len in auto)
  have flat: "start + len \<le> length (ipg_bucket_flat s)" if "p \<in> set b" "grad s p = Some (GBucket start len)" for p start len
    using bucket_ok_fits_flat [OF assms(4)] that inv(1) by blast
  have core1: "pass_core env gr res own fin pend (sort b) rest ?s1"
    using assms(3) unfolding pass_core_def by (auto split: option.splits)
  obtain t where t: "flush_pending_rs env ?s1 = Inr t" "pass_core env gr res own (fin \<union> set pend) [] (sort b) rest t" "pending_rs t = None"
      "ipg_bucket_flat t = ipg_bucket_flat s" "\<forall>p \<in> set b. grad t p = grad s p"
    using pass_flush [OF assms(1) _ core1] assms(2) by auto
  have c: "params_in_ipg_bucket t = sort b" "\<forall>p \<in> set (sort b). read_grad t p = Inr (gr p)" "\<forall>p \<in> set (sort b). fits env t p"
    using t(2) by (simp_all add: pass_core_def)
  have ne: "sort b \<noteq> []" using assms(5) by (simp flip: set_empty)
  have gf: "grads_for env (sort b) (map gr (sort b))" using reducible_grads [OF assms(1) _ assms(6)] assms(2) by simp
  have con: "consecutive env (sort b)" using assms(6) by (simp add: reducible_def)
  have "fits env t (last (sort b))" using c(3) last_in_set [OF ne] by blast
  then have room: "g_offset env (hd (sort b)) + sum_part env (sort b) \<le> length (grad_partitions_flat t)"
    using consecutive_end [OF con ne] by (simp add: fits_def)
  have hd: "hd (sort b) \<in> set b" using hd_in_set [OF ne] by simp
  obtain pr r where r: "avg_scatter_grads env (sort b) t = Inr (pr, r)" "launched_for env (sort b) (map gr (sort b)) pr"
      "r = t\<lparr>gworld := gworld r, ipg_bucket_flat := ipg_bucket_flat r, grad := grad r\<rparr>"
      "length (ipg_bucket_flat r) = length (ipg_bucket_flat t)"
      "\<forall>q. q \<noteq> hd (sort b) \<longrightarrow> grad r q = grad t q" "\<forall>q. grad r q = None \<longleftrightarrow> grad t q = None"
      "rs_source env pr r = rs_input env (map gr (sort b))"
      "p_in pr = (if aliases_input (g_world env) (map gr (sort b)) then bucket_place t (hd (sort b)) else None)"
    using avg_scatter_direct [OF _ gf read_grads_all con room] assms(1) c(2) flat t(4,5) hd by (auto simp: pass_static_def)
  let ?r = "r\<lparr>pending_rs := Some pr, params_in_ipg_bucket := []\<rparr>"
  have eq: "reduce_and_partition_ipg_grads env s = Inr ?r"
    using assms(5) chk t(1) r(1) inv(1) c(1) by (simp add: reduce_and_partition_ipg_grads_def Let_def)
  have f: "grad_partitions_flat r = grad_partitions_flat t" "grad_bufs r = grad_bufs t" "buf_switch r = buf_switch t"
      "accumulation_boundary r = accumulation_boundary t" "params_already_reduced r = params_already_reduced t"
    by (subst r(3), simp)+
  have rest: "grad r q = grad t q" if "q \<in> set rest" for q
  proof -
    have "q \<noteq> hd (sort b)" using hd assms(3) that by (auto simp: pass_core_def)
    then show ?thesis using r(5) by blast
  qed
  have "not_overwritten env pr" if "rest \<noteq> []"
  proof (rule safe_not_overwritten [OF safe [OF that] assms(4) inv(1)])
    show "map length (map gr (sort b)) = map (g_numel env) (sort b)" using gf by (simp add: grads_for_def)
    show "p_in pr = (if aliases_input (g_world env) (map gr (sort b)) then bucket_place s (hd (sort b)) else None)"
      using r(8) t(5) hd by (simp add: bucket_place_def)
    show "d_cid (p_deferred pr) = int (hd (sort b))" using r(2) by (simp add: launched_for_def)
  qed
  then have "pass_core env gr res own (fin \<union> set pend) (sort b) [] rest ?r"
    using t(2) f r(2,4,6,7) assms(6) rest by (auto simp: pass_core_def fits_def fp32_slot_def)
  then show ?thesis using eq by blast
qed

text \<open>A hook: the bucket goes first when the gradient would overfill it.\<close>

definition overfull :: "'a genv \<Rightarrow> nat list \<Rightarrow> nat \<Rightarrow> bool" where
  "overfull env b p \<longleftrightarrow> 0 < sum_numel env b \<and> reduce_bucket_size env < sum_numel env b + g_numel env p"

lemma overfull_nonempty: "overfull env b p \<Longrightarrow> b \<noteq> []"
  by (auto simp: overfull_def)

lemma accumulate_first:
  assumes "pass_core env gr res (\<lambda>_. None) fin pend b (p # rest) s" and "bucket_ok env s"
  defines "s' \<equiv> accumulate_grad env p (gr p) s"
  shows "pass_core env gr res ((\<lambda>_. None)(p \<mapsto> GOwn (gr p))) fin pend b (p # rest) s'" "bucket_ok env s'"
proof -
  have n: "grad s p = None" "p \<notin> set b" "p \<notin> set pend" "p \<notin> set rest" "params_in_ipg_bucket s = b"
    using assms(1) by (auto simp: pass_core_def)
  have s': "s' = s\<lparr>grad := (grad s)(p \<mapsto> GOwn (gr p))\<rparr>" using n(1) by (simp add: s'_def accumulate_grad_def)
  have r: "read_grad s' q = read_grad s q" if "q \<noteq> p" for q using that by (intro read_grad_cong) (simp_all add: s')
  have f: "fits env s' q = fits env s q" "fp32_slot env s' q = fp32_slot env s q" for q by (simp_all add: s' fits_def fp32_slot_def)
  have ne: "q \<noteq> p" if "q \<in> set b" for q using n(2) that by auto
  show "pass_core env gr res ((\<lambda>_. None)(p \<mapsto> GOwn (gr p))) fin pend b (p # rest) s'"
    using assms(1) r ne f n(4) unfolding pass_core_def by (auto simp: s' split: option.splits)
  have "b ! i \<noteq> p" if "i < length b" for i using nth_mem [OF that] ne by blast
  then show "bucket_ok env s'" using assms(2) n(5) by (simp add: bucket_ok_def list_all_iff s' slot_ok_def)
qed

lemma pass_add:
  assumes "pass_static env gr P" and "fin \<union> set (pend @ b @ p # rest) \<subseteq> P"
    and "pass_core env gr res ((\<lambda>_. None)(p \<mapsto> GOwn (gr p))) fin pend b (p # rest) s" and "bucket_ok env s"
  shows "\<exists>t. ebind (assert_that (\<not> params_already_reduced s p)) (\<lambda>_. add_grad_to_ipg_bucket env p s) = Inr t
    \<and> pass_core env gr res (\<lambda>_. None) fin pend (b @ [p]) rest t \<and> bucket_ok env t \<and> micro_step_id t = micro_step_id s"
proof -
  have inv: "params_in_ipg_bucket s = b" "p \<notin> set b" "p \<notin> set rest" "grad s p = Some (GOwn (gr p))" "\<not> params_already_reduced s p"
    using assms(3) by (auto simp: pass_core_def)
  have len: "length (gr p) = g_numel env p" using assms(1,2) by (auto simp: pass_static_def)
  obtain t where t: "add_grad_to_ipg_bucket env p s = Inr t" "bucket_ok env t" "only_bucket s t" "params_in_ipg_bucket t = b @ [p]"
      "read_grad t p = Inr (gr p)" "\<forall>q. q \<noteq> p \<longrightarrow> grad t q = grad s q" "\<forall>q \<in> set b. read_grad t q = read_grad s q"
    using add_grad_keeps [OF assms(4) _ inv(4) len] inv(1,2) by auto
  have eq: "t = s\<lparr>params_in_ipg_bucket := params_in_ipg_bucket t, ipg_bucket_flat := ipg_bucket_flat t, grad := grad t\<rparr>"
    using t(3) by (simp add: only_bucket_def)
  have f: "pending_rs t = pending_rs s" "accumulation_boundary t = accumulation_boundary s" "params_already_reduced t = params_already_reduced s"
      "fits env t q = fits env s q" "fp32_slot env t q = fp32_slot env s q" "micro_step_id t = micro_step_id s" for q
    by (subst eq, simp add: fits_def fp32_slot_def)+
  have "grad t p \<noteq> None" by (rule read_grad_some [OF t(5)])
  moreover have "grad t q = None" if "q \<in> set rest" for q
  proof -
    have "q \<noteq> p" using that inv(3) by auto
    then show ?thesis using assms(3) t(6) that by (simp add: pass_core_def)
  qed
  moreover have "grad t q \<noteq> None" if "q \<in> set b \<union> set pend" for q
  proof -
    have "q \<noteq> p" "grad s q \<noteq> None" using that assms(3) by (auto simp: pass_core_def)
    then show ?thesis using t(6) by simp
  qed
  moreover have "\<forall>q \<in> set b. read_grad t q = Inr (gr q)" using t(7) assms(3) by (simp add: pass_core_def)
  moreover have "length (ipg_bucket_flat t) = reduce_bucket_size env" using t(2) by (simp add: bucket_ok_def)
  moreover have "rs_source env pr t = rs_source env pr s" if "pending_rs s = Some pr" for pr
  proof -
    have "not_overwritten env pr" using assms(3) that by (simp add: pass_core_def)
    then show ?thesis by (simp add: rs_source_kept)
  qed
  ultimately have "pass_core env gr res (\<lambda>_. None) fin pend (b @ [p]) rest t"
    using assms(3) t(4,5) f unfolding pass_core_def by (simp split: option.splits)
  then show ?thesis using t(1,2) inv(5) f(6) by (simp add: assert_that_def)
qed

lemma pass_hook:
  assumes "pass_static env gr P" and "fin \<union> set (pend @ b @ p # rest) \<subseteq> P"
    and "pass_core env gr res (\<lambda>_. None) fin pend b (p # rest) s" and "bucket_ok env s"
    and "overfull env b p \<Longrightarrow> reducible env gr res (sort b) \<and> bucket_safe env b"
  shows "\<exists>t. backward_param env (p, gr p) s = Inr t \<and> bucket_ok env t \<and>
    (if overfull env b p then pass_core env gr res (\<lambda>_. None) (fin \<union> set pend) (sort b) [p] rest t
     else pass_core env gr res (\<lambda>_. None) fin pend (b @ [p]) rest t)"
proof -
  let ?s = "accumulate_grad env p (gr p) s" and ?own = "(\<lambda>_. None)(p \<mapsto> GOwn (gr p))"
  note acc = accumulate_first [OF assms(3,4)]
  have b: "params_in_ipg_bucket ?s = b" using acc(1) by (simp add: pass_core_def)
  have "0 < reduce_bucket_size env" using assms(1) by (simp add: pass_static_def)
  then have step: "backward_param env (p, gr p) s =
      ebind (if overfull env b p then reduce_and_partition_ipg_grads env ?s else Inr ?s) (\<lambda>s1.
      ebind (assert_that (\<not> params_already_reduced s1 p)) (\<lambda>_. add_grad_to_ipg_bucket env p s1))"
    by (simp add: backward_param_def reduce_ready_partitions_def elements_sum b overfull_def report_ipg_memory_usage_def)
  show ?thesis
  proof (cases "overfull env b p")
    case True
    obtain r where r: "reduce_and_partition_ipg_grads env ?s = Inr r" "pass_core env gr res ?own (fin \<union> set pend) (sort b) [] (p # rest) r"
      using pass_reduce [OF assms(1,2) acc overfull_nonempty [OF True]] assms(5) [OF True] by blast
    have ok: "bucket_ok env r" using r(2) by (simp add: pass_core_def bucket_ok_def)
    have sub: "(fin \<union> set pend) \<union> set (sort b @ [] @ p # rest) \<subseteq> P" using assms(2) by simp
    obtain t where "ebind (assert_that (\<not> params_already_reduced r p)) (\<lambda>_. add_grad_to_ipg_bucket env p r) = Inr t"
        "pass_core env gr res (\<lambda>_. None) (fin \<union> set pend) (sort b) ([] @ [p]) rest t" "bucket_ok env t"
      using pass_add [OF assms(1) sub r(2) ok] by blast
    then show ?thesis using step r(1) True by simp
  next
    case False
    obtain t where "ebind (assert_that (\<not> params_already_reduced ?s p)) (\<lambda>_. add_grad_to_ipg_bucket env p ?s) = Inr t"
        "pass_core env gr res (\<lambda>_. None) fin pend (b @ [p]) rest t" "bucket_ok env t"
      using pass_add [OF assms(1,2) acc] by blast
    then show ?thesis using step False by simp
  qed
qed

text \<open>The buckets the hooks cut a list of parameters into.\<close>

fun buckets_of :: "'a genv \<Rightarrow> nat list \<Rightarrow> nat list \<Rightarrow> nat list list" where
  "buckets_of env b [] = (if b = [] then [] else [b])"
| "buckets_of env b (p # ps) = (if overfull env b p then b # buckets_of env [p] ps else buckets_of env (b @ [p]) ps)"

lemma concat_buckets: "concat (buckets_of env b ps) = b @ ps"
  by (induction env b ps rule: buckets_of.induct) auto

lemma buckets_nonempty: "c \<in> set (buckets_of env b ps) \<Longrightarrow> c \<noteq> []"
  by (induction env b ps rule: buckets_of.induct) (auto simp: overfull_def split: if_splits)

lemma buckets_some: "b \<noteq> [] \<Longrightarrow> buckets_of env b ps \<noteq> []"
  by (induction env b ps rule: buckets_of.induct) auto

text \<open>No bucket but the last, which nothing overwrites before it is flushed, is exposed to a late read.\<close>

definition race_free :: "'a genv \<Rightarrow> nat list \<Rightarrow> bool" where
  "race_free env ps \<longleftrightarrow> list_all (bucket_safe env) (butlast (buckets_of env [] ps))"

lemma grad_hooks:
  assumes "pass_static env gr P" and "fin \<union> set (pend @ b @ ps) \<subseteq> P"
    and "pass_core env gr res (\<lambda>_. None) fin pend b ps s" and "bucket_ok env s"
    and "\<forall>c \<in> set (buckets_of env b ps). reducible env gr res (sort c)" and "\<forall>c \<in> set (butlast (buckets_of env b ps)). bucket_safe env c"
  shows "\<exists>t fin' pend' b'. foldE (backward_param env) (map (\<lambda>p. (p, gr p)) ps) s = Inr t
    \<and> pass_core env gr res (\<lambda>_. None) fin' pend' b' [] t \<and> bucket_ok env t
    \<and> fin' \<union> set pend' \<union> set b' = fin \<union> set pend \<union> set b \<union> set ps \<and> (b' \<noteq> [] \<longrightarrow> reducible env gr res (sort b'))"
  using assms(2-)
proof (induction ps arbitrary: s fin pend b)
  case Nil
  then show ?case by - (rule exI [of _ s], rule exI [of _ fin], rule exI [of _ pend], rule exI [of _ b], simp)
next
  case (Cons p ps)
  have red: "overfull env b p \<Longrightarrow> reducible env gr res (sort b) \<and> bucket_safe env b"
    using Cons.prems(4,5) by (simp add: buckets_some)
  obtain t where t: "backward_param env (p, gr p) s = Inr t" "bucket_ok env t"
    "if overfull env b p then pass_core env gr res (\<lambda>_. None) (fin \<union> set pend) (sort b) [p] ps t
     else pass_core env gr res (\<lambda>_. None) fin pend (b @ [p]) ps t"
    using pass_hook [OF assms(1) Cons.prems(1-3) red] by blast
  show ?case
  proof (cases "overfull env b p")
    case True
    have "(fin \<union> set pend) \<union> set (sort b @ [p] @ ps) \<subseteq> P" using Cons.prems(1) by auto
    moreover have "pass_core env gr res (\<lambda>_. None) (fin \<union> set pend) (sort b) [p] ps t" using t(3) True by simp
    moreover have "\<forall>c \<in> set (buckets_of env [p] ps). reducible env gr res (sort c)"
        "\<forall>c \<in> set (butlast (buckets_of env [p] ps)). bucket_safe env c"
      using Cons.prems(4,5) True by (simp_all add: buckets_some)
    ultimately obtain r fin' pend' b' where r: "foldE (backward_param env) (map (\<lambda>p. (p, gr p)) ps) t = Inr r"
        "pass_core env gr res (\<lambda>_. None) fin' pend' b' [] r" "bucket_ok env r"
        "fin' \<union> set pend' \<union> set b' = fin \<union> set pend \<union> set (sort b) \<union> set [p] \<union> set ps" "b' \<noteq> [] \<longrightarrow> reducible env gr res (sort b')"
      using Cons.IH [OF _ _ t(2)] by blast
    then show ?thesis using t(1)
      by - (rule exI [of _ r], rule exI [of _ fin'], rule exI [of _ pend'], rule exI [of _ b'], simp, blast?)
  next
    case False
    have "fin \<union> set (pend @ (b @ [p]) @ ps) \<subseteq> P" using Cons.prems(1) by auto
    moreover have "pass_core env gr res (\<lambda>_. None) fin pend (b @ [p]) ps t" using t(3) False by simp
    moreover have "\<forall>c \<in> set (buckets_of env (b @ [p]) ps). reducible env gr res (sort c)"
        "\<forall>c \<in> set (butlast (buckets_of env (b @ [p]) ps)). bucket_safe env c"
      using Cons.prems(4,5) False by simp_all
    ultimately obtain r fin' pend' b' where r: "foldE (backward_param env) (map (\<lambda>p. (p, gr p)) ps) t = Inr r"
        "pass_core env gr res (\<lambda>_. None) fin' pend' b' [] r" "bucket_ok env r"
        "fin' \<union> set pend' \<union> set b' = fin \<union> set pend \<union> set (b @ [p]) \<union> set ps" "b' \<noteq> [] \<longrightarrow> reducible env gr res (sort b')"
      using Cons.IH [OF _ _ t(2)] by blast
    then show ?thesis using t(1)
      by - (rule exI [of _ r], rule exI [of _ fin'], rule exI [of _ pend'], rule exI [of _ b'], simp, blast?)
  qed
qed

text \<open>The state a backward pass of the last micro step starts in.\<close>

definition pass_start :: "'a genv \<Rightarrow> nat list \<Rightarrow> 'a ipg \<Rightarrow> bool" where
  "pass_start env ps s \<longleftrightarrow> params_in_ipg_bucket s = [] \<and> pending_rs s = None \<and> accumulation_boundary s
     \<and> length (ipg_bucket_flat s) = reduce_bucket_size env \<and> (\<forall>p. \<not> params_already_reduced s p)
     \<and> list_all (\<lambda>p. grad s p = None \<and> fits env s p) ps"

lemma whole_pass:
  assumes "pass_static env gr (set ps)" and "distinct ps" and "pass_start env ps s"
    and "\<forall>c \<in> set (buckets_of env [] ps). reducible env gr res (sort c)" and "race_free env ps"
  shows "\<exists>t r. backward_pass env (map (\<lambda>p. (p, gr p)) ps) s = Inr t \<and> flush_pending_rs env t = Inr r
    \<and> pass_core env gr res (\<lambda>_. None) (set ps) [] [] [] r \<and> pending_rs r = None"
proof -
  have core: "pass_core env gr res (\<lambda>_. None) {} [] [] ps s" and ok: "bucket_ok env s"
    using assms(2,3) by (simp_all add: pass_start_def pass_core_def bucket_ok_def list_all_iff)
  obtain t fin pend b where t: "foldE (backward_param env) (map (\<lambda>p. (p, gr p)) ps) s = Inr t"
      "pass_core env gr res (\<lambda>_. None) fin pend b [] t" "bucket_ok env t" "fin \<union> set pend \<union> set b = set ps"
      "b \<noteq> [] \<longrightarrow> reducible env gr res (sort b)"
    using grad_hooks [OF assms(1) _ core ok assms(4)] assms(5) by (auto simp: race_free_def list_all_iff)
  have sub: "fin \<union> set (pend @ b @ []) \<subseteq> set ps" using t(4) by auto
  obtain r fin' pend' where r: "reduce_and_partition_ipg_grads env t = Inr r" "pass_core env gr res (\<lambda>_. None) fin' pend' [] [] r"
      "fin' \<union> set pend' = set ps"
  proof (cases "b = []")
    case True
    show ?thesis using that [of t fin pend] t(2,4) True by (simp add: reduce_and_partition_ipg_grads_def pass_core_def)
  next
    case False
    then show ?thesis using that pass_reduce [OF assms(1) sub t(2,3) False] t(4,5) by fastforce
  qed
  let ?r = "r\<lparr>params_already_reduced := \<lambda>_. False, micro_step_id := micro_step_id r + 1\<rparr>"
  have pass: "backward_pass env (map (\<lambda>p. (p, gr p)) ps) s = Inr ?r"
    using t(1) r(1) assms(1) by (simp add: backward_pass_def gradient_partition_epilogue_def report_ipg_memory_usage_def pass_static_def)
  have "pass_core env gr res (\<lambda>_. None) fin' pend' [] [] ?r"
    using r(2) by (simp add: pass_core_def fits_def fp32_slot_def split: option.splits)
  moreover have "fin' \<union> set (pend' @ [] @ []) \<subseteq> set ps" using r(3) by simp
  ultimately obtain q where q: "flush_pending_rs env ?r = Inr q" "pass_core env gr res (\<lambda>_. None) (fin' \<union> set pend') [] [] [] q" "pending_rs q = None"
    using pass_flush [OF assms(1)] by blast
  then show ?thesis using pass r(3) by auto
qed

text \<open>
  What the collective of a bucket delivers to this rank: \<open>G q p\<close> is rank \<open>q\<close>'s gradient of \<open>p\<close>, and \<open>u\<close> what
  the padding of the ranks holds.
\<close>

definition all_inputs :: "nat \<Rightarrow> (nat \<Rightarrow> 'a \<Rightarrow> 'a) \<Rightarrow> (nat \<Rightarrow> nat \<Rightarrow> nat \<Rightarrow> nat \<Rightarrow> 'a) \<Rightarrow> (nat \<Rightarrow> nat \<Rightarrow> 'a list) \<Rightarrow> nat list \<Rightarrow> 'a list list" where
  "all_inputs W dv u G c = map (\<lambda>q. map (dv W) (concat (map (rank_row W (u q) (map (G q) c)) [0..<W]))) [0..<W]"

definition delivers :: "'a genv \<Rightarrow> ('a list \<Rightarrow> 'a) \<Rightarrow> (nat \<Rightarrow> nat \<Rightarrow> nat \<Rightarrow> nat \<Rightarrow> 'a) \<Rightarrow> (nat \<Rightarrow> nat \<Rightarrow> 'a list) \<Rightarrow> nat list \<Rightarrow> bool" where
  "delivers env red u G c \<longleftrightarrow> g_rs env (int (hd c)) (rs_input env (map (G (g_rank env)) c))
     = scatter_block red (sum_part env c) (g_rank env) (all_inputs (g_world env) (g_dv env) u G c)"

definition mean_part :: "'a genv \<Rightarrow> ('a list \<Rightarrow> 'a) \<Rightarrow> (nat \<Rightarrow> nat \<Rightarrow> 'a list) \<Rightarrow> nat \<Rightarrow> 'a list" where
  "mean_part env red G p = block (g_part env p) (g_rank env) (mean_grad red (g_dv env) (map (\<lambda>q. G q p) [0..<g_world env]))"

lemma reducible_mean:
  assumes "direct_env env" and "c \<noteq> []" and "consecutive env c" and "delivers env red u G c"
    and "\<And>q p. q < g_world env \<Longrightarrow> p \<in> set c \<Longrightarrow> length (G q p) = g_numel env p"
  shows "reducible env (G (g_rank env)) (mean_part env red G) c"
proof -
  let ?W = "g_world env" and ?r = "g_rank env" and ?tss = "\<lambda>q. map (G q) c"
  have r: "?r < ?W" using assms(1) by (simp add: direct_env_def)
  have lens: "map length (?tss q) = map (g_numel env) c" if "q < ?W" for q using assms(5) [OF that] by simp
  have gf: "grads_for env c (?tss ?r)" using assms(2) lens [OF r] by (simp add: grads_for_def)
  note g = grads_for_chunks [OF assms(1) gf]
  have "read_views (views_of ?W ?r (?tss ?r)) (scatter_block red (sum_part env c) ?r (all_inputs ?W (g_dv env) u G c))
      = map (\<lambda>i. block (chunk_sz ?W (?tss ?r ! i)) ?r (mean_grad red (g_dv env) (map (\<lambda>q. ?tss q ! i) [0..<?W]))) [0..<length (?tss ?r)]"
    unfolding all_inputs_def g(5) [symmetric] by (rule scatter_rows_mean [where tss = "\<lambda>q. map (G q) c"]) (use lens r g(2) in simp_all)
  also have "\<dots> = map (mean_part env red G) c"
    using g(3) by (intro nth_equalityI) (simp_all add: mean_part_def)
  finally show ?thesis using assms(2-4) by (simp add: reducible_def delivers_def scatter_block_def)
qed

text \<open>With collectives that deliver, every bucket of a pass is reduced to the means.\<close>

lemma mean_reducible:
  assumes "direct_env env" and "0 < reduce_bucket_size env"
    and "\<And>q p. q < g_world env \<Longrightarrow> p \<in> set ps \<Longrightarrow> length (G q p) = g_numel env p"
    and "\<And>p q. p \<in> set ps \<Longrightarrow> q \<in> set ps \<Longrightarrow> p \<noteq> q \<Longrightarrow> apart env p q"
    and "\<And>c. c \<in> set (buckets_of env [] ps) \<Longrightarrow> consecutive env (sort c) \<and> delivers env red u G (sort c)"
  shows "pass_static env (G (g_rank env)) (set ps)"
    and "\<forall>c \<in> set (buckets_of env [] ps). reducible env (G (g_rank env)) (mean_part env red G) (sort c)"
proof -
  show "pass_static env (G (g_rank env)) (set ps)"
    using assms(1-4) by (simp add: pass_static_def direct_env_def)
  show "\<forall>c \<in> set (buckets_of env [] ps). reducible env (G (g_rank env)) (mean_part env red G) (sort c)"
  proof
    fix c assume c: "c \<in> set (buckets_of env [] ps)"
    have sub: "set c \<subseteq> set ps" using c concat_buckets [of env "[]" ps] by (metis append_Nil set_concat Union_upper image_eqI list.set_map)
    show "reducible env (G (g_rank env)) (mean_part env red G) (sort c)"
    proof (rule reducible_mean [OF assms(1)])
      show "sort c \<noteq> []" using buckets_nonempty [OF c] by (simp flip: set_empty)
      show "consecutive env (sort c)" "delivers env red u G (sort c)" using assms(5) [OF c] by simp_all
      show "length (G q p) = g_numel env p" if "q < g_world env" "p \<in> set (sort c)" for q p
        using assms(3) [OF that(1)] that(2) sub by auto
    qed
  qed
qed

section \<open>The contract of a backward pass\<close>

text \<open>
  What the optimizer relies on: a backward pass, up to the point where its results are read, leaves
  in the 32-bit gradients what the collectives delivered. \<open>ready\<close> is what an implementation asks
  beyond \<open>pass_start\<close>.
\<close>

locale gradient_path =
  fixes ready :: "'a genv \<Rightarrow> nat list \<Rightarrow> 'a ipg \<Rightarrow> bool"
    and go :: "'a genv \<Rightarrow> (nat \<times> 'a list) list \<Rightarrow> 'a ipg \<Rightarrow> 'a ipg result"
  assumes go_stores: "pass_static env gr (set ps) \<Longrightarrow> distinct ps \<Longrightarrow> pass_start env ps s \<Longrightarrow> ready env ps s
      \<Longrightarrow> \<forall>c \<in> set (buckets_of env [] ps). reducible env gr res (sort c)
      \<Longrightarrow> \<exists>r. go env (map (\<lambda>p. (p, gr p)) ps) s = Inr r \<and> pending_rs r = None \<and> params_in_ipg_bucket r = []
        \<and> (\<forall>p \<in> set ps. fp32_slot env r p = map (g_cvt env Float32) (res p))"
begin

lemma go_means:
  assumes "direct_env env" and "0 < reduce_bucket_size env" and "distinct ps"
    and "\<And>q p. q < g_world env \<Longrightarrow> p \<in> set ps \<Longrightarrow> length (G q p) = g_numel env p"
    and "\<And>p q. p \<in> set ps \<Longrightarrow> q \<in> set ps \<Longrightarrow> p \<noteq> q \<Longrightarrow> apart env p q"
    and "pass_start env ps s" and "ready env ps s"
    and "\<And>c. c \<in> set (buckets_of env [] ps) \<Longrightarrow> consecutive env (sort c) \<and> delivers env red u G (sort c)"
  shows "\<exists>r. go env (map (\<lambda>p. (p, G (g_rank env) p)) ps) s = Inr r \<and> pending_rs r = None \<and> params_in_ipg_bucket r = []
    \<and> (\<forall>p \<in> set ps. fp32_slot env r p = map (g_cvt env Float32) (mean_part env red G p))"
  using go_stores [OF mean_reducible(1) [OF assms(1,2,4,5,8)] assms(3,6,7) mean_reducible(2) [OF assms(1,2,4,5,8)]] by blast

end

text \<open>The pass with deferred reduce-scatters, up to the flush of its last bucket.\<close>

definition flushed_pass :: "'a genv \<Rightarrow> (nat \<times> 'a list) list \<Rightarrow> 'a ipg \<Rightarrow> 'a ipg result" where
  "flushed_pass env gs s = ebind (backward_pass env gs s) (flush_pending_rs env)"

interpretation overlapped: gradient_path "\<lambda>env ps _. race_free env ps" flushed_pass
proof
  fix env :: "'a genv" and gr res ps s
  assume "pass_static env gr (set ps)" "distinct ps" "pass_start env ps s"
    and "race_free env ps" and "\<forall>c \<in> set (buckets_of env [] ps). reducible env gr res (sort c)"
  from whole_pass [OF this(1-3,5,4)] show "\<exists>r. flushed_pass env (map (\<lambda>p. (p, gr p)) ps) s = Inr r \<and> pending_rs r = None \<and> params_in_ipg_bucket r = []
      \<and> (\<forall>p \<in> set ps. fp32_slot env r p = map (g_cvt env Float32) (res p))"
    by (auto simp: flushed_pass_def pass_core_def)
qed

lemma flushed_pass_Inr:
  "flushed_pass env gs s = Inr r \<longleftrightarrow> (\<exists>t. backward_pass env gs s = Inr t \<and> flush_pending_rs env t = Inr r)"
  by (auto simp: flushed_pass_def elim!: ebind_InrE)


definition demo_G :: "nat \<Rightarrow> nat \<Rightarrow> int list" where
  "demo_G q p = map (\<lambda>j. 2 * int (10 * q + p + j)) [0..<3 + p]"

definition demo_genv :: "int genv" where
  "demo_genv = \<lparr>g_world = 2, g_rank = 0, g_dv = \<lambda>n x. x div int n, g_add = (+), g_cvt = \<lambda>_ x. x, g_dtype = Float32,
     g_fresh = \<lambda>_ _ _. 7, g_comch = quiet_env,
     g_rs = \<lambda>cid x. scatter_block sum_list (length x div 2) 0
       (all_inputs 2 (\<lambda>n x. x div int n) (\<lambda>_ _ _ _. 7) demo_G (if cid = 2 then [2] else [0, 1])),
     g_late = \<lambda>_. True, rs_use_nccl = False, comm_fp32 = True, contiguous_gradients = True, reduce_bucket_size = 8,
     g_numel = \<lambda>p. 3 + p, g_part = \<lambda>p. ceil_div (3 + p) 2, g_offset = \<lambda>p. 2 * p, g_position = \<lambda>p. (0, 2 * p, 0)\<rparr>"

definition demo_ipg :: "int ipg" where
  "demo_ipg = \<lparr>params_in_ipg_bucket = [], ipg_bucket_flat = replicate 8 0, grad = \<lambda>_. None, pending_rs = None,
     grad_partitions_flat = replicate 7 0, grad_bufs = \<lambda>_. [replicate 7 0], buf_switch = 0, micro_step_id = 0,
     accumulation_boundary = True, params_already_reduced = \<lambda>_. False, gworld = quiet_world\<rparr>"


section \<open>A late read\<close>

lemma copy_front: "length x \<le> length flat \<Longrightarrow> copy_into flat 0 (length x) x = Inr (x @ drop (length x) flat)"
  by (simp add: copy_into_ok)

lemma add_first:
  assumes "params_in_ipg_bucket s = []" and "grad s p = Some (GOwn x)" and "contiguous_gradients env"
    and "length x < reduce_bucket_size env" and "length (ipg_bucket_flat s) = reduce_bucket_size env"
  shows "add_grad_to_ipg_bucket env p s = Inr (s\<lparr>ipg_bucket_flat := x @ drop (length x) (ipg_bucket_flat s),
      grad := (grad s)(p \<mapsto> GBucket 0 (length x)), params_in_ipg_bucket := [p]\<rparr>)"
  using assms by (simp add: add_grad_to_ipg_bucket_def read_grad_def elements_in_ipg_bucket_def copy_front)

text \<open>The state between the hooks of \<open>p\<close> and \<open>q\<close>: the bucket of \<open>p\<close> has been launched.\<close>

lemma launched_single:
  assumes env: "direct_env env" "0 < reduce_bucket_size env" "contiguous_gradients env" "g_late env (int p)"
    and p: "g_numel env p mod g_world env = 0" "0 < g_numel env p" "g_numel env p < reduce_bucket_size env" "length gp = g_numel env p"
    and q: "q \<noteq> p" "reduce_bucket_size env < g_numel env p + g_numel env q"
    and s: "pass_start env [p, q] s"
  shows "\<exists>t1 pr r. backward_param env (p, gp) s = Inr t1
    \<and> reduce_and_partition_ipg_grads env (accumulate_grad env q gq t1) = Inr (r\<lparr>pending_rs := Some pr, params_in_ipg_bucket := []\<rparr>)
    \<and> elements_in_ipg_bucket env (accumulate_grad env q gq t1) = g_numel env p
    \<and> launched_for env [p] [gp] pr \<and> p_in pr = Some (0, g_numel env p) \<and> take (g_numel env p) (ipg_bucket_flat r) = rs_input env [gp]
    \<and> length (ipg_bucket_flat r) = reduce_bucket_size env \<and> grad r q = Some (GOwn gq) \<and> grad r p \<noteq> None
    \<and> fits env r p \<and> accumulation_boundary r \<and> \<not> params_already_reduced r q"
proof -
  have st: "params_in_ipg_bucket s = []" "pending_rs s = None" "accumulation_boundary s" "length (ipg_bucket_flat s) = reduce_bucket_size env"
      "\<And>x. \<not> params_already_reduced s x" "grad s p = None" "grad s q = None" "fits env s p"
    using s by (simp_all add: pass_start_def)
  let ?n = "g_numel env p"
  let ?a = "s\<lparr>grad := (grad s)(p \<mapsto> GOwn gp)\<rparr>"
  define t1 where "t1 = ?a\<lparr>ipg_bucket_flat := gp @ drop ?n (ipg_bucket_flat s), grad := (grad s)(p \<mapsto> GBucket 0 ?n), params_in_ipg_bucket := [p]\<rparr>"
  have "add_grad_to_ipg_bucket env p ?a = Inr t1"
    using add_first [of ?a p gp env] st p env(3) by (simp add: t1_def)
  then have hook: "backward_param env (p, gp) s = Inr t1"
    using st by (simp add: backward_param_def reduce_ready_partitions_def accumulate_grad_def elements_in_ipg_bucket_def assert_that_def)
  define s2 where "s2 = t1\<lparr>grad := (grad t1)(q \<mapsto> GOwn gq)\<rparr>"
  have acc: "accumulate_grad env q gq t1 = s2"
    using st(7) q(1) by (simp add: accumulate_grad_def t1_def s2_def)
  have f: "params_in_ipg_bucket s2 = [p]" "pending_rs s2 = None" "grad s2 p = Some (GBucket 0 ?n)" "grad s2 q = Some (GOwn gq)"
      "length (ipg_bucket_flat s2) = reduce_bucket_size env" "take ?n (ipg_bucket_flat s2) = gp" "fits env s2 p" "accumulation_boundary s2"
      "params_already_reduced s2 = params_already_reduced s"
    using st p(3,4) q(1) by (simp_all add: s2_def t1_def fits_def)
  have rg: "read_grads s2 [p] = Inr [gp]" using f(3,6) by (simp add: read_grad_def)
  have chk: "check_sizes env s2 = Inr ()" using f(1,3,6) p(4) by (simp add: check_sizes_def read_grad_def)
  have al: "aliases_input (g_world env) [gp]" using p(1,4) by (simp add: aliases_input_def)
  have gf: "grads_for env [p] [gp]" using p(4) by (simp add: grads_for_def)
  have room: "g_offset env (hd [p]) + sum_part env [p] \<le> length (grad_partitions_flat s2)"
    using f(7) by (simp add: fits_def sum_part_def)
  obtain pr r where r: "avg_scatter_grads env [p] s2 = Inr (pr, r)" "launched_for env [p] [gp] pr"
      "r = s2\<lparr>gworld := gworld r, ipg_bucket_flat := ipg_bucket_flat r, grad := grad r\<rparr>"
      "length (ipg_bucket_flat r) = length (ipg_bucket_flat s2)" "\<forall>x. x \<noteq> p \<longrightarrow> grad r x = grad s2 x" "\<forall>x. grad r x = None \<longleftrightarrow> grad s2 x = None"
      "rs_source env pr r = rs_input env [gp]" "p_in pr = Some (0, ?n)"
    using avg_scatter_direct [OF env(1) gf rg _ room] f(3,5) p(3) al by (auto simp: bucket_place_def)
  have src: "take ?n (ipg_bucket_flat r) = rs_input env [gp]"
    using r(2,7,8) env(4) by (simp add: rs_source_def launched_for_def)
  have red: "reduce_and_partition_ipg_grads env s2 = Inr (r\<lparr>pending_rs := Some pr, params_in_ipg_bucket := []\<rparr>)"
  proof -
    have "s2\<lparr>params_in_ipg_bucket := [p]\<rparr> = s2" by (simp add: s2_def t1_def)
    then show ?thesis using f(1,2) chk r(1) by (simp add: \<open>s2\<lparr>params_in_ipg_bucket := [p]\<rparr> = s2\<close> reduce_and_partition_ipg_grads_def Let_def flush_pending_rs_def)
  qed
  have same: "grad_bufs r = grad_bufs s2" "buf_switch r = buf_switch s2" "grad_partitions_flat r = grad_partitions_flat s2"
      "accumulation_boundary r = accumulation_boundary s2" "params_already_reduced r = params_already_reduced s2"
    by (subst r(3), simp)+
  have g: "fits env r p" "accumulation_boundary r" "params_already_reduced r = params_already_reduced s"
    using f(7-9) same by (simp_all add: fits_def)
  show ?thesis
    using hook red acc r(2,4,5,6,8) src f g st(5) q(1)
    by (intro exI [of _ t1] exI [of _ pr] exI [of _ r]) (simp add: elements_in_ipg_bucket_def)
qed

text \<open>
  C29: a late read takes the next bucket's gradient. A bucket of a single gradient \<open>p\<close>, divisible by the
  number of ranks, is passed to the reduce-scatter as the place in the flat buffer itself, and the launch
  only queues its address. The hook of the next parameter \<open>q\<close> launches this bucket and copies its own
  gradient to the same place. When the collective reads after that, its input is \<open>q\<close>'s gradient, not even
  divided, followed by what is left of \<open>p\<close>'s, and what it delivers for that becomes the 32-bit gradient
  of \<open>p\<close>. Nothing is raised.
\<close>

theorem late_read_takes_next_bucket:
  assumes env: "direct_env env" "0 < reduce_bucket_size env" "contiguous_gradients env" "g_late env (int p)"
    and p: "g_numel env p mod g_world env = 0" "0 < g_numel env p" "g_numel env p < reduce_bucket_size env" "length gp = g_numel env p"
    and q: "q \<noteq> p" "g_numel env q < reduce_bucket_size env" "reduce_bucket_size env < g_numel env p + g_numel env q" "length gq = g_numel env q"
    and s: "pass_start env [p, q] s"
    and x: "x = take (g_numel env p) gq @ drop (g_numel env q) (map (g_dv env (g_world env)) gp)"
    and out: "length (g_rs env (int p) x) = g_part env p"
  shows "\<exists>t r. foldE (backward_param env) [(p, gp), (q, gq)] s = Inr t \<and> flush_pending_rs env t = Inr r
    \<and> fp32_slot env r p = map (g_cvt env Float32) (take (local_numel env p) (g_rs env (int p) x))"
proof -
  obtain t1 pr r where r: "backward_param env (p, gp) s = Inr t1"
      "reduce_and_partition_ipg_grads env (accumulate_grad env q gq t1) = Inr (r\<lparr>pending_rs := Some pr, params_in_ipg_bucket := []\<rparr>)"
      "elements_in_ipg_bucket env (accumulate_grad env q gq t1) = g_numel env p"
      "launched_for env [p] [gp] pr" "p_in pr = Some (0, g_numel env p)" "take (g_numel env p) (ipg_bucket_flat r) = rs_input env [gp]"
      "length (ipg_bucket_flat r) = reduce_bucket_size env" "grad r q = Some (GOwn gq)" "grad r p \<noteq> None" "fits env r p"
      "accumulation_boundary r" "\<not> params_already_reduced r q"
    using launched_single [OF env p q(1,3) s, of gq] by blast
  let ?r = "r\<lparr>pending_rs := Some pr, params_in_ipg_bucket := []\<rparr>" and ?n = "g_numel env p"
  define t where "t = ?r\<lparr>ipg_bucket_flat := gq @ drop (length gq) (ipg_bucket_flat r), grad := (grad r)(q \<mapsto> GBucket 0 (length gq)), params_in_ipg_bucket := [q]\<rparr>"
  have "add_grad_to_ipg_bucket env q ?r = Inr t"
    using add_first [of ?r q gq env] r(7,8) q env(3) by (simp add: t_def)
  then have "backward_param env (q, gq) t1 = Inr t"
    using r(2,3,12) p(2) q(3) env(2)
    by (simp add: backward_param_def reduce_ready_partitions_def report_ipg_memory_usage_def assert_that_def)
  then have hooks: "foldE (backward_param env) [(p, gp), (q, gq)] s = Inr t" using r(1) by simp
  have W: "0 < g_world env" using env(1) by (simp add: direct_env_def)
  have input: "rs_input env [gp] = map (g_dv env (g_world env)) gp"
    using flat_input_rows [OF W, of "[gp]" "g_fresh env"] p(1,4) by (simp add: rs_input_def flat_input_def aliases_input_def)
  have cid: "d_cid (p_deferred pr) = int p" using r(4) by (simp add: launched_for_def)
  have "take ?n (gq @ drop (length gq) (ipg_bucket_flat r)) = take ?n gq @ drop (length gq) (take ?n (ipg_bucket_flat r))"
    by (simp add: drop_take)
  then have src: "rs_source env pr t = x"
    using env(4) r(5,6) q(4) by (simp add: rs_source_def cid t_def x input)
  have gf: "grads_for env [p] [gp]" using p(4) by (simp add: grads_for_def)
  have views: "read_views (views_of (g_world env) (g_rank env) [gp]) (g_rs env (int p) x) = map (\<lambda>_. take (local_numel env p) (g_rs env (int p) x)) [p]"
    using grads_for_chunks(3,4) [OF env(1) gf, of 0] by (simp add: read_views_def views_of_def row_offset_def local_numel_def)
  have "\<exists>u. flush_pending_rs env t = Inr u \<and> only_flushed (set [p]) t u
      \<and> (\<forall>p \<in> set [p]. fp32_slot env u p = map (g_cvt env Float32) (take (local_numel env p) (g_rs env (int p) x)))
      \<and> (\<forall>y \<in> {}. fp32_slot env u y = fp32_slot env t y)"
  proof (rule flush_direct [OF env(1) gf r(4) _ src])
    show "pending_rs t = Some pr" "accumulation_boundary t" using r(11) by (simp_all add: t_def)
    show "keeps_places env t [p]" using r(9,10) q(1) by (simp add: keeps_places_def t_def fits_def)
  qed (use out views in \<open>simp_all add: sum_part_def\<close>)
  then show ?thesis using hooks by auto
qed

definition race_genv :: "int genv" where
  "race_genv = demo_genv\<lparr>g_numel := \<lambda>p. if p = 0 then 4 else 6, g_part := \<lambda>p. if p = 0 then 2 else 3,
     g_offset := \<lambda>p. 2 * p, g_position := \<lambda>p. (0, 2 * p, 0), g_rs := \<lambda>_ x. take 2 x\<rparr>"

text \<open>The gradient of \<open>0\<close> is 4, 4, 4, 4, that of \<open>1\<close> is 9, 8, 7, 6, 5, 4; the collective sums over this rank alone.\<close>

theorem late_read_takes_next_bucket_witness:
  "\<exists>t r. foldE (backward_param race_genv) [(0, [4, 4, 4, 4]), (1, [9, 8, 7, 6, 5, 4])] demo_ipg = Inr t
    \<and> flush_pending_rs race_genv t = Inr r \<and> fp32_slot race_genv r 0 = [9, 8]"
proof -
  have "\<exists>t r. foldE (backward_param race_genv) [(0, [4, 4, 4, 4]), (1, [9, 8, 7, 6, 5, 4])] demo_ipg = Inr t
    \<and> flush_pending_rs race_genv t = Inr r
    \<and> fp32_slot race_genv r 0 = map (g_cvt race_genv Float32) (take (local_numel race_genv 0) (g_rs race_genv (int 0) [9, 8, 7, 6]))"
  proof (rule late_read_takes_next_bucket)
    show "direct_env race_genv" by (simp add: direct_env_def race_genv_def demo_genv_def copies_grads_def quiet_env_def ceil_div_def)
    show "pass_start race_genv [0, 1] demo_ipg"
      by (simp add: pass_start_def demo_ipg_def race_genv_def demo_genv_def fits_def)
  qed (simp_all add: race_genv_def demo_genv_def)
  then show ?thesis by (simp add: race_genv_def demo_genv_def local_numel_def)
qed

section \<open>The last bucket of a step\<close>

text \<open>
  The epilogue counts the micro step before the last bucket is flushed. Where the results are not
  written in place, as with \<^verbatim>\<open>RS_USE_NCCL=1\<close>, the first bucket of the step overwrites what the
  previous step left in the gradient partitions, but the last one is added to it: here the previous
  step left 100 everywhere, and the gradients of the parameters 0 and 1 keep it.
\<close>

definition stale_ipg :: "int ipg" where
  "stale_ipg = demo_ipg\<lparr>grad_partitions_flat := replicate 7 100\<rparr>"

definition nccl_genv :: "int genv" where
  "nccl_genv = demo_genv\<lparr>rs_use_nccl := True\<rparr>"

theorem last_bucket_adds_stale:
  "map_sum id (\<lambda>r. map (fp32_slot nccl_genv r) [2, 1, 0])
     (ebind (backward_pass nccl_genv (map (\<lambda>p. (p, demo_G 0 p)) [2, 1, 0]) stale_ipg) (flush_pending_rs nccl_genv))
   = Inr [[14, 16, 18], [112, 114], [110, 112]]"
  by code_simp

end
