(* ===== verification/ZeroStep.thy ===== *)
theory ZeroStep
  imports GradBucketProps Offload
begin

text \<open>
  The step as a whole: \<^verbatim>\<open>step\<close> of \<^verbatim>\<open>src/smartnic_offload/zero_optimizer.py\<close> with everything it calls, a
  training iteration around it, and what the components above amount to. Training on \<open>W\<close> ranks,
  each with its shards, is Adam on the whole parameters with the mean of the ranks' gradients.
\<close>

section \<open>Operations\<close>

text \<open>\<^verbatim>\<open>_pre_step\<close> asks for the coordinator of the training mode, which makes it when it is missing.\<close>

definition pre_step :: "'a offload \<times> 'a ipg \<Rightarrow> ('a offload \<times> 'a ipg) result" where
  "pre_step og =
     (case og of (off, g) \<Rightarrow> ebind (on_coord True Inr off) (\<lambda>off1. Inr (off1, g\<lparr>micro_step_id := 0\<rparr>)))"

definition zero_partition_all :: "'a genv \<Rightarrow> 'a cenv \<Rightarrow> 'a offload \<times> 'a ipg \<Rightarrow> ('a offload \<times> 'a ipg) result" where
  "zero_partition_all genv cenv og =
     (case og of (off, g) \<Rightarrow>
        ebind (flush_pending_rs genv g) (\<lambda>g1.
        ebind (partition_all_parameters cenv off) (\<lambda>off1. Inr (off1, g1))))"

text \<open>
  \<^verbatim>\<open>step\<close>. The gradient buffers the bucket writes are those the optimizer reads, so the loop over the
  sub-groups starts with them.
\<close>

definition zero_step ::
  "'a genv \<Rightarrow> 'a cenv \<Rightarrow> ('a, 'st) oenv \<Rightarrow> 'a offload \<times> 'a ipg \<times> ('a, 'st) zopt
     \<Rightarrow> ('a offload \<times> 'a ipg \<times> ('a, 'st) zopt) result" where
  "zero_step genv cenv oenv st =
     (case st of (off, g, s) \<Rightarrow>
        ebind (flush_pending_rs genv g) (\<lambda>g1.
        ebind (pre_step (off, g1)) (\<lambda>og1.
        ebind (zero_partition_all genv cenv og1) (\<lambda>(off1, g2).
        ebind (step_loop oenv (s\<lparr>fp32_grad_bufs := grad_bufs g2\<rparr>)) (\<lambda>s1.
          Inr (off1, g2, s1))))))"

text \<open>
  An iteration of the usual kind: the backward pass, the step and the clearing of the gradients.
  \<open>off\<close> is the state the hooks of the iteration leave, \<open>rs\<close> what its collectives deliver.
\<close>

definition zero_iteration ::
  "'a cenv \<Rightarrow> ('a, 'st) oenv \<Rightarrow> 'a genv \<Rightarrow> 'a offload \<times> (int \<Rightarrow> 'a list \<Rightarrow> 'a list) \<times> (nat \<times> 'a list) list
     \<Rightarrow> 'a ipg \<times> ('a, 'st) zopt \<Rightarrow> ('a ipg \<times> ('a, 'st) zopt) result" where
  "zero_iteration cenv oenv genv it st =
     (case (it, st) of ((off, rs, pgs), (g, s)) \<Rightarrow>
        let genv1 = genv\<lparr>g_rs := rs\<rparr> in
        ebind (backward_pass genv1 pgs g) (\<lambda>g1.
        ebind (zero_step genv1 cenv oenv (off, g1, s)) (\<lambda>(off1, g2, s1).
          Inr (zero_grad True (zero_elem oenv) (fp16_groups (lay s1)) g2, s1))))"

section \<open>What a pass leaves alone\<close>

text \<open>Whatever the configuration, a pass neither switches the gradient buffers nor changes their sizes.\<close>

definition same_bufs :: "'a ipg \<Rightarrow> 'a ipg \<Rightarrow> bool" where
  "same_bufs s t \<longleftrightarrow> buf_switch t = buf_switch s \<and> (\<forall>b. map length (grad_bufs t b) = map length (grad_bufs s b))"

lemma same_bufs_refl [simp]: "same_bufs s s"
  by (simp add: same_bufs_def)

lemma same_bufs_trans: "same_bufs s t \<Longrightarrow> same_bufs t r \<Longrightarrow> same_bufs s r"
  by (simp add: same_bufs_def)

lemma same_bufsI: "buf_switch t = buf_switch s \<Longrightarrow> grad_bufs t = grad_bufs s \<Longrightarrow> same_bufs s t"
  by (simp add: same_bufs_def)

text \<open>The rules that follow an operation through its calls.\<close>

definition keeps_bufs :: "'a ipg \<Rightarrow> 'a ipg result \<Rightarrow> bool" where
  "keeps_bufs s m \<longleftrightarrow> (\<forall>t. m = Inr t \<longrightarrow> same_bufs s t)"

lemma keeps_bufs_ends:
  "keeps_bufs s (Inl e)" "same_bufs s t \<Longrightarrow> keeps_bufs s (Inr t)"
  by (simp_all add: keeps_bufs_def)

lemma keeps_bufs_then: "keeps_bufs s m \<Longrightarrow> (\<And>t. m = Inr t \<Longrightarrow> keeps_bufs t (f t)) \<Longrightarrow> keeps_bufs s (ebind m f)"
  by (auto simp: keeps_bufs_def ebind_eq_Inr_iff intro: same_bufs_trans)

lemma keeps_bufs_value: "(\<And>x. m = Inr x \<Longrightarrow> keeps_bufs s (f x)) \<Longrightarrow> keeps_bufs s (ebind m f)"
  by (auto simp: keeps_bufs_def ebind_eq_Inr_iff)

lemma keeps_bufs_if: "keeps_bufs s m \<Longrightarrow> keeps_bufs s m' \<Longrightarrow> keeps_bufs s (if b then m else m')"
  by simp

lemma foldE_bufs: "(\<And>x s. keeps_bufs s (f x s)) \<Longrightarrow> keeps_bufs s (foldE f xs s)"
  by (induction xs arbitrary: s) (simp_all add: keeps_bufs_ends keeps_bufs_then)

lemma length_copy_into: "copy_into dst start len src = Inr b \<Longrightarrow> length b = length dst"
  by (auto simp: copy_into_def narrow_def copy_to_def elim!: ebind_InrE split: if_splits list.splits)

lemma offload_grad_bufs: "keeps_bufs s (offload_grad env p g s)"
  by (auto simp: keeps_bufs_def offload_grad_def same_bufs_def map_update list_update_same_conv length_copy_into
      elim!: ebind_InrE split: prod.splits if_splits)
    (metis list_update_id map_update)

lemma partition_grad_bufs: "keeps_bufs s (partition_grad env pg s)"
proof -
  obtain p gp where pg: "pg = (p, gp)" by (cases pg)
  show ?thesis
    unfolding pg partition_grad_def prod.case Let_def
    by (intro keeps_bufs_if keeps_bufs_then keeps_bufs_value [where m = "copy_into a b c d" for a b c d] keeps_bufs_ends offload_grad_bufs)
      (simp_all add: same_bufs_def)
qed

lemma flush_bufs: "keeps_bufs s (flush_pending_rs env s)"
proof (cases "pending_rs s")
  case None
  then show ?thesis by (simp add: flush_pending_rs_def keeps_bufs_ends)
next
  case (Some pr)
  have "same_bufs s (deliver pr out (s\<lparr>gworld := w\<rparr>))" for out w
    by (rule same_bufsI) (simp_all add: deliver_def split: option.split)
  moreover have "keeps_bufs t (partition_grads env ps gps t)" for ps gps t
    unfolding partition_grads_def by (rule foldE_bufs) (rule partition_grad_bufs)
  ultimately have "keeps_bufs s (partition_grads env ps gps (deliver pr out (s\<lparr>gworld := w\<rparr>)))" for ps gps out w
    unfolding keeps_bufs_def by (metis same_bufs_trans)
  moreover have "keeps_bufs t (Inr (t\<lparr>pending_rs := None\<rparr>))" for t :: "'a ipg"
    by (intro keeps_bufs_ends same_bufsI) simp_all
  ultimately show ?thesis
    by (auto simp: flush_pending_rs_def Some Let_def keeps_bufs_ends intro: keeps_bufs_then split: prod.splits sum.splits)
qed

lemma divide_grad_bufs: "same_bufs s (divide_grad env p s)"
  by (rule same_bufsI) (simp_all add: divide_grad_def split: option.split gstore.split)

lemma avg_scatter_bufs:
  assumes "avg_scatter_grads env ps s = Inr (pr, t)"
  shows "same_bufs s t"
proof -
  have "\<exists>w. t = s\<lparr>gworld := w\<rparr> \<or> t = divide_grad env (hd ps) (s\<lparr>gworld := w\<rparr>)"
    using assms by (auto simp: avg_scatter_grads_def Let_def ebind_eq_Inr_iff split: if_splits prod.splits sum.splits)
  then obtain w where "t = s\<lparr>gworld := w\<rparr> \<or> t = divide_grad env (hd ps) (s\<lparr>gworld := w\<rparr>)" by blast
  moreover have "same_bufs s (s\<lparr>gworld := w\<rparr>)" by (rule same_bufsI) simp_all
  ultimately show ?thesis using divide_grad_bufs same_bufs_trans by metis
qed

lemma reduce_bufs: "keeps_bufs s (reduce_and_partition_ipg_grads env s)"
proof -
  have start: "keeps_bufs s (flush_pending_rs env (s\<lparr>params_in_ipg_bucket := b\<rparr>))" for b
    using flush_bufs [of "s\<lparr>params_in_ipg_bucket := b\<rparr>" env] by (simp add: keeps_bufs_def same_bufs_def)
  have launch: "keeps_bufs t (ebind (avg_scatter_grads env ps t) (\<lambda>(pr, s3). Inr (s3\<lparr>pending_rs := Some pr, params_in_ipg_bucket := []\<rparr>)))" for t ps
    by (rule keeps_bufs_value) (auto simp: keeps_bufs_def same_bufs_def dest!: avg_scatter_bufs)
  show ?thesis
    unfolding reduce_and_partition_ipg_grads_def Let_def
    by (intro keeps_bufs_if keeps_bufs_ends same_bufs_refl keeps_bufs_value [where m = "check_sizes a b" for a b] keeps_bufs_then start launch)
qed

lemma backward_param_bufs: "keeps_bufs s (backward_param env pg s)"
proof -
  obtain p g where pg: "pg = (p, g)" by (cases pg)
  have acc: "same_bufs s (accumulate_grad env p g s)"
    by (rule same_bufsI) (simp_all add: accumulate_grad_def split: option.split gstore.split)
  have add: "keeps_bufs t (add_grad_to_ipg_bucket env p t)" for t
    unfolding add_grad_to_ipg_bucket_def Let_def
    by (intro keeps_bufs_if keeps_bufs_then keeps_bufs_value [where m = "read_grad a b" for a b]
        keeps_bufs_value [where m = "copy_into a b c d" for a b c d] keeps_bufs_ends) (simp_all add: same_bufs_def)
  have "keeps_bufs t (reduce_ready_partitions env p t)" for t
    unfolding reduce_ready_partitions_def
    by (intro keeps_bufs_then keeps_bufs_if keeps_bufs_value [where m = "report_ipg_memory_usage a" for a] reduce_bufs
        keeps_bufs_value [where m = "assert_that a" for a] keeps_bufs_ends same_bufs_refl add)
  then show ?thesis using acc by (auto simp: backward_param_def pg keeps_bufs_def intro: same_bufs_trans)
qed

lemma flushed_pass_bufs: "keeps_bufs s (flushed_pass env gs s)"
proof -
  have epilogue: "keeps_bufs t (gradient_partition_epilogue env t)" for t
    unfolding gradient_partition_epilogue_def
    by (intro keeps_bufs_then keeps_bufs_value [where m = "report_ipg_memory_usage a" for a] reduce_bufs keeps_bufs_ends)
      (simp_all add: same_bufs_def)
  show ?thesis
    unfolding flushed_pass_def backward_pass_def
    by (intro keeps_bufs_then foldE_bufs backward_param_bufs epilogue flush_bufs)
qed


section \<open>Adam element by element\<close>

text \<open>
  What the library documents of Adam: the new weight and moments of an element depend on its own
  weight, moments and gradient and on the settings of its group. The state gives the moments of
  element \<open>j\<close> of tensor \<open>k\<close>.
\<close>

definition elementwise :: "(nat \<Rightarrow> 'e \<Rightarrow> 'a \<Rightarrow> 'a \<Rightarrow> 'e \<times> 'a) \<Rightarrow> ('a, nat \<Rightarrow> nat \<Rightarrow> 'e) oenv \<Rightarrow> bool" where
  "elementwise f env \<longleftrightarrow> keeps_length env \<and> (\<forall>g k st w d. length d = length w \<longrightarrow>
     adam env g k st w d =
       (st(k := \<lambda>j. if j < length w then fst (f g (st k j) (w ! j) (d ! j)) else st k j),
        map (\<lambda>j. snd (f g (st k j) (w ! j) (d ! j))) [0..<length w]))"

lemma adam_upto_elementwise:
  assumes "elementwise f env" and "\<And>k. k < m \<Longrightarrow> length (ds ! k) = length (ws ! k)"
  shows "adam_upto env gids st ws ds m =
    (\<lambda>k j. if k < m \<and> j < length (ws ! k) then fst (f (gids ! k) (st k j) (ws ! k ! j) (ds ! k ! j)) else st k j,
     map (\<lambda>k. map (\<lambda>j. snd (f (gids ! k) (st k j) (ws ! k ! j) (ds ! k ! j))) [0..<length (ws ! k)]) [0..<m])"
  using assms(2)
proof (induction m)
  case 0
  then show ?case by (simp add: adam_upto_def)
next
  case (Suc m)
  have "length (ds ! m) = length (ws ! m)" using Suc.prems by simp
  then show ?case using Suc assms(1) by (auto simp: adam_upto_Suc elementwise_def fun_eq_iff less_Suc_eq)
qed

text \<open>The reference: the same update on whole parameters, with their masters \<open>M\<close> and moments \<open>E\<close>.\<close>

definition whole_step ::
  "(nat \<Rightarrow> 'e \<Rightarrow> 'a \<Rightarrow> 'a \<Rightarrow> 'e \<times> 'a) \<Rightarrow> (nat \<Rightarrow> nat) \<Rightarrow> (nat \<Rightarrow> 'a list) \<Rightarrow> (nat \<Rightarrow> 'a list) \<times> (nat \<Rightarrow> nat \<Rightarrow> 'e)
     \<Rightarrow> (nat \<Rightarrow> 'a list) \<times> (nat \<Rightarrow> nat \<Rightarrow> 'e)" where
  "whole_step f grp G ME =
     (case ME of (M, E) \<Rightarrow>
        (\<lambda>p. map (\<lambda>j. snd (f (grp p) (E p j) (M p ! j) (G p ! j))) [0..<length (M p)],
         \<lambda>p j. fst (f (grp p) (E p j) (M p ! j) (G p ! j))))"

section \<open>The step on the shards of a rank\<close>

text \<open>The place of a parameter's shard: its sub-group and the offset in the flat tensor of it.\<close>

lemma shard_place:
  assumes "distinct (concat grps)" and "p \<in> set (concat grps)"
  obtains k i where "k < length grps" and "i < length (grps ! k)" and "grps ! k ! i = p"
    and "set_grad_positions n grps p = Some (k, total_numel n (take i (grps ! k)), n p)"
    and "total_numel n (take i (grps ! k)) + n p \<le> total_numel n (grps ! k)"
proof -
  obtain ps where "ps \<in> set grps" "p \<in> set ps" using assms(2) by auto
  then obtain k i where ki: "k < length grps" "i < length (grps ! k)" "grps ! k ! i = p" by (metis in_set_conv_nth)
  show thesis
    using that [OF ki] set_grad_positions_nth [OF assms(1) ki(1,2), of n] total_numel_take [OF ki(2), of n] by (simp add: ki(3))
qed

lemma total_numel_take_mono: "i < j \<Longrightarrow> j < length ps \<Longrightarrow> total_numel n (take i ps) + n (ps ! i) \<le> total_numel n (take j ps)"
  using total_numel_take [of i "take j ps" n] by (simp add: min_def)

lemma places_apart:
  assumes "distinct (concat grps)" and "p \<in> set (concat grps)" "q \<in> set (concat grps)" "p \<noteq> q"
    and "\<And>p. p \<in> set (concat grps) \<Longrightarrow> g_position env p = the (set_grad_positions (g_part env) grps p)"
  shows "apart env p q"
proof -
  let ?n = "g_part env"
  obtain k i where p: "k < length grps" "i < length (grps ! k)" "grps ! k ! i = p"
      "set_grad_positions ?n grps p = Some (k, total_numel ?n (take i (grps ! k)), ?n p)"
    using shard_place [OF assms(1,2)] by blast
  obtain k' i' where q: "k' < length grps" "i' < length (grps ! k')" "grps ! k' ! i' = q"
      "set_grad_positions ?n grps q = Some (k', total_numel ?n (take i' (grps ! k')), ?n q)"
    using shard_place [OF assms(1,3)] by blast
  have "total_numel ?n (take i (grps ! k)) + ?n p \<le> total_numel ?n (take i' (grps ! k))
      \<or> total_numel ?n (take i' (grps ! k)) + ?n q \<le> total_numel ?n (take i (grps ! k))" if "k = k'"
    using p(2,3) q(2,3) assms(4) that total_numel_take_mono [of i i' "grps ! k" ?n] total_numel_take_mono [of i' i "grps ! k" ?n]
    by (cases i i' rule: linorder_cases) auto
  then show ?thesis using assms(5) [OF assms(2)] assms(5) [OF assms(3)] p(4) q(4) by (auto simp: apart_def)
qed

text \<open>
  Rank \<open>r\<close> holds its part of the masters \<open>M\<close> and moments \<open>E\<close>. Where the shard reaches past the end
  of the parameter it holds anything.
\<close>

definition master_holds ::
  "nat \<Rightarrow> (nat \<Rightarrow> nat) \<Rightarrow> nat list list \<Rightarrow> (nat \<Rightarrow> 'a list) \<times> (nat \<Rightarrow> nat \<Rightarrow> 'e) \<Rightarrow> ('a, nat \<Rightarrow> nat \<Rightarrow> 'e) zopt \<Rightarrow> bool" where
  "master_holds r n grps ME s \<longleftrightarrow> (\<forall>p \<in> set (concat grps). case the (set_grad_positions n grps p) of (k, start, _) \<Rightarrow>
     \<forall>x < n p. r * n p + x < length (fst ME p) \<longrightarrow>
       fp32_partitioned_groups_flat s ! k ! (start + x) = fst ME p ! (r * n p + x) \<and> opt_state s k (start + x) = snd ME p (r * n p + x))"

definition grads_hold :: "nat \<Rightarrow> (nat \<Rightarrow> nat) \<Rightarrow> nat list list \<Rightarrow> (nat \<Rightarrow> 'a list) \<Rightarrow> 'a list list \<Rightarrow> bool" where
  "grads_hold r n grps G bufs \<longleftrightarrow> map length bufs = map (total_numel n) grps
     \<and> (\<forall>p \<in> set (concat grps). case the (set_grad_positions n grps p) of (k, start, _) \<Rightarrow>
          \<forall>x < n p. r * n p + x < length (G p) \<longrightarrow> bufs ! k ! (start + x) = G p ! (r * n p + x))"

text \<open>The group whose settings a parameter is updated with.\<close>

definition settings_of :: "(nat \<Rightarrow> nat) \<Rightarrow> nat list list \<Rightarrow> nat list \<Rightarrow> nat \<Rightarrow> nat" where
  "settings_of n grps gids p = gids ! fst (the (set_grad_positions n grps p))"

text \<open>Adam on the flat tensors of a rank is Adam on its parts of the whole parameters.\<close>

lemma adam_all_holds:
  assumes ew: "elementwise f env" and dist: "distinct (concat grps)"
    and ws: "map length (fp32_partitioned_groups_flat s) = map (total_numel n) grps"
    and upd: "(opt_state t, fp32_partitioned_groups_flat t) = adam_all env gids (opt_state s) (fp32_partitioned_groups_flat s) ds"
    and M: "master_holds r n grps (M, E) s" and G: "grads_hold r n grps G ds"
    and len: "\<And>p. p \<in> set (concat grps) \<Longrightarrow> length (G p) = length (M p)"
    and new: "(M', E') = whole_step f (settings_of n grps gids) G (M, E)"
  shows "master_holds r n grps (M', E') t"
proof -
  let ?ws = "fp32_partitioned_groups_flat s"
  have lens: "length (xs ! k) = total_numel n (grps ! k)" if "map length xs = map (total_numel n) grps" "k < length grps"
    for xs k
    using arg_cong [OF that(1), of length] arg_cong [OF that(1), of "\<lambda>ys. ys ! k"] that(2) by simp
  have ds: "map length ds = map (total_numel n) grps" using G by (simp add: grads_hold_def)
  have lws: "length ?ws = length grps" using arg_cong [OF ws, of length] by simp
  have "adam_all env gids (opt_state s) ?ws ds =
    (\<lambda>k j. if k < length grps \<and> j < length (?ws ! k) then fst (f (gids ! k) (opt_state s k j) (?ws ! k ! j) (ds ! k ! j)) else opt_state s k j,
     map (\<lambda>k. map (\<lambda>j. snd (f (gids ! k) (opt_state s k j) (?ws ! k ! j) (ds ! k ! j))) [0..<length (?ws ! k)]) [0..<length grps])"
    unfolding adam_all_def lws by (rule adam_upto_elementwise [OF ew]) (simp add: lens [OF ws] lens [OF ds])
  then have el: "opt_state t k j = fst (f (gids ! k) (opt_state s k j) (?ws ! k ! j) (ds ! k ! j))"
      "fp32_partitioned_groups_flat t ! k ! j = snd (f (gids ! k) (opt_state s k j) (?ws ! k ! j) (ds ! k ! j))"
    if "k < length grps" "j < total_numel n (grps ! k)" for k j
    using upd that by (simp_all add: lens [OF ws])
  have new': "M' p = map (\<lambda>j. snd (f (settings_of n grps gids p) (E p j) (M p ! j) (G p ! j))) [0..<length (M p)]"
      "E' p j = fst (f (settings_of n grps gids p) (E p j) (M p ! j) (G p ! j))" for p j
    using new by (simp_all add: whole_step_def)
  show ?thesis unfolding master_holds_def fst_conv snd_conv
  proof
    fix p assume p: "p \<in> set (concat grps)"
    obtain k i where ki: "k < length grps" "set_grad_positions n grps p = Some (k, total_numel n (take i (grps ! k)), n p)"
        "total_numel n (take i (grps ! k)) + n p \<le> total_numel n (grps ! k)"
      using shard_place [OF dist p] by blast
    let ?o = "total_numel n (take i (grps ! k))"
    have "fp32_partitioned_groups_flat t ! k ! (?o + x) = M' p ! (r * n p + x) \<and> opt_state t k (?o + x) = E' p (r * n p + x)"
      if x: "x < n p" "r * n p + x < length (M p)" for x
    proof -
      have "?ws ! k ! (?o + x) = M p ! (r * n p + x)" "opt_state s k (?o + x) = E p (r * n p + x)"
        using M p x by (auto simp: master_holds_def ki(2) dest!: bspec [of _ _ p])
      moreover have "ds ! k ! (?o + x) = G p ! (r * n p + x)"
        using G p x len [OF p] by (auto simp: grads_hold_def ki(2) dest!: bspec [of _ _ p])
      moreover have "?o + x < total_numel n (grps ! k)" using ki(3) x(1) by simp
      ultimately show ?thesis using el [OF ki(1)] x(2) by (simp add: new' settings_of_def ki(2))
    qed
    then show "case the (set_grad_positions n grps p) of (k, start, _) \<Rightarrow> \<forall>x < n p. r * n p + x < length (M' p) \<longrightarrow>
        fp32_partitioned_groups_flat t ! k ! (start + x) = M' p ! (r * n p + x) \<and> opt_state t k (start + x) = E' p (r * n p + x)"
      by (simp add: ki(2) new'(1))
  qed
qed

lemma step_on_shards:
  assumes ok: "zopt_ok n s" "all_in_set 0 s" and ew: "elementwise f env"
    and lay: "fp16_groups (lay s) = grps" "sub_group_to_group_id (lay s) = gids"
    and M: "master_holds r n grps (M, E) s" and G: "grads_hold r n grps G (fp32_grad_bufs s 0)"
    and len: "\<And>p. p \<in> set (concat grps) \<Longrightarrow> length (G p) = length (M p)"
    and new: "(M', E') = whole_step f (settings_of n grps gids) G (M, E)"
  shows "\<exists>t. step_loop env s = Inr t \<and> zopt_ok n t \<and> all_in_set 0 t \<and> fp16_groups (lay t) = grps
    \<and> sub_group_to_group_id (lay t) = gids \<and> master_holds r n grps (M', E') t
    \<and> (\<forall>p \<in> set (concat grps). length (read_shard (lay t) p) = n p
        \<and> (\<forall>x < n p. r * n p + x < length (M' p) \<longrightarrow> read_shard (lay t) p ! x = cvt env (model_dtype env) (M' p ! (r * n p + x))))"
proof -
  have kl: "keeps_length env" using ew by (simp add: elementwise_def)
  obtain t where t: "step_loop env s = Inr t"
      "(opt_state t, fp32_partitioned_groups_flat t) = adam_all env gids (opt_state s) (fp32_partitioned_groups_flat s) (fp32_grad_bufs s 0)"
      "flat_values (lay t) = map (map (cvt env (model_dtype env))) (fp32_partitioned_groups_flat t)"
      "same_layout (lay s) (lay t)" "zopt_ok n t" "all_in_set 0 t"
    using step_loop_ok [OF ok(1) kl ok(2)] unfolding lay(2) by blast
  note same = same_layout_fields [OF t(4)]
  have lt: "layout_ok n (lay t)" using t(5) by (simp add: zopt_ok_def)
  have dist: "distinct (concat grps)" using lt same by (simp add: layout_ok_def lay)
  have ws: "map length (fp32_partitioned_groups_flat s) = map (total_numel n) grps"
    using ok(1) by (simp add: zopt_ok_def lay)
  have hold: "master_holds r n grps (M', E') t" by (rule adam_all_holds [OF ew dist ws t(2) M G len new])
  have "length (read_shard (lay t) p) = n p
      \<and> (\<forall>x < n p. r * n p + x < length (M' p) \<longrightarrow> read_shard (lay t) p ! x = cvt env (model_dtype env) (M' p ! (r * n p + x)))"
    if p: "p \<in> set (concat grps)" for p
  proof -
    obtain k i where ki: "k < length grps" "i < length (grps ! k)" "grps ! k ! i = p"
        "set_grad_positions n grps p = Some (k, total_numel n (take i (grps ! k)), n p)"
        "total_numel n (take i (grps ! k)) + n p \<le> total_numel n (grps ! k)"
      using shard_place [OF dist p] by blast
    have kt: "k < length (fp16_groups (lay t))" "i < length (fp16_groups (lay t) ! k)" using ki same lay by simp_all
    have fl: "length (fp32_partitioned_groups_flat t) = length grps" "length (fp32_partitioned_groups_flat t ! k) = total_numel n (grps ! k)"
      using zopt_lengths [OF t(5)] ki(1) same by (simp_all add: lay)
    have shard: "length (read_shard (lay t) p) = n p"
        "read_shard (lay t) p = take (n p) (drop (total_numel n (take i (grps ! k))) (flat_values (lay t) ! k))"
      using length_read_shard [OF lt kt] ki(3) same by (simp_all add: lay)
    have "fp32_partitioned_groups_flat t ! k ! (total_numel n (take i (grps ! k)) + x) = M' p ! (r * n p + x)"
      if "x < n p" "r * n p + x < length (M' p)" for x
      using hold p that by (auto simp: master_holds_def ki(4) dest!: bspec [of _ _ p])
    then show ?thesis using shard(1) ki(1,5) fl by (simp add: shard(2) t(3))
  qed
  then show ?thesis using t(1,5,6) same hold lay by auto
qed

section \<open>An iteration\<close>

text \<open>\<^verbatim>\<open>partition_all_parameters\<close> finds the parameters released: the hooks have seen to it.\<close>

definition released :: "'a cenv \<Rightarrow> 'a offload \<Rightarrow> bool" where
  "released cenv off \<longleftrightarrow> (\<forall>p \<in> set (c_all_params (iter_env cenv off)). ds_status (o_heap off p) = NOT_AVAILABLE
     \<and> p \<notin> fst ` set (inflight (get_param_coordinator (training (o_mods off (o_root off))) off)))"

lemma reset_released:
  assumes "ds_status (heap c p) = NOT_AVAILABLE" and "p \<notin> fst ` set (inflight c)"
  shows "\<exists>q. release_and_reset_one env p c = Inr (c\<lparr>heap := (heap c)(p := q)\<rparr>) \<and> ds_status q = NOT_AVAILABLE"
  using assms by (auto simp: release_and_reset_one_def release_param_def pool_cpu_full_def Let_def split: option.splits)

lemma coord_made_released:
  assumes "released cenv off"
  shows "\<exists>off1. on_coord True Inr off = Inr off1 \<and> released cenv off1"
proof -
  let ?c = "get_param_coordinator True off"
  let ?off = "off\<lparr>o_heap := heap ?c, o_coords := (o_coords off)(True := Some ?c)\<rparr>"
  have h: "heap ?c = o_heap off" by (simp add: get_param_coordinator_def init_coord_def split: option.split)
  then have "get_param_coordinator tr ?off = get_param_coordinator tr off" for tr
    by (cases tr) (simp_all add: get_param_coordinator_def init_coord_def split: option.split)
  moreover have "iter_env cenv ?off = iter_env cenv off" by (simp add: iter_env_def)
  ultimately have "released cenv ?off" using assms h by (simp add: released_def)
  then show ?thesis by (simp add: on_coord_def)
qed

lemma partition_all_released:
  assumes "released cenv off"
  shows "\<exists>off'. partition_all_parameters cenv off = Inr off'"
proof -
  let ?env = "iter_env cenv off" and ?tr = "training (o_mods off (o_root off))"
  let ?c = "get_param_coordinator ?tr off" and ?I = "\<lambda>c :: 'a coord. \<forall>p \<in> set (c_all_params (iter_env cenv off)).
    ds_status (heap c p) = NOT_AVAILABLE \<and> p \<notin> fst ` set (inflight c)"
  have "heap ?c = o_heap off" by (simp add: get_param_coordinator_def init_coord_def split: option.split)
  then have "?I ?c" using assms by (simp add: released_def)
  then obtain c where c: "foldE (release_and_reset_one ?env) (c_all_params ?env) ?c = Inr c" "?I c"
  proof -
    have "\<exists>c. foldE (release_and_reset_one ?env) (c_all_params ?env) ?c = Inr c \<and> ?I c"
    proof (rule foldE_total)
      show "?I ?c" by fact
      show "\<exists>c'. release_and_reset_one ?env p c = Inr c' \<and> ?I c'" if "p \<in> set (c_all_params ?env)" "?I c" for p c
        using reset_released [of c p ?env] that by fastforce
    qed
    then show ?thesis using that by blast
  qed
  then have "release_and_reset_all ?env ?c = Inr c" by (simp add: release_and_reset_all_def)
  moreover have "c_all_params (iter_env cenv (off\<lparr>o_heap := heap c, o_coords := (o_coords off)(?tr := Some c)\<rparr>)) = c_all_params ?env"
    by (simp add: iter_env_def)
  ultimately show ?thesis using c(2) by (simp add: partition_all_parameters_def on_coord_def)
qed

lemma zero_grad_None:
  "zero_grad True z grps g = g\<lparr>micro_step_id := 0, grad := \<lambda>p. if p \<in> set (concat grps) then None else grad g p\<rparr>"
proof -
  have inner: "fold (\<lambda>p s. s\<lparr>grad := (grad s)(p := None)\<rparr>) ps s = s\<lparr>grad := \<lambda>p. if p \<in> set ps then None else grad s p\<rparr>"
    for ps and s :: "'a ipg"
    by (induction ps arbitrary: s) (auto simp: fun_eq_iff intro!: arg_cong [of _ _ "\<lambda>f. grad_update (\<lambda>_. f) s" for s])
  have "fold (\<lambda>ps. fold (\<lambda>p s. s\<lparr>grad := (grad s)(p := None)\<rparr>) ps) grps s
      = s\<lparr>grad := \<lambda>p. if p \<in> set (concat grps) then None else grad s p\<rparr>" for s :: "'a ipg"
    by (induction grps arbitrary: s) (simp, simp add: inner, auto intro!: arg_cong [of _ _ "\<lambda>f. grad_update (\<lambda>_. f) s" for s])
  then show ?thesis by (simp add: zero_grad_def cong: if_cong)
qed

text \<open>
  The fixed part of a rank: the DPU's transport without conversion, 32-bit gradients by the same
  conversion on both sides, and the places \<^verbatim>\<open>set_grad_positions\<close> gives.
\<close>

definition rank_env ::
  "(nat \<Rightarrow> 'e \<Rightarrow> 'a \<Rightarrow> 'a \<Rightarrow> 'e \<times> 'a) \<Rightarrow> 'a genv \<Rightarrow> ('a, nat \<Rightarrow> nat \<Rightarrow> 'e) oenv \<Rightarrow> nat list list \<Rightarrow> bool" where
  "rank_env f genv oenv grps \<longleftrightarrow> direct_env genv \<and> 0 < reduce_bucket_size genv \<and> g_cvt genv = cvt oenv \<and> elementwise f oenv
     \<and> distinct (concat grps)
     \<and> (\<forall>p \<in> set (concat grps). g_position genv p = the (set_grad_positions (g_part genv) grps p))"

text \<open>A rank between two iterations.\<close>

definition rank_state ::
  "'a genv \<Rightarrow> nat list list \<Rightarrow> nat list \<Rightarrow> (nat \<Rightarrow> 'a list) \<times> (nat \<Rightarrow> nat \<Rightarrow> 'e) \<Rightarrow> 'a ipg \<times> ('a, nat \<Rightarrow> nat \<Rightarrow> 'e) zopt \<Rightarrow> bool" where
  "rank_state genv grps gids ME gs \<longleftrightarrow> (case gs of (g, s) \<Rightarrow>
     zopt_ok (g_part genv) s \<and> all_in_set 0 s \<and> fp16_groups (lay s) = grps \<and> sub_group_to_group_id (lay s) = gids
     \<and> master_holds (g_rank genv) (g_part genv) grps ME s
     \<and> pass_start genv (concat grps) g \<and> buf_switch g = 0 \<and> map length (grad_bufs g 0) = map (total_numel (g_part genv)) grps)"

text \<open>The 16-bit shards are the rounded masters.\<close>

definition shards_hold :: "'a genv \<Rightarrow> ('a, 'st) oenv \<Rightarrow> nat list list \<Rightarrow> (nat \<Rightarrow> 'a list) \<Rightarrow> ('a, 'st) zopt \<Rightarrow> bool" where
  "shards_hold genv oenv grps M s \<longleftrightarrow> (\<forall>p \<in> set (concat grps). length (read_shard (lay s) p) = g_part genv p
     \<and> (\<forall>x < g_part genv p. g_rank genv * g_part genv p + x < length (M p) \<longrightarrow>
          read_shard (lay s) p ! x = cvt oenv (model_dtype oenv) (M p ! (g_rank genv * g_part genv p + x))))"

text \<open>
  An iteration: its collectives deliver what the ranks' gradients \<open>G\<close> require, in whatever order
  and buckets the gradients come, and none reads a bucket that has been overwritten.
\<close>

definition iteration_ok ::
  "'a cenv \<Rightarrow> 'a genv \<Rightarrow> nat list list \<Rightarrow> ('a list \<Rightarrow> 'a) \<Rightarrow> (nat \<Rightarrow> nat \<Rightarrow> nat \<Rightarrow> nat \<Rightarrow> 'a) \<Rightarrow> (nat \<Rightarrow> nat \<Rightarrow> 'a list)
     \<Rightarrow> 'a offload \<times> (int \<Rightarrow> 'a list \<Rightarrow> 'a list) \<times> nat list \<Rightarrow> bool" where
  "iteration_ok cenv genv grps red u G it \<longleftrightarrow> (case it of (off, rs, ps) \<Rightarrow>
     released cenv off \<and> distinct ps \<and> set ps = set (concat grps) \<and> race_free (genv\<lparr>g_rs := rs\<rparr>) ps
     \<and> (\<forall>q < g_world genv. \<forall>p \<in> set ps. length (G q p) = g_numel genv p)
     \<and> (\<forall>c \<in> set (buckets_of (genv\<lparr>g_rs := rs\<rparr>) [] ps). consecutive (genv\<lparr>g_rs := rs\<rparr>) (sort c)
          \<and> delivers (genv\<lparr>g_rs := rs\<rparr>) red u G (sort c)))"

definition whole_mean :: "'a genv \<Rightarrow> ('a list \<Rightarrow> 'a) \<Rightarrow> (nat \<Rightarrow> nat \<Rightarrow> 'a list) \<Rightarrow> nat \<Rightarrow> 'a list" where
  "whole_mean genv red G p = map (g_cvt genv Float32) (mean_grad red (g_dv genv) (map (\<lambda>q. G q p) [0..<g_world genv]))"

lemma length_whole_mean: "0 < g_world genv \<Longrightarrow> length (whole_mean genv red G p) = length (G 0 p)"
  by (simp add: whole_mean_def mean_grad_def hd_map)

text \<open>What a pass leaves in the 32-bit buffers, element by element.\<close>

lemma pass_grads:
  assumes env: "direct_env env" and dist: "distinct (concat grps)" and P: "set ps = set (concat grps)"
    and pos: "\<And>p. p \<in> set (concat grps) \<Longrightarrow> g_position env p = the (set_grad_positions (g_part env) grps p)"
    and core: "pass_core env gr (mean_part env red G) own (set ps) [] [] [] r"
    and sizes: "map length (grad_bufs r (buf_switch r)) = map (total_numel (g_part env)) grps"
    and len: "\<And>p. p \<in> set ps \<Longrightarrow> length (G 0 p) = g_numel env p"
  shows "grads_hold (g_rank env) (g_part env) grps (whole_mean env red G) (grad_bufs r (buf_switch r))"
  unfolding grads_hold_def
proof (intro conjI sizes ballI)
  fix p assume p: "p \<in> set (concat grps)"
  let ?r = "g_rank env" and ?n = "g_part env p" and ?b = "grad_bufs r (buf_switch r)"
  obtain k i where ki: "k < length grps" "i < length (grps ! k)" "grps ! k ! i = p"
      "set_grad_positions (g_part env) grps p = Some (k, total_numel (g_part env) (take i (grps ! k)), ?n)"
      "total_numel (g_part env) (take i (grps ! k)) + ?n \<le> total_numel (g_part env) (grps ! k)"
    using shard_place [OF dist p] by blast
  let ?o = "total_numel (g_part env) (take i (grps ! k))"
  have lb: "length (?b ! k) = total_numel (g_part env) (grps ! k)" using arg_cong [OF sizes, of "\<lambda>xs. xs ! k"] arg_cong [OF sizes, of length] ki(1) by simp
  have W: "0 < g_world env" using env by (simp add: direct_env_def)
  let ?m = "mean_grad red (g_dv env) (map (\<lambda>q. G q p) [0..<g_world env])"
  have lm: "length ?m = g_numel env p" using len p P W by (simp add: mean_grad_def hd_map)
  have "fp32_slot env r p = map (g_cvt env Float32) (mean_part env red G p)" using core p P unfolding pass_core_def by blast
  then have slot: "take (local_numel env p) (drop ?o (?b ! k)) = map (g_cvt env Float32) (block ?n ?r ?m)"
    using pos [OF p] ki(4) by (simp add: fp32_slot_def mean_part_def)
  have "?b ! k ! (?o + x) = whole_mean env red G p ! (?r * ?n + x)" if x: "x < ?n" "?r * ?n + x < length (whole_mean env red G p)" for x
  proof -
    have xl: "x < local_numel env p" "?r * ?n + x < g_numel env p" using x lm by (auto simp: local_numel_def whole_mean_def)
    have "?b ! k ! (?o + x) = take (local_numel env p) (drop ?o (?b ! k)) ! x" using xl(1) lb ki(5) x(1) by simp
    also have "\<dots> = g_cvt env Float32 (?m ! (?r * ?n + x))" unfolding slot using x(1) xl(2) lm by (simp add: block_def)
    finally show ?thesis using xl(2) lm by (simp add: whole_mean_def)
  qed
  then show "case the (set_grad_positions (g_part env) grps p) of (k, start, _) \<Rightarrow>
      \<forall>x < ?n. ?r * ?n + x < length (whole_mean env red G p) \<longrightarrow> ?b ! k ! (start + x) = whole_mean env red G p ! (?r * ?n + x)"
    by (simp add: ki(4))
qed

lemma with_bufs:
  "zopt_ok n (s\<lparr>fp32_grad_bufs := b\<rparr>) = zopt_ok n s" "all_in_set i (s\<lparr>fp32_grad_bufs := b\<rparr>) = all_in_set i s"
  "master_holds r n grps ME (s\<lparr>fp32_grad_bufs := b\<rparr>) = master_holds r n grps ME s"
  by (simp_all add: zopt_ok_def opt_ok_def all_in_set_def master_holds_def)

lemma pass_start_same:
  "pass_start (genv\<lparr>g_rs := rs\<rparr>) ps g = pass_start genv ps g" "fits (genv\<lparr>g_rs := rs\<rparr>) g p = fits genv g p"
  by (simp_all add: pass_start_def fits_def)

lemma pass_start_set: "set ps = set qs \<Longrightarrow> pass_start env ps g = pass_start env qs g"
  by (simp add: pass_start_def list_all_iff)

lemma fits_same: "grad_bufs g = grad_bufs h \<Longrightarrow> buf_switch g = buf_switch h
    \<Longrightarrow> length (grad_partitions_flat g) = length (grad_partitions_flat h) \<Longrightarrow> fits env g p = fits env h p"
  by (simp add: fits_def)

text \<open>The backward pass of an iteration and its last flush.\<close>

lemma iteration_pass:
  assumes env: "rank_env f genv oenv grps" and start0: "pass_start genv (concat grps) g" "buf_switch g = 0"
      "map length (grad_bufs g 0) = map (total_numel (g_part genv)) grps"
    and it: "iteration_ok cenv genv grps red u G (off, rs, ps)"
  shows "\<exists>t r. backward_pass (genv\<lparr>g_rs := rs\<rparr>) (map (\<lambda>p. (p, G (g_rank genv) p)) ps) g = Inr t
    \<and> flush_pending_rs (genv\<lparr>g_rs := rs\<rparr>) t = Inr r \<and> pending_rs r = None
    \<and> grads_hold (g_rank genv) (g_part genv) grps (whole_mean genv red G) (grad_bufs r 0)
    \<and> pass_start genv (concat grps) (zero_grad True z grps (r\<lparr>micro_step_id := 0\<rparr>)) \<and> buf_switch r = 0"
proof -
  let ?env = "genv\<lparr>g_rs := rs\<rparr>" and ?n = "g_part genv"
  have P: "set ps = set (concat grps)" and d: "distinct ps"
    and lens: "\<And>q p. q < g_world ?env \<Longrightarrow> p \<in> set ps \<Longrightarrow> length (G q p) = g_numel ?env p"
    and red: "\<And>c. c \<in> set (buckets_of ?env [] ps) \<Longrightarrow> consecutive ?env (sort c) \<and> delivers ?env red u G (sort c)"
    and race: "race_free ?env ps"
    using it by (auto simp: iteration_ok_def)
  have dir: "direct_env ?env" and rb: "0 < reduce_bucket_size ?env" and dist: "distinct (concat grps)"
    using env by (simp_all add: rank_env_def direct_env_def copies_grads_def)
  have pos: "g_position ?env p = the (set_grad_positions (g_part ?env) grps p)" if "p \<in> set (concat grps)" for p
    using env that by (auto simp: rank_env_def)
  have W: "0 < g_world ?env" using dir by (simp add: direct_env_def)
  have apart: "apart ?env p q" if "p \<in> set ps" "q \<in> set ps" "p \<noteq> q" for p q
    using places_apart [OF dist _ _ that(3) pos] that(1,2) P by simp
  have start: "pass_start ?env ps g" unfolding pass_start_same pass_start_set [OF P] by (rule start0(1))
  obtain t r where t: "backward_pass ?env (map (\<lambda>p. (p, G (g_rank ?env) p)) ps) g = Inr t" "flush_pending_rs ?env t = Inr r"
      "pass_core ?env (G (g_rank ?env)) (mean_part ?env red G) (\<lambda>_. None) (set ps) [] [] [] r" "pending_rs r = None"
    using whole_pass [OF mean_reducible(1) [OF dir rb lens apart red] d start mean_reducible(2) [OF dir rb lens apart red] race] by blast
  have "flushed_pass ?env (map (\<lambda>p. (p, G (g_rank ?env) p)) ps) g = Inr r" using t(1,2) by (simp add: flushed_pass_def)
  then have "same_bufs g r" using flushed_pass_bufs unfolding keeps_bufs_def by blast
  then have bufs: "buf_switch r = 0" "map length (grad_bufs r 0) = map (total_numel ?n) grps"
    using start0(2,3) by (simp_all add: same_bufs_def)
  have hold: "grads_hold (g_rank genv) ?n grps (whole_mean genv red G) (grad_bufs r 0)"
    using pass_grads [OF dir dist P pos t(3)] bufs lens [OF W] by (simp add: whole_mean_def [abs_def])
  have core: "length (ipg_bucket_flat r) = reduce_bucket_size genv" "params_in_ipg_bucket r = []" "accumulation_boundary r"
      "\<forall>p. \<not> params_already_reduced r p" "\<forall>p \<in> set ps. fits genv r p"
    using t(3) by (simp_all add: pass_core_def pass_start_same)
  have "fits genv (zero_grad True z grps (r\<lparr>micro_step_id := 0\<rparr>)) p = fits genv r p" for p
    by (rule fits_same) (simp_all add: zero_grad_None)
  then have "pass_start genv (concat grps) (zero_grad True z grps (r\<lparr>micro_step_id := 0\<rparr>))"
    using core t(4) P by (simp add: pass_start_def zero_grad_None list_all_iff)
  then show ?thesis using t(1,2,4) hold bufs(1) by auto
qed

lemma rank_iteration:
  assumes env: "rank_env f genv oenv grps" and st: "rank_state genv grps gids (M, E) (g, s)"
    and it: "iteration_ok cenv genv grps red u G (off, rs, ps)"
    and numel: "\<And>p. p \<in> set (concat grps) \<Longrightarrow> g_numel genv p = length (M p)"
    and new: "(M', E') = whole_step f (settings_of (g_part genv) grps gids) (whole_mean genv red G) (M, E)"
  shows "\<exists>g' s'. zero_iteration cenv oenv genv (off, rs, map (\<lambda>p. (p, G (g_rank genv) p)) ps) (g, s) = Inr (g', s')
    \<and> rank_state genv grps gids (M', E') (g', s') \<and> shards_hold genv oenv grps M' s'"
proof -
  let ?env = "genv\<lparr>g_rs := rs\<rparr>" and ?n = "g_part genv"
  note st = st [unfolded rank_state_def prod.case]
  have ew: "elementwise f oenv" and W: "0 < g_world genv" using env by (auto simp: rank_env_def direct_env_def)
  have gl: "length (whole_mean genv red G p) = length (M p)" if "p \<in> set (concat grps)" for p
    using it length_whole_mean [OF W] numel [OF that] that W by (auto simp: iteration_ok_def)
  have rel: "released cenv off" using it by (simp add: iteration_ok_def)
  obtain t r where t: "backward_pass ?env (map (\<lambda>p. (p, G (g_rank genv) p)) ps) g = Inr t" "flush_pending_rs ?env t = Inr r"
      "pending_rs r = None" "grads_hold (g_rank genv) ?n grps (whole_mean genv red G) (grad_bufs r 0)"
      "pass_start genv (concat grps) (zero_grad True (zero_elem oenv) grps (r\<lparr>micro_step_id := 0\<rparr>))" "buf_switch r = 0"
    using iteration_pass [OF env _ _ _ it] st by blast
  let ?s = "s\<lparr>fp32_grad_bufs := grad_bufs r\<rparr>"
  have "zopt_ok ?n ?s" "all_in_set 0 ?s" "fp16_groups (lay ?s) = grps" "sub_group_to_group_id (lay ?s) = gids"
      "master_holds (g_rank genv) ?n grps (M, E) ?s" "fp32_grad_bufs ?s 0 = grad_bufs r 0"
    unfolding with_bufs using st by simp_all
  then obtain s' where s': "step_loop oenv ?s = Inr s'" "zopt_ok ?n s'" "all_in_set 0 s'" "fp16_groups (lay s') = grps"
      "sub_group_to_group_id (lay s') = gids" "master_holds (g_rank genv) ?n grps (M', E') s'" "shards_hold genv oenv grps M' s'"
    using step_on_shards [OF _ _ ew _ _ _ _ gl new, of ?s "g_rank genv"] t(4) unfolding shards_hold_def by metis
  obtain off1 where off1: "on_coord True Inr off = Inr off1" "released cenv off1" using coord_made_released [OF rel] by blast
  obtain off' where off': "partition_all_parameters cenv off1 = Inr off'" using partition_all_released [OF off1(2)] by blast
  have "flush_pending_rs ?env (r\<lparr>micro_step_id := 0\<rparr>) = Inr (r\<lparr>micro_step_id := 0\<rparr>)" using t(3) by (simp add: flush_pending_rs_def)
  then have "zero_step ?env cenv oenv (off, t, s) = Inr (off', r\<lparr>micro_step_id := 0\<rparr>, s')"
    using t(2) off1(1) off' s'(1) by (simp add: zero_step_def zero_partition_all_def pre_step_def)
  then have "zero_iteration cenv oenv genv (off, rs, map (\<lambda>p. (p, G (g_rank genv) p)) ps) (g, s)
      = Inr (zero_grad True (zero_elem oenv) grps (r\<lparr>micro_step_id := 0\<rparr>), s')"
    using t(1) s'(4) by (simp add: zero_iteration_def)
  moreover have "rank_state genv grps gids (M', E') (zero_grad True (zero_elem oenv) grps (r\<lparr>micro_step_id := 0\<rparr>), s')"
    using s' t(4-6) by (simp add: rank_state_def grads_hold_def zero_grad_None)
  ultimately show ?thesis using s'(7) by blast
qed

section \<open>Training\<close>

definition with_grads_of :: "(nat \<Rightarrow> 'a list) \<Rightarrow> 'o \<times> 'r \<times> nat list \<Rightarrow> 'o \<times> 'r \<times> (nat \<times> 'a list) list" where
  "with_grads_of g it = (case it of (off, rs, ps) \<Rightarrow> (off, rs, map (\<lambda>p. (p, g p)) ps))"

lemma whole_step_lengths: "length (fst (whole_step f grp G ME) p) = length (fst ME p)"
  by (simp add: whole_step_def split: prod.split)

lemma whole_run_lengths: "length (fst (fold (whole_step f grp) Gs ME) p) = length (fst ME p)"
  by (induction Gs arbitrary: ME) (simp_all add: whole_step_lengths)

lemma rank_run:
  assumes env: "rank_env f genv oenv grps" and st: "rank_state genv grps gids ME gs"
    and it: "\<And>k. k < N \<Longrightarrow> iteration_ok cenv genv grps red (u k) (G k) (its k)"
    and numel: "\<And>p. p \<in> set (concat grps) \<Longrightarrow> g_numel genv p = length (fst ME p)"
    and new: "ME' = fold (whole_step f (settings_of (g_part genv) grps gids)) (map (\<lambda>k. whole_mean genv red (G k)) [0..<N]) ME"
  shows "\<exists>g s. foldE (zero_iteration cenv oenv genv) (map (\<lambda>k. with_grads_of (G k (g_rank genv)) (its k)) [0..<N]) gs = Inr (g, s)
    \<and> rank_state genv grps gids ME' (g, s) \<and> (0 < N \<longrightarrow> shards_hold genv oenv grps (fst ME') s)"
  using it new
proof (induction N arbitrary: ME')
  case 0
  then show ?case using st by (cases gs) simp
next
  case (Suc N)
  let ?step = "whole_step f (settings_of (g_part genv) grps gids)"
  define ME1 where "ME1 = fold ?step (map (\<lambda>k. whole_mean genv red (G k)) [0..<N]) ME"
  obtain g s where gs: "foldE (zero_iteration cenv oenv genv) (map (\<lambda>k. with_grads_of (G k (g_rank genv)) (its k)) [0..<N]) gs = Inr (g, s)"
      "rank_state genv grps gids ME1 (g, s)"
    using Suc.IH [OF _ ME1_def] Suc.prems(1) by auto
  obtain M1 E1 where ME1: "ME1 = (M1, E1)" by (cases ME1)
  obtain M2 E2 where ME2: "ME' = (M2, E2)" by (cases ME')
  obtain off rs ps where itN: "its N = (off, rs, ps)" by (metis prod_cases3)
  have num: "g_numel genv p = length (M1 p)" if "p \<in> set (concat grps)" for p
    using numel [OF that] whole_run_lengths [of f "settings_of (g_part genv) grps gids" "map (\<lambda>k. whole_mean genv red (G k)) [0..<N]" ME p]
    unfolding ME1_def [symmetric] ME1 by simp
  have new: "(M2, E2) = ?step (whole_mean genv red (G N)) (M1, E1)"
    using Suc.prems(2) ME1_def ME1 ME2 by simp
  obtain g' s' where "zero_iteration cenv oenv genv (off, rs, map (\<lambda>p. (p, G N (g_rank genv) p)) ps) (g, s) = Inr (g', s')"
      "rank_state genv grps gids (M2, E2) (g', s')" "shards_hold genv oenv grps M2 s'"
    using rank_iteration [OF env gs(2) [unfolded ME1] Suc.prems(1) [of N, unfolded itN, OF lessI] num new] by blast
  then show ?case using gs(1) itN ME2 by (simp add: foldE_append with_grads_of_def)
qed

lemma shards_hold_ok:
  assumes "direct_env genv" and "p \<in> set (concat grps)" and "shards_hold genv oenv grps M s" and "g_numel genv p = length (M p)"
  shows "shard_ok (g_world genv) (g_rank genv) (map (cvt oenv (model_dtype oenv)) (M p)) (read_shard (lay s) p)"
proof -
  have W: "0 < g_world genv" and part: "g_part genv p = ceil_div (length (M p)) (g_world genv)"
    using assms(1,4) by (auto simp: direct_env_def)
  have sh: "length (read_shard (lay s) p) = g_part genv p"
      "\<And>x. x < g_part genv p \<Longrightarrow> g_rank genv * g_part genv p + x < length (M p) \<Longrightarrow>
        read_shard (lay s) p ! x = cvt oenv (model_dtype oenv) (M p ! (g_rank genv * g_part genv p + x))"
    using assms(2,3) unfolding shards_hold_def by blast+
  have "take (length (M p) - g_rank genv * g_part genv p) (read_shard (lay s) p)
      = block (g_part genv p) (g_rank genv) (map (cvt oenv (model_dtype oenv)) (M p))"
    by (rule nth_equalityI) (use sh in \<open>auto simp: block_def\<close>)
  then show ?thesis using sh(1) by (simp add: shard_ok_def shard_size_ceil [OF W] part [symmetric])
qed

text \<open>
  Training on \<open>W\<close> ranks is Adam on the whole parameters. In every iteration each rank computes
  gradients of its own, in any order and number of buckets, and takes its step on its shards. From
  ranks that hold the parts of masters \<open>M\<close> and moments \<open>E\<close>, no rank fails, and after \<open>N\<close> iterations
  they hold the parts of what \<open>N\<close> steps of Adam, on the means over the ranks of the gradients, make of
  them; the 16-bit shards are the ones of the rounded masters, ready to be gathered.
\<close>

theorem ranks_train:
  assumes "\<And>r. r < W \<Longrightarrow> rank_env f (genv r) oenv grps \<and> g_world (genv r) = W \<and> g_rank (genv r) = r
      \<and> g_numel (genv r) = numel \<and> g_dv (genv r) = dv"
    and "\<And>r. r < W \<Longrightarrow> rank_state (genv r) grps gids ME (st r)"
    and "\<And>r k. r < W \<Longrightarrow> k < N \<Longrightarrow> iteration_ok (cenv r) (genv r) grps red (u k) (G k) (its r k)"
    and "\<And>p. p \<in> set (concat grps) \<Longrightarrow> numel p = length (fst ME p)"
    and "ME' = fold (whole_step f (settings_of (\<lambda>p. ceil_div (numel p) W) grps gids))
        (map (\<lambda>k p. map (cvt oenv Float32) (mean_grad red dv (map (\<lambda>q. G k q p) [0..<W]))) [0..<N]) ME"
  shows "\<forall>r < W. \<exists>g s.
      foldE (zero_iteration (cenv r) oenv (genv r)) (map (\<lambda>k. with_grads_of (G k r) (its r k)) [0..<N]) (st r) = Inr (g, s)
      \<and> rank_state (genv r) grps gids ME' (g, s)
      \<and> (0 < N \<longrightarrow> (\<forall>p \<in> set (concat grps).
            shard_ok W r (map (cvt oenv (model_dtype oenv)) (fst ME' p)) (read_shard (lay s) p)))"
proof (intro allI impI)
  fix r assume r: "r < W"
  note env = assms(1) [OF r]
  have part: "g_part (genv r) = (\<lambda>p. ceil_div (numel p) W)" and mean: "\<And>k. whole_mean (genv r) red (G k)
      = (\<lambda>p. map (cvt oenv Float32) (mean_grad red dv (map (\<lambda>q. G k q p) [0..<W])))"
    and dir: "direct_env (genv r)"
    using env by (simp_all add: rank_env_def direct_env_def whole_mean_def [abs_def] fun_eq_iff [of "g_part (genv r)"])
  have num: "g_numel (genv r) p = length (fst ME p)" if "p \<in> set (concat grps)" for p using env assms(4) [OF that] by simp
  have re: "rank_env f (genv r) oenv grps" using env by blast
  have it: "iteration_ok (cenv r) (genv r) grps red (u k) (G k) (its r k)" if "k < N" for k by (rule assms(3) [OF r that])
  have new: "ME' = fold (whole_step f (settings_of (g_part (genv r)) grps gids)) (map (\<lambda>k. whole_mean (genv r) red (G k)) [0..<N]) ME"
    unfolding part mean by (rule assms(5))
  obtain g s where gs: "foldE (zero_iteration (cenv r) oenv (genv r)) (map (\<lambda>k. with_grads_of (G k (g_rank (genv r))) (its r k)) [0..<N]) (st r) = Inr (g, s)"
      "rank_state (genv r) grps gids ME' (g, s)" "0 < N \<longrightarrow> shards_hold (genv r) oenv grps (fst ME') s"
    using rank_run [where its = "its r" and cenv = "cenv r" and N = N, OF re assms(2) [OF r] it num new] by blast
  have "shard_ok W r (map (cvt oenv (model_dtype oenv)) (fst ME' p)) (read_shard (lay s) p)"
    if "0 < N" "p \<in> set (concat grps)" for p
    using shards_hold_ok [OF dir that(2)] gs(3) that num [OF that(2)] env whole_run_lengths [of f _ _ ME p] assms(5) by metis
  then show "\<exists>g s. foldE (zero_iteration (cenv r) oenv (genv r)) (map (\<lambda>k. with_grads_of (G k r) (its r k)) [0..<N]) (st r) = Inr (g, s)
      \<and> rank_state (genv r) grps gids ME' (g, s)
      \<and> (0 < N \<longrightarrow> (\<forall>p \<in> set (concat grps). shard_ok W r (map (cvt oenv (model_dtype oenv)) (fst ME' p)) (read_shard (lay s) p)))"
    using gs(1,2) env by auto
qed

text \<open>
  Shards like these are what a gather needs: it gives every rank the rounded masters, whole.
\<close>

theorem updated_shards_gathered:
  assumes "rank < W" and "distinct ids" "ids \<noteq> []"
    and "\<And>p r. p \<in> set ids \<Longrightarrow> r < W \<Longrightarrow> shard_ok W r (map (cvt oenv dt) (M p)) (read_shard (lay (s r)) p)"
    and "\<And>p. p \<in> set ids \<Longrightarrow> ds_tensor (h p) = Some (read_shard (lay (s rank)) p) \<and> ds_numel (h p) = length (M p)
      \<and> prod_list (ds_shape (h p)) = length (M p) \<and> ds_status (h p) = NOT_AVAILABLE \<and> M p \<noteq> [] \<and> pdtype (h p) = dt"
    and "cast dt = id" and "gathers W rank ag (Min (set ids)) (\<lambda>r. concat (map (read_shard (lay (s r))) (sort ids)))"
  shows "\<exists>h1 hdl h2 hdl'. all_gather_coalesced W u ag cast False ids h = Inr (h1, hdl) \<and> handle_wait W hdl h1 = Inr (h2, hdl')
    \<and> (\<forall>p \<in> set ids. ds_status (h2 p) = AVAILABLE \<and> pdata (h2 p) = map (cvt oenv dt) (M p))"
proof -
  have "holds_shards W rank (\<lambda>p. map (cvt oenv dt) (M p)) (\<lambda>r. read_shard (lay (s r))) h (set ids)"
    using assms(1,4,5) by (simp add: holds_shards_def)
  moreover have "ds_status (h p) = NOT_AVAILABLE \<and> map (cvt oenv dt) (M p) \<noteq> [] \<and> pdtype (h p) = dt" if "p \<in> set ids" for p
    using assms(5) [OF that] by simp
  ultimately obtain hdl hdl' where g: "all_gather_coalesced W u ag cast False ids h = Inr (launched u ids h, hdl)"
      "handle_wait W hdl (launched u ids h) = Inr (gathered (\<lambda>p. map (cvt oenv dt) (M p)) ids h, hdl')"
    using all_gather_any [where full = "\<lambda>p. map (cvt oenv dt) (M p)" and S = "\<lambda>r. read_shard (lay (s r))" and W = W and rank = rank
        and h = h and dt = dt and cast = cast and ag = ag and ids = ids] assms(2,3,6,7) by blast
  then show ?thesis by (fastforce simp: gathered_def materialised_def)
qed

end
