(* ===== verification/ZeroInit.thy ===== *)
theory ZeroInit
  imports ZeroStep
begin

text \<open>
  The constructor of \<^verbatim>\<open>src/smartnic_offload/zero_optimizer.py\<close>: the layout, the master weights, the
  gradient buffers and the places of the gradients, and what it establishes: the state from which
  \<open>ZeroStep\<close> starts. The parameters are partitioned already and have no gradients.

  The shards occur twice: as the storage the layout is built over, and as the tensors of the heap of
  parameters, from which the constructor gathers; the layout moves the storage and keeps the values.
\<close>

section \<open>Operations\<close>

text \<open>
  \<^verbatim>\<open>_setup_for_real_optimizer\<close>: \<open>s\<close> has the layout; the places of the gradients go to the environment.
  Without contiguous gradients there is no buffer of the bucket.
\<close>

definition placed :: "nat list list \<Rightarrow> 'a genv \<Rightarrow> 'a genv" where
  "placed grps genv =
     genv\<lparr>g_offset := \<lambda>p. the (grad_offsets (g_part genv) 0 (concat grps) (\<lambda>_. None) p),
       g_position := \<lambda>p. the (set_grad_positions (g_part genv) grps p)\<rparr>"

definition setup_for_real_optimizer ::
  "('a, 'st) oenv \<Rightarrow> (nat \<Rightarrow> 'a) \<Rightarrow> 'a comch_world \<Rightarrow> 'a genv \<Rightarrow> ('a, 'st) zopt \<Rightarrow> 'a genv \<times> 'a ipg \<times> ('a, 'st) zopt" where
  "setup_for_real_optimizer oenv u w genv s =
     (let s1 = initialize_optimizer_states oenv (create_fp32_partitions oenv s);
          all_params = concat (fp16_groups (lay s1));
          flat = (if contiguous_gradients genv then fresh u (reduce_bucket_size genv) else []);
          offsets = grad_offsets (g_part genv) 0 all_params (\<lambda>_. None)
      in (genv\<lparr>g_offset := \<lambda>p. the (offsets p)\<rparr>,
          \<lparr>params_in_ipg_bucket = [], ipg_bucket_flat = flat, grad = (\<lambda>_. None), pending_rs = None,
           grad_partitions_flat = replicate (total_numel (g_part genv) all_params) (zero_elem oenv), grad_bufs = fp32_grad_bufs s1,
           buf_switch = 0, micro_step_id = 0, accumulation_boundary = True, params_already_reduced = (\<lambda>_. False), gworld = w\<rparr>, s1))"

text \<open>
  \<^verbatim>\<open>create_reduce_and_remove_grad_hooks\<close>: every parameter is gathered, so that autograd has a node to
  register the hook at, and released again. \<open>h\<close> is the heap of the parameters; the hook itself is
  \<open>reduce_ready_partitions\<close>.
\<close>

definition create_reduce_and_remove_grad_hooks :: "'a cenv \<Rightarrow> nat list list \<Rightarrow> 'a heap \<Rightarrow> 'a heap result" where
  "create_reduce_and_remove_grad_hooks cenv groups h =
     foldE (foldE (\<lambda>p h.
       if requires_grad (h p)
       then ebind (all_gather_sync (c_world cenv) (c_fresh cenv) (c_gather cenv) (\<lambda>_. True) [p] h)
              (partition_list (c_world cenv) (c_rank cenv) (c_fresh cenv) False [p])
       else Inr h)) groups h"

text \<open>
  \<^verbatim>\<open>__init__\<close>: the type of the first parameter is read first, the largest shard is looked for after the
  layout has been made. The gradients go to the shared 32-bit buffers, which both records name.
\<close>

definition zero_init ::
  "'a cenv \<Rightarrow> ('a, 'st) oenv \<Rightarrow> 'a genv \<Rightarrow> (nat \<Rightarrow> nat) \<Rightarrow> bool \<Rightarrow> (nat \<Rightarrow> nat \<Rightarrow> 'a) \<Rightarrow> nat option \<Rightarrow> nat list list \<Rightarrow> (nat \<Rightarrow> 'a storage) \<Rightarrow> 'st
     \<Rightarrow> 'a comch_world \<Rightarrow> 'a heap \<Rightarrow> ('a genv \<times> 'a ipg \<times> ('a, 'st) zopt \<times> 'a heap) result" where
  "zero_init cenv oenv genv padding last_rank u sub_group_size groups sh st w h =
     (if groups = [] \<or> hd groups = [] then Inl IndexError
      else ebind (create_fp16_partitions (g_part genv) padding last_rank False (u 0) sub_group_size groups (empty_layout sh)) (\<lambda>l.
        if fp16_groups l = [] \<or> [] \<in> set (fp16_groups l) then Inl (ValueError ''max'')
        else case setup_for_real_optimizer oenv (u 1) w genv
               \<lparr>lay = l, fp32_partitioned_groups_flat = [], fp32_grad_bufs = \<lambda>_. [], grad_of = \<lambda>_. None, opt_params = groups, opt_state = st\<rparr>
             of (genv1, g, s) \<Rightarrow>
               ebind (create_reduce_and_remove_grad_hooks cenv (fp16_groups (lay s)) h) (\<lambda>h1.
               Inr (genv1\<lparr>g_position := \<lambda>p. the (set_grad_positions (g_part genv) (fp16_groups (lay s)) p)\<rparr>, g, s, h1))))"

section \<open>What the constructor establishes\<close>

lemma concat_shards_nth:
  "i < length ps \<Longrightarrow> (\<And>p. p \<in> set ps \<Longrightarrow> length (v p) = n p) \<Longrightarrow> x < n (ps ! i)
    \<Longrightarrow> concat (map v ps) ! (total_numel n (take i ps) + x) = v (ps ! i) ! x"
proof (induction ps arbitrary: i)
  case (Cons p ps)
  then show ?case by (cases i) (simp_all add: nth_append add.assoc)
qed simp

lemma shard_ok_nth:
  assumes "shard_ok W r full t" and "0 < W" and "x < ceil_div (length full) W" and "r * ceil_div (length full) W + x < length full"
  shows "t ! x = full ! (r * ceil_div (length full) W + x)"
proof -
  let ?k = "ceil_div (length full) W"
  have "take (length full - r * ?k) t = block ?k r full" "length t = ?k"
    using assms(1) by (simp_all add: shard_ok_def shard_size_ceil [OF assms(2)])
  moreover have "x < length full - r * ?k" using assms(4) by simp
  ultimately have "t ! x = block ?k r full ! x" by (metis nth_take)
  then show ?thesis using assms(3,4) by (simp add: block_def)
qed

text \<open>The master weights before the first step are the parts of the converted parameters.\<close>

lemma converted_holds:
  assumes dist: "distinct (concat grps)" and W: "0 < W" and n: "\<And>p. p \<in> set (concat grps) \<Longrightarrow> n p = ceil_div (length (H p)) W"
    and v: "\<And>p. p \<in> set (concat grps) \<Longrightarrow> shard_ok W r (H p) (v p)"
    and s: "fp32_partitioned_groups_flat s = map (\<lambda>ps. map c (concat (map v ps))) grps" "opt_state s = (\<lambda>_ _. e)"
  shows "master_holds r n grps (\<lambda>p. map c (H p), \<lambda>_ _. e) s"
  unfolding master_holds_def fst_conv snd_conv
proof
  fix p assume p: "p \<in> set (concat grps)"
  obtain k i where ki: "k < length grps" "i < length (grps ! k)" "grps ! k ! i = p"
      "set_grad_positions n grps p = Some (k, total_numel n (take i (grps ! k)), n p)"
      "total_numel n (take i (grps ! k)) + n p \<le> total_numel n (grps ! k)"
    using shard_place [OF dist p] by blast
  let ?ps = "grps ! k" and ?o = "total_numel n (take i (grps ! k))"
  have lv: "length (v q) = n q" if "q \<in> set ?ps" for q
  proof -
    have "q \<in> set (concat grps)" using that nth_mem [OF ki(1)] by auto
    then show ?thesis using v [of q] n [of q] by (simp add: shard_ok_def shard_size_ceil [OF W])
  qed
  have total: "length (concat (map v ?ps)) = total_numel n ?ps"
    using lv by (simp add: length_concat o_def total_numel_def cong: map_cong)
  have "fp32_partitioned_groups_flat s ! k ! (?o + x) = map c (H p) ! (r * n p + x)"
    if x: "x < n p" "r * n p + x < length (H p)" for x
  proof -
    have "concat (map v ?ps) ! (?o + x) = v p ! x"
      using concat_shards_nth [where x = x, OF ki(2) lv] x(1) by (simp add: ki(3))
    also have "\<dots> = H p ! (r * n p + x)" using shard_ok_nth [OF v [OF p] W] x n [OF p] by simp
    finally show ?thesis using total ki(1,5) x by (simp add: s(1))
  qed
  then show "case the (set_grad_positions n grps p) of (k, start, _) \<Rightarrow> \<forall>x < n p. r * n p + x < length (map c (H p)) \<longrightarrow>
      fp32_partitioned_groups_flat s ! k ! (start + x) = map c (H p) ! (r * n p + x) \<and> opt_state s k (start + x) = e"
    by (simp add: ki(4) s(2))
qed

lemma zero_grads_hold:
  assumes dist: "distinct (concat grps)" and "\<And>p. p \<in> set (concat grps) \<Longrightarrow> length (G p) = length (H p)"
    and "\<And>p. G p = replicate (length (H p)) (zero_elem oenv)"
  shows "grads_hold r n grps G (zero_grads oenv n grps)"
proof -
  have "case the (set_grad_positions n grps p) of (k, start, _) \<Rightarrow>
      \<forall>x < n p. r * n p + x < length (G p) \<longrightarrow> zero_grads oenv n grps ! k ! (start + x) = G p ! (r * n p + x)"
    if p: "p \<in> set (concat grps)" for p
  proof -
    obtain k i where ki: "k < length grps" "set_grad_positions n grps p = Some (k, total_numel n (take i (grps ! k)), n p)"
        "total_numel n (take i (grps ! k)) + n p \<le> total_numel n (grps ! k)"
      using shard_place [OF dist p] by blast
    show ?thesis using ki(1,3) by (simp add: ki(2) zero_grads_def assms(3))
  qed
  then show ?thesis unfolding grads_hold_def by (simp add: zero_grads_def)
qed

lemma sub_groups_nonempty:
  assumes "ps \<noteq> []"
  shows "[] \<notin> set (create_fp16_sub_groups n sz ps) \<and> create_fp16_sub_groups n sz ps \<noteq> []"
proof -
  have "[] \<notin> set (sub_group_loop n m l qs sg k acc)" if "[] \<notin> set acc" for m l qs sg k acc
    using that by (induction qs arbitrary: sg k acc) simp_all
  moreover have "sub_group_loop n m (last ps) ps [] 0 [] \<noteq> []" for m
    using sub_group_loop_concat [of ps "[]" "last ps" n m 0 "[]"] assms by auto
  ultimately show ?thesis using assms by (simp add: create_fp16_sub_groups_def split: option.split)
qed

lemma created_layout:
  assumes "groups_ok n v sh groups"
  obtains l where "create_fp16_partitions n padding last_rank False u sz groups (empty_layout sh) = Inr l"
    and "fp16_groups l = concat (map (create_fp16_sub_groups n sz) groups)"
    and "sub_group_to_group_id l = group_ids (map (create_fp16_sub_groups n sz) groups)"
    and "concat (fp16_groups l) = concat groups" and "[] \<notin> set (fp16_groups l)"
proof -
  obtain l where l: "create_fp16_partitions n padding last_rank False u sz groups (empty_layout sh) = Inr l"
      "fp16_groups l = concat (map (create_fp16_sub_groups n sz) groups)"
      "sub_group_to_group_id l = group_ids (map (create_fp16_sub_groups n sz) groups)"
    using create_layout [OF assms] by blast
  have "map (\<lambda>ps. concat (create_fp16_sub_groups n sz ps)) groups = groups"
    using groups_unmoved(2) [OF assms] by (intro nth_equalityI) simp_all
  then have "concat (fp16_groups l) = concat groups" by (simp add: l(2) concat_concat_map)
  moreover have "[] \<notin> set (create_fp16_sub_groups n sz ps)" if "ps \<in> set groups" for ps
    using assms that sub_groups_nonempty [of ps n sz] by (auto simp: groups_ok_def)
  then have "[] \<notin> set (fp16_groups l)" by (auto simp: l(2))
  ultimately show thesis by (rule that [OF l])
qed

text \<open>The gradients of a pass fit into the buffers the constructor makes.\<close>

lemma new_buffers_fit:
  assumes dist: "distinct (concat grps)" and p: "p \<in> set (concat grps)"
    and env: "g_offset env p = the (grad_offsets (g_part env) 0 (concat grps) (\<lambda>_. None) p)"
      "g_position env p = the (set_grad_positions (g_part env) grps p)"
    and g: "grad_bufs g (buf_switch g) = zero_grads oenv (g_part env) grps"
      "length (grad_partitions_flat g) = total_numel (g_part env) (concat grps)"
  shows "fits env g p"
proof -
  obtain k i where ki: "k < length grps" "set_grad_positions (g_part env) grps p = Some (k, total_numel (g_part env) (take i (grps ! k)), g_part env p)"
      "total_numel (g_part env) (take i (grps ! k)) + g_part env p \<le> total_numel (g_part env) (grps ! k)"
    using shard_place [OF dist p] by blast
  obtain j where j: "j < length (concat grps)" "concat grps ! j = p" using p by (metis in_set_conv_nth)
  have "g_offset env p = total_numel (g_part env) (take j (concat grps))"
    using grad_offsets_nth [OF dist j(1), of "g_part env" 0 "\<lambda>_. None"] by (simp add: env(1) j(2))
  then have "g_offset env p + g_part env p \<le> total_numel (g_part env) (concat grps)"
    using total_numel_take [OF j(1), of "g_part env"] by (simp add: j(2))
  then show ?thesis using ki(1,3) by (simp add: fits_def env(2) ki(2) g zero_grads_def)
qed

text \<open>A parameter that is released and holds its shard is as before after a gather and a release.\<close>

definition released_shards :: "'a cenv \<Rightarrow> nat \<Rightarrow> nat \<Rightarrow> (nat \<Rightarrow> 'a list) \<Rightarrow> (nat \<Rightarrow> nat \<Rightarrow> 'a list) \<Rightarrow> 'a heap \<Rightarrow> nat set \<Rightarrow> bool" where
  "released_shards cenv W r H S h P \<longleftrightarrow> c_world cenv = W \<and> c_rank cenv = r \<and> holds_shards W r H S h P
     \<and> (\<forall>p \<in> P. ds_status (h p) = NOT_AVAILABLE \<and> pdata (h p) = [] \<and> active_sub_modules (h p) = {}
          \<and> gathers W r (c_gather cenv) p (\<lambda>q. S q p))"

lemma gather_release_one:
  assumes "released_shards cenv W r H S h P" and "p \<in> P"
  shows "ebind (all_gather_sync (c_world cenv) u (c_gather cenv) dn [p] h) (partition_list (c_world cenv) (c_rank cenv) u' False [p]) = Inr h"
proof -
  have h: "holds_shards W r H S h {p}" and st: "ds_status (h p) = NOT_AVAILABLE" "pdata (h p) = []" "active_sub_modules (h p) = {}"
      "gathers W r (c_gather cenv) p (\<lambda>q. S q p)" and W: "c_world cenv = W" "c_rank cenv = r"
    using assms by (auto simp: released_shards_def holds_shards_def)
  have "all_gather_sync W u (c_gather cenv) dn [p] h = Inr (h(p := materialised H h p))"
    by (rule all_gather_sync_one [OF h st(1,4)])
  moreover have "(h p)\<lparr>pdata := [], ds_status := NOT_AVAILABLE\<rparr> = h p" "(h p)\<lparr>ds_status := NOT_AVAILABLE\<rparr> = h p"
    using st(1,2) by (cases "h p"; simp)+
  then have "partition_list W r u' False [p] (h(p := materialised H h p)) = Inr h"
    using h st(3) by (simp add: partition_list_def partition_one_def partition_param_def free_param_def holds_shards_def materialised_def)
  ultimately show ?thesis by (simp add: W)
qed

lemma hooks_created:
  assumes "released_shards cenv W r H S h (set (concat groups))"
  shows "create_reduce_and_remove_grad_hooks cenv groups h = Inr h"
proof -
  have one: "foldE (\<lambda>p h. if requires_grad (h p) then ebind (all_gather_sync (c_world cenv) (c_fresh cenv) (c_gather cenv) (\<lambda>_. True) [p] h)
      (partition_list (c_world cenv) (c_rank cenv) (c_fresh cenv) False [p]) else Inr h) ps h = Inr h"
    if "set ps \<subseteq> set (concat groups)" for ps
    using that by (induction ps) (use gather_release_one [OF assms] in auto)
  have "foldE (foldE (\<lambda>p h. if requires_grad (h p) then ebind (all_gather_sync (c_world cenv) (c_fresh cenv) (c_gather cenv) (\<lambda>_. True) [p] h)
      (partition_list (c_world cenv) (c_rank cenv) (c_fresh cenv) False [p]) else Inr h)) gs h = Inr h" if "set gs \<subseteq> set groups" for gs
    using that
  proof (induction gs)
    case (Cons ps gs)
    have "set ps \<subseteq> set (concat groups)" using Cons.prems by auto
    then show ?case using one [of ps] Cons by simp
  qed simp
  then show ?thesis by (simp add: create_reduce_and_remove_grad_hooks_def)
qed

text \<open>
  The constructor makes the state training starts from: the masters and moments are the rank's part of
  one step of Adam, with gradients of zero, on the whole parameters converted to 32 bits.
\<close>

lemma constructor_ready:
  assumes env: "direct_env genv" "0 < reduce_bucket_size genv" "contiguous_gradients genv" "g_cvt genv = cvt oenv" "elementwise f oenv"
    and ok: "groups \<noteq> []" "groups_ok (g_part genv) v sh groups"
    and H: "\<And>p. p \<in> set (concat groups) \<Longrightarrow> shard_ok (g_world genv) (g_rank genv) (H p) (v p) \<and> length (H p) = g_numel genv p"
    and grps: "grps = concat (map (create_fp16_sub_groups (g_part genv) sz) groups)"
      "gids = group_ids (map (create_fp16_sub_groups (g_part genv) sz) groups)"
    and ME: "ME = whole_step f (settings_of (g_part genv) grps gids) (\<lambda>p. replicate (length (H p)) (zero_elem oenv))
        (\<lambda>p. map (cvt oenv Float32) (H p), \<lambda>_ _. e)"
    and heap: "released_shards cenv W r H' S h (set (concat groups))"
  shows "\<exists>g s. zero_init cenv oenv genv padding last_rank u sz groups sh (\<lambda>_ _. e) w h = Inr (placed grps genv, g, s, h)
    \<and> rank_env f (placed grps genv) oenv grps \<and> rank_state (placed grps genv) grps gids ME (g, s) \<and> concat grps = concat groups"
proof -
  let ?n = "g_part genv"
  obtain l where l: "create_fp16_partitions ?n padding last_rank False (u 0) sz groups (empty_layout sh) = Inr l"
      "fp16_groups l = grps" "sub_group_to_group_id l = gids" "concat grps = concat groups" "[] \<notin> set grps"
    using created_layout [OF ok(2)] grps by metis
  have dist: "distinct (concat grps)" using ok(2) l(4) by (simp add: groups_ok_def)
  have first: "hd groups \<noteq> []" using ok hd_in_set [OF ok(1)] by (metis groups_ok_def)
  have ne: "grps \<noteq> []" using first ok(1) l(4) by (cases groups) auto
  let ?s0 = "\<lparr>lay = l, fp32_partitioned_groups_flat = [], fp32_grad_bufs = \<lambda>_. [], grad_of = \<lambda>_. None, opt_params = groups, opt_state = \<lambda>_ _. e\<rparr>"
  define s where "s = initialize_optimizer_states oenv (create_fp32_partitions oenv ?s0)"
  have kl: "keeps_length oenv" using env(5) by (simp add: elementwise_def)
  let ?ws = "map (\<lambda>ps. map (cvt oenv Float32) (concat (map v ps))) grps"
  have s: "zopt_ok ?n s" "all_in_set 0 s" "lay s = l" "fp32_grad_bufs s 0 = zero_grads oenv ?n grps"
      "(opt_state s, fp32_partitioned_groups_flat s) = adam_all oenv gids (\<lambda>_ _. e) ?ws (zero_grads oenv ?n grps)"
    using optimizer_setup [OF ok(2) kl l(1), of "\<lambda>_ _. e"] unfolding Let_def s_def [symmetric] l(2,3) by blast+
  have W: "0 < g_world genv" using env(1) by (auto simp: direct_env_def)
  have n: "?n p = ceil_div (length (H p)) (g_world genv)" if "p \<in> set (concat grps)" for p
    using env(1) H [of p] that l(4) by (simp add: direct_env_def)
  let ?s1 = "s\<lparr>fp32_partitioned_groups_flat := ?ws, opt_state := \<lambda>_ _. e\<rparr>"
  have lv: "length (v p) = ?n p" if "p \<in> set (concat grps)" for p
    using ok(2) that l(4) by (auto simp: groups_ok_def list_all_iff)
  have "length (concat (map v ps)) = total_numel ?n ps" if "ps \<in> set grps" for ps
  proof -
    have "length (v p) = ?n p" if "p \<in> set ps" for p using lv [of p] that \<open>ps \<in> set grps\<close> by auto
    then show ?thesis by (simp add: length_concat o_def total_numel_def cong: map_cong)
  qed
  then have ws: "map length ?ws = map (total_numel ?n) grps" by simp
  have masters: "master_holds (g_rank genv) ?n grps (\<lambda>p. map (cvt oenv Float32) (H p), \<lambda>_ _. e) ?s1"
    by (rule converted_holds [where v = v, OF dist W n]) (use H l(4) in simp_all)
  have zeros: "grads_hold (g_rank genv) ?n grps (\<lambda>p. replicate (length (H p)) (zero_elem oenv)) (zero_grads oenv ?n grps)"
    by (rule zero_grads_hold [OF dist]) simp_all
  obtain M E where ME': "ME = (M, E)" by (cases ME)
  have hold: "master_holds (g_rank genv) ?n grps ME s"
    unfolding ME' by (rule adam_all_holds [OF env(5) dist, of ?s1, OF _ _ masters zeros _ ME [unfolded ME']])
      (simp_all add: ws s(5) del: map_map)
  let ?env = "placed grps genv"
  let ?g = "\<lparr>params_in_ipg_bucket = [], ipg_bucket_flat = fresh (u 1) (reduce_bucket_size genv), grad = (\<lambda>_. None), pending_rs = None,
      grad_partitions_flat = replicate (total_numel ?n (concat grps)) (zero_elem oenv), grad_bufs = fp32_grad_bufs s,
      buf_switch = 0, micro_step_id = 0, accumulation_boundary = True, params_already_reduced = (\<lambda>_. False), gworld = w\<rparr>"
  have "create_reduce_and_remove_grad_hooks cenv grps h = Inr h"
    by (rule hooks_created) (use heap l(4) in simp)
  then have "zero_init cenv oenv genv padding last_rank u sz groups sh (\<lambda>_ _. e) w h = Inr (?env, ?g, s, h)"
    using ok(1) first ne l env(3) s(3)
    by (simp add: zero_init_def setup_for_real_optimizer_def placed_def s_def [symmetric] Let_def)
  moreover have "rank_env f ?env oenv grps"
    using env dist by (simp add: rank_env_def direct_env_def copies_grads_def placed_def)
  moreover have "fits ?env ?g p" if "p \<in> set (concat grps)" for p
    by (rule new_buffers_fit [OF dist that]) (simp_all add: s(4) placed_def)
  then have "pass_start ?env (concat grps) ?g" by (simp add: pass_start_def list_all_iff placed_def)
  then have "rank_state ?env grps gids ME (?g, s)"
    using s(1-3) l(2,3) hold s(4) by (simp add: rank_state_def zero_grads_def placed_def)
  ultimately show ?thesis by (intro exI [of _ ?g] exI [of _ s]) (simp add: l(4) del: One_nat_def)
qed

section \<open>Training from the start\<close>

lemma placed_fields [simp]:
  "g_world (placed grps genv) = g_world genv" "g_rank (placed grps genv) = g_rank genv" "g_numel (placed grps genv) = g_numel genv"
  "g_part (placed grps genv) = g_part genv" "g_dv (placed grps genv) = g_dv genv"
  by (simp_all add: placed_def)

text \<open>The constructor of one rank, in the terms all ranks share.\<close>

lemma rank_constructed:
  assumes "direct_env genv \<and> 0 < reduce_bucket_size genv \<and> contiguous_gradients genv
      \<and> g_cvt genv = cvt oenv \<and> g_world genv = W \<and> g_rank genv = r \<and> g_numel genv = numel \<and> g_dv genv = dv"
    and "elementwise f oenv" and "groups \<noteq> []" and "groups_ok (\<lambda>p. ceil_div (numel p) W) v sh groups"
    and "\<And>p. p \<in> set (concat groups) \<Longrightarrow> shard_ok W r (H p) (v p) \<and> length (H p) = numel p"
    and "grps = concat (map (create_fp16_sub_groups (\<lambda>p. ceil_div (numel p) W) sz) groups)"
    and "ME0 = whole_step f (settings_of (\<lambda>p. ceil_div (numel p) W) grps (group_ids (map (create_fp16_sub_groups (\<lambda>p. ceil_div (numel p) W) sz) groups)))
        (\<lambda>p. replicate (length (H p)) (zero_elem oenv)) (\<lambda>p. map (cvt oenv Float32) (H p), \<lambda>_ _. e)"
    and "released_shards cenv W r H S h (set (concat groups))"
  shows "\<exists>g s. zero_init cenv oenv genv padding last_rank u sz groups sh (\<lambda>_ _. e) w h = Inr (placed grps genv, g, s, h)
    \<and> rank_env f (placed grps genv) oenv grps
    \<and> rank_state (placed grps genv) grps (group_ids (map (create_fp16_sub_groups (\<lambda>p. ceil_div (numel p) W) sz) groups)) ME0 (g, s)
    \<and> concat grps = concat groups"
proof -
  have e: "direct_env genv" "0 < reduce_bucket_size genv" "contiguous_gradients genv" "g_cvt genv = cvt oenv"
      "g_world genv = W" "g_rank genv = r" "g_numel genv = numel"
    using assms(1) by blast+
  have n: "g_part genv = (\<lambda>p. ceil_div (numel p) W)" using e(1,5,7) by (simp add: direct_env_def fun_eq_iff)
  show ?thesis
    using constructor_ready [where genv = genv and f = f and H = H and v = v, unfolded n e(5-7), OF e(1-4) assms(2-6) refl assms(7,8)]
    by blast
qed


section \<open>Example\<close>

text \<open>
  Two ranks, two iterations, parameters of 3 and 2 elements, so that the second rank's shard of the
  first has an element of padding; momentum instead of Adam, and a 16-bit format that drops the last
  digit.
\<close>

definition train_numel :: "nat \<Rightarrow> nat" where
  "train_numel p = (if p = 0 then 3 else 2)"

definition train_H :: "nat \<Rightarrow> int list" where
  "train_H p = (if p = 0 then [100, 200, 300] else [400, 500])"

definition train_v :: "nat \<Rightarrow> nat \<Rightarrow> int list" where
  "train_v r p = (if p = 0 then if r = 0 then [100, 200] else [300, 9] else if r = 0 then [400] else [500])"

definition train_G :: "nat \<Rightarrow> nat \<Rightarrow> nat \<Rightarrow> int list" where
  "train_G k r p = map (\<lambda>j. 2 * int (k + r + p + j)) [0..<train_numel p]"

definition train_cvt :: "dtype \<Rightarrow> int \<Rightarrow> int" where
  "train_cvt dt x = (if dt = Float32 then x else 10 * (x div 10))"

definition train_genv :: "nat \<Rightarrow> int genv" where
  "train_genv r = demo_genv\<lparr>g_rank := r, g_numel := train_numel, g_part := \<lambda>p. ceil_div (train_numel p) 2, g_cvt := train_cvt\<rparr>"

definition train_update :: "nat \<Rightarrow> int \<Rightarrow> int \<Rightarrow> int \<Rightarrow> int \<times> int" where
  "train_update g e w d = (e + d, w - (e + d))"

definition train_oenv :: "(int, nat \<Rightarrow> nat \<Rightarrow> int) oenv" where
  "train_oenv = \<lparr>cvt = train_cvt, model_dtype = Float16, zero_elem = 0,
     adam = (\<lambda>g k st w d. (st(k := \<lambda>j. if j < length w then fst (train_update g (st k j) (w ! j) (d ! j)) else st k j),
        map (\<lambda>j. snd (train_update g (st k j) (w ! j) (d ! j))) [0..<length w]))\<rparr>"

definition train_heap :: "nat \<Rightarrow> int heap" where
  "train_heap r p = (convert_to_deepspeed_param [train_numel p] Float16 True (train_H p))\<lparr>ds_status := NOT_AVAILABLE, pdata := [],
     ds_tensor := Some (train_v r p)\<rparr>"

definition train_offload :: "int offload" where
  "train_offload = \<lparr>o_heap = train_heap 0,
     o_coords = (\<lambda>_. None), o_mods = (\<lambda>_. \<lparr>training = True, timing_call_counter = 0, fwd_call_stack = [], active_fwd_call = None,
     bwd_active_call = None, last_bwd_pre_call = None, pre_backward_ref_cnt = 0, ds_grads_remaining = 0, external_params = []\<rparr>),
     o_stack = [0], o_root = 0, o_bucket = 3, o_reuse = 0, o_avail = 100, next_ptr = 0\<rparr>"

definition train_cenv :: "nat \<Rightarrow> int cenv" where
  "train_cenv r = \<lparr>c_world = 2, c_rank = r, c_fresh = (\<lambda>_. 9), c_gather = (\<lambda>p x. train_v 0 p @ train_v 1 p), c_cast = (\<lambda>_ x. x), c_full_transfer = False,
     c_params = (\<lambda>m. [m]), c_all_params = [0, 1], c_set_order = remdups, c_event_done = (\<lambda>_ _. True), c_from_rank0 = id\<rparr>"

definition train_it :: "nat \<Rightarrow> nat \<Rightarrow> int offload \<times> (int \<Rightarrow> int list \<Rightarrow> int list) \<times> nat list" where
  "train_it r k = (train_offload,
     \<lambda>cid x. scatter_block sum_list (length x div 2) r (all_inputs 2 (\<lambda>n x. x div int n) (\<lambda>_ _ _ _. 7) (train_G k) [0, 1]), [1, 0])"

lemma train_two: "(r :: nat) < 2 \<longleftrightarrow> r = 0 \<or> r = 1"
  by auto

lemma train_env_ok:
  "r < 2 \<Longrightarrow> direct_env (train_genv r) \<and> 0 < reduce_bucket_size (train_genv r) \<and> contiguous_gradients (train_genv r)
    \<and> g_cvt (train_genv r) = cvt train_oenv \<and> g_world (train_genv r) = 2 \<and> g_rank (train_genv r) = r
    \<and> g_numel (train_genv r) = train_numel \<and> g_dv (train_genv r) = (\<lambda>n x. x div int n)"
  by (auto simp: direct_env_def copies_grads_def train_genv_def demo_genv_def quiet_env_def train_oenv_def)

lemma train_elementwise: "elementwise train_update train_oenv"
  by (simp add: elementwise_def keeps_length_def train_oenv_def)

lemma train_shards:
  "r < 2 \<Longrightarrow> groups_ok (\<lambda>p. ceil_div (train_numel p) 2) (train_v r) (\<lambda>p. Own (train_v r p)) [[0, 1]]"
  "r < 2 \<Longrightarrow> p \<in> set (concat [[0, 1]]) \<Longrightarrow> shard_ok 2 r (train_H p) (train_v r p) \<and> length (train_H p) = train_numel p"
  unfolding train_two
  by (auto simp: groups_ok_def train_v_def train_H_def train_numel_def shard_ok_def shard_size_ceil block_def ceil_div_def)

lemma train_released: "r < 2 \<Longrightarrow> released_shards (train_cenv r) 2 r train_H train_v (train_heap r) (set (concat [[0, 1]]))"
  unfolding train_two using train_shards(2) [unfolded train_two]
  by (auto simp: released_shards_def holds_shards_def train_two train_cenv_def train_heap_def convert_to_deepspeed_param_def gathers_def
      train_H_def train_v_def train_numel_def upt_rec shard_ok_def shard_size_ceil block_def ceil_div_def)

text \<open>One sub-group.\<close>

lemma train_groups: "concat (map (create_fp16_sub_groups (\<lambda>p. ceil_div (train_numel p) 2) None) [[0, 1]]) = [[0, 1]]"
  by (simp add: create_fp16_sub_groups_def)

definition train_delivers :: "nat \<Rightarrow> nat \<Rightarrow> bool" where
  "train_delivers r k = (case train_it r k of (off, rs, ps) \<Rightarrow>
     let env = (placed [[0, 1]] (train_genv r))\<lparr>g_rs := rs\<rparr> in
     list_all (\<lambda>c. consecutive env (sort c) \<and> delivers env sum_list (\<lambda>_ _ _ _. 7) (train_G k) (sort c)) (buckets_of env [] ps))"

lemma train_it_ok:
  assumes "r < 2" "k < 2"
  shows "iteration_ok (train_cenv r) (placed [[0, 1]] (train_genv r)) [[0, 1]] sum_list (\<lambda>_ _ _ _. 7) (train_G k) (train_it r k)"
proof -
  have "released (train_cenv r) train_offload"
    by (simp add: released_def iter_env_def train_cenv_def train_offload_def get_param_coordinator_def init_coord_def train_heap_def)
  moreover have "length (train_G k q p) = g_numel (placed [[0, 1]] (train_genv r)) p" for q p
    by (simp add: train_G_def train_genv_def)
  moreover have "list_all (\<lambda>r. list_all (train_delivers r) [0, 1]) [0, 1]" by code_simp
  then have "train_delivers r k" using assms unfolding train_two by auto
  moreover have "list_all (\<lambda>r. list_all (\<lambda>k. case train_it r k of (off, rs, ps) \<Rightarrow>
      race_free ((placed [[0, 1]] (train_genv r))\<lparr>g_rs := rs\<rparr>) ps) [0, 1]) [0, 1]" by code_simp
  then have "case train_it r k of (off, rs, ps) \<Rightarrow> race_free ((placed [[0, 1]] (train_genv r))\<lparr>g_rs := rs\<rparr>) ps"
    using assms unfolding train_two by auto
  ultimately show ?thesis
    by (auto simp: iteration_ok_def train_it_def train_delivers_def list_all_iff Let_def simp del: buckets_of.simps)
qed

definition train_result :: "(nat \<Rightarrow> int list) \<times> (nat \<Rightarrow> nat \<Rightarrow> int)" where
  "train_result =
     (let step = whole_step train_update (settings_of (\<lambda>p. ceil_div (train_numel p) 2) [[0, 1]]
            (group_ids (map (create_fp16_sub_groups (\<lambda>p. ceil_div (train_numel p) 2) None) [[0, 1]])))
      in fold step (map (\<lambda>k p. map (cvt train_oenv Float32) (mean_grad sum_list (\<lambda>n x. x div int n) (map (\<lambda>q. train_G k q p) [0..<2]))) [0..<2])
        (step (\<lambda>p. replicate (length (train_H p)) (zero_elem train_oenv)) (\<lambda>p. map (cvt train_oenv Float32) (train_H p), \<lambda>_ _. 0)))"

lemma train_result_value: "fst train_result 0 = [95, 189, 283] \<and> fst train_result 1 = [389, 483]"
  by (simp add: train_result_def whole_step_def train_update_def mean_grad_def train_G_def train_numel_def train_H_def train_oenv_def
      train_cvt_def upt_rec numeral_2_eq_2 numeral_3_eq_3)


end
