(* ===== verification/ModuleInit.thy ===== *)
theory ModuleInit
  imports Params
begin

text \<open>
  The initialisation context: the classes \<^verbatim>\<open>InsertPostInitMethodToModuleSubClasses\<close> and \<^verbatim>\<open>Init\<close> of
  \<^verbatim>\<open>src/smartnic_offload/partition_parameters.py\<close>.

  While a model is built inside the context, the \<^verbatim>\<open>__init__\<close> of every subclass of \<^verbatim>\<open>Module\<close> is wrapped,
  so that the parameters of a module are converted and partitioned once its construction is
  complete. Classes are numbers, class 0 is \<^verbatim>\<open>Module\<close>; \<open>mro c\<close> is the method resolution order of
  class \<open>c\<close>, which starts with \<open>c\<close>. Python's set of all subclasses has no order of its own: the
  order in which the loops visit it is an argument.
\<close>

section \<open>Entering and leaving the context\<close>

datatype init_fn = OrigInit nat | PartitionAfter init_fn

datatype hook_fn = OrigHook | InjectingHook

datatype apply_fn = OrigApply | ApplyWithGather apply_fn

datatype new_fn = OrigNew | NewForDtype dtype

record init_ctx =
  class_init :: "nat \<rightharpoonup> init_fn"
  class_old_init :: "nat \<rightharpoonup> init_fn"
  subclasses :: "nat \<Rightarrow> nat list"
  mro :: "nat \<Rightarrow> nat list"
  zero_init_enabled :: bool
  init_subclass :: hook_fn
  old_init_subclass :: "hook_fn option"
  module_apply :: apply_fn
  old_apply :: "apply_fn option"
  tensor_new :: new_fn
  old_new :: "new_fn option"
  tensor_ctors :: new_fn

text \<open>Attribute lookup along the resolution order.\<close>

fun lookup_attr :: "(nat \<rightharpoonup> 'f) \<Rightarrow> nat list \<Rightarrow> 'f option" where
  "lookup_attr d [] = None"
| "lookup_attr d (c # cs) = (case d c of Some f \<Rightarrow> Some f | None \<Rightarrow> lookup_attr d cs)"

text \<open>The recursion over \<^verbatim>\<open>__subclasses__()\<close>; its depth is at most the number of classes.\<close>

fun get_all_subclasses :: "nat \<Rightarrow> (nat \<Rightarrow> nat list) \<Rightarrow> nat \<Rightarrow> nat list" where
  "get_all_subclasses 0 subs c = []"
| "get_all_subclasses (Suc n) subs c = concat (map (\<lambda>d. d # get_all_subclasses n subs d) (subs c))"

definition enable_class :: "nat \<Rightarrow> init_ctx \<Rightarrow> init_ctx result" where
  "enable_class c s =
     (case lookup_attr (class_init s) (mro s c) of
        None \<Rightarrow> Inl AttributeError
      | Some f \<Rightarrow> Inr (s\<lparr>class_old_init := (class_old_init s)(c \<mapsto> f), class_init := (class_init s)(c \<mapsto> PartitionAfter f)\<rparr>))"

definition enter_context :: "bool \<Rightarrow> dtype option \<Rightarrow> nat list \<Rightarrow> init_ctx \<Rightarrow> init_ctx result" where
  "enter_context enabled dt order s =
     (if \<not> enabled then Inr s
      else
        let d = (case dt of None \<Rightarrow> Float32 | Some d \<Rightarrow> d) in
        ebind (foldE enable_class order (s\<lparr>zero_init_enabled := True\<rparr>)) (\<lambda>s1.
          Inr (s1\<lparr>old_init_subclass := Some (init_subclass s1), old_apply := Some (module_apply s1), old_new := Some (tensor_new s1),
                 init_subclass := InjectingHook, module_apply := ApplyWithGather (module_apply s1),
                 tensor_new := NewForDtype d, tensor_ctors := NewForDtype d\<rparr>)))"

text \<open>A class statement: \<open>own\<close> says whether the body defines \<^verbatim>\<open>__init__\<close>, \<open>base\<close> is the direct base.\<close>

definition define_class :: "nat \<Rightarrow> nat \<Rightarrow> bool \<Rightarrow> init_ctx \<Rightarrow> init_ctx" where
  "define_class c base own s =
     (let s1 = s\<lparr>subclasses := (subclasses s)(base := subclasses s base @ [c]), mro := (mro s)(c := c # mro s base),
                 class_init := (class_init s)(c := if own then Some (OrigInit c) else None)\<rparr> in
      case init_subclass s1 of
        OrigHook \<Rightarrow> s1
      | InjectingHook \<Rightarrow> s1\<lparr>class_init := (class_init s1)(c := map_option PartitionAfter (lookup_attr (class_init s1) (mro s1 c)))\<rparr>)"

definition disable_class :: "nat \<Rightarrow> init_ctx \<Rightarrow> init_ctx result" where
  "disable_class c s =
     (case lookup_attr (class_old_init s) (mro s c) of
        None \<Rightarrow> Inl AttributeError
      | Some f \<Rightarrow> Inr (s\<lparr>class_init := (class_init s)(c \<mapsto> f)\<rparr>))"

definition shutdown_init_context :: "nat list \<Rightarrow> init_ctx \<Rightarrow> init_ctx result" where
  "shutdown_init_context order s =
     (if \<not> zero_init_enabled s then Inr s
      else
        ebind (foldE disable_class order s) (\<lambda>s1.
          case (old_init_subclass s1, old_apply s1, old_new s1) of
            (Some h, Some a, Some n) \<Rightarrow>
              Inr (s1\<lparr>init_subclass := h, module_apply := a, tensor_new := n, tensor_ctors := OrigNew, zero_init_enabled := False\<rparr>)
          | _ \<Rightarrow> Inl AttributeError))"

definition exit_context :: "bool \<Rightarrow> nat list \<Rightarrow> init_ctx \<Rightarrow> init_ctx result" where
  "exit_context enabled order s = (if \<not> enabled then Inr s else shutdown_init_context order s)"

section \<open>Tensor constructors\<close>

record tensor_desc =
  on_device :: "string option"
  floating :: bool
  t_dtype :: dtype

definition cast_floating :: "dtype \<Rightarrow> tensor_desc \<Rightarrow> tensor_desc" where
  "cast_floating target t = (if floating t then t\<lparr>t_dtype := target\<rparr> else t)"

text \<open>A call of a wrapped constructor: \<open>fn\<close> gives the tensor for the device it is called with.\<close>

definition fp_tensor_constructor :: "string \<Rightarrow> (string \<Rightarrow> tensor_desc) \<Rightarrow> dtype \<Rightarrow> string option \<Rightarrow> tensor_desc" where
  "fp_tensor_constructor local_rank fn target device =
     cast_floating target (fn (case device of None \<Rightarrow> ''cuda:'' @ local_rank | Some d \<Rightarrow> d))"

definition new_tensor_for_dtype :: "string \<Rightarrow> (string \<Rightarrow> tensor_desc) \<Rightarrow> dtype \<Rightarrow> tensor_desc" where
  "new_tensor_for_dtype local_rank new_empty target = cast_floating target (new_empty (''cuda:'' @ local_rank))"

section \<open>Construction of a module\<close>

text \<open>
  What a call of an initialiser does: parameters it creates, the initialiser of the base it calls
  on the same object, and modules it constructs. \<open>After\<close> is the wrapper of \<^verbatim>\<open>partition_after\<close>.
\<close>

datatype init_call = Body "init_act list" | After init_call
  and init_act = NewParam nat | SuperInit init_call | NewModule nat init_call

datatype init_event = EvParam nat nat | EvPostInit nat

record build =
  child_entered :: "nat set"
  build_log :: "init_event list"

fun run_call :: "nat \<Rightarrow> init_call \<Rightarrow> build \<Rightarrow> build"
  and run_acts :: "nat \<Rightarrow> init_act list \<Rightarrow> build \<Rightarrow> build"
  and run_act :: "nat \<Rightarrow> init_act \<Rightarrow> build \<Rightarrow> build"
where
  "run_call m (Body acts) s = run_acts m acts s"
| "run_call m (After f) s =
     (if m \<in> child_entered s then run_call m f s
      else
        let s1 = run_call m f (s\<lparr>child_entered := insert m (child_entered s)\<rparr>) in
        s1\<lparr>child_entered := child_entered s1 - {m}, build_log := build_log s1 @ [EvPostInit m]\<rparr>)"
| "run_acts m [] s = s"
| "run_acts m (a # as) s = run_acts m as (run_act m a s)"
| "run_act m (NewParam p) s = s\<lparr>build_log := build_log s @ [EvParam m p]\<rparr>"
| "run_act m (SuperInit f) s = run_call m f s"
| "run_act m (NewModule c f) s = run_call c f s"

section \<open>Conversion of the parameters\<close>

text \<open>A parameter object before and after conversion: its id once it has one.\<close>

record 'a raw =
  raw_shape :: "nat list"
  raw_dtype :: dtype
  raw_grad :: bool
  raw_value :: "'a list"
  raw_cuda :: bool

record 'a zinit =
  zheap :: "'a heap"
  next_param_id :: nat
  param_count :: nat
  id_of :: "nat \<rightharpoonup> nat"
  id_info :: "nat \<rightharpoonup> nat list \<times> nat \<times> dtype"

definition is_zero_param :: "nat \<Rightarrow> 'a zinit \<Rightarrow> bool" where
  "is_zero_param p s \<longleftrightarrow> id_of s p \<noteq> None"

definition convert_param :: "(nat \<Rightarrow> 'a raw) \<Rightarrow> nat \<Rightarrow> 'a zinit \<Rightarrow> 'a zinit" where
  "convert_param raws p s =
     (let r = raws p; i = next_param_id s in
      s\<lparr>zheap := (zheap s)(i := convert_to_deepspeed_param (raw_shape r) (raw_dtype r) (raw_grad r) (raw_value r)),
        next_param_id := i + 1, id_of := (id_of s)(p \<mapsto> i),
        id_info := (if id_info s i = None then (id_info s)(i \<mapsto> (raw_shape r, length (raw_value r), raw_dtype r)) else id_info s)\<rparr>)"

definition partition_converted :: "nat \<Rightarrow> nat \<Rightarrow> (nat \<Rightarrow> 'a) \<Rightarrow> nat \<Rightarrow> 'a zinit \<Rightarrow> 'a zinit result" where
  "partition_converted W rank u p s =
     (case id_of s p of
        None \<Rightarrow> Inl AttributeError
      | Some i \<Rightarrow> ebind (partition_one W rank u False i (zheap s)) (\<lambda>h. Inr (s\<lparr>zheap := h\<rparr>)))"

definition convert_to_zero_parameters :: "nat \<Rightarrow> nat \<Rightarrow> (nat \<Rightarrow> 'a) \<Rightarrow> (nat \<Rightarrow> 'a raw) \<Rightarrow> nat list \<Rightarrow> 'a zinit \<Rightarrow> 'a zinit result" where
  "convert_to_zero_parameters W rank u raws param_list s =
     foldE (\<lambda>p s. if is_zero_param p s then Inr s else partition_converted W rank u p (convert_param raws p s)) param_list s"

text \<open>\<open>root p\<close> is the value of \<open>p\<close> on rank 0, which a broadcast gives every rank.\<close>

definition broadcast_param :: "(nat \<Rightarrow> 'a list) \<Rightarrow> nat \<Rightarrow> 'a zinit \<Rightarrow> 'a zinit" where
  "broadcast_param root p s =
     (case id_of s p of None \<Rightarrow> s | Some i \<Rightarrow> s\<lparr>zheap := (zheap s)(i := (zheap s i)\<lparr>pdata := root p\<rparr>)\<rparr>)"

definition post_init_param :: "nat \<Rightarrow> nat \<Rightarrow> (nat \<Rightarrow> 'a) \<Rightarrow> (nat \<Rightarrow> 'a list) \<Rightarrow> (nat \<Rightarrow> 'a raw) \<Rightarrow> nat \<Rightarrow> 'a zinit \<Rightarrow> 'a zinit result" where
  "post_init_param W rank u root raws p s =
     (let s1 = s\<lparr>param_count := param_count s + (case id_of s p of None \<Rightarrow> length (raw_value (raws p)) | Some i \<Rightarrow> length (pdata (zheap s i)))\<rparr> in
      if is_zero_param p s1 then Inr s1
      else
        let s2 = convert_param raws p s1;
            s3 = (if raw_cuda (raws p) then broadcast_param root p s2 else s2)
        in partition_converted W rank u p s3)"

definition post_init_method :: "nat \<Rightarrow> nat \<Rightarrow> (nat \<Rightarrow> 'a) \<Rightarrow> (nat \<Rightarrow> 'a list) \<Rightarrow> (nat \<Rightarrow> 'a raw) \<Rightarrow> nat list \<Rightarrow> 'a zinit \<Rightarrow> 'a zinit result" where
  "post_init_method W rank u root raws params s = foldE (post_init_param W rank u root raws) params s"

section \<open>The context restores what it replaces\<close>

definition own_inits :: "nat list \<Rightarrow> init_ctx \<Rightarrow> bool" where
  "own_inits order s \<longleftrightarrow> list_all (\<lambda>c. class_init s c \<noteq> None \<and> mro s c \<noteq> [] \<and> hd (mro s c) = c) order"

lemma enable_all:
  assumes "distinct order" and "own_inits order s"
  shows "foldE enable_class order s = Inr (s\<lparr>
     class_old_init := (\<lambda>c. if c \<in> set order then class_init s c else class_old_init s c),
     class_init := (\<lambda>c. if c \<in> set order then map_option PartitionAfter (class_init s c) else class_init s c)\<rparr>)"
  using assms
proof (induction order arbitrary: s)
  case Nil
  then show ?case by simp
next
  case (Cons c order)
  obtain f where f: "class_init s c = Some f" using Cons.prems by (auto simp: own_inits_def)
  obtain ms where ms: "mro s c = c # ms" using Cons.prems by (cases "mro s c") (auto simp: own_inits_def)
  let ?s = "s\<lparr>class_old_init := (class_old_init s)(c \<mapsto> f), class_init := (class_init s)(c \<mapsto> PartitionAfter f)\<rparr>"
  have "own_inits order ?s" using Cons.prems by (auto simp: own_inits_def list_all_iff)
  then show ?case using Cons.IH [of ?s] Cons.prems(1)
    by (auto simp: enable_class_def f ms fun_eq_iff intro!: init_ctx.equality)
qed

lemma disable_all:
  assumes "list_all (\<lambda>c. class_old_init s c \<noteq> None \<and> mro s c \<noteq> [] \<and> hd (mro s c) = c) order"
  shows "foldE disable_class order s = Inr (s\<lparr>class_init := (\<lambda>c. if c \<in> set order then class_old_init s c else class_init s c)\<rparr>)"
  using assms
proof (induction order arbitrary: s)
  case Nil
  then show ?case by simp
next
  case (Cons c order)
  obtain f where f: "class_old_init s c = Some f" using Cons.prems by auto
  obtain ms where ms: "mro s c = c # ms" using Cons.prems by (cases "mro s c") auto
  show ?case using Cons.IH [of "s\<lparr>class_init := (class_init s)(c \<mapsto> f)\<rparr>"] Cons.prems
    by (auto simp: disable_class_def f ms fun_eq_iff intro!: init_ctx.equality)
qed

text \<open>
  C28. If every subclass of \<^verbatim>\<open>Module\<close> defines its own \<^verbatim>\<open>__init__\<close>, each of them is wrapped exactly once
  inside the context, in whatever order the set of classes is visited, and leaving it brings back
  every initialiser, the hook for new classes, \<^verbatim>\<open>Module.apply\<close> and the tensor constructors.
\<close>

theorem context_restores:
  assumes "distinct order" and "set order' = set order" and "own_inits order s" and "tensor_ctors s = OrigNew"
  shows "\<exists>s1 t. enter_context True dt order s = Inr s1 \<and> exit_context True order' s1 = Inr t
    \<and> list_all (\<lambda>c. lookup_attr (class_init s1) (mro s1 c) = map_option PartitionAfter (lookup_attr (class_init s) (mro s c))) order
    \<and> class_init t = class_init s \<and> init_subclass t = init_subclass s \<and> module_apply t = module_apply s
    \<and> tensor_new t = tensor_new s \<and> tensor_ctors t = tensor_ctors s \<and> \<not> zero_init_enabled t"
proof -
  let ?e = "s\<lparr>zero_init_enabled := True,
     class_old_init := (\<lambda>c. if c \<in> set order then class_init s c else class_old_init s c),
     class_init := (\<lambda>c. if c \<in> set order then map_option PartitionAfter (class_init s c) else class_init s c)\<rparr>"
  let ?s1 = "?e\<lparr>old_init_subclass := Some (init_subclass s), old_apply := Some (module_apply s), old_new := Some (tensor_new s),
     init_subclass := InjectingHook, module_apply := ApplyWithGather (module_apply s),
     tensor_new := NewForDtype (case dt of None \<Rightarrow> Float32 | Some d \<Rightarrow> d), tensor_ctors := NewForDtype (case dt of None \<Rightarrow> Float32 | Some d \<Rightarrow> d)\<rparr>"
  have own: "own_inits order (s\<lparr>zero_init_enabled := True\<rparr>)" using assms(3) by (simp add: own_inits_def)
  have enter: "enter_context True dt order s = Inr ?s1"
    using enable_all [OF assms(1) own] by (simp add: enter_context_def Let_def cong: if_cong)
  have old: "list_all (\<lambda>c. class_old_init ?s1 c \<noteq> None \<and> mro ?s1 c \<noteq> [] \<and> hd (mro ?s1 c) = c) order'"
    using assms(2,3) by (auto simp: own_inits_def list_all_iff)
  let ?t = "?s1\<lparr>class_init := (\<lambda>c. if c \<in> set order' then class_old_init ?s1 c else class_init ?s1 c),
     init_subclass := init_subclass s, module_apply := module_apply s, tensor_new := tensor_new s, tensor_ctors := OrigNew,
     zero_init_enabled := False\<rparr>"
  have exit: "exit_context True order' ?s1 = Inr ?t"
    unfolding exit_context_def shutdown_init_context_def disable_all [OF old] by simp
  have wrapped: "lookup_attr (class_init ?s1) (mro ?s1 c) = map_option PartitionAfter (lookup_attr (class_init s) (mro s c))"
    if "c \<in> set order" for c
    using assms(3) that by (cases "mro s c") (auto simp: own_inits_def list_all_iff)
  have "class_init ?t = class_init s" using assms(2) by (simp add: fun_eq_iff)
  moreover have "list_all (\<lambda>c. lookup_attr (class_init ?s1) (mro ?s1 c) = map_option PartitionAfter (lookup_attr (class_init s) (mro s c))) order"
    using wrapped unfolding list_all_iff by blast
  moreover have "init_subclass ?t = init_subclass s \<and> module_apply ?t = module_apply s \<and> tensor_new ?t = tensor_new s
      \<and> tensor_ctors ?t = tensor_ctors s \<and> \<not> zero_init_enabled ?t"
    using assms(4) by simp
  ultimately show ?thesis using enter exit by blast
qed

lemma enable_frame:
  "foldE enable_class cs s = Inr t \<Longrightarrow> mro t = mro s \<and> (\<forall>c. c \<notin> set cs \<longrightarrow> class_init t c = class_init s c \<and> class_old_init t c = class_old_init s c)"
proof (induction cs arbitrary: s)
  case (Cons c cs)
  then obtain f where f: "lookup_attr (class_init s) (mro s c) = Some f" by (auto simp: enable_class_def split: option.splits)
  let ?s = "s\<lparr>class_old_init := (class_old_init s)(c \<mapsto> f), class_init := (class_init s)(c \<mapsto> PartitionAfter f)\<rparr>"
  have "enable_class c s = Inr ?s" by (simp add: enable_class_def f)
  then have "foldE enable_class cs ?s = Inr t" using Cons.prems by simp
  from Cons.IH [OF this] show ?case by auto
qed simp

lemma disable_frame:
  "foldE disable_class cs s = Inr t \<Longrightarrow> mro t = mro s \<and> class_old_init t = class_old_init s
    \<and> (\<forall>c. class_init t c = (if c \<in> set cs then lookup_attr (class_old_init s) (mro s c) else class_init s c))"
proof (induction cs arbitrary: s)
  case (Cons c cs)
  then obtain f where f: "lookup_attr (class_old_init s) (mro s c) = Some f" by (auto simp: disable_class_def split: option.splits)
  have "disable_class c s = Inr (s\<lparr>class_init := (class_init s)(c \<mapsto> f)\<rparr>)" by (simp add: disable_class_def f)
  then have "foldE disable_class cs (s\<lparr>class_init := (class_init s)(c \<mapsto> f)\<rparr>) = Inr t" using Cons.prems by simp
  from Cons.IH [OF this] show ?case using f by auto
qed simp

lemma enter_fields:
  assumes "enter_context True dt order s = Inr s1"
  shows "\<exists>e. foldE enable_class order (s\<lparr>zero_init_enabled := True\<rparr>) = Inr e \<and> class_init s1 = class_init e \<and> class_old_init s1 = class_old_init e
    \<and> mro s1 = mro e \<and> init_subclass s1 = InjectingHook \<and> zero_init_enabled s1"
proof -
  obtain e where e: "foldE enable_class order (s\<lparr>zero_init_enabled := True\<rparr>) = Inr e"
    using assms by (auto simp: enter_context_def Let_def ebind_eq_Inr_iff)
  have "zero_init_enabled e" using e
  proof (rule foldE_invariant)
    show "zero_init_enabled (s\<lparr>zero_init_enabled := True\<rparr>)" by simp
  qed (auto simp: enable_class_def split: option.splits)
  then show ?thesis using assms e by (auto simp: enter_context_def Let_def)
qed

lemma exit_fields:
  assumes "exit_context True order s1 = Inr t" and "zero_init_enabled s1"
  shows "\<exists>e. foldE disable_class order s1 = Inr e \<and> class_init t = class_init e \<and> mro t = mro e"
proof -
  obtain e where e: "foldE disable_class order s1 = Inr e"
    using assms by (auto simp: exit_context_def shutdown_init_context_def ebind_eq_Inr_iff)
  then show ?thesis using assms
    by (cases "old_init_subclass e"; cases "old_apply e"; cases "old_new e")
      (auto simp: exit_context_def shutdown_init_context_def)
qed

text \<open>
  A class without \<^verbatim>\<open>__init__\<close> of its own that is visited after its base keeps the wrapper for ever:
  what is saved for it is the base's initialiser as already wrapped. Constructing such a module
  after the context has been left still converts and partitions its parameters.
\<close>

theorem inherited_init_stays_wrapped:
  assumes "enter_context True dt (xs @ p # ys @ c # zs) s = Inr s1" and "exit_context True order' s1 = Inr t"
    and "distinct (xs @ p # ys @ c # zs)" and "c \<in> set order'"
    and "mro s c = c # p # ms" and "mro s p = p # ms" and "class_init s c = None" and "class_init s p = Some f"
  shows "lookup_attr (class_init t) (mro t c) = Some (PartitionAfter f)"
proof -
  obtain e where e: "foldE enable_class (xs @ p # ys @ c # zs) (s\<lparr>zero_init_enabled := True\<rparr>) = Inr e"
      "class_init s1 = class_init e" "class_old_init s1 = class_old_init e" "mro s1 = mro e" "zero_init_enabled s1"
    using enter_fields [OF assms(1)] by blast
  obtain a where a: "foldE enable_class xs (s\<lparr>zero_init_enabled := True\<rparr>) = Inr a" "foldE enable_class (p # ys @ c # zs) a = Inr e"
    using e(1) by (auto simp: foldE_append ebind_eq_Inr_iff)
  have fa: "mro a = mro s" "class_init a p = Some f" "class_init a c = None"
    using enable_frame [OF a(1)] assms(3,7,8) by auto
  let ?b = "a\<lparr>class_old_init := (class_old_init a)(p \<mapsto> f), class_init := (class_init a)(p \<mapsto> PartitionAfter f)\<rparr>"
  have "enable_class p a = Inr ?b" by (simp add: enable_class_def fa assms(6))
  then obtain d where d: "foldE enable_class ys ?b = Inr d" "foldE enable_class (c # zs) d = Inr e"
    using a(2) by (auto simp: foldE_append ebind_eq_Inr_iff)
  have fd: "mro d = mro s" "class_init d p = Some (PartitionAfter f)" "class_init d c = None"
    using enable_frame [OF d(1)] assms(3) fa by auto
  obtain g where g: "enable_class c d = Inr g" "foldE enable_class zs g = Inr e" using d(2) by (auto simp: ebind_eq_Inr_iff)
  have "class_old_init g c = Some (PartitionAfter f)" "mro g = mro s"
    using g(1) fd by (auto simp: enable_class_def assms(5))
  then have old: "class_old_init s1 c = Some (PartitionAfter f)" "mro s1 = mro s"
    using enable_frame [OF g(2)] assms(3) e(3,4) by auto
  obtain x where x: "foldE disable_class order' s1 = Inr x" "class_init t = class_init x" "mro t = mro x"
    using exit_fields [OF assms(2) e(5)] by blast
  show ?thesis using disable_frame [OF x(1)] x(2,3) old assms(4,5) by auto
qed

lemma disable_raises: "\<exists>c \<in> set cs. lookup_attr (class_old_init s) (mro s c) = None \<Longrightarrow> foldE disable_class cs s = Inl AttributeError"
proof (induction cs arbitrary: s)
  case (Cons c cs)
  show ?case
  proof (cases "lookup_attr (class_old_init s) (mro s c)")
    case (Some f)
    then have "\<exists>d \<in> set cs. lookup_attr (class_old_init s) (mro s d) = None" using Cons.prems by auto
    then show ?thesis using Cons.IH [of "s\<lparr>class_init := (class_init s)(c \<mapsto> f)\<rparr>"] Some by (simp add: disable_class_def)
  qed (simp add: disable_class_def)
qed simp

text \<open>
  A class defined inside the context has no saved initialiser of its own. If it derives directly
  from \<^verbatim>\<open>Module\<close>, leaving the context raises AttributeError; if it derives from a class that has a saved
  one, leaving the context replaces its own initialiser by the base's.
\<close>

theorem class_of_the_context:
  assumes "enter_context True dt order s = Inr s1" and "distinct order" and "own_inits order s"
    and "c \<notin> set order" and "class_old_init s c = None" and "c \<in> set order'"
  shows "(class_old_init s 0 = None \<longrightarrow> 0 \<notin> set order \<longrightarrow> mro s 0 = [0] \<longrightarrow> exit_context True order' (define_class c 0 own s1) = Inl AttributeError)
    \<and> (b \<in> set order \<longrightarrow> exit_context True order' (define_class c b own s1) = Inr t \<longrightarrow> class_init t c = class_init s b)"
proof -
  obtain e where e: "foldE enable_class order (s\<lparr>zero_init_enabled := True\<rparr>) = Inr e" "class_init s1 = class_init e"
      "class_old_init s1 = class_old_init e" "mro s1 = mro e" "init_subclass s1 = InjectingHook" "zero_init_enabled s1"
    using enter_fields [OF assms(1)] by blast
  have own: "own_inits order (s\<lparr>zero_init_enabled := True\<rparr>)" using assms(3) by (simp add: own_inits_def)
  have eq: "class_old_init s1 = (\<lambda>c. if c \<in> set order then class_init s c else class_old_init s c)" "mro s1 = mro s"
    using e enable_all [OF assms(2) own] by auto
  have def_fields: "class_old_init (define_class c b own s1) = class_old_init s1" "mro (define_class c b own s1) = (mro s1)(c := c # mro s1 b)"
      "zero_init_enabled (define_class c b own s1)" for b
    using e(5,6) by (simp_all add: define_class_def Let_def)
  have "exit_context True order' (define_class c 0 own s1) = Inl AttributeError"
    if "class_old_init s 0 = None" "0 \<notin> set order" "mro s 0 = [0]"
  proof -
    have "lookup_attr (class_old_init (define_class c 0 own s1)) (mro (define_class c 0 own s1) c) = None"
      using that assms(4,5) by (simp add: def_fields eq)
    then have "foldE disable_class order' (define_class c 0 own s1) = Inl AttributeError"
      using assms(6) by (intro disable_raises bexI [of _ c])
    then show ?thesis by (simp add: exit_context_def shutdown_init_context_def def_fields)
  qed
  moreover have "class_init t c = class_init s b" if b: "b \<in> set order" and ex: "exit_context True order' (define_class c b own s1) = Inr t"
  proof -
    obtain x where x: "foldE disable_class order' (define_class c b own s1) = Inr x" "class_init t = class_init x"
      using exit_fields [OF ex def_fields(3)] by blast
    obtain ms where ms: "mro s b = b # ms" using assms(3) b by (cases "mro s b") (auto simp: own_inits_def list_all_iff)
    obtain f where f: "class_init s b = Some f" using assms(3) b by (auto simp: own_inits_def list_all_iff)
    show ?thesis
      using disable_frame [OF x(1)] x(2) assms(4,5,6) b by (simp add: def_fields eq ms f)
  qed
  ultimately show ?thesis by blast
qed

section \<open>Conversion runs once, at the end\<close>

text \<open>
  The reference: a construction without wrappers, where every module is followed by its
  post-initialisation. \<open>call_ok\<close> says that the modules a call constructs are new objects of
  wrapped classes; a new object is not one of those under construction.
\<close>

fun ref_call :: "nat \<Rightarrow> init_call \<Rightarrow> init_event list"
  and ref_acts :: "nat \<Rightarrow> init_act list \<Rightarrow> init_event list"
  and ref_act :: "nat \<Rightarrow> init_act \<Rightarrow> init_event list"
where
  "ref_call m (Body acts) = ref_acts m acts"
| "ref_call m (After f) = ref_call m f"
| "ref_acts m [] = []"
| "ref_acts m (a # as) = ref_act m a @ ref_acts m as"
| "ref_act m (NewParam p) = [EvParam m p]"
| "ref_act m (SuperInit f) = ref_call m f"
| "ref_act m (NewModule c f) = ref_call c f @ [EvPostInit c]"

fun call_ok :: "nat set \<Rightarrow> init_call \<Rightarrow> bool"
  and acts_ok :: "nat set \<Rightarrow> init_act list \<Rightarrow> bool"
  and act_ok :: "nat set \<Rightarrow> init_act \<Rightarrow> bool"
where
  "call_ok E (Body acts) = acts_ok E acts"
| "call_ok E (After f) = call_ok E f"
| "acts_ok E [] = True"
| "acts_ok E (a # as) = (act_ok E a \<and> acts_ok E as)"
| "act_ok E (NewParam p) = True"
| "act_ok E (SuperInit f) = call_ok E f"
| "act_ok E (NewModule c f) = (c \<notin> E \<and> (case f of After _ \<Rightarrow> True | Body _ \<Rightarrow> False) \<and> call_ok (insert c E) f)"

lemma run_inside:
  "m \<in> child_entered s \<Longrightarrow> call_ok (child_entered s) f \<Longrightarrow> run_call m f s = s\<lparr>build_log := build_log s @ ref_call m f\<rparr>"
  "m \<in> child_entered s \<Longrightarrow> act_ok (child_entered s) a \<Longrightarrow> run_act m a s = s\<lparr>build_log := build_log s @ ref_act m a\<rparr>"
proof (induction f and a arbitrary: m s and m s)
  case (Body acts)
  have "run_acts m acts s = s\<lparr>build_log := build_log s @ ref_acts m acts\<rparr>"
    using Body by (induction acts arbitrary: s) simp_all
  then show ?case by simp
next
  case (NewModule c f)
  then obtain g where g: "f = After g" by (cases f) auto
  let ?s = "s\<lparr>child_entered := insert c (child_entered s)\<rparr>"
  have c: "c \<notin> child_entered s" "call_ok (insert c (child_entered s)) f" using NewModule.prems by simp_all
  have "run_call c f ?s = ?s\<lparr>build_log := build_log s @ ref_call c f\<rparr>"
    using NewModule.IH [of c ?s] c(2) by simp
  then show ?case using c(1) by (simp add: g Let_def)
qed simp_all

text \<open>
  C25. Constructing a module of a wrapped class, with any nesting of base initialisers, wrapped
  several times or not, and of submodules, does exactly what the construction without wrappers
  does, with the post-initialisation of each module once, directly after its own construction.
\<close>

theorem post_init_once:
  assumes "m \<notin> child_entered s" and "call_ok (insert m (child_entered s)) f"
  shows "run_call m (After f) s = s\<lparr>build_log := build_log s @ ref_call m f @ [EvPostInit m]\<rparr>"
proof -
  have "run_call m f (s\<lparr>child_entered := insert m (child_entered s)\<rparr>)
      = s\<lparr>child_entered := insert m (child_entered s), build_log := build_log s @ ref_call m f\<rparr>"
    using run_inside(1) [of m "s\<lparr>child_entered := insert m (child_entered s)\<rparr>" f] assms(2) by simp
  then show ?thesis using assms(1) by (simp add: Let_def)
qed

section \<open>What conversion leaves behind\<close>

lemma post_init_param_fresh:
  assumes "0 < W" and "id_of s p = None" and "length (root p) = length (raw_value (raws p))"
  shows "\<exists>t sh. post_init_param W rank u root raws p s = Inr t
    \<and> shard_ok W rank (if raw_cuda (raws p) then root p else raw_value (raws p)) sh
    \<and> (let q = zheap t (next_param_id s) in ds_tensor q = Some sh \<and> ds_status q = NOT_AVAILABLE \<and> pdata q = []
         \<and> ds_numel q = length (raw_value (raws p)))
    \<and> (\<forall>i. i \<noteq> next_param_id s \<longrightarrow> zheap t i = zheap s i) \<and> id_of t = (id_of s)(p \<mapsto> next_param_id s)
    \<and> next_param_id t = next_param_id s + 1 \<and> param_count t = param_count s + length (raw_value (raws p))"
proof -
  let ?v = "if raw_cuda (raws p) then root p else raw_value (raws p)"
  let ?q = "(convert_to_deepspeed_param (raw_shape (raws p)) (raw_dtype (raws p)) (raw_grad (raws p)) (raw_value (raws p)))\<lparr>pdata := ?v\<rparr>"
  have q: "ds_tensor ?q = None" "active_sub_modules ?q = {}" "length (pdata ?q) = ds_numel ?q" "pdata ?q = ?v"
    using assms(3) by (simp_all add: convert_to_deepspeed_param_def)
  obtain sh where sh: "partition_param W rank u False ?q = Inr (?q\<lparr>ds_tensor := Some sh, pdata := [], ds_status := NOT_AVAILABLE\<rparr>)"
      "shard_ok W rank ?v sh"
    using partition_param_fresh [OF assms(1) q(1,2,3), of rank u False] unfolding q(4) by blast
  have same: "convert_to_deepspeed_param a b c d\<lparr>pdata := d\<rparr> = convert_to_deepspeed_param a b c d" for a b c and d :: "'a list"
    by (simp add: convert_to_deepspeed_param_def)
  let ?i = "next_param_id s"
  define s1 where "s1 = convert_param raws p (s\<lparr>param_count := param_count s + length (raw_value (raws p))\<rparr>)"
  define s2 where "s2 = (if raw_cuda (raws p) then broadcast_param root p s1 else s1)"
  have s2: "id_of s2 = (id_of s)(p \<mapsto> ?i)" "zheap s2 = (zheap s)(?i := ?q)" "next_param_id s2 = ?i + 1"
      "param_count s2 = param_count s + length (raw_value (raws p))"
    by (auto simp: s2_def s1_def convert_param_def broadcast_param_def Let_def same)
  have "post_init_param W rank u root raws p s = partition_converted W rank u p s2"
    by (simp add: post_init_param_def is_zero_param_def assms(2) Let_def s1_def s2_def)
  also have "\<dots> = Inr (s2\<lparr>zheap := (zheap s)(?i := ?q\<lparr>ds_tensor := Some sh, pdata := [], ds_status := NOT_AVAILABLE\<rparr>)\<rparr>)"
    unfolding partition_converted_def s2(1,2) partition_one_def by (simp only: fun_upd_same option.case sh(1) ebind_Inr) simp
  finally show ?thesis using sh(2) s2
    by (intro exI [of _ "s2\<lparr>zheap := (zheap s)(?i := ?q\<lparr>ds_tensor := Some sh, pdata := [], ds_status := NOT_AVAILABLE\<rparr>)\<rparr>"] exI [of _ sh])
      (simp add: convert_to_deepspeed_param_def Let_def)
qed

text \<open>Parameter object \<open>p\<close> has id \<open>i\<close> and is partitioned.\<close>

definition initialised_as :: "nat \<Rightarrow> nat \<Rightarrow> (nat \<Rightarrow> 'a list) \<Rightarrow> (nat \<Rightarrow> 'a raw) \<Rightarrow> 'a zinit \<Rightarrow> nat \<Rightarrow> nat \<Rightarrow> bool" where
  "initialised_as W rank root raws t p i \<longleftrightarrow> id_of t p = Some i
     \<and> ds_status (zheap t i) = NOT_AVAILABLE \<and> pdata (zheap t i) = [] \<and> ds_numel (zheap t i) = length (raw_value (raws p))
     \<and> (case ds_tensor (zheap t i) of None \<Rightarrow> False
        | Some sh \<Rightarrow> shard_ok W rank (if raw_cuda (raws p) then root p else raw_value (raws p)) sh)"

lemma init_all:
  assumes "0 < W" and "distinct ps"
    and "\<And>p. p \<in> set ps \<Longrightarrow> id_of s p = None \<and> length (root p) = length (raw_value (raws p))"
  shows "\<exists>t. post_init_method W rank u root raws ps s = Inr t
    \<and> (\<forall>k < length ps. initialised_as W rank root raws t (ps ! k) (next_param_id s + k))
    \<and> (\<forall>i < next_param_id s. zheap t i = zheap s i) \<and> (\<forall>q. q \<notin> set ps \<longrightarrow> id_of t q = id_of s q)
    \<and> next_param_id t = next_param_id s + length ps
    \<and> param_count t = param_count s + (\<Sum>p \<leftarrow> ps. length (raw_value (raws p)))"
  using assms(2,3)
proof (induction ps rule: rev_induct)
  case Nil
  then show ?case by (simp add: post_init_method_def)
next
  case (snoc p ps)
  obtain t where t: "post_init_method W rank u root raws ps s = Inr t" "next_param_id t = next_param_id s + length ps"
    "param_count t = param_count s + (\<Sum>p \<leftarrow> ps. length (raw_value (raws p)))" "\<forall>i < next_param_id s. zheap t i = zheap s i"
    "\<forall>k < length ps. initialised_as W rank root raws t (ps ! k) (next_param_id s + k)" "\<forall>q. q \<notin> set ps \<longrightarrow> id_of t q = id_of s q"
    using snoc.IH snoc.prems by auto
  have new: "id_of t p = None" "length (root p) = length (raw_value (raws p))" "p \<notin> set ps"
    using snoc.prems t(6) by auto
  obtain t' sh where t': "post_init_param W rank u root raws p t = Inr t'"
      "shard_ok W rank (if raw_cuda (raws p) then root p else raw_value (raws p)) sh"
      "let q = zheap t' (next_param_id t) in ds_tensor q = Some sh \<and> ds_status q = NOT_AVAILABLE \<and> pdata q = []
         \<and> ds_numel q = length (raw_value (raws p))"
      "\<forall>i. i \<noteq> next_param_id t \<longrightarrow> zheap t' i = zheap t i" "id_of t' = (id_of t)(p \<mapsto> next_param_id t)"
      "next_param_id t' = next_param_id t + 1" "param_count t' = param_count t + length (raw_value (raws p))"
    using post_init_param_fresh [of W t p root raws rank u] assms(1) new(1,2) by blast
  have "initialised_as W rank root raws t' ((ps @ [p]) ! k) (next_param_id s + k)" if k: "k < length (ps @ [p])" for k
  proof (cases "k < length ps")
    case True
    then have "ps ! k \<noteq> p" using new(3) nth_mem by metis
    then show ?thesis using t(2,5) t'(4,5) True by (simp add: initialised_as_def nth_append)
  next
    case False
    then have "k = length ps" using k by simp
    then show ?thesis using t(2) t'(2,3,5) by (simp add: initialised_as_def nth_append Let_def)
  qed
  moreover have "post_init_method W rank u root raws (ps @ [p]) s = Inr t'"
    using t(1) t'(1) by (simp add: post_init_method_def foldE_append)
  ultimately show ?case using t t' by (intro exI [of _ t']) auto
qed

text \<open>
  C26. Post-initialisation gives the new parameters of a module consecutive ids and leaves each of
  them partitioned, this rank's shard holding its block of rank 0's value (of its own value for a
  parameter that is not on a GPU); no other parameter changes.
\<close>

theorem init_partitions:
  assumes "0 < W" and "distinct ps"
    and "\<And>p. p \<in> set ps \<Longrightarrow> id_of s p = None \<and> length (root p) = length (raw_value (raws p))"
  shows "\<exists>t. post_init_method W rank u root raws ps s = Inr t
    \<and> list_all (\<lambda>k. initialised_as W rank root raws t (ps ! k) (next_param_id s + k)) [0..<length ps]
    \<and> list_all (\<lambda>i. zheap t i = zheap s i) [0..<next_param_id s] \<and> next_param_id t = next_param_id s + length ps
    \<and> param_count t = param_count s + (\<Sum>p \<leftarrow> ps. length (raw_value (raws p)))"
  using init_all [OF assms, of rank u] by (auto simp: list_all_iff)

section \<open>Witnesses\<close>

text \<open>Class 1 derives from \<^verbatim>\<open>Module\<close>, class 2 from class 1; class 3 is to be defined inside the context.\<close>

definition demo_ctx :: "bool \<Rightarrow> init_ctx" where
  "demo_ctx own = \<lparr>class_init = [0 \<mapsto> OrigInit 0, 1 \<mapsto> OrigInit 1](2 := if own then Some (OrigInit 2) else None),
     class_old_init = Map.empty, subclasses = (\<lambda>c. if c = 0 then [1] else if c = 1 then [2] else []),
     mro = (\<lambda>c. if c = 0 then [0] else if c = 1 then [1, 0] else if c = 2 then [2, 1, 0] else []), zero_init_enabled = False,
     init_subclass = OrigHook, old_init_subclass = None, module_apply = OrigApply, old_apply = None,
     tensor_new = OrigNew, old_new = None, tensor_ctors = OrigNew\<rparr>"

lemma demo_subclasses: "get_all_subclasses 3 (subclasses (demo_ctx own)) 0 = [1, 2]"
  by (simp add: demo_ctx_def numeral_3_eq_3)

lemma demo_own: "own_inits [1, 2] (demo_ctx True)"
  by (simp add: own_inits_def demo_ctx_def)

theorem context_restores_witness:
  "\<exists>s1 t. enter_context True None [1, 2] (demo_ctx True) = Inr s1 \<and> exit_context True [2, 1] s1 = Inr t
    \<and> lookup_attr (class_init s1) [2, 1, 0] = Some (PartitionAfter (OrigInit 2)) \<and> class_init t = class_init (demo_ctx True)"
proof -
  obtain s1 t where st: "enter_context True None [1, 2] (demo_ctx True) = Inr s1" "exit_context True [2, 1] s1 = Inr t"
      "class_init t = class_init (demo_ctx True)"
    using context_restores [of "[1, 2]" "[2, 1]" "demo_ctx True" None] demo_own by (auto simp: demo_ctx_def)
  then show ?thesis
    by (auto simp: enter_context_def enable_class_def demo_ctx_def intro!: exI [of _ s1] exI [of _ t])
qed

theorem inherited_init_stays_wrapped_witness:
  "\<exists>s1 t. enter_context True None [1, 2] (demo_ctx False) = Inr s1 \<and> exit_context True [1, 2] s1 = Inr t
    \<and> lookup_attr (class_init t) (mro t 2) = Some (PartitionAfter (OrigInit 1))"
proof -
  obtain s1 where s1: "enter_context True None [1, 2] (demo_ctx False) = Inr s1"
    by (simp add: enter_context_def enable_class_def demo_ctx_def)
  obtain t where t: "exit_context True [1, 2] s1 = Inr t"
    using s1 by (auto simp: enter_context_def enable_class_def demo_ctx_def exit_context_def shutdown_init_context_def disable_class_def)
  have "lookup_attr (class_init t) (mro t 2) = Some (PartitionAfter (OrigInit 1))"
    using inherited_init_stays_wrapped [of None "[]" 1 "[]" 2 "[]" "demo_ctx False" s1 "[1, 2]" t "[0]" "OrigInit 1"] s1 t
    by (simp add: demo_ctx_def)
  then show ?thesis using s1 t by blast
qed

theorem class_of_the_context_witness:
  "\<exists>s1. enter_context True None [1, 2] (demo_ctx True) = Inr s1
    \<and> exit_context True [1, 2, 3] (define_class 3 0 True s1) = Inl AttributeError"
proof -
  obtain s1 where s1: "enter_context True None [1, 2] (demo_ctx True) = Inr s1"
    by (simp add: enter_context_def enable_class_def demo_ctx_def)
  have "exit_context True [1, 2, 3] (define_class 3 0 True s1) = Inl AttributeError"
    using class_of_the_context [of None "[1, 2]" "demo_ctx True" s1 3 "[1, 2, 3]" True 1, OF s1 _ demo_own]
    by (simp add: demo_ctx_def)
  then show ?thesis using s1 by blast
qed

theorem post_init_once_witness:
  "build_log (run_call 9 (After (After (Body [NewParam 0, SuperInit (After (Body [NewModule 4 (After (Body [NewParam 1]))])), NewParam 2])))
      \<lparr>child_entered = {}, build_log = []\<rparr>)
    = [EvParam 9 0, EvParam 4 1, EvPostInit 4, EvParam 9 2, EvPostInit 9]"
  using post_init_once [of 9 "\<lparr>child_entered = {}, build_log = []\<rparr>"
      "After (Body [NewParam 0, SuperInit (After (Body [NewModule 4 (After (Body [NewParam 1]))])), NewParam 2])"]
  by simp

definition demo_raw :: "nat \<Rightarrow> int raw" where
  "demo_raw p = \<lparr>raw_shape = [p + 2], raw_dtype = Float16, raw_grad = True, raw_value = replicate (p + 2) 0, raw_cuda = True\<rparr>"

definition demo_zinit :: "int zinit" where
  "demo_zinit = \<lparr>zheap = (\<lambda>_. convert_to_deepspeed_param [] Float16 True []), next_param_id = 5, param_count = 0,
     id_of = Map.empty, id_info = Map.empty\<rparr>"

theorem init_partitions_witness:
  "\<exists>t. post_init_method 2 1 (\<lambda>_. 0) (\<lambda>p. map int [1..<p + 3]) demo_raw [0, 1] demo_zinit = Inr t
    \<and> id_of t 1 = Some 6 \<and> next_param_id t = 7 \<and> param_count t = 5"
proof -
  have "\<exists>t. post_init_method 2 1 (\<lambda>_. 0) (\<lambda>p. map int [1..<p + 3]) demo_raw [0, 1] demo_zinit = Inr t
    \<and> list_all (\<lambda>k. initialised_as 2 1 (\<lambda>p. map int [1..<p + 3]) demo_raw t ([0, 1] ! k) (next_param_id demo_zinit + k)) [0..<length [0, 1 :: nat]]
    \<and> list_all (\<lambda>i. zheap t i = zheap demo_zinit i) [0..<next_param_id demo_zinit]
    \<and> next_param_id t = next_param_id demo_zinit + length [0, 1 :: nat]
    \<and> param_count t = param_count demo_zinit + (\<Sum>p \<leftarrow> [0, 1]. length (raw_value (demo_raw p)))"
    by (rule init_partitions) (auto simp: demo_zinit_def demo_raw_def)
  then obtain t where t: "post_init_method 2 1 (\<lambda>_. 0) (\<lambda>p. map int [1..<p + 3]) demo_raw [0, 1] demo_zinit = Inr t"
      "initialised_as 2 1 (\<lambda>p. map int [1..<p + 3]) demo_raw t 1 6" "next_param_id t = 7" "param_count t = 5"
    by (auto simp: demo_zinit_def demo_raw_def)
  then show ?thesis by (auto simp: initialised_as_def)
qed

end
