(* ===== verification/GradPartition.thy ===== *)
theory GradPartition
  imports ReduceScatter Params
begin

text \<open>
  The gradient operations of a partitioned parameter: \<^verbatim>\<open>_reduce_scatter_gradients\<close> and
  \<^verbatim>\<open>_partition_gradients\<close> of \<^verbatim>\<open>src/smartnic_offload/partition_parameters.py\<close>.

  \<open>rs i xs\<close> is what \<^verbatim>\<open>dist.reduce_scatter\<close> delivers to this rank for parameter \<open>i\<close> when \<open>xs\<close> are
  this rank's inputs. The output tensor is this rank's own input, which is a view of the gradient
  unless its block reaches past the end.
\<close>

section \<open>Reduce-scatter of a gradient\<close>

text \<open>One entry of \<^verbatim>\<open>input_list\<close>, and whether it is a view of the gradient.\<close>

definition rs_input_chunk :: "'a \<Rightarrow> nat \<Rightarrow> nat \<Rightarrow> 'a list \<Rightarrow> nat \<Rightarrow> (bool \<times> 'a list) result" where
  "rs_input_chunk z partition_size n g i =
     (let start = i * partition_size; stop = start + partition_size in
      if start < n \<and> stop \<le> n then ebind (narrow start partition_size g) (\<lambda>c. Inr (True, c))
      else
        let inp = replicate partition_size z in
        if start < n
        then ebind (narrow start (n - start) g) (\<lambda>src. ebind (copy_into inp 0 (n - start) src) (\<lambda>c. Inr (False, c)))
        else Inr (False, inp))"

fun rs_input_list :: "'a \<Rightarrow> nat \<Rightarrow> nat \<Rightarrow> 'a list \<Rightarrow> nat list \<Rightarrow> (bool \<times> 'a list) list result" where
  "rs_input_list z k n g [] = Inr []"
| "rs_input_list z k n g (i # is) = ebind (rs_input_chunk z k n g i) (\<lambda>c. ebind (rs_input_list z k n g is) (\<lambda>cs. Inr (c # cs)))"

definition reduce_scatter_gradient :: "nat \<Rightarrow> nat \<Rightarrow> 'a \<Rightarrow> 'a param \<Rightarrow> (bool \<times> 'a list list) result" where
  "reduce_scatter_gradient W rank z p =
     ebind (partition_numel p) (\<lambda>k.
       case pgrad p of
         None \<Rightarrow> Inl AttributeError
       | Some g \<Rightarrow> ebind (rs_input_list z k (ds_numel p) g [0..<W]) (\<lambda>cs. Inr (fst (cs ! rank), map snd cs)))"

fun launch_gradients :: "nat \<Rightarrow> nat \<Rightarrow> 'a \<Rightarrow> 'a heap \<Rightarrow> nat list \<Rightarrow> (nat \<times> bool \<times> 'a list list) list result" where
  "launch_gradients W rank z h [] = Inr []"
| "launch_gradients W rank z h (i # ids) =
     (case pgrad (h i) of
        None \<Rightarrow> Inl AttributeError
      | Some g \<Rightarrow>
          ebind (assert_that (length g = ds_numel (h i))) (\<lambda>_.
          ebind (reduce_scatter_gradient W rank z (h i)) (\<lambda>l.
          ebind (launch_gradients W rank z h ids) (\<lambda>ls. Inr ((i, l) # ls)))))"

text \<open>The wait: the output arrives in the view or in the temporary, whose valid part is copied back.\<close>

definition finish_gradient :: "nat \<Rightarrow> (nat \<Rightarrow> 'a list list \<Rightarrow> 'a list) \<Rightarrow> nat \<times> bool \<times> 'a list list \<Rightarrow> 'a heap \<Rightarrow> 'a heap result" where
  "finish_gradient rank rs l h =
     (case l of (i, view, xs) \<Rightarrow>
        let reduced_partition = rs i xs; n = ds_numel (h i) in
        ebind (partition_numel (h i)) (\<lambda>k.
          case pgrad (h i) of
            None \<Rightarrow> Inl AttributeError
          | Some g \<Rightarrow>
              ebind (if view then copy_into g (rank * k) k reduced_partition else Inr g) (\<lambda>g1.
              let start = rank * k; stop = start + k in
              ebind (if start < n \<and> stop > n
                     then ebind (narrow 0 (n - start) reduced_partition) (\<lambda>src. copy_into g1 start (n - start) src)
                     else Inr g1) (\<lambda>g2.
                Inr (h(i := (h i)\<lparr>pgrad := Some g2\<rparr>))))))"

definition reduce_scatter_gradients ::
  "nat \<Rightarrow> nat \<Rightarrow> 'a \<Rightarrow> (nat \<Rightarrow> 'a list list \<Rightarrow> 'a list) \<Rightarrow> nat list \<Rightarrow> 'a heap \<Rightarrow> 'a heap result" where
  "reduce_scatter_gradients W rank z rs ids h =
     ebind (launch_gradients W rank z h ids) (\<lambda>ls. foldE (finish_gradient rank rs) ls h)"

section \<open>Partitioning of a gradient\<close>

text \<open>
  \<open>same_device\<close> says whether the gradient and the buffer are on one device. The result is the
  parameter, whose gradient now is the first part of the buffer, and the buffer.
\<close>

definition partition_gradient ::
  "nat \<Rightarrow> 'a \<Rightarrow> ('a \<Rightarrow> 'a \<Rightarrow> 'a) \<Rightarrow> bool \<Rightarrow> 'a list option \<Rightarrow> bool \<Rightarrow> 'a param \<Rightarrow> ('a param \<times> 'a list) result" where
  "partition_gradient rank z add same_device partition_buffer accumulate p =
     ebind (partition_numel p) (\<lambda>k.
       case pgrad p of
         None \<Rightarrow> Inl AttributeError
       | Some g \<Rightarrow>
           let buffer = (case partition_buffer of None \<Rightarrow> replicate k z | Some b \<Rightarrow> b); start = k * rank in
           ebind (narrow 0 k buffer) (\<lambda>dest_full.
           ebind (if start < ds_numel p
                  then
                    let elements = min (ds_numel p - start) k in
                    ebind (narrow 0 elements dest_full) (\<lambda>dest.
                    ebind (narrow start elements g) (\<lambda>src.
                      if \<not> accumulate then copy_into dest_full 0 elements src
                      else if same_device then copy_into dest_full 0 elements (map2 add dest src)
                      else Inr dest_full))
                  else Inr dest_full) (\<lambda>dest.
             Inr (p\<lparr>pgrad := Some dest\<rparr>, dest @ drop k buffer))))"

definition partition_gradients ::
  "nat \<Rightarrow> 'a \<Rightarrow> ('a \<Rightarrow> 'a \<Rightarrow> 'a) \<Rightarrow> bool \<Rightarrow> 'a list option list option \<Rightarrow> bool \<Rightarrow> nat list \<Rightarrow> 'a heap \<Rightarrow> 'a heap result" where
  "partition_gradients rank z add same_device partition_buffers accumulate ids h =
     foldE (\<lambda>(i, b) h. ebind (partition_gradient rank z add same_device b accumulate (h i)) (\<lambda>(p, _). Inr (h(i := p))))
       (zip ids (case partition_buffers of None \<Rightarrow> replicate (length ids) None | Some bs \<Rightarrow> bs)) h"

section \<open>What a rank ends up with\<close>

definition pad_to :: "'a \<Rightarrow> nat \<Rightarrow> 'a list \<Rightarrow> 'a list" where
  "pad_to z k xs = xs @ replicate (k - length xs) z"

definition grad_chunks :: "'a \<Rightarrow> nat \<Rightarrow> nat \<Rightarrow> 'a list \<Rightarrow> 'a list list" where
  "grad_chunks z k W g = map (\<lambda>r. pad_to z k (block k r g)) [0..<W]"

lemma rs_input_chunk_ok:
  "\<exists>v. rs_input_chunk z k (length g) g i = Inr (v, pad_to z k (block k i g))
    \<and> (v \<longleftrightarrow> i * k < length g \<and> i * k + k \<le> length g)"
proof -
  consider (full) "i * k < length g" "i * k + k \<le> length g" | (tail) "i * k < length g" "length g < i * k + k" | (none) "length g \<le> i * k"
    by linarith
  then show ?thesis
  proof cases
    case full
    then have "rs_input_chunk z k (length g) g i = Inr (True, pad_to z k (block k i g))"
      by (simp add: rs_input_chunk_def pad_to_def block_def Let_def)
    then show ?thesis using full by blast
  next
    case tail
    then have "rs_input_chunk z k (length g) g i = Inr (False, pad_to z k (block k i g))"
      by (simp add: rs_input_chunk_def pad_to_def block_def Let_def copy_into_ok)
    then show ?thesis using tail by auto
  next
    case none
    then have "rs_input_chunk z k (length g) g i = Inr (False, pad_to z k (block k i g))"
      by (simp add: rs_input_chunk_def pad_to_def block_empty Let_def)
    then show ?thesis using none by auto
  qed
qed

lemma rs_input_list_ok:
  "\<exists>cs. rs_input_list z k (length g) g is = Inr cs \<and> map snd cs = map (\<lambda>r. pad_to z k (block k r g)) is
    \<and> map fst cs = map (\<lambda>i. i * k < length g \<and> i * k + k \<le> length g) is"
proof (induction "is")
  case Nil
  then show ?case by simp
next
  case (Cons i "is")
  then show ?case using rs_input_chunk_ok [of z k g i] by auto
qed

lemma launch_one:
  assumes "rank < W" and "pgrad p = Some g" and "length g = ds_numel p" and "ds_tensor p = Some t" and "length t = k"
  shows "reduce_scatter_gradient W rank z p
    = Inr (rank * k < length g \<and> rank * k + k \<le> length g, grad_chunks z k W g)"
proof -
  obtain cs where cs: "rs_input_list z k (length g) g [0..<W] = Inr cs" "map snd cs = grad_chunks z k W g"
      "map fst cs = map (\<lambda>i. i * k < length g \<and> i * k + k \<le> length g) [0..<W]"
    using rs_input_list_ok [of z k g "[0..<W]"] by (auto simp: grad_chunks_def)
  have "length cs = W" using arg_cong [OF cs(3), of length] by simp
  then have "fst (cs ! rank) = (rank * k < length g \<and> rank * k + k \<le> length g)"
    using arg_cong [OF cs(3), of "\<lambda>xs. xs ! rank"] assms(1) by simp
  then show ?thesis using cs assms by (simp add: reduce_scatter_gradient_def partition_numel_def)
qed

text \<open>The gradient after the wait holds the reduced block at this rank's place.\<close>

definition put_block :: "nat \<Rightarrow> nat \<Rightarrow> 'a list \<Rightarrow> 'a list \<Rightarrow> 'a list" where
  "put_block k r out g = take (r * k) g @ take (length g - r * k) out @ drop (r * k + k) g"

lemma finish_one:
  assumes "pgrad (h i) = Some g" and "length g = ds_numel (h i)" and "ds_tensor (h i) = Some t" and "length t = k"
    and "length (rs i xs) = k"
  shows "finish_gradient rank rs (i, rank * k < length g \<and> rank * k + k \<le> length g, xs) h
    = Inr (h(i := (h i)\<lparr>pgrad := Some (if rank * k < length g then put_block k rank (rs i xs) g else g)\<rparr>))"
proof -
  consider (full) "rank * k < length g" "rank * k + k \<le> length g" | (tail) "rank * k < length g" "length g < rank * k + k" | (none) "length g \<le> rank * k"
    by linarith
  then show ?thesis
  proof cases
    case full
    then show ?thesis using assms
      by (simp add: finish_gradient_def partition_numel_def Let_def copy_into_ok put_block_def)
  next
    case tail
    then show ?thesis using assms
      by (simp add: finish_gradient_def partition_numel_def Let_def copy_into_ok put_block_def)
  next
    case none
    then show ?thesis using assms by (simp add: finish_gradient_def partition_numel_def Let_def)
  qed
qed

lemma block_put_block:
  assumes "length out = k" and "r * k < length g"
  shows "block k r (put_block k r out g) = take (length g - r * k) out" and "length (put_block k r out g) = length g"
  using assms by (auto simp: block_def put_block_def min_def)

lemma partition_one_gradient:
  assumes "pgrad p = Some g" and "length g = ds_numel p" and "ds_tensor p = Some t" and "length t = k"
  shows "partition_gradient rank z add same_device None False p = Inr (p\<lparr>pgrad := Some (pad_to z k (block k rank g))\<rparr>, pad_to z k (block k rank g))"
proof (cases "k * rank < length g")
  case True
  have "take (min k (ds_numel p - k * rank)) (drop (k * rank) g) = take k (drop (k * rank) g)"
    using assms(2) by (simp add: min_def)
  then show ?thesis using assms True
    by (simp add: partition_gradient_def partition_numel_def Let_def copy_into_ok pad_to_def block_def mult.commute min.commute)
next
  case False
  then show ?thesis using assms
    by (simp add: partition_gradient_def partition_numel_def Let_def pad_to_def block_empty mult.commute)
qed

definition reduced_grad :: "('a list \<Rightarrow> 'a) \<Rightarrow> 'a list list \<Rightarrow> 'a list" where
  "reduced_grad red gs = map (\<lambda>j. red (map (\<lambda>g. g ! j) gs)) [0..<length (hd gs)]"

lemma scatter_chunks:
  assumes "rank < W" and "\<And>q. q < W \<Longrightarrow> length (G q) = n"
  shows "take (n - rank * k) (scatter_block red k rank (map (\<lambda>q. concat (grad_chunks z k W (G q))) [0..<W]))
    = block k rank (reduced_grad red (map G [0..<W]))"
proof -
  have hd: "length (hd (map G [0..<W])) = n" using assms by (simp add: hd_map)
  have elem: "concat (grad_chunks z k W (G q)) ! (rank * k + j) = G q ! (rank * k + j)" if q: "q < W" and j: "j < k" "rank * k + j < n" for q j
  proof -
    have bl: "length (block k r (G q)) \<le> k" for r by (simp add: length_block)
    have len: "length (grad_chunks z k W (G q)) = W" by (simp add: grad_chunks_def)
    have uni: "length ys = k" if "ys \<in> set (grad_chunks z k W (G q))" for ys
      using that bl by (auto simp: grad_chunks_def pad_to_def)
    have lc: "length (concat (grad_chunks z k W (G q))) = W * k"
      using length_concat_uniform [of "grad_chunks z k W (G q)", OF uni] len by simp
    have "rank * k + k \<le> W * k" using mult_le_mono1 [of "Suc rank" W k] assms(1) by simp
    then have "rank * k \<le> length (concat (grad_chunks z k W (G q)))" unfolding lc by linarith
    then have "concat (grad_chunks z k W (G q)) ! (rank * k + j) = block k rank (concat (grad_chunks z k W (G q))) ! j"
      using j(1) by (simp add: block_def nth_drop)
    also have "\<dots> = grad_chunks z k W (G q) ! rank ! j"
      using block_concat_uniform [of "grad_chunks z k W (G q)" k rank, OF uni] len assms(1) by simp
    also have "\<dots> = block k rank (G q) ! j"
      using assms(1) j assms(2) [OF q] by (simp add: grad_chunks_def pad_to_def nth_append length_block less_diff_conv add.commute)
    finally show ?thesis using j assms(2) [OF q] by (simp add: block_def)
  qed
  show ?thesis
  proof (rule nth_equalityI)
    show "length (take (n - rank * k) (scatter_block red k rank (map (\<lambda>q. concat (grad_chunks z k W (G q))) [0..<W])))
        = length (block k rank (reduced_grad red (map G [0..<W])))"
      using hd by (simp add: scatter_block_def length_block reduced_grad_def min.commute)
    fix j assume "j < length (take (n - rank * k) (scatter_block red k rank (map (\<lambda>q. concat (grad_chunks z k W (G q))) [0..<W])))"
    then have j: "j < k" "rank * k + j < n" by (simp_all add: scatter_block_def less_diff_conv add.commute)
    have e: "map (\<lambda>q. concat (grad_chunks z k W (G q)) ! (rank * k + j)) [0..<W] = map (\<lambda>q. G q ! (rank * k + j)) [0..<W]"
      by (rule map_cong [OF refl]) (use elem [OF _ j] in simp)
    have "take (n - rank * k) (scatter_block red k rank (map (\<lambda>q. concat (grad_chunks z k W (G q))) [0..<W])) ! j
        = red (map (\<lambda>q. concat (grad_chunks z k W (G q)) ! (rank * k + j)) [0..<W])"
      using j by (simp add: scatter_block_def o_def)
    also have "\<dots> = red (map (\<lambda>q. G q ! (rank * k + j)) [0..<W])" unfolding e ..
    also have "\<dots> = block k rank (reduced_grad red (map G [0..<W])) ! j"
      using j hd by (simp add: block_def reduced_grad_def o_def)
    finally show "take (n - rank * k) (scatter_block red k rank (map (\<lambda>q. concat (grad_chunks z k W (G q))) [0..<W])) ! j
        = block k rank (reduced_grad red (map G [0..<W])) ! j" .
  qed
qed

text \<open>A heap that agrees with \<open>h\<close> outside \<open>ids\<close>, with the gradients \<open>g\<close> inside.\<close>

definition with_grads :: "(nat \<Rightarrow> 'a list) \<Rightarrow> nat list \<Rightarrow> 'a heap \<Rightarrow> 'a heap" where
  "with_grads g ids h = (\<lambda>i. if i \<in> set ids then (h i)\<lparr>pgrad := Some (g i)\<rparr> else h i)"

definition sharded :: "nat \<Rightarrow> 'a heap \<Rightarrow> nat \<Rightarrow> bool" where
  "sharded W h i \<longleftrightarrow> (case ds_tensor (h i) of None \<Rightarrow> False | Some t \<Rightarrow> length t = shard_size W (ds_numel (h i)))"

lemma sharded_with_grads: "sharded W (with_grads g ids h) i = sharded W h i"
  by (simp add: sharded_def with_grads_def split: option.splits)

lemma sharded_tensor: "sharded W h i \<Longrightarrow> \<exists>t. ds_tensor (h i) = Some t \<and> length t = shard_size W (ds_numel (h i))"
  by (auto simp: sharded_def split: option.splits)

lemma launch_all:
  assumes "rank < W" and "\<And>i. i \<in> set ids \<Longrightarrow> pgrad (h i) = Some (g i) \<and> length (g i) = ds_numel (h i) \<and> sharded W h i"
  shows "launch_gradients W rank z h ids = Inr (map (\<lambda>i. (i, let k = shard_size W (ds_numel (h i)) in
      (rank * k < length (g i) \<and> rank * k + k \<le> length (g i), grad_chunks z k W (g i)))) ids)"
  using assms(2)
proof (induction ids)
  case Nil
  then show ?case by simp
next
  case (Cons i ids)
  obtain t where t: "ds_tensor (h i) = Some t" "length t = shard_size W (ds_numel (h i))"
    using sharded_tensor [of W h i] Cons.prems [of i] by auto
  show ?case
    using launch_one [OF assms(1) _ _ t, of "g i" z] Cons by (simp add: Let_def)
qed

lemma finish_all:
  assumes "distinct ids"
    and "\<And>i. i \<in> set ids \<Longrightarrow> pgrad (h i) = Some (g i) \<and> length (g i) = ds_numel (h i) \<and> sharded W h i
      \<and> length (rs i (xs i)) = shard_size W (ds_numel (h i))"
  shows "foldE (finish_gradient rank rs) (map (\<lambda>i. (i, let k = shard_size W (ds_numel (h i)) in
      (rank * k < length (g i) \<and> rank * k + k \<le> length (g i), xs i))) ids) h
    = Inr (with_grads (\<lambda>i. let k = shard_size W (ds_numel (h i)) in
        if rank * k < length (g i) then put_block k rank (rs i (xs i)) (g i) else g i) ids h)"
  using assms
proof (induction ids arbitrary: h)
  case Nil
  then show ?case by (simp add: with_grads_def)
next
  case (Cons i ids)
  obtain t where t: "ds_tensor (h i) = Some t" "length t = shard_size W (ds_numel (h i))"
    using sharded_tensor [of W h i] Cons.prems(2) [of i] by auto
  let ?k = "\<lambda>i. shard_size W (ds_numel (h i))"
  let ?new = "\<lambda>i. if rank * ?k i < length (g i) then put_block (?k i) rank (rs i (xs i)) (g i) else g i"
  let ?h = "h(i := (h i)\<lparr>pgrad := Some (?new i)\<rparr>)"
  have one: "finish_gradient rank rs (i, rank * ?k i < length (g i) \<and> rank * ?k i + ?k i \<le> length (g i), xs i) h = Inr ?h"
    by (rule finish_one [where h = h and i = i and t = t]) (use Cons.prems(2) t in auto)
  have same: "?h j = h j" if "j \<in> set ids" for j using that Cons.prems(1) by auto
  have m: "map (\<lambda>i. (i, let k = shard_size W (ds_numel (?h i)) in (rank * k < length (g i) \<and> rank * k + k \<le> length (g i), xs i))) ids
      = map (\<lambda>i. (i, let k = ?k i in (rank * k < length (g i) \<and> rank * k + k \<le> length (g i), xs i))) ids"
    by (rule map_cong [OF refl]) (use same in simp)
  have "foldE (finish_gradient rank rs) (map (\<lambda>i. (i, let k = ?k i in (rank * k < length (g i) \<and> rank * k + k \<le> length (g i), xs i))) ids) ?h
      = Inr (with_grads (\<lambda>i. let k = shard_size W (ds_numel (?h i)) in
        if rank * k < length (g i) then put_block k rank (rs i (xs i)) (g i) else g i) ids ?h)"
    unfolding m [symmetric] by (rule Cons.IH) (use Cons.prems same in \<open>auto simp: sharded_def\<close>)
  also have "with_grads (\<lambda>i. let k = shard_size W (ds_numel (?h i)) in
        if rank * k < length (g i) then put_block k rank (rs i (xs i)) (g i) else g i) ids ?h
      = with_grads (\<lambda>i. let k = ?k i in ?new i) (i # ids) h"
    using Cons.prems(1) same by (auto simp: with_grads_def Let_def fun_eq_iff)
  finally have rest: "foldE (finish_gradient rank rs) (map (\<lambda>i. (i, let k = ?k i in (rank * k < length (g i) \<and> rank * k + k \<le> length (g i), xs i))) ids) ?h
      = Inr (with_grads (\<lambda>i. let k = ?k i in ?new i) (i # ids) h)" .
  show ?case unfolding list.map foldE.simps Let_def one [unfolded Let_def] ebind_Inr using rest [unfolded Let_def] .
qed

lemma partition_all_gradients:
  assumes "distinct ids" and "\<And>i. i \<in> set ids \<Longrightarrow> pgrad (h i) = Some (g i) \<and> length (g i) = ds_numel (h i) \<and> sharded W h i"
  shows "partition_gradients rank z add same_device None False ids h
    = Inr (with_grads (\<lambda>i. let k = shard_size W (ds_numel (h i)) in pad_to z k (block k rank (g i))) ids h)"
  using assms
proof (induction ids arbitrary: h)
  case Nil
  then show ?case by (simp add: partition_gradients_def with_grads_def)
next
  case (Cons i ids)
  obtain t where t: "ds_tensor (h i) = Some t" "length t = shard_size W (ds_numel (h i))"
    using sharded_tensor [of W h i] Cons.prems(2) [of i] by auto
  let ?k = "shard_size W (ds_numel (h i))"
  let ?h = "h(i := (h i)\<lparr>pgrad := Some (pad_to z ?k (block ?k rank (g i)))\<rparr>)"
  have one: "partition_gradient rank z add same_device None False (h i)
      = Inr ((h i)\<lparr>pgrad := Some (pad_to z ?k (block ?k rank (g i)))\<rparr>, pad_to z ?k (block ?k rank (g i)))"
    by (rule partition_one_gradient [OF _ _ t]) (use Cons.prems(2) in auto)
  have same: "?h j = h j" if "j \<in> set ids" for j using that Cons.prems(1) by auto
  have "partition_gradients rank z add same_device None False (i # ids) h = partition_gradients rank z add same_device None False ids ?h"
    by (simp add: partition_gradients_def one)
  also have "\<dots> = Inr (with_grads (\<lambda>i. let k = shard_size W (ds_numel (?h i)) in pad_to z k (block k rank (g i))) ids ?h)"
    by (rule Cons.IH) (use Cons.prems same in \<open>auto simp: sharded_def\<close>)
  also have "with_grads (\<lambda>i. let k = shard_size W (ds_numel (?h i)) in pad_to z k (block k rank (g i))) ids ?h
      = with_grads (\<lambda>i. let k = shard_size W (ds_numel (h i)) in pad_to z k (block k rank (g i))) (i # ids) h"
    using Cons.prems(1) same by (auto simp: with_grads_def Let_def fun_eq_iff)
  finally show ?case .
qed

text \<open>The gradient after the reduce-scatter: this rank's block of it is its block of the reduced gradient.\<close>

definition scattered :: "nat \<Rightarrow> nat \<Rightarrow> 'a list \<Rightarrow> 'a list \<Rightarrow> 'a list" where
  "scattered k rank out g = (if rank * k < length g then put_block k rank out g else g)"

lemma scattered_block:
  assumes "rank < W" and k: "k = shard_size W n" and lens: "\<And>q. q < W \<Longrightarrow> length (G q) = n"
    and out: "out = scatter_block red k rank (map (\<lambda>q. concat (grad_chunks z k W (G q))) [0..<W])"
  shows "block k rank (scattered k rank out (G rank)) = block k rank (reduced_grad red (map G [0..<W]))"
    and "length (scattered k rank out (G rank)) = n"
proof -
  have len: "length out = k" by (simp add: out scatter_block_def)
  have sc: "take (n - rank * k) out = block k rank (reduced_grad red (map G [0..<W]))"
    unfolding out k by (rule scatter_chunks [OF assms(1)]) (rule lens)
  have g: "length (G rank) = n" by (rule lens [OF assms(1)])
  show "block k rank (scattered k rank out (G rank)) = block k rank (reduced_grad red (map G [0..<W]))"
  proof (cases "rank * k < length (G rank)")
    case True
    then show ?thesis using block_put_block(1) [OF len True] sc g by (simp add: scattered_def)
  next
    case False
    then show ?thesis using sc g by (simp add: scattered_def block_empty)
  qed
  show "length (scattered k rank out (G rank)) = n"
    using block_put_block(2) [OF len, of rank "G rank"] g by (simp add: scattered_def)
qed

text \<open>
  C21. Reducing and partitioning the gradients of any set of parameters leaves each of them with
  this rank's block of the gradient reduced over the ranks, zeros in the padding, on every branch:
  blocks within the gradient, the block that reaches past its end and is reduced in a temporary,
  and ranks that have no part of it. Other parameters are as before.
\<close>

theorem gradients_partitioned:
  assumes "rank < W" and "distinct ids"
    and "\<And>i. i \<in> set ids \<Longrightarrow> pgrad (h i) = Some (G rank i) \<and> sharded W h i"
    and "\<And>i q. i \<in> set ids \<Longrightarrow> q < W \<Longrightarrow> length (G q i) = ds_numel (h i)"
    and "\<And>i. i \<in> set ids \<Longrightarrow> let k = shard_size W (ds_numel (h i)) in
      rs i (grad_chunks z k W (G rank i)) = scatter_block red k rank (map (\<lambda>q. concat (grad_chunks z k W (G q i))) [0..<W])"
  shows "ebind (reduce_scatter_gradients W rank z rs ids h) (partition_gradients rank z add same_device None False ids)
    = Inr (with_grads (\<lambda>i. let k = shard_size W (ds_numel (h i)) in
        pad_to z k (block k rank (reduced_grad red (map (\<lambda>q. G q i) [0..<W])))) ids h)"
proof -
  let ?k = "\<lambda>i. shard_size W (ds_numel (h i))"
  let ?xs = "\<lambda>i. grad_chunks z (?k i) W (G rank i)"
  let ?new = "\<lambda>i. scattered (?k i) rank (rs i (?xs i)) (G rank i)"
  have ok: "pgrad (h i) = Some (G rank i) \<and> length (G rank i) = ds_numel (h i) \<and> sharded W h i" if "i \<in> set ids" for i
    using assms(1,3,4) that by blast
  have out: "rs i (?xs i) = scatter_block red (?k i) rank (map (\<lambda>q. concat (grad_chunks z (?k i) W (G q i))) [0..<W])" if "i \<in> set ids" for i
    using assms(5) [OF that] by (simp add: Let_def)
  then have len: "length (rs i (?xs i)) = ?k i" if "i \<in> set ids" for i using that by (simp add: scatter_block_def)
  have blk: "block (?k i) rank (?new i) = block (?k i) rank (reduced_grad red (map (\<lambda>q. G q i) [0..<W]))"
      "length (?new i) = ds_numel (h i)" if "i \<in> set ids" for i
    using scattered_block [OF assms(1) refl assms(4) [OF that] out [OF that]] by blast+
  have launch: "launch_gradients W rank z h ids = Inr (map (\<lambda>i. (i, let k = ?k i in
      (rank * k < length (G rank i) \<and> rank * k + k \<le> length (G rank i), ?xs i))) ids)"
    using launch_all [OF assms(1) ok, of ids z] by (simp add: Let_def)
  have "foldE (finish_gradient rank rs) (map (\<lambda>i. (i, let k = ?k i in
      (rank * k < length (G rank i) \<and> rank * k + k \<le> length (G rank i), ?xs i))) ids) h = Inr (with_grads ?new ids h)"
    unfolding scattered_def using ok len by (subst finish_all [OF assms(2)]) (auto simp: Let_def)
  then have rs: "reduce_scatter_gradients W rank z rs ids h = Inr (with_grads ?new ids h)"
    by (simp add: reduce_scatter_gradients_def launch)
  let ?h = "with_grads ?new ids h"
  have new: "pgrad (?h i) = Some (?new i) \<and> length (?new i) = ds_numel (?h i) \<and> sharded W ?h i" if "i \<in> set ids" for i
    using ok [OF that] blk(2) [OF that] that unfolding sharded_with_grads by (simp add: with_grads_def)
  have "partition_gradients rank z add same_device None False ids ?h
      = Inr (with_grads (\<lambda>i. let k = shard_size W (ds_numel (?h i)) in pad_to z k (block k rank (?new i))) ids ?h)"
    by (rule partition_all_gradients [OF assms(2) new])
  also have "with_grads (\<lambda>i. let k = shard_size W (ds_numel (?h i)) in pad_to z k (block k rank (?new i))) ids ?h
      = with_grads (\<lambda>i. let k = ?k i in pad_to z k (block k rank (reduced_grad red (map (\<lambda>q. G q i) [0..<W])))) ids h"
    using blk(1) by (simp add: with_grads_def Let_def fun_eq_iff)
  finally show ?thesis unfolding rs by simp
qed

text \<open>Accumulation into a buffer on another device adds nothing.\<close>

lemma accumulate_dropped:
  assumes "pgrad p = Some g" and "length g = ds_numel p" and "ds_tensor p = Some t" and "length t \<le> length b"
  shows "partition_gradient rank z add False (Some b) True p = Inr (p\<lparr>pgrad := Some (take (length t) b)\<rparr>, b)"
  using assms by (simp add: partition_gradient_def partition_numel_def Let_def mult.commute min_def)

definition demo_rank_grads :: "nat \<Rightarrow> nat \<Rightarrow> int list" where
  "demo_rank_grads q i = (if i = 0 then map (\<lambda>j. int j + 10 * int q) [1..<4] else map (\<lambda>j. int j * 100 + int q) [1..<5])"

definition demo_grad_heap :: "int heap" where
  "demo_grad_heap = (\<lambda>i. (convert_to_deepspeed_param [] Float16 True (demo_rank_grads 1 i))
     \<lparr>ds_tensor := Some [0, 0], pgrad := Some (demo_rank_grads 1 i)\<rparr>)"

definition demo_rs :: "nat \<Rightarrow> int list list \<Rightarrow> int list" where
  "demo_rs i xs = scatter_block sum_list 2 1 (map (\<lambda>q. concat (grad_chunks 0 2 2 (demo_rank_grads q i))) [0..<2])"

theorem gradients_partitioned_witness:
  "\<exists>h. ebind (reduce_scatter_gradients 2 1 0 demo_rs [0, 1] demo_grad_heap) (partition_gradients 1 0 (+) True None False [0, 1]) = Inr h
     \<and> pgrad (h 0) = Some [16, 0] \<and> pgrad (h 1) = Some [601, 801]"
proof -
  have n: "ds_numel (demo_grad_heap 0) = 3" "ds_numel (demo_grad_heap 1) = 4"
    by (simp_all add: demo_grad_heap_def convert_to_deepspeed_param_def demo_rank_grads_def)
  have k: "shard_size 2 3 = 2" "shard_size 2 4 = 2" by code_simp+
  have heap: "pgrad (demo_grad_heap i) = Some (demo_rank_grads 1 i) \<and> sharded 2 demo_grad_heap i" if "i \<in> set [0, 1]" for i
    using that n k by (auto simp: sharded_def) (auto simp: demo_grad_heap_def)
  have len: "length (demo_rank_grads q i) = ds_numel (demo_grad_heap i)" if "i \<in> set [0, 1]" for i q
    by (simp add: demo_grad_heap_def convert_to_deepspeed_param_def demo_rank_grads_def)
  have rs: "let k = shard_size 2 (ds_numel (demo_grad_heap i)) in demo_rs i (grad_chunks 0 k 2 (demo_rank_grads 1 i))
      = scatter_block sum_list k 1 (map (\<lambda>q. concat (grad_chunks 0 k 2 (demo_rank_grads q i))) [0..<2])" if "i \<in> set [0, 1]" for i
    using that n k by (auto simp: demo_rs_def)
  have v: "pad_to 0 2 (block 2 1 (reduced_grad sum_list (map (\<lambda>q. demo_rank_grads q 0) [0..<2]))) = [16, 0]"
    "pad_to 0 2 (block 2 1 (reduced_grad sum_list (map (\<lambda>q. demo_rank_grads q 1) [0..<2]))) = [601, 801]"
    by code_simp+
  have d: "(1::nat) < 2" "distinct [0, 1 :: nat]" by simp_all
  note main = gradients_partitioned [of 1 2 "[0, 1]" demo_grad_heap demo_rank_grads demo_rs 0 sum_list "(+)" True, OF d heap len rs]
  show ?thesis
    by (rule exI, rule conjI, rule main) (simp_all add: with_grads_def Let_def n [unfolded One_nat_def] k v [unfolded One_nat_def])
qed

end
