(* ===== verification/Wrapper.thy ===== *)
theory Wrapper
  imports Params
begin

text \<open>
  The training wrapper: \<^verbatim>\<open>src/smartnic_offload/zero_wrapper_example.py\<close>.

  The wrapper decides when the optimizer is called; what it calls is the list \<open>opt_calls\<close> of its
  state, in order, and the components above say what each call does. A loss is a tensor of type
  \<open>'l\<close>, a tuple or list, or something else; \<open>float\<close> and the division are arguments.
\<close>

section \<open>Set-up\<close>

record engine_timers =
  forward_timers :: "string list"
  backward_timers :: "string list"
  backward_inner_timers :: "string list"
  backward_reduce_timers :: "string list"
  step_timers :: "string list"
  global_timers :: "string list"
  micro_timers :: "string list"

definition engine_timers_init :: "bool \<Rightarrow> bool \<Rightarrow> engine_timers" where
  "engine_timers_init enable_micro_timers enable_global_timers =
     (let t0 = \<lparr>forward_timers = [], backward_timers = [], backward_inner_timers = [], backward_reduce_timers = [],
               step_timers = [], global_timers = [], micro_timers = []\<rparr>;
          t1 = (if enable_micro_timers
                then t0\<lparr>forward_timers := forward_timers t0 @ [''forward_microstep''],
                        backward_timers := backward_timers t0 @ [''backward_microstep''],
                        backward_inner_timers := backward_inner_timers t0 @ [''backward_inner_microstep''],
                        backward_reduce_timers := backward_reduce_timers t0 @ [''backward_allreduce_microstep''],
                        step_timers := step_timers t0 @ [''step_microstep''],
                        micro_timers := micro_timers t0 @ [''forward_microstep'', ''backward_microstep'', ''backward_inner_microstep'',
                          ''backward_allreduce_microstep'', ''step_microstep'']\<rparr>
                else t0)
      in if enable_global_timers
         then t1\<lparr>forward_timers := forward_timers t1 @ [''forward''], backward_timers := backward_timers t1 @ [''backward''],
                 backward_inner_timers := backward_inner_timers t1 @ [''backward_inner''],
                 backward_reduce_timers := backward_reduce_timers t1 @ [''backward_allreduce''],
                 step_timers := step_timers t1 @ [''step''],
                 global_timers := global_timers t1 @ [''forward'', ''backward'', ''backward_inner'', ''backward_allreduce'', ''step'']\<rparr>
         else t1)"

definition supported_types :: "string list" where
  "supported_types = [''torch.cuda.HalfTensor'', ''torch.cuda.FloatTensor'', ''torch.cuda.DoubleTensor'', ''torch.cuda.BFloat16Tensor'']"

definition split_half_float_double_sparse :: "('t \<Rightarrow> string) \<Rightarrow> 't list \<Rightarrow> (string \<times> 't list) list result" where
  "split_half_float_double_sparse typ tensors =
     ebind (foldE (\<lambda>t _. assert_that (typ t \<in> set supported_types)) tensors ()) (\<lambda>_.
       Inr (concat (map (\<lambda>dtype. let bucket = filter (\<lambda>t. typ t = dtype) tensors in
         if bucket \<noteq> [] then [(dtype, bucket)] else []) supported_types)))"

text \<open>A parameter of the module: is it a tensor, and what is its status if it has one.\<close>

definition is_replicated :: "param_status option \<Rightarrow> bool" where
  "is_replicated st = (case st of None \<Rightarrow> True | Some s \<Rightarrow> s = AVAILABLE)"

text \<open>\<open>vals r p\<close> is the value of \<open>p\<close> on rank \<open>r\<close>; a broadcast is entered by every rank.\<close>

definition broadcast_model :: "(nat \<Rightarrow> bool \<times> param_status option) \<Rightarrow> nat list \<Rightarrow> (nat \<Rightarrow> nat \<Rightarrow> 'v) \<Rightarrow> nat \<Rightarrow> nat \<Rightarrow> 'v" where
  "broadcast_model info params vals =
     fold (\<lambda>p vals. if fst (info p) \<and> is_replicated (snd (info p)) then (\<lambda>r. (vals r)(p := vals 0 p)) else vals) params vals"

text \<open>The optimizer's parameter groups are lists of parameter identities.\<close>

definition check_for_duplicates :: "nat list \<Rightarrow> nat list list \<Rightarrow> unit result" where
  "check_for_duplicates named_parameters param_groups =
     foldE (\<lambda>p _. let occurrence = (\<Sum>grp \<leftarrow> param_groups. if p \<in> set grp then count_list grp p else 0)
                  in assert_that (occurrence \<le> 1)) named_parameters ()"

record zero_config =
  c_contiguous_gradients :: bool
  c_reduce_bucket_size :: nat
  c_prefetch_bucket_size :: nat
  c_max_reuse_distance :: nat
  c_max_live_parameters :: nat
  c_reduce_scatter :: bool
  c_overlap_comm :: bool
  c_sub_group_size :: nat
  c_gradient_accumulation_steps :: nat
  c_communication_data_type :: dtype

definition configure_zero_optimizer :: "nat \<Rightarrow> nat \<Rightarrow> nat \<Rightarrow> nat \<Rightarrow> zero_config" where
  "configure_zero_optimizer reduce_bucket prefetch_bucket reuse_distance live_parameters =
     \<lparr>c_contiguous_gradients = True, c_reduce_bucket_size = reduce_bucket, c_prefetch_bucket_size = prefetch_bucket,
      c_max_reuse_distance = reuse_distance, c_max_live_parameters = live_parameters, c_reduce_scatter = True,
      c_overlap_comm = True, c_sub_group_size = 10000000, c_gradient_accumulation_steps = 1, c_communication_data_type = Float16\<rparr>"

definition configure_optimizer :: "nat list \<Rightarrow> nat list list \<Rightarrow> nat list list result" where
  "configure_optimizer named_parameters param_groups =
     (let groups = filter (\<lambda>grp. length grp \<noteq> 0) param_groups in
      ebind (check_for_duplicates named_parameters groups) (\<lambda>_. Inr groups))"

section \<open>Training\<close>

datatype 'l loss = LTensor 'l | LSeq "'l loss list" | LOther

datatype 'l opt_call = SetBoundary bool | OptBackward "'l loss" | Epilogue | OptStep | OptZeroGrad | OptStepDpu bool
  | OptPartitionAll | OptUpdateNewParams

record 'l wrapper =
  micro_steps :: nat
  global_steps :: nat
  dpu_steps :: nat
  gas_boundary_ctr :: nat
  is_boundary :: bool
  gradient_accumulation_steps :: nat
  boundary_override :: "bool option"
  in_forward :: "nat \<Rightarrow> bool"
  opt_calls :: "'l opt_call list"

definition call_opt :: "'l opt_call \<Rightarrow> 'l wrapper \<Rightarrow> 'l wrapper" where
  "call_opt c s = s\<lparr>opt_calls := opt_calls s @ [c]\<rparr>"

text \<open>A forward pass through the modules; \<open>forward_module\<close> is the client's module.\<close>

definition wrapper_forward :: "nat list \<Rightarrow> ('l wrapper \<Rightarrow> ('l wrapper \<times> 'x) result) \<Rightarrow> 'l wrapper \<Rightarrow> ('l wrapper \<times> 'x) result" where
  "wrapper_forward modules forward_module s =
     ebind (forward_module (s\<lparr>in_forward := (\<lambda>m. m \<in> set modules \<or> in_forward s m)\<rparr>)) (\<lambda>(t, y).
       Inr (t\<lparr>in_forward := (\<lambda>m. m \<notin> set modules \<and> in_forward t m)\<rparr>, y))"

definition scale_loss_by_gas :: "(nat \<Rightarrow> 'l \<Rightarrow> 'l) \<Rightarrow> nat \<Rightarrow> 'l loss \<Rightarrow> 'l loss result" where
  "scale_loss_by_gas dv gas prescaled_loss =
     (case prescaled_loss of
        LTensor x \<Rightarrow> if gas = 0 then Inl ZeroDivisionError else Inr (LTensor (dv gas x))
      | LSeq ls \<Rightarrow> Inr (LSeq (map (\<lambda>l. case l of LTensor x \<Rightarrow> LTensor (dv gas x) | _ \<Rightarrow> l) ls))
      | LOther \<Rightarrow> Inr LOther)"

definition is_gradient_accumulation_boundary :: "'l wrapper \<Rightarrow> bool result" where
  "is_gradient_accumulation_boundary s =
     (case boundary_override s of
        None \<Rightarrow> if gradient_accumulation_steps s = 0 then Inl ZeroDivisionError
                else Inr ((micro_steps s + 1) mod gradient_accumulation_steps s = 0)
      | Some b \<Rightarrow> Inr b)"

definition wrapper_allreduce_gradients :: "'l wrapper \<Rightarrow> 'l wrapper result" where
  "wrapper_allreduce_gradients s =
     ebind (is_gradient_accumulation_boundary s) (\<lambda>b. Inr (call_opt Epilogue (call_opt (SetBoundary b) s)))"

text \<open>Only a tensor has \<^verbatim>\<open>float()\<close>.\<close>

definition to_float :: "('l \<Rightarrow> 'l) \<Rightarrow> 'l loss \<Rightarrow> 'l loss result" where
  "to_float fl loss = (case loss of LTensor x \<Rightarrow> Inr (LTensor (fl x)) | _ \<Rightarrow> Inl AttributeError)"

definition wrapper_backward ::
  "('l \<Rightarrow> 'l) \<Rightarrow> (nat \<Rightarrow> 'l \<Rightarrow> 'l) \<Rightarrow> bool \<Rightarrow> bool \<Rightarrow> 'l loss \<Rightarrow> 'l wrapper \<Rightarrow> ('l wrapper \<times> 'l loss) result" where
  "wrapper_backward fl dv allreduce_gradients scale_wrt_gas loss s =
     ebind (if gradient_accumulation_steps s > 1 \<and> scale_wrt_gas
            then ebind (to_float fl loss) (scale_loss_by_gas dv (gradient_accumulation_steps s))
            else Inr loss) (\<lambda>loss1.
     ebind (is_gradient_accumulation_boundary s) (\<lambda>b.
       let s1 = call_opt (OptBackward loss1) (call_opt (SetBoundary b) s) in
       ebind (if allreduce_gradients then wrapper_allreduce_gradients s1 else Inr s1) (\<lambda>s2. Inr (s2, loss1))))"

definition take_model_step :: "'l wrapper \<Rightarrow> 'l wrapper" where
  "take_model_step s = (let s1 = call_opt OptZeroGrad (call_opt OptStep s) in s1\<lparr>global_steps := global_steps s1 + 1\<rparr>)"

definition wrapper_step :: "'l wrapper \<Rightarrow> 'l wrapper result" where
  "wrapper_step s =
     ebind (is_gradient_accumulation_boundary s) (\<lambda>b.
       let s1 = (if b then take_model_step (s\<lparr>gas_boundary_ctr := gas_boundary_ctr s + 1\<rparr>) else s) in
       Inr (s1\<lparr>micro_steps := micro_steps s1 + 1\<rparr>))"

definition wrapper_model_step_dpu :: "'l wrapper \<Rightarrow> 'l wrapper" where
  "wrapper_model_step_dpu s =
     (let s1 = call_opt OptZeroGrad (call_opt (OptStepDpu (dpu_steps s = 0)) s) in
      s1\<lparr>global_steps := global_steps s1 + 1, dpu_steps := dpu_steps s1 + 1\<rparr>)"

definition wrapper_step_dpu :: "'l wrapper \<Rightarrow> ('l wrapper \<times> bool) result" where
  "wrapper_step_dpu s0 =
     (let s = s0\<lparr>is_boundary := False\<rparr> in
      ebind (is_gradient_accumulation_boundary s) (\<lambda>b.
        let s1 = (if b then wrapper_model_step_dpu (s\<lparr>gas_boundary_ctr := gas_boundary_ctr s + 1, is_boundary := True\<rparr>) else s) in
        Inr (s1\<lparr>micro_steps := micro_steps s1 + 1\<rparr>, is_boundary s1)))"

text \<open>
  An iteration of the training loop of \<^verbatim>\<open>run_zero.py\<close>: up to epoch \<^verbatim>\<open>DPU_THRESHOLD\<close> the usual one,
  afterwards the one with the delayed parameter update.
\<close>

definition train_iteration ::
  "('l \<Rightarrow> 'l) \<Rightarrow> (nat \<Rightarrow> 'l \<Rightarrow> 'l) \<Rightarrow> nat \<Rightarrow> nat \<times> 'l loss \<Rightarrow> 'l wrapper \<Rightarrow> 'l wrapper result" where
  "train_iteration fl dv dpu_threshold el s =
     (case el of (epoch, loss) \<Rightarrow>
        if epoch \<le> dpu_threshold
        then ebind (wrapper_backward fl dv True True loss s) (\<lambda>(s1, _). wrapper_step s1)
        else
          ebind (wrapper_step_dpu s) (\<lambda>(s1, boundary_flag).
          ebind (wrapper_backward fl dv True True loss s1) (\<lambda>(s2, _).
            let s3 = call_opt OptPartitionAll s2 in
            Inr (if boundary_flag then call_opt OptUpdateNewParams s3 else s3))))"

section \<open>The schedule of the optimizer\<close>

definition scaled :: "('l \<Rightarrow> 'l) \<Rightarrow> (nat \<Rightarrow> 'l \<Rightarrow> 'l) \<Rightarrow> nat \<Rightarrow> 'l \<Rightarrow> 'l loss" where
  "scaled fl dv gas x = LTensor (if gas > 1 then dv gas (fl x) else x)"

definition usual_calls :: "('l \<Rightarrow> 'l) \<Rightarrow> (nat \<Rightarrow> 'l \<Rightarrow> 'l) \<Rightarrow> nat \<Rightarrow> (nat \<Rightarrow> 'l) \<Rightarrow> nat \<Rightarrow> 'l opt_call list" where
  "usual_calls fl dv gas x k =
     (let b = ((k + 1) mod gas = 0) in
      [SetBoundary b, OptBackward (scaled fl dv gas (x k)), SetBoundary b, Epilogue] @ (if b then [OptStep, OptZeroGrad] else []))"

definition delayed_calls :: "('l \<Rightarrow> 'l) \<Rightarrow> (nat \<Rightarrow> 'l \<Rightarrow> 'l) \<Rightarrow> nat \<Rightarrow> (nat \<Rightarrow> 'l) \<Rightarrow> nat \<Rightarrow> nat \<Rightarrow> 'l opt_call list" where
  "delayed_calls fl dv gas x n k =
     (let b = ((k + 1) mod gas = 0); b' = ((k + 2) mod gas = 0) in
      (if b then [OptStepDpu (k < n + gas), OptZeroGrad] else [])
      @ [SetBoundary b', OptBackward (scaled fl dv gas (x k)), SetBoundary b', Epilogue, OptPartitionAll]
      @ (if b then [OptUpdateNewParams] else []))"

definition new_wrapper :: "nat \<Rightarrow> 'l wrapper" where
  "new_wrapper gas = \<lparr>micro_steps = 0, global_steps = 0, dpu_steps = 0, gas_boundary_ctr = 0, is_boundary = False,
     gradient_accumulation_steps = gas, boundary_override = None, in_forward = (\<lambda>_. False), opt_calls = []\<rparr>"

lemma usual_iteration:
  assumes "0 < gradient_accumulation_steps s" and "boundary_override s = None" and "e \<le> thr"
  shows "\<exists>t. train_iteration fl dv thr (e, LTensor (x (micro_steps s))) s = Inr t
    \<and> opt_calls t = opt_calls s @ usual_calls fl dv (gradient_accumulation_steps s) x (micro_steps s)
    \<and> micro_steps t = micro_steps s + 1 \<and> dpu_steps t = dpu_steps s
    \<and> global_steps t = global_steps s + (if (micro_steps s + 1) mod gradient_accumulation_steps s = 0 then 1 else 0)
    \<and> gradient_accumulation_steps t = gradient_accumulation_steps s \<and> boundary_override t = None"
  using assms
  by (simp add: train_iteration_def wrapper_backward_def to_float_def scale_loss_by_gas_def is_gradient_accumulation_boundary_def
      wrapper_allreduce_gradients_def call_opt_def wrapper_step_def take_model_step_def Let_def usual_calls_def scaled_def)

lemma delayed_iteration:
  assumes "0 < gradient_accumulation_steps s" and "boundary_override s = None" and "thr < e"
    and "(micro_steps s + 1) mod gradient_accumulation_steps s = 0 \<Longrightarrow>
      dpu_steps s = 0 \<longleftrightarrow> micro_steps s < n + gradient_accumulation_steps s"
  shows "\<exists>t. train_iteration fl dv thr (e, LTensor (x (micro_steps s))) s = Inr t
    \<and> opt_calls t = opt_calls s @ delayed_calls fl dv (gradient_accumulation_steps s) x n (micro_steps s)
    \<and> micro_steps t = micro_steps s + 1
    \<and> dpu_steps t = dpu_steps s + (if (micro_steps s + 1) mod gradient_accumulation_steps s = 0 then 1 else 0)
    \<and> global_steps t = global_steps s + (if (micro_steps s + 1) mod gradient_accumulation_steps s = 0 then 1 else 0)
    \<and> gradient_accumulation_steps t = gradient_accumulation_steps s \<and> boundary_override t = None"
proof -
  have "\<not> e \<le> thr" using assms(3) by simp
  then show ?thesis using assms(1,2,4)
    by (simp add: train_iteration_def wrapper_backward_def to_float_def scale_loss_by_gas_def is_gradient_accumulation_boundary_def
        wrapper_allreduce_gradients_def call_opt_def wrapper_step_dpu_def wrapper_model_step_dpu_def Let_def delayed_calls_def scaled_def)
qed

lemma div_Suc_step: "0 < (g :: nat) \<Longrightarrow> (k + 1) div g = k div g + (if (k + 1) mod g = 0 then 1 else 0)"
  by (simp add: div_Suc)

lemma usual_run:
  assumes "0 < gas" and "\<And>k. k < n \<Longrightarrow> ep k \<le> thr"
  shows "\<exists>t. foldE (train_iteration fl dv thr) (map (\<lambda>k. (ep k, LTensor (x k))) [0..<n]) (new_wrapper gas) = Inr t
    \<and> opt_calls t = concat (map (usual_calls fl dv gas x) [0..<n]) \<and> micro_steps t = n \<and> dpu_steps t = 0
    \<and> global_steps t = n div gas \<and> gradient_accumulation_steps t = gas \<and> boundary_override t = None"
  using assms(2)
proof (induction n)
  case 0
  then show ?case by (simp add: new_wrapper_def)
next
  case (Suc n)
  then obtain s where s: "foldE (train_iteration fl dv thr) (map (\<lambda>k. (ep k, LTensor (x k))) [0..<n]) (new_wrapper gas) = Inr s"
      "opt_calls s = concat (map (usual_calls fl dv gas x) [0..<n])" "micro_steps s = n" "dpu_steps s = 0"
      "global_steps s = n div gas" "gradient_accumulation_steps s = gas" "boundary_override s = None"
    by (meson less_Suc_eq)
  obtain t where t: "train_iteration fl dv thr (ep n, LTensor (x n)) s = Inr t" "opt_calls t = opt_calls s @ usual_calls fl dv gas x n"
      "micro_steps t = n + 1" "dpu_steps t = 0" "global_steps t = n div gas + (if (n + 1) mod gas = 0 then 1 else 0)"
      "gradient_accumulation_steps t = gas" "boundary_override t = None"
    using usual_iteration [of s "ep n" thr fl dv x] assms(1) Suc.prems [of n] unfolding s(3-7) by blast
  have "foldE (train_iteration fl dv thr) (map (\<lambda>k. (ep k, LTensor (x k))) [0..<Suc n]) (new_wrapper gas) = Inr t"
    using s(1) t(1) by (simp add: foldE_append)
  then show ?case using t(2-7) s(2) div_Suc_step [OF assms(1), of n] by (intro exI [of _ t]) simp
qed

lemma delayed_run:
  assumes "0 < gas" and "gradient_accumulation_steps s = gas" and "boundary_override s = None" and "micro_steps s = n"
    and "dpu_steps s = 0" and "global_steps s = n div gas" and "\<And>k. n \<le> k \<Longrightarrow> k < n + m \<Longrightarrow> thr < ep k"
  shows "\<exists>t. foldE (train_iteration fl dv thr) (map (\<lambda>k. (ep k, LTensor (x k))) [n..<n + m]) s = Inr t
    \<and> opt_calls t = opt_calls s @ concat (map (delayed_calls fl dv gas x n) [n..<n + m]) \<and> micro_steps t = n + m
    \<and> dpu_steps t = (n + m) div gas - n div gas \<and> global_steps t = (n + m) div gas
    \<and> gradient_accumulation_steps t = gas \<and> boundary_override t = None"
  using assms(7)
proof (induction m)
  case 0
  then show ?case using assms by simp
next
  case (Suc m)
  have "thr < ep k" if "n \<le> k" "k < n + m" for k using Suc.prems [of k] that by simp
  then obtain t where t: "foldE (train_iteration fl dv thr) (map (\<lambda>k. (ep k, LTensor (x k))) [n..<n + m]) s = Inr t"
      "opt_calls t = opt_calls s @ concat (map (delayed_calls fl dv gas x n) [n..<n + m])" "micro_steps t = n + m"
      "dpu_steps t = (n + m) div gas - n div gas" "global_steps t = (n + m) div gas"
      "gradient_accumulation_steps t = gas" "boundary_override t = None"
    using Suc.IH by blast
  have first: "dpu_steps t = 0 \<longleftrightarrow> micro_steps t < n + gradient_accumulation_steps t"
    if "(micro_steps t + 1) mod gradient_accumulation_steps t = 0"
  proof -
    have "gas dvd n + m + 1" using that t by (simp add: mod_eq_0_iff_dvd)
    then obtain q where q: "n + m + 1 = gas * q" by blast
    then have "0 < q" by (cases q) auto
    then obtain q' where q': "q = Suc q'" by (cases q) auto
    have nm: "n + m = gas * q' + (gas - 1)" using q q' assms(1) by (simp add: algebra_simps)
    have "(gas * q' + (gas - 1)) div gas = q' + (gas - 1) div gas" using assms(1) by (intro div_mult_self4) simp
    then have d: "(n + m) div gas = q'" unfolding nm using assms(1) by simp
    have "q' \<le> n div gas \<longleftrightarrow> gas * q' \<le> n" using assms(1) by (metis less_eq_div_iff_mult_less_eq mult.commute)
    also have "\<dots> \<longleftrightarrow> n + m < n + gas" using nm assms(1) by linarith
    finally show ?thesis unfolding t d by simp
  qed
  obtain u where u: "train_iteration fl dv thr (ep (n + m), LTensor (x (n + m))) t = Inr u"
      "opt_calls u = opt_calls t @ delayed_calls fl dv gas x n (n + m)" "micro_steps u = n + m + 1"
      "dpu_steps u = (n + m) div gas - n div gas + (if (n + m + 1) mod gas = 0 then 1 else 0)"
      "global_steps u = (n + m) div gas + (if (n + m + 1) mod gas = 0 then 1 else 0)"
      "gradient_accumulation_steps u = gas" "boundary_override u = None"
    using delayed_iteration [of t thr "ep (n + m)" n fl dv x] first assms(1) Suc.prems [of "n + m"] unfolding t(3-7) by auto
  have "foldE (train_iteration fl dv thr) (map (\<lambda>k. (ep k, LTensor (x k))) [n..<n + Suc m]) s = Inr u"
    using t(1) u(1) by (simp add: foldE_append)
  moreover have "n div gas \<le> (n + m) div gas" by (simp add: div_le_mono)
  ultimately show ?case using u(2-7) t(2) div_Suc_step [OF assms(1), of "n + m"] by (intro exI [of _ u]) simp
qed

text \<open>
  C24. A training run with \<open>n\<close> usual and then \<open>m\<close> delayed iterations raises nothing and calls the
  optimizer as planned: it is stepped in every \<open>gas\<close>-th iteration and nowhere else, each backward
  pass gets its loss over \<open>gas\<close>, and only the first delayed step is marked as the first. A delayed
  iteration counts its micro step before the backward pass, so its backward pass is flagged as the
  boundary one iteration too early unless \<open>gas\<close> is 1.
\<close>

theorem training_schedule:
  assumes "0 < gas" and "\<And>k. k < n \<Longrightarrow> ep k \<le> thr" and "\<And>k. n \<le> k \<Longrightarrow> k < n + m \<Longrightarrow> thr < ep k"
  shows "\<exists>t. foldE (train_iteration fl dv thr) (map (\<lambda>k. (ep k, LTensor (x k))) [0..<n + m]) (new_wrapper gas) = Inr t
    \<and> opt_calls t = concat (map (usual_calls fl dv gas x) [0..<n]) @ concat (map (delayed_calls fl dv gas x n) [n..<n + m])
    \<and> global_steps t = (n + m) div gas \<and> dpu_steps t = (n + m) div gas - n div gas"
proof -
  obtain s where s: "foldE (train_iteration fl dv thr) (map (\<lambda>k. (ep k, LTensor (x k))) [0..<n]) (new_wrapper gas) = Inr s"
      "opt_calls s = concat (map (usual_calls fl dv gas x) [0..<n])" "micro_steps s = n" "dpu_steps s = 0"
      "global_steps s = n div gas" "gradient_accumulation_steps s = gas" "boundary_override s = None"
    using usual_run [of gas n ep thr fl dv x] assms(1,2) by blast
  have "[0..<n + m] = [0..<n] @ [n..<n + m]" using upt_add_eq_append [of 0 n m] by simp
  then show ?thesis
    using delayed_run [of gas s n m thr ep fl dv x] assms(1,3) s by (auto simp: foldE_append)
qed

theorem training_schedule_witness:
  "\<exists>t. foldE (train_iteration id (\<lambda>g y. y div int g) 0) [(0, LTensor 8), (0, LTensor 6), (1, LTensor 4), (1, LTensor 2)]
      (new_wrapper 2 :: int wrapper) = Inr t
    \<and> opt_calls t = [SetBoundary False, OptBackward (LTensor 4), SetBoundary False, Epilogue,
        SetBoundary True, OptBackward (LTensor 3), SetBoundary True, Epilogue, OptStep, OptZeroGrad,
        SetBoundary True, OptBackward (LTensor 2), SetBoundary True, Epilogue, OptPartitionAll,
        OptStepDpu True, OptZeroGrad, SetBoundary False, OptBackward (LTensor 1), SetBoundary False, Epilogue, OptPartitionAll,
        OptUpdateNewParams]"
proof -
  have "map (\<lambda>k. (k div 2, LTensor (8 - 2 * int k))) [0..<2 + 2] = [(0, LTensor 8), (0, LTensor 6), (1, LTensor 4), (1, LTensor 2)]"
    by code_simp
  moreover have "concat (map (usual_calls id (\<lambda>g y. y div int g) 2 (\<lambda>k. 8 - 2 * int k)) [0..<2])
      @ concat (map (delayed_calls id (\<lambda>g y. y div int g) 2 (\<lambda>k. 8 - 2 * int k) 2) [2..<2 + 2])
      = [SetBoundary False, OptBackward (LTensor 4), SetBoundary False, Epilogue,
        SetBoundary True, OptBackward (LTensor 3), SetBoundary True, Epilogue, OptStep, OptZeroGrad,
        SetBoundary True, OptBackward (LTensor 2), SetBoundary True, Epilogue, OptPartitionAll,
        OptStepDpu True, OptZeroGrad, SetBoundary False, OptBackward (LTensor 1), SetBoundary False, Epilogue, OptPartitionAll,
        OptUpdateNewParams]"
    by code_simp
  ultimately show ?thesis
    using training_schedule [of 2 2 "\<lambda>k. k div 2" 0 2 id "\<lambda>g y. y div int g" "\<lambda>k. 8 - 2 * int k"] by fastforce
qed

section \<open>Set-up\<close>

lemma occurrences_flat: "(\<Sum>grp \<leftarrow> gs. if p \<in> set grp then count_list grp p else 0) = count_list (concat gs) p"
  by (induction gs) auto

lemma foldE_asserts: "foldE (\<lambda>p _. assert_that (P p)) ps () = (if \<forall>p \<in> set ps. P p then Inr () else Inl AssertionError)"
proof (induction ps)
  case (Cons p ps)
  then show ?case by (cases "P p") auto
qed simp

text \<open>
  The groups the optimizer is set up with are the client's without the empty ones, and there are
  such exactly when no parameter of the module occurs twice in them, in one group or in several.
\<close>

theorem optimizer_groups:
  "configure_optimizer names groups =
     (if \<forall>p \<in> set names. count_list (concat groups) p \<le> 1 then Inr (filter (\<lambda>grp. grp \<noteq> []) groups) else Inl AssertionError)"
proof -
  have "concat (filter (\<lambda>grp. length grp \<noteq> 0) groups) = concat groups" by (induction groups) auto
  then show ?thesis
    unfolding configure_optimizer_def check_for_duplicates_def Let_def occurrences_flat foldE_asserts by simp
qed

text \<open>After the broadcast the ranks agree on every parameter that is not partitioned; the others are untouched.\<close>

lemma broadcast_model_agrees:
  "broadcast_model info params vals r p =
     (if p \<in> set params \<and> fst (info p) \<and> is_replicated (snd (info p)) then vals 0 p else vals r p)"
  unfolding broadcast_model_def by (induction params arbitrary: vals) auto

end
