(* ===== verification/StallTracker.thy ===== *)
theory StallTracker
  imports Complex_Main "HOL-Library.Multiset" Prelude
begin

text \<open>
  The tracker of communication stalls: \<^verbatim>\<open>src/common/stall_event_tracker.py\<close> and
  \<^verbatim>\<open>_stall_bracket\<close> of \<^verbatim>\<open>src/smartnic_offload/partition_parameters.py\<close>.

  A bracket records an event on a stream before and after a wait. What CUDA does is the argument
  \<open>stall_env\<close>: which events can be recorded, the time between two events, and which
  synchronisations succeed. Times are rationals; rounding is not modelled. Every method holds the
  lock where it touches the state, so a call is one step of the state.
\<close>

section \<open>State\<close>

datatype stream_op = RecordEvent nat nat | WaitOp nat

record stall_env =
  stall_enabled :: bool
  has_torch :: bool
  record_ok :: "nat \<Rightarrow> bool"
  elapsed_time :: "nat \<Rightarrow> nat \<Rightarrow> rat option"
  sync_ok :: "nat \<Rightarrow> bool"

record stall_handle =
  h_ev0 :: nat
  h_ev1 :: nat
  h_phase :: string
  h_op :: string
  h_ag_id :: nat
  h_ds_id :: int
  h_bytes :: nat
  h_iter :: int
  h_stream :: nat

record stall_record =
  r_epoch :: int
  r_iter :: int
  r_phase :: string
  r_op :: string
  r_ag_id :: nat
  r_ds_id :: int
  r_bytes :: nat
  r_ms :: rat

text \<open>The fields of the tracker, the events handed out so far, and what is enqueued on the streams.\<close>

record tracker =
  pending_events :: "stall_handle list"
  stall_records :: "stall_record list"
  iter_idx :: int
  epoch_idx :: int
  stall_counter :: nat
  frozen :: bool
  next_event :: nat
  stream_ops :: "stream_op list"
  syncs :: nat

definition init_tracker :: tracker where
  "init_tracker = \<lparr>pending_events = [], stall_records = [], iter_idx = - 1, epoch_idx = 0, stall_counter = 0,
     frozen = False, next_event = 0, stream_ops = [], syncs = 0\<rparr>"

definition set_iter :: "int \<Rightarrow> tracker \<Rightarrow> tracker" where
  "set_iter i s = s\<lparr>iter_idx := i\<rparr>"

definition set_epoch :: "int \<Rightarrow> tracker \<Rightarrow> tracker" where
  "set_epoch i s = s\<lparr>epoch_idx := i\<rparr>"

definition get_iter :: "tracker \<Rightarrow> int" where
  "get_iter s = iter_idx s"

section \<open>Bracketing\<close>

definition stall_begin ::
  "stall_env \<Rightarrow> nat \<Rightarrow> string \<Rightarrow> string \<Rightarrow> int \<Rightarrow> nat \<Rightarrow> tracker \<Rightarrow> tracker \<times> stall_handle option" where
  "stall_begin env stream phase op ds_id payload_bytes s =
     (if \<not> stall_enabled env \<or> \<not> has_torch env then (s, None)
      else
        let ev0 = next_event s; ev1 = next_event s + 1; s1 = s\<lparr>next_event := next_event s + 2\<rparr> in
        if \<not> record_ok env ev0 then (s1, None)
        else
          let s2 = s1\<lparr>stream_ops := stream_ops s1 @ [RecordEvent ev0 stream]\<rparr>;
              ag_id = stall_counter s2
          in (s2\<lparr>stall_counter := stall_counter s2 + 1\<rparr>,
              Some \<lparr>h_ev0 = ev0, h_ev1 = ev1, h_phase = phase, h_op = op, h_ag_id = ag_id, h_ds_id = ds_id,
                h_bytes = payload_bytes, h_iter = iter_idx s2, h_stream = stream\<rparr>))"

definition stall_end :: "stall_env \<Rightarrow> stall_handle option \<Rightarrow> tracker \<Rightarrow> tracker" where
  "stall_end env handle s =
     (case handle of
        None \<Rightarrow> s
      | Some h \<Rightarrow>
          if \<not> record_ok env (h_ev1 h) then s
          else s\<lparr>stream_ops := stream_ops s @ [RecordEvent (h_ev1 h) (h_stream h)],
                 pending_events := pending_events s @ [h]\<rparr>)"

text \<open>
  A wait enqueues operations on a stream and returns or raises. The parameters are given by id,
  elements and element size.
\<close>

definition stall_bracket ::
  "stall_env \<Rightarrow> nat \<Rightarrow> string \<Rightarrow> stream_op list \<times> 'r result \<Rightarrow> (int \<times> nat \<times> nat) list \<Rightarrow> string \<Rightarrow> nat
    \<Rightarrow> tracker \<Rightarrow> tracker \<times> 'r result" where
  "stall_bracket env stream ag_phase wait_callable params_list op num_bytes s =
     (let wait = (\<lambda>s. (s\<lparr>stream_ops := stream_ops s @ fst wait_callable\<rparr>, snd wait_callable)) in
      if \<not> stall_enabled env then wait s
      else
        let nbytes = (if params_list \<noteq> [] then \<Sum>(_, ds_numel, element_size) \<leftarrow> params_list. ds_numel * element_size else num_bytes);
            ds_id = (case params_list of [] \<Rightarrow> - 1 | (i, _, _) # _ \<Rightarrow> i);
            (s1, handle) = stall_begin env stream ag_phase op ds_id nbytes s;
            (s2, r) = wait s1
        in (stall_end env handle s2, r))"

section \<open>Drain and reset\<close>

definition record_of :: "stall_env \<Rightarrow> int \<Rightarrow> stall_handle \<Rightarrow> stall_record list" where
  "record_of env epoch h =
     (case elapsed_time env (h_ev0 h) (h_ev1 h) of
        None \<Rightarrow> []
      | Some ms \<Rightarrow> [\<lparr>r_epoch = epoch, r_iter = h_iter h, r_phase = h_phase h, r_op = h_op h, r_ag_id = h_ag_id h,
          r_ds_id = h_ds_id h, r_bytes = h_bytes h, r_ms = (if ms < 0 then 0 else ms)\<rparr>])"

definition stall_drain :: "stall_env \<Rightarrow> tracker \<Rightarrow> tracker" where
  "stall_drain env s =
     (if \<not> stall_enabled env \<or> \<not> has_torch env then s
      else if frozen s \<or> pending_events s = [] then s
      else
        let pending = pending_events s; s1 = s\<lparr>pending_events := [], syncs := syncs s + 1\<rparr> in
        if \<not> sync_ok env (syncs s) then s1
        else s1\<lparr>stall_records := stall_records s1 @ concat (map (record_of env (epoch_idx s1)) pending)\<rparr>)"

definition freeze :: "tracker \<Rightarrow> tracker" where
  "freeze s = s\<lparr>frozen := True\<rparr>"

definition reset_tracker :: "tracker \<Rightarrow> tracker" where
  "reset_tracker s = s\<lparr>stall_records := [], pending_events := [], stall_counter := 0, iter_idx := - 1\<rparr>"

text \<open>\<^verbatim>\<open>dump_json\<close>: the records the file gets, if one is written.\<close>

definition dump_json :: "stall_env \<Rightarrow> tracker \<Rightarrow> tracker \<times> stall_record list option" where
  "dump_json env s =
     (if \<not> stall_enabled env then (s, None)
      else let s1 = stall_drain env s in (s1, Some (stall_records s1)))"

section \<open>Summary\<close>

record stall_stats =
  st_count :: nat
  total_ms :: rat
  mean_ms :: rat
  p50_ms :: rat
  p95_ms :: rat
  max_ms :: rat

text \<open>The groups are a dictionary, in the order in which the keys appear.\<close>

fun add_group :: "stall_record \<Rightarrow> ((string \<times> string) \<times> rat list) list \<Rightarrow> ((string \<times> string) \<times> rat list) list" where
  "add_group r [] = [((r_phase r, r_op r), [r_ms r])]"
| "add_group r ((k, vs) # gs) = (if k = (r_phase r, r_op r) then (k, vs @ [r_ms r]) # gs else (k, vs) # add_group r gs)"

definition group_records :: "stall_record list \<Rightarrow> ((string \<times> string) \<times> rat list) list" where
  "group_records recs = fold add_group recs []"

definition group_stats :: "rat list \<Rightarrow> stall_stats" where
  "group_stats vs0 =
     (let vs = sort vs0; n = length vs in
      \<lparr>st_count = n, total_ms = sum_list vs, mean_ms = sum_list vs / of_nat n, p50_ms = vs ! (n div 2),
       p95_ms = vs ! (min (n * 95 div 100) (n - 1)), max_ms = last vs\<rparr>)"

definition summary :: "stall_env \<Rightarrow> tracker \<Rightarrow> tracker \<times> (string \<rightharpoonup> stall_stats)" where
  "summary env s =
     (if \<not> stall_enabled env then (s, Map.empty)
      else
        let s1 = stall_drain env s in
        (s1, fold (\<lambda>((phase, op), vs) out. if vs = [] then out else out(phase @ ''.'' @ op \<mapsto> group_stats vs))
               (group_records (stall_records s1)) Map.empty))"

definition default_dump_path :: "string option \<Rightarrow> string \<Rightarrow> string \<Rightarrow> string" where
  "default_dump_path p rank label =
     (case p of
        Some path \<Rightarrow> if path \<noteq> [] then path else ''logs/'' @ label @ ''_rank'' @ rank @ ''.json''
      | None \<Rightarrow> ''logs/'' @ label @ ''_rank'' @ rank @ ''.json'')"

section \<open>A bracket does not change the wait\<close>

text \<open>
  A bracket gives what the wait gives, whether it returns or raises, and enqueues the wait's
  operations once. Where both events can be recorded they stand directly before and after the
  operations of the wait, and the tracker has one handle more, with the stream's phase, the id of
  the first parameter and the size of all of them.
\<close>

theorem bracket_transparent:
  "case stall_bracket env stream ag_phase (ops, r) ps op num_bytes s of (t, r') \<Rightarrow>
     let on = stall_enabled env \<and> has_torch env \<and> record_ok env (next_event s);
         both = on \<and> record_ok env (next_event s + 1)
     in r' = r \<and> stall_records t = stall_records s
       \<and> stream_ops t = stream_ops s @ (if on then [RecordEvent (next_event s) stream] else []) @ ops
           @ (if both then [RecordEvent (next_event s + 1) stream] else [])
       \<and> stall_counter t = stall_counter s + (if on then 1 else 0)
       \<and> map (\<lambda>h. (h_ag_id h, h_ds_id h, h_bytes h, h_iter h, h_phase h)) (pending_events t)
         = map (\<lambda>h. (h_ag_id h, h_ds_id h, h_bytes h, h_iter h, h_phase h)) (pending_events s)
           @ (if both then [(stall_counter s, if ps = [] then - 1 else fst (hd ps),
                if ps = [] then num_bytes else \<Sum>(_, n, k) \<leftarrow> ps. n * k, iter_idx s, ag_phase)] else [])"
  by (cases ps) (simp_all add: stall_bracket_def stall_begin_def stall_end_def Let_def split: prod.splits)

section \<open>Every bracket is recorded once\<close>

text \<open>
  The calls on the tracker, in the order in which they take the lock; brackets of several threads
  may overlap. \<open>SEnd k\<close> ends the \<open>k\<close>-th open bracket.
\<close>

datatype stall_event =
    SBegin nat string string int nat
  | SEnd nat
  | SSetIter int
  | SSetEpoch int
  | SDrain
  | SFreeze
  | SReset

fun stall_step :: "stall_env \<Rightarrow> stall_event \<Rightarrow> tracker \<times> stall_handle list \<Rightarrow> tracker \<times> stall_handle list" where
  "stall_step env (SBegin stream phase op ds n) (s, hs) =
     (case stall_begin env stream phase op ds n s of (t, None) \<Rightarrow> (t, hs) | (t, Some h) \<Rightarrow> (t, hs @ [h]))"
| "stall_step env (SEnd k) (s, hs) =
     (if k < length hs then (stall_end env (Some (hs ! k)) s, take k hs @ drop (Suc k) hs) else (s, hs))"
| "stall_step env (SSetIter i) (s, hs) = (set_iter i s, hs)"
| "stall_step env (SSetEpoch i) (s, hs) = (set_epoch i s, hs)"
| "stall_step env SDrain (s, hs) = (stall_drain env s, hs)"
| "stall_step env SFreeze (s, hs) = (freeze s, hs)"
| "stall_step env SReset (s, hs) = (reset_tracker s, hs)"

definition stall_run :: "stall_env \<Rightarrow> stall_event list \<Rightarrow> tracker \<times> stall_handle list \<Rightarrow> tracker \<times> stall_handle list" where
  "stall_run env evs s = fold (stall_step env) evs s"

text \<open>The brackets begun, with the iteration they began in.\<close>

fun begun :: "int \<Rightarrow> stall_event list \<Rightarrow> (string \<times> string \<times> int \<times> nat \<times> int) list" where
  "begun i [] = []"
| "begun i (SBegin stream phase op ds n # evs) = (phase, op, ds, n, i) # begun i evs"
| "begun i (SSetIter j # evs) = begun j evs"
| "begun i (_ # evs) = begun i evs"

definition all_ok :: "stall_env \<Rightarrow> bool" where
  "all_ok env \<longleftrightarrow> stall_enabled env \<and> has_torch env \<and> (\<forall>e. record_ok env e) \<and> (\<forall>a b. elapsed_time env a b \<noteq> None)
     \<and> (\<forall>k. sync_ok env k)"

definition h_key :: "stall_handle \<Rightarrow> nat \<times> string \<times> string \<times> int \<times> nat \<times> int" where
  "h_key h = (h_ag_id h, h_phase h, h_op h, h_ds_id h, h_bytes h, h_iter h)"

definition r_key :: "stall_record \<Rightarrow> nat \<times> string \<times> string \<times> int \<times> nat \<times> int" where
  "r_key r = (r_ag_id r, r_phase r, r_op r, r_ds_id r, r_bytes r, r_iter r)"

definition seen :: "tracker \<times> stall_handle list \<Rightarrow> (nat \<times> string \<times> string \<times> int \<times> nat \<times> int) multiset" where
  "seen s = mset (map r_key (stall_records (fst s))) + mset (map h_key (pending_events (fst s))) + mset (map h_key (snd s))"

lemma record_of_ok: "all_ok env \<Longrightarrow> map r_key (record_of env e h) = [h_key h]"
  by (auto simp: all_ok_def record_of_def r_key_def h_key_def split: option.splits)

lemma records_of_ok: "all_ok env \<Longrightarrow> map r_key (concat (map (record_of env e) hs)) = map h_key hs"
  by (induction hs) (simp_all add: record_of_ok)

lemma begin_ok:
  assumes "all_ok env"
  shows "\<exists>t h. stall_begin env stream phase op ds n s = (t, Some h)
    \<and> h_key h = (stall_counter s, phase, op, ds, n, iter_idx s) \<and> stall_counter t = stall_counter s + 1
    \<and> pending_events t = pending_events s \<and> stall_records t = stall_records s \<and> iter_idx t = iter_idx s \<and> frozen t = frozen s"
  using assms by (simp add: all_ok_def stall_begin_def h_key_def Let_def)

lemma mset_take_drop: "k < length xs \<Longrightarrow> mset (map f (take k xs)) + mset (map f (drop (Suc k) xs)) + {#f (xs ! k)#} = mset (map f xs)"
proof -
  assume k: "k < length xs"
  have "mset (map f xs) = mset (map f (take k xs @ xs ! k # drop (Suc k) xs))" using id_take_nth_drop [OF k] by simp
  then show ?thesis by simp
qed

lemma end_ok:
  assumes "all_ok env" and "k < length hs"
  shows "seen (stall_step env (SEnd k) (s, hs)) = seen (s, hs)"
proof -
  have rec: "record_ok env e" for e using assms(1) by (simp add: all_ok_def)
  have "seen (stall_step env (SEnd k) (s, hs)) = mset (map r_key (stall_records s)) + mset (map h_key (pending_events s))
      + (mset (map h_key (take k hs)) + mset (map h_key (drop (Suc k) hs)) + {#h_key (hs ! k)#})"
    using assms(2) by (simp add: seen_def stall_end_def rec del: mset_map)
  then show ?thesis unfolding mset_take_drop [OF assms(2)] by (simp add: seen_def del: mset_map)
qed

lemma drain_ok: "all_ok env \<Longrightarrow> seen (stall_step env SDrain (s, hs)) = seen (s, hs)"
  by (auto simp: seen_def stall_drain_def Let_def records_of_ok all_ok_def simp del: mset_map)

lemma drain_fields:
  "stall_counter (stall_drain env s) = stall_counter s \<and> iter_idx (stall_drain env s) = iter_idx s \<and> frozen (stall_drain env s) = frozen s"
  by (auto simp: stall_drain_def Let_def)

lemma init_fields: "stall_counter init_tracker = 0" "iter_idx init_tracker = - 1" "\<not> frozen init_tracker" "seen (init_tracker, []) = {#}"
  by (simp_all add: init_tracker_def seen_def)

lemma drain_empties: "all_ok env \<Longrightarrow> \<not> frozen s \<Longrightarrow> pending_events (stall_drain env s) = []"
  by (simp add: stall_drain_def Let_def all_ok_def)

lemma run_keeps:
  assumes "all_ok env" and "set evs \<inter> {SFreeze, SReset} = {}" and "\<not> frozen s"
  shows "seen (stall_run env evs (s, hs)) = seen (s, hs) + mset (enumerate (stall_counter s) (begun (iter_idx s) evs))
    \<and> \<not> frozen (fst (stall_run env evs (s, hs)))"
  using assms(2,3)
proof (induction evs arbitrary: s hs)
  case Nil
  then show ?case by (simp add: stall_run_def)
next
  case (Cons ev evs)
  obtain t hs' where step: "stall_step env ev (s, hs) = (t, hs')" by fastforce
  have run: "stall_run env (ev # evs) (s, hs) = stall_run env evs (t, hs')" by (simp add: stall_run_def step)
  have IH: "seen (stall_run env evs (t, hs')) = seen (t, hs') + mset (enumerate (stall_counter t) (begun (iter_idx t) evs))
      \<and> \<not> frozen (fst (stall_run env evs (t, hs')))" if "\<not> frozen t"
    using Cons.IH [of t hs'] Cons.prems(1) that by simp
  show ?case
  proof (cases ev)
    case (SBegin stream phase op ds n)
    obtain t' h where b: "stall_begin env stream phase op ds n s = (t', Some h)"
        "h_key h = (stall_counter s, phase, op, ds, n, iter_idx s)" "stall_counter t' = stall_counter s + 1"
        "pending_events t' = pending_events s" "stall_records t' = stall_records s" "iter_idx t' = iter_idx s" "frozen t' = frozen s"
      using begin_ok [OF assms(1), of stream phase op ds n s] by blast
    have t: "t = t'" "hs' = hs @ [h]" using step by (simp_all add: SBegin b(1))
    show ?thesis unfolding run using IH Cons.prems(2) by (simp add: SBegin t b seen_def)
  next
    case (SEnd k)
    have keep: "stall_counter t = stall_counter s \<and> iter_idx t = iter_idx s \<and> frozen t = frozen s" and eq: "seen (t, hs') = seen (s, hs)"
      using step end_ok [OF assms(1), of k hs s] by (auto simp: SEnd stall_end_def split: if_splits)
    then show ?thesis unfolding run using IH Cons.prems(2) by (simp add: SEnd)
  next
    case SDrain
    have keep: "stall_counter t = stall_counter s \<and> iter_idx t = iter_idx s \<and> frozen t = frozen s" and eq: "seen (t, hs') = seen (s, hs)"
      using step drain_ok [OF assms(1), of s hs] drain_fields [of env s] by (auto simp: SDrain)
    then show ?thesis unfolding run using IH Cons.prems(2) by (simp add: SDrain)
  next
    case (SSetIter i)
    then show ?thesis unfolding run using IH Cons.prems(2) step by (auto simp: set_iter_def seen_def)
  next
    case (SSetEpoch i)
    then show ?thesis unfolding run using IH Cons.prems(2) step by (auto simp: set_epoch_def seen_def)
  qed (use Cons.prems(1) in auto)
qed

text \<open>
  C32. In every sequence of calls in which nothing fails and the tracker is neither frozen nor reset,
  brackets of several threads overlapping, a final drain with no bracket open leaves exactly one
  record for each bracket begun: with its phase, operation, parameter and size, and with the
  iteration in which it began. Their ids are the numbers of the brackets in the order of their
  beginnings.
\<close>

theorem stall_exactly_once:
  assumes "all_ok env" and "set evs \<inter> {SFreeze, SReset} = {}" and "snd (stall_run env evs (init_tracker, [])) = []"
  shows "mset (map r_key (stall_records (stall_drain env (fst (stall_run env evs (init_tracker, []))))))
    = mset (enumerate 0 (begun (- 1) evs))"
proof -
  obtain s where s: "stall_run env evs (init_tracker, []) = (s, [])" using assms(3) by (metis prod.collapse)
  have run: "seen (s, []) = mset (enumerate 0 (begun (- 1) evs))" "\<not> frozen s"
    using run_keeps [OF assms(1,2) init_fields(3), of "[]"] by (simp_all add: s init_fields)
  have "seen (stall_drain env s, []) = seen (s, [])" using drain_ok [OF assms(1), of s "[]"] by simp
  then show ?thesis using run drain_empties [OF assms(1) run(2)] by (simp add: s seen_def)
qed

text \<open>
  A frozen tracker takes no record any more: whatever is called afterwards, resets included,
  its records are among those it had, while the ended brackets pile up in \<open>pending_events\<close>.
\<close>

theorem frozen_for_ever:
  assumes "frozen s"
  shows "frozen (fst (stall_run env evs (s, hs))) \<and> set (stall_records (fst (stall_run env evs (s, hs)))) \<subseteq> set (stall_records s)"
  using assms
proof (induction evs arbitrary: s hs)
  case Nil
  then show ?case by (simp add: stall_run_def)
next
  case (Cons ev evs)
  obtain t hs' where step: "stall_step env ev (s, hs) = (t, hs')" by fastforce
  have "frozen t \<and> set (stall_records t) \<subseteq> set (stall_records s)"
    using step Cons.prems
    by (cases ev) (auto simp: stall_begin_def stall_end_def set_iter_def set_epoch_def stall_drain_def freeze_def
        reset_tracker_def Let_def split: if_splits)
  then show ?case using Cons.IH [of t hs'] by (auto simp: stall_run_def step)
qed

section \<open>Summary\<close>

definition times_of :: "stall_record list \<Rightarrow> string \<times> string \<Rightarrow> rat list" where
  "times_of recs k = map r_ms (filter (\<lambda>r. (r_phase r, r_op r) = k) recs)"

lemma add_group_lookup:
  assumes "distinct (map fst gs)"
  shows "map_of (add_group r gs) = (map_of gs)((r_phase r, r_op r) \<mapsto>
      (case map_of gs (r_phase r, r_op r) of None \<Rightarrow> [] | Some vs \<Rightarrow> vs) @ [r_ms r])"
    and "set (map fst (add_group r gs)) = insert (r_phase r, r_op r) (set (map fst gs))"
    and "distinct (map fst (add_group r gs))"
  using assms by (induction r gs rule: add_group.induct) (auto simp: fun_eq_iff)

lemma group_records_lookup:
  "distinct (map fst (group_records recs))
    \<and> map_of (group_records recs) k = (if times_of recs k = [] then None else Some (times_of recs k))"
proof (induction recs arbitrary: k rule: rev_induct)
  case Nil
  then show ?case by (simp add: group_records_def times_of_def)
next
  case (snoc r recs)
  have app: "group_records (recs @ [r]) = add_group r (group_records recs)" by (simp add: group_records_def)
  have d: "distinct (map fst (group_records recs))" using snoc.IH by blast
  show ?case
    using snoc.IH [of k] add_group_lookup(1,3) [OF d, of r]
    by (cases "(r_phase r, r_op r) = k") (auto simp: app times_of_def)
qed

lemma joined_key:
  assumes "CHR ''.'' \<notin> set a" and "CHR ''.'' \<notin> set c" and "a @ CHR ''.'' # b = c @ CHR ''.'' # d"
  shows "a = c \<and> b = d"
  using assms
proof (induction a arbitrary: c)
  case Nil
  then show ?case by (cases c) auto
next
  case (Cons x a)
  then show ?case by (cases c) auto
qed

lemma summary_fold:
  assumes "distinct (map fst gs)" and "\<forall>(k, vs) \<in> set gs. CHR ''.'' \<notin> set (fst k)" and "CHR ''.'' \<notin> set phase"
  shows "fold (\<lambda>((phase, op), vs) out. if vs = [] then out else out(phase @ ''.'' @ op \<mapsto> group_stats vs)) gs m (phase @ ''.'' @ op)
    = (case map_of gs (phase, op) of None \<Rightarrow> m (phase @ ''.'' @ op)
       | Some vs \<Rightarrow> if vs = [] then m (phase @ ''.'' @ op) else Some (group_stats vs))"
  using assms(1,2)
proof (induction gs arbitrary: m)
  case Nil
  then show ?case by simp
next
  case (Cons g gs)
  obtain p o' vs where g: "g = ((p, o'), vs)" by (metis surj_pair)
  have dot: "CHR ''.'' \<notin> set p" using Cons.prems(2) by (simp add: g)
  have IH: "fold (\<lambda>((phase, op), vs) out. if vs = [] then out else out(phase @ ''.'' @ op \<mapsto> group_stats vs)) gs m (phase @ ''.'' @ op)
    = (case map_of gs (phase, op) of None \<Rightarrow> m (phase @ ''.'' @ op)
       | Some vs \<Rightarrow> if vs = [] then m (phase @ ''.'' @ op) else Some (group_stats vs))" for m
    using Cons by simp
  show ?case
  proof (cases "p = phase \<and> o' = op")
    case True
    then have "map_of gs (phase, op) = None" using Cons.prems(1) by (auto simp: g map_of_eq_None_iff)
    then show ?thesis using True by (simp add: g IH [simplified])
  next
    case False
    then have "p @ CHR ''.'' # o' \<noteq> phase @ CHR ''.'' # op" using joined_key [OF dot assms(3)] by blast
    then show ?thesis using False by (auto simp: g IH [simplified] split: option.splits)
  qed
qed

lemma group_stats_ok:
  assumes "vs \<noteq> []"
  shows "st_count (group_stats vs) = length vs" "total_ms (group_stats vs) = sum_list vs"
    "mean_ms (group_stats vs) * of_nat (length vs) = sum_list vs" "p50_ms (group_stats vs) \<in> set vs"
    "p50_ms (group_stats vs) \<le> p95_ms (group_stats vs)" "p95_ms (group_stats vs) \<le> max_ms (group_stats vs)"
    "max_ms (group_stats vs) = Max (set vs)"
proof -
  let ?s = "sort vs" and ?n = "length vs"
  have n: "0 < ?n" using assms by simp
  have s: "sorted ?s" "length ?s = ?n" "set ?s = set vs" by simp_all
  then have "?s \<noteq> []" using n by (metis length_greater_0_conv)
  note s = s this
  have last: "last ?s = ?s ! (?n - 1)" using s(2,4) by (simp add: last_conv_nth)
  have sum: "sum_list ?s = sum_list vs" by (metis mset_sort sum_mset_sum_list)
  show "st_count (group_stats vs) = ?n" "total_ms (group_stats vs) = sum_list vs"
    "mean_ms (group_stats vs) * of_nat ?n = sum_list vs"
    using n by (simp_all add: group_stats_def Let_def sum)
  have lt: "19 * ?n div 20 < ?n" using n by linarith
  have i: "?n div 2 \<le> min (?n * 95 div 100) (?n - 1)" using n by linarith
  show "p50_ms (group_stats vs) \<in> set vs"
    using n s(2,3) nth_mem [of "?n div 2" ?s] by (simp add: group_stats_def Let_def)
  show "p50_ms (group_stats vs) \<le> p95_ms (group_stats vs)"
    using sorted_nth_mono [OF s(1) i] n s(2) lt by (simp add: group_stats_def Let_def)
  show "p95_ms (group_stats vs) \<le> max_ms (group_stats vs)"
    using sorted_nth_mono [OF s(1), of "min (?n * 95 div 100) (?n - 1)" "?n - 1"] n s(2) last lt
    by (simp add: group_stats_def Let_def)
  have "last ?s = Max (set ?s)"
  proof (rule Max_eqI [symmetric])
    fix y assume "y \<in> set ?s"
    then show "y \<le> last ?s" using s last by (metis Suc_pred' in_set_conv_nth less_Suc_eq_le n sorted_nth_mono diff_less zero_less_one)
  next
    show "last ?s \<in> set ?s" using s(4) by (rule last_in_set)
  qed simp
  then show "max_ms (group_stats vs) = Max (set vs)" using s(3) by (simp add: group_stats_def Let_def)
qed

text \<open>
  The summary has an entry for a phase and an operation exactly when there are records of the
  two, and it is about all their times: their number, their sum, the mean, a median that is one of
  them, and \<open>p50 \<le> p95 \<le> max\<close> with the largest time at the end. The names are unambiguous as long as
  no phase contains a dot.
\<close>

theorem summary_groups:
  assumes "stall_enabled env" and "summary env s = (t, out)" and "\<forall>r \<in> set (stall_records t). CHR ''.'' \<notin> set (r_phase r)"
    and "CHR ''.'' \<notin> set phase"
  shows "t = stall_drain env s
    \<and> (let vs = times_of (stall_records t) (phase, op) in
       case out (phase @ ''.'' @ op) of
         None \<Rightarrow> vs = []
       | Some st \<Rightarrow> vs \<noteq> [] \<and> st_count st = length vs \<and> total_ms st = sum_list vs \<and> mean_ms st * of_nat (length vs) = sum_list vs
           \<and> p50_ms st \<in> set vs \<and> p50_ms st \<le> p95_ms st \<and> p95_ms st \<le> max_ms st \<and> max_ms st = Max (set vs))"
proof -
  let ?recs = "stall_records (stall_drain env s)"
  have t: "t = stall_drain env s" using assms(1,2) by (simp add: summary_def Let_def)
  have d: "distinct (map fst (group_records ?recs))" using group_records_lookup by blast
  have dots: "\<forall>(k, vs) \<in> set (group_records ?recs). CHR ''.'' \<notin> set (fst k)"
  proof clarify
    fix p o' vs assume "((p, o'), vs) \<in> set (group_records ?recs)" and dot: "CHR ''.'' \<in> set (fst (p, o'))"
    then have "times_of ?recs (p, o') \<noteq> []"
      using group_records_lookup [of ?recs "(p, o')"] map_of_is_SomeI [OF d] by (metis option.distinct(1))
    then obtain r where "r \<in> set ?recs" "r_phase r = p" by (auto simp: times_of_def filter_empty_conv)
    then show False using assms(3) dot by (auto simp: t)
  qed
  have "out (phase @ ''.'' @ op) = (if times_of ?recs (phase, op) = [] then None else Some (group_stats (times_of ?recs (phase, op))))"
    using assms(1,2) summary_fold [OF d dots assms(4), of Map.empty op] group_records_lookup [of ?recs "(phase, op)"]
    by (auto simp: summary_def Let_def split: if_splits)
  then show ?thesis using t group_stats_ok [of "times_of ?recs (phase, op)"] by (simp add: Let_def)
qed

section \<open>Witnesses\<close>

definition demo_stall_env :: stall_env where
  "demo_stall_env = \<lparr>stall_enabled = True, has_torch = True, record_ok = (\<lambda>_. True),
     elapsed_time = (\<lambda>a b. Some (of_nat (a * a) - 3)), sync_ok = (\<lambda>_. True)\<rparr>"

definition demo_events :: "stall_event list" where
  "demo_events = [SSetIter 0, SBegin 7 ''forward'' ''ag'' 3 64, SBegin 8 ''backward'' ''rs'' (- 1) 32, SEnd 0, SDrain, SSetIter 1,
     SBegin 7 ''forward'' ''ag'' 4 16, SEnd 1, SEnd 0]"

lemma demo_all_ok: "all_ok demo_stall_env"
  by (simp add: all_ok_def demo_stall_env_def)

theorem stall_exactly_once_witness:
  "mset (map r_key (stall_records (stall_drain demo_stall_env (fst (stall_run demo_stall_env demo_events (init_tracker, []))))))
    = {#(0, ''forward'', ''ag'', 3, 64, 0), (1, ''backward'', ''rs'', - 1, 32, 0), (2, ''forward'', ''ag'', 4, 16, 1)#}"
proof -
  have "snd (stall_run demo_stall_env demo_events (init_tracker, [])) = []"
    by (simp add: demo_events_def stall_run_def demo_stall_env_def init_tracker_def stall_begin_def stall_end_def set_iter_def
        stall_drain_def Let_def record_of_def)
  then show ?thesis using stall_exactly_once [OF demo_all_ok, of demo_events] by (simp add: demo_events_def)
qed

theorem frozen_for_ever_witness:
  "set (stall_records (fst (stall_run demo_stall_env (SReset # demo_events @ [SDrain]) (freeze init_tracker, [])))) = {}"
  using frozen_for_ever [of "freeze init_tracker" demo_stall_env "SReset # demo_events @ [SDrain]" "[]"]
  by (simp add: freeze_def init_tracker_def)

definition demo_records :: "stall_record list" where
  "demo_records = map (\<lambda>(p, n). \<lparr>r_epoch = 0, r_iter = 0, r_phase = p, r_op = ''ag'', r_ag_id = n, r_ds_id = 0, r_bytes = 8, r_ms = of_nat n\<rparr>)
     [(''forward'', 5), (''backward'', 9), (''forward'', 2), (''forward'', 7)]"

theorem summary_groups_witness:
  "case snd (summary demo_stall_env (init_tracker\<lparr>stall_records := demo_records\<rparr>)) ''forward.ag'' of
     None \<Rightarrow> False
   | Some st \<Rightarrow> st_count st = 3 \<and> total_ms st = 14 \<and> max_ms st = 7"
proof -
  let ?s = "init_tracker\<lparr>stall_records := demo_records\<rparr>"
  obtain t out where su: "summary demo_stall_env ?s = (t, out)" by fastforce
  have t: "stall_records (stall_drain demo_stall_env ?s) = demo_records"
    by (simp add: stall_drain_def init_tracker_def demo_stall_env_def)
  have tt: "t = stall_drain demo_stall_env ?s" using su by (simp add: summary_def demo_stall_env_def Let_def)
  have vs: "times_of demo_records (''forward'', ''ag'') = [5, 2, 7]"
    by (simp add: times_of_def demo_records_def)
  have dots: "\<forall>r \<in> set (stall_records t). CHR ''.'' \<notin> set (r_phase r)" "CHR ''.'' \<notin> set ''forward''"
    unfolding tt t by (simp_all add: demo_records_def)
  have on: "stall_enabled demo_stall_env" by (simp add: demo_stall_env_def)
  have "stall_records t = demo_records" unfolding tt by (rule t)
  then show ?thesis
    using summary_groups [OF on su dots, of "''ag''"] by (simp add: su vs split: option.splits)
qed

end
