(* ===== verification/CommStats.thy ===== *)
theory CommStats
  imports Complex_Main "HOL-Library.Multiset" Prelude
begin

text \<open>
  The accounting of communication times: the module-level counters of
  \<^verbatim>\<open>src/smartnic_offload/partition_parameters.py\<close> (all-gathers, copies of shards and of full
  parameters) and of \<^verbatim>\<open>src/smartnic_offload/zero_optimizer.py\<close> (reduce-scatters, gradient offload).

  Times are rationals, seconds on the clock and milliseconds in the counters; rounding is not
  modelled. The reports are the rows the print functions format.
\<close>

section \<open>Counters\<close>

text \<open>One row per all-gather: size, DPU time, blocking time, enqueue time, lead of the prefetch, wall time.\<close>

record ag_row =
  a_nbytes :: nat
  a_dpu_ms :: rat
  a_block_ms :: rat
  a_enqueue_ms :: rat
  a_prefetch_lead_ms :: rat
  a_wall_ms :: rat

record comm_stats =
  param_shard_h2d_ms :: rat
  param_shard_h2d_calls :: nat
  ag_calls :: nat
  ag_dpu_ms :: rat
  ag_block_ms :: rat
  ag_bytes :: nat
  ag_last_complete :: rat
  ag_phase :: string
  fwd_block_ms :: rat
  bwd_block_ms :: rat
  fwd_calls :: nat
  bwd_calls :: nat
  ag_records :: "ag_row list"
  full_parameter_calls :: nat
  full_parameter_bytes :: nat
  full_parameter_dma_poll_ms :: rat
  full_parameter_pending :: "(nat \<times> nat) list"
  grad_offload_ms :: rat
  grad_offload_calls :: nat
  rs_time_ms :: rat
  rs_calls :: nat
  rs_records :: "(nat \<times> rat \<times> rat \<times> rat) list"

definition init_stats :: comm_stats where
  "init_stats = \<lparr>param_shard_h2d_ms = 0, param_shard_h2d_calls = 0, ag_calls = 0, ag_dpu_ms = 0, ag_block_ms = 0, ag_bytes = 0,
     ag_last_complete = 0, ag_phase = ''unknown'', fwd_block_ms = 0, bwd_block_ms = 0, fwd_calls = 0, bwd_calls = 0,
     ag_records = [], full_parameter_calls = 0, full_parameter_bytes = 0, full_parameter_dma_poll_ms = 0,
     full_parameter_pending = [], grad_offload_ms = 0, grad_offload_calls = 0, rs_time_ms = 0, rs_calls = 0, rs_records = []\<rparr>"

definition accumulate_param_shard_h2d :: "rat \<Rightarrow> comm_stats \<Rightarrow> comm_stats" where
  "accumulate_param_shard_h2d delta_ms s =
     s\<lparr>param_shard_h2d_ms := param_shard_h2d_ms s + delta_ms, param_shard_h2d_calls := param_shard_h2d_calls s + 1\<rparr>"

text \<open>The DPU works on one request at a time: what lies before the last completion is queueing.\<close>

definition dpu_time :: "rat \<Rightarrow> rat \<Rightarrow> rat \<Rightarrow> rat" where
  "dpu_time last_complete t_request t_complete =
     (let dpu_start = max t_request last_complete; dpu_ms = (t_complete - dpu_start) * 1000 in
      if dpu_ms < 0 then 0 else dpu_ms)"

definition accumulate_all_gather :: "rat \<Rightarrow> rat \<Rightarrow> rat \<Rightarrow> nat \<Rightarrow> comm_stats \<Rightarrow> comm_stats" where
  "accumulate_all_gather t_request t_complete block_ms nbytes s =
     s\<lparr>ag_dpu_ms := ag_dpu_ms s + dpu_time (ag_last_complete s) t_request t_complete,
       ag_block_ms := ag_block_ms s + block_ms, ag_bytes := ag_bytes s + nbytes,
       ag_last_complete := t_complete, ag_calls := ag_calls s + 1\<rparr>"

definition set_ag_phase :: "string \<Rightarrow> comm_stats \<Rightarrow> comm_stats" where
  "set_ag_phase phase s = s\<lparr>ag_phase := phase\<rparr>"

definition accumulate_phase_block :: "rat \<Rightarrow> comm_stats \<Rightarrow> comm_stats" where
  "accumulate_phase_block block_ms s =
     (if ag_phase s = ''forward'' then s\<lparr>fwd_block_ms := fwd_block_ms s + block_ms, fwd_calls := fwd_calls s + 1\<rparr>
      else if ag_phase s = ''backward'' then s\<lparr>bwd_block_ms := bwd_block_ms s + block_ms, bwd_calls := bwd_calls s + 1\<rparr>
      else s)"

definition get_ag_phase_stats :: "comm_stats \<Rightarrow> (rat \<times> nat) \<times> (rat \<times> nat)" where
  "get_ag_phase_stats s = ((fwd_block_ms s, fwd_calls s), (bwd_block_ms s, bwd_calls s))"

definition reset_ag_phase_stats :: "comm_stats \<Rightarrow> comm_stats" where
  "reset_ag_phase_stats s = s\<lparr>fwd_block_ms := 0, bwd_block_ms := 0, fwd_calls := 0, bwd_calls := 0\<rparr>"

definition record_ag_detail :: "ag_row \<Rightarrow> comm_stats \<Rightarrow> comm_stats" where
  "record_ag_detail r s = s\<lparr>ag_records := ag_records s @ [r]\<rparr>"

definition reset_ag_records :: "comm_stats \<Rightarrow> comm_stats" where
  "reset_ag_records s = s\<lparr>ag_records := []\<rparr>"

definition record_full_parameter_events :: "nat \<Rightarrow> nat \<Rightarrow> nat \<Rightarrow> rat \<Rightarrow> comm_stats \<Rightarrow> comm_stats" where
  "record_full_parameter_events start_event end_event nbytes dma_poll_ms s =
     s\<lparr>full_parameter_pending := full_parameter_pending s @ [(start_event, end_event)],
       full_parameter_calls := full_parameter_calls s + 1, full_parameter_bytes := full_parameter_bytes s + nbytes,
       full_parameter_dma_poll_ms := full_parameter_dma_poll_ms s + dma_poll_ms\<rparr>"

text \<open>
  Only the last pair is waited for; \<open>elapsed a b\<close> is the time between two events, \<open>None\<close> where the
  query raises because an event has not completed once event \<open>sync\<close> has.
\<close>

fun sum_elapsed :: "(nat \<Rightarrow> nat \<Rightarrow> nat \<Rightarrow> rat option) \<Rightarrow> nat \<Rightarrow> (nat \<times> nat) list \<Rightarrow> rat \<Rightarrow> rat result" where
  "sum_elapsed elapsed sync [] tot = Inr tot"
| "sum_elapsed elapsed sync ((a, b) # evs) tot =
     (case elapsed sync a b of None \<Rightarrow> Inl (RuntimeError ''elapsed_time'') | Some ms \<Rightarrow> sum_elapsed elapsed sync evs (tot + ms))"

definition get_full_parameter_copy_ms :: "(nat \<Rightarrow> nat \<Rightarrow> nat \<Rightarrow> rat option) \<Rightarrow> comm_stats \<Rightarrow> (rat \<times> comm_stats) result" where
  "get_full_parameter_copy_ms elapsed s =
     (if full_parameter_pending s = [] then Inr (0, s)
      else ebind (sum_elapsed elapsed (snd (last (full_parameter_pending s))) (full_parameter_pending s) 0) (\<lambda>total_ms.
        Inr (total_ms, s\<lparr>full_parameter_pending := []\<rparr>)))"

definition accumulate_grad_offload :: "rat \<Rightarrow> comm_stats \<Rightarrow> comm_stats" where
  "accumulate_grad_offload delta_ms s =
     s\<lparr>grad_offload_ms := grad_offload_ms s + delta_ms, grad_offload_calls := grad_offload_calls s + 1\<rparr>"

definition accumulate_reduce_scatter :: "rat \<Rightarrow> comm_stats \<Rightarrow> comm_stats" where
  "accumulate_reduce_scatter delta_ms s = s\<lparr>rs_time_ms := rs_time_ms s + delta_ms, rs_calls := rs_calls s + 1\<rparr>"

definition record_rs_detail :: "nat \<Rightarrow> rat \<Rightarrow> rat \<Rightarrow> rat \<Rightarrow> comm_stats \<Rightarrow> comm_stats" where
  "record_rs_detail nbytes total_ms enqueue_ms wait_ms s = s\<lparr>rs_records := rs_records s @ [(nbytes, total_ms, enqueue_ms, wait_ms)]\<rparr>"

definition reset_rs_records :: "comm_stats \<Rightarrow> comm_stats" where
  "reset_rs_records s = s\<lparr>rs_records := []\<rparr>"

section \<open>Reports\<close>

definition average :: "('a \<Rightarrow> rat) \<Rightarrow> 'a list \<Rightarrow> rat" where
  "average f xs = (\<Sum>x \<leftarrow> xs. f x) / of_nat (length xs)"

definition p99 :: "('a \<Rightarrow> rat) \<Rightarrow> 'a list \<Rightarrow> rat" where
  "p99 f xs = (if length xs > 1 then sort (map f xs) ! (length xs * 99 div 100) else average f xs)"

definition size_buckets :: "(nat \<times> nat option) list" where
  "size_buckets = [(0, Some 1024), (1024, Some 16384), (16384, Some 1048576), (1048576, Some 16777216), (16777216, None)]"

definition in_size_bucket :: "nat \<times> nat option \<Rightarrow> nat \<Rightarrow> bool" where
  "in_size_bucket b nb = (case b of (lo, hi) \<Rightarrow> lo \<le> nb \<and> (case hi of None \<Rightarrow> True | Some h \<Rightarrow> nb < h))"

text \<open>Of a bucket that is not empty the calls, the average size and times, and two percentiles.\<close>

record bucket_row =
  b_calls :: nat
  avg_size :: rat
  avg_dpu :: rat
  avg_block :: rat
  p99_block :: rat
  avg_wall :: rat
  p99_wall :: rat
  avg_lead :: rat

definition bucket_stats :: "ag_row list \<Rightarrow> bucket_row" where
  "bucket_stats grp = \<lparr>b_calls = length grp, avg_size = average (\<lambda>r. of_nat (a_nbytes r)) grp, avg_dpu = average a_dpu_ms grp,
     avg_block = average a_block_ms grp, p99_block = p99 a_block_ms grp, avg_wall = average a_wall_ms grp,
     p99_wall = p99 a_wall_ms grp, avg_lead = average a_prefetch_lead_ms grp\<rparr>"

definition ag_analysis :: "comm_stats \<Rightarrow> (nat \<times> ((nat \<times> nat option) \<times> bucket_row) list \<times> ag_row list) option" where
  "ag_analysis s =
     (let records = ag_records s in
      if records = [] then None
      else Some (length records,
        concat (map (\<lambda>b. let grp = filter (\<lambda>r. in_size_bucket b (a_nbytes r)) records in
          if grp = [] then [] else [(b, bucket_stats grp)]) size_buckets),
        take 10 (sort_key (\<lambda>r. - a_block_ms r) records)))"

definition rs_analysis :: "comm_stats \<Rightarrow> (nat \<times> rat \<times> rat \<times> rat \<times> rat \<times> rat \<times> rat \<times> rat) option" where
  "rs_analysis s =
     (let records = rs_records s; n = length records; sorted_total = sort (map (\<lambda>(_, t, _, _). t) records) in
      if records = [] then None
      else Some (n, (\<Sum>(_, t, _, _) \<leftarrow> records. t), average (\<lambda>(_, t, _, _). t) records, sorted_total ! (n div 2),
        (if n > 1 then sorted_total ! (n * 99 div 100) else sorted_total ! 0), average (\<lambda>(nb, _, _, _). of_nat nb) records,
        average (\<lambda>(_, _, e, _). e) records, average (\<lambda>(_, _, _, w). w) records))"

section \<open>What the counters mean\<close>

text \<open>The time of the DPU between completions, less the times in which it had no request.\<close>

definition record_requests :: "(rat \<times> rat) list \<Rightarrow> comm_stats \<Rightarrow> comm_stats" where
  "record_requests rs s = fold (\<lambda>(t_request, t_complete). accumulate_all_gather t_request t_complete 0 0) rs s"

fun idle_time :: "rat \<Rightarrow> (rat \<times> rat) list \<Rightarrow> rat" where
  "idle_time last_complete [] = 0"
| "idle_time last_complete ((r, c) # rs) = max 0 (r - last_complete) + idle_time c rs"

fun served_in_order :: "rat \<Rightarrow> (rat \<times> rat) list \<Rightarrow> bool" where
  "served_in_order last_complete [] \<longleftrightarrow> True"
| "served_in_order last_complete ((r, c) # rs) \<longleftrightarrow> r \<le> c \<and> last_complete \<le> c \<and> served_in_order c rs"

text \<open>
  When the completions are recorded in the order in which they happen, the accumulated DPU time
  is the time from the earlier counter value to the last completion less the times without any
  request: requests that wait for each other are not counted twice.
\<close>

theorem dpu_time_accounts:
  assumes "served_in_order (ag_last_complete s) rs"
  shows "ag_dpu_ms (record_requests rs s) = ag_dpu_ms s
      + 1000 * (ag_last_complete (record_requests rs s) - ag_last_complete s - idle_time (ag_last_complete s) rs)
    \<and> ag_calls (record_requests rs s) = ag_calls s + length rs"
  using assms
proof (induction rs arbitrary: s)
  case Nil
  then show ?case by (simp add: record_requests_def)
next
  case (Cons rc rs)
  obtain r c where rc: "rc = (r, c)" by fastforce
  let ?t = "accumulate_all_gather r c 0 0 s"
  have f: "ag_last_complete ?t = c" "ag_calls ?t = ag_calls s + 1"
    "ag_dpu_ms ?t = ag_dpu_ms s + 1000 * (c - ag_last_complete s - max 0 (r - ag_last_complete s))"
    using Cons.prems by (auto simp: rc accumulate_all_gather_def dpu_time_def Let_def max_def)
  have "record_requests (rc # rs) s = record_requests rs ?t" by (simp add: record_requests_def rc)
  then show ?case using Cons.IH [of ?t] Cons.prems f by (simp add: rc algebra_simps)
qed

text \<open>Recorded out of order, the same time is counted twice.\<close>

lemma dpu_time_counted_twice:
  "ag_dpu_ms (record_requests [(0, 10), (0, 4), (0, 10)] init_stats) = 16000"
  by (simp add: record_requests_def accumulate_all_gather_def dpu_time_def init_stats_def)

lemma in_one_bucket: "(\<Sum>b \<leftarrow> size_buckets. if in_size_bucket b nb then x else 0) = (x :: 'a :: comm_monoid_add)"
  by (auto simp: size_buckets_def in_size_bucket_def)

lemma sum_over_buckets:
  "(\<Sum>b \<leftarrow> size_buckets. \<Sum>r \<leftarrow> filter (\<lambda>r. in_size_bucket b (a_nbytes r)) rs. f r) = (\<Sum>r \<leftarrow> rs. f r :: 'a :: comm_monoid_add)"
proof (induction rs)
  case Nil
  then show ?case by (simp add: size_buckets_def)
next
  case (Cons r rs)
  have "(\<Sum>b \<leftarrow> size_buckets. \<Sum>r \<leftarrow> filter (\<lambda>r. in_size_bucket b (a_nbytes r)) (r # rs). f r)
      = (\<Sum>b \<leftarrow> size_buckets. (if in_size_bucket b (a_nbytes r) then f r else 0)
          + (\<Sum>r \<leftarrow> filter (\<lambda>r. in_size_bucket b (a_nbytes r)) rs. f r))"
    by (rule arg_cong [of _ _ sum_list]) simp
  then show ?case using Cons in_one_bucket [of "a_nbytes r" "f r"] by (simp add: sum_list_addf)
qed

lemma sum_rows:
  "(\<Sum>(b, row) \<leftarrow> concat (map (\<lambda>b. if G b = [] then [] else [(b, st (G b))]) bs). g row)
    = (\<Sum>b \<leftarrow> bs. if G b = [] then 0 else (g (st (G b)) :: 'c :: comm_monoid_add))"
  by (induction bs) auto

lemma bucket_stats_fields:
  "b_calls (bucket_stats g) = length g" "avg_size (bucket_stats g) = average (\<lambda>r. of_nat (a_nbytes r)) g"
  "avg_dpu (bucket_stats g) = average a_dpu_ms g" "avg_block (bucket_stats g) = average a_block_ms g"
  by (simp_all add: bucket_stats_def)

lemma average_total: "xs \<noteq> [] \<Longrightarrow> of_nat (length xs) * average f xs = (\<Sum>x \<leftarrow> xs. f x)"
  by (simp add: average_def)

text \<open>
  The report of the all-gathers covers every record exactly once: the calls of its rows add up to
  the number of records, and calls times average add up to the total size, DPU time and blocking
  time. The list of the longest waits holds the ten longest (all, when there are fewer).
\<close>

theorem ag_analysis_covers:
  assumes "ag_analysis s = Some (n, rows, longest)"
  shows "n = length (ag_records s) \<and> (\<Sum>(b, row) \<leftarrow> rows. b_calls row) = n
    \<and> (\<Sum>(b, row) \<leftarrow> rows. of_nat (b_calls row) * avg_size row) = (\<Sum>r \<leftarrow> ag_records s. of_nat (a_nbytes r))
    \<and> (\<Sum>(b, row) \<leftarrow> rows. of_nat (b_calls row) * avg_dpu row) = (\<Sum>r \<leftarrow> ag_records s. a_dpu_ms r)
    \<and> (\<Sum>(b, row) \<leftarrow> rows. of_nat (b_calls row) * avg_block row) = (\<Sum>r \<leftarrow> ag_records s. a_block_ms r)
    \<and> (\<exists>rest. mset (longest @ rest) = mset (ag_records s) \<and> length longest = min 10 n
         \<and> (\<forall>r \<in> set longest. \<forall>q \<in> set rest. a_block_ms q \<le> a_block_ms r))"
proof -
  let ?rs = "ag_records s" and ?grp = "\<lambda>b. filter (\<lambda>r. in_size_bucket b (a_nbytes r)) (ag_records s)"
  have n: "n = length ?rs" and rows: "rows = concat (map (\<lambda>b. if ?grp b = [] then [] else [(b, bucket_stats (?grp b))]) size_buckets)"
    and longest: "longest = take 10 (sort_key (\<lambda>r. - a_block_ms r) ?rs)"
    using assms by (auto simp: ag_analysis_def Let_def split: if_splits)
  have sum: "(\<Sum>(b, row) \<leftarrow> rows. g row) = (\<Sum>b \<leftarrow> size_buckets. if ?grp b = [] then 0 else g (bucket_stats (?grp b)))"
    for g :: "bucket_row \<Rightarrow> 'c :: comm_monoid_add"
    unfolding rows by (rule sum_rows)
  have "(\<Sum>(b, row) \<leftarrow> rows. b_calls row) = (\<Sum>b \<leftarrow> size_buckets. \<Sum>r \<leftarrow> ?grp b. 1)"
    unfolding sum by (rule arg_cong [of _ _ sum_list]) (auto simp: bucket_stats_def sum_list_triv)
  also have "\<dots> = n" unfolding sum_over_buckets by (simp add: n sum_list_triv)
  finally have calls: "(\<Sum>(b, row) \<leftarrow> rows. b_calls row) = n" .
  have totals: "(\<Sum>b \<leftarrow> size_buckets. if ?grp b = [] then 0 else of_nat (length (?grp b)) * average f (?grp b)) = (\<Sum>r \<leftarrow> ?rs. f r)" for f
  proof -
    have "(\<Sum>b \<leftarrow> size_buckets. if ?grp b = [] then 0 else of_nat (length (?grp b)) * average f (?grp b))
        = (\<Sum>b \<leftarrow> size_buckets. \<Sum>r \<leftarrow> ?grp b. f r)"
      by (rule arg_cong [of _ _ sum_list]) (auto simp: average_total)
    then show ?thesis unfolding sum_over_buckets .
  qed
  have ten: "mset (longest @ drop 10 (sort_key (\<lambda>r. - a_block_ms r) ?rs)) = mset ?rs" "length longest = min 10 n"
    using longest n by (simp_all flip: mset_append add: min.commute)
  have "a_block_ms q \<le> a_block_ms r" if "r \<in> set longest" "q \<in> set (drop 10 (sort_key (\<lambda>r. - a_block_ms r) ?rs))" for r q
  proof -
    let ?s = "sort_key (\<lambda>r. - a_block_ms r) ?rs"
    have "sorted (map (\<lambda>r. - a_block_ms r) (take 10 ?s @ drop 10 ?s))" by simp
    then have "- a_block_ms r \<le> - a_block_ms q" using that unfolding longest map_append sorted_append by auto
    then show ?thesis by simp
  qed
  then have top: "\<exists>rest. mset (longest @ rest) = mset ?rs \<and> length longest = min 10 n
      \<and> (\<forall>r \<in> set longest. \<forall>q \<in> set rest. a_block_ms q \<le> a_block_ms r)"
    using ten by blast
  have "(\<Sum>(b, row) \<leftarrow> rows. of_nat (b_calls row) * avg_size row) = (\<Sum>r \<leftarrow> ?rs. of_nat (a_nbytes r))"
    "(\<Sum>(b, row) \<leftarrow> rows. of_nat (b_calls row) * avg_dpu row) = (\<Sum>r \<leftarrow> ?rs. a_dpu_ms r)"
    "(\<Sum>(b, row) \<leftarrow> rows. of_nat (b_calls row) * avg_block row) = (\<Sum>r \<leftarrow> ?rs. a_block_ms r)"
    unfolding sum bucket_stats_fields by (rule totals)+
  then show ?thesis using n calls top by blast
qed

theorem dpu_time_accounts_witness:
  "ag_dpu_ms (record_requests [(1, 3), (2, 4), (6, 7)] init_stats) = 4000"
  using dpu_time_accounts [of init_stats "[(1, 3), (2, 4), (6, 7)]"]
  by (simp add: record_requests_def accumulate_all_gather_def init_stats_def)

definition demo_rows :: "ag_row list" where
  "demo_rows = map (\<lambda>(nb, b). \<lparr>a_nbytes = nb, a_dpu_ms = b, a_block_ms = b, a_enqueue_ms = 0, a_prefetch_lead_ms = 0, a_wall_ms = b\<rparr>)
     [(512, 1), (1024, 5), (20000, 2), (600, 3)]"

theorem ag_analysis_covers_witness:
  "\<exists>n rows longest. ag_analysis (init_stats\<lparr>ag_records := demo_rows\<rparr>) = Some (n, rows, longest)
     \<and> n = 4 \<and> (\<Sum>(b, row) \<leftarrow> rows. of_nat (b_calls row) * avg_block row) = 11"
proof -
  have "ag_analysis (init_stats\<lparr>ag_records := demo_rows\<rparr>) \<noteq> None"
    by (simp add: ag_analysis_def demo_rows_def)
  then obtain n rows longest where a: "ag_analysis (init_stats\<lparr>ag_records := demo_rows\<rparr>) = Some (n, rows, longest)"
    by (metis not_None_eq surj_pair)
  show ?thesis using ag_analysis_covers [OF a] a by (auto simp: demo_rows_def)
qed

end
