(* ===== verification/ParamTypes.thy ===== *)
theory ParamTypes
  imports AllGather
begin

text \<open>
  The types of the parameters of \<^verbatim>\<open>src/smartnic_offload/partition_parameters.py\<close>: what Python does
  not check. In every state the public operations can reach, in any order and with any number of
  gathers under way, a parameter that is said to be available has all its elements, one that is
  not available has given its memory back, one in flight has no memory yet or a buffer of exactly
  its size, both have a shard, and shards have the size of their rank.
\<close>

section \<open>Well-typed states\<close>

definition wf_param :: "nat \<Rightarrow> 'a param \<Rightarrow> bool" where
  "wf_param W p \<longleftrightarrow> prod_list (ds_shape p) = ds_numel p
     \<and> (\<forall>t. ds_tensor p = Some t \<longrightarrow> length t = shard_size W (ds_numel p))
     \<and> (ds_status p = AVAILABLE \<longrightarrow> length (pdata p) = ds_numel p)
     \<and> (ds_status p = NOT_AVAILABLE \<longrightarrow> pdata p = [])
     \<and> (ds_status p = INFLIGHT \<longrightarrow> pdata p = [] \<or> length (pdata p) = ds_numel p)
     \<and> (ds_status p \<noteq> AVAILABLE \<longrightarrow> ds_tensor p \<noteq> None)"

text \<open>The receive buffer of a single gather has room for its parameter.\<close>

definition wf_handle :: "'a heap \<Rightarrow> 'a ag_handle \<Rightarrow> bool" where
  "wf_handle h hdl \<longleftrightarrow> (h_kind hdl = SingleHandle \<longrightarrow>
     \<not> h_complete hdl \<and> (\<forall>i. h_params hdl = [i] \<longrightarrow> ds_numel (h i) \<le> length (h_recv hdl)))"

type_synonym 'a pstate = "'a heap \<times> 'a ag_handle list"

definition well_typed :: "nat \<Rightarrow> 'a pstate \<Rightarrow> bool" where
  "well_typed W s \<longleftrightarrow> (\<forall>i. wf_param W (fst s i)) \<and> (\<forall>hdl \<in> set (snd s). wf_handle (fst s) hdl)"

text \<open>
  The operations, as steps of the heap and the handles that wait. A handle is waited for once, as
  the coordinator does, which drops it. Host copies may come and go.
\<close>

inductive param_step ::
  "nat \<Rightarrow> nat \<Rightarrow> (nat \<Rightarrow> 'a) \<Rightarrow> 'a collective \<Rightarrow> 'a staging \<Rightarrow> (nat \<Rightarrow> bool) \<Rightarrow> 'a pstate \<Rightarrow> 'a pstate \<Rightarrow> bool"
  for W rank u ag cast fin where
  partition: "partition_list W rank u upd ids h = Inr h' \<Longrightarrow> param_step W rank u ag cast fin (h, hs) (h', hs)"
| launch: "all_gather_coalesced W u ag cast ft ids h = Inr (h', hdl) \<Longrightarrow> param_step W rank u ag cast fin (h, hs) (h', hs @ [hdl])"
| wait: "handle_wait W hdl h = Inr (h', hdl') \<Longrightarrow> param_step W rank u ag cast fin (h, hs @ hdl # hs') (h', hs @ hs')"
| gather: "all_gather_sync W u ag fin ids h = Inr h' \<Longrightarrow> param_step W rank u ag cast fin (h, hs) (h', hs)"
| gather_async: "all_gather_async W ag ids h = Inr h' \<Longrightarrow> param_step W rank u ag cast fin (h, hs) (h', hs)"
| host: "param_step W rank u ag cast fin (h, hs) (h(i := (h i)\<lparr>cpu_full_param := b\<rparr>), hs)"
| activate: "param_step W rank u ag cast fin (h, hs) (h(i := (h i)\<lparr>active_sub_modules := ms\<rparr>), hs)"

section \<open>Each operation keeps the types\<close>

text \<open>The sizes of a parameter are fixed at its conversion.\<close>

definition same_sizes :: "'a heap \<Rightarrow> 'a heap \<Rightarrow> bool" where
  "same_sizes h h' \<longleftrightarrow> (\<forall>i. ds_numel (h' i) = ds_numel (h i))"

definition wf_heap :: "nat \<Rightarrow> 'a heap \<Rightarrow> 'a heap \<Rightarrow> bool" where
  "wf_heap W h h' \<longleftrightarrow> (\<forall>i. wf_param W (h' i)) \<and> same_sizes h h'"

lemma wf_heapI:
  assumes "wf_heap W h0 h" and "wf_param W p" and "ds_numel p = ds_numel (h i)"
  shows "wf_heap W h0 (h(i := p))"
  using assms by (simp add: wf_heap_def same_sizes_def)

lemma wf_heap_refl: "(\<And>i. wf_param W (h i)) \<Longrightarrow> wf_heap W h h"
  by (simp add: wf_heap_def same_sizes_def)

lemma wf_heap_at: "wf_heap W h0 h \<Longrightarrow> wf_param W (h i)"
  by (simp add: wf_heap_def)

lemma well_typed_keep:
  assumes "wf_heap W h h'" and "well_typed W (h, hs)" and "set hs' \<subseteq> set hs"
  shows "well_typed W (h', hs')"
  using assms by (fastforce simp: well_typed_def wf_heap_def same_sizes_def wf_handle_def)

lemma partition_one_wf:
  assumes "wf_heap W h0 h" and "partition_one W rank u upd i h = Inr h'"
  shows "wf_heap W h0 h'"
proof -
  obtain p where p: "partition_param W rank u upd (h i) = Inr p" "h' = h(i := p\<lparr>ds_status := NOT_AVAILABLE\<rparr>)"
    using assms(2) by (auto simp: partition_one_def elim: ebind_InrE)
  have h: "wf_param W (h i)" using assms(1) by (rule wf_heap_at)
  have "wf_param W (p\<lparr>ds_status := NOT_AVAILABLE\<rparr>) \<and> ds_numel p = ds_numel (h i)"
    using p(1) h
    by (auto simp: partition_param_def free_param_def Let_def wf_param_def shard_size_def copy_to_def copy_into_def
        narrow_Inr_iff elim!: ebind_InrE split: if_splits list.splits)
  then show ?thesis using assms(1) by (simp add: p(2) wf_heapI)
qed

lemma partition_list_wf: "wf_heap W h0 h \<Longrightarrow> partition_list W rank u upd ids h = Inr h' \<Longrightarrow> wf_heap W h0 h'"
  unfolding partition_list_def by (erule foldE_invariant) (auto intro: partition_one_wf)

lemma mark_inflight_wf:
  assumes "wf_heap W h0 h" and "mark_inflight i h = Inr h'"
  shows "wf_heap W h0 h'"
  using assms wf_heap_at [OF assms(1), of i]
  by (auto simp: mark_inflight_def wf_param_def intro!: wf_heapI split: if_splits)

lemma marked_inflight:
  assumes "foldE mark_inflight ids h = Inr h'" and "i \<in> set ids"
  shows "ds_status (h' i) = INFLIGHT"
  using assms
proof (induction ids arbitrary: h)
  case (Cons j ids)
  have stay: "foldE mark_inflight ids g = Inr h' \<Longrightarrow> ds_status (g i) = INFLIGHT \<Longrightarrow> ds_status (h' i) = INFLIGHT" for g
    by (erule foldE_invariant [where I = "\<lambda>g. ds_status (g i) = INFLIGHT"]) (auto simp: mark_inflight_def split: if_splits)
  obtain g where g: "mark_inflight j h = Inr g" "foldE mark_inflight ids g = Inr h'" using Cons.prems(1) by (auto elim: ebind_InrE)
  show ?case
  proof (cases "i = j")
    case True
    then have "ds_status (g i) = INFLIGHT" using g(1) by (auto simp: mark_inflight_def split: if_splits)
    then show ?thesis by (rule stay [OF g(2)])
  next
    case False
    then show ?thesis using Cons.IH [OF g(2)] Cons.prems(2) by simp
  qed
qed simp

text \<open>What all collectives do: every rank receives the inputs of all ranks, one after the other.\<close>

definition gathers_ranks :: "nat \<Rightarrow> 'a collective \<Rightarrow> bool" where
  "gathers_ranks W ag \<longleftrightarrow> (\<forall>cid x. length (ag cid x) = length x * W)"

lemma launch_wf:
  assumes "\<And>i. wf_param W (h i)" and "0 < W" and "gathers_ranks W ag" and "all_gather_coalesced W u ag cast ft ids h = Inr (h', hdl)"
  shows "wf_heap W h h' \<and> wf_handle h' hdl"
proof -
  obtain h1 where h1: "foldE mark_inflight ids h = Inr h1"
    using assms(4) by (auto simp: all_gather_coalesced_def elim: ebind_InrE)
  have wf1: "wf_heap W h h1"
    using h1 wf_heap_refl [where h = h, OF assms(1)] by (rule foldE_invariant [where I = "wf_heap W h"]) (auto intro: mark_inflight_wf)
  show ?thesis
  proof (cases "ft \<and> (\<forall>i \<in> set (sort ids). cpu_full_param (h1 i) \<noteq> None)")
    case True
    then show ?thesis using assms(4) h1 wf1 by (auto simp: all_gather_coalesced_def wf_handle_def)
  next
    case False
    show ?thesis
    proof (cases "\<exists>i. sort ids = [i]")
      case True
      then obtain i where i: "sort ids = [i]" ..
      then have "i \<in> set ids" by (metis list.set_intros(1) set_sort)
      then have st: "ds_status (h1 i) = INFLIGHT" by (rule marked_inflight [OF h1])
      have p: "wf_param W (h1 i)" using wf1 by (rule wf_heap_at)
      have res: "all_gather_coalesced W u ag cast ft ids h = ebind (the_shard (h1 i)) (\<lambda>input_flat.
          ebind (narrow 0 (ds_numel (h1 i)) (fresh u (ceil_div (ds_numel (h1 i)) W * W))) (\<lambda>v.
          ebind (view_as_shape (ds_shape (h1 i)) v) (\<lambda>v.
            Inr (h1(i := (h1 i)\<lparr>pdata := v\<rparr>), \<lparr>h_kind = SingleHandle, h_params = [i], h_recv = ag i input_flat, h_part_size = 0, h_complete = False\<rparr>))))"
        unfolding all_gather_coalesced_def h1 using False by (auto simp: i Let_def)
      obtain x v where x: "ds_tensor (h1 i) = Some x" "h' = h1(i := (h1 i)\<lparr>pdata := v\<rparr>)" "length v = prod_list (ds_shape (h1 i))"
          "hdl = \<lparr>h_kind = SingleHandle, h_params = [i], h_recv = ag i x, h_part_size = 0, h_complete = False\<rparr>"
        using assms(4) unfolding res by (auto simp: the_shard_def view_as_shape_def elim!: ebind_InrE split: option.splits if_splits)
      have "length (ag i x) = shard_size W (ds_numel (h1 i)) * W"
        using p x(1) assms(3) by (simp add: wf_param_def gathers_ranks_def)
      then have "ds_numel (h1 i) \<le> length (ag i x)" using shard_size_covers [OF assms(2)] by (simp add: mult.commute)
      moreover have "length v = ds_numel (h1 i)" using p x(3) by (simp add: wf_param_def)
      ultimately show ?thesis using wf1 p st by (auto simp: x wf_handle_def wf_param_def intro!: wf_heapI)
    next
      case many: False
      define js where "js = sort ids"
      have no: "\<not> (ft \<and> (\<forall>i \<in> set js. cpu_full_param (h1 i) \<noteq> None))" using False by (simp add: js_def)
      have res: "all_gather_coalesced W u ag cast ft ids h = ebind (collect_shards h1 js) (\<lambda>shards.
           ebind (get_only_unique_item (map (\<lambda>i. pdtype (h1 i)) js)) (\<lambda>dt.
             Inr (h1, \<lparr>h_kind = CoalescedHandle, h_params = js, h_recv = ag (Min (set js)) (map (cast dt) (concat shards)),
                          h_part_size = length (concat shards), h_complete = False\<rparr>)))"
        using many no unfolding all_gather_coalesced_def h1 js_def [symmetric] ebind_Inr Let_def if_not_P [OF no] by (auto split: list.split)
      have "h' = h1 \<and> h_kind hdl = CoalescedHandle" using assms(4) unfolding res by (auto elim!: ebind_InrE)
      then show ?thesis using wf1 by (simp add: wf_handle_def)
    qed
  qed
qed

lemma restore_wf:
  assumes "wf_heap W h0 (fst s)" and "restore_param W parts i s = Inr s'"
  shows "wf_heap W h0 (fst s')"
  using assms wf_heap_at [OF assms(1), of i]
  by (cases s) (auto simp: restore_param_def view_as_shape_def wf_param_def intro!: wf_heapI elim!: ebind_InrE split: if_splits)

lemma restore_cpu_wf:
  assumes "wf_heap W h0 h" and "restore_cpu i h = Inr h'"
  shows "wf_heap W h0 h'"
  using assms wf_heap_at [OF assms(1), of i]
  by (auto simp: restore_cpu_def view_as_shape_def wf_param_def intro!: wf_heapI elim!: ebind_InrE split: if_splits option.splits)

lemma wait_wf:
  assumes "\<And>i. wf_param W (h i)" and "wf_handle h hdl" and "handle_wait W hdl h = Inr (h', hdl')"
  shows "wf_heap W h h'"
proof (cases "h_kind hdl")
  case SingleHandle
  then obtain i where i: "h_params hdl = [i]" "h' = h(i := (h i)\<lparr>pdata := take (ds_numel (h i)) (h_recv hdl), ds_status := AVAILABLE\<rparr>)"
    using assms(2,3) by (auto simp: wait_defs wf_handle_def split: list.splits)
  then show ?thesis using assms(1) [of i] assms(2) SingleHandle wf_heap_refl [where h = h, OF assms(1)]
    by (auto simp: wf_handle_def wf_param_def intro!: wf_heapI)
next
  case CoalescedHandle
  have "wf_heap W h (fst s)"
    if "foldE (restore_param W (rank_parts W (h_part_size hdl) (h_recv hdl))) (h_params hdl) (h, 0) = Inr s" for s
    using that by (rule foldE_invariant [where I = "\<lambda>s. wf_heap W h (fst s)"]) (auto intro: restore_wf wf_heap_refl [where h = h] assms(1))
  then show ?thesis using CoalescedHandle assms(3) wf_heap_refl [where h = h, OF assms(1)]
    by (auto simp: wait_defs elim!: ebind_InrE split: if_splits)
next
  case CpuFullHandle
  have "wf_heap W h g" if "foldE restore_cpu (h_params hdl) h = Inr g" for g
    using that by (rule foldE_invariant) (auto intro: restore_cpu_wf wf_heap_refl [where h = h] assms(1))
  then show ?thesis using CpuFullHandle assms(3) wf_heap_refl [where h = h, OF assms(1)]
    by (auto simp: wait_defs elim!: ebind_InrE split: if_splits)
qed

text \<open>The synchronous gather first writes every value, and sets the status of all of them at the end.\<close>

definition filled :: "'a heap \<Rightarrow> nat list \<Rightarrow> 'a heap \<Rightarrow> bool" where
  "filled h ids h' \<longleftrightarrow> (\<forall>i. if i \<in> set ids then \<exists>v. h' i = (h i)\<lparr>pdata := v\<rparr> \<and> length v = prod_list (ds_shape (h i)) else h' i = h i)"

lemma foldE_filled:
  assumes "foldE f xs s = Inr t"
    and "\<And>x s s'. f x s = Inr s' \<Longrightarrow> \<exists>v. heap_of s' = (heap_of s)(key x := (heap_of s (key x))\<lparr>pdata := v\<rparr>)
       \<and> length v = prod_list (ds_shape (heap_of s (key x)))"
  shows "filled (heap_of s) (map key xs) (heap_of t)"
  using assms(1)
proof (induction xs arbitrary: s)
  case (Cons x xs)
  obtain s' where s': "f x s = Inr s'" "foldE f xs s' = Inr t" using Cons.prems by (auto elim: ebind_InrE)
  obtain v where v: "heap_of s' = (heap_of s)(key x := (heap_of s (key x))\<lparr>pdata := v\<rparr>)"
      "length v = prod_list (ds_shape (heap_of s (key x)))"
    using assms(2) [OF s'(1)] by blast
  have IH: "filled (heap_of s') (map key xs) (heap_of t)" by (rule Cons.IH [OF s'(2)])
  show ?case
    unfolding filled_def
  proof
    fix i
    show "if i \<in> set (map key (x # xs)) then \<exists>v. heap_of t i = (heap_of s i)\<lparr>pdata := v\<rparr> \<and> length v = prod_list (ds_shape (heap_of s i))
        else heap_of t i = heap_of s i"
      using IH [unfolded filled_def, rule_format, of i] v by (cases "i = key x") (auto split: if_splits)
  qed
qed (simp add: filled_def)

lemma replicate_pieces_length:
  "replicate_pieces parts n k off rs dst = Inr d \<Longrightarrow> length d = length dst"
proof (induction rs arbitrary: dst)
  case (Cons r rs)
  show ?case
  proof (cases "r * k < n")
    case True
    then obtain v b where b: "copy_into dst (r * k) (min (n - r * k) k) v = Inr b" "replicate_pieces parts n k off rs b = Inr d"
      using Cons.prems by (auto simp: Let_def elim!: ebind_InrE)
    then have "length b = length dst"
      by (auto simp: copy_into_def copy_to_def narrow_Inr_iff elim!: ebind_InrE split: if_splits list.splits)
    then show ?thesis using Cons.IH [OF b(2)] by simp
  next
    case False
    then show ?thesis using Cons by (simp add: Let_def)
  qed
qed simp

lemma sync_filled:
  assumes "all_gather_sync W u ag fin ids h = Inr h'"
  shows "\<exists>g. filled h (filter (\<lambda>i. ds_status (h i) = NOT_AVAILABLE) ids) g
    \<and> h' = set_available (filter (\<lambda>i. ds_status (h i) = NOT_AVAILABLE) ids) g"
proof -
  let ?ids = "filter (\<lambda>i. ds_status (h i) = NOT_AVAILABLE) ids"
  have one: "filled h ?ids g" if g: "allgather_params W u ag ?ids h = Inr g" for g
  proof (cases ?ids)
    case Nil
    then show ?thesis using g by (simp add: allgather_params_def filled_def)
  next
    case (Cons i rest)
    obtain shards s where "foldE (replicate_param W u (rank_parts W (length (concat shards)) (ag i (concat shards)))) ?ids (h, 0) = Inr s" "g = fst s"
      using g unfolding allgather_params_def by (simp add: Cons del: foldE.simps collect_shards.simps)
        (auto simp del: foldE.simps collect_shards.simps elim!: ebind_InrE)
    then obtain x off where off: "foldE (replicate_param W u (rank_parts W (length (concat x)) (ag i (concat x)))) ?ids (h, 0) = Inr (g, off)"
      by (cases s) auto
    have "filled (fst (h, 0 :: nat)) (map (\<lambda>i. i) ?ids) (fst (g, off))"
      by (rule foldE_filled [where heap_of = fst, OF off])
        (auto simp: replicate_param_def elim!: ebind_InrE dest!: replicate_pieces_length)
    then show ?thesis by simp
  qed
  have many: "filled h ?ids g" if g: "allgather_params_coalesced W u ag fin ?ids h = Inr g" for g
  proof -
    obtain shards where f: "foldE (\<lambda>(j, i) h.
           let t = shards ! j;
               buffer = (if j = 0 \<or> fin j then ag i t else fresh u (length t * W))
           in ebind (narrow 0 (ds_numel (h i)) buffer) (\<lambda>v.
              ebind (view_as_shape (ds_shape (h i)) v) (\<lambda>v.
                Inr (h(i := (h i)\<lparr>pdata := v\<rparr>)))))
         (enumerate 0 ?ids) h = Inr g"
      using g unfolding allgather_params_coalesced_def by (auto elim!: ebind_InrE)
    have "filled h (map snd (enumerate 0 ?ids)) g"
      by (rule foldE_filled [where heap_of = "\<lambda>h. h", OF f])
        (auto simp: Let_def view_as_shape_def elim!: ebind_InrE split: if_splits)
    then show ?thesis by simp
  qed
  show ?thesis using assms one many unfolding all_gather_sync_def Let_def
    by (elim ebind_InrE) (auto split: if_splits)
qed

lemma set_available_at: "set_available ids h i = (if i \<in> set ids then (h i)\<lparr>ds_status := AVAILABLE\<rparr> else h i)"
proof -
  have "fold (\<lambda>i h. h(i := (h i)\<lparr>ds_status := AVAILABLE\<rparr>)) ids h i = (if i \<in> set ids then (h i)\<lparr>ds_status := AVAILABLE\<rparr> else h i)"
    by (induction ids arbitrary: h) auto
  then show ?thesis by (simp add: set_available_def)
qed

lemma sync_wf:
  assumes "\<And>i. wf_param W (h i)" and "all_gather_sync W u ag fin ids h = Inr h'"
  shows "wf_heap W h h'"
proof -
  let ?ids = "filter (\<lambda>i. ds_status (h i) = NOT_AVAILABLE) ids"
  obtain g where g: "filled h ?ids g" "h' = set_available ?ids g" using sync_filled [OF assms(2)] by blast
  have "wf_param W (h' i) \<and> ds_numel (h' i) = ds_numel (h i)" for i
    using g(1) [unfolded filled_def, rule_format, of i] assms(1) [of i]
    by (auto simp: g(2) set_available_at wf_param_def split: if_splits)
  then show ?thesis by (simp add: wf_heap_def same_sizes_def)
qed

lemma async_one_wf:
  assumes "wf_heap W h0 h" and "all_gather_async_one W ag i h = Inr h'"
  shows "wf_heap W h0 h'"
proof (cases "ds_status (h i) = NOT_AVAILABLE")
  case True
  then obtain v where "h' = h(i := (h i)\<lparr>pdata := v, ds_status := INFLIGHT\<rparr>)" "length v = prod_list (ds_shape (h i))"
    using assms(2) by (auto simp: all_gather_async_one_def allgather_param_def view_as_shape_def elim!: ebind_InrE split: if_splits)
  then show ?thesis using True wf_heap_at [OF assms(1), of i] by (auto simp: wf_param_def intro: wf_heapI [OF assms(1)])
next
  case False
  then show ?thesis using assms by (simp add: all_gather_async_one_def)
qed

lemma async_wf:
  assumes "\<And>i. wf_param W (h i)" and "all_gather_async W ag ids h = Inr h'"
  shows "wf_heap W h h'"
  using assms(2) wf_heap_refl [where h = h, OF assms(1)] unfolding all_gather_async_def
  by (rule foldE_invariant [where I = "wf_heap W h"]) (auto intro: async_one_wf)

section \<open>Every reachable state is well typed\<close>

lemma step_well_typed:
  assumes "param_step W rank u ag cast fin s t" and "well_typed W s" and "0 < W" and "gathers_ranks W ag"
  shows "well_typed W t"
  using assms
proof cases
  case (partition upd ids h h' hs)
  have "wf_heap W h h'"
    using partition(3) by (rule partition_list_wf [rotated]) (use assms(2) partition(1) in \<open>simp add: well_typed_def wf_heap_refl\<close>)
  then show ?thesis using well_typed_keep assms(2) partition(1,2) by blast
next
  case (launch ft ids h h' hdl hs)
  have wf: "\<And>i. wf_param W (h i)" using assms(2) launch(1) by (simp add: well_typed_def)
  have l: "wf_heap W h h' \<and> wf_handle h' hdl" by (rule launch_wf [OF wf assms(3,4) launch(3)])
  then have "well_typed W (h', hs)" using well_typed_keep assms(2) launch(1) by blast
  then show ?thesis using l launch(2) by (simp add: well_typed_def)
next
  case (wait hdl h h' hdl' hs hs')
  have "wf_heap W h h'" using wait(3) by (rule wait_wf [rotated 2]) (use assms(2) wait(1) in \<open>simp_all add: well_typed_def\<close>)
  then show ?thesis using well_typed_keep [of W h h' "hs @ hdl # hs'" "hs @ hs'"] assms(2) wait(1,2) by auto
next
  case (gather ids h h' hs)
  have "wf_heap W h h'" using gather(3) by (rule sync_wf [rotated]) (use assms(2) gather(1) in \<open>simp add: well_typed_def\<close>)
  then show ?thesis using well_typed_keep assms(2) gather(1,2) by blast
next
  case (gather_async ids h h' hs)
  have "wf_heap W h h'" using gather_async(3) by (rule async_wf [rotated]) (use assms(2) gather_async(1) in \<open>simp add: well_typed_def\<close>)
  then show ?thesis using well_typed_keep assms(2) gather_async(1,2) by blast
next
  case (host h hs i b)
  then show ?thesis using assms(2) by (auto simp: well_typed_def wf_param_def wf_handle_def)
next
  case (activate h hs i ms)
  then show ?thesis using assms(2) by (auto simp: well_typed_def wf_param_def wf_handle_def)
qed

lemma run_well_typed:
  assumes "0 < W" and "gathers_ranks W ag" and "(param_step W rank u ag cast fin)\<^sup>*\<^sup>* s t" and "well_typed W s"
  shows "well_typed W t"
  using assms(3,4) by (induction rule: rtranclp_induct) (auto intro: step_well_typed [OF _ _ assms(1,2)])

text \<open>
  C27: types are kept. Start from freshly converted parameters and run any of the operations in any
  order, with any gathers pending. A parameter marked available has exactly the elements of its
  shape. One marked not available has returned its memory. One in flight has no memory yet or, when
  it is gathered alone, a receive buffer of exactly the size of its shape. Only an available
  parameter can be without a shard, and every shard has the size all ranks agree on.
\<close>

theorem params_well_typed:
  assumes "0 < W" and "gathers_ranks W ag"
    and "\<And>i. \<exists>shape dt rg full. h i = convert_to_deepspeed_param shape dt rg full \<and> length full = prod_list shape"
    and "(param_step W rank u ag cast fin)\<^sup>*\<^sup>* (h, []) (h', hs)"
  shows "(case ds_status (h' i) of
       AVAILABLE \<Rightarrow> length (pdata (h' i)) = prod_list (ds_shape (h' i))
     | NOT_AVAILABLE \<Rightarrow> pdata (h' i) = [] \<and> ds_tensor (h' i) \<noteq> None
     | INFLIGHT \<Rightarrow> (pdata (h' i) = [] \<or> length (pdata (h' i)) = prod_list (ds_shape (h' i))) \<and> ds_tensor (h' i) \<noteq> None)
    \<and> (case ds_tensor (h' i) of None \<Rightarrow> True | Some t \<Rightarrow> length t = shard_size W (prod_list (ds_shape (h' i))))"
proof -
  have "wf_param W (h j)" for j
    using assms(3) [of j] by (auto simp: wf_param_def convert_to_deepspeed_param_def)
  then have start: "well_typed W (h, [])" by (simp add: well_typed_def)
  have "well_typed W (h', hs)" by (rule run_well_typed [OF assms(1,2,4) start])
  then have "wf_param W (h' i)" by (simp add: well_typed_def)
  then show ?thesis
    by (cases "ds_status (h' i)") (auto simp: wf_param_def split: option.split)
qed

text \<open>Two ranks: a parameter of three elements is partitioned, gathered, and partitioned again.\<close>

definition demo_param :: "int param" where
  "demo_param = convert_to_deepspeed_param [3] Float16 True [1, 2, 3]"

theorem params_well_typed_witness:
  "\<exists>h' hs. (param_step 2 0 (\<lambda>_. 9) (\<lambda>_ x. x @ x) (\<lambda>_ x. x) (\<lambda>_. True))\<^sup>*\<^sup>* (\<lambda>_. demo_param, []) (h', hs)
    \<and> ds_status (h' 0) = AVAILABLE \<and> length (pdata (h' 0)) = 3 \<and> ds_tensor (h' 0) = Some [1, 2]"
proof -
  let ?S = "param_step 2 0 (\<lambda>_. 9) (\<lambda>_ x. x @ x) (\<lambda>_ x. x) (\<lambda>_. True)"
  define h1 :: "int heap" where "h1 = (\<lambda>_. demo_param)(0 := demo_param\<lparr>ds_tensor := Some [1, 2], pdata := [], ds_status := NOT_AVAILABLE\<rparr>)"
  define h2 :: "int heap" where "h2 = h1(0 := (h1 0)\<lparr>pdata := [9, 9, 9], ds_status := INFLIGHT\<rparr>)"
  define h3 :: "int heap" where "h3 = h2(0 := (h2 0)\<lparr>pdata := [1, 2, 1], ds_status := AVAILABLE\<rparr>)"
  define hdl :: "int ag_handle" where "hdl = \<lparr>h_kind = SingleHandle, h_params = [0], h_recv = [1, 2, 1, 2], h_part_size = 0, h_complete = False\<rparr>"
  have "partition_param 2 0 (\<lambda>_. 9) False demo_param
      = Inr (demo_param\<lparr>ds_tensor := Some [1, 2], pdata := [], ds_status := NOT_AVAILABLE\<rparr>)"
    by code_simp
  then have "partition_list 2 0 (\<lambda>_. 9) False [0] (\<lambda>_. demo_param) = Inr h1"
    by (simp add: partition_list_def partition_one_def h1_def)
  then have s1: "?S (\<lambda>_. demo_param, []) (h1, [])" by (rule param_step.partition)
  have "all_gather_coalesced 2 (\<lambda>_. 9) (\<lambda>_ x. x @ x) (\<lambda>_ x. x) False [0] h1 = Inr (h2, hdl)"
    by (simp add: all_gather_coalesced_def mark_inflight_def the_shard_def h1_def h2_def hdl_def demo_param_def
        convert_to_deepspeed_param_def ceil_div_def narrow_def fresh_def view_as_shape_def upt_rec numeral_3_eq_3)
  then have s2: "?S (h1, []) (h2, [] @ [hdl])" by (rule param_step.launch)
  have "\<exists>hdl'. handle_wait 2 hdl h2 = Inr (h3, hdl')"
    by (simp add: wait_defs hdl_def h3_def h2_def h1_def demo_param_def convert_to_deepspeed_param_def)
  then have s3: "?S (h2, [] @ [hdl]) (h3, [] @ [])" using param_step.wait by blast
  have reach: "?S\<^sup>*\<^sup>* (\<lambda>_. demo_param, []) (h3, [])" using s1 s2 s3 by simp
  have "case ds_status (h3 0) of AVAILABLE \<Rightarrow> length (pdata (h3 0)) = prod_list (ds_shape (h3 0))
     | NOT_AVAILABLE \<Rightarrow> pdata (h3 0) = [] \<and> ds_tensor (h3 0) \<noteq> None
     | INFLIGHT \<Rightarrow> (pdata (h3 0) = [] \<or> length (pdata (h3 0)) = prod_list (ds_shape (h3 0))) \<and> ds_tensor (h3 0) \<noteq> None"
    by (rule params_well_typed [OF _ _ _ reach, THEN conjunct1]) (auto simp: gathers_ranks_def demo_param_def intro!: exI)
  moreover have "ds_status (h3 0) = AVAILABLE" "ds_shape (h3 0) = [3]" "ds_tensor (h3 0) = Some [1, 2]"
    by (simp_all add: h3_def h2_def h1_def demo_param_def convert_to_deepspeed_param_def)
  ultimately show ?thesis using reach by (intro exI conjI) simp_all
qed

end
