(* ===== verification/BaseGrad.thy ===== *)
theory BaseGrad
  imports GradBucketProps
begin

text \<open>
  The gradients in the baseline without the DPU: \<^verbatim>\<open>src/baseline/zero_optimizer.py\<close>. The hook of a
  gradient, the bucket and its flat buffer are those of \<open>GradBucket\<close>, and so is the construction of
  the flat input; a full bucket is reduced by NCCL, waited for and copied into the gradient
  partitions at once. \<open>pending_rs\<close> stays empty here.
\<close>

section \<open>The collective\<close>

definition torch_reduce_scatter_fn :: "nat \<Rightarrow> ('a list \<Rightarrow> 'a list) \<Rightarrow> 'a list + 'a list list \<Rightarrow> nat \<Rightarrow> 'a list result" where
  "torch_reduce_scatter_fn W coll input_tensor output_numel =
     ebind (case input_tensor of
              Inr ts \<Rightarrow> if ts = [] then Inl (ValueError ''input_tensor'') else Inr ts
            | Inl flat \<Rightarrow> if length flat mod W \<noteq> 0 then Inl (ValueError ''input_tensor.numel()'')
                         else Inr (map (\<lambda>r. block (ceil_div (length flat) W) r flat) [0..<W])) (\<lambda>input_list.
     if output_numel \<noteq> length (hd input_list) then Inl (ValueError ''output_tensor'')
     else Inr (coll (concat input_list)))"

definition base_reduce_scatter_coalesced ::
  "nat \<Rightarrow> nat \<Rightarrow> (nat \<Rightarrow> 'a \<Rightarrow> 'a) \<Rightarrow> (nat \<Rightarrow> nat \<Rightarrow> nat \<Rightarrow> 'a) \<Rightarrow> ('a list \<Rightarrow> 'a list) \<Rightarrow> 'a list list \<Rightarrow> ('a list \<times> 'a list list) result" where
  "base_reduce_scatter_coalesced W this_rank dv u coll tensors =
     ebind (flat_input W u tensors) (\<lambda>flat.
       let flat = map (dv W) flat;
           out_numel = length (block (ceil_div (length flat) W) this_rank flat)
       in ebind (torch_reduce_scatter_fn W coll (Inl flat) out_numel) (\<lambda>out.
          ebind (output_views out_numel 0 (map (\<lambda>t. (length (partition_lst W t ! this_rank), chunk_sz W t)) tensors)) (\<lambda>views.
          Inr (out, read_views views out))))"

section \<open>Reducing and partitioning\<close>

text \<open>The output takes the place of this rank's chunk of the input, which may be the gradient itself.\<close>

definition put_output :: "'a genv \<Rightarrow> nat \<Rightarrow> 'a list \<Rightarrow> 'a ipg \<Rightarrow> 'a ipg" where
  "put_output env p out s =
     (let o' = g_rank env * length out in
      case grad s p of
        None \<Rightarrow> s
      | Some (GOwn x) \<Rightarrow> s\<lparr>grad := (grad s)(p \<mapsto> GOwn (take o' x @ out @ drop (o' + length out) x))\<rparr>
      | Some (GBucket start len) \<Rightarrow>
          s\<lparr>ipg_bucket_flat := take (start + o') (ipg_bucket_flat s) @ out @ drop (start + o' + length out) (ipg_bucket_flat s)\<rparr>)"

definition base_avg_scatter_grads :: "'a genv \<Rightarrow> nat list \<Rightarrow> 'a ipg \<Rightarrow> ('a list list \<times> 'a ipg) result" where
  "base_avg_scatter_grads env ps s =
     ebind (read_grads s ps) (\<lambda>grads.
       let full_grads = (if copies_grads env then map (map (g_cvt env Float32)) grads else grads) in
       ebind (base_reduce_scatter_coalesced (g_world env) (g_rank env) (g_dv env) (g_fresh env)
                (g_rs env (int (hd ps))) full_grads) (\<lambda>(out, parts).
         Inr (if copies_grads env then map (map (g_cvt env (g_dtype env))) parts else parts,
              if aliases_input (g_world env) full_grads \<and> \<not> copies_grads env
              then put_output env (hd ps) out (divide_grad env (hd ps) s) else s)))"

definition base_partition_grad :: "'a genv \<Rightarrow> nat \<times> 'a list \<Rightarrow> 'a ipg \<Rightarrow> 'a ipg result" where
  "base_partition_grad env pg s =
     (case pg of (p, grad_partition) \<Rightarrow>
        if g_part env p * g_rank env > g_numel env p then Inr s
        else if length grad_partition > g_part env p then Inl (RuntimeError ''narrow'')
        else
          let start = g_offset env p; len = length grad_partition;
              grad_buffer = take len (drop start (grad_partitions_flat s));
              new = (if micro_step_id s = 0 then grad_partition else map2 (g_add env) grad_buffer grad_partition)
          in ebind (copy_into (grad_partitions_flat s) start len new) (\<lambda>b.
             ebind (offload_grad env p new (s\<lparr>grad_partitions_flat := b\<rparr>)) (\<lambda>s1.
             if grad s1 p = None then Inl AttributeError
             else Inr (s1\<lparr>grad := (grad s1)(p := None)\<rparr>))))"

definition base_partition_grads :: "'a genv \<Rightarrow> nat list \<Rightarrow> 'a list list \<Rightarrow> 'a ipg \<Rightarrow> 'a ipg result" where
  "base_partition_grads env ps xs s = foldE (base_partition_grad env) (zip ps xs) s"

definition base_reduce_and_partition_ipg_grads :: "'a genv \<Rightarrow> 'a ipg \<Rightarrow> 'a ipg result" where
  "base_reduce_and_partition_ipg_grads env s =
     (if params_in_ipg_bucket s = [] then Inr s
      else
        ebind (check_sizes env s) (\<lambda>_.
          let s1 = s\<lparr>params_in_ipg_bucket := sort (params_in_ipg_bucket s)\<rparr> in
          ebind (base_avg_scatter_grads env (params_in_ipg_bucket s1) s1) (\<lambda>(parts, s2).
          ebind (base_partition_grads env (params_in_ipg_bucket s2) parts s2) (\<lambda>s3.
            Inr (s3\<lparr>params_in_ipg_bucket := []\<rparr>)))))"

section \<open>Hook and epilogue\<close>

definition base_reduce_ready_partitions :: "'a genv \<Rightarrow> nat \<Rightarrow> 'a ipg \<Rightarrow> 'a ipg result" where
  "base_reduce_ready_partitions env p s =
     ebind (if elements_in_ipg_bucket env s > 0 \<and> elements_in_ipg_bucket env s + g_numel env p > reduce_bucket_size env
            then ebind (report_ipg_memory_usage env) (\<lambda>_. base_reduce_and_partition_ipg_grads env s) else Inr s) (\<lambda>s1.
     ebind (assert_that (\<not> params_already_reduced s1 p)) (\<lambda>_.
       add_grad_to_ipg_bucket env p s1))"

definition base_gradient_partition_epilogue :: "'a genv \<Rightarrow> 'a ipg \<Rightarrow> 'a ipg result" where
  "base_gradient_partition_epilogue env s =
     ebind (report_ipg_memory_usage env) (\<lambda>_.
     ebind (base_reduce_and_partition_ipg_grads env s) (\<lambda>s1.
     ebind (report_ipg_memory_usage env) (\<lambda>_.
       Inr (s1\<lparr>params_already_reduced := \<lambda>_. False, micro_step_id := micro_step_id s1 + 1\<rparr>))))"

definition base_backward_param :: "'a genv \<Rightarrow> nat \<times> 'a list \<Rightarrow> 'a ipg \<Rightarrow> 'a ipg result" where
  "base_backward_param env pg s = (case pg of (p, g) \<Rightarrow> base_reduce_ready_partitions env p (accumulate_grad env p g s))"

definition base_backward_pass :: "'a genv \<Rightarrow> (nat \<times> 'a list) list \<Rightarrow> 'a ipg \<Rightarrow> 'a ipg result" where
  "base_backward_pass env pgs s = ebind (foldE (base_backward_param env) pgs s) (base_gradient_partition_epilogue env)"

section \<open>One bucket\<close>

lemma base_reduce_scatter_ok:
  assumes "r < W" and "ts \<noteq> []" and x_def: "x = map (dv W) (concat (map (rank_row W u ts) [0..<W]))"
  shows "base_reduce_scatter_coalesced W r dv u coll ts = Inr (coll x, read_views (views_of W r ts) (coll x))"
proof -
  have W: "0 < W" using assms(1) by simp
  define C where "C = (\<Sum>t \<leftarrow> ts. chunk_sz W t)"
  have flat: "flat_input W u ts = Inr (concat (map (rank_row W u ts) [0..<W]))" by (rule flat_input_rows [OF W assms(2)])
  have len: "length x = W * C" by (simp only: x_def length_map length_flat C_def)
  have cd: "ceil_div (length x) W = C" using W by (simp add: len ceil_div_dvd)
  have bl: "length (block C q x) = C" if "q < W" for q
  proof -
    have "(q + 1) * C \<le> W * C" using that by (intro mult_right_mono) auto
    then show ?thesis by (simp add: length_block len)
  qed
  have hd: "length (hd (map (\<lambda>q. block C q x) [0..<W])) = C" using W bl [OF W] by (simp add: hd_map)
  have "torch_reduce_scatter_fn W coll (Inl x) C = Inr (coll x)"
    using concat_blocks [of x W C] hd by (simp add: torch_reduce_scatter_fn_def cd [unfolded len] len del: map_concat)
  moreover have "output_views C 0 (map (\<lambda>t. (length (partition_lst W t ! r), chunk_sz W t)) ts) = Inr (views_of W r ts)"
    by (rule output_views_launch [OF assms(1)]) (simp add: C_def)
  ultimately show ?thesis
    unfolding base_reduce_scatter_coalesced_def flat ebind_Inr Let_def x_def [symmetric] cd bl [OF assms(1)] by simp
qed

text \<open>
  Copying a partition of the first micro step is storing it, and then what the DPU version does
  with a result that is in place already.
\<close>

definition store_part :: "'a genv \<Rightarrow> nat \<Rightarrow> 'a list \<Rightarrow> 'a ipg \<Rightarrow> 'a ipg" where
  "store_part env p x s = s\<lparr>grad_partitions_flat := take (g_offset env p) (grad_partitions_flat s) @ x
     @ drop (g_offset env p + length x) (grad_partitions_flat s)\<rparr>"

lemma base_partition_store:
  assumes "micro_step_id s = 0" and "length x = local_numel env p" and "fits env s p"
  shows "base_partition_grad env (p, x) s = partition_grad env (p, InPlace (g_offset env p) (local_numel env p)) (store_part env p x s)"
proof (cases "g_part env p * g_rank env > g_numel env p")
  case True
  then have "local_numel env p = 0" by (simp add: local_numel_def mult.commute)
  then have "x = []" using assms(2) by simp
  then show ?thesis using True by (simp add: base_partition_grad_def partition_grad_def store_part_def)
next
  case False
  have le: "local_numel env p \<le> g_part env p" by (simp add: local_numel_def)
  have room: "g_offset env p + length x \<le> length (grad_partitions_flat s)"
    using assms(2,3) le by (auto simp: fits_def split: prod.splits)
  show ?thesis using False le room assms(1,2)
    by (simp add: base_partition_grad_def partition_grad_def store_part_def part_numel_def copy_into_ok Let_def)
qed

definition base_only :: "nat set \<Rightarrow> 'a ipg \<Rightarrow> 'a ipg \<Rightarrow> bool" where
  "base_only P s t \<longleftrightarrow> t = s\<lparr>grad_partitions_flat := grad_partitions_flat t, grad_bufs := grad_bufs t, grad := grad t\<rparr>
     \<and> length (grad_partitions_flat t) = length (grad_partitions_flat s)
     \<and> (\<forall>b. map length (grad_bufs t b) = map length (grad_bufs s b)) \<and> (\<forall>q. q \<notin> P \<longrightarrow> grad t q = grad s q)"

lemma base_only_trans: "base_only P s t \<Longrightarrow> base_only Q t r \<Longrightarrow> base_only (P \<union> Q) s r"
  unfolding base_only_def by (cases s; cases t; cases r) simp

lemma base_only_fields:
  assumes "base_only P s t"
  shows "accumulation_boundary t = accumulation_boundary s" "micro_step_id t = micro_step_id s" "buf_switch t = buf_switch s"
    "params_in_ipg_bucket t = params_in_ipg_bucket s" "ipg_bucket_flat t = ipg_bucket_flat s" "pending_rs t = pending_rs s"
    "params_already_reduced t = params_already_reduced s"
  using assms unfolding base_only_def by (cases s; cases t; simp)+

lemma base_only_fits:
  assumes "base_only P s t"
  shows "fits env t p = fits env s p"
proof -
  have l: "map length (grad_bufs t b) = map length (grad_bufs s b)" for b using assms by (simp add: base_only_def)
  have l1: "length (grad_bufs t b) = length (grad_bufs s b)" for b using l by (metis length_map)
  have l2: "length (grad_bufs t b ! i) = length (grad_bufs s b ! i)" if "i < length (grad_bufs s b)" for b i
    using l l1 that by (metis nth_map)
  have "length (grad_partitions_flat t) = length (grad_partitions_flat s)" using assms by (simp add: base_only_def)
  then show ?thesis using l1 l2 by (auto simp: fits_def base_only_fields [OF assms] split: prod.splits)
qed

lemma base_partition_one:
  assumes "accumulation_boundary s" and "micro_step_id s = 0" and "grad s p \<noteq> None" and "fits env s p" and "length x = local_numel env p"
  shows "\<exists>t. base_partition_grad env (p, x) s = Inr t \<and> base_only {p} s t \<and> fp32_slot env t p = map (g_cvt env Float32) x
    \<and> (\<forall>q. q \<noteq> p \<longrightarrow> apart env p q \<longrightarrow> fp32_slot env t q = fp32_slot env s q)"
proof -
  let ?s = "store_part env p x s"
  have le: "local_numel env p \<le> g_part env p" by (simp add: local_numel_def)
  have room: "g_offset env p + length x \<le> length (grad_partitions_flat s)"
    using assms(4,5) le by (auto simp: fits_def split: prod.splits)
  have len: "length (grad_partitions_flat ?s) = length (grad_partitions_flat s)" using room by (simp add: store_part_def)
  have f: "accumulation_boundary ?s" "grad ?s p \<noteq> None" "fits env ?s p" "fp32_slot env ?s q = fp32_slot env s q" for q
    using assms(1,3,4) len by (simp_all add: store_part_def fits_def fp32_slot_def)
  have slot: "grad_slot env ?s p = x" using room assms(5) by (simp add: grad_slot_def store_part_def)
  obtain t where t: "partition_grad env (p, InPlace (g_offset env p) (local_numel env p)) ?s = Inr t" "only_offload {p} ?s t"
      "fp32_slot env t p = map (g_cvt env Float32) (grad_slot env ?s p)"
      "\<forall>q. q \<noteq> p \<longrightarrow> apart env p q \<longrightarrow> fp32_slot env t q = fp32_slot env ?s q"
    using partition_in_place [OF f(1-3)] by blast
  have "base_only {p} s t"
  proof -
    have eq: "t = ?s\<lparr>grad_bufs := grad_bufs t, grad := grad t\<rparr>" using t(2) by (simp add: only_offload_def)
    have "t = s\<lparr>grad_partitions_flat := grad_partitions_flat t, grad_bufs := grad_bufs t, grad := grad t\<rparr>"
      by (subst eq, subst (2) eq) (simp add: store_part_def)
    then show ?thesis using t(2) len only_offload_fields(1) [OF t(2)] by (simp add: base_only_def only_offload_def store_part_def)
  qed
  then show ?thesis using base_partition_store [OF assms(2,5,4)] t(1,3,4) slot f(4) by auto
qed

lemma base_partition_all:
  assumes "accumulation_boundary s" and "micro_step_id s = 0" and "distinct ps"
    and "\<And>p. p \<in> set ps \<Longrightarrow> grad s p \<noteq> None \<and> fits env s p \<and> length (res p) = local_numel env p"
    and "\<And>p q. p \<in> set ps \<Longrightarrow> q \<in> set ps \<union> Q \<Longrightarrow> p \<noteq> q \<Longrightarrow> apart env p q" and "set ps \<inter> Q = {}"
  shows "\<exists>t. base_partition_grads env ps (map res ps) s = Inr t \<and> base_only (set ps) s t
    \<and> (\<forall>p \<in> set ps. fp32_slot env t p = map (g_cvt env Float32) (res p)) \<and> (\<forall>q \<in> Q. fp32_slot env t q = fp32_slot env s q)"
  using assms
proof (induction ps arbitrary: s Q)
  case Nil
  then show ?case by (simp add: base_partition_grads_def base_only_def)
next
  case (Cons p ps)
  obtain t where t: "base_partition_grad env (p, res p) s = Inr t" "base_only {p} s t" "fp32_slot env t p = map (g_cvt env Float32) (res p)"
      "\<forall>q. q \<noteq> p \<longrightarrow> apart env p q \<longrightarrow> fp32_slot env t q = fp32_slot env s q"
    using base_partition_one [of s p env "res p"] Cons.prems(1,2,4) by auto
  note f = base_only_fields [OF t(2)]
  have grads: "grad t q = grad s q" if "q \<in> set ps" for q
    using t(2) that Cons.prems(3) by (auto simp: base_only_def)
  have "\<exists>r. base_partition_grads env ps (map res ps) t = Inr r \<and> base_only (set ps) t r
    \<and> (\<forall>q \<in> set ps. fp32_slot env r q = map (g_cvt env Float32) (res q)) \<and> (\<forall>q \<in> insert p Q. fp32_slot env r q = fp32_slot env t q)"
  proof (rule Cons.IH)
    show "accumulation_boundary t" "micro_step_id t = 0" "distinct ps" using Cons.prems(1-3) f by simp_all
    show "grad t q \<noteq> None \<and> fits env t q \<and> length (res q) = local_numel env q" if "q \<in> set ps" for q
      using that Cons.prems(4) grads base_only_fits [OF t(2)] by simp
    show "apart env a b" if "a \<in> set ps" "b \<in> set ps \<union> insert p Q" "a \<noteq> b" for a b
      using Cons.prems(5) [of a b] that by auto
    show "set ps \<inter> insert p Q = {}" using Cons.prems(3,6) by auto
  qed
  then obtain r where r: "base_partition_grads env ps (map res ps) t = Inr r" "base_only (set ps) t r"
      "\<forall>q \<in> set ps. fp32_slot env r q = map (g_cvt env Float32) (res q)" "\<forall>q \<in> insert p Q. fp32_slot env r q = fp32_slot env t q" by blast
  have other: "fp32_slot env t q = fp32_slot env s q" if "q \<in> Q" for q
  proof -
    have "q \<noteq> p" using Cons.prems(6) that by auto
    moreover from this have "apart env p q" using Cons.prems(5) [of p q] that by simp
    ultimately show ?thesis using t(4) by blast
  qed
  show ?case
  proof (intro exI [of _ r] conjI)
    show "base_partition_grads env (p # ps) (map res (p # ps)) s = Inr r"
      using t(1) r(1) by (simp add: base_partition_grads_def)
    show "base_only (set (p # ps)) s r" using base_only_trans [OF t(2) r(2)] by simp
    show "\<forall>q \<in> set (p # ps). fp32_slot env r q = map (g_cvt env Float32) (res q)" using r(3,4) t(3) by simp
    show "\<forall>q \<in> Q. fp32_slot env r q = fp32_slot env s q" using r(4) other by simp
  qed
qed

text \<open>The collective of a bucket, with what it leaves in the gradient it may have read.\<close>

lemma base_avg_scatter_ok:
  assumes "direct_env env" and "grads_for env ps gs" and "read_grads s ps = Inr gs"
    and "length (g_rs env (int (hd ps)) (rs_input env gs)) = sum_part env ps"
    and "\<forall>start len. grad s (hd ps) = Some (GBucket start len) \<longrightarrow> len = g_numel env (hd ps) \<and> start + len \<le> length (ipg_bucket_flat s)"
  shows "\<exists>t. base_avg_scatter_grads env ps s
      = Inr (read_views (views_of (g_world env) (g_rank env) gs) (g_rs env (int (hd ps)) (rs_input env gs)), t)
    \<and> t = s\<lparr>ipg_bucket_flat := ipg_bucket_flat t, grad := grad t\<rparr> \<and> length (ipg_bucket_flat t) = length (ipg_bucket_flat s)
    \<and> (\<forall>q. q \<noteq> hd ps \<longrightarrow> grad t q = grad s q) \<and> (\<forall>q. grad t q = None \<longleftrightarrow> grad s q = None)"
proof -
  let ?W = "g_world env" and ?r = "g_rank env" and ?p = "hd ps"
  note g = grads_for_chunks [OF assms(1,2)]
  have r: "?r < ?W" using assms(1) by (simp add: direct_env_def)
  have nocopy: "\<not> copies_grads env" using assms(1) by (simp add: direct_env_def)
  define out where "out = g_rs env (int ?p) (rs_input env gs)"
  let ?t = "if aliases_input ?W gs then put_output env ?p out (divide_grad env ?p s) else s"
  have "base_avg_scatter_grads env ps s = Inr (read_views (views_of ?W ?r gs) out, ?t)"
    using base_reduce_scatter_ok [OF r g(2) refl] nocopy
    by (simp add: base_avg_scatter_grads_def assms(3) out_def rs_input_def Let_def)
  moreover have "?t = s\<lparr>ipg_bucket_flat := ipg_bucket_flat ?t, grad := grad ?t\<rparr>"
    by (cases s) (auto simp: put_output_def divide_grad_def Let_def split: option.splits gstore.splits)
  moreover have "length (ipg_bucket_flat ?t) = length (ipg_bucket_flat s)"
  proof -
    have len: "?r * length out + length out \<le> g_numel env ?p" if al: "aliases_input ?W gs"
    proof -
      obtain x where gs: "gs = [x]" "length x mod ?W = 0" using al by (cases gs) (auto simp: aliases_input_def)
      then obtain p where ps: "ps = [p]" using g(1) by (cases ps) auto
      have x: "length x = g_numel env p" using g(4) [of 0] by (simp add: gs ps)
      have "?W * chunk_sz ?W x = length x" by (rule chunk_mult) (use r gs in simp_all)
      moreover have "length out = chunk_sz ?W x" using assms(4) g(5) by (simp add: out_def gs)
      moreover have "(?r + 1) * chunk_sz ?W x \<le> ?W * chunk_sz ?W x" using r by (intro mult_right_mono) auto
      ultimately show ?thesis by (simp add: ps x)
    qed
    show ?thesis using len assms(5)
      by (auto simp: put_output_def divide_grad_def Let_def split: option.splits gstore.splits) linarith?
  qed
  moreover have "\<forall>q. q \<noteq> ?p \<longrightarrow> grad ?t q = grad s q" "\<forall>q. grad ?t q = None \<longleftrightarrow> grad s q = None"
    by (auto simp: put_output_def divide_grad_def Let_def split: option.splits gstore.splits)
  ultimately show ?thesis unfolding out_def by blast
qed

section \<open>A backward pass\<close>

lemma no_pending: "pass_core env gr res own fin [] b rest s \<Longrightarrow> pending_rs s = None"
  by (auto simp: pass_core_def reducible_def split: option.splits)

lemma local_numel_views:
  assumes "direct_env env" and "grads_for env ps gs" and "length out = sum_part env ps"
    and "read_views (views_of (g_world env) (g_rank env) gs) out = map res ps" and "p \<in> set ps"
  shows "length (res p) = local_numel env p"
proof -
  note g = grads_for_chunks [OF assms(1,2)]
  obtain i where i: "i < length ps" "ps ! i = p" using assms(5) by (auto simp: in_set_conv_nth)
  have views: "views_of (g_world env) (g_rank env) gs = map (\<lambda>i. (sum_part env (take i ps), local_numel env (ps ! i))) [0..<length ps]"
    unfolding views_of_def using g by (simp add: local_numel_def)
  have "res p = take (local_numel env p) (drop (sum_part env (take i ps)) out)"
    using arg_cong [OF assms(4), of "\<lambda>xs. xs ! i"] i by (simp add: read_views_def views)
  moreover have "sum_part env (take i ps) + local_numel env p \<le> length out"
    using sum_part_take [OF i(1), of env] by (simp add: i(2) local_numel_def assms(3))
  ultimately show ?thesis by simp
qed

lemma base_reduce:
  assumes "pass_static env gr P" and "fin \<union> set (b @ rest) \<subseteq> P" and "pass_core env gr res own fin [] b rest s"
    and "bucket_ok env s" and "micro_step_id s = 0" and "b \<noteq> []" and "reducible env gr res (sort b)"
  shows "\<exists>t. base_reduce_and_partition_ipg_grads env s = Inr t \<and> pass_core env gr res own (fin \<union> set b) [] [] rest t \<and> micro_step_id t = 0"
proof -
  let ?b = "sort b" and ?s1 = "s\<lparr>params_in_ipg_bucket := sort b\<rparr>"
  have inv: "params_in_ipg_bucket s = b" "\<forall>p \<in> set b. read_grad s p = Inr (gr p)" "\<forall>p \<in> set b. grad s p \<noteq> None \<and> fits env s p"
      "accumulation_boundary s" "distinct b" "set b \<inter> fin = {}" "set b \<inter> set rest = {}"
      "\<forall>p \<in> fin. fp32_slot env s p = map (g_cvt env Float32) (res p)"
    using assms(3) by (auto simp: pass_core_def)
  have len: "length (gr p) = g_numel env p" if "p \<in> set b" for p using assms(1,2) that by (auto simp: pass_static_def)
  have chk: "check_sizes env s = Inr ()" by (rule check_sizes_all) (use inv len in auto)
  have env: "direct_env env" using assms(1) by (simp add: pass_static_def)
  have gf: "grads_for env ?b (map gr ?b)" using reducible_grads [OF assms(1) _ assms(7)] assms(2) by simp
  have rd: "length (g_rs env (int (hd ?b)) (rs_input env (map gr ?b))) = sum_part env ?b"
      "read_views (views_of (g_world env) (g_rank env) (map gr ?b)) (g_rs env (int (hd ?b)) (rs_input env (map gr ?b))) = map res ?b"
    using assms(7) by (simp_all add: reducible_def)
  have ne: "?b \<noteq> []" using assms(6) by (simp flip: set_empty)
  have hd: "hd ?b \<in> set b" using hd_in_set [OF ne] by simp
  have place: "l = g_numel env (hd ?b) \<and> start + l \<le> length (ipg_bucket_flat s)" if "grad s (hd ?b) = Some (GBucket start l)" for start l
  proof -
    obtain i where i: "i < length b" "b ! i = hd ?b" using hd by (auto simp: in_set_conv_nth)
    have "slot_ok env s b i" using bucket_ok_slot [OF assms(4), of i] i(1) inv(1) by simp
    then show ?thesis using that i(2) assms(4) by (simp add: slot_ok_def bucket_ok_def)
  qed
  have rg: "read_grads ?s1 ?b = Inr (map gr ?b)" by (rule read_grads_all) (use inv(2) in simp)
  obtain t where t: "base_avg_scatter_grads env ?b ?s1 = Inr (map res ?b, t)"
      "t = ?s1\<lparr>ipg_bucket_flat := ipg_bucket_flat t, grad := grad t\<rparr>" "length (ipg_bucket_flat t) = length (ipg_bucket_flat s)"
      "\<forall>q. q \<noteq> hd ?b \<longrightarrow> grad t q = grad s q" "\<forall>q. grad t q = None \<longleftrightarrow> grad s q = None"
    using base_avg_scatter_ok [OF env gf rg rd(1)] place rd(2) by auto
  have f: "accumulation_boundary t" "micro_step_id t = 0" "params_in_ipg_bucket t = ?b" "pending_rs t = pending_rs s"
      "params_already_reduced t = params_already_reduced s" "fits env t q = fits env s q" "fp32_slot env t q = fp32_slot env s q" for q
    by (subst t(2), simp add: inv(4) assms(5) fits_def fp32_slot_def)+
  obtain r where r: "base_partition_grads env ?b (map res ?b) t = Inr r" "base_only (set ?b) t r"
      "\<forall>p \<in> set ?b. fp32_slot env r p = map (g_cvt env Float32) (res p)" "\<forall>q \<in> fin. fp32_slot env r q = fp32_slot env t q"
  proof -
    have "\<exists>r. base_partition_grads env ?b (map res ?b) t = Inr r \<and> base_only (set ?b) t r
        \<and> (\<forall>p \<in> set ?b. fp32_slot env r p = map (g_cvt env Float32) (res p)) \<and> (\<forall>q \<in> fin. fp32_slot env r q = fp32_slot env t q)"
    proof (rule base_partition_all)
      show "grad t p \<noteq> None \<and> fits env t p \<and> length (res p) = local_numel env p" if "p \<in> set ?b" for p
        using that inv(3) t(5) f(6) local_numel_views [OF env gf rd] by simp
      show "apart env p q" if "p \<in> set ?b" "q \<in> set ?b \<union> fin" "p \<noteq> q" for p q
      proof -
        have "p \<in> P" "q \<in> P" using that(1,2) assms(2) by auto
        then show ?thesis using assms(1) that(3) unfolding pass_static_def by blast
      qed
    qed (use f inv in auto)
    then show ?thesis using that by blast
  qed
  note fr = base_only_fields [OF r(2)]
  let ?r = "r\<lparr>params_in_ipg_bucket := []\<rparr>"
  have "base_reduce_and_partition_ipg_grads env s = Inr ?r"
    using assms(6) chk t(1) r(1) inv(1) f(3) by (simp add: base_reduce_and_partition_ipg_grads_def Let_def)
  moreover have "pass_core env gr res own (fin \<union> set b) [] [] rest ?r"
  proof -
    have "grad r q = own q" if "q \<in> set rest" for q
    proof -
      have "q \<notin> set b" using inv(7) that by auto
      moreover from this have "q \<noteq> hd ?b" using hd by auto
      ultimately show ?thesis using r(2) t(4) assms(3) that by (simp add: base_only_def pass_core_def)
    qed
    then show ?thesis
      using assms(3) r(3,4) f fr base_only_fits [OF r(2)] inv(6,7,8) no_pending [OF assms(3)] t(3) unfolding pass_core_def by auto
  qed
  moreover have "micro_step_id ?r = 0" using fr(2) f(2) by simp
  ultimately show ?thesis by blast
qed

lemma base_hook:
  assumes "pass_static env gr P" and "fin \<union> set (b @ p # rest) \<subseteq> P"
    and "pass_core env gr res (\<lambda>_. None) fin [] b (p # rest) s" and "bucket_ok env s" and "micro_step_id s = 0"
    and "overfull env b p \<Longrightarrow> reducible env gr res (sort b)"
  shows "\<exists>t. base_backward_param env (p, gr p) s = Inr t \<and> bucket_ok env t \<and> micro_step_id t = 0 \<and>
    (if overfull env b p then pass_core env gr res (\<lambda>_. None) (fin \<union> set b) [] [p] rest t
     else pass_core env gr res (\<lambda>_. None) fin [] (b @ [p]) rest t)"
proof -
  let ?s = "accumulate_grad env p (gr p) s" and ?own = "(\<lambda>_. None)(p \<mapsto> GOwn (gr p))"
  note acc = accumulate_first [OF assms(3,4)]
  have b: "params_in_ipg_bucket ?s = b" using acc(1) by (simp add: pass_core_def)
  have m: "micro_step_id ?s = 0" using assms(5) by (simp add: accumulate_grad_def split: option.splits gstore.splits)
  have "0 < reduce_bucket_size env" using assms(1) by (simp add: pass_static_def)
  then have step: "base_backward_param env (p, gr p) s =
      ebind (if overfull env b p then base_reduce_and_partition_ipg_grads env ?s else Inr ?s) (\<lambda>s1.
      ebind (assert_that (\<not> params_already_reduced s1 p)) (\<lambda>_. add_grad_to_ipg_bucket env p s1))"
    by (simp add: base_backward_param_def base_reduce_ready_partitions_def elements_sum b overfull_def report_ipg_memory_usage_def)
  have sub: "fin \<union> set ([] @ b @ p # rest) \<subseteq> P" using assms(2) by simp
  show ?thesis
  proof (cases "overfull env b p")
    case True
    obtain r where r: "base_reduce_and_partition_ipg_grads env ?s = Inr r" "pass_core env gr res ?own (fin \<union> set b) [] [] (p # rest) r"
        "micro_step_id r = 0"
      using base_reduce [OF assms(1,2) acc m overfull_nonempty [OF True] assms(6) [OF True]] by blast
    have ok: "bucket_ok env r" using r(2) by (simp add: pass_core_def bucket_ok_def)
    have sub': "(fin \<union> set b) \<union> set ([] @ [] @ p # rest) \<subseteq> P" using assms(2) by simp
    obtain t where "ebind (assert_that (\<not> params_already_reduced r p)) (\<lambda>_. add_grad_to_ipg_bucket env p r) = Inr t"
        "pass_core env gr res (\<lambda>_. None) (fin \<union> set b) [] ([] @ [p]) rest t" "bucket_ok env t" "micro_step_id t = micro_step_id r"
      using pass_add [OF assms(1) sub' r(2) ok] by blast
    then show ?thesis using step r(1,3) True by simp
  next
    case False
    obtain t where "ebind (assert_that (\<not> params_already_reduced ?s p)) (\<lambda>_. add_grad_to_ipg_bucket env p ?s) = Inr t"
        "pass_core env gr res (\<lambda>_. None) fin [] (b @ [p]) rest t" "bucket_ok env t" "micro_step_id t = micro_step_id ?s"
      using pass_add [OF assms(1) sub acc] by blast
    then show ?thesis using step False m by simp
  qed
qed

lemma base_hooks:
  assumes "pass_static env gr P" and "fin \<union> set (b @ ps) \<subseteq> P"
    and "pass_core env gr res (\<lambda>_. None) fin [] b ps s" and "bucket_ok env s" and "micro_step_id s = 0"
    and "\<forall>c \<in> set (buckets_of env b ps). reducible env gr res (sort c)"
  shows "\<exists>t fin' b'. foldE (base_backward_param env) (map (\<lambda>p. (p, gr p)) ps) s = Inr t
    \<and> pass_core env gr res (\<lambda>_. None) fin' [] b' [] t \<and> bucket_ok env t \<and> micro_step_id t = 0
    \<and> fin' \<union> set b' = fin \<union> set b \<union> set ps \<and> (b' \<noteq> [] \<longrightarrow> reducible env gr res (sort b'))"
  using assms(2-)
proof (induction ps arbitrary: s fin b)
  case Nil
  then show ?case by - (rule exI [of _ s], rule exI [of _ fin], rule exI [of _ b], simp)
next
  case (Cons p ps)
  have red: "overfull env b p \<Longrightarrow> reducible env gr res (sort b)" using Cons.prems(5) by simp
  obtain t where t: "base_backward_param env (p, gr p) s = Inr t" "bucket_ok env t" "micro_step_id t = 0"
    "if overfull env b p then pass_core env gr res (\<lambda>_. None) (fin \<union> set b) [] [p] ps t
     else pass_core env gr res (\<lambda>_. None) fin [] (b @ [p]) ps t"
    using base_hook [OF assms(1) Cons.prems(1-4) red] by blast
  define f' where "f' = (if overfull env b p then fin \<union> set b else fin)"
  define c where "c = (if overfull env b p then [p] else b @ [p])"
  have "f' \<union> set (c @ ps) \<subseteq> P" "pass_core env gr res (\<lambda>_. None) f' [] c ps t"
      "\<forall>c \<in> set (buckets_of env c ps). reducible env gr res (sort c)"
    using Cons.prems(1,5) t(4) by (auto simp: f'_def c_def split: if_splits)
  then obtain r fin' b' where r: "foldE (base_backward_param env) (map (\<lambda>p. (p, gr p)) ps) t = Inr r"
      "pass_core env gr res (\<lambda>_. None) fin' [] b' [] r" "bucket_ok env r" "micro_step_id r = 0"
      "fin' \<union> set b' = f' \<union> set c \<union> set ps" "b' \<noteq> [] \<longrightarrow> reducible env gr res (sort b')"
    using Cons.IH [OF _ _ t(2,3)] by blast
  have "f' \<union> set c \<union> set ps = fin \<union> set b \<union> set (p # ps)" by (auto simp: f'_def c_def)
  then show ?case using r t(1)
    by - (rule exI [of _ r], rule exI [of _ fin'], rule exI [of _ b'], simp)
qed

lemma base_whole_pass:
  assumes "pass_static env gr (set ps)" and "distinct ps" and "pass_start env ps s" and "micro_step_id s = 0"
    and "\<forall>c \<in> set (buckets_of env [] ps). reducible env gr res (sort c)"
  shows "\<exists>t. base_backward_pass env (map (\<lambda>p. (p, gr p)) ps) s = Inr t \<and> pending_rs t = None \<and> params_in_ipg_bucket t = []
    \<and> (\<forall>p \<in> set ps. fp32_slot env t p = map (g_cvt env Float32) (res p))"
proof -
  have core: "pass_core env gr res (\<lambda>_. None) {} [] [] ps s" and ok: "bucket_ok env s"
    using assms(2,3) by (simp_all add: pass_start_def pass_core_def bucket_ok_def list_all_iff)
  obtain t fin b where t: "foldE (base_backward_param env) (map (\<lambda>p. (p, gr p)) ps) s = Inr t"
      "pass_core env gr res (\<lambda>_. None) fin [] b [] t" "bucket_ok env t" "micro_step_id t = 0" "fin \<union> set b = set ps"
      "b \<noteq> [] \<longrightarrow> reducible env gr res (sort b)"
    using base_hooks [OF assms(1) _ core ok assms(4,5)] by auto
  obtain r where r: "base_reduce_and_partition_ipg_grads env t = Inr r" "pending_rs r = None" "params_in_ipg_bucket r = []"
      "\<forall>p \<in> set ps. fp32_slot env r p = map (g_cvt env Float32) (res p)"
  proof (cases "b = []")
    case True
    show ?thesis using that [of t] t(2,5) no_pending [OF t(2)] True by (simp add: base_reduce_and_partition_ipg_grads_def pass_core_def)
  next
    case False
    have sub: "fin \<union> set (b @ []) \<subseteq> set ps" using t(5) by simp
    obtain r where r: "base_reduce_and_partition_ipg_grads env t = Inr r" "pass_core env gr res (\<lambda>_. None) (fin \<union> set b) [] [] [] r"
      using base_reduce [OF assms(1) sub t(2-4) False] t(6) False by blast
    show ?thesis using that [of r] r(1) no_pending [OF r(2)] r(2) t(5) by (simp add: pass_core_def)
  qed
  then show ?thesis using t(1) assms(1)
    by (simp add: base_backward_pass_def base_gradient_partition_epilogue_def report_ipg_memory_usage_def pass_static_def fp32_slot_def)
qed

section \<open>Overlapping changes nothing\<close>

text \<open>
  Two implementations of the contract give the optimizer the same: whatever the collectives deliver
  is what both store.
\<close>

locale gradient_paths = one: gradient_path ready1 go1 + other: gradient_path ready2 go2
  for ready1 :: "'a genv \<Rightarrow> nat list \<Rightarrow> 'a ipg \<Rightarrow> bool" and go1 and ready2 :: "'a genv \<Rightarrow> nat list \<Rightarrow> 'a ipg \<Rightarrow> bool" and go2
begin

lemma same_gradients:
  assumes "pass_static env gr (set ps)" and "distinct ps" and "pass_start env ps s" and "ready1 env ps s" and "ready2 env ps s"
    and "\<And>c. c \<in> set (buckets_of env [] ps) \<Longrightarrow> consecutive env (sort c)
       \<and> length (g_rs env (int (hd (sort c))) (rs_input env (map gr (sort c)))) = sum_part env (sort c)"
  shows "\<exists>r b. go1 env (map (\<lambda>p. (p, gr p)) ps) s = Inr r \<and> go2 env (map (\<lambda>p. (p, gr p)) ps) s = Inr b
    \<and> (\<forall>p \<in> set ps. fp32_slot env r p = fp32_slot env b p)"
proof -
  define part where "part c = read_views (views_of (g_world env) (g_rank env) (map gr c)) (g_rs env (int (hd c)) (rs_input env (map gr c)))" for c
  define bucket where "bucket p = sort (THE c. c \<in> set (buckets_of env [] ps) \<and> p \<in> set c)" for p
  define res where "res p = the (map_of (zip (bucket p) (part (bucket p))) p)" for p
  have dist: "distinct (concat (buckets_of env [] ps))" using assms(2) by (simp add: concat_buckets)
  have red: "reducible env gr res (sort c)" if c: "c \<in> set (buckets_of env [] ps)" for c
  proof -
    have bucket: "bucket p = sort c" if "p \<in> set c" for p
    proof -
      have "(THE c. c \<in> set (buckets_of env [] ps) \<and> p \<in> set c) = c"
        using dist c that by (intro the_equality) (auto simp: distinct_concat_iff)
      then show ?thesis by (simp add: bucket_def)
    qed
    have "distinct (sort c)" using dist c by (simp add: distinct_concat_iff)
    moreover have "length (part (sort c)) = length (sort c)" by (simp add: part_def read_views_def views_of_def)
    ultimately have "map (\<lambda>p. the (map_of (zip (sort c) (part (sort c))) p)) (sort c) = part (sort c)"
      by (intro nth_equalityI) (simp_all add: map_of_zip_nth)
    moreover have "map res (sort c) = map (\<lambda>p. the (map_of (zip (sort c) (part (sort c))) p)) (sort c)"
      by (rule map_cong [OF refl]) (simp add: res_def bucket)
    ultimately show ?thesis using assms(6) [OF c] buckets_nonempty [OF c]
      by (simp add: reducible_def part_def flip: set_empty)
  qed
  obtain r where "go1 env (map (\<lambda>p. (p, gr p)) ps) s = Inr r" "\<forall>p \<in> set ps. fp32_slot env r p = map (g_cvt env Float32) (res p)"
    using one.go_stores [OF assms(1-4), of res] red by blast
  moreover obtain b where "go2 env (map (\<lambda>p. (p, gr p)) ps) s = Inr b" "\<forall>p \<in> set ps. fp32_slot env b p = map (g_cvt env Float32) (res p)"
    using other.go_stores [OF assms(1-3,5), of res] red by blast
  ultimately show ?thesis by simp
qed

end

interpretation blocking: gradient_path "\<lambda>_ _ s. micro_step_id s = 0" base_backward_pass
  by unfold_locales (rule base_whole_pass)

interpretation paths: gradient_paths "\<lambda>env ps _. race_free env ps" flushed_pass "\<lambda>_ _ s. micro_step_id s = 0" base_backward_pass ..



end
