(* ===== verification/BaseGather.thy ===== *)
theory BaseGather
  imports AllGather
begin

text \<open>
  Gathering parameters in the baseline without the DPU: \<^verbatim>\<open>src/baseline/partition_parameters.py\<close>,
  \<^verbatim>\<open>allgather_fn\<close> and \<^verbatim>\<open>all_gather_coalesced\<close>. The handles and their \<^verbatim>\<open>wait\<close> are those of
  \<open>AllGather\<close>: without the timing they are the same code. \<open>coll ids x\<close> is what the collective of the
  parameters \<open>ids\<close> delivers for this rank's input \<open>x\<close>: the inputs of all ranks in rank order.
\<close>

text \<open>The function of \<^verbatim>\<open>torch.distributed\<close> that is used, by what the installed version offers.\<close>

datatype gather_api = AllGatherIntoTensor | AllGatherBase | AllGatherList

definition gather_api_of :: "bool \<Rightarrow> bool \<Rightarrow> gather_api" where
  "gather_api_of has_into_tensor has_base =
     (if has_into_tensor then AllGatherIntoTensor else if has_base then AllGatherBase else AllGatherList)"

definition allgather_fn ::
  "nat \<Rightarrow> gather_api \<Rightarrow> ('a list \<Rightarrow> 'a list list) \<Rightarrow> nat \<times> dtype \<times> bool \<Rightarrow> 'a list \<times> dtype \<times> bool \<Rightarrow> 'a list result" where
  "allgather_fn W api coll out inp =
     (case (out, inp) of ((out_numel, out_dtype, out_cuda), (x, in_dtype, in_cuda)) \<Rightarrow>
        if out_numel \<noteq> length x * W then Inl (ValueError ''output numel'')
        else if out_dtype \<noteq> in_dtype then Inl (TypeError ''dtype'')
        else if out_cuda \<noteq> in_cuda then Inl (TypeError ''device'')
        else case api of
               AllGatherIntoTensor \<Rightarrow> Inr (concat (coll x))
             | AllGatherBase \<Rightarrow> Inr (concat (coll x))
             | AllGatherList \<Rightarrow> Inr (concat (map (\<lambda>r. block (length x) r (concat (coll x))) [0..<W])))"

definition base_all_gather_coalesced ::
  "nat \<Rightarrow> (nat \<Rightarrow> 'a) \<Rightarrow> gather_api \<Rightarrow> (nat list \<Rightarrow> 'a list \<Rightarrow> 'a list list) \<Rightarrow> bool \<Rightarrow> nat list \<Rightarrow> 'a heap
     \<Rightarrow> ('a heap \<times> 'a ag_handle) result" where
  "base_all_gather_coalesced W u api coll full_transfer ids h =
     ebind (foldE mark_inflight ids h) (\<lambda>h1.
       let params = sort ids in
       if full_transfer \<and> (\<forall>i \<in> set params. cpu_full_param (h1 i) \<noteq> None)
       then Inr (h1, \<lparr>h_kind = CpuFullHandle, h_params = params, h_recv = [], h_part_size = 0, h_complete = False\<rparr>)
       else case params of
         [i] \<Rightarrow>
           (let param_buffer = fresh u (ceil_div (ds_numel (h1 i)) W * W) in
            ebind (the_shard (h1 i)) (\<lambda>shard_cuda.
            ebind (allgather_fn W api (coll [i]) (length param_buffer, pdtype (h1 i), True) (shard_cuda, pdtype (h1 i), True)) (\<lambda>recv.
            ebind (narrow 0 (ds_numel (h1 i)) param_buffer) (\<lambda>v.
            ebind (view_as_shape (ds_shape (h1 i)) v) (\<lambda>v.
              Inr (h1(i := (h1 i)\<lparr>pdata := v\<rparr>), \<lparr>h_kind = SingleHandle, h_params = [i], h_recv = recv, h_part_size = 0, h_complete = False\<rparr>))))))
       | _ \<Rightarrow>
           ebind (collect_shards h1 params) (\<lambda>shards.
           ebind (get_only_unique_item (map (\<lambda>i. pdtype (h1 i)) params)) (\<lambda>dt.
             let partition_sz = length (concat shards) in
             ebind (cat shards) (\<lambda>own_partition.
             ebind (allgather_fn W api (coll params) (partition_sz * W, dt, True) (own_partition, dt, True)) (\<lambda>recv.
               Inr (h1, \<lparr>h_kind = CoalescedHandle, h_params = params, h_recv = recv, h_part_size = partition_sz, h_complete = False\<rparr>))))))"

lemma allgather_fn_ok:
  assumes "length (concat (coll x)) = W * length x"
  shows "allgather_fn W api coll (length x * W, dt, cuda) (x, dt, cuda) = Inr (concat (coll x))"
  using assms concat_blocks [of "concat (coll x)" W "length x"] by (simp add: allgather_fn_def split: gather_api.split)

lemma mark_inflight_shards:
  assumes "foldE mark_inflight ids h = Inr h1"
  shows "ds_tensor (h1 i) = ds_tensor (h i)" "ds_numel (h1 i) = ds_numel (h i)" "pdtype (h1 i) = pdtype (h i)"
proof -
  have "ds_tensor (h1 i) = ds_tensor (h i) \<and> ds_numel (h1 i) = ds_numel (h i) \<and> pdtype (h1 i) = pdtype (h i)"
    by (rule foldE_invariant [OF assms, of "\<lambda>g. ds_tensor (g i) = ds_tensor (h i) \<and> ds_numel (g i) = ds_numel (h i) \<and> pdtype (g i) = pdtype (h i)"])
      (auto simp: mark_inflight_def split: if_splits)
  then show "ds_tensor (h1 i) = ds_tensor (h i)" "ds_numel (h1 i) = ds_numel (h i)" "pdtype (h1 i) = pdtype (h i)" by blast+
qed

lemma collect_shards_none: "collect_shards h ids = Inr [] \<longleftrightarrow> ids = []"
  by (cases ids) (auto simp: ebind_eq_Inr_iff)

lemma collect_shards_cong: "(\<And>i. ds_tensor (h i) = ds_tensor (g i)) \<Longrightarrow> collect_shards h ids = collect_shards g ids"
  by (induction ids) (simp_all add: the_shard_def)

lemma unique_item_set: "get_only_unique_item xs = Inr x \<Longrightarrow> set xs = {x}"
proof -
  assume "get_only_unique_item xs = Inr x"
  then have "remdups xs = [x]" by (auto simp: get_only_unique_item_def split: list.splits)
  then show ?thesis by (metis set_remdups list.set(1) list.set(2))
qed

lemma sort_single: "sort xs = [x] \<Longrightarrow> xs = [x]"
  by (metis set_sort set_ConsD list.set_intros(1) length_sort length_Cons list.size(3) length_0_conv Suc_length_conv empty_iff list.set(1))

lemma ebind_cong: "(\<And>x. m = Inr x \<Longrightarrow> f x = g x) \<Longrightarrow> ebind m f = ebind m g"
  by (cases m) simp_all

text \<open>The two launches after the marking, for one parameter and for several.\<close>

lemma single_launch:
  assumes marked: "foldE mark_inflight [i] h = Inr h1"
    and no_cpu: "\<not> (full_transfer \<and> cpu_full_param (h1 i) \<noteq> None)"
    and shard: "\<And>t. ds_tensor (h i) = Some t \<Longrightarrow> length t = ceil_div (ds_numel (h i)) W"
    and coll: "\<And>x. length (concat (coll [i] x)) = W * length x"
    and ag: "\<And>x. ag i x = concat (coll [i] x)"
  shows "all_gather_coalesced W u ag cast full_transfer [i] h = base_all_gather_coalesced W u api coll full_transfer [i] h"
proof (cases "ds_tensor (h1 i)")
  case None
  have no: "\<not> (full_transfer \<and> (\<forall>i \<in> set (sort [i]). cpu_full_param (h1 i) \<noteq> None))" using no_cpu by simp
  show ?thesis unfolding all_gather_coalesced_def base_all_gather_coalesced_def marked ebind_Inr Let_def if_not_P [OF no]
    by (simp add: None the_shard_def)
next
  case (Some t)
  have no: "\<not> (full_transfer \<and> (\<forall>i \<in> set (sort [i]). cpu_full_param (h1 i) \<noteq> None))" using no_cpu by simp
  note same = mark_inflight_shards [OF marked]
  have "length t = ceil_div (ds_numel (h i)) W" using shard [of t] Some same(1) by simp
  then have "allgather_fn W api (coll [i]) (length (fresh u (ceil_div (ds_numel (h1 i)) W * W)), pdtype (h1 i), True) (t, pdtype (h1 i), True)
      = Inr (ag i t)"
    using allgather_fn_ok [of "coll [i]" t W] coll ag [of t] same(2) by simp
  then show ?thesis unfolding all_gather_coalesced_def base_all_gather_coalesced_def marked ebind_Inr Let_def if_not_P [OF no]
    by (simp add: Some the_shard_def)
qed

lemma several_launches:
  assumes marked: "foldE mark_inflight ids h = Inr h1"
    and no_cpu: "\<not> (full_transfer \<and> (\<forall>i \<in> set ids. cpu_full_param (h1 i) \<noteq> None))"
    and several: "sort ids = i # j # js"
  shows "all_gather_coalesced W u ag cast full_transfer ids h = ebind (collect_shards h1 (sort ids)) (\<lambda>shards.
           ebind (get_only_unique_item (map (\<lambda>i. pdtype (h1 i)) (sort ids))) (\<lambda>dt.
             Inr (h1, \<lparr>h_kind = CoalescedHandle, h_params = sort ids, h_recv = ag (Min (set ids)) (map (cast dt) (concat shards)),
                          h_part_size = length (concat shards), h_complete = False\<rparr>)))"
    and "base_all_gather_coalesced W u api coll full_transfer ids h = ebind (collect_shards h1 (sort ids)) (\<lambda>shards.
           ebind (get_only_unique_item (map (\<lambda>i. pdtype (h1 i)) (sort ids))) (\<lambda>dt.
             ebind (cat shards) (\<lambda>own_partition.
             ebind (allgather_fn W api (coll (sort ids)) (length (concat shards) * W, dt, True) (own_partition, dt, True)) (\<lambda>recv.
               Inr (h1, \<lparr>h_kind = CoalescedHandle, h_params = sort ids, h_recv = recv, h_part_size = length (concat shards), h_complete = False\<rparr>)))))"
proof -
  have no: "\<not> (full_transfer \<and> (\<forall>i \<in> set (sort ids). cpu_full_param (h1 i) \<noteq> None))" using no_cpu by simp
  show "all_gather_coalesced W u ag cast full_transfer ids h = ebind (collect_shards h1 (sort ids)) (\<lambda>shards.
           ebind (get_only_unique_item (map (\<lambda>i. pdtype (h1 i)) (sort ids))) (\<lambda>dt.
             Inr (h1, \<lparr>h_kind = CoalescedHandle, h_params = sort ids, h_recv = ag (Min (set ids)) (map (cast dt) (concat shards)),
                          h_part_size = length (concat shards), h_complete = False\<rparr>)))"
    unfolding all_gather_coalesced_def marked ebind_Inr Let_def set_sort if_not_P [OF no_cpu] by (simp only: several list.case)
  show "base_all_gather_coalesced W u api coll full_transfer ids h = ebind (collect_shards h1 (sort ids)) (\<lambda>shards.
           ebind (get_only_unique_item (map (\<lambda>i. pdtype (h1 i)) (sort ids))) (\<lambda>dt.
             ebind (cat shards) (\<lambda>own_partition.
             ebind (allgather_fn W api (coll (sort ids)) (length (concat shards) * W, dt, True) (own_partition, dt, True)) (\<lambda>recv.
               Inr (h1, \<lparr>h_kind = CoalescedHandle, h_params = sort ids, h_recv = recv, h_part_size = length (concat shards), h_complete = False\<rparr>)))))"
    unfolding base_all_gather_coalesced_def marked ebind_Inr Let_def if_not_P [OF no] by (simp add: several)
qed

lemma several_equal:
  assumes marked: "foldE mark_inflight ids h = Inr h1"
    and no_cpu: "\<not> (full_transfer \<and> (\<forall>i \<in> set ids. cpu_full_param (h1 i) \<noteq> None))"
    and several: "sort ids = i # j # js"
    and types: "\<And>i. i \<in> set ids \<Longrightarrow> cast (pdtype (h i)) = id"
    and coll: "\<And>x. length (concat (coll (sort ids) x)) = W * length x"
    and ag: "\<And>x. ag (Min (set ids)) x = concat (coll (sort ids) x)"
  shows "all_gather_coalesced W u ag cast full_transfer ids h = base_all_gather_coalesced W u api coll full_transfer ids h"
  unfolding several_launches [OF marked no_cpu several]
proof (rule ebind_cong)
  fix shards assume shards: "collect_shards h1 (sort ids) = Inr shards"
  then have "shards \<noteq> []" using several collect_shards_none [of h1 "sort ids"] by auto
  then have cat: "cat shards = Inr (concat shards)" by (cases shards) simp_all
  show "ebind (get_only_unique_item (map (\<lambda>i. pdtype (h1 i)) (sort ids))) (\<lambda>dt.
             Inr (h1, \<lparr>h_kind = CoalescedHandle, h_params = sort ids, h_recv = ag (Min (set ids)) (map (cast dt) (concat shards)),
                          h_part_size = length (concat shards), h_complete = False\<rparr>))
      = ebind (get_only_unique_item (map (\<lambda>i. pdtype (h1 i)) (sort ids))) (\<lambda>dt.
             ebind (cat shards) (\<lambda>own_partition.
             ebind (allgather_fn W api (coll (sort ids)) (length (concat shards) * W, dt, True) (own_partition, dt, True)) (\<lambda>recv.
               Inr (h1, \<lparr>h_kind = CoalescedHandle, h_params = sort ids, h_recv = recv, h_part_size = length (concat shards), h_complete = False\<rparr>))))"
  proof (rule ebind_cong)
    fix dt assume "get_only_unique_item (map (\<lambda>i. pdtype (h1 i)) (sort ids)) = Inr dt"
    then have "set (map (\<lambda>i. pdtype (h1 i)) (sort ids)) = {dt}" by (rule unique_item_set)
    moreover have "i \<in> set (sort ids)" by (simp add: several)
    ultimately have "i \<in> set ids" "pdtype (h i) = dt" using mark_inflight_shards(3) [OF marked] by auto
    then have "map (cast dt) (concat shards) = concat shards" using types by auto
    then show "Inr (h1, \<lparr>h_kind = CoalescedHandle, h_params = sort ids, h_recv = ag (Min (set ids)) (map (cast dt) (concat shards)),
                          h_part_size = length (concat shards), h_complete = False\<rparr>)
      = ebind (cat shards) (\<lambda>own_partition.
             ebind (allgather_fn W api (coll (sort ids)) (length (concat shards) * W, dt, True) (own_partition, dt, True)) (\<lambda>recv.
               Inr (h1, \<lparr>h_kind = CoalescedHandle, h_params = sort ids, h_recv = recv, h_part_size = length (concat shards), h_complete = False\<rparr>)))"
      using allgather_fn_ok [of "coll (sort ids)" "concat shards" W] coll by (simp add: cat ag del: map_concat)
  qed
qed

text \<open>
  C20: gathering over the DPU is gathering in the baseline. For parameters whose type the float16
  staging buffer represents, and transports that deliver the same bytes, the launch of the version
  with the DPU has the result of the baseline's launch, whatever is asked of it: the same handle
  and heap, the same host path, the same exception for a parameter that is not partitioned, is in
  flight already or occurs twice. Every wait is then the same too.
\<close>

theorem gather_equals_baseline:
  assumes shards: "\<And>i t. i \<in> set ids \<Longrightarrow> ds_tensor (h i) = Some t \<Longrightarrow> length t = ceil_div (ds_numel (h i)) W"
    and types: "\<And>i. i \<in> set ids \<Longrightarrow> cast (pdtype (h i)) = id"
    and coll: "\<And>ps x. length (concat (coll ps x)) = W * length x"
    and ag: "\<And>x. ag (Min (set ids)) x = concat (coll (sort ids) x)"
  shows "all_gather_coalesced W u ag cast full_transfer ids h = base_all_gather_coalesced W u api coll full_transfer ids h"
proof (cases "foldE mark_inflight ids h")
  case (Inl e)
  then show ?thesis by (simp add: all_gather_coalesced_def base_all_gather_coalesced_def)
next
  case (Inr h1)
  show ?thesis
  proof (cases "full_transfer \<and> (\<forall>i \<in> set ids. cpu_full_param (h1 i) \<noteq> None)")
    case True
    then show ?thesis by (simp add: all_gather_coalesced_def base_all_gather_coalesced_def Inr Let_def)
  next
    case no_cpu: False
    consider i where "sort ids = [i]" | "sort ids = []" | i j js where "sort ids = i # j # js"
      by (metis list.exhaust)
    then show ?thesis
    proof cases
      case (1 i)
      then have i: "ids = [i]" by (rule sort_single)
      show ?thesis unfolding i by (rule single_launch [OF Inr [unfolded i]]) (use no_cpu shards coll ag in \<open>auto simp: i\<close>)
    next
      case 2
      then have ids: "ids = []" by (metis length_sort length_0_conv)
      show ?thesis using no_cpu unfolding ids by (auto simp: all_gather_coalesced_def base_all_gather_coalesced_def get_only_unique_item_def)
    next
      case (3 i j js)
      show ?thesis by (rule several_equal [OF Inr no_cpu 3]) (use types coll ag in blast)+
    qed
  qed
qed

text \<open>
  The float16 buffer is the one difference: two parameters of another type come back from the DPU
  rounded, here by a rounding to even numbers, and from the baseline as they are.
\<close>

definition wide_heap :: "int heap" where
  "wide_heap = (\<lambda>i. (convert_to_deepspeed_param [1] Float32 True [0])
     \<lparr>ds_tensor := Some [int i], pdata := [], ds_status := NOT_AVAILABLE\<rparr>)"

theorem staging_rounds:
  "map_sum id (\<lambda>(h, hdl). h_recv hdl)
     (all_gather_coalesced 1 (\<lambda>_. 9) (\<lambda>cid x. x) (\<lambda>dt x. if dt = Float16 then x else 2 * (x div 2)) False [3, 4] wide_heap) = Inr [2, 4]
   \<and> map_sum id (\<lambda>(h, hdl). h_recv hdl) (base_all_gather_coalesced 1 (\<lambda>_. 9) AllGatherBase (\<lambda>ps x. [x]) False [3, 4] wide_heap) = Inr [3, 4]"
  by (intro conjI; code_simp)

theorem gather_equals_baseline_witness:
  "all_gather_coalesced 2 (\<lambda>_. 9) (\<lambda>cid x. x @ x) (\<lambda>_. id) False [3, 2] (demo_parted 1)
   = base_all_gather_coalesced 2 (\<lambda>_. 9) AllGatherList (\<lambda>ps x. [x, x]) False [3, 2] (demo_parted 1)"
  by (rule gather_equals_baseline) (auto simp: demo_parted_def demo_heap_def convert_to_deepspeed_param_def ceil_div_def)

end
