(* ===== verification/SubmoduleTiming.thy ===== *)
theory SubmoduleTiming
  imports Complex_Main Prelude "HOL-Library.Sublist" "HOL-Library.AList" "HOL-Library.Multiset"
begin

text \<open>
  The timing of the modules: \<^verbatim>\<open>src/common/submodule_timing.py\<close>. Statistics over the samples after a
  warm-up with a ring buffer for the quantiles, measurements whose GPU events are read later than
  they are taken, and the time of a module without the stalls of the modules below it.

  Floating point numbers are reals; \<open>None\<close> stands for the infinite start value of the minimum. The
  clock and the GPU's time stamps (in milliseconds) are arguments of the operations.
\<close>

section \<open>Statistics\<close>

record stat =
  warmup_n :: nat
  stat_seen :: nat
  stat_count :: nat
  total_s :: real
  total_sq_s :: real
  min_s :: "real option"
  max_s :: real
  sample_cap :: nat
  samples :: "real list"

definition new_stat :: "nat \<Rightarrow> nat \<Rightarrow> stat" where
  "new_stat w cap = \<lparr>warmup_n = w, stat_seen = 0, stat_count = 0, total_s = 0, total_sq_s = 0, min_s = None, max_s = 0,
     sample_cap = cap, samples = []\<rparr>"

definition default_stat :: stat where
  "default_stat = new_stat 10 1024"

definition put_sample :: "nat \<Rightarrow> nat \<Rightarrow> real \<Rightarrow> real list \<Rightarrow> real list" where
  "put_sample cap n x xs = (if 0 < cap then if length xs < cap then xs @ [x] else xs[(n - 1) mod cap := x] else xs)"

definition stat_add :: "real option \<Rightarrow> stat \<Rightarrow> stat" where
  "stat_add v s =
     (case v of
        None \<Rightarrow> s
      | Some x \<Rightarrow>
          if x < 0 then s
          else let s1 = s\<lparr>stat_seen := stat_seen s + 1\<rparr> in
            if stat_seen s1 \<le> warmup_n s1 then s1
            else s1\<lparr>stat_count := stat_count s + 1, total_s := total_s s + x, total_sq_s := total_sq_s s + x * x,
                    min_s := (case min_s s of None \<Rightarrow> Some x | Some m \<Rightarrow> if x < m then Some x else Some m),
                    max_s := (if x > max_s s then x else max_s s),
                    samples := put_sample (sample_cap s) (stat_count s + 1) x (samples s)\<rparr>)"

definition avg_s :: "stat \<Rightarrow> real" where
  "avg_s s = (if stat_count s \<noteq> 0 then total_s s / real (stat_count s) else 0)"

definition std_s :: "stat \<Rightarrow> real" where
  "std_s s =
     (if stat_count s \<le> 1 then 0
      else let var = total_sq_s s / real (stat_count s) - avg_s s * avg_s s in if 0 < var then sqrt var else 0)"

definition cv :: "stat \<Rightarrow> real" where
  "cv s = (if 0 < avg_s s then std_s s / avg_s s else 0)"

text \<open>Python rounds halves to the even neighbour.\<close>

definition py_round :: "real \<Rightarrow> int" where
  "py_round x =
     (let f = \<lfloor>x\<rfloor>; d = x - of_int f in if d < 1 / 2 then f else if 1 / 2 < d then f + 1 else if even f then f else f + 1)"

definition quantile_s :: "real \<Rightarrow> stat \<Rightarrow> real" where
  "quantile_s q s =
     (if samples s = [] then 0
      else let xs = sort (samples s); n = int (length xs) - 1; k = max 0 (min (py_round (q * real_of_int n)) n)
           in xs ! nat k)"

section \<open>Measuring\<close>

type_synonym timing_key = "string \<times> nat \<times> int"

record timing =
  STATS :: "((string \<times> nat) \<times> stat) list"
  INFLIGHT_CPU :: "timing_key \<Rightarrow> real option"
  INFLIGHT_GPU :: "timing_key \<Rightarrow> real option"
  PENDING_GPU :: "(string \<times> nat \<times> real \<times> real) list"
  MODULE_INFO :: "(nat \<times> string option \<times> string) list"

definition reset_timing :: timing where
  "reset_timing = \<lparr>STATS = [], INFLIGHT_CPU = \<lambda>_. None, INFLIGHT_GPU = \<lambda>_. None, PENDING_GPU = [], MODULE_INFO = []\<rparr>"

definition get_module_id :: "nat option \<Rightarrow> nat result" where
  "get_module_id sub_module = (case sub_module of None \<Rightarrow> Inl (RuntimeError ''sub_module.id is not set'') | Some i \<Rightarrow> Inr i)"

definition register_module_info :: "nat option \<Rightarrow> string option \<Rightarrow> string \<Rightarrow> timing \<Rightarrow> timing result" where
  "register_module_info sub_module name cls s =
     ebind (get_module_id sub_module) (\<lambda>mid. Inr (s\<lparr>MODULE_INFO := AList.update mid (name, cls) (MODULE_INFO s)\<rparr>))"

definition get_module_info :: "nat \<Rightarrow> timing \<Rightarrow> (string option \<times> string) option" where
  "get_module_info mid s = map_of (MODULE_INFO s) mid"

definition is_exec_phase :: "string \<Rightarrow> bool" where
  "is_exec_phase phase \<longleftrightarrow> suffix ''_exec'' phase \<or> suffix ''_stall'' phase"

definition get_or_create_stat :: "string \<times> nat \<Rightarrow> timing \<Rightarrow> stat" where
  "get_or_create_stat k s = (case map_of (STATS s) k of None \<Rightarrow> default_stat | Some st \<Rightarrow> st)"

definition add_to_stat :: "string \<times> nat \<Rightarrow> real \<Rightarrow> timing \<Rightarrow> timing" where
  "add_to_stat k x s = s\<lparr>STATS := AList.update k (stat_add (Some x) (get_or_create_stat k s)) (STATS s)\<rparr>"

definition flush_pending_gpu :: "bool \<Rightarrow> timing \<Rightarrow> timing" where
  "flush_pending_gpu cuda s =
     (if \<not> cuda then s\<lparr>PENDING_GPU := []\<rparr>
      else fold (\<lambda>(phase, mid, t0, t1). add_to_stat (phase, mid) ((t1 - t0) / 1000)) (PENDING_GPU s) (s\<lparr>PENDING_GPU := []\<rparr>))"

text \<open>\<open>now\<close> is the wall clock, \<open>gpu\<close> the time at which the GPU reaches an event recorded here.\<close>

definition timing_start :: "bool \<Rightarrow> string \<Rightarrow> nat option \<Rightarrow> int \<Rightarrow> real \<Rightarrow> real \<Rightarrow> timing \<Rightarrow> timing result" where
  "timing_start cuda phase sub_module call_id now gpu s =
     ebind (get_module_id sub_module) (\<lambda>mid.
       let key = (phase, mid, call_id) in
       if is_exec_phase phase then
         if INFLIGHT_GPU s key \<noteq> None then Inr s
         else if \<not> cuda then Inr (s\<lparr>INFLIGHT_CPU := (INFLIGHT_CPU s)(key \<mapsto> now)\<rparr>)
         else Inr (s\<lparr>INFLIGHT_GPU := (INFLIGHT_GPU s)(key \<mapsto> gpu)\<rparr>)
       else if INFLIGHT_CPU s key \<noteq> None then Inr s
       else Inr (s\<lparr>INFLIGHT_CPU := (INFLIGHT_CPU s)(key \<mapsto> now)\<rparr>))"

definition end_wallclock :: "timing_key \<Rightarrow> real \<Rightarrow> timing \<Rightarrow> real \<times> timing" where
  "end_wallclock key now s =
     (case INFLIGHT_CPU s key of
        None \<Rightarrow> (0, s)
      | Some t0 \<Rightarrow>
          (case key of (phase, mid, _) \<Rightarrow>
            (now - t0, add_to_stat (phase, mid) (now - t0) (s\<lparr>INFLIGHT_CPU := (INFLIGHT_CPU s)(key := None)\<rparr>))))"

definition timing_end :: "string \<Rightarrow> nat option \<Rightarrow> int \<Rightarrow> real \<Rightarrow> real \<Rightarrow> timing \<Rightarrow> (real \<times> timing) result" where
  "timing_end phase sub_module call_id now gpu s =
     ebind (get_module_id sub_module) (\<lambda>mid.
       let key = (phase, mid, call_id) in
       if is_exec_phase phase then
         (case INFLIGHT_GPU s key of
            None \<Rightarrow> Inr (end_wallclock key now s)
          | Some t0 \<Rightarrow> Inr (0, s\<lparr>INFLIGHT_GPU := (INFLIGHT_GPU s)(key := None), PENDING_GPU := PENDING_GPU s @ [(phase, mid, t0, gpu)]\<rparr>))
       else Inr (end_wallclock key now s))"

definition timing_snapshot :: "bool \<Rightarrow> bool \<Rightarrow> timing \<Rightarrow> ((string \<times> nat) \<times> stat) list \<times> timing" where
  "timing_snapshot cuda flush_cuda s = (let s1 = (if flush_cuda then flush_pending_gpu cuda s else s) in (STATS s1, s1))"

section \<open>Time without the stalls below\<close>

record pure_exec =
  pe_name :: string
  pe_class :: string
  exec_total_s :: real
  exec_mean_s :: real
  exec_count :: nat
  stall_self_s :: real
  stall_in_subtree_s :: real
  pure_exec_total_s :: real
  pure_exec_mean_s :: real

definition total_of :: "((string \<times> nat) \<times> stat) list \<Rightarrow> string \<times> nat \<Rightarrow> real" where
  "total_of stats k = (case map_of stats k of None \<Rightarrow> 0 | Some st \<Rightarrow> total_s st)"

definition stall_below :: "((string \<times> nat) \<times> stat) list \<Rightarrow> string \<Rightarrow> (nat \<times> string) list \<Rightarrow> nat \<Rightarrow> string \<Rightarrow> real" where
  "stall_below stats stall_phase mid_to_name mid name =
     (if name \<noteq> [] then
        (\<Sum>(other_mid, other_name) \<leftarrow> mid_to_name.
           if other_mid = mid then 0
           else if other_name \<noteq> [] \<and> prefix (name @ ''.'') other_name then total_of stats (stall_phase, other_mid) else 0)
      else (\<Sum>(other_mid, other_name) \<leftarrow> mid_to_name. if other_mid = mid then 0 else total_of stats (stall_phase, other_mid)))"

definition pure_exec_of :: "((string \<times> nat) \<times> stat) list \<Rightarrow> string \<Rightarrow> string \<Rightarrow> (nat \<times> string) list \<Rightarrow> nat \<Rightarrow> string \<Rightarrow> string \<Rightarrow> pure_exec" where
  "pure_exec_of stats exec_phase stall_phase mid_to_name mid name cls =
     (let exec_total = total_of stats (exec_phase, mid);
          n = (case map_of stats (exec_phase, mid) of None \<Rightarrow> 0 | Some st \<Rightarrow> stat_count st);
          below = stall_below stats stall_phase mid_to_name mid name
      in \<lparr>pe_name = name, pe_class = cls, exec_total_s = exec_total,
          exec_mean_s = (if n \<noteq> 0 then exec_total / real n else 0), exec_count = n,
          stall_self_s = total_of stats (stall_phase, mid), stall_in_subtree_s = below,
          pure_exec_total_s = exec_total - below,
          pure_exec_mean_s = (if n \<noteq> 0 then (exec_total - below) / real n else 0)\<rparr>)"

definition mid_to_name :: "(nat \<times> string option \<times> string) list \<Rightarrow> (nat \<times> string) list" where
  "mid_to_name infos = map (\<lambda>(mid, name, cls). (mid, case name of None \<Rightarrow> [] | Some nm \<Rightarrow> nm)) infos"

definition compute_pure_exec_by_hierarchy :: "bool \<Rightarrow> string \<Rightarrow> string \<Rightarrow> timing \<Rightarrow> (nat \<times> pure_exec) list \<times> timing" where
  "compute_pure_exec_by_hierarchy cuda exec_phase stall_phase s =
     (let s1 = flush_pending_gpu cuda s; names = mid_to_name (MODULE_INFO s1)
      in (map (\<lambda>(mid, name, cls). (mid, pure_exec_of (STATS s1) exec_phase stall_phase names mid
                 (case name of None \<Rightarrow> [] | Some nm \<Rightarrow> nm) cls)) (MODULE_INFO s1), s1))"

text \<open>The rows of the two reports, largest first; Python's sort keeps equal rows in order.\<close>

definition sorted_rows :: "('r \<Rightarrow> real) \<Rightarrow> nat \<Rightarrow> 'r list \<Rightarrow> 'r list" where
  "sorted_rows key limit rows = take limit (sort_key (\<lambda>r. - key r) rows)"

definition pure_exec_key :: "string \<Rightarrow> pure_exec \<Rightarrow> real" where
  "pure_exec_key sort_by d =
     (if sort_by = ''pure_exec_total_s'' then pure_exec_total_s d
      else if sort_by = ''exec_total_s'' then exec_total_s d
      else if sort_by = ''stall_in_subtree_s'' then stall_in_subtree_s d
      else if sort_by = ''stall_self_s'' then stall_self_s d
      else if sort_by = ''exec_mean_s'' then exec_mean_s d
      else if sort_by = ''exec_count'' then real (exec_count d)
      else if sort_by = ''pure_exec_mean_s'' then pure_exec_mean_s d else 0)"

definition pretty_print_pure_exec :: "bool \<Rightarrow> string \<Rightarrow> string \<Rightarrow> nat \<Rightarrow> string \<Rightarrow> timing \<Rightarrow> (nat \<times> pure_exec) list \<times> timing" where
  "pretty_print_pure_exec cuda exec_phase stall_phase limit sort_by s =
     (case compute_pure_exec_by_hierarchy cuda exec_phase stall_phase s of
        (data, s1) \<Rightarrow> (sorted_rows (\<lambda>(mid, d). pure_exec_key sort_by d) limit data, s1))"

definition stat_key :: "string \<Rightarrow> stat \<Rightarrow> real" where
  "stat_key sort_by st =
     (if sort_by = ''seen'' then real (stat_seen st)
      else if sort_by = ''count'' then real (stat_count st)
      else if sort_by = ''avg_s'' then avg_s st
      else if sort_by = ''std_s'' then std_s st
      else if sort_by = ''cv'' then cv st
      else if sort_by = ''p90'' then quantile_s (9 / 10) st
      else if sort_by = ''p99'' then quantile_s (99 / 100) st
      else total_s st)"

definition pretty_print :: "bool \<Rightarrow> nat \<Rightarrow> string \<Rightarrow> timing \<Rightarrow> ((string \<times> nat) \<times> stat) list \<times> timing" where
  "pretty_print cuda limit sort_by s =
     (let s1 = flush_pending_gpu cuda s in (sorted_rows (\<lambda>(k, st). stat_key sort_by st) limit (STATS s1), s1))"

section \<open>What the statistics hold\<close>

text \<open>The ring buffer: the last samples, turned so that the next place to write holds the oldest.\<close>

definition ring :: "nat \<Rightarrow> real list \<Rightarrow> real list" where
  "ring cap ys = (if length ys \<le> cap then ys else
     let r = length ys mod cap; l = drop (length ys - cap) ys in if cap = 0 then [] else drop (cap - r) l @ take (cap - r) l)"

lemma ring_snoc: "put_sample cap (length ys + 1) y (ring cap ys) = ring cap (ys @ [y])"
proof -
  consider "cap = 0" | "0 < cap" "length ys < cap" | "0 < cap" "cap \<le> length ys" by linarith
  then show ?thesis
  proof cases
    case 1
    then show ?thesis by (simp add: put_sample_def ring_def)
  next
    case 2
    then show ?thesis by (simp add: put_sample_def ring_def)
  next
    case 3
    define n where "n = length ys"
    define r where "r = n mod cap"
    define l where "l = drop (n - cap) ys"
    have r: "r < cap" using 3 by (simp add: r_def)
    have ll: "length l = cap" using 3 by (simp add: l_def n_def)
    obtain a b where l: "l = a # b" using ll 3 by (cases l) auto
    have lb: "length b = cap - 1" using ll l by simp
    have old: "ring cap ys = drop (cap - r) l @ take (cap - r) l"
    proof (cases "n = cap")
      case True
      then show ?thesis by (simp add: ring_def r_def l_def n_def)
    next
      case False
      then show ?thesis using 3 by (simp add: ring_def Let_def n_def [symmetric] r_def l_def)
    qed
    have split: "cap - r = Suc (cap - r - 1)" using r by simp
    have upd: "put_sample cap (n + 1) y (ring cap ys) = drop (cap - r - 1) b @ y # take (cap - r - 1) b"
    proof -
      have "put_sample cap (n + 1) y (ring cap ys) = (drop (cap - r) l @ take (cap - r) l)[r := y]"
        using 3 r ll by (simp add: put_sample_def old r_def)
      moreover have "length (drop (cap - r) l) = r" using ll r by simp
      moreover have "drop (cap - r) l = drop (cap - r - 1) b" "take (cap - r) l = a # take (cap - r - 1) b"
        by (subst split, simp add: l)+
      ultimately show ?thesis by (simp add: list_update_append)
    qed
    have new: "drop (length (ys @ [y]) - cap) (ys @ [y]) = b @ [y]"
    proof -
      have "drop (n + 1 - cap) ys = tl l" using 3 by (simp add: l_def drop_Suc drop_tl Suc_diff_le n_def)
      then show ?thesis using 3 l by (simp add: n_def)
    qed
    have rn: "Suc n mod cap = (if r + 1 = cap then 0 else r + 1)"
      using r by (simp add: r_def mod_Suc)
    have "ring cap (ys @ [y]) = (let r' = Suc n mod cap in drop (cap - r') (b @ [y]) @ take (cap - r') (b @ [y]))"
      using 3 unfolding ring_def new by (simp add: n_def)
    also have "\<dots> = drop (cap - r - 1) b @ y # take (cap - r - 1) b"
      using r lb by (auto simp: rn Let_def)
    finally show ?thesis using upd by (simp add: n_def)
  qed
qed

lemma mset_ring: "mset (ring cap ys) = mset (drop (length ys - cap) ys)"
proof -
  have "mset (drop k l @ take k l) = mset l" for k and l :: "real list"
    by (metis append_take_drop_id mset_append union_commute)
  then show ?thesis unfolding ring_def Let_def by (simp del: drop_drop mset_append)
qed

definition stat_holds :: "nat \<Rightarrow> nat \<Rightarrow> real list \<Rightarrow> stat \<Rightarrow> bool" where
  "stat_holds w cap xs s \<longleftrightarrow> (let ys = drop w xs in
     warmup_n s = w \<and> sample_cap s = cap \<and> stat_seen s = length xs \<and> stat_count s = length ys \<and> total_s s = sum_list ys
     \<and> total_sq_s s = (\<Sum>y \<leftarrow> ys. y * y) \<and> min_s s = (if ys = [] then None else Some (Min (set ys)))
     \<and> max_s s = Max (insert 0 (set ys)) \<and> samples s = ring cap ys)"

lemma stat_holds_add:
  assumes "stat_holds w cap xs s"
  shows "stat_holds w cap (xs @ (if x < 0 then [] else [x])) (stat_add (Some x) s)"
proof (cases "x < 0")
  case True
  then show ?thesis using assms by (simp add: stat_add_def)
next
  case False
  show ?thesis
  proof (cases "length xs < w")
    case True
    then show ?thesis using assms False by (simp add: stat_holds_def stat_add_def Let_def)
  next
    case ge: False
    define ys where "ys = drop w xs"
    have s: "warmup_n s = w" "sample_cap s = cap" "stat_seen s = length xs" "stat_count s = length ys" "total_s s = sum_list ys"
        "total_sq_s s = (\<Sum>y \<leftarrow> ys. y * y)" "min_s s = (if ys = [] then None else Some (Min (set ys)))"
        "max_s s = Max (insert 0 (set ys))" "samples s = ring cap ys"
      using assms unfolding stat_holds_def Let_def ys_def by blast+
    have new: "drop w (xs @ [x]) = ys @ [x]" using ge by (simp add: ys_def)
    have "ring cap (ys @ [x]) = put_sample cap (length ys + 1) x (ring cap ys)" by (rule ring_snoc [symmetric])
    moreover have "(if ys @ [x] = [] then None else Some (Min (set (ys @ [x]))))
        = (case min_s s of None \<Rightarrow> Some x | Some m \<Rightarrow> if x < m then Some x else Some m)"
    proof (cases "ys = []")
      case False
      define m where "m = Min (set ys)"
      have "Min (set (ys @ [x])) = min x m" using False by (simp add: m_def)
      then show ?thesis using False by (simp add: s(7) m_def [symmetric] min_def)
    qed (simp add: s(7))
    moreover have "Max (insert 0 (set (ys @ [x]))) = (if x > max_s s then x else max_s s)"
    proof -
      define m where "m = Max (insert 0 (set ys))"
      have "Max (insert 0 (set (ys @ [x]))) = max x m" by (simp add: m_def insert_commute [of 0 x])
      then show ?thesis by (simp add: s(8) m_def [symmetric] max_def)
    qed
    ultimately show ?thesis using False ge
      unfolding stat_holds_def Let_def if_not_P [OF False] new
      by (simp add: stat_add_def Let_def s(1-6,9) del: insert_commute)
  qed
qed

lemma stat_holds_fold:
  "stat_holds w cap xs s \<Longrightarrow> stat_holds w cap (xs @ filter (\<lambda>x. 0 \<le> x) zs) (fold (\<lambda>x. stat_add (Some x)) zs s)"
proof (induction zs arbitrary: xs s)
  case Nil
  then show ?case by simp
next
  case (Cons z zs)
  from Cons.IH [OF stat_holds_add [OF Cons.prems, of z]] show ?case by (auto simp: not_less)
qed

lemma square_deviation:
  fixes ys :: "real list"
  assumes "ys \<noteq> []"
  defines "m \<equiv> sum_list ys / real (length ys)"
  shows "(\<Sum>y \<leftarrow> ys. y * y) / real (length ys) - m * m = (\<Sum>y \<leftarrow> ys. (y - m)\<^sup>2) / real (length ys)"
proof -
  have dev: "(\<Sum>y \<leftarrow> ys. (y - c)\<^sup>2) = (\<Sum>y \<leftarrow> ys. y * y) - 2 * c * sum_list ys + real (length ys) * (c * c)" for c
    by (induction ys) (simp_all add: power2_eq_square algebra_simps)
  have n: "real (length ys) \<noteq> 0" using assms(1) by simp
  have "sum_list ys = real (length ys) * m" using n by (simp add: m_def)
  then show ?thesis using n by (simp add: dev field_simps)
qed

text \<open>
  The statistics are those of the samples. Negative measurements and the warm-up are dropped;
  count, sum, extremes and the standard deviation are those of the rest, and the buffer for the
  quantiles holds exactly the latest \<open>cap\<close> of them, each as often as it was measured.
\<close>

theorem stat_of_samples:
  assumes "ys = drop w (filter (\<lambda>x. 0 \<le> x) xs)" and "ys \<noteq> []"
    and s_def: "s = fold (\<lambda>x. stat_add (Some x)) xs (new_stat w cap)"
    and m_def: "m = sum_list ys / real (length ys)"
  shows "stat_seen s = length (filter (\<lambda>x. 0 \<le> x) xs) \<and> stat_count s = length ys \<and> avg_s s = m
    \<and> std_s s = sqrt ((\<Sum>y \<leftarrow> ys. (y - m)\<^sup>2) / real (length ys))
    \<and> min_s s = Some (Min (set ys)) \<and> max_s s = Max (set ys)
    \<and> mset (samples s) = mset (drop (length ys - cap) ys)"
proof -
  have start: "stat_holds w cap [] (new_stat w cap)" by (simp add: stat_holds_def new_stat_def ring_def)
  have h: "stat_holds w cap (filter (\<lambda>x. 0 \<le> x) xs) s"
    using stat_holds_fold [OF start, of xs] unfolding s_def by simp
  then have f: "stat_seen s = length (filter (\<lambda>x. 0 \<le> x) xs)" "stat_count s = length ys" "total_s s = sum_list ys"
      "total_sq_s s = (\<Sum>y \<leftarrow> ys. y * y)" "min_s s = Some (Min (set ys))" "max_s s = Max (insert 0 (set ys))" "samples s = ring cap ys"
    using assms(2) unfolding stat_holds_def Let_def assms(1) [symmetric] by simp_all
  have nonneg: "0 \<le> y" if "y \<in> set ys" for y using that set_drop_subset [of w] unfolding assms(1) by fastforce
  have "Max (insert 0 (set ys)) = Max (set ys)"
    using assms(2) nonneg by (subst Max_insert) (auto simp: max_def Max_ge_iff not_le)
  moreover have avg: "avg_s s = m" using assms(2) by (simp add: avg_s_def f m_def)
  moreover have "std_s s = sqrt ((\<Sum>y \<leftarrow> ys. (y - m)\<^sup>2) / real (length ys))"
  proof -
    define v where "v = (\<Sum>y \<leftarrow> ys. (y - m)\<^sup>2) / real (length ys)"
    have v: "total_sq_s s / real (stat_count s) - avg_s s * avg_s s = v"
      using square_deviation [OF assms(2)] by (simp add: f avg v_def m_def)
    have "0 \<le> v" unfolding v_def by (intro divide_nonneg_nonneg sum_list_nonneg) auto
    show ?thesis
    proof (cases "length ys = 1")
      case True
      then obtain y where "ys = [y]" by (cases ys) auto
      then show ?thesis by (simp add: std_s_def f m_def)
    next
      case False
      then have "\<not> length ys \<le> 1" using assms(2) by (cases ys) auto
      then have "std_s s = (if 0 < v then sqrt v else 0)" unfolding std_s_def Let_def v by (simp add: f(2))
      then show ?thesis using \<open>0 \<le> v\<close> unfolding v_def [symmetric] by simp
    qed
  qed
  ultimately show ?thesis using f mset_ring by simp
qed

theorem stat_of_samples_witness:
  "let s = fold (\<lambda>x. stat_add (Some x)) [9, 4, -1, 2, 6, 3] (new_stat 1 2)
   in stat_seen s = 5 \<and> stat_count s = 4 \<and> avg_s s = 15 / 4 \<and> min_s s = Some 2 \<and> mset (samples s) = {#6, 3#}"
  using stat_of_samples [of "[4, 2, 6, 3]" 1 "[9, 4, -1, 2, 6, 3]" "fold (\<lambda>x. stat_add (Some x)) [9, 4, -1, 2, 6, 3] (new_stat 1 2)" 2 "15 / 4"]
  by (simp add: Let_def)

section \<open>Quantiles\<close>

lemma py_round_near: "\<bar>real_of_int (py_round x) - x\<bar> \<le> 1 / 2"
  unfolding py_round_def Let_def by (auto simp: abs_le_iff)

lemma py_round_mono:
  assumes "x \<le> y"
  shows "py_round x \<le> py_round y"
proof (rule ccontr)
  assume a: "\<not> py_round x \<le> py_round y"
  then have "py_round y + 1 \<le> py_round x" by simp
  then have "real_of_int (py_round y) + 1 \<le> real_of_int (py_round x)" by linarith
  then have "x = y" using py_round_near [of x] py_round_near [of y] assms by (simp add: abs_le_iff)
  then show False using a by simp
qed

lemma py_round_int [simp]: "py_round (real_of_int i) = i"
  by (simp add: py_round_def)

definition quantile_index :: "real \<Rightarrow> nat \<Rightarrow> nat" where
  "quantile_index q len = nat (max 0 (min (py_round (q * real_of_int (int len - 1))) (int len - 1)))"

lemma quantile_index_less: "0 < len \<Longrightarrow> quantile_index q len < len"
  by (simp add: quantile_index_def)

lemma quantile_index_mono: "q \<le> q' \<Longrightarrow> 0 < len \<Longrightarrow> quantile_index q len \<le> quantile_index q' len"
  unfolding quantile_index_def by (intro nat_mono max.mono min.mono py_round_mono mult_right_mono order.refl) auto

text \<open>
  A quantile is one of the samples, larger quantiles are not smaller, the quantile 0 is the
  smallest sample and the quantile 1 the largest.
\<close>

theorem quantile_bounds:
  assumes "samples s \<noteq> []" and "q \<le> q'"
  shows "quantile_s q s \<in> set (samples s) \<and> quantile_s q s \<le> quantile_s q' s
    \<and> quantile_s 0 s = Min (set (samples s)) \<and> quantile_s 1 s = Max (set (samples s))"
proof -
  let ?xs = "sort (samples s)"
  have ne: "0 < length ?xs" using assms(1) by simp
  have eq: "quantile_s q s = ?xs ! quantile_index q (length ?xs)" for q
    using assms(1) by (simp add: quantile_s_def quantile_index_def Let_def)
  have "quantile_s q s \<in> set (samples s)"
    using nth_mem [OF quantile_index_less [OF ne]] unfolding eq by simp
  moreover have "quantile_s q s \<le> quantile_s q' s"
    unfolding eq by (rule sorted_nth_mono [OF sorted_sort quantile_index_mono [OF assms(2) ne] quantile_index_less [OF ne]])
  moreover have "quantile_s 0 s = Min (set (samples s))"
  proof -
    have "quantile_index 0 (length ?xs) = 0" using py_round_int [of 0] by (simp add: quantile_index_def)
    then have "quantile_s 0 s = ?xs ! 0" by (simp add: eq)
    moreover have "Min (set ?xs) = ?xs ! 0"
    proof (rule Min_eqI)
      show "?xs ! 0 \<le> y" if y: "y \<in> set ?xs" for y
      proof -
        obtain i where i: "i < length ?xs" "y = ?xs ! i" using y by (metis in_set_conv_nth)
        show ?thesis unfolding i(2) by (rule sorted_nth_mono [OF sorted_sort]) (use i(1) in simp_all)
      qed
      show "?xs ! 0 \<in> set ?xs" using ne by (intro nth_mem)
    qed simp
    ultimately show ?thesis by simp
  qed
  moreover have "quantile_s 1 s = Max (set (samples s))"
  proof -
    have "quantile_index 1 (length ?xs) = length ?xs - 1"
      using py_round_int [of "int (length ?xs) - 1"] ne by (simp add: quantile_index_def)
    then have "quantile_s 1 s = ?xs ! (length ?xs - 1)" by (simp add: eq)
    moreover have "Max (set ?xs) = ?xs ! (length ?xs - 1)"
    proof (rule Max_eqI)
      show "y \<le> ?xs ! (length ?xs - 1)" if y: "y \<in> set ?xs" for y
      proof -
        obtain i where i: "i < length ?xs" "y = ?xs ! i" using y by (metis in_set_conv_nth)
        show ?thesis unfolding i(2) by (rule sorted_nth_mono [OF sorted_sort]) (use i(1) in simp_all)
      qed
      show "?xs ! (length ?xs - 1) \<in> set ?xs" using ne by (intro nth_mem) simp
    qed simp
    ultimately show ?thesis by simp
  qed
  ultimately show ?thesis by blast
qed

theorem quantile_bounds_witness:
  "let s = (new_stat 0 4)\<lparr>samples := [3, 1, 2]\<rparr> in quantile_s 0 s = 1 \<and> quantile_s 1 s = 3 \<and> quantile_s (1 / 2) s \<in> {1, 2, 3}"
  using quantile_bounds [of "(new_stat 0 4)\<lparr>samples := [3, 1, 2]\<rparr>" "1 / 2" 1] by (auto simp: Let_def)

section \<open>Reading the GPU's events later\<close>

datatype timing_event =
    TStart string "nat option" int real real
  | TEnd string "nat option" int real real
  | TSnapshot

text \<open>A run with CUDA; \<open>immediate_step\<close> is the same with each event read where it is recorded.\<close>

definition timing_step :: "timing_event \<Rightarrow> timing \<Rightarrow> timing result" where
  "timing_step e s =
     (case e of
        TStart phase m c now gpu \<Rightarrow> timing_start True phase m c now gpu s
      | TEnd phase m c now gpu \<Rightarrow> ebind (timing_end phase m c now gpu s) (\<lambda>(x, s1). Inr s1)
      | TSnapshot \<Rightarrow> Inr (snd (timing_snapshot True True s)))"

definition immediate_step :: "timing_event \<Rightarrow> timing \<Rightarrow> timing result" where
  "immediate_step e s = ebind (timing_step e s) (\<lambda>s1. Inr (flush_pending_gpu True s1))"

definition upd :: "string \<times> nat \<Rightarrow> real \<Rightarrow> (string \<times> nat \<Rightarrow> stat option) \<Rightarrow> string \<times> nat \<Rightarrow> stat option" where
  "upd k x m = m(k \<mapsto> stat_add (Some x) (case m k of None \<Rightarrow> default_stat | Some st \<Rightarrow> st))"

lemma upd_commute: "k \<noteq> k' \<Longrightarrow> upd k x (upd k' y m) = upd k' y (upd k x m)"
  by (simp add: upd_def fun_upd_twist)

lemma add_to_stat_fields [simp]:
  "map_of (STATS (add_to_stat k x s)) = upd k x (map_of (STATS s))" "INFLIGHT_CPU (add_to_stat k x s) = INFLIGHT_CPU s"
  "INFLIGHT_GPU (add_to_stat k x s) = INFLIGHT_GPU s" "PENDING_GPU (add_to_stat k x s) = PENDING_GPU s"
  "MODULE_INFO (add_to_stat k x s) = MODULE_INFO s"
  by (simp_all add: add_to_stat_def upd_def get_or_create_stat_def update_conv')

definition pend_upd :: "string \<times> nat \<times> real \<times> real \<Rightarrow> (string \<times> nat \<Rightarrow> stat option) \<Rightarrow> string \<times> nat \<Rightarrow> stat option" where
  "pend_upd p = (case p of (phase, mid, t0, t1) \<Rightarrow> upd (phase, mid) ((t1 - t0) / 1000))"

lemma flush_fields:
  "map_of (STATS (flush_pending_gpu True s)) = fold pend_upd (PENDING_GPU s) (map_of (STATS s))"
  "INFLIGHT_CPU (flush_pending_gpu True s) = INFLIGHT_CPU s" "INFLIGHT_GPU (flush_pending_gpu True s) = INFLIGHT_GPU s"
  "PENDING_GPU (flush_pending_gpu True s) = []" "MODULE_INFO (flush_pending_gpu True s) = MODULE_INFO s"
proof -
  let ?f = "\<lambda>(phase, mid, t0, t1). add_to_stat (phase, mid) ((t1 - t0) / 1000)"
  have "map_of (STATS (fold ?f ps r)) = fold pend_upd ps (map_of (STATS r))
      \<and> INFLIGHT_CPU (fold ?f ps r) = INFLIGHT_CPU r \<and> INFLIGHT_GPU (fold ?f ps r) = INFLIGHT_GPU r
      \<and> PENDING_GPU (fold ?f ps r) = PENDING_GPU r \<and> MODULE_INFO (fold ?f ps r) = MODULE_INFO r" for ps r
    by (induction ps arbitrary: r) (auto simp: pend_upd_def)
  note this [of "PENDING_GPU s" "s\<lparr>PENDING_GPU := []\<rparr>"]
  then show "map_of (STATS (flush_pending_gpu True s)) = fold pend_upd (PENDING_GPU s) (map_of (STATS s))"
    "INFLIGHT_CPU (flush_pending_gpu True s) = INFLIGHT_CPU s" "INFLIGHT_GPU (flush_pending_gpu True s) = INFLIGHT_GPU s"
    "PENDING_GPU (flush_pending_gpu True s) = []" "MODULE_INFO (flush_pending_gpu True s) = MODULE_INFO s"
    by (simp_all add: flush_pending_gpu_def)
qed

text \<open>Deferred state \<open>s\<close> against immediate state \<open>r\<close>.\<close>

definition deferred_rel :: "timing \<Rightarrow> timing \<Rightarrow> bool" where
  "deferred_rel s r \<longleftrightarrow> INFLIGHT_CPU s = INFLIGHT_CPU r \<and> INFLIGHT_GPU s = INFLIGHT_GPU r \<and> PENDING_GPU r = []
     \<and> map_of (STATS r) = fold pend_upd (PENDING_GPU s) (map_of (STATS s))
     \<and> (\<forall>p \<in> set (PENDING_GPU s). is_exec_phase (fst p)) \<and> (\<forall>phase mid c. is_exec_phase phase \<longrightarrow> INFLIGHT_CPU s (phase, mid, c) = None)"

lemma fold_pend_upd_other:
  assumes "\<forall>p \<in> set ps. is_exec_phase (fst p)" and "\<not> is_exec_phase phase"
  shows "fold pend_upd ps (upd (phase, mid) x m) = upd (phase, mid) x (fold pend_upd ps m)"
  using assms
proof (induction ps arbitrary: m)
  case Nil
  then show ?case by simp
next
  case (Cons p ps)
  obtain ph md t0 t1 where p: "p = (ph, md, t0, t1)" by (metis prod_cases4)
  have "pend_upd p (upd (phase, mid) x m) = upd (phase, mid) x (pend_upd p m)"
    using Cons.prems by (auto simp: p pend_upd_def intro!: upd_commute)
  then show ?case using Cons by simp
qed

lemma deferred_step:
  assumes "deferred_rel s r"
  shows "(case timing_step e s of Inl x \<Rightarrow> immediate_step e r = Inl x
    | Inr s' \<Rightarrow> \<exists>r'. immediate_step e r = Inr r' \<and> deferred_rel s' r')"
proof (cases e)
  case (TStart phase m c now gpu)
  then show ?thesis using assms
    by (cases m) (auto simp: timing_step_def immediate_step_def timing_start_def get_module_id_def Let_def deferred_rel_def flush_fields)
next
  case (TEnd phase m c now gpu)
  show ?thesis
  proof (cases m)
    case None
    then show ?thesis by (simp add: TEnd timing_step_def immediate_step_def timing_end_def get_module_id_def)
  next
    case (Some mid)
    note d = TEnd Some timing_step_def immediate_step_def timing_end_def get_module_id_def Let_def end_wallclock_def
    show ?thesis
    proof (cases "is_exec_phase phase")
      case True
      show ?thesis
      proof (cases "INFLIGHT_GPU s (phase, mid, c)")
        case None
        then show ?thesis using assms True by (auto simp: d deferred_rel_def flush_fields)
      next
        case (Some t0)
        then show ?thesis using assms True by (auto simp: d deferred_rel_def flush_fields pend_upd_def)
      qed
    next
      case False
      show ?thesis
      proof (cases "INFLIGHT_CPU s (phase, mid, c)")
        case None
        then show ?thesis using assms False by (auto simp: d deferred_rel_def flush_fields)
      next
        case (Some t0)
        then show ?thesis using assms False
          by (auto simp: d deferred_rel_def flush_fields fold_pend_upd_other)
      qed
    qed
  qed
next
  case TSnapshot
  then show ?thesis using assms
    by (auto simp: timing_step_def immediate_step_def timing_snapshot_def Let_def deferred_rel_def flush_fields)
qed

text \<open>
  C33: reading the GPU's events late changes nothing. However starts, ends and snapshots of any
  modules, phases and calls are interleaved, the run fails exactly when the run that synchronises
  at every end fails, and after the final flush every statistic, with its ring buffer, is the same.
\<close>

theorem deferred_timing_equivalent:
  "map_sum id (\<lambda>s. map_of (STATS (flush_pending_gpu True s))) (foldE timing_step es reset_timing)
   = map_sum id (\<lambda>s. map_of (STATS s)) (foldE immediate_step es reset_timing)"
proof -
  have "deferred_rel s r \<Longrightarrow> map_sum id (\<lambda>s. map_of (STATS (flush_pending_gpu True s))) (foldE timing_step es s)
     = map_sum id (\<lambda>s. map_of (STATS s)) (foldE immediate_step es r)" for s r
  proof (induction es arbitrary: s r)
    case Nil
    then show ?case by (simp add: deferred_rel_def flush_fields)
  next
    case (Cons e es)
    show ?case
    proof (cases "timing_step e s")
      case (Inl x)
      then show ?thesis using deferred_step [OF Cons.prems, of e] by simp
    next
      case (Inr s')
      then obtain r' where "immediate_step e r = Inr r'" "deferred_rel s' r'"
        using deferred_step [OF Cons.prems, of e] by auto
      then show ?thesis using Inr Cons.IH by simp
    qed
  qed
  moreover have "deferred_rel reset_timing reset_timing" by (simp add: deferred_rel_def reset_timing_def)
  ultimately show ?thesis by blast
qed

section \<open>The hierarchy of names\<close>

text \<open>The dotted name of a path in the tree of modules; the root's name is empty.\<close>

fun dotted :: "string list \<Rightarrow> string" where
  "dotted [] = []"
| "dotted [x] = x"
| "dotted (x # y # xs) = x @ ''.'' @ dotted (y # xs)"

definition path_ok :: "string list \<Rightarrow> bool" where
  "path_ok p \<longleftrightarrow> (\<forall>x \<in> set p. x \<noteq> [] \<and> CHR ''.'' \<notin> set x)"

lemma path_ok_Cons [simp]: "path_ok (x # p) \<longleftrightarrow> x \<noteq> [] \<and> CHR ''.'' \<notin> set x \<and> path_ok p"
  by (auto simp: path_ok_def)

lemma dotted_Cons: "p \<noteq> [] \<Longrightarrow> dotted (x # p) = x @ CHR ''.'' # dotted p"
  by (cases p) simp_all

lemma dotted_empty: "path_ok p \<Longrightarrow> dotted p = [] \<longleftrightarrow> p = []"
  by (cases p rule: dotted.cases) auto

lemma split_at_dot:
  "CHR ''.'' \<notin> set x \<Longrightarrow> CHR ''.'' \<notin> set y \<Longrightarrow> x @ CHR ''.'' # u = y @ CHR ''.'' # v \<longleftrightarrow> x = y \<and> u = v"
proof (induction x arbitrary: y)
  case Nil
  then show ?case by (cases y) auto
next
  case (Cons a x)
  then show ?case by (cases y) auto
qed

lemma dotted_prefix:
  assumes "path_ok p" and "path_ok q" and "p \<noteq> []"
  shows "prefix (dotted p @ ''.'') (dotted q) \<longleftrightarrow> strict_prefix p q"
  using assms
proof (induction p arbitrary: q)
  case Nil
  then show ?case by simp
next
  case (Cons x p)
  show ?case
  proof (cases q)
    case Nil
    then show ?thesis by simp
  next
    case (Cons y q')
    have x: "CHR ''.'' \<notin> set x" and y: "CHR ''.'' \<notin> set y" and q': "path_ok q'" and p: "path_ok p"
      using Cons.prems by (simp_all add: Cons)
    have no_dot: "\<not> prefix (x @ CHR ''.'' # u) y" for u using y by (auto simp: prefix_def)
    show ?thesis
    proof (cases "p = []")
      case True
      show ?thesis
      proof (cases "q' = []")
        case True
        then show ?thesis using no_dot [of "[]"] \<open>p = []\<close> Cons by (simp add: strict_prefix_def)
      next
        case False
        have "prefix (x @ ''.'') (y @ CHR ''.'' # dotted q') \<longleftrightarrow> x = y"
          using split_at_dot [OF y x] by (auto simp: prefix_def)
        then show ?thesis using False \<open>p = []\<close> Cons by (auto simp: dotted_Cons strict_prefix_def)
      qed
    next
      case False
      show ?thesis
      proof (cases "q' = []")
        case True
        then show ?thesis using no_dot [of "dotted p @ ''.''"] False Cons by (simp add: dotted_Cons strict_prefix_def)
      next
        case q_ne: False
        have "prefix (x @ CHR ''.'' # dotted p @ ''.'') (y @ CHR ''.'' # dotted q')
            \<longleftrightarrow> x = y \<and> prefix (dotted p @ ''.'') (dotted q')"
          using split_at_dot [OF y x] by (auto simp: prefix_def)
        then show ?thesis using Cons.IH [OF p q' False] False q_ne Cons by (auto simp: dotted_Cons strict_prefix_def)
      qed
    qed
  qed
qed

text \<open>
  C34: the pure execution time is the execution time less the stalls of the modules strictly below.
  The names being the dotted paths of a tree, the test on prefixes of names finds exactly the
  modules below: \<^verbatim>\<open>layer.1\<close> does not take in the stalls of \<^verbatim>\<open>layer.10\<close>, the root takes in those of all
  others, and no module its own.
\<close>

theorem pure_exec_subtree:
  assumes "distinct (map fst paths)" and "distinct (map snd paths)" and "\<forall>(m, p) \<in> set paths. path_ok p" and "(mid, path) \<in> set paths"
  shows "pure_exec_total_s (pure_exec_of stats ep sp (map (\<lambda>(m, p). (m, dotted p)) paths) mid (dotted path) cls)
    = total_of stats (ep, mid) - (\<Sum>(m, p) \<leftarrow> filter (\<lambda>(m, p). strict_prefix path p) paths. total_of stats (sp, m))"
proof -
  have path: "path_ok path" using assms(3,4) by auto
  have same: "m = mid \<longleftrightarrow> p = path" if "(m, p) \<in> set paths" for m p
    using that assms(1,2,4) by (metis eq_key_imp_eq_value in_set_conv_nth distinct_map inj_onD fst_conv snd_conv prod.inject)
  have below: "(if m = mid then 0
       else if dotted path \<noteq> [] then if dotted p \<noteq> [] \<and> prefix (dotted path @ ''.'') (dotted p) then total_of stats (sp, m) else 0
       else total_of stats (sp, m)) = (if strict_prefix path p then total_of stats (sp, m) else 0)"
    if mp: "(m, p) \<in> set paths" for m p
  proof (cases "path = []")
    case True
    then show ?thesis using same [OF mp] by (auto simp: strict_prefix_def)
  next
    case False
    have p: "path_ok p" using assms(3) mp by auto
    have "dotted path \<noteq> []" using False dotted_empty [OF path] by simp
    then show ?thesis using same [OF mp] dotted_prefix [OF path p False] dotted_empty [OF p] by (auto simp: strict_prefix_def)
  qed
  have "stall_below stats sp (map (\<lambda>(m, p). (m, dotted p)) paths) mid (dotted path)
      = (\<Sum>(m, p) \<leftarrow> paths. if m = mid then 0
       else if dotted path \<noteq> [] then if dotted p \<noteq> [] \<and> prefix (dotted path @ ''.'') (dotted p) then total_of stats (sp, m) else 0
       else total_of stats (sp, m))"
    by (simp add: stall_below_def o_def split_def cong: if_cong)
  also have "\<dots> = (\<Sum>(m, p) \<leftarrow> paths. if strict_prefix path p then total_of stats (sp, m) else 0)"
    by (rule arg_cong [where f = sum_list], rule map_cong [OF refl]) (use below in auto)
  also have "\<dots> = (\<Sum>(m, p) \<leftarrow> filter (\<lambda>(m, p). strict_prefix path p) paths. total_of stats (sp, m))"
    by (simp add: sum_list_map_filter' split_def)
  finally show ?thesis by (simp add: pure_exec_of_def Let_def)
qed

definition demo_paths :: "(nat \<times> string list) list" where
  "demo_paths = [(0, []), (1, [''layer'']), (2, [''layer'', ''1'']), (3, [''layer'', ''10''])]"

definition demo_stats :: "((string \<times> nat) \<times> stat) list" where
  "demo_stats = map (\<lambda>(k, x). (k, default_stat\<lparr>total_s := x\<rparr>))
     [((''bwd_exec'', 0), 100), ((''bwd_exec'', 1), 50), ((''bwd_exec'', 2), 20), ((''bwd_wait_stall'', 1), 1),
      ((''bwd_wait_stall'', 2), 3), ((''bwd_wait_stall'', 3), 5)]"

theorem pure_exec_subtree_witness:
  "map (\<lambda>(m, p). pure_exec_total_s (pure_exec_of demo_stats ''bwd_exec'' ''bwd_wait_stall'' (map (\<lambda>(m, p). (m, dotted p)) demo_paths) m (dotted p) []))
     [(0, []), (1, [''layer'']), (2, [''layer'', ''1''])] = [91, 42, 20]"
proof -
  have ok: "distinct (map fst demo_paths)" "distinct (map snd demo_paths)" "\<forall>(m, p) \<in> set demo_paths. path_ok p"
    by (simp_all add: demo_paths_def path_ok_def)
  have mem: "(0, []) \<in> set demo_paths" "(1, [''layer'']) \<in> set demo_paths" "(2, [''layer'', ''1'']) \<in> set demo_paths"
    by (simp_all add: demo_paths_def)
  show ?thesis
    unfolding list.map split pure_exec_subtree [OF ok mem(1)] pure_exec_subtree [OF ok mem(2)] pure_exec_subtree [OF ok mem(3)]
    by (simp add: demo_paths_def demo_stats_def total_of_def)
qed

end
