(* ===== verification/HostClient.thy ===== *)
theory HostClient
  imports ReduceScatter
begin

text \<open>
  The host client of the DPU's collectives: \<^verbatim>\<open>src/smartnic_offload/comch_mpi/host/client.py\<close>. GPU
  memory is touched before it is handed to the library, the checked wrappers of the collectives, and
  the loop that polls a flag the DPU writes; and the polling threads of
  \<^verbatim>\<open>src/smartnic_offload/partition_parameters.py\<close>. The handle class is the one of the optimizer
  (\<open>rs_work\<close>). \<open>recv\<close> is what a collective delivers.
\<close>

section \<open>Touching GPU memory\<close>

datatype device = Cpu | Cuda nat

record 'a ctensor =
  t_data :: "'a list"
  t_dtype :: dtype
  t_device :: device
  t_contiguous :: bool

text \<open>A tensor that is not contiguous is touched in a copy.\<close>

definition cuda_touch_inplace :: "'a \<Rightarrow> 'a \<Rightarrow> string \<Rightarrow> 'a ctensor \<Rightarrow> 'a ctensor result" where
  "cuda_touch_inplace zero one mode t =
     (if t_device t = Cpu then Inr t
      else let write = (\<lambda>x. if t_contiguous t then t\<lparr>t_data := map (\<lambda>_. x) (t_data t)\<rparr> else t) in
        if mode = ''write_zero'' then Inr (write zero)
        else if mode = ''write_one'' then Inr (write one)
        else if mode = ''read'' then Inr t
        else Inl (ValueError ''Unknown touch mode''))"

definition alloc_cuda_and_touch :: "'a \<Rightarrow> 'a \<Rightarrow> (nat \<Rightarrow> 'a) \<Rightarrow> nat list \<Rightarrow> dtype \<Rightarrow> device \<Rightarrow> string \<Rightarrow> 'a ctensor result" where
  "alloc_cuda_and_touch zero one u shape dt dev init =
     (let new = (\<lambda>xs. \<lparr>t_data = xs, t_dtype = dt, t_device = dev, t_contiguous = True\<rparr>) in
      if init = ''zeros'' then cuda_touch_inplace zero one ''write_zero'' (new (replicate (prod_list shape) zero))
      else if init = ''empty_zero_touch'' then cuda_touch_inplace zero one ''write_zero'' (new (fresh u (prod_list shape)))
      else Inl (ValueError ''Unknown init''))"

section \<open>The list wrappers\<close>

definition check_like :: "'a ctensor \<Rightarrow> 'a ctensor \<Rightarrow> unit result" where
  "check_like t like =
     (if length (t_data t) \<noteq> length (t_data like) then Inl (ValueError ''numel'')
      else if t_dtype t \<noteq> t_dtype like then Inl (TypeError ''dtype'')
      else if t_device t \<noteq> t_device like then Inl (TypeError ''device'')
      else Inr ())"

definition check_all_like :: "nat \<Rightarrow> 'a ctensor list \<Rightarrow> 'a ctensor \<Rightarrow> unit result" where
  "check_all_like W ts like =
     (if length ts \<noteq> W then Inl (ValueError ''must equal world_size'') else foldE (\<lambda>t _. check_like t like) ts ())"

definition set_data :: "'a ctensor list \<Rightarrow> 'a list list \<Rightarrow> 'a ctensor list" where
  "set_data ts xs = map2 (\<lambda>t x. t\<lparr>t_data := x\<rparr>) ts xs"

definition scatter_to :: "'a ctensor list \<Rightarrow> nat \<Rightarrow> 'a list \<Rightarrow> 'a ctensor list result" where
  "scatter_to outs numel flat =
     ebind (scatter_flat_to_list flat (map t_data outs) numel) (\<lambda>rows. Inr (set_data outs rows))"

text \<open>
  With \<^verbatim>\<open>async_op = False\<close> the library is called and waits; otherwise the handle is returned, and its
  \<^verbatim>\<open>wait\<close> copies the rows out. \<open>request_fails\<close> says that the blocking call raises.
\<close>

definition client_list_sync :: "bool \<Rightarrow> 'a backend \<Rightarrow> nat \<Rightarrow> 'a ctensor list \<Rightarrow> 'a ctensor \<Rightarrow> int \<Rightarrow> 'a ctensor list result" where
  "client_list_sync request_fails recv W outs inp cid =
     ebind (check_all_like W outs inp) (\<lambda>_.
       if request_fails then Inl (RuntimeError ''comch'')
       else scatter_to outs (length (t_data inp)) (recv ALL_GATHER cid (t_data inp)))"

definition client_list_launch ::
  "comch_env \<Rightarrow> nat \<Rightarrow> 'a ctensor list \<Rightarrow> 'a ctensor \<Rightarrow> int \<Rightarrow> 'a comch_world \<Rightarrow> 'a comch_world \<times> rs_work result" where
  "client_list_launch env W outs inp cid w =
     (case check_all_like W outs inp of
        Inl e \<Rightarrow> (w, Inl e)
      | Inr _ \<Rightarrow>
          (case enqueue env (Enqueue ALL_GATHER cid (t_data inp)) w of
             (w1, Inl e) \<Rightarrow> (w1, Inl e)
           | (w1, Inr h) \<Rightarrow> (w1, Inr (rs_work_init h))))"

definition client_list_wait ::
  "comch_env \<Rightarrow> 'a list \<Rightarrow> 'a ctensor list \<Rightarrow> 'a ctensor \<Rightarrow> 'a comch_world \<times> rs_work
     \<Rightarrow> ('a comch_world \<times> rs_work) \<times> 'a ctensor list result" where
  "client_list_wait env delivered outs inp s =
     (case rs_work_wait env s of
        (s1, Inl e) \<Rightarrow> (s1, Inl e)
      | (s1, Inr _) \<Rightarrow> (s1, scatter_to outs (length (t_data inp)) delivered))"

definition client_scatter_sync ::
  "bool \<Rightarrow> 'a backend \<Rightarrow> nat \<Rightarrow> 'a ctensor \<Rightarrow> 'a ctensor list \<Rightarrow> int \<Rightarrow> 'a ctensor result" where
  "client_scatter_sync request_fails recv W out ins cid =
     ebind (check_all_like W ins out) (\<lambda>_.
     ebind (cat (map t_data ins)) (\<lambda>flat.
       if request_fails then Inl (RuntimeError ''comch'')
       else ebind (view_as_shape [length (t_data out)] (recv REDUCE_SCATTER cid flat)) (\<lambda>x. Inr (out\<lparr>t_data := x\<rparr>))))"

definition client_scatter_launch ::
  "comch_env \<Rightarrow> nat \<Rightarrow> 'a ctensor \<Rightarrow> 'a ctensor list \<Rightarrow> int \<Rightarrow> 'a comch_world \<Rightarrow> 'a comch_world \<times> rs_work result" where
  "client_scatter_launch env W out ins cid w =
     (case ebind (check_all_like W ins out) (\<lambda>_. cat (map t_data ins)) of
        Inl e \<Rightarrow> (w, Inl e)
      | Inr flat \<Rightarrow>
          (case enqueue env (Enqueue REDUCE_SCATTER cid flat) w of
             (w1, Inl e) \<Rightarrow> (w1, Inl e)
           | (w1, Inr h) \<Rightarrow> (w1, Inr (rs_work_init h))))"

section \<open>The flat wrappers\<close>

text \<open>
  The output is touched with zeros before the call. \<open>place\<close> says where the input lies when it is a
  part of the output.
\<close>

definition check_flat :: "nat \<Rightarrow> 'a ctensor \<Rightarrow> 'a ctensor \<Rightarrow> unit result" where
  "check_flat W big small =
     (if length (t_data big) \<noteq> length (t_data small) * W then Inl (ValueError ''numel'')
      else if t_dtype big \<noteq> t_dtype small then Inl (TypeError ''dtype'')
      else if t_device big \<noteq> t_device small then Inl (TypeError ''device'')
      else Inr ())"

definition client_gather_flat_sync ::
  "bool \<Rightarrow> 'a \<Rightarrow> 'a \<Rightarrow> 'a backend \<Rightarrow> nat \<Rightarrow> 'a ctensor \<Rightarrow> 'a ctensor \<Rightarrow> nat option \<Rightarrow> int \<Rightarrow> 'a ctensor result" where
  "client_gather_flat_sync request_fails zero one recv W out inp place cid =
     ebind (check_flat W out inp) (\<lambda>_.
     ebind (cuda_touch_inplace zero one ''read'' inp) (\<lambda>inp1.
     ebind (cuda_touch_inplace zero one ''write_zero'' out) (\<lambda>out1.
       let sent = (case place of None \<Rightarrow> t_data inp1 | Some start \<Rightarrow> take (length (t_data inp)) (drop start (t_data out1))) in
       if request_fails then Inl (RuntimeError ''comch'')
       else Inr (out1\<lparr>t_data := recv ALL_GATHER cid sent\<rparr>))))"

definition client_scatter_flat_sync ::
  "bool \<Rightarrow> 'a \<Rightarrow> 'a \<Rightarrow> 'a backend \<Rightarrow> nat \<Rightarrow> 'a ctensor \<Rightarrow> 'a ctensor \<Rightarrow> int \<Rightarrow> 'a ctensor result" where
  "client_scatter_flat_sync request_fails zero one recv W out inp cid =
     ebind (check_flat W inp out) (\<lambda>_.
     ebind (cuda_touch_inplace zero one ''read'' inp) (\<lambda>inp1.
     ebind (cuda_touch_inplace zero one ''write_zero'' out) (\<lambda>out1.
       if request_fails then Inl (RuntimeError ''comch'')
       else Inr (out1\<lparr>t_data := recv REDUCE_SCATTER cid (t_data inp1)\<rparr>))))"

text \<open>The variant that also writes the gathered values to host memory and then raises the flag.\<close>

definition client_gather_cpu_full_sync ::
  "bool \<Rightarrow> 'a \<Rightarrow> 'a \<Rightarrow> 'a backend \<Rightarrow> nat \<Rightarrow> 'a ctensor \<Rightarrow> 'a ctensor \<Rightarrow> int \<Rightarrow> ('a ctensor \<times> 'a list \<times> int) result" where
  "client_gather_cpu_full_sync request_fails zero one recv W out inp cid =
     (if length (t_data out) \<noteq> length (t_data inp) * W then Inl (ValueError ''numel'')
      else if t_dtype out \<noteq> t_dtype inp then Inl (TypeError ''dtype'')
      else
        ebind (cuda_touch_inplace zero one ''write_zero'' out) (\<lambda>out1.
          if request_fails then Inl (RuntimeError ''comch'')
          else Inr (out1\<lparr>t_data := recv ALL_GATHER cid (t_data inp)\<rparr>, recv ALL_GATHER cid (t_data inp), 1)))"

text \<open>
  \<^verbatim>\<open>all_gather_cpu_full_list_via_base\<close>: the same with a list of outputs. It checks nothing, so that outputs
  of another number or size are noticed when the rows are copied out, after the collective.
\<close>

definition client_cpu_list_sync ::
  "bool \<Rightarrow> 'a backend \<Rightarrow> 'a ctensor list \<Rightarrow> 'a ctensor \<Rightarrow> int \<Rightarrow> ('a ctensor list \<times> 'a list \<times> int) result" where
  "client_cpu_list_sync request_fails recv outs inp cid =
     (if request_fails then Inl (RuntimeError ''comch'')
      else let flat = recv ALL_GATHER cid (t_data inp) in
        ebind (scatter_to outs (length (t_data inp)) flat) (\<lambda>outs1. Inr (outs1, flat, 1)))"

definition client_cpu_list_launch ::
  "comch_env \<Rightarrow> 'a ctensor \<Rightarrow> int \<Rightarrow> 'a comch_world \<Rightarrow> 'a comch_world \<times> rs_work result" where
  "client_cpu_list_launch env inp cid w =
     (case enqueue env (Enqueue ALL_GATHER cid (t_data inp)) w of
        (w1, Inl e) \<Rightarrow> (w1, Inl e)
      | (w1, Inr h) \<Rightarrow> (w1, Inr (rs_work_init h)))"

section \<open>Polling\<close>

text \<open>
  \<^verbatim>\<open>poll_flag_seq\<close>: times in nanoseconds. \<open>flag t\<close> is the flag at time \<open>t\<close> after the start, \<open>extra t\<close> how
  much longer than asked the sleep that starts at \<open>t\<close> and the code around it take, besides the one
  nanosecond every round takes at least.
\<close>

function poll_flag_loop :: "(nat \<Rightarrow> int) \<Rightarrow> (nat \<Rightarrow> nat) \<Rightarrow> int \<Rightarrow> nat \<Rightarrow> nat \<Rightarrow> nat \<Rightarrow> nat \<Rightarrow> bool \<times> nat" where
  "poll_flag_loop flag extra expected timeout max_sleep now cur_sleep =
     (if flag now = expected then (True, now)
      else if now > timeout then (False, now)
      else poll_flag_loop flag extra expected timeout max_sleep (now + 1000 * cur_sleep + extra now + 1) (min (cur_sleep * 2) max_sleep))"
  by pat_completeness auto

termination
  by (relation "measure (\<lambda>(flag, extra, expected, timeout, max_sleep, now, cur_sleep). timeout + 1 - now)") auto

declare poll_flag_loop.simps [simp del]

definition poll_flag_seq :: "(nat \<Rightarrow> int) \<Rightarrow> (nat \<Rightarrow> nat) \<Rightarrow> int \<Rightarrow> nat \<Rightarrow> nat \<Rightarrow> nat \<Rightarrow> bool \<times> nat" where
  "poll_flag_seq flag extra expected timeout sleep_us max_sleep_us = poll_flag_loop flag extra expected timeout max_sleep_us 0 sleep_us"

text \<open>The polling threads of the completion pollers: they run for as long as the test fails.\<close>

partial_function (option) completion_poll :: "(nat \<Rightarrow> bool) \<Rightarrow> nat \<Rightarrow> nat option" where
  "completion_poll test n = (if test n then Some n else completion_poll test (n + 1))"

partial_function (option) dma_poll :: "(nat \<Rightarrow> int) \<Rightarrow> nat \<Rightarrow> nat option" where
  "dma_poll flag n = (if flag n = 0 then dma_poll flag (n + 1) else Some n)"

section \<open>Properties\<close>

lemma poll_flag_loop_bounds:
  assumes "\<And>t. extra t \<le> E" and "cur \<le> S" and "max_sleep \<le> S" and "now \<le> timeout + 1000 * S + E + 1"
  shows "snd (poll_flag_loop flag extra expected timeout max_sleep now cur) \<le> timeout + 1000 * S + E + 1
    \<and> (fst (poll_flag_loop flag extra expected timeout max_sleep now cur)
        \<longleftrightarrow> flag (snd (poll_flag_loop flag extra expected timeout max_sleep now cur)) = expected)"
  using assms
proof (induction flag extra expected timeout max_sleep now cur rule: poll_flag_loop.induct)
  case (1 flag extra expected timeout max_sleep now cur)
  show ?case
  proof (cases "flag now = expected \<or> now > timeout")
    case True
    then show ?thesis using 1 by (subst (1 2 3) poll_flag_loop.simps) auto
  next
    case False
    have "now + 1000 * cur + extra now + 1 \<le> timeout + 1000 * S + E + 1"
      using False 1(2) [of now] 1(3) by simp
    then show ?thesis using 1(1) [OF _ _ 1(2)] False 1(3,4) by (subst (1 2 3) poll_flag_loop.simps) auto
  qed
qed

lemma poll_flag_loop_sees:
  assumes "\<And>t. T \<le> t \<Longrightarrow> flag t = expected" and "T \<le> timeout" and "now \<le> timeout"
  shows "fst (poll_flag_loop flag extra expected timeout max_sleep now cur)"
  using assms
proof (induction flag extra expected timeout max_sleep now cur rule: poll_flag_loop.induct)
  case (1 flag extra expected timeout max_sleep now cur)
  let ?next = "now + 1000 * cur + extra now + 1" and ?cur = "min (cur * 2) max_sleep"
  show ?case
  proof (cases "flag now = expected")
    case True
    then show ?thesis by (subst poll_flag_loop.simps) simp
  next
    case False
    have "fst (poll_flag_loop flag extra expected timeout max_sleep ?next ?cur)"
    proof (cases "?next \<le> timeout")
      case True
      then show ?thesis using 1 False by auto
    next
      case late: False
      then have "flag ?next = expected" using 1(2) [of ?next] 1(3) by simp
      then show ?thesis by (subst poll_flag_loop.simps) simp
    qed
    then show ?thesis using False 1(4) by (subst poll_flag_loop.simps) simp
  qed
qed

text \<open>
  C35: polling for the DPU's flag ends. Whatever the flag does, the loop returns, no later than one
  longest sleep and one delay after the timeout; it reports success exactly when the flag had the
  expected value at its last look, and when the flag is set by the timeout and stays, it succeeds.
\<close>

theorem poll_flag_seq_returns:
  assumes "\<And>t. extra t \<le> E" and "sleep_us \<le> max_sleep_us"
  shows "snd (poll_flag_seq flag extra expected timeout sleep_us max_sleep_us) \<le> timeout + 1000 * max_sleep_us + E + 1
    \<and> (fst (poll_flag_seq flag extra expected timeout sleep_us max_sleep_us)
         \<longleftrightarrow> flag (snd (poll_flag_seq flag extra expected timeout sleep_us max_sleep_us)) = expected)
    \<and> ((\<exists>T \<le> timeout. \<forall>t \<ge> T. flag t = expected) \<longrightarrow> fst (poll_flag_seq flag extra expected timeout sleep_us max_sleep_us))"
proof -
  have "snd (poll_flag_seq flag extra expected timeout sleep_us max_sleep_us) \<le> timeout + 1000 * max_sleep_us + E + 1
    \<and> (fst (poll_flag_seq flag extra expected timeout sleep_us max_sleep_us)
         \<longleftrightarrow> flag (snd (poll_flag_seq flag extra expected timeout sleep_us max_sleep_us)) = expected)"
    unfolding poll_flag_seq_def using assms by (intro poll_flag_loop_bounds) simp_all
  moreover have "fst (poll_flag_seq flag extra expected timeout sleep_us max_sleep_us)"
    if "\<exists>T \<le> timeout. \<forall>t \<ge> T. flag t = expected"
    using that unfolding poll_flag_seq_def by (auto intro: poll_flag_loop_sees)
  ultimately show ?thesis by blast
qed

theorem poll_flag_seq_returns_witness:
  "fst (poll_flag_seq (\<lambda>t. if t < 100000 then 0 else 1) (\<lambda>t. t mod 7) 1 5000000000 50 2000)
   \<and> snd (poll_flag_seq (\<lambda>t. if t < 100000 then 0 else 1) (\<lambda>t. t mod 7) 1 5000000000 50 2000) \<le> 5002000008"
proof -
  have b: "t mod 7 \<le> (7 :: nat)" for t by simp
  have "\<exists>T \<le> (5000000000 :: nat). \<forall>t \<ge> T. (if t < 100000 then 0 else 1 :: int) = 1"
    by (rule exI [of _ 100000]) simp
  moreover have "(50 :: nat) \<le> 2000" "5000000000 + 1000 * 2000 + 7 + 1 = (5002000008 :: nat)" by simp_all
  ultimately show ?thesis
    using poll_flag_seq_returns [of "\<lambda>t. t mod 7" 7 50 2000 "\<lambda>t. if t < 100000 then 0 else 1" 1 5000000000, OF b] by metis
qed

text \<open>A polling thread ends exactly when the test comes true at some time, and then at the first.\<close>

lemma completion_poll_from:
  "(\<exists>k. test (n + k)) \<Longrightarrow> completion_poll test n = Some (n + (LEAST k. test (n + k)))"
proof (induction "LEAST k. test (n + k)" arbitrary: n)
  case 0
  then have "test n" by (metis (mono_tags, lifting) LeastI add_0_right)
  then have "completion_poll test n = Some n" by (simp add: completion_poll.simps)
  then show ?case using 0(1) by simp
next
  case (Suc m)
  have no: "\<not> test n" using not_less_Least [of 0 "\<lambda>k. test (n + k)"] Suc(2) by simp
  have least: "(LEAST k. test (n + k)) = Suc (LEAST k. test (Suc n + k))"
    using Suc(3) no Least_Suc [of "\<lambda>k. test (n + k)" _ ] by auto
  have ex: "\<exists>k. test (Suc n + k)" using Suc(3) no by (metis add_Suc_right add_Suc_shift not0_implies_Suc add_0_right)
  have "completion_poll test (Suc n) = Some (Suc n + (LEAST k. test (Suc n + k)))"
    by (rule Suc(1) [OF _ ex]) (use Suc(2) least in simp)
  then show ?case using no least by (subst completion_poll.simps) simp
qed

theorem completion_poll_ends:
  "(\<exists>n. completion_poll test 0 = Some n) \<longleftrightarrow> (\<exists>n. test n)"
proof
  show "\<exists>n. test n" if ex: "\<exists>n. completion_poll test 0 = Some n"
  proof -
    obtain n where "completion_poll test 0 = Some n" using ex by blast
    then show ?thesis by (rule completion_poll.raw_induct [rotated]) (auto split: if_splits)
  qed
  show "\<exists>n. completion_poll test 0 = Some n" if "\<exists>n. test n"
    using completion_poll_from [of test 0] that by auto
qed

text \<open>
  Waiting for a list gather leaves the outputs as the blocking call does; and the touch of the
  output wipes an input that lies in the output.
\<close>

theorem client_async_is_sync:
  assumes "\<And>i. \<not> call_fails env i" and "client_list_launch env W outs inp cid w = (w1, Inr k)"
  shows "snd (client_list_wait env (recv ALL_GATHER cid (t_data inp)) outs inp (w1, k)) = client_list_sync False recv W outs inp cid"
  using assms
  by (auto simp: client_list_launch_def client_list_wait_def client_list_sync_def enqueue_def bind_call_def rs_work_wait_def
      rs_release_once_def rs_work_init_def split: sum.splits)

theorem cpu_list_is_list_gather:
  assumes "check_all_like W outs inp = Inr ()"
  shows "ebind (client_cpu_list_sync False recv outs inp cid) (\<lambda>(outs1, flat, flag). Inr outs1) = client_list_sync False recv W outs inp cid"
    and "client_cpu_list_launch env inp cid w = client_list_launch env W outs inp cid w"
  using assms
  by (simp_all add: client_cpu_list_sync_def client_list_sync_def client_cpu_list_launch_def client_list_launch_def Let_def ebind_assoc
      ebind_def split: sum.split)

theorem in_place_gather_sends_zeros:
  assumes "t_device out \<noteq> Cpu" and "t_contiguous out" and "check_flat W out inp = Inr ()" and "start + length (t_data inp) \<le> length (t_data out)"
  shows "client_gather_flat_sync False zero one recv W out inp (Some start) cid
    = Inr (out\<lparr>t_data := recv ALL_GATHER cid (replicate (length (t_data inp)) zero)\<rparr>)"
proof -
  have "t_device inp \<noteq> Cpu" using assms(1,3) by (auto simp: check_flat_def split: if_splits)
  moreover have "take (length (t_data inp)) (drop start (map (\<lambda>_. zero) (t_data out))) = replicate (length (t_data inp)) zero"
    using assms(4) by (intro nth_equalityI) simp_all
  ultimately show ?thesis using assms(1-3) by (simp add: client_gather_flat_sync_def cuda_touch_inplace_def Let_def)
qed

end
