(* ===== verification/TextData.thy ===== *)
theory TextData
  imports Tensor "HOL-Library.Multiset" "HOL-Library.AList"
begin

text \<open>
  The training data: \<^verbatim>\<open>src/common/text_dataset.py\<close>, the cache of tokenised texts and the datasets for
  language models, and the split by classes of \<^verbatim>\<open>src/common/dataset.py\<close>.

  Tokenizer, hash function and data sets are arguments: \<open>tok\<close> maps a batch of texts to their tokens,
  \<open>sha\<close> is the hexadecimal digest. The files of the cache are a map from paths to tokens; that the
  rename of the temporary file is atomic is why a path holds either nothing or a whole result.
\<close>

section \<open>The cache\<close>

definition replace_slash :: "string \<Rightarrow> string" where
  "replace_slash key = map (\<lambda>c. if c = CHR ''/'' then CHR ''_'' else c) key"

definition tokenized_cache_path :: "(string \<Rightarrow> string) \<Rightarrow> string \<Rightarrow> string \<Rightarrow> string \<Rightarrow> string" where
  "tokenized_cache_path sha tokenizer_name dataset_id split =
     (let key = tokenizer_name @ ''__'' @ dataset_id @ ''__'' @ split
      in replace_slash key @ ''__'' @ take 16 (sha key) @ ''.pt'')"

definition is_space :: "char \<Rightarrow> bool" where
  "is_space c \<longleftrightarrow> c \<in> {CHR '' '', CHR 0x09, CHR 0x0A, CHR 0x0B, CHR 0x0C, CHR 0x0D, CHR 0x1C, CHR 0x1D, CHR 0x1E, CHR 0x1F, CHR 0x85, CHR 0xA0}"

text \<open>\<^verbatim>\<open>for i in range(0, len(texts), batch_size)\<close>: the texts in batches.\<close>

function batches :: "nat \<Rightarrow> 'b list \<Rightarrow> 'b list list" where
  "batches n xs = (if n = 0 \<or> xs = [] then [] else take n xs # batches n (drop n xs))"
  by pat_completeness auto

termination
  by (relation "measure (\<lambda>(n, xs). length xs)") auto

declare batches.simps [simp del]

definition tokenize_all :: "(string list \<Rightarrow> int list list) \<Rightarrow> string list \<Rightarrow> int list" where
  "tokenize_all tok texts =
     concat (map (\<lambda>chunk. concat (tok chunk)) (batches 1024 (filter (\<lambda>t. list_ex (\<lambda>c. \<not> is_space c) t) texts)))"

type_synonym token_files = "string \<Rightarrow> int list option"

definition tokenize_and_concat_cached ::
  "(string list \<Rightarrow> int list list) \<Rightarrow> string \<Rightarrow> string list option \<Rightarrow> token_files \<Rightarrow> (int list \<times> token_files) result" where
  "tokenize_and_concat_cached tok cache_path split_obj files =
     (case files cache_path of
        Some t \<Rightarrow> Inr (t, files)
      | None \<Rightarrow>
          (case split_obj of
             None \<Rightarrow> Inl (TypeError ''NoneType'')
           | Some texts \<Rightarrow> (let t = tokenize_all tok texts in Inr (t, files(cache_path \<mapsto> t)))))"

section \<open>Datasets\<close>

definition seq_chunks :: "nat \<Rightarrow> int list \<Rightarrow> int list list result" where
  "seq_chunks seq_len token_ids =
     (if seq_len = 0 then Inl ZeroDivisionError
      else Inr (map (\<lambda>i. block seq_len i token_ids) [0..<length token_ids div seq_len]))"

record lm_item =
  input_ids :: "int list"
  attention_mask :: "int list"
  labels :: "int list"

definition causal_item :: "int list list \<Rightarrow> nat \<Rightarrow> lm_item result" where
  "causal_item data idx =
     (if idx < length data
      then Inr \<lparr>input_ids = data ! idx, attention_mask = map (\<lambda>_. 1) (data ! idx), labels = data ! idx\<rparr>
      else Inl IndexError)"

text \<open>\<open>rand\<close> is what \<^verbatim>\<open>torch.rand\<close> returns, compared with the probability.\<close>

definition mlm_item :: "int \<Rightarrow> bool list \<Rightarrow> int list list \<Rightarrow> nat \<Rightarrow> lm_item result" where
  "mlm_item mask_token_id rand_below data idx =
     (if idx < length data
      then Inr \<lparr>input_ids = map2 (\<lambda>m t. if m then mask_token_id else t) rand_below (data ! idx),
                attention_mask = map (\<lambda>_. 1) (data ! idx),
                labels = map2 (\<lambda>m t. if m then t else -100) rand_below (data ! idx)\<rparr>
      else Inl IndexError)"

text \<open>A labelled text, its padding left to the loader; \<open>enc\<close> is the tokenizer with truncation.\<close>

definition text_item :: "(nat \<Rightarrow> string \<Rightarrow> int list) \<Rightarrow> nat \<Rightarrow> (string \<times> int) list \<Rightarrow> nat \<Rightarrow> (int list \<times> int list \<times> int) result" where
  "text_item enc max_length split idx =
     (if idx < length split
      then let ids = enc max_length (fst (split ! idx)) in Inr (ids, map (\<lambda>_. 1) ids, snd (split ! idx))
      else Inl IndexError)"

definition lower_char :: "char \<Rightarrow> char" where
  "lower_char c = (if of_char c \<ge> (65 :: nat) \<and> of_char c \<le> (90 :: nat) then char_of (of_char c + 32 :: nat) else c)"

definition causal_lm_tokenizers :: "(string \<times> string) list" where
  "causal_lm_tokenizers =
     [(''opt-1.3b'', ''facebook/opt-1.3b''), (''opt_1.3b'', ''facebook/opt-1.3b''),
      (''llama-7b'', ''meta-llama/Llama-2-7b-hf''), (''llama_7b'', ''meta-llama/Llama-2-7b-hf''),
      (''llama-2-7b'', ''meta-llama/Llama-2-7b-hf''), (''llama-3b'', ''meta-llama/Llama-3.2-3B''),
      (''llama_3b'', ''meta-llama/Llama-3.2-3B''), (''llama-3.2-3b'', ''meta-llama/Llama-3.2-3B'')]"

definition mlm_tokenizers :: "(string \<times> string) list" where
  "mlm_tokenizers = [(''deberta-xl'', ''microsoft/deberta-xlarge''), (''deberta_xl'', ''microsoft/deberta-xlarge'')]"

definition tokenizer_name_of :: "(string \<times> string) list \<Rightarrow> string \<Rightarrow> string" where
  "tokenizer_name_of table model_name =
     (case map_of table (map lower_char model_name) of None \<Rightarrow> model_name | Some n \<Rightarrow> n)"

definition dataset_id_of :: "string \<Rightarrow> string" where
  "dataset_id_of dataset_name =
     (if dataset_name = ''wikitext-103'' \<or> dataset_name = ''wikitext_103'' then ''wikitext-103-raw-v1'' else dataset_name)"

text \<open>
  Both splits, tokenised; \<open>load\<close> is the data set, which is only loaded when a split is not cached.
  The result are the chunks of the two splits.
\<close>

definition get_lm_datasets ::
  "(string \<times> string) list \<Rightarrow> (string \<Rightarrow> string) \<Rightarrow> (string \<Rightarrow> string list \<Rightarrow> int list list) \<Rightarrow> (string \<Rightarrow> string \<Rightarrow> string list)
     \<Rightarrow> string \<Rightarrow> string \<Rightarrow> nat \<Rightarrow> token_files \<Rightarrow> ((int list list \<times> int list list) \<times> token_files) result" where
  "get_lm_datasets table sha tok load dataset_name model_name seq_len files =
     (let dataset_id = dataset_id_of dataset_name;
          tokenizer_name = tokenizer_name_of table model_name;
          train_cache = tokenized_cache_path sha tokenizer_name dataset_id ''train'';
          test_cache = tokenized_cache_path sha tokenizer_name dataset_id ''test'';
          ds = (if files train_cache \<noteq> None \<and> files test_cache \<noteq> None then None else Some (load dataset_name))
      in ebind (tokenize_and_concat_cached (tok tokenizer_name) train_cache (map_option (\<lambda>d. d ''train'') ds) files) (\<lambda>(train_ids, files1).
         ebind (tokenize_and_concat_cached (tok tokenizer_name) test_cache (map_option (\<lambda>d. d ''test'') ds) files1) (\<lambda>(test_ids, files2).
         ebind (seq_chunks seq_len train_ids) (\<lambda>train.
         ebind (seq_chunks seq_len test_ids) (\<lambda>test.
           Inr ((train, test), files2))))))"

section \<open>Labels and the split by class\<close>

definition get_targets :: "int list option \<Rightarrow> int list option \<Rightarrow> int list result" where
  "get_targets targets y = (case targets of Some t \<Rightarrow> Inr t | None \<Rightarrow> (case y of Some t \<Rightarrow> Inr t | None \<Rightarrow> Inl AttributeError))"

definition normalize_labels :: "int list \<Rightarrow> (int list \<times> int) result" where
  "normalize_labels ls =
     (if ls = [] then Inl (ValueError ''min() of an empty sequence'')
      else let y_min = Min (set ls);
               ls = (if y_min \<noteq> 0 then map (\<lambda>y. y - y_min) ls else ls)
           in Inr (ls, Max (set ls) + 1))"

definition py_upto :: "int \<Rightarrow> 'b list \<Rightarrow> 'b list" where
  "py_upto k xs = take (nat (if k < 0 then int (length xs) + k else k)) xs"

definition py_from :: "int \<Rightarrow> 'b list \<Rightarrow> 'b list" where
  "py_from k xs = drop (nat (if k < 0 then int (length xs) + k else k)) xs"

fun per_class_loop :: "nat \<Rightarrow> int list \<Rightarrow> nat \<Rightarrow> nat list list \<Rightarrow> nat list list" where
  "per_class_loop num_classes [] idx acc = acc"
| "per_class_loop num_classes (y # ys) idx acc =
     per_class_loop num_classes ys (Suc idx)
       (if 0 \<le> y \<and> y < int num_classes then acc[nat y := acc ! nat y @ [idx]] else acc)"

text \<open>\<open>take_ratio n\<close> is \<^verbatim>\<open>int(n * float(train_ratio))\<close>.\<close>

definition train_count :: "int option \<Rightarrow> (nat \<Rightarrow> int) option \<Rightarrow> nat \<Rightarrow> int" where
  "train_count train_per_class take_ratio n =
     (case train_per_class of
        Some k \<Rightarrow> min k (int n)
      | None \<Rightarrow> (case take_ratio of Some f \<Rightarrow> f n | None \<Rightarrow> min 60 (int n)))"

fun split_loop :: "('r \<Rightarrow> nat list \<Rightarrow> nat list \<times> 'r) \<Rightarrow> (nat \<Rightarrow> int) \<Rightarrow> nat list list \<Rightarrow> 'r \<Rightarrow> nat list \<times> nat list \<Rightarrow> nat list \<times> nat list" where
  "split_loop shuffle k [] rng acc = acc"
| "split_loop shuffle k (idxs # rest) rng acc =
     (case shuffle rng idxs of (s, rng1) \<Rightarrow>
        split_loop shuffle k rest rng1 (fst acc @ py_upto (k (length s)) s, snd acc @ py_from (k (length s)) s))"

definition split_by_class_indices ::
  "('r \<Rightarrow> nat list \<Rightarrow> nat list \<times> 'r) \<Rightarrow> int list \<Rightarrow> nat \<Rightarrow> int option \<Rightarrow> (nat \<Rightarrow> int) option \<Rightarrow> 'r \<Rightarrow> nat list \<times> nat list" where
  "split_by_class_indices shuffle labels_zero_based num_classes train_per_class take_ratio rng =
     split_loop shuffle (train_count train_per_class take_ratio)
       (per_class_loop num_classes labels_zero_based 0 (replicate num_classes [])) rng ([], [])"

section \<open>Batches\<close>

lemma ceil_div_step:
  assumes "0 < n" and "0 < m"
  shows "ceil_div m n = Suc (ceil_div (m - n) n)"
proof (cases "n \<le> m")
  case True
  then have "m + (n - 1) - n = m - n + (n - 1)" by simp
  then show ?thesis using assms True le_div_geq [of n "m + (n - 1)"] by (simp only: ceil_div_def)
next
  case False
  then have "m + (n - 1) - n = m - 1" "m - 1 < n" using assms by simp_all
  then show ?thesis using assms False le_div_geq [of n "m + (n - 1)"] by (simp add: ceil_div_def)
qed

lemma concat_batches: "0 < n \<Longrightarrow> concat (batches n xs) = xs"
  by (induction n xs rule: batches.induct) (subst batches.simps, auto)

text \<open>
  The loop over the batches ends after as many rounds as the texts need, no batch is empty or
  larger than asked for, and together they are the texts in order.
\<close>

theorem batches_end:
  assumes "0 < n"
  shows "length (batches n xs) = ceil_div (length xs) n \<and> concat (batches n xs) = xs
    \<and> (\<forall>b \<in> set (batches n xs). 0 < length b \<and> length b \<le> n)"
proof -
  have "length (batches n xs) = ceil_div (length xs) n \<and> (\<forall>b \<in> set (batches n xs). 0 < length b \<and> length b \<le> n)"
    using assms
  proof (induction n xs rule: batches.induct)
    case (1 n xs)
    show ?case
    proof (cases "xs = []")
      case True
      then show ?thesis using 1(2) by (simp add: batches.simps ceil_div_def)
    next
      case False
      have "ceil_div (length xs) n = Suc (ceil_div (length xs - n) n)" using False 1(2) by (simp add: ceil_div_step)
      moreover have "batches n xs = take n xs # batches n (drop n xs)" using False 1(2) by (subst batches.simps) simp
      moreover have "length (batches n (drop n xs)) = ceil_div (length xs - n) n"
        "\<forall>b \<in> set (batches n (drop n xs)). 0 < length b \<and> length b \<le> n"
        using 1(1) 1(2) False by simp_all
      ultimately show ?thesis using 1(2) False by simp
    qed
  qed
  then show ?thesis using concat_batches [OF assms] by blast
qed

theorem batches_end_witness: "length (batches 3 (replicate 7 (0::nat))) = 3 \<and> concat (batches 3 (replicate 7 (0::nat))) = replicate 7 (0::nat)"
  using batches_end [of 3 "replicate 7 (0::nat)"] by (simp add: ceil_div_def)

section \<open>The cache changes nothing\<close>

text \<open>A tokenizer that treats the texts of a batch one by one gives the same whatever the batches.\<close>

lemma tokenize_all_each:
  assumes "\<And>ts. tok ts = map one ts"
  shows "tokenize_all tok texts = concat (map one (filter (\<lambda>t. list_ex (\<lambda>c. \<not> is_space c) t) texts))"
proof -
  have "concat (map (\<lambda>chunk. concat (tok chunk)) bs) = concat (map one (concat bs))" for bs
    by (induction bs) (simp_all add: assms)
  then show ?thesis by (simp add: tokenize_all_def concat_batches)
qed

text \<open>
  A path has the names of the tokenizer, of the data set and of the split, separated by two
  underscores, with every slash replaced. From the path the names can be read back when none of
  them, after the replacement, has two underscores in a row or one at its end, and no two of them
  become the same. The digest at the end of the path is not needed for that.
\<close>

fun plain_name :: "string \<Rightarrow> bool" where
  "plain_name [] = True"
| "plain_name [c] = (c \<noteq> CHR ''_'')"
| "plain_name (a # b # cs) = (\<not> (a = CHR ''_'' \<and> b = CHR ''_'') \<and> plain_name (b # cs))"

definition cacheable :: "string set \<Rightarrow> bool" where
  "cacheable names \<longleftrightarrow> inj_on replace_slash names \<and> (\<forall>n \<in> names. plain_name (replace_slash n))"

lemma plain_tail: "plain_name (c # cs) \<Longrightarrow> plain_name cs"
  by (cases cs) simp_all

lemma plain_cut:
  assumes "plain_name w" and "plain_name w'" and "w @ ''__'' @ r = w' @ ''__'' @ r'"
  shows "w = w' \<and> r = r'"
  using assms
proof (induction w arbitrary: w')
  case Nil
  then show ?case by (cases w' rule: plain_name.cases) auto
next
  case (Cons c cs)
  show ?case
  proof (cases w')
    case Nil
    then show ?thesis using Cons.prems by (cases cs) auto
  next
    case (Cons c' cs')
    then show ?thesis using Cons.IH [of cs'] Cons.prems plain_tail [of c cs] plain_tail [of c' cs'] by simp
  qed
qed

lemma cache_path_inj:
  assumes names: "cacheable names" and "t \<in> names" "d \<in> names" "t' \<in> names" "d' \<in> names"
    and s: "s \<in> {''train'', ''test''}" "s' \<in> {''train'', ''test''}"
    and eq: "tokenized_cache_path sha t' d' s' = tokenized_cache_path sha t d s"
  shows "t' = t \<and> d' = d \<and> s' = s"
proof -
  have split: "replace_slash s = s \<and> plain_name s" if "s \<in> {''train'', ''test''}" for s
    using that by (auto simp: replace_slash_def)
  have plain: "plain_name (replace_slash n)" if "n \<in> names" for n using names that by (simp add: cacheable_def)
  have path: "\<exists>x. tokenized_cache_path sha t d s = replace_slash t @ ''__'' @ (replace_slash d @ ''__'' @ (s @ ''__'' @ x))"
    if "s \<in> {''train'', ''test''}" for t d s
    using split [OF that] by (simp add: tokenized_cache_path_def Let_def replace_slash_def)
  obtain x x' where "replace_slash t' @ ''__'' @ (replace_slash d' @ ''__'' @ (s' @ ''__'' @ x'))
      = replace_slash t @ ''__'' @ (replace_slash d @ ''__'' @ (s @ ''__'' @ x))"
    using path [OF s(1), of t d] path [OF s(2), of t' d'] eq by metis
  then have "replace_slash t' = replace_slash t \<and> replace_slash d' @ ''__'' @ (s' @ ''__'' @ x') = replace_slash d @ ''__'' @ (s @ ''__'' @ x)"
    by (rule plain_cut [OF plain plain, OF assms(4,2)])
  moreover from this have "replace_slash d' = replace_slash d \<and> s' @ ''__'' @ x' = s @ ''__'' @ x"
    using plain_cut [OF plain plain, OF assms(5,3)] by blast
  moreover from this have "s' = s" using plain_cut split s by blast
  ultimately show ?thesis using names assms(2-5) by (auto simp: cacheable_def dest: inj_onD)
qed

text \<open>A cache in which every path of these names holds the tokens of its text.\<close>

definition cache_ok ::
  "string set \<Rightarrow> (string \<Rightarrow> string) \<Rightarrow> (string \<Rightarrow> string list \<Rightarrow> int list list) \<Rightarrow> (string \<Rightarrow> string \<Rightarrow> string list) \<Rightarrow> token_files \<Rightarrow> bool" where
  "cache_ok names sha tok corpus files \<longleftrightarrow>
     (\<forall>t \<in> names. \<forall>d \<in> names. \<forall>s \<in> {''train'', ''test''}. \<forall>ids.
        files (tokenized_cache_path sha t d s) = Some ids \<longrightarrow> ids = tokenize_all (tok t) (corpus d s))"

lemma cached_step:
  assumes "cache_ok names sha tok corpus files" and names: "cacheable names" "t \<in> names" "d \<in> names" "s \<in> {''train'', ''test''}"
    and obj: "files (tokenized_cache_path sha t d s) = None \<Longrightarrow> split_obj = Some (corpus d s)"
  shows "\<exists>files'. tokenize_and_concat_cached (tok t) (tokenized_cache_path sha t d s) split_obj files
      = Inr (tokenize_all (tok t) (corpus d s), files') \<and> cache_ok names sha tok corpus files'
      \<and> (\<forall>p. files p \<noteq> None \<longrightarrow> files' p = files p)"
proof (cases "files (tokenized_cache_path sha t d s)")
  case None
  let ?f = "files(tokenized_cache_path sha t d s \<mapsto> tokenize_all (tok t) (corpus d s))"
  have "cache_ok names sha tok corpus ?f"
    unfolding cache_ok_def
  proof (intro ballI allI impI)
    fix t' d' s' ids
    assume n: "t' \<in> names" "d' \<in> names" "s' \<in> {''train'', ''test''}" and a: "?f (tokenized_cache_path sha t' d' s') = Some ids"
    show "ids = tokenize_all (tok t') (corpus d' s')"
    proof (cases "tokenized_cache_path sha t' d' s' = tokenized_cache_path sha t d s")
      case True
      then have "t' = t \<and> d' = d \<and> s' = s" using cache_path_inj [OF names(1-3) n(1,2) names(4) n(3)] by blast
      then show ?thesis using a by simp
    next
      case False
      then have "files (tokenized_cache_path sha t' d' s') = Some ids" using a by simp
      then show ?thesis using assms(1) n unfolding cache_ok_def by blast
    qed
  qed
  then show ?thesis using None obj [OF None] by (intro exI [of _ ?f]) (simp add: tokenize_and_concat_cached_def Let_def)
next
  case (Some ids)
  have "ids = tokenize_all (tok t) (corpus d s)" using assms(1) Some names unfolding cache_ok_def by blast
  then show ?thesis using Some assms(1) by (intro exI [of _ files]) (simp add: tokenize_and_concat_cached_def)
qed

text \<open>
  C36: the cache is transparent. Let the tokenizers and data sets have names that, with slashes
  replaced by underscores, stay different and have no two underscores in a row and none at the end.
  With a cache that holds, under the paths of these names, the tokens they stand for, any call
  returns the chunks of the tokenised splits whichever of them are cached, loads the data set when it
  has to, and leaves a cache that again holds what its names stand for.
\<close>

theorem cached_datasets_same:
  assumes "cache_ok names sha tok corpus files" and "0 < seq_len"
    and load: "load dataset_name = corpus (dataset_id_of dataset_name)"
    and names: "cacheable names" "t \<in> names" "d \<in> names"
    and t_def: "t = tokenizer_name_of table model_name" and d_def: "d = dataset_id_of dataset_name"
    and chunks_def: "chunks = (\<lambda>ids. map (\<lambda>i. block seq_len i ids) [0..<length ids div seq_len])"
  shows "\<exists>files'. get_lm_datasets table sha tok load dataset_name model_name seq_len files
      = Inr ((chunks (tokenize_all (tok t) (corpus d ''train'')), chunks (tokenize_all (tok t) (corpus d ''test''))), files')
    \<and> cache_ok names sha tok corpus files'"
proof -
  let ?p = "\<lambda>s. tokenized_cache_path sha t d s"
  let ?ds = "if files (?p ''train'') \<noteq> None \<and> files (?p ''test'') \<noteq> None then None else Some (load dataset_name)"
  have ds: "map_option (\<lambda>d. d s) ?ds = Some (corpus d s)" if "files (?p ''train'') = None \<or> files (?p ''test'') = None" for s
    using that load by (auto simp: d_def)
  have step: "\<exists>g'. tokenize_and_concat_cached (tok t) (?p s) (map_option (\<lambda>d. d s) ?ds) g = Inr (tokenize_all (tok t) (corpus d s), g')
      \<and> cache_ok names sha tok corpus g' \<and> (\<forall>p. g p \<noteq> None \<longrightarrow> g' p = g p)"
    if g: "cache_ok names sha tok corpus g" "g (?p s) = None \<longrightarrow> files (?p ''train'') = None \<or> files (?p ''test'') = None"
      and s: "s \<in> {''train'', ''test''}" for g s
    by (rule cached_step [OF g(1) names s]) (erule ds [OF g(2) [THEN mp]])
  obtain f1 where f1: "tokenize_and_concat_cached (tok t) (?p ''train'') (map_option (\<lambda>d. d ''train'') ?ds) files
      = Inr (tokenize_all (tok t) (corpus d ''train''), f1)" "cache_ok names sha tok corpus f1" "\<forall>p. files p \<noteq> None \<longrightarrow> f1 p = files p"
    using step [of files "''train''", OF assms(1)] by blast
  have t2: "f1 (?p ''test'') = None \<longrightarrow> files (?p ''train'') = None \<or> files (?p ''test'') = None"
    using f1(3) by (cases "files (?p ''test'')") auto
  have "''test'' \<in> {''train'', ''test''}" by simp
  then obtain f2 where f2: "tokenize_and_concat_cached (tok t) (?p ''test'') (map_option (\<lambda>d. d ''test'') ?ds) f1
      = Inr (tokenize_all (tok t) (corpus d ''test''), f2)" "cache_ok names sha tok corpus f2"
    using step [OF f1(2) t2] by blast
  show ?thesis using f1(1) f2 assms(2) unfolding get_lm_datasets_def Let_def t_def [symmetric] d_def [symmetric]
    by (simp add: seq_chunks_def chunks_def)
qed

text \<open>A data set whose two splits differ, and a name with a slash.\<close>

definition demo_corpus :: "string \<Rightarrow> string \<Rightarrow> string list" where
  "demo_corpus d s = (if s = ''train'' then [''abc'', '' '', ''de''] else [''fg''])"

theorem cached_datasets_same_witness:
  "\<exists>files. get_lm_datasets mlm_tokenizers (\<lambda>k. []) (\<lambda>t. map (map (\<lambda>c. int (of_char c)))) demo_corpus ''demo'' ''DeBERTa-XL'' 2 Map.empty
     = Inr (([[97, 98], [99, 100]], [[102, 103]]), files)"
proof -
  let ?tok = "\<lambda>(t :: string). map (map (\<lambda>c. int (of_char c)))" and ?n = "''microsoft/deberta-xlarge''"
  let ?names = "{?n, ''demo''}"
  have b: "batches 1024 [''abc'', ''de''] = [[''abc'', ''de'']]" "batches 1024 [''fg''] = [[''fg'']]"
    by (simp_all add: batches.simps)
  have c: "tokenize_all (?tok t) (demo_corpus d ''train'') = [97, 98, 99, 100, 101]"
    "tokenize_all (?tok t) (demo_corpus d ''test'') = [102, 103]" for t d
    by (simp_all add: tokenize_all_def demo_corpus_def is_space_def b)
  have k: "''demo'' = dataset_id_of ''demo''" by (simp add: dataset_id_of_def)
  have tn: "?n = tokenizer_name_of mlm_tokenizers ''DeBERTa-XL''" by code_simp
  have ok: "cache_ok ?names (\<lambda>k. []) ?tok demo_corpus Map.empty" by (simp add: cache_ok_def)
  have names: "cacheable ?names" "?n \<in> ?names" "''demo'' \<in> ?names" by (simp_all add: cacheable_def replace_slash_def)
  have n: "[0..<2] = [0, 1 :: nat]" by (simp add: upt_rec)
  have "\<exists>files. get_lm_datasets mlm_tokenizers (\<lambda>k. []) ?tok demo_corpus ''demo'' ''DeBERTa-XL'' 2 Map.empty
      = Inr (((\<lambda>ids. map (\<lambda>i. block 2 i ids) [0..<length ids div 2]) (tokenize_all (?tok ?n) (demo_corpus ''demo'' ''train'')),
              (\<lambda>ids. map (\<lambda>i. block 2 i ids) [0..<length ids div 2]) (tokenize_all (?tok ?n) (demo_corpus ''demo'' ''test''))), files)
        \<and> cache_ok ?names (\<lambda>k. []) ?tok demo_corpus files"
    by (rule cached_datasets_same [where load = demo_corpus and corpus = demo_corpus and sha = "\<lambda>k. []" and tok = ?tok,
          OF ok _ _ names tn k refl]) (simp_all add: k [symmetric])
  then obtain files where "get_lm_datasets mlm_tokenizers (\<lambda>k. []) ?tok demo_corpus ''demo'' ''DeBERTa-XL'' 2 Map.empty
      = Inr ((map (\<lambda>i. block 2 i [97, 98, 99, 100, 101]) [0..<length [97, 98, 99, 100, 101 :: int] div 2],
              map (\<lambda>i. block 2 i [102, 103]) [0..<length [102, 103 :: int] div 2]), files)"
    unfolding c by blast
  then show ?thesis by (intro exI [of _ files]) (simp add: block_def n)
qed

section \<open>Masking and classes\<close>

text \<open>The unmasked tokens stay in the input, the masked ones in the labels: together they are the chunk.\<close>

lemma mlm_recover:
  assumes "mlm_item token rand data idx = Inr item" and "length rand = length (data ! idx)"
    and "-100 \<notin> set (data ! idx)"
  shows "map2 (\<lambda>x l. if l = -100 then x else l) (input_ids item) (labels item) = data ! idx"
proof -
  have item: "input_ids item = map2 (\<lambda>m t. if m then token else t) rand (data ! idx)"
    "labels item = map2 (\<lambda>m t. if m then t else -100) rand (data ! idx)"
    using assms(1) by (auto simp: mlm_item_def split: if_splits)
  have "map2 (\<lambda>x l. if l = -100 then x else l) (map2 (\<lambda>m t. if m then token else t) rand d) (map2 (\<lambda>m t. if m then t else -100) rand d) = d"
    if "length rand = length d" "-100 \<notin> set d" for d
    using that by (induction rand d rule: list_induct2) auto
  then show ?thesis unfolding item using assms(2,3) by blast
qed

lemma length_per_class [simp]: "length (per_class_loop n ys idx acc) = length acc"
  by (induction n ys idx acc rule: per_class_loop.induct) simp_all

lemma per_class_nth:
  "c < length acc \<Longrightarrow> length acc = n \<Longrightarrow> per_class_loop n ys idx acc ! c
     = acc ! c @ filter (\<lambda>i. ys ! (i - idx) = int c) [idx..<idx + length ys]"
proof (induction n ys idx acc rule: per_class_loop.induct)
  case (2 n y ys idx acc)
  have shift: "filter (\<lambda>i. ys ! (i - Suc idx) = int c) [Suc idx..<Suc idx + length ys]
      = filter (\<lambda>i. (y # ys) ! (i - idx) = int c) [Suc idx..<Suc idx + length ys]"
    by (rule filter_cong [OF refl]) (auto simp: nth_Cons' Suc_diff_Suc)
  have up: "[idx..<idx + length (y # ys)] = idx # [Suc idx..<Suc idx + length ys]" by (simp add: upt_conv_Cons del: upt_Suc)
  have "per_class_loop n (y # ys) idx acc ! c
      = (if 0 \<le> y \<and> y < int n then acc[nat y := acc ! nat y @ [idx]] else acc) ! c
        @ filter (\<lambda>i. (y # ys) ! (i - idx) = int c) [Suc idx..<Suc idx + length ys]"
    using 2 unfolding shift [symmetric] by (simp del: upt_Suc)
  also have "(if 0 \<le> y \<and> y < int n then acc[nat y := acc ! nat y @ [idx]] else acc) ! c
      = acc ! c @ (if y = int c then [idx] else [])"
    using 2(2,3) by (auto simp: nth_list_update)
  finally show ?case unfolding up by (simp del: upt_Suc)
qed simp

lemma split_loop_mset:
  assumes "\<And>r xs. mset (fst (shuffle r xs)) = mset xs"
  shows "mset (fst (split_loop shuffle k cs rng acc)) + mset (snd (split_loop shuffle k cs rng acc))
    = mset (fst acc) + mset (snd acc) + mset (concat cs)"
proof (induction cs arbitrary: rng acc)
  case (Cons idxs rest)
  have "mset (py_upto j s) + mset (py_from j s) = mset s" for j and s :: "nat list"
    by (simp add: py_upto_def py_from_def flip: mset_append)
  then have "mset (py_upto j (fst (shuffle rng idxs))) + mset (py_from j (fst (shuffle rng idxs))) = mset idxs" for j
    by (simp add: assms)
  then show ?case by (simp add: split_beta Cons.IH algebra_simps)
qed simp

lemma per_class_all:
  "per_class_loop n ys 0 (replicate n []) = map (\<lambda>c. filter (\<lambda>i. ys ! i = int c) [0..<length ys]) [0..<n]"
  by (rule nth_equalityI) (simp_all add: per_class_nth)

lemma mset_classes:
  "mset (concat (map (\<lambda>c. filter (\<lambda>i. (ys :: int list) ! i = int c) [0..<length ys]) [0..<n]))
    = mset (filter (\<lambda>i. 0 \<le> ys ! i \<and> ys ! i < int n) [0..<length ys])"
proof (induction n)
  case (Suc n)
  have "filter_mset (\<lambda>i. 0 \<le> ys ! i \<and> ys ! i < int n) A + filter_mset (\<lambda>i. ys ! i = int n) A
      = filter_mset (\<lambda>i. 0 \<le> ys ! i \<and> ys ! i < int (Suc n)) A" for A
    by (induction A) auto
  from this [of "mset [0..<length ys]"] show ?case using Suc by (simp only: mset_filter upt_Suc_append map_append concat_append mset_append) simp
qed (simp add: filter_False)

lemma split_loop_class:
  assumes "\<And>r xs. mset (fst (shuffle r xs)) = mset xs" and "\<And>j m. k m = int (min q m)"
    and "\<And>j i. j < length cs \<Longrightarrow> i \<in> set (cs ! j) \<Longrightarrow> f i = b + j"
  shows "length (filter (\<lambda>i. f i = c) (fst (split_loop shuffle k cs rng acc)))
    = length (filter (\<lambda>i. f i = c) (fst acc)) + (if b \<le> c \<and> c < b + length cs then min q (length (cs ! (c - b))) else (0 :: nat))"
  using assms(3)
proof (induction cs arbitrary: b rng acc)
  case (Cons idxs rest)
  define s where "s = fst (shuffle rng idxs)"
  have s: "set s = set idxs" "length s = length idxs"
    using mset_eq_setD [OF assms(1) [of rng idxs]] mset_eq_length [OF assms(1) [of rng idxs]] by (simp_all add: s_def)
  have fs: "f i = b" if "i \<in> set s" for i using Cons.prems [of 0 i] that s by simp
  have tk: "py_upto (k (length s)) s = take q s" by (cases "q \<le> length s") (simp_all add: py_upto_def assms(2) min_def)
  have one: "length (filter (\<lambda>i. f i = c) (take q s)) = (if c = b then min q (length s) else 0)"
  proof (cases "c = b")
    case True
    have "filter (\<lambda>i. f i = c) (take q s) = take q s" using fs True by (auto intro!: filter_True dest: in_set_takeD)
    then show ?thesis using True by (simp add: min.commute)
  next
    case False
    have "filter (\<lambda>i. f i = c) (take q s) = []" using fs False by (auto intro!: filter_False dest: in_set_takeD)
    then show ?thesis using False by simp
  qed
  have IH: "length (filter (\<lambda>i. f i = c) (fst (split_loop shuffle k rest r a)))
      = length (filter (\<lambda>i. f i = c) (fst a)) + (if Suc b \<le> c \<and> c < Suc b + length rest then min q (length (rest ! (c - Suc b))) else 0)" for r a
    by (rule Cons.IH) (use Cons.prems [of "Suc j" for j] in auto)
  have nth: "(idxs # rest) ! (c - b) = (if c = b then idxs else rest ! (c - Suc b))" if "b \<le> c"
    using that by (auto simp: nth_Cons')
  show ?case using one by (auto simp: split_beta IH tk [unfolded s(2)] s_def [symmetric] s nth)
qed simp

text \<open>
  C37: the split by class is a partition of the indices with a valid label, and it is balanced: each
  class has the asked number of training items, or all of its items when it has fewer.
\<close>

theorem split_is_balanced:
  assumes "\<And>r xs. mset (fst (shuffle r xs)) = mset xs"
    and "split_by_class_indices shuffle ys n (Some (int q)) ratio rng = (train, test)"
  shows "mset train + mset test = mset (filter (\<lambda>i. 0 \<le> ys ! i \<and> ys ! i < int n) [0..<length ys])
    \<and> (\<forall>c < n. length (filter (\<lambda>i. ys ! i = int c) train) = min q (length (filter (\<lambda>y. y = int c) ys)))"
proof -
  let ?cs = "map (\<lambda>c. filter (\<lambda>i. ys ! i = int c) [0..<length ys]) [0..<n]"
  have eq: "split_loop shuffle (train_count (Some (int q)) ratio) ?cs rng ([], []) = (train, test)"
    using assms(2) by (simp add: split_by_class_indices_def per_class_all)
  have "mset train + mset test = mset (concat ?cs)"
    using split_loop_mset [where shuffle = shuffle, OF assms(1), of "train_count (Some (int q)) ratio" ?cs rng "([], [])"] by (simp add: eq)
  moreover have "length (filter (\<lambda>i. ys ! i = int c) train) = min q (length (filter (\<lambda>y. y = int c) ys))" if c: "c < n" for c
  proof -
    have len: "length (filter (\<lambda>i. ys ! i = int c) [0..<length ys]) = length (filter (\<lambda>y. y = int c) ys)"
    proof -
      have "filter (\<lambda>y. y = int c) (map ((!) ys) [0..<length ys]) = filter (\<lambda>y. y = int c) ys" by (simp only: map_nth)
      then show ?thesis by (simp add: filter_map comp_def) (metis length_map)
    qed
    have "set train \<subseteq> set (concat ?cs)"
      using \<open>mset train + mset test = mset (concat ?cs)\<close> by (metis set_mset_mset set_mset_union sup_ge1)
    then have pos: "\<And>i. i \<in> set train \<Longrightarrow> 0 \<le> ys ! i" by auto
    have "length (filter (\<lambda>i. nat (ys ! i) = c) train) = min q (length (?cs ! c))"
      using split_loop_class [where shuffle = shuffle, OF assms(1), where q = q and k = "train_count (Some (int q)) ratio" and cs = ?cs
          and f = "\<lambda>i. nat (ys ! i)" and b = 0 and c = c and rng = rng and acc = "([], [])"] c
      by (auto simp: eq train_count_def)
    moreover have "filter (\<lambda>i. nat (ys ! i) = c) train = filter (\<lambda>i. ys ! i = int c) train"
      by (rule filter_cong [OF refl]) (use pos in auto)
    ultimately show ?thesis using c by (simp add: len)
  qed
  ultimately show ?thesis by (simp add: mset_classes)
qed

theorem split_is_balanced_witness:
  "split_by_class_indices (\<lambda>r xs. (rev xs, r)) [0, 1, 0, 7, 0] 2 (Some 2) None () = ([4, 2, 1], [0])
    \<and> length (filter (\<lambda>i. [0, 1, 0, 7, 0 :: int] ! i = 0) [4, 2, 1]) = min 2 3"
proof -
  have e: "split_by_class_indices (\<lambda>r xs. (rev xs, r)) [0, 1, 0, 7, 0] 2 (Some (int 2)) None () = ([4, 2, 1], [0])"
    by code_simp
  have "length (filter (\<lambda>i. [0, 1, 0, 7, 0 :: int] ! i = int 0) [4, 2, 1]) = min 2 (length (filter (\<lambda>y. y = int 0) [0, 1, 0, 7, 0]))"
    using split_is_balanced [OF _ e, THEN conjunct2, rule_format, of 0] by simp
  then show ?thesis using e by simp
qed

end
