(* ===== verification/CpuSets.thy ===== *)
theory CpuSets
  imports TextData
begin

text \<open>
  Which processor cores a rank uses: \<^verbatim>\<open>src/smartnic_offload/run_zero.py\<close>. The list of a NUMA node's
  cores is read from a file of the kernel, the allowed cores are shared between the ranks, and each
  rank's share is divided between its main process, the two threads of the DPU's host library and
  the process of the optimizer. The content of the kernel's file is an argument.
\<close>

section \<open>The list of cores of a node\<close>

fun split_on :: "char \<Rightarrow> string \<Rightarrow> string list" where
  "split_on c [] = [[]]"
| "split_on c (x # xs) = (if x = c then [] # split_on c xs else (x # hd (split_on c xs)) # tl (split_on c xs))"

definition strip :: "string \<Rightarrow> string" where
  "strip s = rev (dropWhile is_space (rev (dropWhile is_space s)))"

definition digit_of :: "char \<Rightarrow> nat option" where
  "digit_of c = (if 48 \<le> (of_char c :: nat) \<and> of_char c \<le> (57 :: nat) then Some (of_char c - 48) else None)"

text \<open>Python's \<^verbatim>\<open>int\<close> of a string: single underscores may stand between digits.\<close>

fun digits_from :: "bool \<Rightarrow> nat \<Rightarrow> string \<Rightarrow> nat option" where
  "digits_from after_digit acc [] = (if after_digit then Some acc else None)"
| "digits_from after_digit acc (c # cs) =
     (case digit_of c of
        Some d \<Rightarrow> digits_from True (acc * 10 + d) cs
      | None \<Rightarrow> if c = CHR ''_'' \<and> after_digit then digits_from False acc cs else None)"

definition py_int :: "string \<Rightarrow> int option" where
  "py_int s =
     (case strip s of
        [] \<Rightarrow> None
      | c # cs \<Rightarrow>
          if c = CHR ''-'' then map_option (\<lambda>n. - int n) (digits_from False 0 cs)
          else if c = CHR ''+'' then map_option int (digits_from False 0 cs)
          else map_option int (digits_from False 0 (c # cs)))"

definition cpu_part :: "string \<Rightarrow> int list option" where
  "cpu_part part =
     (if CHR ''-'' \<in> set part
      then (case (py_int (takeWhile (\<lambda>c. c \<noteq> CHR ''-'') part), py_int (tl (dropWhile (\<lambda>c. c \<noteq> CHR ''-'') part))) of
              (Some lo, Some hi) \<Rightarrow> Some [lo..hi]
            | _ \<Rightarrow> None)
      else map_option (\<lambda>n. [n]) (py_int part))"

fun cpu_parts :: "string list \<Rightarrow> int list option" where
  "cpu_parts [] = Some []"
| "cpu_parts (p # ps) = (case (cpu_part p, cpu_parts ps) of (Some a, Some b) \<Rightarrow> Some (a @ b) | _ \<Rightarrow> None)"

text \<open>Every exception gives the empty list: the file is missing (\<open>None\<close>) or not understood.\<close>

definition get_numa_cpus :: "string option \<Rightarrow> int list" where
  "get_numa_cpus file =
     (case file of
        None \<Rightarrow> []
      | Some text \<Rightarrow> (case cpu_parts (split_on (CHR '','') (strip text)) of None \<Rightarrow> [] | Some cpus \<Rightarrow> sort cpus))"

definition read_first_int :: "string option \<Rightarrow> int \<Rightarrow> int" where
  "read_first_int file dflt =
     (case file of None \<Rightarrow> dflt | Some text \<Rightarrow> (case py_int (strip text) of None \<Rightarrow> dflt | Some n \<Rightarrow> n))"

section \<open>The sets of a rank\<close>

text \<open>The share of one of \<open>W\<close> ranks, all of it when the share is empty.\<close>

definition rank_share :: "nat \<Rightarrow> nat \<Rightarrow> 'b list \<Rightarrow> 'b list" where
  "rank_share W rank xs =
     (let n = length xs; base = n div W; rem = n mod W;
          start = rank * base + min rank rem;
          sz = base + (if rank < rem then 1 else 0)
      in take sz (drop start xs))"

definition split_rset :: "int \<Rightarrow> 'b list \<Rightarrow> 'b list \<times> 'b list" where
  "split_rset k rset = (if int (length rset) > k then py_upto (- k) rset else rset, py_from (- k) rset)"

definition choose_rank_cpu_sets ::
  "(int \<Rightarrow> string option) \<Rightarrow> nat \<Rightarrow> nat \<Rightarrow> int list \<Rightarrow> int \<Rightarrow> int \<Rightarrow> int \<Rightarrow> int \<Rightarrow> (int list \<times> int list) result" where
  "choose_rank_cpu_sets numa_file rank world_size allowed_cpus cpu_thread_cores gpu_numa_node local_rank local_world_size =
     (let numa_cpus = (if 0 \<le> gpu_numa_node then get_numa_cpus (numa_file gpu_numa_node) else []);
          numa_allowed = sort (remdups (filter (\<lambda>c. c \<in> set allowed_cpus) numa_cpus))
      in if 0 \<le> gpu_numa_node \<and> numa_allowed \<noteq> [] \<and> 0 \<le> local_rank \<and> 0 < local_world_size
         then let share = rank_share (nat local_world_size) (nat local_rank) numa_allowed;
                  rset = (if share = [] then numa_allowed else share);
                  k = min cpu_thread_cores (max 1 (int (length rset) - 1))
              in Inr (split_rset k rset)
         else if allowed_cpus = [] then Inr ([0], [0])
         else if world_size = 0 then Inl ZeroDivisionError
         else let share = rank_share world_size rank allowed_cpus;
                  rset = (if share = [] then allowed_cpus else share);
                  k = min cpu_thread_cores (max 1 (int (length rset) div 2))
              in Inr (split_rset k rset))"

text \<open>The cores of the library's worker and poller, and what is left to the main process.\<close>

definition comch_cores :: "int list \<Rightarrow> int \<times> int \<times> int list" where
  "comch_cores main_cpu_set =
     (let n = length main_cpu_set in
      if 4 \<le> n then (main_cpu_set ! (n - 2), main_cpu_set ! (n - 1), take (n - 2) main_cpu_set)
      else if 2 \<le> n then (main_cpu_set ! (n - 2), main_cpu_set ! (n - 1), main_cpu_set)
      else case main_cpu_set of [] \<Rightarrow> (0, 0, []) | c # _ \<Rightarrow> (c, c, main_cpu_set))"

section \<open>Sharing\<close>

lemma concat_shares_upto:
  assumes "0 < W" and "w \<le> W"
  shows "concat (map (\<lambda>r. rank_share W r xs) [0..<w]) = take (w * (length xs div W) + min w (length xs mod W)) xs"
  using assms(2)
proof (induction w)
  case (Suc w)
  let ?b = "length xs div W" and ?m = "length xs mod W"
  have "concat (map (\<lambda>r. rank_share W r xs) [0..<Suc w])
      = take (w * ?b + min w ?m) xs @ take (?b + (if w < ?m then 1 else 0)) (drop (w * ?b + min w ?m) xs)"
    using Suc by (simp add: rank_share_def Let_def)
  also have "\<dots> = take (w * ?b + min w ?m + (?b + (if w < ?m then 1 else 0))) xs"
    by (simp only: take_add)
  also have "w * ?b + min w ?m + (?b + (if w < ?m then 1 else 0)) = Suc w * ?b + min (Suc w) ?m"
    by (auto simp: min_def)
  finally show ?case .
qed simp

lemma concat_shares: "0 < W \<Longrightarrow> concat (map (\<lambda>r. rank_share W r xs) [0..<W]) = xs"
  using concat_shares_upto [of W W xs] by (simp add: min_absorb2 less_imp_le_nat)

lemma length_share:
  assumes "0 < W" and "r < W"
  shows "length xs div W \<le> length (rank_share W r xs)"
proof -
  let ?b = "length xs div W" and ?m = "length xs mod W"
  have "Suc r * ?b + min (Suc r) ?m \<le> W * ?b + ?m"
    using assms(2) by (intro add_mono mult_le_mono1) auto
  then have "r * ?b + min r ?m + (?b + (if r < ?m then 1 else 0)) \<le> length xs"
    by (auto simp: min_def split: if_splits)
  then show ?thesis by (auto simp: rank_share_def Let_def)
qed

lemma split_rset_ok:
  assumes "0 < k" and "k < int (length rset)"
  shows "fst (split_rset k rset) @ snd (split_rset k rset) = rset" "fst (split_rset k rset) \<noteq> []"
    "snd (split_rset k rset) \<noteq> []" "int (length (snd (split_rset k rset))) = k"
  using assms by (auto simp: split_rset_def py_upto_def py_from_def nat_diff_distrib)

text \<open>
  C38: with enough cores, the ranks share them without overlap. When there are at least two cores
  per rank and at least one core is asked for the optimizer's process, the sets of all ranks
  together are exactly the allowed cores, each of them in one set of one rank; no set is empty, and
  the optimizer's process gets no more cores than it asks for. The same holds for the local ranks
  and the allowed cores of a NUMA node. Both conditions are needed: a rank without a share takes all
  the cores, a share of one core is given to both sets, and with no cores asked for the main set is
  empty (\<open>few_cores_overlap\<close>, \<open>no_thread_cores_takes_all\<close>).
\<close>

theorem cpu_sets_partition:
  assumes "0 < W" and "2 * W \<le> length cores" and "1 \<le> k"
    and sets: "\<And>r. r < W \<Longrightarrow> choose_rank_cpu_sets numa_file (f r) world_size allowed k node (g r) local_world_size = Inr (mains r, threads r)"
    and which: "(node < 0 \<and> cores = allowed \<and> world_size = W \<and> (\<forall>r < W. f r = r)) \<or>
       (0 \<le> node \<and> cores = sort (remdups (filter (\<lambda>c. c \<in> set allowed) (get_numa_cpus (numa_file node))))
         \<and> local_world_size = int W \<and> (\<forall>r < W. g r = int r))"
  shows "concat (map (\<lambda>r. mains r @ threads r) [0..<W]) = cores
    \<and> (\<forall>r < W. mains r \<noteq> [] \<and> threads r \<noteq> [] \<and> int (length (threads r)) \<le> k)"
proof -
  have two: "2 \<le> length cores div W" using div_le_mono [OF assms(2), of W] assms(1) by simp
  have one: "mains r @ threads r = rank_share W r cores \<and> mains r \<noteq> [] \<and> threads r \<noteq> [] \<and> int (length (threads r)) \<le> k" if r: "r < W" for r
  proof -
    let ?s = "rank_share W r cores"
    have len: "2 \<le> length ?s" using two length_share [OF assms(1) r, of cores] by linarith
    then have ne: "?s \<noteq> []" by auto
    have cores: "cores \<noteq> []" using assms(1,2) by auto
    obtain j where j: "split_rset j ?s = (mains r, threads r)" "0 < j" "j < int (length ?s)" "j \<le> k"
    proof (cases "node < 0")
      case True
      then have "split_rset (min k (max 1 (int (length ?s) div 2))) ?s = (mains r, threads r)"
        using sets [OF r] which r ne cores assms(1) by (auto simp: choose_rank_cpu_sets_def Let_def)
      moreover have "0 < min k (max 1 (int (length ?s) div 2))" "min k (max 1 (int (length ?s) div 2)) < int (length ?s)"
        using assms(3) len by linarith+
      ultimately show ?thesis using that by fastforce
    next
      case False
      then have c: "sort (remdups (filter (\<lambda>c. c \<in> set allowed) (get_numa_cpus (numa_file node)))) = cores"
          "local_world_size = int W" "g r = int r" "0 \<le> node"
        using which r by auto
      have "split_rset (min k (max 1 (int (length ?s) - 1))) ?s = (mains r, threads r)"
        using sets [OF r] ne cores assms(1) unfolding choose_rank_cpu_sets_def Let_def c if_P [OF c(4)]
        by (simp add: c(4))
      moreover have "0 < min k (max 1 (int (length ?s) - 1))" "min k (max 1 (int (length ?s) - 1)) < int (length ?s)"
        using assms(3) len by linarith+
      ultimately show ?thesis using that by fastforce
    qed
    show ?thesis using split_rset_ok [OF j(2,3)] j(1,4) by simp
  qed
  have "concat (map (\<lambda>r. mains r @ threads r) [0..<W]) = concat (map (\<lambda>r. rank_share W r cores) [0..<W])"
    using one by (intro arg_cong [where f = concat] map_cong) auto
  then show ?thesis using one concat_shares [OF assms(1), of cores] by simp
qed

theorem cpu_sets_partition_witness:
  "concat (map (\<lambda>r. [[10, 11], [13]] ! r @ [[12], [14]] ! r) [0..<2]) = [10, 11, 12, 13, 14 :: int]
   \<and> choose_rank_cpu_sets (\<lambda>_. None) 0 2 [10, 11, 12, 13, 14] 1 (-1) 0 1 = Inr ([10, 11], [12])"
proof -
  have e: "choose_rank_cpu_sets (\<lambda>_. None) r 2 [10, 11, 12, 13, 14] 1 (-1) (int r) 1 = Inr ([[10, 11], [13]] ! r, [[12], [14]] ! r)" if "r < 2" for r
  proof -
    have "list_all (\<lambda>r. choose_rank_cpu_sets (\<lambda>_. None) r 2 [10, 11, 12, 13, 14] 1 (-1) (int r) 1 = Inr ([[10, 11], [13]] ! r, [[12], [14]] ! r)) [0, 1]"
      by code_simp
    then show ?thesis using that by (auto simp: less_2_cases_iff)
  qed
  have "concat (map (\<lambda>r. [[10, 11], [13]] ! r @ [[12], [14]] ! r) [0..<2]) = [10, 11, 12, 13, 14 :: int]"
    using cpu_sets_partition [of 2 "[10, 11, 12, 13, 14]" 1 "\<lambda>_. None" "\<lambda>r. r" 2 "[10, 11, 12, 13, 14]" "-1" int 1
        "\<lambda>r. [[10, 11], [13]] ! r" "\<lambda>r. [[12], [14]] ! r"] e by simp
  then show ?thesis using e [of 0] by simp
qed

text \<open>
  With no cores asked for the optimizer's process, the negative slices turn around: that process
  gets the whole share and the main process nothing.
\<close>

lemma no_thread_cores_takes_all: "split_rset 0 (c # cs) = ([], c # cs)"
  by (simp add: split_rset_def py_upto_def py_from_def)

text \<open>With too few cores the sets are not disjoint.\<close>

lemma few_cores_overlap:
  shows "split_rset 1 [c] = ([c], [c])" and "length xs \<le> r \<Longrightarrow> r < W \<Longrightarrow> rank_share W r xs = []"
  by (auto simp: split_rset_def py_upto_def py_from_def rank_share_def Let_def)

lemma comch_cores_in:
  assumes "main \<noteq> []" and "comch_cores main = (worker, poller, rest)"
  shows "worker \<in> set main \<and> poller \<in> set main \<and> rest \<noteq> [] \<and> set rest \<subseteq> set main"
proof -
  consider "4 \<le> length main" | "2 \<le> length main" "length main < 4" | c where "main = [c]"
    using assms(1) by (cases main rule: remdups_adj.cases) (auto, force)
  then show ?thesis
  proof cases
    case 1
    then show ?thesis using assms by (auto simp: comch_cores_def Let_def dest: in_set_takeD)
  qed (use assms in \<open>auto simp: comch_cores_def Let_def\<close>)
qed

section \<open>Reading back what the kernel writes\<close>

fun show_nat :: "nat \<Rightarrow> string" where
  "show_nat n = (if n < 10 then [char_of (n + 48)] else show_nat (n div 10) @ [char_of (n mod 10 + 48)])"

declare show_nat.simps [simp del]

definition show_range :: "nat \<times> nat \<Rightarrow> string" where
  "show_range r = (if fst r = snd r then show_nat (fst r) else show_nat (fst r) @ CHR ''-'' # show_nat (snd r))"

fun show_cpulist :: "(nat \<times> nat) list \<Rightarrow> string" where
  "show_cpulist [] = [CHR 0x0A]"
| "show_cpulist [r] = show_range r @ [CHR 0x0A]"
| "show_cpulist (r # rs) = show_range r @ CHR '','' # show_cpulist rs"

definition is_digit :: "char \<Rightarrow> bool" where
  "is_digit c \<longleftrightarrow> 48 \<le> (of_char c :: nat) \<and> of_char c \<le> (57 :: nat)"

lemma digit_of_char [simp]: "d < 10 \<Longrightarrow> digit_of (char_of (d + 48)) = Some d"
  by (simp add: digit_of_def)

lemma is_digit_char [simp]: "(d :: nat) < 10 \<Longrightarrow> is_digit (char_of (d + 48))"
  by (simp add: is_digit_def)

lemma digit_not: "is_digit c \<Longrightarrow> c \<noteq> CHR '','' \<and> c \<noteq> CHR ''-'' \<and> c \<noteq> CHR ''+'' \<and> \<not> is_space c"
  by (auto simp: is_digit_def is_space_def)

lemma show_nat_digits: "show_nat n \<noteq> [] \<and> (\<forall>c \<in> set (show_nat n). is_digit c)"
proof (induction n rule: show_nat.induct)
  case (1 n)
  show ?case using 1 by (subst (1 2) show_nat.simps) auto
qed

lemma digits_from_append:
  assumes "\<forall>c \<in> set xs. is_digit c" and "xs \<noteq> []"
  shows "digits_from b acc (xs @ ys) = (case digits_from b acc xs of None \<Rightarrow> None | Some n \<Rightarrow> digits_from True n ys)"
  using assms
proof (induction xs arbitrary: b acc)
  case (Cons c cs)
  then obtain d where "digit_of c = Some d" by (auto simp: digit_of_def is_digit_def)
  then show ?case using Cons by (cases "cs = []") simp_all
qed simp

lemma digits_show: "digits_from b 0 (show_nat n) = Some n"
proof (induction n arbitrary: b rule: show_nat.induct)
  case (1 n)
  show ?case
  proof (cases "n < 10")
    case True
    then show ?thesis by (subst show_nat.simps) simp
  next
    case False
    then have "digits_from b 0 (show_nat (n div 10)) = Some (n div 10)" using 1 by simp
    then show ?thesis using False show_nat_digits [of "n div 10"] by (subst show_nat.simps) (simp add: digits_from_append)
  qed
qed

lemma drop_unspaced: "(\<forall>c \<in> set s. \<not> is_space c) \<Longrightarrow> dropWhile is_space s = s"
  by (cases s) simp_all

lemma strip_unspaced: "(\<forall>c \<in> set s. \<not> is_space c) \<Longrightarrow> strip s = s"
  by (simp add: strip_def drop_unspaced)

lemma strip_newline:
  assumes "\<forall>c \<in> set s. \<not> is_space c" and "s \<noteq> []"
  shows "strip (s @ [CHR 0x0A]) = s"
proof -
  have "dropWhile is_space (s @ [CHR 0x0A]) = s @ [CHR 0x0A]" using assms by (cases s) simp_all
  moreover have "is_space (CHR 0x0A)" by (simp add: is_space_def)
  ultimately show ?thesis using assms(1) by (simp add: strip_def drop_unspaced)
qed

lemma py_int_show [simp]: "py_int (show_nat n) = Some (int n)"
proof -
  obtain c cs where c: "show_nat n = c # cs" using show_nat_digits [of n] by (cases "show_nat n") auto
  moreover have "strip (show_nat n) = show_nat n" using show_nat_digits [of n] digit_not by (intro strip_unspaced) blast
  moreover have "c \<noteq> CHR ''-''" "c \<noteq> CHR ''+''" using show_nat_digits [of n] digit_not [of c] c by auto
  ultimately show ?thesis using digits_show [of False n] by (simp add: py_int_def)
qed

lemma show_range_chars: "c \<in> set (show_range r) \<Longrightarrow> is_digit c \<or> c = CHR ''-''"
  using show_nat_digits [of "fst r"] show_nat_digits [of "snd r"] by (auto simp: show_range_def split: if_splits)

lemma show_range_plain:
  assumes "c \<in> set (show_range r)"
  shows "c \<noteq> CHR '','' \<and> \<not> is_space c"
  using show_range_chars [OF assms] by (auto simp: is_space_def is_digit_def)

lemma cpu_part_show:
  assumes "fst r \<le> snd r"
  shows "cpu_part (show_range r) = Some [int (fst r)..int (snd r)]"
proof (cases "fst r = snd r")
  case True
  moreover have "CHR ''-'' \<notin> set (show_nat n)" for n using show_nat_digits [of n] digit_not by blast
  ultimately show ?thesis by (simp add: cpu_part_def show_range_def)
next
  case False
  have no: "\<forall>c \<in> set (show_nat n). c \<noteq> CHR ''-''" for n using show_nat_digits [of n] digit_not by blast
  then have "takeWhile (\<lambda>c. c \<noteq> CHR ''-'') (show_nat a @ CHR ''-'' # ys) = show_nat a"
    "dropWhile (\<lambda>c. c \<noteq> CHR ''-'') (show_nat a @ CHR ''-'' # ys) = CHR ''-'' # ys" for a ys
    by (simp_all add: takeWhile_append2 dropWhile_append2)
  then show ?thesis using False by (simp add: cpu_part_def show_range_def)
qed

lemma split_on_plain: "c \<notin> set s \<Longrightarrow> split_on c s = [s]"
  by (induction s) auto

lemma split_on_step: "c \<notin> set s \<Longrightarrow> split_on c (s @ c # t) = s # split_on c t"
  by (induction s) auto

fun joined :: "(nat \<times> nat) list \<Rightarrow> string" where
  "joined [] = []"
| "joined [r] = show_range r"
| "joined (r # rs) = show_range r @ CHR '','' # joined rs"

lemma show_joined: "show_cpulist rs = joined rs @ [CHR 0x0A]"
  by (induction rs rule: joined.induct) simp_all

lemma split_joined: "rs \<noteq> [] \<Longrightarrow> split_on (CHR '','') (joined rs) = map show_range rs"
proof (induction rs rule: joined.induct)
  case (2 r)
  have "CHR '','' \<notin> set (show_range r)" using show_range_plain by blast
  then show ?case by (simp add: split_on_plain)
next
  case (3 r r' rs)
  have "CHR '','' \<notin> set (show_range r)" using show_range_plain by blast
  then show ?case using 3 by (simp add: split_on_step)
qed simp

lemma comma_unspaced [simp]: "\<not> is_space (CHR '','')"
  by (simp add: is_space_def)

lemma joined_unspaced: "c \<in> set (joined rs) \<Longrightarrow> \<not> is_space c"
  by (induction rs rule: joined.induct) (auto dest: show_range_plain)

text \<open>
  C39: the parser reads back what the kernel writes: for any list of ranges in the format of
  \<^verbatim>\<open>cpulist\<close>, single cores and ranges mixed, the result are exactly the cores of the ranges, sorted.
\<close>

theorem cpulist_roundtrip:
  assumes "rs \<noteq> []" and "\<And>r. r \<in> set rs \<Longrightarrow> fst r \<le> snd r"
  shows "get_numa_cpus (Some (show_cpulist rs)) = sort (concat (map (\<lambda>r. [int (fst r)..int (snd r)]) rs))"
proof -
  have "joined rs \<noteq> []" using assms(1) show_nat_digits by (cases rs rule: joined.cases) (auto simp: show_range_def)
  then have "strip (show_cpulist rs) = joined rs" using joined_unspaced by (simp add: show_joined strip_newline)
  moreover have "cpu_parts (map show_range rs) = Some (concat (map (\<lambda>r. [int (fst r)..int (snd r)]) rs))"
    using assms(2) by (induction rs) (simp_all add: cpu_part_show)
  ultimately show ?thesis using assms(1) by (simp add: get_numa_cpus_def split_joined)
qed

theorem cpulist_roundtrip_witness: "get_numa_cpus (Some (''0-2,8,10-11'' @ [CHR 0x0A])) = [0, 1, 2, 8, 10, 11]"
proof -
  have "show_cpulist [(0, 2), (8, 8), (10, 11)] = ''0-2,8,10-11'' @ [CHR 0x0A]" by code_simp
  moreover have "sort (concat (map (\<lambda>r. [int (fst r)..int (snd r)]) [(0 :: nat, 2 :: nat), (8, 8), (10, 11)])) = [0, 1, 2, 8, 10, 11]"
    by code_simp
  moreover have "get_numa_cpus (Some (show_cpulist [(0, 2), (8, 8), (10, 11)]))
      = sort (concat (map (\<lambda>r. [int (fst r)..int (snd r)]) [(0 :: nat, 2 :: nat), (8, 8), (10, 11)]))"
    by (rule cpulist_roundtrip) auto
  ultimately show ?thesis by (simp only:)
qed

end
