(* ===== verification/DeviceNode.thy ===== *)
theory DeviceNode
  imports CpuSets "HOL-Library.Char_ord" "HOL-Library.List_Lexorder" "HOL-Library.Sublist"
begin

text \<open>
  The NUMA node of a rank's GPU: the lookup of \<^verbatim>\<open>src/smartnic_offload/run_zero.py\<close> that chooses the
  cores \<open>CpuSets\<close> shares out. The management library gives the address of the device, or PyTorch the
  number of its bus; the kernel's directory of devices is an argument, a list of names with the
  content of the file \<^verbatim>\<open>numa_node\<close> of each.
\<close>

section \<open>Addresses\<close>

definition hex_char :: "nat \<Rightarrow> char" where
  "hex_char d = (if d < 10 then char_of (48 + d) else char_of (87 + d))"

fun hex_digits :: "nat \<Rightarrow> string" where
  "hex_digits n = (if n < 16 then [hex_char n] else hex_digits (n div 16) @ [hex_char (n mod 16)])"

declare hex_digits.simps [simp del]

text \<open>The format \<^verbatim>\<open>02x\<close>.\<close>

definition bus_hex :: "nat \<Rightarrow> string" where
  "bus_hex n = (let s = hex_digits n in if length s < 2 then CHR ''0'' # s else s)"

definition is_hex :: "char \<Rightarrow> bool" where
  "is_hex c \<longleftrightarrow> c \<in> set ''0123456789abcdefABCDEF''"

definition lower_hex :: "char \<Rightarrow> char" where
  "lower_hex c = (if c \<in> set ''ABCDEF'' then char_of ((of_char c :: nat) + 32) else c)"

text \<open>The regular expression of an address; \<^verbatim>\<open>$\<close> also matches before a newline at the end.\<close>

definition bdf_match :: "string \<Rightarrow> string option" where
  "bdf_match s =
     (let t = (if s \<noteq> [] \<and> last s = CHR 0x0A then butlast s else s) in
      if length t = 12 \<and> list_all is_hex (take 4 t) \<and> t ! 4 = CHR '':'' \<and> list_all is_hex (take 2 (drop 5 t)) \<and> t ! 7 = CHR '':''
        \<and> list_all is_hex (take 2 (drop 8 t)) \<and> t ! 10 = CHR ''.'' \<and> t ! 11 \<in> set ''01234567''
      then Some t else None)"

text \<open>\<open>None\<close>: the library is missing or fails.\<close>

definition nvml_try_get_bus_id :: "string option \<Rightarrow> string" where
  "nvml_try_get_bus_id bus_id =
     (case bus_id of
        None \<Rightarrow> []
      | Some s \<Rightarrow>
          let b = (if prefix ''00000000:'' s then ''0000:'' @ drop 9 s else s)
          in case bdf_match b of None \<Rightarrow> b | Some t \<Rightarrow> map lower_hex t)"

section \<open>The node\<close>

type_synonym sysfs = "(string \<times> string option) list"

definition numa_of :: "sysfs \<Rightarrow> string \<Rightarrow> int" where
  "numa_of devices d = read_first_int (case map_of devices d of None \<Rightarrow> None | Some file \<Rightarrow> file) (- 1)"

definition contains :: "string \<Rightarrow> string \<Rightarrow> bool" where
  "contains p s \<longleftrightarrow> list_ex (prefix p) (suffixes s)"

definition candidates :: "sysfs \<Rightarrow> nat \<Rightarrow> string list" where
  "candidates devices bus_dec = filter (contains ('':'' @ bus_hex bus_dec @ '':'')) (map fst devices)"

definition sysfs_find_bdf_by_bus_only :: "sysfs \<Rightarrow> nat \<Rightarrow> string" where
  "sysfs_find_bdf_by_bus_only devices bus_dec =
     (let cands = sort (candidates devices bus_dec) in
      if cands = [] then []
      else case filter (\<lambda>p. 0 \<le> numa_of devices p) cands of p # _ \<Rightarrow> p | [] \<Rightarrow> hd cands)"

definition get_gpu_numa_node :: "string option \<Rightarrow> sysfs \<Rightarrow> nat option \<Rightarrow> int" where
  "get_gpu_numa_node bus_id devices pci_bus_id =
     (let bdf = nvml_try_get_bus_id bus_id in
      if bdf \<noteq> [] \<and> bdf \<in> fst ` set devices then numa_of devices bdf
      else case pci_bus_id of
             None \<Rightarrow> - 1
           | Some n \<Rightarrow> let bdf2 = sysfs_find_bdf_by_bus_only devices n in if bdf2 \<noteq> [] then numa_of devices bdf2 else - 1)"

section \<open>What the lookup finds\<close>

text \<open>
  The library's address, which has eight digits of domain and may be upper case, becomes the kernel's
  name of the device.
\<close>

theorem nvml_address_normalised:
  assumes "bdf_match (''0000:'' @ s) = Some (''0000:'' @ s)"
  shows "nvml_try_get_bus_id (Some (''00000000:'' @ s)) = ''0000:'' @ map lower_hex s"
  using assms by (simp add: nvml_try_get_bus_id_def lower_hex_def)

text \<open>An address in another domain is left as it is and names no device; then the bus number decides.\<close>

lemma other_domain_kept: "nvml_try_get_bus_id (Some ''00000001:65:00.0'') = ''00000001:65:00.0''"
  by code_simp

lemma other_domain_wrong_node:
  "get_gpu_numa_node (Some ''00000001:65:00.0'') [(''0000:65:00.0'', Some ''0''), (''0001:65:00.0'', Some ''1'')] (Some 101) = 0"
  by code_simp

text \<open>
  By the bus number alone, a node is found exactly when a device of the bus has one, and it is the node
  of such a device.
\<close>

lemma candidate_named: "d \<in> set (candidates devices n) \<Longrightarrow> d \<noteq> []"
  by (auto simp: candidates_def contains_def)

lemma filter_head: "filter P xs = y # ys \<Longrightarrow> y \<in> set xs \<and> P y"
proof -
  assume "filter P xs = y # ys"
  then have "y \<in> set (filter P xs)" by simp
  then show ?thesis by simp
qed

lemma found_device:
  assumes "candidates devices n \<noteq> []"
  defines "f \<equiv> sysfs_find_bdf_by_bus_only devices n"
  shows "f \<in> set (candidates devices n) \<and> ((\<exists>d \<in> set (candidates devices n). 0 \<le> numa_of devices d) \<longrightarrow> 0 \<le> numa_of devices f)"
proof (cases "filter (\<lambda>p. 0 \<le> numa_of devices p) (sort (candidates devices n))")
  case Nil
  have ne: "sort (candidates devices n) \<noteq> []" using assms(1) by (metis set_empty set_sort)
  then have "f = hd (sort (candidates devices n))" using Nil by (simp add: f_def sysfs_find_bdf_by_bus_only_def)
  then show ?thesis using Nil hd_in_set [OF ne] by (auto simp: filter_empty_conv)
next
  case (Cons p ps)
  have "sort (candidates devices n) \<noteq> []" using assms(1) by (metis set_empty set_sort)
  then have "f = p" using Cons by (simp add: f_def sysfs_find_bdf_by_bus_only_def)
  then show ?thesis using filter_head [OF Cons] by simp
qed

lemma node_of_found:
  "get_gpu_numa_node None devices (Some n)
    = (if candidates devices n = [] then - 1 else numa_of devices (sysfs_find_bdf_by_bus_only devices n))"
proof (cases "candidates devices n = []")
  case True
  then show ?thesis by (simp add: get_gpu_numa_node_def nvml_try_get_bus_id_def sysfs_find_bdf_by_bus_only_def)
next
  case False
  then have "sysfs_find_bdf_by_bus_only devices n \<noteq> []" using found_device candidate_named by blast
  then show ?thesis using False by (simp add: get_gpu_numa_node_def nvml_try_get_bus_id_def)
qed

theorem node_by_bus:
  "0 \<le> get_gpu_numa_node None devices (Some n) \<longleftrightarrow> (\<exists>d \<in> set (candidates devices n). 0 \<le> numa_of devices d)"
  "0 \<le> get_gpu_numa_node None devices (Some n) \<Longrightarrow>
     \<exists>d \<in> set (candidates devices n). get_gpu_numa_node None devices (Some n) = numa_of devices d"
  unfolding node_of_found using found_device [of devices n] by (force split: if_splits)+

end
