(* ===== verification/RunMeasure.thy ===== *)
theory RunMeasure
  imports Complex_Main Prelude
begin

text \<open>
  Measuring a run: the throughput meter, the wall-clock timer, the memory report and the evaluation
  of \<^verbatim>\<open>src/common/utils.py\<close>, and the measurement window of the training loop of
  \<^verbatim>\<open>src/smartnic_offload/run_zero.py\<close>. Floating point numbers are reals, the clock is an argument.
\<close>

section \<open>The throughput meter\<close>

record meter_row =
  r_steps :: nat
  r_sps :: real
  r_avg :: real
  r_p50 :: real
  r_p95 :: real
  r_max :: real

record meter =
  warmup_steps :: nat
  steps_per_output :: int
  skipped_steps :: nat
  warmup_done :: bool
  m_steps :: nat
  num_samples :: nat
  step_times :: "real list"
  reported :: "meter_row list"

definition meter_start :: "nat \<Rightarrow> int \<Rightarrow> meter" where
  "meter_start w per_output = \<lparr>warmup_steps = w, steps_per_output = per_output, skipped_steps = 0, warmup_done = False,
     m_steps = 0, num_samples = 0, step_times = [], reported = []\<rparr>"

definition meter_compute :: "meter \<Rightarrow> (real \<times> real) result" where
  "meter_compute m =
     (if m_steps m = 0 then Inr (0, 0)
      else let total_time = sum_list (step_times m) in
        if total_time = 0 then Inl ZeroDivisionError
        else Inr (real (num_samples m) / total_time, total_time / real (m_steps m)))"

definition median :: "real list \<Rightarrow> real" where
  "median xs = (let n = length xs in if odd n then xs ! (n div 2) else (xs ! (n div 2 - 1) + xs ! (n div 2)) / 2)"

text \<open>\<^verbatim>\<open>int(n * 0.95) - 1\<close> is at least \<open>0\<close> for two samples or more; the product is exact where it is whole.\<close>

definition percentiles :: "meter \<Rightarrow> real \<times> real \<times> real" where
  "percentiles m =
     (if step_times m = [] then (0, 0, 0)
      else let xs = sort (step_times m); n = length xs in
        (median xs, if n > 1 then xs ! (n * 95 div 100 - 1) else hd xs, Max (set xs)))"

definition meter_report :: "bool \<Rightarrow> meter \<Rightarrow> meter result" where
  "meter_report rank0 m =
     (if \<not> rank0 then Inr m
      else ebind (meter_compute m) (\<lambda>(sps, avg). case percentiles m of (p50, p95, mx) \<Rightarrow>
        Inr (m\<lparr>reported := reported m @ [\<lparr>r_steps = m_steps m, r_sps = sps, r_avg = avg, r_p50 = p50, r_p95 = p95, r_max = mx\<rparr>]\<rparr>)))"

definition meter_update :: "bool \<Rightarrow> nat \<times> real \<Rightarrow> meter \<Rightarrow> meter result" where
  "meter_update rank0 x m =
     (case x of (batch_size, step_time) \<Rightarrow>
        if \<not> warmup_done m
        then let m1 = m\<lparr>skipped_steps := skipped_steps m + 1\<rparr> in
          if skipped_steps m1 \<ge> warmup_steps m1
          then Inr (m1\<lparr>warmup_done := True, m_steps := 0, num_samples := 0, step_times := []\<rparr>)
          else Inr m1
        else let m1 = m\<lparr>num_samples := num_samples m + batch_size, m_steps := m_steps m + 1, step_times := step_times m @ [step_time]\<rparr> in
          if steps_per_output m1 > 0 \<and> int (m_steps m1) mod steps_per_output m1 = 0 then meter_report rank0 m1 else Inr m1)"

definition step_timer :: "bool \<Rightarrow> nat \<Rightarrow> real \<Rightarrow> real \<Rightarrow> meter \<Rightarrow> meter result" where
  "step_timer rank0 batch_size enter exit m = meter_update rank0 (batch_size, exit - enter) m"

section \<open>The wall-clock timer\<close>

record wtimer =
  t_elapsed :: real
  t_started :: bool
  start_time :: real

definition new_timer :: "real \<Rightarrow> wtimer" where
  "new_timer now = \<lparr>t_elapsed = 0, t_started = False, start_time = now\<rparr>"

definition timer_start :: "real \<Rightarrow> wtimer \<Rightarrow> wtimer result" where
  "timer_start now t = ebind (assert_that (\<not> t_started t)) (\<lambda>_. Inr (t\<lparr>start_time := now, t_started := True\<rparr>))"

definition timer_stop :: "real \<Rightarrow> wtimer \<Rightarrow> wtimer result" where
  "timer_stop now t = ebind (assert_that (t_started t)) (\<lambda>_. Inr (t\<lparr>t_elapsed := t_elapsed t + (now - start_time t), t_started := False\<rparr>))"

definition timer_reset :: "wtimer \<Rightarrow> wtimer" where
  "timer_reset t = t\<lparr>t_elapsed := 0, t_started := False\<rparr>"

text \<open>The clock is read once by the stop and once by the start.\<close>

definition timer_elapsed :: "bool \<Rightarrow> real \<Rightarrow> real \<Rightarrow> wtimer \<Rightarrow> (real \<times> wtimer) result" where
  "timer_elapsed reset now1 now2 t =
     ebind (if t_started t then timer_stop now1 t else Inr t) (\<lambda>t1.
     let t2 = (if reset then timer_reset t1 else t1) in
     ebind (if t_started t then timer_start now2 t2 else Inr t2) (\<lambda>t3. Inr (t_elapsed t1, t3)))"

section \<open>Memory\<close>

record mtensor =
  mt_numel :: nat
  mt_element_size :: nat
  mt_cuda :: "nat option"

definition tensor_bytes :: "mtensor \<Rightarrow> nat" where
  "tensor_bytes t = mt_numel t * mt_element_size t"

record mem_parts =
  alloc_b :: nat
  params_b :: nat
  grads_b :: nat
  buffers_b :: nat
  other_b :: nat

text \<open>In bytes; the report divides by \<^verbatim>\<open>1024 ** 3\<close>. The gradients of the device's parameters count wherever on a GPU they are.\<close>

definition gpu_memory_breakdown :: "nat \<Rightarrow> nat \<Rightarrow> (mtensor \<times> mtensor option) list \<Rightarrow> mtensor list \<Rightarrow> mem_parts" where
  "gpu_memory_breakdown dev alloc params bufs =
     (let here = filter (\<lambda>(p, g). mt_cuda p = Some dev) params;
          pb = sum_list (map (\<lambda>(p, g). tensor_bytes p) here);
          gb = sum_list (map (\<lambda>(p, g). case g of None \<Rightarrow> 0 | Some t \<Rightarrow> if mt_cuda t \<noteq> None then tensor_bytes t else 0) here);
          bb = sum_list (map tensor_bytes (filter (\<lambda>b. mt_cuda b = Some dev) bufs))
      in \<lparr>alloc_b = alloc, params_b = pb, grads_b = gb, buffers_b = bb, other_b = alloc - (pb + gb + bb)\<rparr>)"

section \<open>Evaluation\<close>

text \<open>
  A batch is a list of pairs of an output and a label; \<open>crit\<close> is the loss of one sample, of which the
  criterion takes the mean, and \<open>argmax\<close> the predicted class.
\<close>

definition batch_loss :: "('o \<Rightarrow> nat \<Rightarrow> real) \<Rightarrow> ('o \<times> nat) list \<Rightarrow> real" where
  "batch_loss crit b = (\<Sum>(out, y) \<leftarrow> b. crit out y) / real (length b)"

definition correct :: "('o \<Rightarrow> nat) \<Rightarrow> ('o \<times> nat) list \<Rightarrow> nat" where
  "correct argmax b = length (filter (\<lambda>(out, y). argmax out = y) b)"

definition accuracy :: "('o \<Rightarrow> nat) \<Rightarrow> ('o \<times> nat) list \<Rightarrow> real result" where
  "accuracy argmax b = (if b = [] then Inl ZeroDivisionError else Inr (real (correct argmax b) / real (length b)))"

definition evaluate :: "('o \<Rightarrow> nat \<Rightarrow> real) \<Rightarrow> ('o \<Rightarrow> nat) \<Rightarrow> ('o \<times> nat) list list \<Rightarrow> (real \<times> real) result" where
  "evaluate crit argmax dataloader =
     (case fold (\<lambda>b (total_loss, total_acc, count).
             (total_loss + batch_loss crit b * real (length b), total_acc + correct argmax b, count + length b)) dataloader (0, 0, 0) of
        (total_loss, total_acc, count) \<Rightarrow>
          if count = 0 then Inl ZeroDivisionError else Inr (total_loss / real count, real total_acc / real count))"

section \<open>The window of a measurement\<close>

text \<open>
  The counters of the training loop: an iteration is named by its number, its step time is an argument. \<open>captured\<close>
  are the iterations that ran with the profiler on.
\<close>

record run_state =
  global_iter :: nat
  global_step_count :: nat
  epoch_times :: "real list"
  all_times :: "real list"
  profiling :: bool
  captured :: "nat list"

definition run_start :: run_state where
  "run_start = \<lparr>global_iter = 0, global_step_count = 0, epoch_times = [], all_times = [], profiling = False, captured = []\<rparr>"

record window =
  warmup :: nat
  target_iters :: "nat option"
  profile_end :: int

text \<open>\<open>nsys\<close> is the environment's limit on the profiled iterations, by default all measured ones.\<close>

definition measure_window :: "nat option \<Rightarrow> nat option \<Rightarrow> int option \<Rightarrow> nat \<Rightarrow> window" where
  "measure_window measure_iters warmup_iters nsys timing_warmup =
     (case measure_iters of
        None \<Rightarrow> \<lparr>warmup = timing_warmup, target_iters = None, profile_end = 0\<rparr>
      | Some n \<Rightarrow>
          let w = (case warmup_iters of None \<Rightarrow> 0 | Some w \<Rightarrow> w);
              p = (case nsys of None \<Rightarrow> int n | Some p \<Rightarrow> p)
          in \<lparr>warmup = w, target_iters = Some (w + n), profile_end = int w + min p (int n)\<rparr>)"

definition record_step_time :: "window \<Rightarrow> real \<Rightarrow> run_state \<Rightarrow> run_state" where
  "record_step_time win x s = (if global_step_count s < warmup win then s else s\<lparr>epoch_times := epoch_times s @ [x]\<rparr>)"

text \<open>One iteration; the result also says whether the loop is left.\<close>

definition run_iteration :: "window \<Rightarrow> (nat \<Rightarrow> real) \<Rightarrow> run_state \<Rightarrow> run_state \<times> bool" where
  "run_iteration win dur s =
     (let s1 = (if target_iters win \<noteq> None \<and> global_iter s = warmup win then s\<lparr>profiling := True\<rparr> else s);
          s2 = (if profiling s1 then s1\<lparr>captured := captured s1 @ [global_iter s1]\<rparr> else s1);
          s3 = record_step_time win (dur (global_iter s2)) s2;
          s4 = s3\<lparr>global_step_count := global_step_count s3 + 1, global_iter := global_iter s3 + 1\<rparr>;
          s5 = (if target_iters win \<noteq> None \<and> int (global_iter s4) = profile_end win then s4\<lparr>profiling := False\<rparr> else s4)
      in (s5, case target_iters win of None \<Rightarrow> False | Some n \<Rightarrow> n \<le> global_iter s5))"

fun run_epoch :: "window \<Rightarrow> (nat \<Rightarrow> real) \<Rightarrow> nat \<Rightarrow> run_state \<Rightarrow> run_state" where
  "run_epoch win dur 0 s = s"
| "run_epoch win dur (Suc k) s = (case run_iteration win dur s of (t, stop) \<Rightarrow> if stop then t else run_epoch win dur k t)"

fun run_epochs :: "window \<Rightarrow> (nat \<Rightarrow> real) \<Rightarrow> nat \<Rightarrow> nat \<Rightarrow> run_state \<Rightarrow> run_state" where
  "run_epochs win dur 0 total_steps s = s"
| "run_epochs win dur (Suc e) total_steps s =
     (let t = run_epoch win dur total_steps (s\<lparr>epoch_times := []\<rparr>);
          t = t\<lparr>all_times := all_times t @ epoch_times t\<rparr>
      in if (case target_iters win of None \<Rightarrow> False | Some n \<Rightarrow> n \<le> global_iter t) then t else run_epochs win dur e total_steps t)"

section \<open>Evaluation does not depend on the batches\<close>

lemma sum_list_append_pairs: "(\<Sum>(out, y) \<leftarrow> a @ b. crit out y) = (\<Sum>(out, y) \<leftarrow> a. crit out y) + (\<Sum>(out, y) \<leftarrow> b. crit out y :: real)"
  by simp

lemma evaluate_fold:
  assumes "[] \<notin> set bs"
  shows "fold (\<lambda>b (total_loss, total_acc, count).
             (total_loss + batch_loss crit b * real (length b), total_acc + correct argmax b, count + length b)) bs (l, a, c)
    = (l + (\<Sum>(out, y) \<leftarrow> concat bs. crit out y), a + correct argmax (concat bs), c + length (concat bs))"
  using assms
proof (induction bs arbitrary: l a c)
  case (Cons b bs)
  then have "batch_loss crit b * real (length b) = (\<Sum>(out, y) \<leftarrow> b. crit out y)" by (simp add: batch_loss_def)
  then show ?case using Cons by (simp add: correct_def add.assoc)
qed (simp add: correct_def)

text \<open>
  C40: the evaluation does not depend on how the data is cut into batches: the loss is the mean over
  all samples and the accuracy that of all of them as one batch, although the last batch may be
  smaller; an empty loader raises.
\<close>

theorem evaluation_batch_independent:
  assumes "[] \<notin> set bs"
  shows "evaluate crit argmax bs =
    (if concat bs = [] then Inl ZeroDivisionError
     else ebind (accuracy argmax (concat bs)) (\<lambda>acc. Inr (batch_loss crit (concat bs), acc)))"
proof (cases "concat bs = []")
  case True
  then show ?thesis unfolding evaluate_def evaluate_fold [OF assms] by (simp only: list.size) simp
next
  case False
  then have "length (concat bs) \<noteq> 0" by (simp only: length_0_conv) simp
  then have "evaluate crit argmax bs = Inr ((\<Sum>(out, y) \<leftarrow> concat bs. crit out y) / real (length (concat bs)),
      real (correct argmax (concat bs)) / real (length (concat bs)))"
    unfolding evaluate_def evaluate_fold [OF assms] by (simp del: length_concat concat_eq_Nil_conv)
  then show ?thesis using False by (simp add: accuracy_def batch_loss_def del: length_concat concat_eq_Nil_conv)
qed

theorem evaluation_batch_independent_witness:
  "evaluate (\<lambda>out y. out - real y) (\<lambda>out. 1) [[(3, 1), (5, 1)], [(4, 0)]] = Inr (10 / 3, 2 / 3)"
  by (subst evaluation_batch_independent) (simp_all add: accuracy_def batch_loss_def correct_def)

section \<open>The throughput meter counts what comes after the warm-up\<close>

text \<open>The row of a report after the updates \<open>ys\<close>.\<close>

definition row_ok :: "(nat \<times> real) list \<Rightarrow> meter_row \<Rightarrow> bool" where
  "row_ok ys row \<longleftrightarrow> r_steps row = length ys
     \<and> r_sps row = real (sum_list (map fst ys)) / sum_list (map snd ys) \<and> r_avg row = sum_list (map snd ys) / real (length ys)"

definition meter_holds :: "nat \<Rightarrow> nat \<Rightarrow> (nat \<times> real) list \<Rightarrow> meter \<Rightarrow> bool" where
  "meter_holds w k xs m \<longleftrightarrow> warmup_steps m = w \<and> steps_per_output m = int k
     \<and> (if length xs < max 1 w then \<not> warmup_done m \<and> skipped_steps m = length xs \<and> reported m = []
        else let ys = drop (max 1 w) xs in warmup_done m \<and> m_steps m = length ys
          \<and> num_samples m = sum_list (map fst ys) \<and> step_times m = map snd ys
          \<and> list_all2 row_ok (if k = 0 then [] else map (\<lambda>j. take (Suc j * k) ys) [0..<length ys div k]) (reported m))"

lemma sum_positive: "(\<forall>y \<in> set ys. 0 < snd y) \<Longrightarrow> ys \<noteq> [] \<Longrightarrow> 0 < (\<Sum>y \<leftarrow> ys. snd y :: real)"
proof (induction ys)
  case (Cons y ys)
  then show ?case by (cases "ys = []") (auto intro: add_pos_pos)
qed simp

lemma meter_holdsI:
  assumes "\<not> length xs < max 1 w" and "drop (max 1 w) xs = ys" and "warmup_steps m = w" and "steps_per_output m = int k"
    and "warmup_done m" and "m_steps m = length ys" and "num_samples m = sum_list (map fst ys)" and "step_times m = map snd ys"
    and "list_all2 row_ok (if k = 0 then [] else map (\<lambda>j. take (Suc j * k) ys) [0..<length ys div k]) (reported m)"
  shows "meter_holds w k xs m"
  unfolding meter_holds_def if_not_P [OF assms(1)] assms(2) Let_def using assms(3-) by blast

lemma report_row:
  assumes "m_steps m \<noteq> 0" and "sum_list (step_times m) \<noteq> 0"
  shows "\<exists>row. meter_report True m = Inr (m\<lparr>reported := reported m @ [row]\<rparr>) \<and> r_steps row = m_steps m
    \<and> r_sps row = real (num_samples m) / sum_list (step_times m) \<and> r_avg row = sum_list (step_times m) / real (m_steps m)"
  using assms by (cases "percentiles m") (simp add: meter_report_def meter_compute_def Let_def, intro exI conjI, rule refl, simp_all)

text \<open>The complete groups of \<open>k\<close> updates so far: one more update completes at most one more of them.\<close>

definition prefixes_by :: "nat \<Rightarrow> 'b list \<Rightarrow> 'b list list" where
  "prefixes_by k ys = (if k = 0 then [] else map (\<lambda>j. take (Suc j * k) ys) [0..<length ys div k])"

lemma prefixes_by_snoc:
  "prefixes_by k (ys @ [x]) = prefixes_by k ys @ (if 0 < k \<and> Suc (length ys) mod k = 0 then [ys @ [x]] else [])"
proof (cases "k = 0")
  case False
  have old: "map (\<lambda>j. take (Suc j * k) (ys @ [x])) [0..<length ys div k] = map (\<lambda>j. take (Suc j * k) ys) [0..<length ys div k]"
  proof (rule map_cong [OF refl])
    fix j
    assume "j \<in> set [0..<length ys div k]"
    then have "Suc j * k \<le> length ys" using False by (metis Suc_leI atLeastLessThan_iff div_times_less_eq_dividend mult_le_mono1 order_trans set_upt)
    then show "take (Suc j * k) (ys @ [x]) = take (Suc j * k) ys" by simp
  qed
  show ?thesis
  proof (cases "Suc (length ys) mod k = 0")
    case True
    then have d: "Suc (length ys) div k = Suc (length ys div k)" by (simp add: div_Suc)
    then have "Suc (length ys div k) * k = Suc (length ys)" using True by (metis mod_0_imp_dvd dvd_div_mult_self)
    then have "take (Suc (length ys div k) * k) (ys @ [x]) = ys @ [x]" by simp
    then show ?thesis using False True d old by (simp add: prefixes_by_def)
  next
    case no: False
    then have "Suc (length ys) div k = length ys div k" by (simp add: div_Suc)
    then show ?thesis using False no old by (simp add: prefixes_by_def)
  qed
qed (simp add: prefixes_by_def)

lemma meter_step:
  assumes "meter_holds w k xs m" and "\<forall>y \<in> set (xs @ [x]). 0 < snd y"
  shows "\<exists>m'. meter_update True x m = Inr m' \<and> meter_holds w k (xs @ [x]) m'"
proof (cases "length xs < max 1 w")
  case True
  then show ?thesis using assms(1)
    by (cases x) (auto simp: meter_holds_def meter_update_def Let_def)
next
  case False
  define ys where "ys = drop (max 1 w) xs"
  let ?zs = "ys @ [x]"
  have "max 1 w - length xs = 0" using False by (simp add: not_less)
  then have ds: "drop (max 1 w) (xs @ [x]) = ?zs" by (simp only: drop_append ys_def drop_0)
  have m: "warmup_done m" "m_steps m = length ys" "num_samples m = sum_list (map fst ys)" "step_times m = map snd ys"
    "warmup_steps m = w" "steps_per_output m = int k" "list_all2 row_ok (prefixes_by k ys) (reported m)"
    using assms(1) unfolding meter_holds_def if_not_P [OF False] Let_def ys_def [symmetric] prefixes_by_def by blast+
  let ?m1 = "m\<lparr>num_samples := num_samples m + fst x, m_steps := m_steps m + 1, step_times := step_times m @ [snd x]\<rparr>"
  have upd: "meter_update True x m = (if 0 < k \<and> Suc (length ys) mod k = 0 then meter_report True ?m1 else Inr ?m1)"
    using m(1,2,6) by (cases x) (auto simp: meter_update_def Let_def simp flip: of_nat_mod of_nat_Suc)
  note holds = meter_holdsI [OF _ ds, folded prefixes_by_def]
  show ?thesis
  proof (cases "0 < k \<and> Suc (length ys) mod k = 0")
    case rep: True
    have "0 < sum_list (map snd ?zs)" using assms(2) by (intro sum_positive) (auto simp: ys_def dest: in_set_dropD)
    then obtain row where row: "meter_report True ?m1 = Inr (?m1\<lparr>reported := reported m @ [row]\<rparr>)" "row_ok ?zs row"
      using report_row [of ?m1] m(2-4) by (auto simp: row_ok_def)
    have "list_all2 row_ok (prefixes_by k ?zs) (reported m @ [row])"
      unfolding prefixes_by_snoc if_P [OF rep] using m(7) row(2) by (simp add: list_all2_appendI)
    then have "meter_holds w k (xs @ [x]) (?m1\<lparr>reported := reported m @ [row]\<rparr>)"
      by (intro holds) (use False m in simp_all)
    then show ?thesis unfolding upd if_P [OF rep] row(1) by blast
  next
    case norep: False
    have "list_all2 row_ok (prefixes_by k ?zs) (reported m)"
      unfolding prefixes_by_snoc if_not_P [OF norep] using m(7) by simp
    then have "meter_holds w k (xs @ [x]) ?m1"
      by (intro holds) (use False m in simp_all)
    then show ?thesis unfolding upd if_not_P [OF norep] by blast
  qed
qed

text \<open>
  After any updates with positive times the meter has counted exactly those after the warm-up,
  where a warm-up of no steps still skips one: their number, their samples and their times. Reports
  came after every \<^verbatim>\<open>steps_per_output\<close> of them, each with the throughput and mean time up to it.
\<close>

theorem meter_counts:
  assumes "\<forall>y \<in> set xs. 0 < snd y"
  shows "\<exists>m. foldE (meter_update True) xs (meter_start w (int k)) = Inr m \<and> meter_holds w k xs m"
  using assms
proof (induction xs rule: rev_induct)
  case Nil
  then show ?case by (simp add: meter_holds_def meter_start_def)
next
  case (snoc x xs)
  then obtain m where m: "foldE (meter_update True) xs (meter_start w (int k)) = Inr m" "meter_holds w k xs m" by auto
  then obtain m' where "meter_update True x m = Inr m' \<and> meter_holds w k (xs @ [x]) m'"
    using meter_step [OF m(2)] snoc.prems by blast
  then show ?case using m(1) by (simp add: foldE_append)
qed

theorem meter_counts_witness:
  "\<exists>m. foldE (meter_update True) [(8, 9), (8, 2), (4, 1)] (meter_start 0 (int 2)) = Inr m
    \<and> num_samples m = 12 \<and> m_steps m = 2 \<and> step_times m = [2, 1]"
proof -
  obtain m where "foldE (meter_update True) [(8, 9), (8, 2), (4, 1)] (meter_start 0 (int 2)) = Inr m" "meter_holds 0 2 [(8, 9), (8, 2), (4, 1)] m"
    using meter_counts [of "[(8, 9), (8, 2), (4, 1)]" 0 2] by auto
  then show ?thesis by (intro exI [of _ m]) (simp add: meter_holds_def)
qed

text \<open>The reported 95th percentile of two samples is the smaller one, below their median.\<close>

lemma p95_below_median:
  assumes "step_times m = [a, b]" and "a < b" and "percentiles m = (p50, p95, mx)"
  shows "p95 = a \<and> p95 < p50"
  using assms by (auto simp: percentiles_def median_def)

section \<open>The window\<close>

text \<open>The state after \<open>i\<close> iterations.\<close>

definition at_iteration :: "window \<Rightarrow> nat \<Rightarrow> (nat \<Rightarrow> real) \<Rightarrow> nat \<Rightarrow> run_state \<Rightarrow> bool" where
  "at_iteration win p dur i s \<longleftrightarrow> global_iter s = i \<and> global_step_count s = i
     \<and> all_times s @ epoch_times s = map dur [warmup win..<i]
     \<and> (if target_iters win = None then \<not> profiling s \<and> captured s = []
        else (profiling s \<longleftrightarrow> warmup win < i \<and> i < warmup win + p) \<and> captured s = [warmup win..<min i (warmup win + p)])"

lemma iteration_step:
  assumes "at_iteration win p dur i s" and "0 < p" and "target_iters win = None \<or> profile_end win = int (warmup win + p)"
    and "run_iteration win dur s = (t, stop)"
  shows "at_iteration win p dur (Suc i) t \<and> (stop \<longleftrightarrow> (case target_iters win of None \<Rightarrow> False | Some n \<Rightarrow> n \<le> Suc i))"
proof -
  have times: "map dur [warmup win..<Suc i] = map dur [warmup win..<i] @ (if warmup win \<le> i then [dur i] else [])" by simp
  have window: "[warmup win..<min (Suc i) (warmup win + p)] = [warmup win..<min i (warmup win + p)]
      @ (if warmup win \<le> i \<and> i < warmup win + p then [i] else [])"
    by (cases "i < warmup win + p") (simp_all add: min_absorb2)
  show ?thesis
    using assms unfolding at_iteration_def times window
    by (auto simp: run_iteration_def record_step_time_def Let_def split: if_splits option.splits)
qed

lemma epoch_iterations:
  assumes "at_iteration win p dur i s" and "0 < p" and "target_iters win = None \<or> profile_end win = int (warmup win + p)"
    and "\<And>n. target_iters win = Some n \<Longrightarrow> i < n"
  shows "at_iteration win p dur (case target_iters win of None \<Rightarrow> i + k | Some n \<Rightarrow> min (i + k) n) (run_epoch win dur k s)"
  using assms(1,4)
proof (induction k arbitrary: i s)
  case 0
  then show ?case by (auto split: option.splits)
next
  case (Suc k)
  obtain t stop where t: "run_iteration win dur s = (t, stop)" by fastforce
  note step = iteration_step [OF Suc.prems(1) assms(2,3) t]
  show ?case
  proof (cases "target_iters win")
    case None
    then show ?thesis using Suc.IH [of "Suc i" t] step t by simp
  next
    case (Some n)
    then have "i < n" using Suc.prems(2) by blast
    show ?thesis
    proof (cases "n \<le> Suc i")
      case True
      then have "min (i + Suc k) n = Suc i" using \<open>i < n\<close> by simp
      then show ?thesis using step t Some True by simp
    next
      case False
      then show ?thesis using Suc.IH [of "Suc i" t] step t Some by simp
    qed
  qed
qed

lemma epochs_iterations:
  assumes "at_iteration win p dur i s" and "epoch_times s = []" and "0 < p"
    and "target_iters win = None \<or> profile_end win = int (warmup win + p)"
    and "\<And>n. target_iters win = Some n \<Longrightarrow> i < n"
  shows "\<exists>s'. at_iteration win p dur (case target_iters win of None \<Rightarrow> i + e * k | Some n \<Rightarrow> min (i + e * k) n) s'
    \<and> epoch_times s' = [] \<and> (let r = run_epochs win dur e k s in r\<lparr>epoch_times := []\<rparr> = s')"
  using assms(1,2,5)
proof (induction e arbitrary: i s)
  case 0
  have "s\<lparr>epoch_times := []\<rparr> = s" using 0(2) by simp
  then show ?case using 0 by (intro exI [of _ s]) (auto simp: Let_def split: option.splits)
next
  case (Suc e)
  let ?t = "run_epoch win dur k (s\<lparr>epoch_times := []\<rparr>)"
  let ?u = "?t\<lparr>all_times := all_times ?t @ epoch_times ?t\<rparr>"
  let ?j = "case target_iters win of None \<Rightarrow> i + k | Some n \<Rightarrow> min (i + k) n"
  have "s\<lparr>epoch_times := []\<rparr> = s" using Suc.prems(2) by simp
  then have t: "at_iteration win p dur ?j ?t" using epoch_iterations [OF Suc.prems(1) assms(3,4) Suc.prems(3)] by simp
  then have u: "at_iteration win p dur ?j (?u\<lparr>epoch_times := []\<rparr>)" "global_iter ?u = ?j"
    by (simp_all add: at_iteration_def split: if_splits)
  show ?case
  proof (cases "\<exists>n. target_iters win = Some n \<and> n \<le> ?j")
    case True
    then obtain n where n: "target_iters win = Some n" "n \<le> ?j" by blast
    then have "min (i + Suc e * k) n = ?j" by (auto simp: min_def split: if_splits)
    then show ?thesis using u n by (auto simp: Let_def)
  next
    case False
    have go: "run_epochs win dur (Suc e) k s = run_epochs win dur e k ?u"
      using False u(2) by (auto simp: Let_def split: option.splits)
    have same: "run_epochs win dur e k ?u = run_epochs win dur e k (?u\<lparr>epoch_times := []\<rparr>) \<or> e = 0"
      by (cases e) (simp_all add: Let_def)
    have lt: "\<And>n. target_iters win = Some n \<Longrightarrow> ?j < n" using False by auto
    have "\<exists>s'. at_iteration win p dur (case target_iters win of None \<Rightarrow> ?j + e * k | Some n \<Rightarrow> min (?j + e * k) n) s'
        \<and> epoch_times s' = [] \<and> (let r = run_epochs win dur e k (?u\<lparr>epoch_times := []\<rparr>) in r\<lparr>epoch_times := []\<rparr> = s')"
      by (rule Suc.IH [OF u(1) _ lt]) simp_all
    moreover have "(case target_iters win of None \<Rightarrow> ?j + e * k | Some n \<Rightarrow> min (?j + e * k) n)
        = (case target_iters win of None \<Rightarrow> i + Suc e * k | Some n \<Rightarrow> min (i + Suc e * k) n)"
      by (auto simp: min_def split: option.splits)
    ultimately show ?thesis using same unfolding go by (auto simp: Let_def)
  qed
qed

text \<open>
  The measurement window is exact. A measured run of \<open>e\<close> epochs of \<open>k\<close> steps stops after the
  warm-up and the asked number of iterations, or at the end of its data; it has recorded the times
  of exactly the iterations after the warm-up, in order and across the epochs, and the profiler was
  on for exactly the first \<open>p\<close> of them.
\<close>

theorem measurement_window:
  assumes "0 < n" and "0 < p" and "win = measure_window (Some n) w (Some (int p)) tw" and "r = run_epochs win dur e k run_start"
    and "w0 = (case w of None \<Rightarrow> 0 | Some x \<Rightarrow> x)" and "total_iters = min (e * k) (w0 + n)"
  shows "global_iter r = total_iters \<and> all_times r = map dur [w0..<total_iters]
    \<and> captured r = [w0..<min total_iters (w0 + min p n)]"
proof -
  have win: "warmup win = w0" "target_iters win = Some (w0 + n)" "profile_end win = int (warmup win + min p n)"
    using assms(3,5) by (auto simp: measure_window_def Let_def)
  have start: "at_iteration win (min p n) dur 0 run_start" using win assms(1,2) by (auto simp: at_iteration_def run_start_def)
  obtain s' where s': "at_iteration win (min p n) dur total_iters s'" "epoch_times s' = []" "r\<lparr>epoch_times := []\<rparr> = s'"
    using epochs_iterations [OF start, of e k] win assms(1,2,4,6) by (auto simp: run_start_def Let_def)
  then have "all_times r = all_times s'" "captured r = captured s'" "global_iter r = global_iter s'" by auto
  then show ?thesis using s'(1,2) win by (simp add: at_iteration_def)
qed

theorem measurement_window_witness:
  "all_times (run_epochs (measure_window (Some 3) (Some 2) (Some (int 2)) 5) real 4 3 run_start) = [2, 3, 4]
   \<and> captured (run_epochs (measure_window (Some 3) (Some 2) (Some (int 2)) 5) real 4 3 run_start) = [2, 3]"
proof -
  have "all_times (run_epochs (measure_window (Some 3) (Some 2) (Some (int 2)) 5) real 4 3 run_start) = map real [2..<5]
     \<and> captured (run_epochs (measure_window (Some 3) (Some 2) (Some (int 2)) 5) real 4 3 run_start) = [2..<4]"
    using measurement_window [of 3 2 _ "Some 2" 5 _ real 4 3 2 5, OF _ _ refl refl] by simp
  then show ?thesis by (simp add: upt_conv_Cons)
qed

section \<open>The timer\<close>

definition read_timer :: "real \<times> real \<Rightarrow> real list \<times> wtimer \<Rightarrow> (real list \<times> wtimer) result" where
  "read_timer ab s = ebind (timer_elapsed True (fst ab) (snd ab) (snd s)) (\<lambda>(v, t). Inr (fst s @ [v], t))"

text \<open>
  Reading a running timer does not lose time: the readings are the times since the reading before,
  except for what passes within a reading, between its stop and its start.
\<close>

lemma running_readings:
  assumes "t_started t" and "t_elapsed t = 0"
  shows "\<exists>t'. foldE read_timer xs (vs, t) = Inr (vs @ map2 (\<lambda>before ab. fst ab - before) (start_time t # map snd xs) xs, t')
    \<and> t_started t' \<and> t_elapsed t' = 0"
  using assms
proof (induction xs arbitrary: vs t)
  case (Cons x xs)
  define t1 where "t1 = t\<lparr>start_time := snd x\<rparr>"
  have "read_timer x (vs, t) = Inr (vs @ [fst x - start_time t], t1)"
    using Cons.prems by (cases t) (simp add: read_timer_def timer_elapsed_def timer_stop_def timer_reset_def timer_start_def Let_def t1_def)
  moreover have "t_started t1" "t_elapsed t1 = 0" "start_time t1 = snd x" using Cons.prems by (simp_all add: t1_def)
  ultimately show ?case using Cons.IH [of t1 "vs @ [fst x - start_time t]"] by simp
qed auto

text \<open>Nothing of the allocated memory is left out of the breakdown, whatever counts where.\<close>

lemma breakdown_covers:
  "alloc \<le> params_b b + grads_b b + buffers_b b + other_b b" if "b = gpu_memory_breakdown dev alloc params bufs"
  using that by (simp add: gpu_memory_breakdown_def Let_def)

end
