(* ===== verification/RunReport.thy ===== *)
theory RunReport
  imports CommStats SubmoduleTiming CpuSets
begin

text \<open>
  What \<^verbatim>\<open>src/smartnic_offload/run_zero.py\<close> reports of a run: at the end of every epoch the
  communication of that epoch, as differences of the counters of \<open>CommStats\<close>, which are never reset;
  and at the end of the run the times of the modules, from \<open>SubmoduleTiming\<close>.
\<close>

section \<open>The counters of an epoch\<close>

datatype counter = RsMs | RsCalls | AgCalls | FpCalls | GradD2hMs | GradD2hCalls | ParamH2dMs | ParamH2dCalls
  | AgDpuMs | AgBlockMs | AgBytes | FpBytes | FpDmaPollMs

definition counter_value :: "comm_stats \<Rightarrow> counter \<Rightarrow> rat" where
  "counter_value s c =
     (case c of RsMs \<Rightarrow> rs_time_ms s | RsCalls \<Rightarrow> of_nat (rs_calls s) | AgCalls \<Rightarrow> of_nat (ag_calls s)
      | FpCalls \<Rightarrow> of_nat (full_parameter_calls s) | GradD2hMs \<Rightarrow> grad_offload_ms s | GradD2hCalls \<Rightarrow> of_nat (grad_offload_calls s)
      | ParamH2dMs \<Rightarrow> param_shard_h2d_ms s | ParamH2dCalls \<Rightarrow> of_nat (param_shard_h2d_calls s)
      | AgDpuMs \<Rightarrow> ag_dpu_ms s | AgBlockMs \<Rightarrow> ag_block_ms s | AgBytes \<Rightarrow> of_nat (ag_bytes s)
      | FpBytes \<Rightarrow> of_nat (full_parameter_bytes s) | FpDmaPollMs \<Rightarrow> full_parameter_dma_poll_ms s)"

text \<open>The values before the first epoch; those of the bytes are taken to be zero.\<close>

definition counters_start :: "comm_stats \<Rightarrow> counter \<Rightarrow> rat" where
  "counters_start s c = (if c = AgBytes \<or> c = FpBytes then 0 else counter_value s c)"

record epoch_report =
  epoch_delta :: "counter \<Rightarrow> rat"
  epoch_fp_copy_ms :: rat
  epoch_ag :: "(nat \<times> ((nat \<times> nat option) \<times> bucket_row) list \<times> ag_row list) option"
  epoch_rs :: "(nat \<times> rat \<times> rat \<times> rat \<times> rat \<times> rat \<times> rat \<times> rat) option"
  epoch_phases :: "(rat \<times> nat) \<times> (rat \<times> nat)"

text \<open>The time of the copies is zero when the query raises, and its events stay pending.\<close>

definition report_epoch ::
  "(nat \<Rightarrow> nat \<Rightarrow> nat \<Rightarrow> rat option) \<Rightarrow> (counter \<Rightarrow> rat) \<Rightarrow> comm_stats \<Rightarrow> epoch_report \<times> (counter \<Rightarrow> rat) \<times> comm_stats" where
  "report_epoch elapsed prev s =
     (let (copy_ms, s1) = (case get_full_parameter_copy_ms elapsed s of Inl _ \<Rightarrow> (0, s) | Inr r \<Rightarrow> r)
      in (\<lparr>epoch_delta = (\<lambda>c. max 0 (counter_value s c - prev c)), epoch_fp_copy_ms = copy_ms,
           epoch_ag = ag_analysis s1, epoch_rs = rs_analysis s1, epoch_phases = get_ag_phase_stats s1\<rparr>,
          counter_value s, reset_ag_phase_stats (reset_rs_records (reset_ag_records s1))))"

text \<open>What the training does to the counters.\<close>

datatype comm_op = ParamH2d rat | AllGatherDone rat rat rat nat | Phase string | PhaseBlock rat | AgDetail ag_row
  | FullParameter nat nat nat rat | GradOffload rat | ReduceScatterDone rat | RsDetail nat rat rat rat

fun comm_do :: "comm_op \<Rightarrow> comm_stats \<Rightarrow> comm_stats" where
  "comm_do (ParamH2d ms) s = accumulate_param_shard_h2d ms s"
| "comm_do (AllGatherDone t_request t_complete block_ms nbytes) s = accumulate_all_gather t_request t_complete block_ms nbytes s"
| "comm_do (Phase phase) s = set_ag_phase phase s"
| "comm_do (PhaseBlock ms) s = accumulate_phase_block ms s"
| "comm_do (AgDetail r) s = record_ag_detail r s"
| "comm_do (FullParameter a b nbytes ms) s = record_full_parameter_events a b nbytes ms s"
| "comm_do (GradOffload ms) s = accumulate_grad_offload ms s"
| "comm_do (ReduceScatterDone ms) s = accumulate_reduce_scatter ms s"
| "comm_do (RsDetail nbytes total_ms enqueue_ms wait_ms) s = record_rs_detail nbytes total_ms enqueue_ms wait_ms s"

fun report_epochs ::
  "(nat \<Rightarrow> nat \<Rightarrow> nat \<Rightarrow> rat option) \<Rightarrow> comm_op list list \<Rightarrow> (counter \<Rightarrow> rat) \<Rightarrow> comm_stats \<Rightarrow> epoch_report list \<times> comm_stats" where
  "report_epochs elapsed [] prev s = ([], s)"
| "report_epochs elapsed (ops # epochs) prev s =
     (case report_epoch elapsed prev (fold comm_do ops s) of
        (r, prev1, s1) \<Rightarrow> (case report_epochs elapsed epochs prev1 s1 of (rs, s2) \<Rightarrow> (r # rs, s2)))"

section \<open>The summary of the modules\<close>

record phase_row =
  row_seen :: nat
  row_warmup :: nat
  row_count :: nat
  row_total_ms :: real
  row_avg_ms :: real
  row_std_ms :: real
  row_cv :: real
  row_min_ms :: real
  row_p50_ms :: real
  row_p90_ms :: real
  row_p99_ms :: real
  row_max_ms :: real

definition stat_to_dict_ms :: "stat \<Rightarrow> phase_row" where
  "stat_to_dict_ms st =
     \<lparr>row_seen = stat_seen st, row_warmup = warmup_n st, row_count = stat_count st,
      row_total_ms = total_s st * 1000, row_avg_ms = avg_s st * 1000, row_std_ms = std_s st * 1000, row_cv = cv st,
      row_min_ms = (if stat_count st \<noteq> 0 then (case min_s st of None \<Rightarrow> 0 | Some m \<Rightarrow> m * 1000) else 0),
      row_p50_ms = quantile_s (50 / 100) st * 1000, row_p90_ms = quantile_s (90 / 100) st * 1000,
      row_p99_ms = quantile_s (99 / 100) st * 1000, row_max_ms = (if stat_count st \<noteq> 0 then max_s st * 1000 else 0)\<rparr>"

definition report_phases :: "string list" where
  "report_phases = [''fwd_fetch'', ''fwd_wait_stall'', ''fwd_exec'', ''bwd_fetch'', ''bwd_wait_stall'', ''bwd_exec'']"

definition module_key :: "nat \<Rightarrow> (string option \<times> string) option \<Rightarrow> string" where
  "module_key mid info =
     (let (name, cls) = (case info of None \<Rightarrow> ([], []) | Some (nm, c) \<Rightarrow> (case nm of None \<Rightarrow> [] | Some x \<Rightarrow> x, c))
      in ''id='' @ show_nat mid @ '' name='' @ [CHR 0x27] @ name @ [CHR 0x27] @ '' class='' @ [CHR 0x27] @ cls @ [CHR 0x27])"

definition phase_rows :: "((string \<times> nat) \<times> stat) list \<Rightarrow> nat \<Rightarrow> (string \<times> phase_row option) list" where
  "phase_rows stats mid = map (\<lambda>ph. (ph, map_option stat_to_dict_ms (map_of stats (ph, mid)))) report_phases"

definition summarize_by_submodule :: "bool \<Rightarrow> timing \<Rightarrow> (string \<times> (string \<times> phase_row option) list) list \<times> timing" where
  "summarize_by_submodule cuda s =
     (case timing_snapshot cuda True s of
        (stats, s1) \<Rightarrow>
          (fold (\<lambda>mid out. AList.update (module_key mid (get_module_info mid s1)) (phase_rows stats mid) out)
             (sort (remdups (map (\<lambda>((ph, mid), st). mid) stats))) [], s1))"

text \<open>The order of the rows in the output: by the time of the forward pass, the longest first.\<close>

definition fwd_total :: "(string \<times> phase_row option) list \<Rightarrow> real" where
  "fwd_total rows = (case map_of rows ''fwd_exec'' of Some (Some d) \<Rightarrow> row_total_ms d | _ \<Rightarrow> 0)"

definition sorted_summary :: "(string \<times> (string \<times> phase_row option) list) list \<Rightarrow> (string \<times> (string \<times> phase_row option) list) list" where
  "sorted_summary items = sort_key (\<lambda>kv. - fwd_total (snd kv)) items"

section \<open>The epochs add up\<close>

text \<open>A counter never falls: the times an operation adds are not negative.\<close>

fun op_ok :: "comm_op \<Rightarrow> bool" where
  "op_ok (ParamH2d ms) = (0 \<le> ms)"
| "op_ok (AllGatherDone t_request t_complete block_ms nbytes) = (0 \<le> block_ms)"
| "op_ok (FullParameter a b nbytes ms) = (0 \<le> ms)"
| "op_ok (GradOffload ms) = (0 \<le> ms)"
| "op_ok (ReduceScatterDone ms) = (0 \<le> ms)"
| "op_ok (PhaseBlock ms) = True"
| "op_ok (Phase phase) = True"
| "op_ok (AgDetail r) = True"
| "op_ok (RsDetail nbytes total_ms enqueue_ms wait_ms) = True"

lemmas comm_op_defs = accumulate_param_shard_h2d_def accumulate_all_gather_def set_ag_phase_def accumulate_phase_block_def
  record_ag_detail_def record_full_parameter_events_def accumulate_grad_offload_def accumulate_reduce_scatter_def record_rs_detail_def

lemma dpu_time_nonneg: "0 \<le> dpu_time last_complete t_request t_complete"
  by (simp add: dpu_time_def Let_def not_less)

lemma counter_grows: "op_ok op \<Longrightarrow> counter_value s c \<le> counter_value (comm_do op s) c"
  by (cases op; cases c; simp add: comm_op_defs counter_value_def dpu_time_nonneg)

lemma counters_grow: "list_all op_ok ops \<Longrightarrow> counter_value s c \<le> counter_value (fold comm_do ops s) c"
  by (induction ops arbitrary: s) (auto intro: order_trans counter_grows)

lemma copy_keeps_counters:
  "get_full_parameter_copy_ms elapsed s = Inr (ms, t) \<Longrightarrow> counter_value t c = counter_value s c \<and> ag_records t = ag_records s"
  by (auto simp: get_full_parameter_copy_ms_def counter_value_def ebind_eq_Inr_iff split: if_splits counter.split)

lemma report_epoch_fields:
  assumes "report_epoch elapsed prev s = (r, prev1, s1)"
  shows "epoch_delta r = (\<lambda>c. max 0 (counter_value s c - prev c))" and "prev1 = counter_value s"
    and "counter_value s1 c = counter_value s c" and "ag_records s1 = []"
    and "(case epoch_ag r of None \<Rightarrow> 0 | Some (n, _) \<Rightarrow> n) = length (ag_records s)"
proof -
  obtain ms t where t: "(case get_full_parameter_copy_ms elapsed s of Inl _ \<Rightarrow> (0, s) | Inr r \<Rightarrow> r) = (ms, t)"
    by fastforce
  have keep: "counter_value t c = counter_value s c \<and> ag_records t = ag_records s" for c
    using t copy_keeps_counters by (cases "get_full_parameter_copy_ms elapsed s") auto
  have r: "r = \<lparr>epoch_delta = (\<lambda>c. max 0 (counter_value s c - prev c)), epoch_fp_copy_ms = ms,
           epoch_ag = ag_analysis t, epoch_rs = rs_analysis t, epoch_phases = get_ag_phase_stats t\<rparr>"
    "prev1 = counter_value s" "s1 = reset_ag_phase_stats (reset_rs_records (reset_ag_records t))"
    using assms by (auto simp: report_epoch_def t)
  show "epoch_delta r = (\<lambda>c. max 0 (counter_value s c - prev c))" "prev1 = counter_value s" using r by simp_all
  have "counter_value s1 c = counter_value t c"
    by (simp add: r(3) reset_ag_phase_stats_def reset_rs_records_def reset_ag_records_def counter_value_def split: counter.split)
  then show "counter_value s1 c = counter_value s c" using keep by simp
  show "ag_records s1 = []" by (simp add: r(3) reset_ag_phase_stats_def reset_rs_records_def reset_ag_records_def)
  show "(case epoch_ag r of None \<Rightarrow> 0 | Some (n, _) \<Rightarrow> n) = length (ag_records s)"
    using keep by (simp add: r(1) ag_analysis_def Let_def)
qed

definition details :: "comm_op list \<Rightarrow> nat" where
  "details ops = length (filter (\<lambda>op. case op of AgDetail r \<Rightarrow> True | _ \<Rightarrow> False) ops)"

lemma details_recorded: "length (ag_records (fold comm_do ops s)) = length (ag_records s) + details ops"
proof (induction ops arbitrary: s)
  case (Cons op ops)
  then show ?case by (cases op) (simp_all add: comm_op_defs details_def)
qed (simp add: details_def)

text \<open>
  The reports of the epochs lose nothing and count nothing twice: the differences of a counter add up
  to its growth over the run, and the epochs list as many all-gathers as were recorded.
\<close>

theorem epoch_reports_add_up:
  assumes "list_all (list_all op_ok) epochs" and "prev c \<le> counter_value s c"
  shows "let (rs, t) = report_epochs elapsed epochs prev s in
      length rs = length epochs
    \<and> (epochs \<noteq> [] \<longrightarrow> (\<Sum>r \<leftarrow> rs. epoch_delta r c) = counter_value t c - prev c)
    \<and> (epochs \<noteq> [] \<longrightarrow> (\<Sum>r \<leftarrow> rs. case epoch_ag r of None \<Rightarrow> 0 | Some (n, _) \<Rightarrow> n)
          = length (ag_records s) + sum_list (map details epochs))"
  using assms
proof (induction epochs arbitrary: prev s)
  case (Cons ops epochs)
  obtain r prev1 s1 where e: "report_epoch elapsed prev (fold comm_do ops s) = (r, prev1, s1)" by (metis prod_cases3)
  note f = report_epoch_fields [OF e]
  obtain rs t where rs: "report_epochs elapsed epochs prev1 s1 = (rs, t)" by fastforce
  have "prev c \<le> counter_value (fold comm_do ops s) c"
    using Cons.prems counters_grow [of ops s c] by (auto intro: order_trans)
  then have d: "epoch_delta r c = counter_value (fold comm_do ops s) c - prev c" by (simp add: f(1))
  have "let (rs, t) = report_epochs elapsed epochs prev1 s1 in
      length rs = length epochs \<and> (epochs \<noteq> [] \<longrightarrow> (\<Sum>r \<leftarrow> rs. epoch_delta r c) = counter_value t c - prev1 c)
    \<and> (epochs \<noteq> [] \<longrightarrow> (\<Sum>r \<leftarrow> rs. case epoch_ag r of None \<Rightarrow> 0 | Some (n, _) \<Rightarrow> n) = length (ag_records s1) + sum_list (map details epochs))"
    using Cons.prems f(2,3) by (intro Cons.IH) simp_all
  then show ?case
    using e rs d f(2-5) details_recorded [of ops s] by (cases epochs) (auto simp: Let_def)
qed simp

text \<open>
  Started as the run starts it, what was gathered before the first epoch is in the first report for
  the bytes, and in none for the calls.
\<close>

lemma bytes_before_the_run_counted:
  "map (\<lambda>r. (epoch_delta r AgCalls, epoch_delta r AgBytes)) (fst (report_epochs (\<lambda>_ _ _. None) [[]]
     (counters_start (accumulate_all_gather 0 1 0 64 init_stats)) (accumulate_all_gather 0 1 0 64 init_stats))) = [(0, 64)]"
  by (simp add: report_epoch_def get_full_parameter_copy_ms_def counters_start_def counter_value_def accumulate_all_gather_def init_stats_def)

section \<open>No module is missing from the summary\<close>

lemma show_nat_inj: "show_nat a = show_nat b \<longleftrightarrow> a = b"
  by (metis of_nat_eq_iff option.inject py_int_show)

lemma digits_prefix:
  assumes "list_all is_digit xs" "list_all is_digit ys" "\<not> is_digit c" "xs @ c # us = ys @ c # vs"
  shows "xs = ys"
  using assms by (induction xs arbitrary: ys) (case_tac ys; auto)+

lemma module_key_inj: "module_key a x = module_key b y \<Longrightarrow> a = b"
proof -
  assume eq: "module_key a x = module_key b y"
  have dig: "list_all is_digit (show_nat n)" for n using show_nat_digits by (simp add: list_all_iff)
  have "\<exists>us. module_key n z = ''id='' @ show_nat n @ CHR '' '' # us" for n z
    by (auto simp: module_key_def split: prod.split)
  then obtain us vs where "show_nat a @ CHR '' '' # us = show_nat b @ CHR '' '' # vs" using eq by (metis same_append_eq)
  moreover have "\<not> is_digit (CHR '' '')" by (simp add: is_digit_def)
  ultimately show "a = b" using digits_prefix [OF dig dig] show_nat_inj by metis
qed

lemma module_summary_fold:
  "distinct mids \<Longrightarrow> mid \<in> set mids \<Longrightarrow>
     map_of (fold (\<lambda>mid out. AList.update (key mid) (row mid) out) mids out) (key mid) = Some (row mid)"
  if "\<And>a b. key a = key b \<Longrightarrow> a = b"
proof (induction mids arbitrary: out rule: rev_induct)
  case (snoc m mids)
  then show ?case using that by (cases "mid = m") (auto simp: update_conv')
qed simp

theorem summary_complete:
  assumes "summarize_by_submodule cuda s = (out, t)" and "((ph, mid), st) \<in> set (STATS t)" and "ph \<in> set report_phases"
    and "distinct (map fst (STATS t))"
  shows "\<exists>rows. map_of out (module_key mid (get_module_info mid t)) = Some rows \<and> map_of rows ph = Some (Some (stat_to_dict_ms st))"
proof -
  obtain stats s1 where snap: "timing_snapshot cuda True s = (stats, s1)" by fastforce
  let ?mids = "sort (remdups (map (\<lambda>((ph, mid), st). mid) stats))"
  have t: "t = s1" "STATS t = stats" "out = fold (\<lambda>mid out. AList.update (module_key mid (get_module_info mid s1)) (phase_rows stats mid) out) ?mids []"
    using assms(1) snap by (auto simp: summarize_by_submodule_def timing_snapshot_def Let_def)
  have "mid \<in> set ?mids" using assms(2) t(2) by force
  then have "map_of out (module_key mid (get_module_info mid t)) = Some (phase_rows stats mid)"
    unfolding t(1,3) by (intro module_summary_fold) (auto dest: module_key_inj)
  moreover have "map_of stats (ph, mid) = Some st" using assms(2,4) t(2) by (simp add: map_of_is_SomeI)
  moreover have "map_of (phase_rows stats mid) ph = Some (map_option stat_to_dict_ms (map_of stats (ph, mid)))"
    using assms(3) unfolding phase_rows_def by (simp add: map_of_map_restrict)
  ultimately show ?thesis by auto
qed

end
